(* ===== verification/Prelude.thy ===== *)
theory Prelude
  imports Main "HOL-Library.Word"
begin

text \<open>
  Shared vocabulary of the development: the parts of Go's standard library that the modelled
  sources call (package \<open>strings\<close> on byte strings), the result type of fallible functions, the
  option and list lemmas that several components use, and the collections of rewrite rules the
  component proofs pass to the simplifier.

  A Go \<open>string\<close> is a sequence of bytes and is modelled as a HOL \<^typ>\<open>string\<close>, one
  character per byte.  Case mapping and space trimming are those of the ASCII range: a host name
  reaches the routing code in its ASCII form, and bytes from 128 upwards are left alone.
\<close>

section \<open>Collections\<close>

named_theorems go_string "rewrite rules for the modelled part of package strings"
named_theorems step_simps "unfolding rules for the operations of a component"

section \<open>Results\<close>

text \<open>A Go function returning \<open>(T, error)\<close> is a sum: \<^const>\<open>Inl\<close> the error, \<^const>\<open>Inr\<close> the value.\<close>

type_synonym ('e, 'a) result = "'e + 'a"

fun result_bind :: "('e, 'a) result \<Rightarrow> ('a \<Rightarrow> ('e, 'b) result) \<Rightarrow> ('e, 'b) result" where
  "result_bind (Inl e) f = Inl e"
| "result_bind (Inr x) f = f x"

lemma result_bind_cong [fundef_cong]:
  "r = r' \<Longrightarrow> (\<And>x. r' = Inr x \<Longrightarrow> f x = g x) \<Longrightarrow> result_bind r f = result_bind r' g"
  by (cases r') auto

lemma result_bind_Inr_iff:
  "result_bind r f = Inr y \<longleftrightarrow> (\<exists>x. r = Inr x \<and> f x = Inr y)"
  by (cases r) auto

lemma result_bind_Inl_iff:
  "result_bind r f = Inl e \<longleftrightarrow> r = Inl e \<or> (\<exists>x. r = Inr x \<and> f x = Inl e)"
  by (cases r) auto

section \<open>Package strings\<close>

definition lower_char :: "char \<Rightarrow> char" where
  "lower_char c =
     (let n = (of_char c :: nat) in if 65 \<le> n \<and> n \<le> 90 then char_of (n + 32) else c)"

definition upper_char :: "char \<Rightarrow> char" where
  "upper_char c =
     (let n = (of_char c :: nat) in if 97 \<le> n \<and> n \<le> 122 then char_of (n - 32) else c)"

definition to_lower :: "string \<Rightarrow> string" where
  "to_lower s = map lower_char s"

definition to_upper :: "string \<Rightarrow> string" where
  "to_upper s = map upper_char s"

text \<open>\<open>unicode.IsSpace\<close> on ASCII: tab, line feed, vertical tab, form feed, return, blank.\<close>

definition is_space :: "char \<Rightarrow> bool" where
  "is_space c = (let n = (of_char c :: nat) in (9 \<le> n \<and> n \<le> 13) \<or> n = 32)"

text \<open>\<open>strings.Trim(s, cutset)\<close>, and \<open>strings.TrimSpace(s)\<close>.\<close>

definition trim_by :: "(char \<Rightarrow> bool) \<Rightarrow> string \<Rightarrow> string" where
  "trim_by p s = rev (dropWhile p (rev (dropWhile p s)))"

abbreviation trim_space :: "string \<Rightarrow> string" where
  "trim_space \<equiv> trim_by is_space"

text \<open>\<open>strings.Split(s, sep)\<close> for a separator of one byte: never the empty list.\<close>

fun split_on :: "char \<Rightarrow> string \<Rightarrow> string list" where
  "split_on c [] = [[]]"
| "split_on c (x # xs) =
     (if x = c then [] # split_on c xs
      else (case split_on c xs of [] \<Rightarrow> [[x]] | y # ys \<Rightarrow> (x # y) # ys))"

text \<open>\<open>strings.Join(parts, sep)\<close> for a separator of one byte.\<close>

fun join_with :: "char \<Rightarrow> string list \<Rightarrow> string" where
  "join_with c [] = []"
| "join_with c [p] = p"
| "join_with c (p # q # ps) = p @ c # join_with c (q # ps)"

text \<open>\<open>strings.Join(parts, sep)\<close> for a longer separator.\<close>

fun join_str :: "string \<Rightarrow> string list \<Rightarrow> string" where
  "join_str sep [] = []"
| "join_str sep [p] = p"
| "join_str sep (p # q # ps) = p @ sep @ join_str sep (q # ps)"

definition has_suffix :: "string \<Rightarrow> string \<Rightarrow> bool" where
  "has_suffix s suf = (length suf \<le> length s \<and> drop (length s - length suf) s = suf)"

definition has_prefix :: "string \<Rightarrow> string \<Rightarrow> bool" where
  "has_prefix s pre = (take (length pre) s = pre)"

text \<open>\<open>strings.Contains(s, sub)\<close>.\<close>

fun str_contains :: "string \<Rightarrow> string \<Rightarrow> bool" where
  "str_contains [] sub = (sub = [])"
| "str_contains (x # xs) sub = (has_prefix (x # xs) sub \<or> str_contains xs sub)"

section \<open>Lemmas on the string functions\<close>

lemma split_on_neq_Nil [simp]: "split_on c s \<noteq> []"
  by (cases s) (auto split: list.splits)

lemma join_with_Cons: "ps \<noteq> [] \<Longrightarrow> join_with c (p # ps) = p @ c # join_with c ps"
  by (cases ps) auto

lemma join_split [go_string]: "join_with c (split_on c s) = s"
proof (induction s)
  case (Cons x xs)
  then show ?case
    by (cases "split_on c xs"; cases "tl (split_on c xs)") (auto simp: join_with_Cons)
qed simp

lemma split_on_no_sep: "p \<in> set (split_on c s) \<Longrightarrow> c \<notin> set p"
  by (induction s arbitrary: p) (auto split: list.splits if_splits)

lemma split_on_plain: "c \<notin> set s \<Longrightarrow> split_on c s = [s]"
  by (induction s) auto

lemma split_on_append: "c \<notin> set p \<Longrightarrow> split_on c (p @ c # s) = p # split_on c s"
  by (induction p) auto

lemma split_on_append_any: "split_on c (p @ c # s) = split_on c p @ split_on c s"
  by (induction p) (auto split: list.splits)

lemma split_on_inj: "split_on c s = split_on c t \<longleftrightarrow> s = t"
  by (metis join_split)

lemma join_with_append:
  "ps \<noteq> [] \<Longrightarrow> qs \<noteq> [] \<Longrightarrow> join_with c (ps @ qs) = join_with c ps @ c # join_with c qs"
proof (induction ps)
  case (Cons p ps)
  then show ?case by (cases "ps = []") (auto simp: join_with_Cons)
qed simp

text \<open>Ending with a separator and a text means ending with the text's fields.\<close>

lemma split_suffix_iff:
  "(\<exists>xs. split_on c s = xs @ split_on c t) \<longleftrightarrow> s = t \<or> (\<exists>p. s = p @ c # t)"
proof
  assume "\<exists>xs. split_on c s = xs @ split_on c t"
  then obtain xs where xs: "split_on c s = xs @ split_on c t" ..
  show "s = t \<or> (\<exists>p. s = p @ c # t)"
  proof (cases "xs = []")
    case True
    with xs show ?thesis by (simp add: split_on_inj)
  next
    case False
    have "s = join_with c (xs @ split_on c t)" by (simp add: xs [symmetric] join_split)
    with False show ?thesis by (auto simp: join_with_append join_split)
  qed
next
  assume "s = t \<or> (\<exists>p. s = p @ c # t)"
  then show "\<exists>xs. split_on c s = xs @ split_on c t"
    by (metis append_Nil split_on_append_any)
qed

lemma split_join:
  "ps \<noteq> [] \<Longrightarrow> (\<And>p. p \<in> set ps \<Longrightarrow> c \<notin> set p) \<Longrightarrow> split_on c (join_with c ps) = ps"
proof (induction ps)
  case (Cons p ps)
  show ?case
  proof (cases "ps = []")
    case True
    with Cons.prems show ?thesis by (simp add: split_on_plain)
  next
    case False
    with Cons show ?thesis by (simp add: join_with_Cons split_on_append)
  qed
qed simp

lemma lower_char_idem [simp]: "lower_char (lower_char c) = lower_char c"
  by (simp add: lower_char_def Let_def)

lemma to_lower_idem [simp]: "to_lower (to_lower s) = to_lower s"
  by (simp add: to_lower_def)

lemma length_to_lower [simp]: "length (to_lower s) = length s"
  by (simp add: to_lower_def)

lemma to_lower_Nil_iff [simp]: "to_lower s = [] \<longleftrightarrow> s = []"
  by (simp add: to_lower_def)

lemma lower_upper_char [simp]: "lower_char (upper_char c) = lower_char c"
proof (cases "97 \<le> (of_char c :: nat) \<and> (of_char c :: nat) \<le> 122")
  case True
  define n :: nat where "n = of_char c"
  have n: "97 \<le> n" "n \<le> 122" using True by (simp_all add: n_def)
  have "upper_char c = char_of (n - 32)" using n by (simp add: upper_char_def n_def [symmetric])
  moreover have "(n - 32) mod 256 = n - 32" using n by (intro mod_less) linarith
  ultimately have "of_char (upper_char c) = n - 32" by simp
  moreover have "65 \<le> n - 32 \<and> n - 32 \<le> 90" "n - 32 + 32 = n" using n by linarith+
  ultimately have "lower_char (upper_char c) = char_of n"
    unfolding lower_char_def Let_def by (simp only: if_True simp_thms)
  then show ?thesis using n by (simp add: lower_char_def n_def [symmetric]) (simp add: n_def)
qed (auto simp: upper_char_def Let_def)

lemma lower_upper [simp]: "to_lower (to_upper s) = to_lower s"
  by (simp add: to_lower_def to_upper_def)

lemma has_suffix_iff [go_string]: "has_suffix s suf \<longleftrightarrow> (\<exists>pre. s = pre @ suf)"
proof
  assume "has_suffix s suf"
  then have "s = take (length s - length suf) s @ suf"
    by (metis append_take_drop_id has_suffix_def)
  then show "\<exists>pre. s = pre @ suf" ..
qed (auto simp: has_suffix_def)

lemma has_prefix_iff [go_string]: "has_prefix s pre \<longleftrightarrow> (\<exists>suf. s = pre @ suf)"
  by (auto simp: has_prefix_def) (metis append_take_drop_id)

lemma str_contains_iff [go_string]: "str_contains s sub \<longleftrightarrow> (\<exists>a b. s = a @ sub @ b)"
proof (induction s)
  case (Cons x xs)
  have "(\<exists>a b. x # xs = a @ sub @ b) \<longleftrightarrow>
        (\<exists>b. x # xs = sub @ b) \<or> (\<exists>a b. xs = a @ sub @ b)"
  proof
    assume "\<exists>a b. x # xs = a @ sub @ b"
    then obtain a b where "x # xs = a @ sub @ b" by blast
    then show "(\<exists>b. x # xs = sub @ b) \<or> (\<exists>a b. xs = a @ sub @ b)" by (cases a) auto
  next
    assume "(\<exists>b. x # xs = sub @ b) \<or> (\<exists>a b. xs = a @ sub @ b)"
    then show "\<exists>a b. x # xs = a @ sub @ b" by (metis append_Cons append_Nil)
  qed
  with Cons.IH show ?case by (simp add: has_prefix_iff)
qed auto

section \<open>Lists, options and association lists\<close>

lemma last_conv_nth_length: "xs \<noteq> [] \<Longrightarrow> xs ! (length xs - 1) = last xs"
  by (simp add: last_conv_nth)

lemma map_of_distinct_filter:
  "map_of (filter (\<lambda>kv. fst kv \<noteq> k) xs) = (map_of xs)(k := None)"
  by (induction xs) (auto simp: fun_eq_iff)

section \<open>Words\<close>

lemma unat_less_power: "unat (w :: 'w::len word) < 2 ^ LENGTH('w)"
  by (rule unsigned_less)

lemma unat_plus1:
  fixes w :: "'w::len word"
  assumes "\<not> w + 1 < w"
  shows "unat (w + 1) = unat w + 1"
proof -
  have "unat w + 1 < 2 ^ LENGTH('w)"
    using assms no_plus_overflow_unat_size [of w 1] by (simp add: word_size not_less)
  then show ?thesis by (simp add: unat_word_ariths)
qed

lemma unat_plus1_wrap:
  fixes w :: "'w::len word"
  assumes "\<not> w + 1 > w"
  shows "unat w = 2 ^ LENGTH('w) - 1"
proof -
  have "\<not> unat w + 1 < 2 ^ LENGTH('w)"
  proof
    assume "unat w + 1 < 2 ^ LENGTH('w)"
    then have "unat (w + 1) = unat w + 1" by (simp add: unat_word_ariths)
    with assms show False by (simp add: word_less_nat_alt)
  qed
  with unat_less_power [of w] show ?thesis by linarith
qed

end
