(* ===== verification/Wildcard.thy ===== *)
theory Wildcard
  imports Prelude
begin

text \<open>
  \<open>component/wildcard/wildcard.go\<close>: the glob matcher of the \<open>DOMAIN-WILDCARD\<close> and
  \<open>PROCESS-*-WILDCARD\<close> rules.  The source is one loop written with \<open>goto\<close> over two indices
  and a saved star position; \<open>match_loop\<close> is that loop, \<open>check_pattern\<close> its tail.  The loop is
  proved to stop on every input and to decide the declarative relation \<open>glob\<close>.
\<close>

section \<open>The code\<close>

text \<open>\<open>checkPattern\<close>: skip trailing stars, then compare the index with the pattern's length.\<close>

function check_pattern :: "string \<Rightarrow> nat \<Rightarrow> bool" where
  "check_pattern p pi =
     (if pi < length p \<and> p ! pi = CHR ''*'' then check_pattern p (Suc pi) else pi = length p)"
  by pat_completeness auto
termination
  by (relation "measure (\<lambda>(p, pi). length p - pi)") auto

declare check_pattern.simps [simp del]

text \<open>
  \<open>Loop\<close>: the state is \<open>patternIndex\<close>, \<open>sIndex\<close>, \<open>lastStar\<close> and \<open>star\<close> (\<^const>\<open>None\<close> for \<open>-1\<close>).
  \<^const>\<open>None\<close> as a result would be a loop that never stops.
\<close>

partial_function (option) match_loop ::
  "string \<Rightarrow> string \<Rightarrow> nat \<Rightarrow> nat \<Rightarrow> nat \<Rightarrow> nat option \<Rightarrow> bool option" where
  "match_loop p s pi si lastStar star =
     (if si \<ge> length s then Some (check_pattern p pi)
      else if pi \<ge> length p then
        (case star of
           None \<Rightarrow> Some False
         | Some st \<Rightarrow> match_loop p s (Suc st) (Suc lastStar) (Suc lastStar) star)
      else if p ! pi = CHR ''?'' then match_loop p s (Suc pi) (Suc si) lastStar star
      else if p ! pi = CHR ''*'' then match_loop p s (Suc pi) si si (Some pi)
      else if p ! pi \<noteq> s ! si then
        (case star of
           None \<Rightarrow> Some False
         | Some st \<Rightarrow> match_loop p s (Suc st) (Suc lastStar) (Suc lastStar) star)
      else match_loop p s (Suc pi) (Suc si) lastStar star)"

definition matchByString :: "string \<Rightarrow> string \<Rightarrow> bool option" where
  "matchByString p s = match_loop p s 0 0 0 None"

definition Match :: "string \<Rightarrow> string \<Rightarrow> bool option" where
  "Match p s =
     (if p = [] then Some (s = p)
      else if p = ''*'' \<or> s = p then Some True
      else matchByString p s)"

section \<open>The specification\<close>

text \<open>\<open>*\<close> matches any run of bytes, \<open>?\<close> exactly one byte, any other byte itself.\<close>

fun glob :: "string \<Rightarrow> string \<Rightarrow> bool" where
  "glob [] s = (s = [])"
| "glob (c # p) [] = (c = CHR ''*'' \<and> glob p [])"
| "glob (c # p) (x # s) =
     (if c = CHR ''*'' then glob p (x # s) \<or> glob (c # p) s
      else (c = CHR ''?'' \<or> c = x) \<and> glob p s)"

lemma glob_star: "glob (CHR ''*'' # p) s \<longleftrightarrow> (\<exists>k \<le> length s. glob p (drop k s))"
proof (induction s)
  case (Cons x s)
  have "(\<exists>k \<le> length (x # s). glob p (drop k (x # s))) \<longleftrightarrow>
        glob p (x # s) \<or> (\<exists>k \<le> length s. glob p (drop k s))"
  proof
    assume "\<exists>k \<le> length (x # s). glob p (drop k (x # s))"
    then obtain k where "k \<le> length (x # s)" "glob p (drop k (x # s))" by blast
    then show "glob p (x # s) \<or> (\<exists>k \<le> length s. glob p (drop k s))" by (cases k) auto
  next
    assume "glob p (x # s) \<or> (\<exists>k \<le> length s. glob p (drop k s))"
    then show "\<exists>k \<le> length (x # s). glob p (drop k (x # s))"
      by (metis Suc_le_mono drop0 drop_Suc_Cons le0 length_Cons)
  qed
  with Cons.IH show ?case by simp
qed simp

lemma glob_refl: "glob p p"
  by (induction p) (auto simp: glob_star intro: exI [of _ 1])

lemma glob_only_stars: "glob p [] \<longleftrightarrow> (\<forall>c \<in> set p. c = CHR ''*'')"
  by (induction p) auto

text \<open>A star-free stretch of pattern consumes exactly its own length.\<close>

lemma glob_star_free_prefix:
  "CHR ''*'' \<notin> set q \<Longrightarrow> glob (q @ p) s \<Longrightarrow> length q \<le> length s \<and> glob p (drop (length q) s)"
proof (induction q arbitrary: s)
  case (Cons c q)
  then obtain x t where "s = x # t" "glob (q @ p) t"
    by (cases s) auto
  with Cons show ?case by auto
qed simp

section \<open>The loop decides glob\<close>

lemma check_pattern_glob: "pi \<le> length p \<Longrightarrow> check_pattern p pi \<longleftrightarrow> glob (drop pi p) []"
proof (induction p pi rule: check_pattern.induct)
  case (1 p pi)
  show ?case
  proof (cases "pi < length p")
    case True
    then have "drop pi p = p ! pi # drop (Suc pi) p" by (rule Cons_nth_drop_Suc [symmetric])
    with 1 True show ?thesis by (auto simp: check_pattern.simps [of p pi])
  next
    case False
    with "1.prems" have "pi = length p" by simp
    then show ?thesis by (simp add: check_pattern.simps [of p "length p"])
  qed
qed

text \<open>
  What the loop still has to decide in a state: the current alignment matches, or the last star
  takes more bytes.
\<close>

definition pending :: "string \<Rightarrow> string \<Rightarrow> nat \<Rightarrow> nat \<Rightarrow> nat \<Rightarrow> nat option \<Rightarrow> bool" where
  "pending p s pi si lastStar star \<longleftrightarrow>
     glob (drop pi p) (drop si s) \<or>
     (\<exists>st. star = Some st \<and> (\<exists>k. lastStar < k \<and> k \<le> length s \<and> glob (drop (Suc st) p) (drop k s)))"

text \<open>
  The loop invariant: indices are in range and the bytes from the last star on are aligned with a
  star-free stretch of the pattern.
\<close>

definition loop_inv :: "string \<Rightarrow> string \<Rightarrow> nat \<Rightarrow> nat \<Rightarrow> nat \<Rightarrow> nat option \<Rightarrow> bool" where
  "loop_inv p s pi si lastStar star \<longleftrightarrow>
     pi \<le> length p \<and> si \<le> length s \<and>
     (case star of
        None \<Rightarrow> True
      | Some st \<Rightarrow> st < pi \<and> lastStar \<le> si \<and> pi = Suc st + (si - lastStar) \<and>
          CHR ''*'' \<notin> set (take (si - lastStar) (drop (Suc st) p)))"

lemma loop_inv_backtrack:
  "loop_inv p s pi si ls (Some st) \<Longrightarrow> si < length s \<Longrightarrow>
     loop_inv p s (Suc st) (Suc ls) (Suc ls) (Some st)"
  by (auto simp: loop_inv_def)

lemma loop_inv_star:
  "loop_inv p s pi si ls star \<Longrightarrow> pi < length p \<Longrightarrow> loop_inv p s (Suc pi) si si (Some pi)"
  by (auto simp: loop_inv_def)

lemma loop_inv_advance:
  assumes "loop_inv p s pi si ls star" "pi < length p" "si < length s" "p ! pi \<noteq> CHR ''*''"
  shows "loop_inv p s (Suc pi) (Suc si) ls star"
proof (cases star)
  case None
  with assms show ?thesis by (simp add: loop_inv_def)
next
  case (Some st)
  have "take (Suc si - ls) (drop (Suc st) p) = take (si - ls) (drop (Suc st) p) @ [p ! pi]"
  proof -
    have pi: "pi = Suc st + (si - ls)" "ls \<le> si" using assms(1) Some by (auto simp: loop_inv_def)
    with assms(2) have "si - ls < length (drop (Suc st) p)" "drop (Suc st) p ! (si - ls) = p ! pi"
      by auto
    then show ?thesis using pi(2) by (simp only: Suc_diff_le take_Suc_conv_app_nth)
  qed
  with assms Some show ?thesis by (auto simp: loop_inv_def)
qed

lemma pending_backtrack:
  assumes "loop_inv p s pi si ls (Some st)" "si < length s" "\<not> glob (drop pi p) (drop si s)"
  shows "pending p s pi si ls (Some st) = pending p s (Suc st) (Suc ls) (Suc ls) (Some st)"
proof -
  have ls: "Suc ls \<le> length s" using assms(1,2) by (simp add: loop_inv_def)
  have "(\<exists>k. ls < k \<and> k \<le> length s \<and> glob (drop (Suc st) p) (drop k s)) \<longleftrightarrow>
        glob (drop (Suc st) p) (drop (Suc ls) s) \<or>
        (\<exists>k. Suc ls < k \<and> k \<le> length s \<and> glob (drop (Suc st) p) (drop k s))"
    using ls by (metis Suc_lessI lessI less_SucI less_or_eq_imp_le Suc_lessD)
  with assms(3) show ?thesis by (simp add: pending_def)
qed

lemma pending_star:
  assumes inv: "loop_inv p s pi si ls star" and pi: "pi < length p" "p ! pi = CHR ''*''"
  shows "pending p s pi si ls star = pending p s (Suc pi) si si (Some pi)"
proof -
  have dp: "drop pi p = CHR ''*'' # drop (Suc pi) p"
    using pi by (metis Cons_nth_drop_Suc)
  have si: "si \<le> length s" using inv by (simp add: loop_inv_def)
  have now: "glob (drop pi p) (drop si s) \<longleftrightarrow>
      (\<exists>k. si \<le> k \<and> k \<le> length s \<and> glob (drop (Suc pi) p) (drop k s))"
  proof
    assume "glob (drop pi p) (drop si s)"
    then obtain j where "j \<le> length s - si" "glob (drop (Suc pi) p) (drop (si + j) s)"
      unfolding dp glob_star by (auto simp: add.commute)
    then show "\<exists>k. si \<le> k \<and> k \<le> length s \<and> glob (drop (Suc pi) p) (drop k s)"
      using si by (intro exI [of _ "si + j"]) auto
  next
    assume "\<exists>k. si \<le> k \<and> k \<le> length s \<and> glob (drop (Suc pi) p) (drop k s)"
    then obtain k where "si \<le> k" "k \<le> length s" "glob (drop (Suc pi) p) (drop k s)" by blast
    then show "glob (drop pi p) (drop si s)"
      unfolding dp glob_star by (intro exI [of _ "k - si"]) auto
  qed
  have old: "glob (drop pi p) (drop si s)"
    if "star = Some st" "ls < k" "k \<le> length s" "glob (drop (Suc st) p) (drop k s)" for st k
  proof -
    let ?q = "take (si - ls) (drop (Suc st) p)"
    have q: "pi = Suc st + (si - ls)" "ls \<le> si" "CHR ''*'' \<notin> set ?q" "length ?q = si - ls"
      using inv that(1) by (auto simp: loop_inv_def)
    have "drop (Suc st) p = ?q @ drop pi p"
      using q by (metis append_take_drop_id drop_drop add.commute)
    with that(4) q(3) have "length ?q \<le> length (drop k s)"
      "glob (drop pi p) (drop (length ?q) (drop k s))"
      using glob_star_free_prefix by metis+
    then have "glob (CHR ''*'' # drop (Suc pi) p) (drop (k + (si - ls)) s)"
      and le: "k + (si - ls) \<le> length s"
      using q(4) dp that(3) by (auto simp: add.commute)
    then obtain j where j: "j \<le> length s - (k + (si - ls))"
      "glob (drop (Suc pi) p) (drop (k + (si - ls) + j) s)"
      unfolding glob_star by (auto simp: add.commute add.left_commute)
    then have "si \<le> k + (si - ls) + j" "k + (si - ls) + j \<le> length s"
      using that(2) q(2) le by auto
    with j(2) now show ?thesis by blast
  qed
  have "pending p s pi si ls star \<longleftrightarrow> glob (drop pi p) (drop si s)"
    using old unfolding pending_def by blast
  also have "\<dots> \<longleftrightarrow> glob (drop (Suc pi) p) (drop si s) \<or>
      (\<exists>k. si < k \<and> k \<le> length s \<and> glob (drop (Suc pi) p) (drop k s))"
    unfolding now using si by (metis le_neq_implies_less less_or_eq_imp_le order_refl)
  also have "\<dots> = pending p s (Suc pi) si si (Some pi)"
    by (simp add: pending_def)
  finally show ?thesis .
qed

lemma glob_step:
  assumes "pi < length p" "si < length s" "p ! pi \<noteq> CHR ''*''"
  shows "glob (drop pi p) (drop si s) \<longleftrightarrow>
    (p ! pi = CHR ''?'' \<or> p ! pi = s ! si) \<and> glob (drop (Suc pi) p) (drop (Suc si) s)"
  using assms by (simp add: Cons_nth_drop_Suc [symmetric])

lemma pending_advance:
  assumes "pi < length p" "si < length s" "p ! pi \<noteq> CHR ''*''"
    and "p ! pi = CHR ''?'' \<or> p ! pi = s ! si"
  shows "pending p s pi si ls star = pending p s (Suc pi) (Suc si) ls star"
  using assms by (simp add: pending_def glob_step)

lemma pending_end:
  assumes "loop_inv p s pi (length s) ls star"
  shows "pending p s pi (length s) ls star = glob (drop pi p) []"
proof -
  have False if "star = Some st" "ls < k" "k \<le> length s" "glob (drop (Suc st) p) (drop k s)" for st k
  proof -
    let ?q = "take (length s - ls) (drop (Suc st) p)"
    have "pi \<le> length p" "pi = Suc st + (length s - ls)" "CHR ''*'' \<notin> set ?q"
      using assms that(1) by (auto simp: loop_inv_def)
    then have "length ?q = length s - ls" by auto
    moreover have "length ?q \<le> length (drop k s)"
      using that(4) \<open>CHR ''*'' \<notin> set ?q\<close> glob_star_free_prefix by (metis append_take_drop_id)
    ultimately show False using that(2,3) by simp
  qed
  then show ?thesis by (auto simp: pending_def)
qed

text \<open>The work left in a state; every branch of the loop decreases it lexicographically.\<close>

definition loop_order ::
  "string \<Rightarrow> string \<Rightarrow> ((nat \<times> nat \<times> nat \<times> nat option) \<times> (nat \<times> nat \<times> nat \<times> nat option)) set" where
  "loop_order p s = measures
     [\<lambda>(pi, si, ls, star). length p - (case star of None \<Rightarrow> 0 | Some st \<Rightarrow> Suc st),
      \<lambda>(pi, si, ls, star). length s - (case star of None \<Rightarrow> 0 | Some st \<Rightarrow> ls),
      \<lambda>(pi, si, ls, star). length s - si]"

lemma wf_loop_order: "wf (loop_order p s)"
  by (simp add: loop_order_def)

lemma match_loop_correct:
  assumes "loop_inv p s pi si ls star"
  shows "match_loop p s pi si ls star = Some (pending p s pi si ls star)"
  using assms
proof (induction "(pi, si, ls, star)" arbitrary: pi si ls star rule: wf_induct_rule [OF wf_loop_order [of p s]])
  case less: (1 pi si ls star)
  note inv = less.prems
  let ?alt = "\<lambda>st. match_loop p s (Suc st) (Suc ls) (Suc ls) star"
  have alt: "(case star of None \<Rightarrow> Some False | Some st \<Rightarrow> ?alt st) =
      Some (pending p s pi si ls star)"
    if "si < length s" "\<not> glob (drop pi p) (drop si s)"
  proof (cases star)
    case None
    with that show ?thesis by (simp add: pending_def)
  next
    case (Some st)
    with inv that(1) have "((Suc st, Suc ls, Suc ls, star), (pi, si, ls, star)) \<in> loop_order p s"
      by (auto simp: loop_order_def loop_inv_def)
    then have "match_loop p s (Suc st) (Suc ls) (Suc ls) star =
        Some (pending p s (Suc st) (Suc ls) (Suc ls) star)"
      using less.hyps loop_inv_backtrack inv that(1) Some by blast
    with Some that inv show ?thesis by (simp add: pending_backtrack)
  qed
  consider (stop) "si = length s" | (out) "si < length s" "pi = length p"
    | (star) "si < length s" "pi < length p" "p ! pi = CHR ''*''"
    | (adv) "si < length s" "pi < length p" "p ! pi \<noteq> CHR ''*''"
        "p ! pi = CHR ''?'' \<or> p ! pi = s ! si"
    | (mis) "si < length s" "pi < length p" "p ! pi \<noteq> CHR ''*''" "p ! pi \<noteq> CHR ''?''"
        "p ! pi \<noteq> s ! si"
    using inv unfolding loop_inv_def by fastforce
  then show ?case
  proof cases
    case stop
    with inv pending_end [of p s pi ls star] check_pattern_glob [of pi p] show ?thesis
      by (simp add: match_loop.simps loop_inv_def)
  next
    case out
    then show ?thesis using alt by (simp add: match_loop.simps [of p s "length p"])
  next
    case star
    have "((Suc pi, si, si, Some pi), (pi, si, ls, star)) \<in> loop_order p s"
      using inv star(2) by (auto simp: loop_order_def loop_inv_def split: option.splits)
    then have "match_loop p s (Suc pi) si si (Some pi) = Some (pending p s (Suc pi) si si (Some pi))"
      using less.hyps loop_inv_star inv star(2) by blast
    with star inv show ?thesis by (simp add: match_loop.simps [of p s pi] pending_star)
  next
    case adv
    then have "((Suc pi, Suc si, ls, star), (pi, si, ls, star)) \<in> loop_order p s"
      by (auto simp: loop_order_def)
    then have "match_loop p s (Suc pi) (Suc si) ls star = Some (pending p s (Suc pi) (Suc si) ls star)"
      using less.hyps loop_inv_advance inv adv by blast
    with adv show ?thesis by (auto simp: match_loop.simps [of p s pi] pending_advance)
  next
    case mis
    then have "\<not> glob (drop pi p) (drop si s)" by (simp add: glob_step)
    with mis alt show ?thesis by (simp add: match_loop.simps [of p s pi])
  qed
qed

lemma matchByString_glob: "matchByString p s = Some (glob p s)"
  by (simp add: matchByString_def match_loop_correct loop_inv_def pending_def)

section \<open>Properties\<close>

lemma Match_glob: "Match p s = Some (glob p s)"
proof (cases "p = ''*''")
  case True
  then show ?thesis by (auto simp: Match_def glob_star intro: exI [of _ "length s"])
next
  case False
  then show ?thesis by (auto simp: Match_def matchByString_glob glob_refl)
qed

text \<open>
  C1. The glob matcher stops on every pattern and every subject and returns exactly whether the
  subject belongs to the language of the pattern; the two shortcuts in front of the loop (the
  pattern \<open>*\<close>, a subject equal to the pattern) agree with that language.
\<close>

theorem Match_decides_glob: "Match p s = Some (glob p s)"
  by (rule Match_glob)

end
