(* ===== verification/Netip.thy ===== *)
theory Netip
  imports Prelude
begin

text \<open>
  The part of Go's package \<open>net/netip\<close> the routing code uses: addresses with the invalid zero
  value, 4-byte and 16-byte addresses (the latter with a zone), prefixes, their order and their
  byte form.  \<open>ParseAddr\<close> and \<open>ParsePrefix\<close> are arguments of the definitions that call them.
\<close>

unbundle bit_operations_syntax

section \<open>Addresses\<close>

datatype addr = NoAddr | V4 "32 word" | V6 "128 word" string

fun IsValid :: "addr \<Rightarrow> bool" where
  "IsValid NoAddr = False"
| "IsValid (V4 a) = True"
| "IsValid (V6 a z) = True"

fun Is4 :: "addr \<Rightarrow> bool" where
  "Is4 (V4 a) = True"
| "Is4 a = False"

fun Is6 :: "addr \<Rightarrow> bool" where
  "Is6 (V6 a z) = True"
| "Is6 a = False"

text \<open>\<open>Unmap\<close> turns an IPv4-mapped IPv6 address into the IPv4 address.\<close>

fun Unmap :: "addr \<Rightarrow> addr" where
  "Unmap (V6 a z) = (if drop_bit 32 a = 0xffff then V4 (ucast a) else V6 a z)"
| "Unmap a = a"

fun WithZone :: "string \<Rightarrow> addr \<Rightarrow> addr" where
  "WithZone z (V6 a z0) = V6 a z"
| "WithZone z a = a"

text \<open>Big-endian bytes of a word; \<open>AsSlice\<close> is nil on the zero value.\<close>

definition be_bytes :: "nat \<Rightarrow> 'w::len word \<Rightarrow> 8 word list" where
  "be_bytes n w = map (\<lambda>i. ucast (drop_bit (8 * i) w)) (rev [0..<n])"

fun AsSlice :: "addr \<Rightarrow> 8 word list" where
  "AsSlice NoAddr = []"
| "AsSlice (V4 a) = be_bytes 4 a"
| "AsSlice (V6 a z) = be_bytes 16 a"

text \<open>\<open>Next\<close> and \<open>Prev\<close> give the zero value past the last and before the first address.\<close>

fun Next :: "addr \<Rightarrow> addr" where
  "Next NoAddr = NoAddr"
| "Next (V4 a) = (if a + 1 = 0 then NoAddr else V4 (a + 1))"
| "Next (V6 a z) = (if a + 1 = 0 then NoAddr else V6 (a + 1) z)"

fun Prev :: "addr \<Rightarrow> addr" where
  "Prev NoAddr = NoAddr"
| "Prev (V4 a) = (if a = 0 then NoAddr else V4 (a - 1))"
| "Prev (V6 a z) = (if a = 0 then NoAddr else V6 (a - 1) z)"

text \<open>\<open>Less\<close>: by bit length, then by value (zones break ties and are not compared here).\<close>

fun Less :: "addr \<Rightarrow> addr \<Rightarrow> bool" where
  "Less NoAddr b = (b \<noteq> NoAddr)"
| "Less (V4 a) NoAddr = False"
| "Less (V4 a) (V4 b) = (a < b)"
| "Less (V4 a) (V6 b z) = True"
| "Less (V6 a z) (V6 b z') = (a < b)"
| "Less (V6 a z) b = False"

section \<open>Address classes\<close>

fun IsPrivate :: "addr \<Rightarrow> bool" where
  "IsPrivate (V4 a) =
     (drop_bit 24 a = 10 \<or> drop_bit 20 a = 0xac1 \<or> drop_bit 16 a = 0xc0a8)"
| "IsPrivate (V6 a z) = (drop_bit 121 a = 0x7e)"
| "IsPrivate NoAddr = False"

fun IsUnspecified :: "addr \<Rightarrow> bool" where
  "IsUnspecified (V4 a) = (a = 0)"
| "IsUnspecified (V6 a z) = (a = 0 \<and> z = [])"
| "IsUnspecified NoAddr = False"

fun IsLoopback :: "addr \<Rightarrow> bool" where
  "IsLoopback (V4 a) = (drop_bit 24 a = 127)"
| "IsLoopback (V6 a z) = (a = 1)"
| "IsLoopback NoAddr = False"

fun IsMulticast :: "addr \<Rightarrow> bool" where
  "IsMulticast (V4 a) = (drop_bit 28 a = 14)"
| "IsMulticast (V6 a z) = (drop_bit 120 a = 0xff)"
| "IsMulticast NoAddr = False"

fun IsLinkLocalUnicast :: "addr \<Rightarrow> bool" where
  "IsLinkLocalUnicast (V4 a) = (drop_bit 16 a = 0xa9fe)"
| "IsLinkLocalUnicast (V6 a z) = (drop_bit 118 a = 0x3fa)"
| "IsLinkLocalUnicast NoAddr = False"

section \<open>Prefixes\<close>

record prefix =
  p_addr :: addr
  p_bits :: nat

fun prefix_valid :: "prefix \<Rightarrow> bool" where
  "prefix_valid p =
     (case p_addr p of NoAddr \<Rightarrow> False | V4 a \<Rightarrow> p_bits p \<le> 32 | V6 a z \<Rightarrow> z = [] \<and> p_bits p \<le> 128)"

text \<open>
  \<open>Prefix.Contains\<close>: same family, no zone, and equal leading bits; an invalid prefix contains
  nothing.
\<close>

definition prefix_contains :: "prefix \<Rightarrow> addr \<Rightarrow> bool" where
  "prefix_contains p ip =
     (prefix_valid p \<and>
      (case (p_addr p, ip) of
         (V4 a, V4 b) \<Rightarrow> drop_bit (32 - p_bits p) a = drop_bit (32 - p_bits p) b
       | (V6 a _, V6 b z) \<Rightarrow> z = [] \<and> drop_bit (128 - p_bits p) a = drop_bit (128 - p_bits p) b
       | _ \<Rightarrow> False))"

section \<open>Lemmas\<close>

lemma Unmap_idem [simp]: "Unmap (Unmap a) = Unmap a"
  by (cases a) auto

lemma IsValid_Unmap [simp]: "IsValid (Unmap a) = IsValid a"
  by (cases a) auto

lemma length_be_bytes [simp]: "length (be_bytes n w) = n"
  by (simp add: be_bytes_def)

lemma length_AsSlice: "length (AsSlice a) = (case a of NoAddr \<Rightarrow> 0 | V4 _ \<Rightarrow> 4 | V6 _ _ \<Rightarrow> 16)"
  by (cases a) auto

lemma AsSlice_Nil_iff [simp]: "AsSlice a = [] \<longleftrightarrow> \<not> IsValid a"
  by (cases a) (auto simp: be_bytes_def)

lemma prefix_contains_IsValid: "prefix_contains p ip \<Longrightarrow> IsValid ip"
  by (cases ip) (auto simp: prefix_contains_def split: addr.splits)

lemma Next_Prev_V4: "a \<noteq> 0 \<Longrightarrow> Next (Prev (V4 a)) = V4 a"
  by simp

end
