(* ===== verification/Int_Ranges.thy ===== *)
theory Int_Ranges
  imports Prelude
begin

text \<open>
  \<open>common/utils/range.go\<close> and \<open>common/utils/ranges.go\<close>: the integer range lists of the port, uid
  and DSCP rules, of the health check's expected status and of port hopping.  Ranges are over any
  ordered type as in the source; the unsigned integers of width \<open>w\<close> are \<open>w word\<close>, whose order
  is the unsigned one and whose \<open>+\<close> wraps.  \<open>strconv.ParseUint(s, 10, 64)\<close> and the decimal
  rendering of \<open>fmt\<close>'s \<open>%v\<close> are the standard library's.
\<close>

section \<open>Decimal numbers\<close>

definition is_digit :: "char \<Rightarrow> bool" where
  "is_digit c = (let n = (of_char c :: nat) in 48 \<le> n \<and> n \<le> 57)"

definition digit_val :: "char \<Rightarrow> nat" where
  "digit_val c = of_char c - 48"

definition decimal_val :: "string \<Rightarrow> nat" where
  "decimal_val s = foldl (\<lambda>a c. 10 * a + digit_val c) 0 s"

text \<open>\<open>strconv.ParseUint(s, 10, 64)\<close>: digits only, at least one, and the value fits 64 bits.\<close>

definition parse_uint64 :: "string \<Rightarrow> nat option" where
  "parse_uint64 s =
     (if s = [] \<or> \<not> list_all is_digit s then None
      else if decimal_val s < 2 ^ 64 then Some (decimal_val s) else None)"

fun show_nat :: "nat \<Rightarrow> string" where
  "show_nat n =
     (if n < 10 then [''0123456789'' ! n] else show_nat (n div 10) @ [''0123456789'' ! (n mod 10)])"

declare show_nat.simps [simp del]

section \<open>range.go\<close>

record 'a Range =
  r_start :: 'a
  r_end :: 'a

definition NewRange :: "'a::linorder \<Rightarrow> 'a \<Rightarrow> 'a Range" where
  "NewRange s e = (if s > e then \<lparr>r_start = e, r_end = s\<rparr> else \<lparr>r_start = s, r_end = e\<rparr>)"

definition Contains :: "'a::linorder Range \<Rightarrow> 'a \<Rightarrow> bool" where
  "Contains r t = (t \<ge> r_start r \<and> t \<le> r_end r)"

definition LeftContains :: "'a::linorder Range \<Rightarrow> 'a \<Rightarrow> bool" where
  "LeftContains r t = (t \<ge> r_start r \<and> t < r_end r)"

definition RightContains :: "'a::linorder Range \<Rightarrow> 'a \<Rightarrow> bool" where
  "RightContains r t = (t > r_start r \<and> t \<le> r_end r)"

definition Range_String :: "'w::len word Range \<Rightarrow> string" where
  "Range_String r =
     (if r_start r = r_end r then show_nat (unat (r_start r))
      else show_nat (unat (r_start r)) @ ''-'' @ show_nat (unat (r_end r)))"

datatype range_error = InvalidRange string | TooManyRanges

text \<open>\<open>T(val)\<close> converts the 64-bit value to \<open>T\<close>, keeping its low bits.\<close>

definition parseUnsigned :: "string \<Rightarrow> 'w::len word option" where
  "parseUnsigned s = map_option of_nat (parse_uint64 s)"

abbreviation trim_brackets :: "string \<Rightarrow> string" where
  "trim_brackets \<equiv> trim_by (\<lambda>c. c = CHR ''['' \<or> c = CHR '' '' \<or> c = CHR '']'')"

definition newIntRange :: "string \<Rightarrow> (string \<Rightarrow> 'a::{linorder, zero} option) \<Rightarrow> (range_error, 'a Range) result" where
  "newIntRange s0 parseFn =
     (let s = trim_space s0 in
      if length s = 0 then Inr (NewRange 0 0)
      else
        let status = split_on (CHR ''-'') s in
        case parseFn (trim_brackets (status ! 0)) of
          None \<Rightarrow> Inl (InvalidRange s)
        | Some start \<Rightarrow>
            if length status = 1 then Inr (NewRange start start)
            else if length status = 2 then
              (case parseFn (trim_brackets (status ! 1)) of
                 None \<Rightarrow> Inl (InvalidRange s)
               | Some e \<Rightarrow> Inr (NewRange start e))
            else Inl (InvalidRange s))"

definition NewUnsignedRange :: "string \<Rightarrow> (range_error, 'w::len word Range) result" where
  "NewUnsignedRange expected = newIntRange expected parseUnsigned"

section \<open>ranges.go\<close>

fun newIntRangesFromList ::
  "string list \<Rightarrow> (string \<Rightarrow> 'a::{linorder, zero} option) \<Rightarrow> (range_error, 'a Range list) result" where
  "newIntRangesFromList [] parseFn = Inr []"
| "newIntRangesFromList (s # ss) parseFn =
     (if s = [] then newIntRangesFromList ss parseFn
      else
        case newIntRange s parseFn of
          Inl e \<Rightarrow> Inl e
        | Inr r \<Rightarrow>
            (case newIntRangesFromList ss parseFn of Inl e \<Rightarrow> Inl e | Inr rs \<Rightarrow> Inr (r # rs)))"

definition newIntRanges ::
  "string \<Rightarrow> (string \<Rightarrow> 'a::{linorder, zero} option) \<Rightarrow> (range_error, 'a Range list) result" where
  "newIntRanges expected0 parseFn =
     (let expected = trim_space expected0 in
      if length expected = 0 \<or> expected = ''*'' then Inr []
      else
        let list = split_on (CHR ''/'') (map (\<lambda>c. if c = CHR '','' then CHR ''/'' else c) expected) in
        if length list > 28 then Inl TooManyRanges
        else newIntRangesFromList list parseFn)"

definition NewUnsignedRanges :: "string \<Rightarrow> (range_error, 'w::len word Range list) result" where
  "NewUnsignedRanges expected = newIntRanges expected parseUnsigned"

definition NewUnsignedRangesFromList :: "string list \<Rightarrow> (range_error, 'w::len word Range list) result" where
  "NewUnsignedRangesFromList list = newIntRangesFromList list parseUnsigned"

definition Check :: "'a::linorder Range list \<Rightarrow> 'a \<Rightarrow> bool" where
  "Check ranges status = (if length ranges = 0 then True else list_ex (\<lambda>segment. Contains segment status) ranges)"

definition Ranges_String :: "'w::len word Range list \<Rightarrow> string" where
  "Ranges_String ranges =
     (if length ranges = 0 then ''*'' else join_with (CHR ''/'') (map Range_String ranges))"

text \<open>
  \<open>Range(f)\<close>: the callback carries a state and answers whether to go on.  The inner loop over one
  range returns whether the callback asked to stop.
\<close>

function range_values ::
  "'w::len word \<Rightarrow> 'w word Range \<Rightarrow> ('w word \<Rightarrow> 's \<Rightarrow> bool \<times> 's) \<Rightarrow> 's \<Rightarrow> bool \<times> 's" where
  "range_values i r f s =
     (if i \<le> r_end r \<and> i \<ge> r_start r then
        (case f i s of (cont, s') \<Rightarrow>
           if \<not> cont then (False, s')
           else if i + 1 < i then (True, s')
           else range_values (i + 1) r f s')
      else (True, s))"
  by pat_completeness auto
termination
proof (relation "measure (\<lambda>(i, r, f, s). unat (- 1 - i))", simp, goal_cases)
  case (1 i r f s cont s')
  then have "unat (i + 1) = unat i + 1" by (intro unat_plus1) auto
  moreover have sub: "unat (- 1 - w) = unat (- 1 :: 'a word) - unat w" for w :: "'a word"
    by (rule unat_sub) simp
  moreover have "unat (i + 1) \<le> unat (- 1 :: 'a word)"
    using word_order.extremum [of "i + 1"] by (simp only: word_le_nat_alt)
  ultimately have "unat (- 1 - (i + 1)) < unat (- 1 - i)"
    unfolding sub by linarith
  then show ?case by (simp only: in_measure prod.case)
qed

declare range_values.simps [simp del]

fun Ranges_Range :: "'w::len word Range list \<Rightarrow> ('w word \<Rightarrow> 's \<Rightarrow> bool \<times> 's) \<Rightarrow> 's \<Rightarrow> 's" where
  "Ranges_Range [] f s = s"
| "Ranges_Range (r # rs) f s =
     (case range_values (r_start r) r f s of (cont, s') \<Rightarrow>
        if \<not> cont then s' else Ranges_Range rs f s')"

text \<open>
  \<open>Merge\<close>.  \<open>mergedRanges\<close> starts as \<open>ranges[:1]\<close> and shares the array of \<open>ranges\<close>: the append
  writes into that array while the loop still reads from it, so the model keeps one array, the
  loop position \<open>k\<close> and \<open>rangeIndex\<close>; the result is the array's prefix.  \<open>sort.Slice\<close> orders by
  the start; equal starts may come in any order, and the lemmas below hold for every such order.
\<close>

function merge_loop :: "'w::len word Range list \<Rightarrow> nat \<Rightarrow> nat \<Rightarrow> 'w word Range list" where
  "merge_loop arr k ri =
     (if k < length arr then
        let r = arr ! k; cur = arr ! ri in
        if r_end cur + 1 > r_end cur \<and> r_start r > r_end cur + 1
        then merge_loop (arr[Suc ri := r]) (Suc k) (Suc ri)
        else if r_end r > r_end cur
        then merge_loop (arr[ri := cur\<lparr>r_end := r_end r\<rparr>]) (Suc k) ri
        else merge_loop arr (Suc k) ri
      else take (Suc ri) arr)"
  by pat_completeness auto
termination
  by (relation "measure (\<lambda>(arr, k, ri). length arr - k)") auto

declare merge_loop.simps [simp del]

definition Merge :: "'w::len word Range list \<Rightarrow> 'w word Range list" where
  "Merge ranges = (if length ranges = 0 then [] else merge_loop (sort_key r_start ranges) 1 0)"

section \<open>Decimal round trip\<close>

lemma digit_char:
  assumes "n < 10"
  shows "is_digit (''0123456789'' ! n) \<and> digit_val (''0123456789'' ! n) = n"
proof -
  from assms have "n \<in> {0, 1, 2, 3, 4, 5, 6, 7, 8, 9}" by auto
  then show ?thesis by (auto simp: is_digit_def digit_val_def)
qed

lemma decimal_val_snoc: "decimal_val (s @ [c]) = 10 * decimal_val s + digit_val c"
  by (simp add: decimal_val_def)

lemma show_nat_digits: "show_nat n \<noteq> [] \<and> list_all is_digit (show_nat n) \<and> decimal_val (show_nat n) = n"
proof (induction n rule: show_nat.induct)
  case (1 n)
  show ?case
  proof (cases "n < 10")
    case True
    then show ?thesis
      using digit_char [of n] by (simp add: show_nat.simps [of n] decimal_val_def)
  next
    case False
    with 1 digit_char [of "n mod 10"] show ?thesis
      by (simp add: show_nat.simps [of n] decimal_val_snoc)
  qed
qed

lemma parse_show: "n < 2 ^ 64 \<Longrightarrow> parse_uint64 (show_nat n) = Some n"
  using show_nat_digits [of n] by (simp add: parse_uint64_def)

lemma parseUnsigned_show:
  fixes w :: "'w::len word"
  assumes "LENGTH('w) \<le> 64"
  shows "parseUnsigned (show_nat (unat w)) = Some w"
proof -
  have "unat w < 2 ^ 64"
    using unat_less_power [of w] power_increasing [OF assms, of "2 :: nat"] by linarith
  then show ?thesis by (simp add: parseUnsigned_def parse_show)
qed

lemma digits_plain:
  assumes "list_all is_digit s"
  shows "CHR ''-'' \<notin> set s" "CHR ''/'' \<notin> set s" "CHR '','' \<notin> set s" "CHR ''*'' \<notin> set s"
    "\<And>c. c \<in> set s \<Longrightarrow> \<not> is_space c \<and> c \<noteq> CHR ''['' \<and> c \<noteq> CHR '' '' \<and> c \<noteq> CHR '']''"
  using assms by (auto simp: list_all_iff is_digit_def is_space_def Let_def)

lemma trim_by_id: "(\<And>c. c \<in> set s \<Longrightarrow> \<not> p c) \<Longrightarrow> trim_by p s = s"
  by (simp add: trim_by_def dropWhile_eq_self_iff) (metis hd_in_set rev_is_Nil_conv set_rev dropWhile_eq_self_iff rev_rev_ident)

lemma show_nat_plain:
  "CHR ''-'' \<notin> set (show_nat n)" "CHR ''/'' \<notin> set (show_nat n)" "CHR '','' \<notin> set (show_nat n)"
  "CHR ''*'' \<notin> set (show_nat n)" "show_nat n \<noteq> []"
  "trim_brackets (show_nat n) = show_nat n"
  "c \<in> set (show_nat n) \<Longrightarrow> \<not> is_space c"
  using digits_plain [of "show_nat n"] show_nat_digits [of n] by (auto intro!: trim_by_id)

lemma Range_String_plain:
  "CHR ''/'' \<notin> set (Range_String r)" "CHR '','' \<notin> set (Range_String r)" "CHR ''*'' \<notin> set (Range_String r)"
  "Range_String r \<noteq> []" "c \<in> set (Range_String r) \<Longrightarrow> \<not> is_space c"
  using show_nat_plain by (auto simp: Range_String_def is_space_def [of "CHR ''-''"] split: if_splits)

lemma newIntRange_String:
  fixes r :: "'w::len word Range"
  assumes "LENGTH('w) \<le> 64" "r_start r \<le> r_end r"
  shows "newIntRange (Range_String r) parseUnsigned = Inr r"
proof -
  have trim: "trim_space (Range_String r) = Range_String r"
    by (rule trim_by_id) (rule Range_String_plain)
  show ?thesis
  proof (cases "r_start r = r_end r")
    case True
    then show ?thesis
      using trim show_nat_plain [where n = "unat (r_end r)"] parseUnsigned_show [OF assms(1)]
      by (simp add: newIntRange_def Let_def Range_String_def split_on_plain NewRange_def)
  next
    case False
    have "split_on (CHR ''-'') (Range_String r) =
        [show_nat (unat (r_start r)), show_nat (unat (r_end r))]"
      using False by (simp add: Range_String_def split_on_append split_on_plain show_nat_plain)
    then show ?thesis
      using trim False assms Range_String_plain(4) [of r] parseUnsigned_show [OF assms(1)]
      by (simp add: newIntRange_def Let_def show_nat_plain NewRange_def)
  qed
qed

lemma newIntRangesFromList_String:
  fixes rs :: "'w::len word Range list"
  assumes "LENGTH('w) \<le> 64" "list_all (\<lambda>r. r_start r \<le> r_end r) rs"
  shows "newIntRangesFromList (map Range_String rs) parseUnsigned = Inr rs"
  using assms(2) by (induction rs) (auto simp: newIntRange_String [OF assms(1)] Range_String_plain)

section \<open>Merging\<close>

text \<open>The merge written over lists: the current range and the ranges still to come.\<close>

fun merge_ref :: "'w::len word Range \<Rightarrow> 'w word Range list \<Rightarrow> 'w word Range list" where
  "merge_ref cur [] = [cur]"
| "merge_ref cur (r # rs) =
     (if r_end cur + 1 > r_end cur \<and> r_start r > r_end cur + 1 then cur # merge_ref r rs
      else if r_end r > r_end cur then merge_ref (cur\<lparr>r_end := r_end r\<rparr>) rs
      else merge_ref cur rs)"

text \<open>Writing into the array that is being read changes no element the loop has yet to read.\<close>

lemma merge_loop_ref:
  "ri < k \<Longrightarrow> k \<le> length arr \<Longrightarrow>
     merge_loop arr k ri = take ri arr @ merge_ref (arr ! ri) (drop k arr)"
proof (induction arr k ri rule: merge_loop.induct)
  case (1 arr k ri)
  show ?case
  proof (cases "k < length arr")
    case False
    with "1.prems" have "k = length arr" by simp
    with "1.prems" show ?thesis
      by (simp add: merge_loop.simps [of arr "length arr" ri] take_Suc_conv_app_nth)
  next
    case True
    have dk: "drop k arr = arr ! k # drop (Suc k) arr" by (simp add: Cons_nth_drop_Suc True)
    let ?cur = "arr ! ri" and ?r = "arr ! k"
    consider (gap) "r_end ?cur + 1 > r_end ?cur \<and> r_start ?r > r_end ?cur + 1"
      | (ext) "\<not> (r_end ?cur + 1 > r_end ?cur \<and> r_start ?r > r_end ?cur + 1)" "r_end ?r > r_end ?cur"
      | (inside) "\<not> (r_end ?cur + 1 > r_end ?cur \<and> r_start ?r > r_end ?cur + 1)" "\<not> r_end ?r > r_end ?cur"
      by blast
    then show ?thesis
    proof cases
      case gap
      have "take (Suc ri) (arr[Suc ri := ?r]) = take ri arr @ [?cur]"
        using "1.prems" by (simp add: take_Suc_conv_app_nth)
      with gap "1.IH"(1) [OF True refl refl gap] True "1.prems" dk show ?thesis
        by (simp add: merge_loop.simps [of arr k ri] Let_def)
    next
      case ext
      with "1.IH"(2) [OF True refl refl ext] True "1.prems" dk show ?thesis
        by (auto simp: merge_loop.simps [of arr k ri] Let_def)
    next
      case inside
      with "1.IH"(3) [OF True refl refl inside] True "1.prems" dk show ?thesis
        by (auto simp: merge_loop.simps [of arr k ri] Let_def)
    qed
  qed
qed

abbreviation in_ranges :: "'w::len word Range list \<Rightarrow> 'w word \<Rightarrow> bool" where
  "in_ranges rs x \<equiv> list_ex (\<lambda>r. Contains r x) rs"

definition proper :: "'w::len word Range \<Rightarrow> bool" where
  "proper r = (r_start r \<le> r_end r)"

text \<open>Between two neighbours of a merged list lies at least one value of neither.\<close>

fun separated :: "'w::len word Range list \<Rightarrow> bool" where
  "separated [] = True"
| "separated [r] = True"
| "separated (r # r' # rs) = (unat (r_end r) + 1 < unat (r_start r') \<and> separated (r' # rs))"

lemma touching:
  fixes cur r :: "'w::len word Range"
  assumes "\<not> (r_end cur + 1 > r_end cur \<and> r_start r > r_end cur + 1)"
  shows "unat (r_start r) \<le> unat (r_end cur) + 1"
proof (cases "r_end cur + 1 > r_end cur")
  case True
  with assms have "r_start r \<le> r_end cur + 1" by simp
  with unat_plus1 [of "r_end cur"] True show ?thesis by (simp add: word_le_nat_alt)
next
  case False
  with unat_plus1_wrap [OF this] unat_less_power [of "r_start r"] show ?thesis by linarith
qed

lemma merge_ref_first: "\<exists>c rest. merge_ref cur rs = c # rest \<and> r_start c = r_start cur"
  by (induction cur rs rule: merge_ref.induct) auto

lemma merge_ref_members:
  fixes cur :: "'w::len word Range"
  assumes "proper cur" "list_all proper rs" "sorted (map r_start (cur # rs))"
  shows "in_ranges (merge_ref cur rs) x \<longleftrightarrow> Contains cur x \<or> in_ranges rs x"
  using assms
proof (induction cur rs rule: merge_ref.induct)
  case (2 cur r rs)
  consider (gap) "r_end cur + 1 > r_end cur \<and> r_start r > r_end cur + 1"
    | (ext) "\<not> (r_end cur + 1 > r_end cur \<and> r_start r > r_end cur + 1)" "r_end r > r_end cur"
    | (inside) "\<not> (r_end cur + 1 > r_end cur \<and> r_start r > r_end cur + 1)" "\<not> r_end r > r_end cur"
    by blast
  then show ?case
  proof cases
    case gap
    with 2 show ?thesis by auto
  next
    case ext
    have "Contains (cur\<lparr>r_end := r_end r\<rparr>) x \<longleftrightarrow> Contains cur x \<or> Contains r x"
      using touching [OF ext(1)] ext(2) "2.prems"
      by (auto simp: Contains_def proper_def word_le_nat_alt word_less_nat_alt)
    with ext 2 show ?thesis by (auto simp: proper_def)
  next
    case inside
    have "Contains r x \<longrightarrow> Contains cur x"
      using inside(2) "2.prems" by (auto simp: Contains_def)
    with inside 2 show ?thesis by auto
  qed
qed simp

lemma merge_ref_separated:
  fixes cur :: "'w::len word Range"
  shows "proper cur \<Longrightarrow> list_all proper rs \<Longrightarrow>
    separated (merge_ref cur rs) \<and> list_all proper (merge_ref cur rs)"
proof (induction cur rs rule: merge_ref.induct)
  case (2 cur r rs)
  show ?case
  proof (cases "r_end cur + 1 > r_end cur \<and> r_start r > r_end cur + 1")
    case True
    then have "unat (r_end cur) + 1 < unat (r_start r)"
      using unat_plus1 [of "r_end cur"] by (simp add: word_less_nat_alt)
    with 2 True merge_ref_first [of r rs] show ?thesis by auto
  next
    case False
    with 2 show ?thesis by (auto simp: proper_def)
  qed
qed simp

lemma Merge_as_ref:
  assumes "ranges \<noteq> []" "sort_key r_start ranges = c # cs"
  shows "Merge ranges = merge_ref c cs"
  using merge_loop_ref [of 0 1 "c # cs"] assms by (simp add: Merge_def)

lemma set_join_with: "set (join_with c ps) \<subseteq> insert c (\<Union> (set ` set ps))"
  by (induction c ps rule: join_with.induct) auto

lemma Ranges_String_chars:
  fixes rs :: "'w::len word Range list"
  assumes "rs \<noteq> []" "c \<in> set (Ranges_String rs)"
  shows "\<not> is_space c \<and> c \<noteq> CHR '','' \<and> c \<noteq> CHR ''*''"
proof -
  from assms set_join_with [of "CHR ''/''" "map Range_String rs"]
  consider "c = CHR ''/''" | r :: "'w word Range" where "c \<in> set (Range_String r)"
    by (auto simp: Ranges_String_def)
  then show ?thesis
  proof cases
    case 1
    then show ?thesis by (simp add: is_space_def)
  next
    case (2 r)
    then show ?thesis using Range_String_plain(2,3) [of r] Range_String_plain(5) [of c r] by auto
  qed
qed

lemma Ranges_String_nonempty: "rs \<noteq> [] \<Longrightarrow> Ranges_String rs \<noteq> []"
  using Range_String_plain(4) by (cases rs; cases "tl rs") (auto simp: Ranges_String_def)

section \<open>Properties\<close>

text \<open>
  C7. \<open>Merge\<close> keeps the set of values: on a non-empty list of ranges with start at most end, a
  value is in the merged list exactly if it is in the original one; the merged ranges have start
  at most end, and between two neighbours there is a value in neither, even where an end is the
  largest value of the type and its successor wraps to zero.
\<close>

theorem Merge_correct:
  fixes ranges :: "'w::len word Range list"
  assumes "ranges \<noteq> []" "list_all proper ranges"
  shows "Check (Merge ranges) x = Check ranges x \<and> separated (Merge ranges) \<and>
    list_all proper (Merge ranges) \<and> Merge ranges \<noteq> []"
proof -
  obtain c cs where sorted: "sort_key r_start ranges = c # cs"
    using assms(1) by (metis list.exhaust set_empty set_sort)
  have set: "set (c # cs) = set ranges" using sorted set_sort by metis
  then have proper: "proper c" "list_all proper cs"
    using assms(2) by (auto simp: list_all_iff)
  have s: "sorted (map r_start (c # cs))" using sorted sorted_sort_key by metis
  have m: "Merge ranges = merge_ref c cs" using Merge_as_ref [OF assms(1) sorted] .
  have ne: "Merge ranges \<noteq> []" using m merge_ref_first [of c cs] by auto
  have "in_ranges (Merge ranges) x \<longleftrightarrow> in_ranges ranges x"
    using merge_ref_members [OF proper s, of x] m set by (auto simp: list_ex_iff)
  with ne assms(1) merge_ref_separated [OF proper] m show ?thesis by (simp add: Check_def)
qed

theorem Merge_correct_witness:
  "Check (Merge [\<lparr>r_start = 8, r_end = 255\<rparr>, \<lparr>r_start = 1, r_end = 3\<rparr>, \<lparr>r_start = 4, r_end = (5 :: 8 word)\<rparr>]) 200 =
     Check [\<lparr>r_start = 8, r_end = 255\<rparr>, \<lparr>r_start = 1, r_end = 3\<rparr>, \<lparr>r_start = 4, r_end = (5 :: 8 word)\<rparr>] 200 \<and>
   Merge [\<lparr>r_start = 8, r_end = 255\<rparr>, \<lparr>r_start = 1, r_end = 3\<rparr>, \<lparr>r_start = 4, r_end = (5 :: 8 word)\<rparr>] =
     [\<lparr>r_start = 1, r_end = 5\<rparr>, \<lparr>r_start = 8, r_end = 255\<rparr>]"
proof -
  let ?rs = "[\<lparr>r_start = 8, r_end = 255\<rparr>, \<lparr>r_start = 1, r_end = 3\<rparr>, \<lparr>r_start = 4, r_end = (5 :: 8 word)\<rparr>]"
  have "list_all proper ?rs" by (simp add: proper_def)
  moreover have "Merge ?rs = [\<lparr>r_start = 1, r_end = 5\<rparr>, \<lparr>r_start = 8, r_end = 255\<rparr>]"
    by (simp add: Merge_def merge_loop.simps Let_def word_le_nat_alt word_less_nat_alt)
  ultimately show ?thesis using Merge_correct [of ?rs 200] by simp
qed

text \<open>
  Parsing a printed range list gives the list back, for every unsigned type of at most 64 bits,
  every list of at most 28 ranges with start at most end; the empty list prints as \<open>*\<close> and is read
  back as the empty list.
\<close>

lemma NewUnsignedRanges_String:
  fixes rs :: "'w::len word Range list"
  assumes "LENGTH('w) \<le> 64" "length rs \<le> 28" "list_all proper rs"
  shows "NewUnsignedRanges (Ranges_String rs) = Inr rs"
proof (cases "rs = []")
  case True
  then show ?thesis
    by (simp add: NewUnsignedRanges_def newIntRanges_def Ranges_String_def trim_by_def is_space_def)
next
  case False
  let ?s = "Ranges_String rs"
  note chars = Ranges_String_chars [OF False]
  have trim: "trim_space ?s = ?s" by (rule trim_by_id) (simp add: chars)
  have star: "?s \<noteq> ''*''" using chars by fastforce
  have commas: "map (\<lambda>c. if c = CHR '','' then CHR ''/'' else c) ?s = ?s"
    by (rule map_idI) (use chars in auto)
  have "split_on (CHR ''/'') ?s = map Range_String rs"
    using False by (auto simp: Ranges_String_def Range_String_plain intro!: split_join)
  moreover have "newIntRangesFromList (map Range_String rs) parseUnsigned = Inr rs"
    using newIntRangesFromList_String [OF assms(1)] assms(3) by (simp add: proper_def [abs_def])
  ultimately show ?thesis
    using trim star commas Ranges_String_nonempty [OF False] assms(2)
    by (simp add: NewUnsignedRanges_def newIntRanges_def Let_def)
qed

text \<open>
  A number that fits 64 bits but not the range's type is not refused: it is read modulo the
  type's size, so that for instance the port range \<open>70000\<close> is the single port 4464.
\<close>

lemma NewUnsignedRange_wraps:
  assumes "n < 2 ^ 64"
  shows "NewUnsignedRange (show_nat n) =
    Inr \<lparr>r_start = (of_nat (n mod 2 ^ LENGTH('w)) :: 'w::len word), r_end = of_nat (n mod 2 ^ LENGTH('w))\<rparr>"
proof -
  have "trim_space (show_nat n) = show_nat n"
    by (rule trim_by_id) (rule show_nat_plain)
  moreover have "(of_nat (n mod 2 ^ LENGTH('w)) :: 'w word) = of_nat n"
    by (simp add: word_unat_eq_iff unat_of_nat)
  ultimately show ?thesis
    using assms show_nat_plain(1,5,6) [where n = n]
    by (simp add: NewUnsignedRange_def newIntRange_def Let_def split_on_plain parseUnsigned_def
        parse_show NewRange_def)
qed

lemma NewUnsignedRange_wraps_witness:
  "show_nat 70000 = ''70000'' \<and>
   NewUnsignedRange ''70000'' = Inr \<lparr>r_start = (4464 :: 16 word), r_end = 4464\<rparr>"
proof -
  have s: "show_nat 70000 = ''70000''" by (simp add: show_nat.simps)
  moreover have "NewUnsignedRange (show_nat 70000) = Inr \<lparr>r_start = (4464 :: 16 word), r_end = 4464\<rparr>"
    using NewUnsignedRange_wraps [of 70000, where 'w = 16] by simp
  ultimately show ?thesis by simp
qed

text \<open>
  \<open>Range\<close> with a callback that never stops visits the values of each range in increasing
  order, each once, and stops at the largest value of the type instead of wrapping.
\<close>

lemma range_values_enumerates:
  fixes r :: "'w::len word Range"
  assumes "proper r"
  shows "range_values (r_start r) r (\<lambda>i s. (True, s @ [i])) [] =
    (True, map of_nat [unat (r_start r) ..< Suc (unat (r_end r))])"
proof -
  have "range_values i r (\<lambda>i s. (True, s @ [i])) s =
      (True, s @ map of_nat [unat i ..< Suc (unat (r_end r))])"
    if "r_start r \<le> i" for i s
    using that
  proof (induction "unat (r_end r) - unat i" arbitrary: i s rule: less_induct)
    case less
    show ?case
    proof (cases "i \<le> r_end r")
      case False
      then show ?thesis
        by (simp add: range_values.simps [of i] word_le_nat_alt)
    next
      case True
      have up: "[unat i ..< Suc (unat (r_end r))] = unat i # [Suc (unat i) ..< Suc (unat (r_end r))]"
        using True by (simp add: upt_conv_Cons word_le_nat_alt del: upt_Suc)
      show ?thesis
      proof (cases "i + 1 < i")
        case wrap: True
        then have "unat i = 2 ^ LENGTH('w) - 1" by (intro unat_plus1_wrap) simp
        then have "unat (r_end r) = unat i"
          using unat_less_power [of "r_end r"] True unfolding word_le_nat_alt by linarith
        with wrap True less.prems show ?thesis by (simp add: range_values.simps [of i])
      next
        case nowrap: False
        then have u: "unat (i + 1) = Suc (unat i)" using unat_plus1 by simp
        show ?thesis
        proof (cases "unat i < unat (r_end r)")
          case lt: True
          have "r_start r \<le> i + 1" using less.prems nowrap by (meson not_less order_trans)
          with less.hyps [of "i + 1" "s @ [i]"] lt u True nowrap less.prems up show ?thesis
            by (simp add: range_values.simps [of i])
        next
          case ge: False
          have "\<not> i + 1 \<le> r_end r" using ge u by (simp add: word_le_nat_alt)
          then have "range_values (i + 1) r (\<lambda>i s. (True, s @ [i])) (s @ [i]) = (True, s @ [i])"
            by (simp add: range_values.simps [of "i + 1"])
          with ge True nowrap less.prems up show ?thesis by (simp add: range_values.simps [of i])
        qed
      qed
    qed
  qed
  from this [of "r_start r" "[]"] show ?thesis by simp
qed

lemma range_values_enumerates_witness:
  "range_values 253 \<lparr>r_start = 253, r_end = (255 :: 8 word)\<rparr> (\<lambda>i s. (True, s @ [i])) [] = (True, [253, 254, 255])"
  using range_values_enumerates [of "\<lparr>r_start = 253, r_end = (255 :: 8 word)\<rparr>"]
  by (simp add: proper_def)

end
