(* ===== verification/Netip_Text.thy ===== *)
theory Netip_Text
  imports Netip Int_Ranges
begin

text \<open>
  Text forms of addresses as the Go standard library has them: \<open>netip.ParseAddr\<close>,
  \<open>netip.ParsePrefix\<close>, \<open>Addr.String\<close>, \<open>net.SplitHostPort\<close>, \<open>net.JoinHostPort\<close> and
  \<open>strconv.ParseUint\<close> at a given width.  The modelled program calls them; they are not its own code.
\<close>

section \<open>Numbers\<close>

definition parse_uint :: "nat \<Rightarrow> string \<Rightarrow> nat option" where
  "parse_uint w s =
     (if s = [] \<or> \<not> list_all is_digit s then None
      else if decimal_val s < 2 ^ w then Some (decimal_val s) else None)"

definition hex_val :: "char \<Rightarrow> nat option" where
  "hex_val c =
     (let n = (of_char c :: nat) in
      if 48 \<le> n \<and> n \<le> 57 then Some (n - 48)
      else if 97 \<le> n \<and> n \<le> 102 then Some (n - 87)
      else if 65 \<le> n \<and> n \<le> 70 then Some (n - 55) else None)"

fun show_hex :: "nat \<Rightarrow> string" where
  "show_hex n =
     (if n < 16 then [''0123456789abcdef'' ! n]
      else show_hex (n div 16) @ [''0123456789abcdef'' ! (n mod 16)])"

declare show_hex.simps [simp del]

section \<open>Index searches\<close>

fun index_byte :: "char \<Rightarrow> string \<Rightarrow> nat option" where
  "index_byte c [] = None"
| "index_byte c (x # xs) = (if x = c then Some 0 else map_option Suc (index_byte c xs))"

definition last_index_byte :: "char \<Rightarrow> string \<Rightarrow> nat option" where
  "last_index_byte c s = map_option (\<lambda>i. length s - 1 - i) (index_byte c (rev s))"

section \<open>IPv4\<close>

text \<open>One decimal field: digits, no leading zero, at most 255.\<close>

definition ipv4_field :: "string \<Rightarrow> nat option" where
  "ipv4_field f =
     (if f = [] \<or> \<not> list_all is_digit f then None
      else if length f > 1 \<and> hd f = CHR ''0'' then None
      else if decimal_val f > 255 then None else Some (decimal_val f))"

definition parseIPv4Fields :: "string \<Rightarrow> nat list option" where
  "parseIPv4Fields s =
     (let fs = map ipv4_field (split_on CHR ''.'' s) in
      if length fs = 4 \<and> list_all (\<lambda>f. f \<noteq> None) fs then Some (map the fs) else None)"

definition parseIPv4 :: "string \<Rightarrow> addr option" where
  "parseIPv4 s = map_option
     (\<lambda>fs. V4 (of_nat (foldl (\<lambda>a b. 256 * a + b) 0 fs))) (parseIPv4Fields s)"

section \<open>IPv6\<close>

text \<open>
  The group loop of \<open>parseIPv6\<close>.  \<open>gs\<close> are the 16-bit groups read so far, \<open>ell\<close> the position of
  \<open>::\<close>; the result is the groups and the position once the whole text is read.  Eight groups end
  the loop, and anything left then is an error.
\<close>

definition hex_run :: "string \<Rightarrow> string" where
  "hex_run s = takeWhile (\<lambda>c. hex_val c \<noteq> None) s"

definition hex_group :: "string \<Rightarrow> nat" where
  "hex_group s = foldl (\<lambda>a c. 16 * a + the (hex_val c)) 0 s"

function parseIPv6Groups :: "string \<Rightarrow> nat list \<Rightarrow> nat option \<Rightarrow> (nat list \<times> nat option) option" where
  "parseIPv6Groups s gs ell =
     (if length gs \<ge> 8 then (if s = [] then Some (gs, ell) else None)
      else
        let h = hex_run s; rest = drop (length h) s in
        if h = [] \<or> length h > 4 then None
        else if rest \<noteq> [] \<and> hd rest = CHR ''.'' then
          (if ell = None \<and> length gs \<noteq> 6 then None
           else if length gs + 2 > 8 then None
           else case parseIPv4Fields s of
             None \<Rightarrow> None
           | Some fs \<Rightarrow> Some (gs @ [256 * fs ! 0 + fs ! 1, 256 * fs ! 2 + fs ! 3], ell))
        else
          let gs' = gs @ [hex_group h] in
          if rest = [] then Some (gs', ell)
          else if hd rest \<noteq> CHR '':'' then None
          else if length rest = 1 then None
          else
            let r = tl rest in
            if hd r = CHR '':'' then
              (if ell \<noteq> None then None
               else if tl r = [] then Some (gs', Some (length gs'))
               else parseIPv6Groups (tl r) gs' (Some (length gs')))
            else parseIPv6Groups r gs' ell)"
  by pat_completeness auto
termination
  by (relation "measure (\<lambda>(s, gs, ell). 8 - length gs)") auto

declare parseIPv6Groups.simps [simp del]

definition groups_value :: "nat list \<Rightarrow> 128 word" where
  "groups_value gs = of_nat (foldl (\<lambda>a g. 65536 * a + g) 0 gs)"

definition expandIPv6 :: "nat list \<times> nat option \<Rightarrow> 128 word option" where
  "expandIPv6 r =
     (case r of (gs, ell) \<Rightarrow>
        if length gs < 8 then
          (case ell of
             None \<Rightarrow> None
           | Some k \<Rightarrow> Some (groups_value (take k gs @ replicate (8 - length gs) 0 @ drop k gs)))
        else if ell \<noteq> None then None
        else Some (groups_value gs))"

definition parseIPv6 :: "string \<Rightarrow> addr option" where
  "parseIPv6 input =
     (let (s, zone) =
        (case index_byte CHR ''%'' input of
           None \<Rightarrow> (input, Some []) | Some i \<Rightarrow> (take i input, if drop (Suc i) input = [] then None else Some (drop (Suc i) input)))
      in case zone of
        None \<Rightarrow> None
      | Some z \<Rightarrow>
          if has_prefix s ''::'' \<and> drop 2 s = [] then Some (V6 0 z)
          else
            (case (if has_prefix s ''::'' then parseIPv6Groups (drop 2 s) [] (Some 0)
                   else parseIPv6Groups s [] None) of
               None \<Rightarrow> None
             | Some r \<Rightarrow> map_option (\<lambda>a. V6 a z) (expandIPv6 r)))"

definition ParseAddr :: "string \<Rightarrow> addr option" where
  "ParseAddr s =
     (case dropWhile (\<lambda>c. c \<notin> {CHR ''.'', CHR '':'', CHR ''%''}) s of
        [] \<Rightarrow> None
      | c # _ \<Rightarrow> if c = CHR ''.'' then parseIPv4 s else if c = CHR '':'' then parseIPv6 s else None)"

text \<open>
  \<open>ParsePrefix\<close>: an address without zone, a slash, and a bit count of at most three digits with
  no leading zero, within the address length.
\<close>

definition ParsePrefix :: "string \<Rightarrow> prefix option" where
  "ParsePrefix s =
     (case last_index_byte CHR ''/'' s of
        None \<Rightarrow> None
      | Some i \<Rightarrow>
          (case ParseAddr (take i s) of
             None \<Rightarrow> None
           | Some ip \<Rightarrow>
               let bs = drop (Suc i) s; p = \<lparr>p_addr = ip, p_bits = decimal_val bs\<rparr> in
               if bs = [] \<or> \<not> list_all is_digit bs \<or> (length bs > 1 \<and> hd bs = CHR ''0'') then None
               else if prefix_valid p then Some p else None))"

section \<open>Printing\<close>

definition addr4_String :: "32 word \<Rightarrow> string" where
  "addr4_String a =
     join_with CHR ''.'' (map (\<lambda>b. show_nat (unat b)) (be_bytes 4 a))"

definition v6_groups :: "128 word \<Rightarrow> nat list" where
  "v6_groups a = map (\<lambda>i. unat (drop_bit (16 * i) a) mod 65536) (rev [0..<8])"

fun zero_run :: "nat list \<Rightarrow> nat" where
  "zero_run [] = 0"
| "zero_run (g # gs) = (if g = 0 then Suc (zero_run gs) else 0)"

text \<open>The first longest run of at least two zero groups, as start and end (\<open>255, 255\<close> if none).\<close>

fun longest_zeros :: "nat list \<Rightarrow> nat \<Rightarrow> nat \<times> nat \<Rightarrow> nat \<times> nat" where
  "longest_zeros [] i best = best"
| "longest_zeros (g # gs) i best =
     (let l = zero_run (g # gs) in
      longest_zeros gs (Suc i) (if l \<ge> 2 \<and> l > snd best - fst best then (i, i + l) else best))"

definition addr6_String :: "128 word \<Rightarrow> string \<Rightarrow> string" where
  "addr6_String a zone =
     (let gs = v6_groups a; z = longest_zeros gs 0 (255, 255);
          hex = \<lambda>xs. join_with CHR '':'' (map show_hex xs) in
      (if fst z < 8 then hex (take (fst z) gs) @ ''::'' @ hex (drop (snd z) gs) else hex gs) @
      (if zone = [] then [] else CHR ''%'' # zone))"

fun Addr_String :: "addr \<Rightarrow> string" where
  "Addr_String NoAddr = ''invalid IP''"
| "Addr_String (V4 a) = addr4_String a"
| "Addr_String (V6 a zone) =
     (if drop_bit 32 a = 0xffff
      then ''::ffff:'' @ addr4_String (ucast a) @ (if zone = [] then [] else CHR ''%'' # zone)
      else addr6_String a zone)"

section \<open>Host and port\<close>

definition SplitHostPort :: "string \<Rightarrow> (string \<times> string) option" where
  "SplitHostPort hp =
     (case last_index_byte CHR '':'' hp of
        None \<Rightarrow> None
      | Some i \<Rightarrow>
          if hp ! 0 = CHR ''['' then
            (case index_byte CHR '']'' hp of
               None \<Rightarrow> None
             | Some e \<Rightarrow>
                 if e + 1 \<noteq> i then None
                 else if CHR ''['' \<in> set (drop 1 hp) \<or> CHR '']'' \<in> set (drop (e + 1) hp) then None
                 else Some (drop 1 (take e hp), drop (i + 1) hp))
          else if CHR '':'' \<in> set (take i hp) then None
          else if CHR ''['' \<in> set hp \<or> CHR '']'' \<in> set hp then None
          else Some (take i hp, drop (i + 1) hp))"

definition JoinHostPort :: "string \<Rightarrow> string \<Rightarrow> string" where
  "JoinHostPort host port =
     (if CHR '':'' \<in> set host then ''['' @ host @ '']:'' @ port else host @ '':'' @ port)"

section \<open>Lemmas\<close>

lemma index_byte_None: "c \<notin> set s \<Longrightarrow> index_byte c s = None"
  by (induction s) auto

lemma index_byte_append: "c \<notin> set p \<Longrightarrow> index_byte c (p @ c # s) = Some (length p)"
  by (induction p) auto

lemma last_index_byte_append: "c \<notin> set s \<Longrightarrow> last_index_byte c (p @ c # s) = Some (length p)"
  by (simp add: last_index_byte_def index_byte_append)

lemma parse_uint_show: "n < 2 ^ w \<Longrightarrow> parse_uint w (show_nat n) = Some n"
  using show_nat_digits [of n] by (simp add: parse_uint_def)

lemma Split_Join:
  assumes "CHR ''['' \<notin> set host" "CHR '']'' \<notin> set host"
    and "CHR '':'' \<notin> set port" "CHR ''['' \<notin> set port" "CHR '']'' \<notin> set port"
  shows "SplitHostPort (JoinHostPort host port) = Some (host, port)"
proof (cases "CHR '':'' \<in> set host")
  case True
  have l: "last_index_byte CHR '':'' (''['' @ host @ '']:'' @ port) = Some (length host + 2)"
    using last_index_byte_append [of "CHR '':''" port "''['' @ host @ '']''"] assms(3) by simp
  have i: "index_byte CHR '']'' (''['' @ host @ '']:'' @ port) = Some (length host + 1)"
    using index_byte_append [of "CHR '']''" "''['' @ host" "CHR '':'' # port"] assms(2) by simp
  show ?thesis using True assms l i by (simp add: SplitHostPort_def JoinHostPort_def)
next
  case False
  have l: "last_index_byte CHR '':'' (host @ '':'' @ port) = Some (length host)"
    using last_index_byte_append [of "CHR '':''" port host] assms(3) by simp
  have "(host @ '':'' @ port) ! 0 \<noteq> CHR ''[''"
    using assms(1) by (cases host) auto
  with False assms l show ?thesis by (simp add: SplitHostPort_def JoinHostPort_def)
qed


section \<open>Round trip of IPv4 addresses\<close>

lemma be_bytes_4:
  "be_bytes 4 (a :: 32 word) =
     [ucast (drop_bit 24 a), ucast (drop_bit 16 a), ucast (drop_bit 8 a), ucast a]"
  by (simp add: be_bytes_def upt_conv_Cons)

lemma unat_byte: "unat (ucast (drop_bit k (a :: 32 word)) :: 8 word) = unat a div 2 ^ k mod 256"
proof -
  have "unat (drop_bit k a) = unat a div 2 ^ k"
    using unsigned_drop_bit_eq [of k a, where 'a = nat] unat_less_power [of a]
    by (simp add: drop_bit_eq_div [where 'a = nat] take_bit_nat_eq_self)
  then show ?thesis by (simp add: unsigned_ucast_eq take_bit_eq_mod)
qed

lemma bytes_value:
  fixes n :: nat
  assumes "n < 2 ^ 32"
  shows "foldl (\<lambda>a b. 256 * a + b) 0
           [n div 2 ^ 24 mod 256, n div 2 ^ 16 mod 256, n div 2 ^ 8 mod 256, n mod 256] = n"
proof -
  have "n div 16777216 < 256" using assms by (simp add: div_less_iff_less_mult)
  then have "n div 16777216 mod 256 = n div 16777216" by simp
  moreover have "n = 256 * (n div 256) + n mod 256" by simp
  moreover have "n div 256 = 256 * (n div 65536) + n div 256 mod 256"
    using div_mult2_eq [of n 256 256] by simp
  moreover have "n div 65536 = 256 * (n div 16777216) + n div 65536 mod 256"
    using div_mult2_eq [of n 65536 256] by simp
  ultimately show ?thesis by simp
qed

lemma show_nat_no_dot: "CHR ''.'' \<notin> set (show_nat n)" "CHR '':'' \<notin> set (show_nat n)"
  "CHR ''%'' \<notin> set (show_nat n)" "CHR ''['' \<notin> set (show_nat n)" "CHR '']'' \<notin> set (show_nat n)"
  using show_nat_digits [of n] by (auto simp: list_all_iff is_digit_def)

lemma show_nat_lead: "length (show_nat n) > 1 \<Longrightarrow> hd (show_nat n) \<noteq> CHR ''0''"
proof (induction n rule: show_nat.induct)
  case (1 n)
  show ?case
  proof (cases "n < 10")
    case True
    with 1 show ?thesis by (simp add: show_nat.simps)
  next
    case False
    have e: "hd (show_nat n) = hd (show_nat (n div 10))"
      using False show_nat_digits [of "n div 10"] by (subst show_nat.simps) simp
    show ?thesis
    proof (cases "n div 10 < 10")
      case True
      moreover have "n div 10 \<noteq> 0" using False by simp
      ultimately have "n div 10 \<in> {1, 2, 3, 4, 5, 6, 7, 8, 9}" by auto
      then show ?thesis unfolding e by (auto simp: show_nat.simps [of "n div 10"])
    next
      case False
      then have "length (show_nat (n div 10)) > 1"
        using show_nat_digits [of "n div 10 div 10"] by (subst show_nat.simps) simp
      with 1 \<open>\<not> n < 10\<close> show ?thesis unfolding e by simp
    qed
  qed
qed

lemma ipv4_field_show: "n < 256 \<Longrightarrow> ipv4_field (show_nat n) = Some n"
  using show_nat_digits [of n] show_nat_lead [of n] by (simp add: ipv4_field_def)

lemma split_addr4:
  "split_on CHR ''.'' (addr4_String a) = map (\<lambda>b. show_nat (unat b)) (be_bytes 4 a)"
  unfolding addr4_String_def
  by (rule split_join) (auto simp: be_bytes_4 show_nat_no_dot)

lemma parseIPv4_String: "parseIPv4 (addr4_String a) = Some (V4 a)"
proof -
  have f: "ipv4_field (show_nat (unat (b :: 8 word))) = Some (unat b)" for b
    using unat_less_power [of b] by (intro ipv4_field_show) simp
  have fs: "parseIPv4Fields (addr4_String a) = Some (map unat (be_bytes 4 a))"
    by (simp add: parseIPv4Fields_def split_addr4 f list_all_iff Let_def)
  have "foldl (\<lambda>a b. 256 * a + b) 0 (map unat (be_bytes 4 a)) = unat a"
    using bytes_value [of "unat a"] unat_less_power [of a] unat_byte [of 0 a]
    by (simp add: be_bytes_4 unat_byte)
  with fs show ?thesis by (simp add: parseIPv4_def)
qed

lemma addr4_String_chars:
  "CHR '':'' \<notin> set (addr4_String a)" "CHR ''%'' \<notin> set (addr4_String a)"
  "CHR ''['' \<notin> set (addr4_String a)" "CHR '']'' \<notin> set (addr4_String a)"
  "CHR ''.'' \<in> set (addr4_String a)"
  by (simp_all add: addr4_String_def be_bytes_4 show_nat_no_dot)

lemma ParseAddr_addr4: "ParseAddr (addr4_String a) = Some (V4 a)"
proof -
  let ?r = "dropWhile (\<lambda>c. c \<notin> {CHR ''.'', CHR '':'', CHR ''%''}) (addr4_String a)"
  have "?r \<noteq> []" using addr4_String_chars(5) [of a] by (auto simp: dropWhile_eq_Nil_conv)
  then obtain c r where r: "?r = c # r" by (meson neq_Nil_conv)
  have "c \<in> set (addr4_String a)" using r set_dropWhileD [of c] by (metis list.set_intros(1))
  moreover have "c \<in> {CHR ''.'', CHR '':'', CHR ''%''}"
    using r hd_dropWhile [of "\<lambda>c. c \<notin> {CHR ''.'', CHR '':'', CHR ''%''}" "addr4_String a"] \<open>?r \<noteq> []\<close> by auto
  ultimately have "c = CHR ''.''" using addr4_String_chars by auto
  with r show ?thesis by (simp add: ParseAddr_def parseIPv4_String)
qed

end
