(* ===== verification/Enums.thy ===== *)
theory Enums
  imports Prelude
begin

text \<open>
  The enumerations of the configuration and of the routing code with their text forms:
  \<open>tunnel/mode.go\<close>, \<open>tunnel/status.go\<close>, \<open>constant/dns.go\<close>, \<open>component/process/find_process_mode.go\<close>,
  the network and inbound types of \<open>constant/metadata.go\<close>, the rule types of \<open>constant/rule.go\<close> and the
  adapter types of \<open>constant/adapters.go\<close>.  The locale \<open>text_enum\<close> is the contract of the types that
  are read from text.
\<close>

section \<open>tunnel/mode.go, tunnel/status.go\<close>

datatype TunnelMode = Global | Rule | Direct

fun TunnelMode_String :: "TunnelMode \<Rightarrow> string" where
  "TunnelMode_String Global = ''global''"
| "TunnelMode_String Rule = ''rule''"
| "TunnelMode_String Direct = ''direct''"

definition ModeMapping :: "(string \<times> TunnelMode) list" where
  "ModeMapping = map (\<lambda>m. (TunnelMode_String m, m)) [Global, Rule, Direct]"

definition TunnelMode_UnmarshalText :: "string \<Rightarrow> TunnelMode option" where
  "TunnelMode_UnmarshalText text = map_of ModeMapping (to_lower text)"

datatype TunnelStatus = Suspend | Inner | Running

fun TunnelStatus_String :: "TunnelStatus \<Rightarrow> string" where
  "TunnelStatus_String Suspend = ''suspend''"
| "TunnelStatus_String Inner = ''inner''"
| "TunnelStatus_String Running = ''running''"

definition StatusMapping :: "(string \<times> TunnelStatus) list" where
  "StatusMapping = map (\<lambda>m. (TunnelStatus_String m, m)) [Suspend, Inner, Running]"

definition TunnelStatus_UnmarshalText :: "string \<Rightarrow> TunnelStatus option" where
  "TunnelStatus_UnmarshalText text = map_of StatusMapping (to_lower text)"

section \<open>constant/dns.go\<close>

datatype DNSMode = DNSNormal | DNSFakeIP | DNSMapping | DNSHosts

fun DNSMode_String :: "DNSMode \<Rightarrow> string" where
  "DNSMode_String DNSNormal = ''normal''"
| "DNSMode_String DNSFakeIP = ''fake-ip''"
| "DNSMode_String DNSMapping = ''redir-host''"
| "DNSMode_String DNSHosts = ''hosts''"

definition DNSModeMapping :: "(string \<times> DNSMode) list" where
  "DNSModeMapping = map (\<lambda>m. (DNSMode_String m, m)) [DNSNormal, DNSFakeIP, DNSMapping]"

definition DNSMode_UnmarshalText :: "string \<Rightarrow> DNSMode option" where
  "DNSMode_UnmarshalText text = map_of DNSModeMapping (to_lower text)"

datatype DNSPrefer = DualStack | IPv4Only | IPv6Only | IPv4Prefer | IPv6Prefer

fun DNSPrefer_String :: "DNSPrefer \<Rightarrow> string" where
  "DNSPrefer_String DualStack = ''dual''"
| "DNSPrefer_String IPv4Only = ''ipv4''"
| "DNSPrefer_String IPv6Only = ''ipv6''"
| "DNSPrefer_String IPv4Prefer = ''ipv4-prefer''"
| "DNSPrefer_String IPv6Prefer = ''ipv6-prefer''"

definition dnsPreferMap :: "(string \<times> DNSPrefer) list" where
  "dnsPreferMap =
     map (\<lambda>m. (DNSPrefer_String m, m)) [DualStack, IPv4Only, IPv6Only, IPv4Prefer, IPv6Prefer]"

text \<open>An unknown preference is read as \<^const>\<open>DualStack\<close>; there is no error.\<close>

definition DNSPrefer_UnmarshalText :: "string \<Rightarrow> DNSPrefer option" where
  "DNSPrefer_UnmarshalText text =
     (case map_of dnsPreferMap (to_lower text) of None \<Rightarrow> Some DualStack | Some p \<Rightarrow> Some p)"

datatype FilterMode = FilterBlackList | FilterWhiteList | FilterRule

fun FilterMode_String :: "FilterMode \<Rightarrow> string" where
  "FilterMode_String FilterBlackList = ''blacklist''"
| "FilterMode_String FilterWhiteList = ''whitelist''"
| "FilterMode_String FilterRule = ''rule''"

definition FilterModeMapping :: "(string \<times> FilterMode) list" where
  "FilterModeMapping =
     map (\<lambda>m. (FilterMode_String m, m)) [FilterBlackList, FilterWhiteList, FilterRule]"

definition FilterMode_UnmarshalText :: "string \<Rightarrow> FilterMode option" where
  "FilterMode_UnmarshalText text = map_of FilterModeMapping (to_lower text)"

section \<open>component/process/find\_process\_mode.go\<close>

datatype FindProcessMode = FindProcessStrict | FindProcessAlways | FindProcessOff

fun FindProcessMode_String :: "FindProcessMode \<Rightarrow> string" where
  "FindProcessMode_String FindProcessAlways = ''always''"
| "FindProcessMode_String FindProcessOff = ''off''"
| "FindProcessMode_String FindProcessStrict = ''strict''"

definition validModes :: "(string \<times> FindProcessMode) list" where
  "validModes =
     map (\<lambda>m. (FindProcessMode_String m, m)) [FindProcessStrict, FindProcessAlways, FindProcessOff]"

definition FindProcessMode_Set :: "string \<Rightarrow> FindProcessMode option" where
  "FindProcessMode_Set value = map_of validModes (to_lower value)"

section \<open>constant/metadata.go: networks, address types, inbound types\<close>

datatype NetWork = TCP | UDP | ALLNet | InvalidNet

fun NetWork_String :: "NetWork \<Rightarrow> string" where
  "NetWork_String TCP = ''tcp''"
| "NetWork_String UDP = ''udp''"
| "NetWork_String ALLNet = ''all''"
| "NetWork_String InvalidNet = ''invalid''"

datatype AddrType = AtypIPv4 | AtypDomainName | AtypIPv6

fun AddrType_String :: "AddrType \<Rightarrow> string" where
  "AddrType_String AtypIPv4 = ''IPv4''"
| "AddrType_String AtypDomainName = ''DomainName''"
| "AddrType_String AtypIPv6 = ''IPv6''"

datatype InboundType =
    HTTP | HTTPS | SOCKS4 | SOCKS5 | SHADOWSOCKS
  | SNELL | VMESS | VLESS | REDIR | TPROXY
  | TROJAN | TUNNEL | TUN | TUIC | HYSTERIA2
  | ANYTLS | MIERU | SUDOKU | TRUSTTUNNEL | INNER

fun Type_String :: "InboundType \<Rightarrow> string" where
  "Type_String HTTP = ''HTTP''"
| "Type_String HTTPS = ''HTTPS''"
| "Type_String SOCKS4 = ''Socks4''"
| "Type_String SOCKS5 = ''Socks5''"
| "Type_String SHADOWSOCKS = ''ShadowSocks''"
| "Type_String SNELL = ''Snell''"
| "Type_String VMESS = ''Vmess''"
| "Type_String VLESS = ''Vless''"
| "Type_String REDIR = ''Redir''"
| "Type_String TPROXY = ''TProxy''"
| "Type_String TROJAN = ''Trojan''"
| "Type_String TUNNEL = ''Tunnel''"
| "Type_String TUN = ''Tun''"
| "Type_String TUIC = ''Tuic''"
| "Type_String HYSTERIA2 = ''Hysteria2''"
| "Type_String ANYTLS = ''AnyTLS''"
| "Type_String MIERU = ''Mieru''"
| "Type_String SUDOKU = ''Sudoku''"
| "Type_String TRUSTTUNNEL = ''TrustTunnel''"
| "Type_String INNER = ''Inner''"

definition ParseType :: "string \<Rightarrow> InboundType option" where
  "ParseType t = map_of
     [(''HTTP'', HTTP), (''HTTPS'', HTTPS), (''SOCKS4'', SOCKS4), (''SOCKS5'', SOCKS5),
      (''SHADOWSOCKS'', SHADOWSOCKS), (''SNELL'', SNELL), (''VMESS'', VMESS), (''VLESS'', VLESS),
      (''REDIR'', REDIR), (''TPROXY'', TPROXY), (''TROJAN'', TROJAN), (''TUNNEL'', TUNNEL),
      (''TUN'', TUN), (''TUIC'', TUIC), (''HYSTERIA2'', HYSTERIA2), (''ANYTLS'', ANYTLS),
      (''MIERU'', MIERU), (''SUDOKU'', SUDOKU), (''TRUSTTUNNEL'', TRUSTTUNNEL), (''INNER'', INNER)] t"

section \<open>constant/rule.go: rule types\<close>

text \<open>Constructors carry the prefix \<open>RT_\<close>.\<close>

datatype RuleType =
    RT_Domain | RT_DomainSuffix | RT_DomainKeyword | RT_DomainRegex | RT_DomainWildcard
  | RT_GEOSITE | RT_GEOIP | RT_SrcGEOIP | RT_IPASN | RT_SrcIPASN
  | RT_IPCIDR | RT_SrcIPCIDR | RT_IPSuffix | RT_SrcIPSuffix | RT_SrcPort
  | RT_DstPort | RT_InPort | RT_DSCP | RT_InUser | RT_InName
  | RT_InType | RT_ProcessName | RT_ProcessPath | RT_ProcessNameRegex | RT_ProcessPathRegex
  | RT_ProcessNameWildcard | RT_ProcessPathWildcard | RT_RuleSet | RT_Network | RT_Uid
  | RT_SubRules | RT_MATCH | RT_AND | RT_OR | RT_NOT

fun RuleType_String :: "RuleType \<Rightarrow> string" where
  "RuleType_String RT_Domain = ''Domain''"
| "RuleType_String RT_DomainSuffix = ''DomainSuffix''"
| "RuleType_String RT_DomainKeyword = ''DomainKeyword''"
| "RuleType_String RT_DomainRegex = ''DomainRegex''"
| "RuleType_String RT_DomainWildcard = ''DomainWildcard''"
| "RuleType_String RT_GEOSITE = ''GeoSite''"
| "RuleType_String RT_GEOIP = ''GeoIP''"
| "RuleType_String RT_SrcGEOIP = ''SrcGeoIP''"
| "RuleType_String RT_IPASN = ''IPASN''"
| "RuleType_String RT_SrcIPASN = ''SrcIPASN''"
| "RuleType_String RT_IPCIDR = ''IPCIDR''"
| "RuleType_String RT_SrcIPCIDR = ''SrcIPCIDR''"
| "RuleType_String RT_IPSuffix = ''IPSuffix''"
| "RuleType_String RT_SrcIPSuffix = ''SrcIPSuffix''"
| "RuleType_String RT_SrcPort = ''SrcPort''"
| "RuleType_String RT_DstPort = ''DstPort''"
| "RuleType_String RT_InPort = ''InPort''"
| "RuleType_String RT_DSCP = ''DSCP''"
| "RuleType_String RT_InUser = ''InUser''"
| "RuleType_String RT_InName = ''InName''"
| "RuleType_String RT_InType = ''InType''"
| "RuleType_String RT_ProcessName = ''ProcessName''"
| "RuleType_String RT_ProcessPath = ''ProcessPath''"
| "RuleType_String RT_ProcessNameRegex = ''ProcessNameRegex''"
| "RuleType_String RT_ProcessPathRegex = ''ProcessPathRegex''"
| "RuleType_String RT_ProcessNameWildcard = ''ProcessNameWildcard''"
| "RuleType_String RT_ProcessPathWildcard = ''ProcessPathWildcard''"
| "RuleType_String RT_RuleSet = ''RuleSet''"
| "RuleType_String RT_Network = ''Network''"
| "RuleType_String RT_Uid = ''Uid''"
| "RuleType_String RT_SubRules = ''SubRules''"
| "RuleType_String RT_MATCH = ''Match''"
| "RuleType_String RT_AND = ''AND''"
| "RuleType_String RT_OR = ''OR''"
| "RuleType_String RT_NOT = ''NOT''"

section \<open>constant/adapters.go: adapter types and proxy chains\<close>

text \<open>Constructors carry the prefix \<open>AT_\<close>.\<close>

datatype AdapterType =
    AT_Direct | AT_Reject | AT_RejectDrop | AT_Compatible | AT_Pass | AT_PassRule
  | AT_Dns | AT_Relay | AT_Selector | AT_Fallback | AT_URLTest | AT_LoadBalance
  | AT_Shadowsocks | AT_ShadowsocksR | AT_Snell | AT_Socks5 | AT_Http | AT_Vmess
  | AT_Vless | AT_Trojan | AT_Hysteria | AT_Hysteria2 | AT_WireGuard | AT_Tuic
  | AT_Ssh | AT_Mieru | AT_AnyTLS | AT_Sudoku | AT_Masque | AT_TrustTunnel
  | AT_OpenVPN | AT_Tailscale | AT_GostRelay

fun AdapterType_String :: "AdapterType \<Rightarrow> string" where
  "AdapterType_String AT_Direct = ''Direct''"
| "AdapterType_String AT_Reject = ''Reject''"
| "AdapterType_String AT_RejectDrop = ''RejectDrop''"
| "AdapterType_String AT_Compatible = ''Compatible''"
| "AdapterType_String AT_Pass = ''Pass''"
| "AdapterType_String AT_PassRule = ''PassRule''"
| "AdapterType_String AT_Dns = ''Dns''"
| "AdapterType_String AT_Shadowsocks = ''Shadowsocks''"
| "AdapterType_String AT_ShadowsocksR = ''ShadowsocksR''"
| "AdapterType_String AT_Snell = ''Snell''"
| "AdapterType_String AT_Socks5 = ''Socks5''"
| "AdapterType_String AT_Http = ''Http''"
| "AdapterType_String AT_Vmess = ''Vmess''"
| "AdapterType_String AT_Vless = ''Vless''"
| "AdapterType_String AT_Trojan = ''Trojan''"
| "AdapterType_String AT_Hysteria = ''Hysteria''"
| "AdapterType_String AT_Hysteria2 = ''Hysteria2''"
| "AdapterType_String AT_WireGuard = ''WireGuard''"
| "AdapterType_String AT_Tuic = ''Tuic''"
| "AdapterType_String AT_Ssh = ''Ssh''"
| "AdapterType_String AT_Mieru = ''Mieru''"
| "AdapterType_String AT_AnyTLS = ''AnyTLS''"
| "AdapterType_String AT_Sudoku = ''Sudoku''"
| "AdapterType_String AT_Masque = ''Masque''"
| "AdapterType_String AT_TrustTunnel = ''TrustTunnel''"
| "AdapterType_String AT_OpenVPN = ''OpenVPN''"
| "AdapterType_String AT_Tailscale = ''Tailscale''"
| "AdapterType_String AT_GostRelay = ''GostRelay''"
| "AdapterType_String AT_Relay = ''Relay''"
| "AdapterType_String AT_Selector = ''Selector''"
| "AdapterType_String AT_Fallback = ''Fallback''"
| "AdapterType_String AT_URLTest = ''URLTest''"
| "AdapterType_String AT_LoadBalance = ''LoadBalance''"

text \<open>A chain lists the adapters a connection went through, the innermost first.\<close>

type_synonym Chain = "string list"

definition Chain_String :: "Chain \<Rightarrow> string" where
  "Chain_String c =
     (case c of
        [] \<Rightarrow> []
      | [x] \<Rightarrow> x
      | x # _ \<Rightarrow> c ! (length c - 1) @ ''['' @ x @ '']'')"

definition Chain_Last :: "Chain \<Rightarrow> string" where
  "Chain_Last c = (case c of [] \<Rightarrow> [] | x # _ \<Rightarrow> x)"

section \<open>The contract of a textual enumeration\<close>

text \<open>
  \<open>str\<close> prints a value, \<open>unmarshal\<close> reads one, and \<open>readable\<close> says which values have an entry in
  the type's table.  A provider shows that its table inverts the printer and that reading folds
  the case; every client may then rely on any casing of the printed form.
\<close>

locale text_enum =
  fixes str :: "'a \<Rightarrow> string"
    and unmarshal :: "string \<Rightarrow> 'a option"
    and readable :: "'a \<Rightarrow> bool"
  assumes unmarshal_str: "readable a \<Longrightarrow> unmarshal (str a) = Some a"
    and unmarshal_fold: "unmarshal (to_lower s) = unmarshal s"
begin

lemma unmarshal_any_case:
  assumes "readable a" "to_lower s = to_lower (str a)"
  shows "unmarshal s = Some a"
proof -
  have "unmarshal s = unmarshal (to_lower (str a))" using unmarshal_fold [of s] assms(2) by simp
  also have "\<dots> = Some a" using assms(1) by (simp add: unmarshal_fold unmarshal_str)
  finally show ?thesis .
qed

lemma unmarshal_upper: "readable a \<Longrightarrow> unmarshal (to_upper (str a)) = Some a"
  by (rule unmarshal_any_case) simp_all

lemma str_inj_on: "inj_on str {a. readable a}"
  by (rule inj_onI) (metis mem_Collect_eq option.inject unmarshal_str)

end

lemmas enum_tables =
  ModeMapping_def StatusMapping_def DNSModeMapping_def dnsPreferMap_def FilterModeMapping_def
  validModes_def

lemmas enum_readers [step_simps] =
  TunnelMode_UnmarshalText_def TunnelStatus_UnmarshalText_def DNSMode_UnmarshalText_def
  DNSPrefer_UnmarshalText_def FilterMode_UnmarshalText_def FindProcessMode_Set_def

lemma to_lower_Cons [simp]: "to_lower (c # s) = lower_char c # to_lower s"
  by (simp add: to_lower_def)

lemma to_lower_Nil [simp]: "to_lower [] = []"
  by (simp add: to_lower_def)

lemmas lower_eval = lower_char_def upper_char_def Let_def to_upper_def char_of_eq_iff

interpretation mode_enum: text_enum TunnelMode_String TunnelMode_UnmarshalText "\<lambda>_. True"
proof
  show "TunnelMode_UnmarshalText (TunnelMode_String a) = Some a" for a
    by (cases a) (simp_all add: enum_readers enum_tables lower_eval)
qed (simp add: enum_readers)

interpretation status_enum: text_enum TunnelStatus_String TunnelStatus_UnmarshalText "\<lambda>_. True"
proof
  show "TunnelStatus_UnmarshalText (TunnelStatus_String a) = Some a" for a
    by (cases a) (simp_all add: enum_readers enum_tables lower_eval)
qed (simp add: enum_readers)

interpretation dns_mode_enum: text_enum DNSMode_String DNSMode_UnmarshalText "\<lambda>m. m \<noteq> DNSHosts"
proof
  show "a \<noteq> DNSHosts \<Longrightarrow> DNSMode_UnmarshalText (DNSMode_String a) = Some a" for a
    by (cases a) (simp_all add: enum_readers enum_tables lower_eval)
qed (simp add: enum_readers)

interpretation dns_prefer_enum: text_enum DNSPrefer_String DNSPrefer_UnmarshalText "\<lambda>_. True"
proof
  show "DNSPrefer_UnmarshalText (DNSPrefer_String a) = Some a" for a
    by (cases a) (simp_all add: enum_readers enum_tables lower_eval)
qed (simp add: enum_readers)

interpretation filter_enum: text_enum FilterMode_String FilterMode_UnmarshalText "\<lambda>_. True"
proof
  show "FilterMode_UnmarshalText (FilterMode_String a) = Some a" for a
    by (cases a) (simp_all add: enum_readers enum_tables lower_eval)
qed (simp add: enum_readers)

interpretation find_process_enum: text_enum FindProcessMode_String FindProcessMode_Set "\<lambda>_. True"
proof
  show "FindProcessMode_Set (FindProcessMode_String a) = Some a" for a
    by (cases a) (simp_all add: enum_readers enum_tables lower_eval)
qed (simp add: enum_readers)

lemma DNSHosts_unreadable: "DNSMode_UnmarshalText (to_upper (DNSMode_String DNSHosts)) = None"
  by (simp add: enum_readers enum_tables lower_eval)

lemma ParseType_upper: "ParseType (to_upper (Type_String t)) = Some t"
  by (cases t) (simp_all add: ParseType_def lower_eval)

section \<open>Round trips\<close>

text \<open>
  Every configuration enumeration reads its own text back whatever its casing, the one
  exception being the DNS mode \<open>hosts\<close>, which is printed but cannot be configured; and the
  inbound types are read back from their upper-case names, as the \<open>IN-TYPE\<close> rule does.
\<close>

lemma enums_roundtrip:
  "TunnelMode_UnmarshalText (to_upper (TunnelMode_String m)) = Some m \<and>
   TunnelStatus_UnmarshalText (to_upper (TunnelStatus_String st)) = Some st \<and>
   DNSMode_UnmarshalText (to_upper (DNSMode_String d)) = (if d = DNSHosts then None else Some d) \<and>
   DNSPrefer_UnmarshalText (to_upper (DNSPrefer_String pr)) = Some pr \<and>
   FilterMode_UnmarshalText (to_upper (FilterMode_String fm)) = Some fm \<and>
   FindProcessMode_Set (to_upper (FindProcessMode_String fp)) = Some fp \<and>
   ParseType (to_upper (Type_String t)) = Some t"
  by (simp add: mode_enum.unmarshal_upper status_enum.unmarshal_upper dns_mode_enum.unmarshal_upper
      dns_prefer_enum.unmarshal_upper filter_enum.unmarshal_upper find_process_enum.unmarshal_upper
      DNSHosts_unreadable [simplified] ParseType_upper)

end
