(* ===== verification/Metadata.thy ===== *)
theory Metadata
  imports Netip_Text Enums
begin

text \<open>
  \<open>constant/metadata.go\<close>: the record that describes a connection while it is routed, and its
  methods.  A field \<open>X\<close> of the Go struct is the record field \<open>mX\<close>.  The two geo code lists are
  options because the code distinguishes \<open>nil\<close> (never queried) from an empty result.
\<close>

section \<open>The record\<close>

text \<open>
  A \<open>net.Addr\<close> as \<open>SetRemoteAddr\<close> sees it: what the optional methods \<open>RawAddr\<close>, \<open>AddrPort\<close> and
  \<open>AddrString\<close> return where the dynamic type has them, and the result of \<open>String\<close>.
\<close>

datatype net_addr = NetAddr
  (na_raw: "net_addr option option")
  (na_addrPort: "(addr \<times> 16 word) option")
  (na_addrString: "string option")
  (na_string: string)

record Metadata =
  mNetWork :: NetWork
  mType :: InboundType
  mSrcIP :: addr
  mDstIP :: addr
  mSrcGeoIP :: "string list option"
  mDstGeoIP :: "string list option"
  mSrcIPASN :: string
  mDstIPASN :: string
  mSrcPort :: "16 word"
  mDstPort :: "16 word"
  mInIP :: addr
  mInPort :: "16 word"
  mInName :: string
  mInUser :: string
  mHost :: string
  mDNSMode :: DNSMode
  mUid :: "32 word"
  mProcess :: string
  mProcessPath :: string
  mSpecialProxy :: string
  mSpecialRules :: string
  mRemoteDst :: string
  mDSCP :: "8 word"
  mRawSrcAddr :: "net_addr option"
  mRawDstAddr :: "net_addr option"
  mSniffHost :: string

text \<open>The zero value of the struct.\<close>

definition zeroMetadata :: Metadata where
  "zeroMetadata = \<lparr>mNetWork = TCP, mType = HTTP, mSrcIP = NoAddr, mDstIP = NoAddr,
     mSrcGeoIP = None, mDstGeoIP = None, mSrcIPASN = [], mDstIPASN = [], mSrcPort = 0, mDstPort = 0,
     mInIP = NoAddr, mInPort = 0, mInName = [], mInUser = [], mHost = [], mDNSMode = DNSNormal,
     mUid = 0, mProcess = [], mProcessPath = [], mSpecialProxy = [], mSpecialRules = [],
     mRemoteDst = [], mDSCP = 0, mRawSrcAddr = None, mRawDstAddr = None, mSniffHost = []\<rparr>"

section \<open>Methods\<close>

definition Metadata_String :: "Metadata \<Rightarrow> string" where
  "Metadata_String m =
     (if mHost m \<noteq> [] then mHost m
      else if IsValid (mDstIP m) then Addr_String (mDstIP m)
      else ''<nil>'')"

definition RemoteAddress :: "Metadata \<Rightarrow> string" where
  "RemoteAddress m = JoinHostPort (Metadata_String m) (show_nat (unat (mDstPort m)))"

definition SourceAddress :: "Metadata \<Rightarrow> string" where
  "SourceAddress m = JoinHostPort (Addr_String (mSrcIP m)) (show_nat (unat (mSrcPort m)))"

definition SourceAddrPort :: "Metadata \<Rightarrow> addr \<times> 16 word" where
  "SourceAddrPort m = (Unmap (mSrcIP m), mSrcPort m)"

definition MihomoName :: string where
  "MihomoName = ''mihomo''"

definition SourceDetail :: "Metadata \<Rightarrow> string" where
  "SourceDetail m =
     (if mType m = INNER then MihomoName
      else if mProcess m \<noteq> [] \<and> mUid m \<noteq> 0
      then SourceAddress m @ ''('' @ mProcess m @ '', uid='' @ show_nat (unat (mUid m)) @ '')''
      else if mUid m \<noteq> 0 then SourceAddress m @ ''(uid='' @ show_nat (unat (mUid m)) @ '')''
      else if mProcess m \<noteq> [] then SourceAddress m @ ''('' @ mProcess m @ '')''
      else SourceAddress m)"

definition SourceValid :: "Metadata \<Rightarrow> bool" where
  "SourceValid m = (mSrcPort m \<noteq> 0 \<and> IsValid (mSrcIP m))"

definition Metadata_AddrType :: "Metadata \<Rightarrow> AddrType" where
  "Metadata_AddrType m =
     (if mHost m \<noteq> [] \<or> \<not> IsValid (mDstIP m) then AtypDomainName
      else if Is4 (mDstIP m) then AtypIPv4
      else AtypIPv6)"

definition Resolved :: "Metadata \<Rightarrow> bool" where
  "Resolved m = IsValid (mDstIP m)"

definition RuleHost :: "Metadata \<Rightarrow> string" where
  "RuleHost m = (if length (mSniffHost m) = 0 then mHost m else mSniffHost m)"

definition Pure :: "Metadata \<Rightarrow> Metadata" where
  "Pure m =
     (if (mDNSMode m = DNSMapping \<or> mDNSMode m = DNSHosts) \<and> IsValid (mDstIP m)
      then m\<lparr>mHost := []\<rparr> else m)"

definition AddrPort :: "Metadata \<Rightarrow> addr \<times> 16 word" where
  "AddrPort m = (Unmap (mDstIP m), mDstPort m)"

definition UDPAddr :: "Metadata \<Rightarrow> (addr \<times> 16 word) option" where
  "UDPAddr m =
     (if mNetWork m \<noteq> UDP \<or> \<not> IsValid (mDstIP m) then None else Some (AddrPort m))"

definition Valid :: "Metadata \<Rightarrow> bool" where
  "Valid m = (mHost m \<noteq> [] \<or> IsValid (mDstIP m))"

text \<open>
  \<open>SetRemoteAddress\<close>: \<^const>\<open>None\<close> is the error of \<open>SplitHostPort\<close>; a port that does not parse as a
  16-bit number is silently zero.
\<close>

definition SetRemoteAddress :: "string \<Rightarrow> Metadata \<Rightarrow> Metadata option" where
  "SetRemoteAddress rawAddress m =
     (case SplitHostPort rawAddress of
        None \<Rightarrow> None
      | Some (host, port) \<Rightarrow>
          let uint16Port = (case parse_uint 16 port of None \<Rightarrow> 0 | Some p \<Rightarrow> of_nat p);
              m' = (case ParseAddr host of
                      None \<Rightarrow> m\<lparr>mHost := host, mDstIP := NoAddr\<rparr>
                    | Some ip \<Rightarrow> m\<lparr>mHost := [], mDstIP := Unmap ip\<rparr>)
          in Some (m'\<lparr>mDstPort := uint16Port\<rparr>))"

text \<open>
  \<open>SetRemoteAddr\<close>: the raw address first; where that fails the metadata keeps what the failed call
  wrote, so the recursive call returns the metadata together with its success.
\<close>

fun SetRemoteAddr_addr :: "net_addr \<Rightarrow> Metadata \<Rightarrow> bool \<times> Metadata" where
  "SetRemoteAddr_addr (NetAddr raw ap as s) m =
     (let (handled, m1) =
        (case raw of Some (Some r) \<Rightarrow> SetRemoteAddr_addr r m | _ \<Rightarrow> (False, m)) in
      if handled then (True, m1)
      else
        let byAddress = \<lambda>m2. (case SetRemoteAddress s m2 of None \<Rightarrow> (False, m2) | Some m3 \<Rightarrow> (True, m3)) in
        (case ap of
           Some (ip, port) \<Rightarrow>
             if port \<noteq> 0 then
               let m2 = m1\<lparr>mDstPort := port\<rparr> in
               if IsValid ip then (True, m2\<lparr>mDstIP := Unmap ip\<rparr>)
               else (case as of Some h \<Rightarrow> (True, m2\<lparr>mHost := h\<rparr>) | None \<Rightarrow> byAddress m2)
             else byAddress m1
         | None \<Rightarrow> byAddress m1))"

definition SetRemoteAddr :: "net_addr option \<Rightarrow> Metadata \<Rightarrow> bool \<times> Metadata" where
  "SetRemoteAddr addr m = (case addr of None \<Rightarrow> (True, m) | Some a \<Rightarrow> SetRemoteAddr_addr a m)"

definition SwapSrcDst :: "Metadata \<Rightarrow> Metadata" where
  "SwapSrcDst m =
     m\<lparr>mSrcIP := mDstIP m, mDstIP := mSrcIP m,
       mSrcPort := mDstPort m, mDstPort := mSrcPort m,
       mSrcIPASN := mDstIPASN m, mDstIPASN := mSrcIPASN m,
       mSrcGeoIP := mDstGeoIP m, mDstGeoIP := mSrcGeoIP m\<rparr>"

section \<open>Lemmas\<close>

lemma SwapSrcDst_invol [simp]: "SwapSrcDst (SwapSrcDst m) = m"
  by (simp add: SwapSrcDst_def)

lemma SwapSrcDst_fields [simp]:
  "mHost (SwapSrcDst m) = mHost m" "mSniffHost (SwapSrcDst m) = mSniffHost m"
  "mDstIP (SwapSrcDst m) = mSrcIP m" "mSrcIP (SwapSrcDst m) = mDstIP m"
  "mNetWork (SwapSrcDst m) = mNetWork m"
  by (simp_all add: SwapSrcDst_def)

lemma RuleHost_Swap [simp]: "RuleHost (SwapSrcDst m) = RuleHost m"
  by (simp add: RuleHost_def)

lemma Pure_idem [simp]: "Pure (Pure m) = Pure m"
  by (simp add: Pure_def)

lemma Valid_Pure [simp]: "Valid (Pure m) = Valid m"
  by (auto simp: Pure_def Valid_def)

lemma SetRemoteAddress_Join:
  assumes "CHR ''['' \<notin> set host" "CHR '']'' \<notin> set host"
  shows "SetRemoteAddress (JoinHostPort host (show_nat (unat (p :: 16 word)))) m =
    Some ((case ParseAddr host of
             None \<Rightarrow> m\<lparr>mHost := host, mDstIP := NoAddr\<rparr>
           | Some ip \<Rightarrow> m\<lparr>mHost := [], mDstIP := Unmap ip\<rparr>)\<lparr>mDstPort := p\<rparr>)"
proof -
  have "SplitHostPort (JoinHostPort host (show_nat (unat p))) = Some (host, show_nat (unat p))"
    using assms by (intro Split_Join) (simp_all add: show_nat_no_dot)
  moreover have "parse_uint 16 (show_nat (unat p)) = Some (unat p)"
    using unat_less_power [of p] by (intro parse_uint_show) simp
  ultimately show ?thesis by (simp add: SetRemoteAddress_def Let_def)
qed

section \<open>The property\<close>

text \<open>
  The destination that \<open>RemoteAddress\<close> prints is the one \<open>SetRemoteAddress\<close> reads: for a
  host name that is not itself an address text the name and the port come back and the address is
  cleared; for a connection known by its IPv4 address only, the address and the port come back and
  the host is empty.  No other field changes.
\<close>

lemma RemoteAddress_roundtrip:
  assumes "mHost m \<noteq> [] \<Longrightarrow>
      CHR ''['' \<notin> set (mHost m) \<and> CHR '']'' \<notin> set (mHost m) \<and> ParseAddr (mHost m) = None"
    and "mHost m = [] \<Longrightarrow> Is4 (mDstIP m)"
  shows "SetRemoteAddress (RemoteAddress m) m' =
    Some (m'\<lparr>mHost := mHost m, mDstIP := (if mHost m = [] then mDstIP m else NoAddr),
             mDstPort := mDstPort m\<rparr>)"
proof (cases "mHost m = []")
  case True
  with assms(2) obtain a where "mDstIP m = V4 a" by (cases "mDstIP m") auto
  with True show ?thesis
    by (simp add: RemoteAddress_def Metadata_String_def SetRemoteAddress_Join addr4_String_chars
        ParseAddr_addr4)
next
  case False
  with assms(1) show ?thesis
    by (simp add: RemoteAddress_def Metadata_String_def SetRemoteAddress_Join)
qed

lemma RemoteAddress_roundtrip_witness:
  "SetRemoteAddress (RemoteAddress (zeroMetadata\<lparr>mHost := ''dns.google'', mDstPort := 443\<rparr>)) zeroMetadata =
     Some (zeroMetadata\<lparr>mHost := ''dns.google'', mDstPort := 443\<rparr>) \<and>
   SetRemoteAddress (RemoteAddress (zeroMetadata\<lparr>mDstIP := V4 0x08080808, mDstPort := 53\<rparr>)) zeroMetadata =
     Some (zeroMetadata\<lparr>mDstIP := V4 0x08080808, mDstPort := 53\<rparr>)"
proof -
  have "ParseAddr ''dns.google'' = None"
    by (simp add: ParseAddr_def parseIPv4_def parseIPv4Fields_def)
  then show ?thesis
    using RemoteAddress_roundtrip [of "zeroMetadata\<lparr>mHost := ''dns.google'', mDstPort := 443\<rparr>" zeroMetadata]
      RemoteAddress_roundtrip [of "zeroMetadata\<lparr>mDstIP := V4 0x08080808, mDstPort := 53\<rparr>" zeroMetadata]
    by (simp add: zeroMetadata_def)
qed

end
