(* ===== verification/Rules.thy ===== *)
theory Rules
  imports Wildcard Metadata
begin

text \<open>
  \<open>rules/common/*.go\<close>, \<open>rules/logic/logic.go\<close>, \<open>rules/provider/rule_set.go\<close>, the matching half of
  \<open>rules/provider/*_strategy.go\<close> and \<open>component/mmdb/reader.go\<close>: the rules of the configuration and
  how each matches a connection.  A rule is a value of the datatype \<open>rule\<close>, one constructor per Go
  struct; a match threads the connection's metadata and the state captured by the helper's
  closures, because the rules write to the metadata (geo caches, resolved address).

  The map of sub-rule lists and the map of rule providers are shared by reference in the program;
  here they are components of the environment, and following such a reference costs one unit of
  fuel.  \<open>OutOfFuel\<close> stands for unbounded recursion and \<open>IndexOutOfRange\<close> for the run-time panic.
\<close>

section \<open>Rules\<close>

datatype rule =
    Domain (r_domain: string) (r_adapter: string)
  | DomainSuffix (r_suffix: string) (r_adapter: string)
  | DomainKeyword (r_keyword: string) (r_adapter: string)
  | DomainRegex (r_regex: string) (r_adapter: string)
  | DomainWildcard (r_pattern: string) (r_adapter: string)
  | GEOSITE (r_country: string) (r_adapter: string)
  | GEOIP (r_country: string) (r_adapter: string) (r_noResolveIP: bool) (r_isSourceIP: bool)
  | ASN (r_asn: string) (r_adapter: string) (r_noResolveIP: bool) (r_isSourceIP: bool)
  | IPCIDR (r_ipnet: prefix) (r_adapter: string) (r_isSourceIP: bool) (r_noResolveIP: bool)
  | IPSuffix (r_ipBytes: "8 word list") (r_bits: nat) (r_payload: string) (r_adapter: string)
      (r_isSourceIP: bool) (r_noResolveIP: bool)
  | Port (r_adapter: string) (r_port: string) (r_ruleType: RuleType) (r_portRanges: "16 word Range list")
  | DSCP (r_dscp: "8 word Range list") (r_payload: string) (r_adapter: string)
  | Uid (r_uids: "32 word Range list") (r_oUid: string) (r_adapter: string)
  | InName (r_names: "string list") (r_adapter: string) (r_payload: string)
  | InUser (r_users: "string list") (r_adapter: string) (r_payload: string)
  | InType (r_types: "InboundType list") (r_adapter: string) (r_payload: string)
  | Process (r_pattern: string) (r_adapter: string) (r_ruleType: RuleType)
  | NetworkType (r_network: NetWork) (r_adapter: string)
  | FinalMatch (r_adapter: string)
  | RuleSet (r_ruleProviderName: string) (r_adapter: string) (r_isSrc: bool) (r_noResolveIP: bool)
  | Logic (r_payload: string) (r_adapter: string) (r_ruleType: RuleType) (r_rules: "rule list")

fun rule_RuleType :: "rule \<Rightarrow> RuleType" where
  "rule_RuleType (Domain _ _) = RT_Domain"
| "rule_RuleType (DomainSuffix _ _) = RT_DomainSuffix"
| "rule_RuleType (DomainKeyword _ _) = RT_DomainKeyword"
| "rule_RuleType (DomainRegex _ _) = RT_DomainRegex"
| "rule_RuleType (DomainWildcard _ _) = RT_DomainWildcard"
| "rule_RuleType (GEOSITE _ _) = RT_GEOSITE"
| "rule_RuleType (GEOIP _ _ _ isSrc) = (if isSrc then RT_SrcGEOIP else RT_GEOIP)"
| "rule_RuleType (ASN _ _ _ isSrc) = (if isSrc then RT_SrcIPASN else RT_IPASN)"
| "rule_RuleType (IPCIDR _ _ isSrc _) = (if isSrc then RT_SrcIPCIDR else RT_IPCIDR)"
| "rule_RuleType (IPSuffix _ _ _ _ isSrc _) = (if isSrc then RT_SrcIPSuffix else RT_IPSuffix)"
| "rule_RuleType (Port _ _ rt _) = rt"
| "rule_RuleType (DSCP _ _ _) = RT_DSCP"
| "rule_RuleType (Uid _ _ _) = RT_Uid"
| "rule_RuleType (InName _ _ _) = RT_InName"
| "rule_RuleType (InUser _ _ _) = RT_InUser"
| "rule_RuleType (InType _ _ _) = RT_InType"
| "rule_RuleType (Process _ _ rt) = rt"
| "rule_RuleType (NetworkType _ _) = RT_Network"
| "rule_RuleType (FinalMatch _) = RT_MATCH"
| "rule_RuleType (RuleSet _ _ _ _) = RT_RuleSet"
| "rule_RuleType (Logic _ _ rt _) = rt"

abbreviation Adapter :: "rule \<Rightarrow> string" where
  "Adapter \<equiv> r_adapter"

definition prefix_String :: "prefix \<Rightarrow> string" where
  "prefix_String p = Addr_String (p_addr p) @ ''/'' @ show_nat (p_bits p)"

text \<open>\<open>Payload\<close>: the logic rules print their sub-rules; a NOT rule prints its first one
  (it has exactly one, which its constructor checks).\<close>

fun Payload :: "rule \<Rightarrow> string" and Payload_items :: "rule list \<Rightarrow> string list" where
  "Payload (Domain d _) = d"
| "Payload (DomainSuffix s _) = s"
| "Payload (DomainKeyword k _) = k"
| "Payload (DomainRegex r _) = r"
| "Payload (DomainWildcard p _) = p"
| "Payload (GEOSITE c _) = c"
| "Payload (GEOIP c _ _ _) = c"
| "Payload (ASN a _ _ _) = a"
| "Payload (IPCIDR p _ _ _) = prefix_String p"
| "Payload (IPSuffix _ _ pl _ _ _) = pl"
| "Payload (Port _ p _ _) = p"
| "Payload (DSCP _ pl _) = pl"
| "Payload (Uid _ o_uid _) = o_uid"
| "Payload (InName _ _ pl) = pl"
| "Payload (InUser _ _ pl) = pl"
| "Payload (InType _ _ pl) = pl"
| "Payload (Process p _ _) = p"
| "Payload (NetworkType n _) = NetWork_String n"
| "Payload (FinalMatch _) = []"
| "Payload (RuleSet n _ _ _) = n"
| "Payload (Logic pl _ rt rs) =
     (if rt = RT_NOT then ''(!'' @ (case Payload_items rs of [] \<Rightarrow> [] | p # _ \<Rightarrow> p) @ '')''
      else if rt = RT_OR then ''('' @ join_str '' || '' (Payload_items rs) @ '')''
      else if rt = RT_AND then ''('' @ join_str '' && '' (Payload_items rs) @ '')''
      else pl)"
| "Payload_items [] = []"
| "Payload_items (r # rs) =
     (''('' @ RuleType_String (rule_RuleType r) @ '','' @ Payload r @ '')'') # Payload_items rs"

fun ProviderNames :: "rule \<Rightarrow> string list" where
  "ProviderNames (RuleSet n _ _ _) = [n]"
| "ProviderNames (Logic _ _ _ rs) = concat (map ProviderNames rs)"
| "ProviderNames _ = []"

section \<open>The helper and the environment\<close>

datatype match_error = IndexOutOfRange | OutOfFuel

type_synonym 's mstate = "Metadata \<times> 's"

type_synonym ('s, 'a) mresult = "(match_error, 'a \<times> 's mstate) result"

text \<open>\<open>constant.RuleMatchHelper\<close>: closures over the metadata and their captured variables \<open>'s\<close>.\<close>

record 's RuleMatchHelper =
  ResolveIP :: "('s mstate \<Rightarrow> 's mstate) option"
  FindProcess :: "('s mstate \<Rightarrow> 's mstate) option"
  CheckPassRule :: "(Metadata \<Rightarrow> string \<Rightarrow> bool) option"

text \<open>
  \<open>component/mmdb/reader.go\<close>.  The database reader itself is the MaxMind library: a record found
  for an address is a parameter, the zero value when there is none.
\<close>

datatype databaseType = typeMaxmind | typeSing | typeMetaV0

datatype mmdb_record = MetaString string | MetaList "string list" | MetaOther

record IPReader =
  ip_databaseType :: databaseType
  lookup_iso :: "8 word list \<Rightarrow> string"
  lookup_sing :: "8 word list \<Rightarrow> string"
  lookup_meta :: "8 word list \<Rightarrow> mmdb_record"

record ASNReader =
  asn_databaseType :: string
  lookup_geolite :: "8 word list \<Rightarrow> 32 word \<times> string"
  lookup_ipinfo :: "8 word list \<Rightarrow> string \<times> string"

definition LookupCode :: "IPReader \<Rightarrow> 8 word list \<Rightarrow> string list" where
  "LookupCode r ip =
     (case ip_databaseType r of
        typeMaxmind \<Rightarrow> (let iso = lookup_iso r ip in if iso = [] then [] else [to_lower iso])
      | typeSing \<Rightarrow> (let code = lookup_sing r ip in if code = [] then [] else [code])
      | typeMetaV0 \<Rightarrow>
          (case lookup_meta r ip of MetaString c \<Rightarrow> [c] | MetaList cs \<Rightarrow> cs | MetaOther \<Rightarrow> []))"

text \<open>\<open>result.ASN[2:]\<close> drops the leading \<open>AS\<close> and panics on a text shorter than two bytes.\<close>

definition LookupASN :: "ASNReader \<Rightarrow> 8 word list \<Rightarrow> (match_error, string \<times> string) result" where
  "LookupASN r ip =
     (if asn_databaseType r \<in> {''GeoLite2-ASN'', ''DBIP-ASN-Lite (compat=GeoLite2-ASN)''}
      then (case lookup_geolite r ip of (n, org) \<Rightarrow> Inr (show_nat (unat n), org))
      else if asn_databaseType r = ''ipinfo generic_asn_free.mmdb''
      then (case lookup_ipinfo r ip of (asn, name) \<Rightarrow>
              if length asn < 2 then Inl IndexOutOfRange else Inr (drop 2 asn, name))
      else Inr ([], []))"

text \<open>
  The strategies of a rule provider.  The compiled domain set and the merged prefix set are
  represented by their membership functions; \<^const>\<open>None\<close> is the nil pointer before the first load.
\<close>

datatype ruleStrategy =
    DomainStrategy "(string \<Rightarrow> bool) option"
  | IPCidrStrategy "(addr \<Rightarrow> bool) option"
  | ClassicalStrategy "rule list"

text \<open>
  What a match reads besides the metadata: the regular expression library, the geo databases, the
  resolver's broadcast test and the two maps of the configuration.  A provider without strategy
  (unknown behaviour) is \<open>Some None\<close>.
\<close>

record env =
  regexMatch :: "string \<Rightarrow> string \<Rightarrow> bool"
  GeodataMode :: bool
  LoadGeoIPMatcher :: "string \<Rightarrow> (addr \<Rightarrow> bool) option"
  LoadGeoSiteMatcher :: "string \<Rightarrow> (string \<Rightarrow> bool) option"
  IPInstance :: IPReader
  ASNInstance :: ASNReader
  IsFakeBroadcastIP :: "addr \<Rightarrow> bool"
  subRules :: "string \<Rightarrow> rule list option"
  RuleProviders :: "string \<Rightarrow> ruleStrategy option option"

section \<open>Matching the elementary rules\<close>

definition Domain_Match :: "string \<Rightarrow> string \<Rightarrow> Metadata \<Rightarrow> bool \<times> string" where
  "Domain_Match domain adapter m = (RuleHost m = domain, adapter)"

definition DomainSuffix_Match :: "string \<Rightarrow> string \<Rightarrow> Metadata \<Rightarrow> bool \<times> string" where
  "DomainSuffix_Match suffix adapter m =
     (let domain = RuleHost m in (has_suffix domain (''.'' @ suffix) \<or> domain = suffix, adapter))"

definition DomainKeyword_Match :: "string \<Rightarrow> string \<Rightarrow> Metadata \<Rightarrow> bool \<times> string" where
  "DomainKeyword_Match keyword adapter m =
     (let domain = RuleHost m in (str_contains domain keyword, adapter))"

definition DomainRegex_Match :: "env \<Rightarrow> string \<Rightarrow> string \<Rightarrow> Metadata \<Rightarrow> bool \<times> string" where
  "DomainRegex_Match e regex adapter m = (regexMatch e regex (RuleHost m), adapter)"

text \<open>The wildcard matcher returns on every input; its result is compared with \<open>Some True\<close>.\<close>

definition DomainWildcard_Match :: "string \<Rightarrow> string \<Rightarrow> Metadata \<Rightarrow> bool \<times> string" where
  "DomainWildcard_Match pattern adapter m = (Match pattern (mHost m) = Some True, adapter)"

definition GEOSITE_MatchDomain :: "env \<Rightarrow> string \<Rightarrow> string \<Rightarrow> bool" where
  "GEOSITE_MatchDomain e country domain =
     (if length domain = 0 then False
      else (case LoadGeoSiteMatcher e country of None \<Rightarrow> False | Some f \<Rightarrow> f domain))"

definition GEOSITE_Match :: "env \<Rightarrow> string \<Rightarrow> string \<Rightarrow> Metadata \<Rightarrow> bool \<times> string" where
  "GEOSITE_Match e country adapter m = (GEOSITE_MatchDomain e country (RuleHost m), adapter)"

definition Port_Match :: "RuleType \<Rightarrow> 16 word Range list \<Rightarrow> string \<Rightarrow> Metadata \<Rightarrow> bool \<times> string" where
  "Port_Match rt ranges adapter m =
     (let targetPort = (if rt = RT_InPort then mInPort m else if rt = RT_SrcPort then mSrcPort m else mDstPort m)
      in (Check ranges targetPort, adapter))"

definition DSCP_Match :: "8 word Range list \<Rightarrow> string \<Rightarrow> Metadata \<Rightarrow> bool \<times> string" where
  "DSCP_Match ranges adapter m = (Check ranges (mDSCP m), adapter)"

fun InName_Match :: "string list \<Rightarrow> string \<Rightarrow> Metadata \<Rightarrow> bool \<times> string" where
  "InName_Match [] adapter m = (False, [])"
| "InName_Match (n # ns) adapter m = (if mInName m = n then (True, adapter) else InName_Match ns adapter m)"

fun InUser_Match :: "string list \<Rightarrow> string \<Rightarrow> Metadata \<Rightarrow> bool \<times> string" where
  "InUser_Match [] adapter m = (False, [])"
| "InUser_Match (u # us) adapter m = (if mInUser m = u then (True, adapter) else InUser_Match us adapter m)"

fun InType_Match :: "InboundType list \<Rightarrow> string \<Rightarrow> Metadata \<Rightarrow> bool \<times> string" where
  "InType_Match [] adapter m = (False, [])"
| "InType_Match (t # ts) adapter m = (if mType m = t then (True, adapter) else InType_Match ts adapter m)"

definition NetworkType_Match :: "NetWork \<Rightarrow> string \<Rightarrow> Metadata \<Rightarrow> bool \<times> string" where
  "NetworkType_Match network adapter m = (network = mNetWork m, adapter)"

section \<open>Rules that resolve or look up the process\<close>

definition call_opt :: "('s mstate \<Rightarrow> 's mstate) option \<Rightarrow> 's mstate \<Rightarrow> 's mstate" where
  "call_opt f st = (case f of None \<Rightarrow> st | Some g \<Rightarrow> g st)"

text \<open>The first lines of the four address rules, and the address they look at.\<close>

definition resolve_first :: "bool \<Rightarrow> bool \<Rightarrow> 's RuleMatchHelper \<Rightarrow> 's mstate \<Rightarrow> 's mstate" where
  "resolve_first noResolveIP isSourceIP h st =
     (if \<not> noResolveIP \<and> \<not> isSourceIP then call_opt (ResolveIP h) st else st)"

definition rule_ip :: "bool \<Rightarrow> Metadata \<Rightarrow> addr" where
  "rule_ip isSourceIP m = (if isSourceIP then mSrcIP m else mDstIP m)"

definition isLan :: "env \<Rightarrow> addr \<Rightarrow> bool" where
  "isLan e ip =
     (IsPrivate ip \<or> IsUnspecified ip \<or> IsLoopback ip \<or> IsMulticast ip \<or> IsLinkLocalUnicast ip \<or>
      IsFakeBroadcastIP e ip)"

definition geo_cache :: "bool \<Rightarrow> Metadata \<Rightarrow> string list option" where
  "geo_cache isSrc m = (if isSrc then mSrcGeoIP m else mDstGeoIP m)"

definition set_geo_cache :: "bool \<Rightarrow> string list option \<Rightarrow> Metadata \<Rightarrow> Metadata" where
  "set_geo_cache isSrc c m = (if isSrc then m\<lparr>mSrcGeoIP := c\<rparr> else m\<lparr>mDstGeoIP := c\<rparr>)"

text \<open>\<open>slices.Contains\<close> and \<open>append\<close> on a slice that may be nil.\<close>

definition slice_has :: "string list option \<Rightarrow> string \<Rightarrow> bool" where
  "slice_has sl x = (case sl of None \<Rightarrow> False | Some xs \<Rightarrow> x \<in> set xs)"

definition slice_add :: "string list option \<Rightarrow> string \<Rightarrow> string list option" where
  "slice_add sl x = (case sl of None \<Rightarrow> Some [x] | Some xs \<Rightarrow> Some (xs @ [x]))"

definition GEOIP_Match ::
  "env \<Rightarrow> string \<Rightarrow> string \<Rightarrow> bool \<Rightarrow> bool \<Rightarrow> 's RuleMatchHelper \<Rightarrow> 's mstate \<Rightarrow> (bool \<times> string) \<times> 's mstate" where
  "GEOIP_Match e country adapter noResolveIP isSrc h st0 =
     (let st = resolve_first noResolveIP isSrc h st0; m = fst st; ip = rule_ip isSrc m in
      if \<not> IsValid ip then ((False, []), st)
      else if country = ''lan'' then ((isLan e ip, adapter), st)
      else if GeodataMode e then
        (if slice_has (geo_cache isSrc m) country then ((True, adapter), st)
         else
           (case LoadGeoIPMatcher e country of
              None \<Rightarrow> ((False, []), st)
            | Some matcher \<Rightarrow>
                if matcher ip
                then ((True, adapter), (set_geo_cache isSrc (slice_add (geo_cache isSrc m) country) m, snd st))
                else ((False, adapter), st)))
      else if geo_cache isSrc m \<noteq> None then ((slice_has (geo_cache isSrc m) country, adapter), st)
      else
        let codes = LookupCode (IPInstance e) (AsSlice ip);
            st' = (set_geo_cache isSrc (Some codes) m, snd st) in
        if country \<in> set codes then ((True, adapter), st') else ((False, []), st'))"

definition GEOIP_MatchIp :: "env \<Rightarrow> string \<Rightarrow> addr \<Rightarrow> bool" where
  "GEOIP_MatchIp e country ip =
     (if \<not> IsValid ip then False
      else if country = ''lan'' then isLan e ip
      else if GeodataMode e then
        (case LoadGeoIPMatcher e country of None \<Rightarrow> False | Some matcher \<Rightarrow> matcher ip)
      else country \<in> set (LookupCode (IPInstance e) (AsSlice ip)))"

definition dnsFallbackFilter_MatchIp :: "env \<Rightarrow> string \<Rightarrow> addr \<Rightarrow> bool" where
  "dnsFallbackFilter_MatchIp e country ip =
     (if \<not> IsValid ip then False
      else if isLan e ip then False
      else if country = ''lan'' then \<not> isLan e ip
      else if GeodataMode e then
        (case LoadGeoIPMatcher e country of None \<Rightarrow> False | Some matcher \<Rightarrow> \<not> matcher ip)
      else country \<notin> set (LookupCode (IPInstance e) (AsSlice ip)))"

definition set_asn :: "bool \<Rightarrow> string \<Rightarrow> Metadata \<Rightarrow> Metadata" where
  "set_asn isSrc t m = (if isSrc then m\<lparr>mSrcIPASN := t\<rparr> else m\<lparr>mDstIPASN := t\<rparr>)"

definition ASN_Match ::
  "env \<Rightarrow> string \<Rightarrow> string \<Rightarrow> bool \<Rightarrow> bool \<Rightarrow> 's RuleMatchHelper \<Rightarrow> 's mstate \<Rightarrow> ('s, bool \<times> string) mresult" where
  "ASN_Match e a adapter noResolveIP isSrc h st0 =
     (let st = resolve_first noResolveIP isSrc h st0; m = fst st; ip = rule_ip isSrc m in
      if \<not> IsValid ip then Inr ((False, []), st)
      else
        result_bind (LookupASN (ASNInstance e) (AsSlice ip)) (\<lambda>(asn, aso).
          Inr ((a = asn, adapter), (set_asn isSrc (asn @ '' '' @ aso) m, snd st))))"

definition IPCIDR_Match ::
  "prefix \<Rightarrow> string \<Rightarrow> bool \<Rightarrow> bool \<Rightarrow> 's RuleMatchHelper \<Rightarrow> 's mstate \<Rightarrow> (bool \<times> string) \<times> 's mstate" where
  "IPCIDR_Match ipnet adapter isSrc noResolveIP h st0 =
     (let st = resolve_first noResolveIP isSrc h st0; ip = rule_ip isSrc (fst st) in
      ((IsValid ip \<and> prefix_contains ipnet (WithZone [] ip), adapter), st))"

text \<open>
  \<open>IPSuffix.Match\<close>: the loop compares whole bytes from the back, then the remaining bits of one more
  byte.  The index \<open>size - bits/8 - 1\<close> is negative when every bit of the address is given.
\<close>

fun suffix_bytes :: "8 word list \<Rightarrow> 8 word list \<Rightarrow> nat \<Rightarrow> (match_error, bool) result" where
  "suffix_bytes xs ys 0 = Inr True"
| "suffix_bytes xs ys (Suc i) =
     (let size = length ys in
      if size < Suc i then Inl IndexOutOfRange
      else if xs ! (size - Suc i) \<noteq> ys ! (size - Suc i) then Inr False
      else suffix_bytes xs ys i)"

definition suffix_match :: "8 word list \<Rightarrow> nat \<Rightarrow> 8 word list \<Rightarrow> (match_error, bool) result" where
  "suffix_match ipBytes bits mIPBytes =
     (if length ipBytes \<noteq> length mIPBytes then Inr False
      else
        let size = length mIPBytes in
        result_bind (suffix_bytes ipBytes mIPBytes (bits div 8)) (\<lambda>same.
          if \<not> same then Inr False
          else if size < bits div 8 + 1 then Inl IndexOutOfRange
          else
            let k = size - bits div 8 - 1; sh = 8 - bits mod 8 in
            Inr (push_bit sh (ipBytes ! k) = push_bit sh (mIPBytes ! k))))"

definition IPSuffix_Match ::
  "8 word list \<Rightarrow> nat \<Rightarrow> string \<Rightarrow> bool \<Rightarrow> bool \<Rightarrow> 's RuleMatchHelper \<Rightarrow> 's mstate \<Rightarrow> ('s, bool \<times> string) mresult" where
  "IPSuffix_Match ipBytes bits adapter isSrc noResolveIP h st0 =
     (let st = resolve_first noResolveIP isSrc h st0; ip = rule_ip isSrc (fst st) in
      result_bind (suffix_match ipBytes bits (AsSlice ip)) (\<lambda>b.
        Inr (if b then (True, adapter) else (False, []), st)))"

text \<open>
  \<open>Process.Match\<close>.  \<open>strings.EqualFold\<close> and \<open>strings.ToLower\<close> fold the letters of ASCII here; for process names with other
  letters the source folds those of Unicode as well.
\<close>

definition Process_Match ::
  "env \<Rightarrow> string \<Rightarrow> string \<Rightarrow> RuleType \<Rightarrow> 's RuleMatchHelper \<Rightarrow> 's mstate \<Rightarrow> (bool \<times> string) \<times> 's mstate" where
  "Process_Match e pattern adapter rt h st0 =
     (let st = call_opt (FindProcess h) st0; m = fst st;
          target = (if rt \<in> {RT_ProcessName, RT_ProcessNameRegex, RT_ProcessNameWildcard}
                    then mProcess m else mProcessPath m) in
      (if rt \<in> {RT_ProcessNameRegex, RT_ProcessPathRegex} then (regexMatch e pattern target, adapter)
       else if rt \<in> {RT_ProcessNameWildcard, RT_ProcessPathWildcard}
       then (Match (to_lower pattern) (to_lower target) = Some True, adapter)
       else (to_lower target = to_lower pattern, adapter), st))"

definition Uid_Match ::
  "32 word Range list \<Rightarrow> string \<Rightarrow> 's RuleMatchHelper \<Rightarrow> 's mstate \<Rightarrow> (bool \<times> string) \<times> 's mstate" where
  "Uid_Match uids adapter h st0 =
     (let st = call_opt (FindProcess h) st0; m = fst st in
      (if mUid m \<noteq> 0 \<and> Check uids (mUid m) then (True, adapter) else (False, []), st))"

section \<open>Rule sets, logic rules and sub-rules\<close>

definition swap_state :: "'s mstate \<Rightarrow> 's mstate" where
  "swap_state st = (SwapSrcDst (fst st), snd st)"

definition pass_rule :: "'s RuleMatchHelper \<Rightarrow> Metadata \<Rightarrow> string \<Rightarrow> bool" where
  "pass_rule h m a =
     (a = ''PASS-RULE'' \<or> (case CheckPassRule h of None \<Rightarrow> False | Some f \<Rightarrow> f m a))"

text \<open>
  \<open>Match\<close> of every rule.  \<open>any_match\<close> is the loop of an OR rule and of a classical rule set,
  \<open>all_match\<close> that of an AND rule, \<open>matchSubRules\<close> the loop over a named list of rules and
  \<open>strategy_Match\<close> the \<open>Match\<close> of the three provider strategies.
\<close>

function (sequential)
  rule_Match :: "nat \<Rightarrow> env \<Rightarrow> rule \<Rightarrow> 's RuleMatchHelper \<Rightarrow> 's mstate \<Rightarrow> ('s, bool \<times> string) mresult" and
  any_match :: "nat \<Rightarrow> env \<Rightarrow> rule list \<Rightarrow> 's RuleMatchHelper \<Rightarrow> 's mstate \<Rightarrow> ('s, bool) mresult" and
  all_match :: "nat \<Rightarrow> env \<Rightarrow> rule list \<Rightarrow> 's RuleMatchHelper \<Rightarrow> 's mstate \<Rightarrow> ('s, bool) mresult" and
  matchSubRules :: "nat \<Rightarrow> env \<Rightarrow> rule list \<Rightarrow> 's RuleMatchHelper \<Rightarrow> 's mstate \<Rightarrow> ('s, bool \<times> string) mresult" and
  strategy_Match :: "nat \<Rightarrow> env \<Rightarrow> ruleStrategy \<Rightarrow> 's RuleMatchHelper \<Rightarrow> 's mstate \<Rightarrow> ('s, bool) mresult"
where
  "rule_Match fuel e (Domain d a) h st = Inr (Domain_Match d a (fst st), st)"
| "rule_Match fuel e (DomainSuffix s a) h st = Inr (DomainSuffix_Match s a (fst st), st)"
| "rule_Match fuel e (DomainKeyword k a) h st = Inr (DomainKeyword_Match k a (fst st), st)"
| "rule_Match fuel e (DomainRegex r a) h st = Inr (DomainRegex_Match e r a (fst st), st)"
| "rule_Match fuel e (DomainWildcard p a) h st = Inr (DomainWildcard_Match p a (fst st), st)"
| "rule_Match fuel e (GEOSITE c a) h st = Inr (GEOSITE_Match e c a (fst st), st)"
| "rule_Match fuel e (GEOIP c a nr src) h st = Inr (GEOIP_Match e c a nr src h st)"
| "rule_Match fuel e (ASN n a nr src) h st = ASN_Match e n a nr src h st"
| "rule_Match fuel e (IPCIDR p a src nr) h st = Inr (IPCIDR_Match p a src nr h st)"
| "rule_Match fuel e (IPSuffix bs n _ a src nr) h st = IPSuffix_Match bs n a src nr h st"
| "rule_Match fuel e (Port a _ rt rs) h st = Inr (Port_Match rt rs a (fst st), st)"
| "rule_Match fuel e (DSCP rs _ a) h st = Inr (DSCP_Match rs a (fst st), st)"
| "rule_Match fuel e (Uid us _ a) h st = Inr (Uid_Match us a h st)"
| "rule_Match fuel e (InName ns a _) h st = Inr (InName_Match ns a (fst st), st)"
| "rule_Match fuel e (InUser us a _) h st = Inr (InUser_Match us a (fst st), st)"
| "rule_Match fuel e (InType ts a _) h st = Inr (InType_Match ts a (fst st), st)"
| "rule_Match fuel e (Process p a rt) h st = Inr (Process_Match e p a rt h st)"
| "rule_Match fuel e (NetworkType n a) h st = Inr (NetworkType_Match n a (fst st), st)"
| "rule_Match fuel e (FinalMatch a) h st = Inr ((True, a), st)"
| "rule_Match fuel e (RuleSet n a isSrc nr) h st =
     (case RuleProviders e n of
        None \<Rightarrow> Inr ((False, []), st)
      | Some None \<Rightarrow> Inr ((False, a), st)
      | Some (Some strategy) \<Rightarrow>
          if isSrc then
            result_bind (strategy_Match fuel e strategy (h\<lparr>ResolveIP := None\<rparr>) (swap_state st))
              (\<lambda>(b, st1). Inr ((b, a), swap_state st1))
          else
            result_bind (strategy_Match fuel e strategy (if nr then h\<lparr>ResolveIP := None\<rparr> else h) st)
              (\<lambda>(b, st1). Inr ((b, a), st1)))"
| "rule_Match fuel e (Logic pl a rt rs) h st =
     (if rt = RT_SubRules then
        (case rs of
           [] \<Rightarrow> Inl IndexOutOfRange
         | r # _ \<Rightarrow>
             result_bind (rule_Match fuel e r h st) (\<lambda>((m, _), st1).
               if m then
                 (case fuel of
                    0 \<Rightarrow> Inl OutOfFuel
                  | Suc f \<Rightarrow> matchSubRules f e (case subRules e a of None \<Rightarrow> [] | Some l \<Rightarrow> l) h st1)
               else Inr ((False, []), st1)))
      else if rt = RT_NOT then
        (case rs of
           [] \<Rightarrow> Inl IndexOutOfRange
         | r # _ \<Rightarrow>
             result_bind (rule_Match fuel e r h st) (\<lambda>((m, _), st1).
               if \<not> m then Inr ((True, a), st1) else Inr ((False, []), st1)))
      else if rt = RT_OR then
        result_bind (any_match fuel e rs h st) (\<lambda>(b, st1).
          if b then Inr ((True, a), st1) else Inr ((False, []), st1))
      else if rt = RT_AND then
        result_bind (all_match fuel e rs h st) (\<lambda>(b, st1).
          if b then Inr ((True, a), st1) else Inr ((False, a), st1))
      else Inr ((False, []), st))"
| "any_match fuel e [] h st = Inr (False, st)"
| "any_match fuel e (r # rs) h st =
     result_bind (rule_Match fuel e r h st) (\<lambda>((m, _), st1).
       if m then Inr (True, st1) else any_match fuel e rs h st1)"
| "all_match fuel e [] h st = Inr (True, st)"
| "all_match fuel e (r # rs) h st =
     result_bind (rule_Match fuel e r h st) (\<lambda>((m, _), st1).
       if \<not> m then Inr (False, st1) else all_match fuel e rs h st1)"
| "matchSubRules fuel e [] h st = Inr ((False, []), st)"
| "matchSubRules fuel e (r # rs) h st =
     result_bind (rule_Match fuel e r h st) (\<lambda>((m, a), st1).
       if m then
         result_bind
           (if rule_RuleType r = RT_SubRules then
              (case fuel of
                 0 \<Rightarrow> Inl OutOfFuel
               | Suc f \<Rightarrow>
                   matchSubRules f e (case subRules e (Adapter r) of None \<Rightarrow> [] | Some l \<Rightarrow> l) h st1)
            else Inr ((m, a), st1))
           (\<lambda>((m2, a2), st2).
              if m2 \<and> pass_rule h (fst st2) a2 then matchSubRules fuel e rs h st2
              else Inr ((m2, a2), st2))
       else matchSubRules fuel e rs h st1)"
| "strategy_Match fuel e (DomainStrategy ds) h st =
     Inr (case ds of None \<Rightarrow> False | Some has \<Rightarrow> has (RuleHost (fst st)), st)"
| "strategy_Match fuel e (IPCidrStrategy cs) h st =
     (let st1 = call_opt (ResolveIP h) st in
      Inr (case cs of None \<Rightarrow> False | Some isContain \<Rightarrow> isContain (mDstIP (fst st1)), st1))"
| "strategy_Match fuel e (ClassicalStrategy rs) h st =
     (case fuel of 0 \<Rightarrow> Inl OutOfFuel | Suc f \<Rightarrow> any_match f e rs h st)"
  by pat_completeness auto
termination
  by (relation "inv_image (less_than <*lex*> less_than) (\<lambda>x. case x of
        Inl (Inl (n, e, r, _)) \<Rightarrow> (n, Suc (2 * size r))
      | Inl (Inr (n, e, rs, _)) \<Rightarrow> (n, 2 * size_list size rs)
      | Inr (Inl (n, e, rs, _)) \<Rightarrow> (n, 2 * size_list size rs)
      | Inr (Inr (Inl (n, e, rs, _))) \<Rightarrow> (n, 2 * size_list size rs)
      | Inr (Inr (Inr (n, e, s, _))) \<Rightarrow> (n, 0))") auto

declare rule_Match.simps [simp del] any_match.simps [simp del] all_match.simps [simp del]
  matchSubRules.simps [simp del] strategy_Match.simps [simp del]

lemmas match_simps [step_simps] =
  rule_Match.simps any_match.simps all_match.simps matchSubRules.simps strategy_Match.simps

text \<open>\<open>MatchDomain\<close> and \<open>MatchIp\<close> of a rule set: a fresh metadata and an empty helper.\<close>

definition emptyHelper :: "unit RuleMatchHelper" where
  "emptyHelper = \<lparr>ResolveIP = None, FindProcess = None, CheckPassRule = None\<rparr>"

definition RuleSet_MatchDomain :: "nat \<Rightarrow> env \<Rightarrow> rule \<Rightarrow> string \<Rightarrow> (match_error, bool) result" where
  "RuleSet_MatchDomain fuel e rs domain =
     result_bind (rule_Match fuel e rs emptyHelper (zeroMetadata\<lparr>mHost := domain\<rparr>, ()))
       (\<lambda>((ok, _), _). Inr ok)"

definition RuleSet_MatchIp :: "nat \<Rightarrow> env \<Rightarrow> rule \<Rightarrow> addr \<Rightarrow> (match_error, bool) result" where
  "RuleSet_MatchIp fuel e rs ip =
     result_bind (rule_Match fuel e rs emptyHelper (zeroMetadata\<lparr>mDstIP := ip\<rparr>, ()))
       (\<lambda>((ok, _), _). Inr ok)"

text \<open>An environment without databases, providers and sub-rules, for concrete runs.\<close>

definition emptyEnv :: env where
  "emptyEnv =
     \<lparr>regexMatch = (\<lambda>_ _. False), GeodataMode = False, LoadGeoIPMatcher = (\<lambda>_. None),
      LoadGeoSiteMatcher = (\<lambda>_. None),
      IPInstance = \<lparr>ip_databaseType = typeSing, lookup_iso = (\<lambda>_. []), lookup_sing = (\<lambda>_. []),
        lookup_meta = (\<lambda>_. MetaOther)\<rparr>,
      ASNInstance = \<lparr>asn_databaseType = [], lookup_geolite = (\<lambda>_. (0, [])), lookup_ipinfo = (\<lambda>_. ([], []))\<rparr>,
      IsFakeBroadcastIP = (\<lambda>_. False), subRules = (\<lambda>_. None), RuleProviders = (\<lambda>_. None)\<rparr>"

end
