(* ===== verification/Sub_Rules.thy ===== *)
theory Sub_Rules
  imports Rules
begin

text \<open>
  \<open>verifySubRule\<close> of \<open>config/config.go\<close>: the depth-first search that refuses a configuration whose
  sub-rule lists refer to each other in a cycle, and what it is for: matching with an accepted
  configuration always comes to an end.  The configuration's map is an association list with
  distinct names, iterated in list order.
\<close>

section \<open>The check\<close>

datatype sub_rule_error =
    SubRuleNotFound nat string string
  | CircularReferences "string list"

type_synonym sub_rules = "(string \<times> rule list) list"

definition rules_of :: "sub_rules \<Rightarrow> string \<Rightarrow> rule list" where
  "rules_of cfg n = (case map_of cfg n of None \<Rightarrow> [] | Some rs \<Rightarrow> rs)"

lemma rules_of_Nil: "n \<notin> fst ` set cfg \<Longrightarrow> rules_of cfg n = []"
  by (simp add: rules_of_def map_of_eq_None_iff [THEN iffD2])

text \<open>The names not yet on the path, and whether the next name is already on it.\<close>

definition open_names :: "sub_rules \<Rightarrow> string list \<Rightarrow> nat" where
  "open_names cfg arr = card (fst ` set cfg - set arr)"

lemma open_names_less:
  assumes "n \<in> fst ` set cfg" "n \<notin> set arr"
  shows "open_names cfg (arr @ [n]) < open_names cfg arr"
  unfolding open_names_def using assms by (intro psubset_card_mono) auto

lemma open_names_same: "n \<in> set arr \<Longrightarrow> open_names cfg (arr @ [n]) = open_names cfg arr"
  unfolding open_names_def by (simp add: insert_absorb)

lemma path_step:
  "2 * open_names cfg (arr @ [n]) < 2 * open_names cfg arr + (if n \<in> set arr then 1 else 0) \<or>
   (open_names cfg (arr @ [n]) = open_names cfg arr \<and> rules_of cfg n = [])"
proof (cases "n \<in> set arr")
  case False
  show ?thesis
  proof (cases "n \<in> fst ` set cfg")
    case True
    with False show ?thesis using open_names_less by simp
  next
    case False
    then have "fst ` set cfg - set (arr @ [n]) = fst ` set cfg - set arr" by auto
    with False show ?thesis by (simp add: open_names_def rules_of_Nil)
  qed
qed (simp add: open_names_same)

definition verify_measure :: "string \<times> sub_rules \<times> string list + nat \<times> rule list \<times> string \<times> sub_rules \<times> string list \<Rightarrow> nat \<times> nat" where
  "verify_measure x = (case x of
     Inl (n, cfg, arr) \<Rightarrow> (2 * open_names cfg arr + (if n \<in> set arr then 1 else 0), 3)
   | Inr (i, rs, n, cfg, arr) \<Rightarrow> (2 * open_names cfg arr, 2 + 2 * length rs))"

text \<open>
  \<open>verifyLoop\<close> is the body of \<open>verifySubRuleCircularReferences\<close> after \<open>arr = append(arr, n)\<close>: the
  loop over the list's rules with their index.
\<close>

function (sequential)
  verifySubRuleCircularReferences :: "string \<Rightarrow> sub_rules \<Rightarrow> string list \<Rightarrow> sub_rule_error option" and
  verifyLoop :: "nat \<Rightarrow> rule list \<Rightarrow> string \<Rightarrow> sub_rules \<Rightarrow> string list \<Rightarrow> sub_rule_error option"
where
  "verifySubRuleCircularReferences n cfg arr =
     verifyLoop 0 (rules_of cfg n) n cfg (arr @ [n])"
| "verifyLoop i [] n cfg arr = None"
| "verifyLoop i (r # rs) n cfg arr =
     (if rule_RuleType r = RT_SubRules then
        (if Adapter r \<notin> fst ` set cfg then Some (SubRuleNotFound i n (Adapter r))
         else if Adapter r \<in> set arr then Some (CircularReferences (arr @ [Adapter r]))
         else
           (case verifySubRuleCircularReferences (Adapter r) cfg arr of
              Some err \<Rightarrow> Some err
            | None \<Rightarrow> verifyLoop (Suc i) rs n cfg arr))
      else verifyLoop (Suc i) rs n cfg arr)"
  by pat_completeness auto

termination
proof (relation "inv_image (less_than <*lex*> less_than) verify_measure")
  show "(Inr (0, rules_of cfg n, n, cfg, arr @ [n]), Inl (n, cfg, arr))
    \<in> inv_image (less_than <*lex*> less_than) verify_measure" for n cfg arr
    using path_step [of cfg arr n] by (auto simp: verify_measure_def)
qed (auto simp: verify_measure_def)

declare verifySubRuleCircularReferences.simps [simp del]

fun verifyNames :: "string list \<Rightarrow> sub_rules \<Rightarrow> sub_rule_error option" where
  "verifyNames [] cfg = None"
| "verifyNames (n # ns) cfg =
     (case verifySubRuleCircularReferences n cfg [] of Some err \<Rightarrow> Some err | None \<Rightarrow> verifyNames ns cfg)"

definition verifySubRule :: "sub_rules \<Rightarrow> sub_rule_error option" where
  "verifySubRule cfg = verifyNames (map fst cfg) cfg"

section \<open>Shapes of rules\<close>

text \<open>
  \<open>flat_rule\<close>: no rule set and no sub-rule anywhere inside; \<open>plain_rule\<close>: no sub-rule inside;
  \<open>config_rule\<close>: a sub-rule only at the top, as the parser of logic rules enforces.
\<close>

fun flat_rule :: "rule \<Rightarrow> bool" where
  "flat_rule (RuleSet n a src nr) = False"
| "flat_rule (Logic pl a rt rs) = (rt \<noteq> RT_SubRules \<and> list_all flat_rule rs)"
| "flat_rule r = True"

fun plain_rule :: "rule \<Rightarrow> bool" where
  "plain_rule (Logic pl a rt rs) = (rt \<noteq> RT_SubRules \<and> list_all plain_rule rs)"
| "plain_rule r = True"

fun config_rule :: "rule \<Rightarrow> bool" where
  "config_rule (Logic pl a rt rs) = list_all plain_rule rs"
| "config_rule r = True"

text \<open>Rule types a Port or Process rule carries are never the sub-rule type.\<close>

fun typed_rule :: "rule \<Rightarrow> bool" where
  "typed_rule (Port a p rt rs) = (rt \<noteq> RT_SubRules)"
| "typed_rule (Process p a rt) = (rt \<noteq> RT_SubRules)"
| "typed_rule r = True"

definition flat_providers :: "env \<Rightarrow> bool" where
  "flat_providers e =
     (\<forall>n rs. RuleProviders e n = Some (Some (ClassicalStrategy rs)) \<longrightarrow> list_all flat_rule rs)"

section \<open>Matching ends\<close>

definition ends :: "(match_error, 'a) result \<Rightarrow> bool" where
  "ends r = (r \<noteq> Inl OutOfFuel)"

lemma ends_Inr [simp]: "ends (Inr x)"
  by (simp add: ends_def)

lemma ends_Index [simp]: "ends (Inl IndexOutOfRange)"
  by (simp add: ends_def)

lemma ends_bind: "ends r \<Longrightarrow> (\<And>x. r = Inr x \<Longrightarrow> ends (f x)) \<Longrightarrow> ends (result_bind r f)"
  by (cases r) (auto simp: ends_def)

lemma suffix_bytes_ends: "ends (suffix_bytes xs ys i)"
  by (induction i) (auto simp: Let_def)

lemma leaf_ends:
  "ends (ASN_Match e n a nr src h st)"
  "ends (IPSuffix_Match bs k a src nr h st)"
proof -
  have "ends (LookupASN r ip)" for r ip by (auto simp: LookupASN_def split: prod.splits)
  then show "ends (ASN_Match e n a nr src h st)"
    by (auto simp: ASN_Match_def Let_def intro!: ends_bind)
  have "ends (suffix_match bs k ys)" for ys
    by (auto simp: suffix_match_def Let_def suffix_bytes_ends intro!: ends_bind)
  then show "ends (IPSuffix_Match bs k a src nr h st)"
    by (auto simp: IPSuffix_Match_def Let_def intro!: ends_bind)
qed

lemma any_ends:
  assumes "\<And>r st. r \<in> set rs \<Longrightarrow> ends (rule_Match fuel e r h st)"
  shows "ends (any_match fuel e rs h st)"
  using assms by (induction rs arbitrary: st) (auto simp: match_simps intro!: ends_bind)

lemma all_ends:
  assumes "\<And>r st. r \<in> set rs \<Longrightarrow> ends (rule_Match fuel e r h st)"
  shows "ends (all_match fuel e rs h st)"
  using assms by (induction rs arbitrary: st) (auto simp: match_simps intro!: ends_bind)

lemma logic_ends:
  assumes "rt \<noteq> RT_SubRules" "\<And>r st. r \<in> set rs \<Longrightarrow> ends (rule_Match fuel e r h st)"
  shows "ends (rule_Match fuel e (Logic pl a rt rs) h st)"
  using assms(1)
  by (auto simp: rule_Match.simps intro!: ends_bind any_ends all_ends assms(2) split: list.splits)

lemma flat_ends: "flat_rule r \<Longrightarrow> ends (rule_Match fuel e r h st)"
proof (induction r arbitrary: st)
  case (Logic pl a rt rs)
  then show ?case by (intro logic_ends) (auto simp: list_all_iff)
qed (auto simp: rule_Match.simps leaf_ends)

lemma set_ends:
  assumes "flat_providers e" "fuel > 0"
  shows "ends (rule_Match fuel e (RuleSet n a src nr) h st)"
proof (cases "\<exists>sg. RuleProviders e n = Some (Some sg)")
  case True
  then obtain sg where p: "RuleProviders e n = Some (Some sg)" ..
  obtain f where f: "fuel = Suc f" using assms(2) by (cases fuel) auto
  have sg: "ends (strategy_Match fuel e sg h' st')" for h' st'
  proof (cases sg)
    case (ClassicalStrategy rs)
    with assms(1) p have "list_all flat_rule rs" by (auto simp: flat_providers_def)
    then have "ends (any_match f e rs h' st')" by (intro any_ends flat_ends) (auto simp: list_all_iff)
    with ClassicalStrategy f show ?thesis by (simp add: match_simps)
  qed (auto simp: match_simps Let_def)
  show ?thesis using p by (auto simp: rule_Match.simps intro!: ends_bind sg)
next
  case False
  then show ?thesis by (auto simp: rule_Match.simps split: option.splits)
qed

lemma plain_ends: "flat_providers e \<Longrightarrow> fuel > 0 \<Longrightarrow> plain_rule r \<Longrightarrow> ends (rule_Match fuel e r h st)"
proof (induction r arbitrary: st)
  case (Logic pl a rt rs)
  then show ?case by (intro logic_ends) (auto simp: list_all_iff)
next
  case (RuleSet n a src nr)
  then show ?case by (intro set_ends)
qed (auto simp: rule_Match.simps leaf_ends)

text \<open>A rule at the top of a list: its condition ends, and the list it names ends with one unit less.\<close>

lemma config_ends:
  assumes "flat_providers e" "fuel > 0" "config_rule r" "typed_rule r"
    and "\<And>f st. fuel = Suc f \<Longrightarrow> rule_RuleType r = RT_SubRules \<Longrightarrow>
      ends (matchSubRules f e (case subRules e (Adapter r) of None \<Rightarrow> [] | Some l \<Rightarrow> l) h st)"
  shows "ends (rule_Match fuel e r h st)"
proof (cases "plain_rule r")
  case True
  with assms(1,2) show ?thesis by (rule plain_ends)
next
  case False
  then obtain pl a rt rs where r: "r = Logic pl a rt rs" by (cases r) auto
  have ps: "ends (rule_Match fuel e q h st)" if "q \<in> set rs" for q st
    by (rule plain_ends [OF assms(1,2)]) (use that r assms(3) in \<open>auto simp: list_all_iff\<close>)
  show ?thesis
  proof (cases "rt = RT_SubRules")
    case True
    obtain f where "fuel = Suc f" using assms(2) by (cases fuel) auto
    with True r show ?thesis
      using assms(5) [OF \<open>fuel = Suc f\<close>]
      by (auto simp: rule_Match.simps intro!: ends_bind ps [unfolded \<open>fuel = Suc f\<close>] split: list.splits)
  next
    case False
    with r ps show ?thesis by (simp add: logic_ends)
  qed
qed

lemma list_ends:
  assumes "flat_providers e" "fuel > 0" "\<And>r. r \<in> set rs \<Longrightarrow> config_rule r \<and> typed_rule r"
    and "\<And>r f st. r \<in> set rs \<Longrightarrow> fuel = Suc f \<Longrightarrow> rule_RuleType r = RT_SubRules \<Longrightarrow>
      ends (matchSubRules f e (case subRules e (Adapter r) of None \<Rightarrow> [] | Some l \<Rightarrow> l) h st)"
  shows "ends (matchSubRules fuel e rs h st)"
  using assms(3,4)
proof (induction rs arbitrary: st)
  case (Cons r rs)
  have "ends (rule_Match fuel e r h st)"
    by (rule config_ends [OF assms(1,2)]) (use Cons.prems in auto)
  moreover obtain f where "fuel = Suc f" using assms(2) by (cases fuel) auto
  ultimately show ?case using Cons by (auto simp: match_simps intro!: ends_bind)
qed (simp add: match_simps)

text \<open>The induction along the search: an accepted name has a list whose matching ends.\<close>

lemma verifyLoop_None:
  "verifyLoop i rs n cfg arr = None \<Longrightarrow> r \<in> set rs \<Longrightarrow> rule_RuleType r = RT_SubRules \<Longrightarrow>
   Adapter r \<in> fst ` set cfg \<and> Adapter r \<notin> set arr \<and>
   verifySubRuleCircularReferences (Adapter r) cfg arr = None"
  by (induction rs arbitrary: i) (auto split: if_splits option.splits)

lemma verifyNames_None:
  "verifyNames ns cfg = None \<Longrightarrow> n \<in> set ns \<Longrightarrow> verifySubRuleCircularReferences n cfg [] = None"
  by (induction ns) (auto split: option.splits)

definition config_lists :: "sub_rules \<Rightarrow> bool" where
  "config_lists cfg = (\<forall>n r. r \<in> set (rules_of cfg n) \<longrightarrow> config_rule r \<and> typed_rule r)"

lemma sub_list_ends:
  assumes e: "flat_providers e" "subRules e = map_of cfg" "config_lists cfg"
  shows "verifySubRuleCircularReferences n cfg arr = None \<Longrightarrow> n \<in> fst ` set cfg \<Longrightarrow> n \<notin> set arr \<Longrightarrow>
    open_names cfg arr \<le> fuel \<Longrightarrow> ends (matchSubRules fuel e (rules_of cfg n) h st)"
proof (induction fuel arbitrary: n arr st)
  case 0
  then have "fst ` set cfg - set arr = {}" by (simp add: open_names_def)
  with 0 show ?case by blast
next
  case (Suc fuel)
  have v: "verifyLoop 0 (rules_of cfg n) n cfg (arr @ [n]) = None"
    using Suc.prems(1) by (simp add: verifySubRuleCircularReferences.simps)
  have less: "open_names cfg (arr @ [n]) \<le> fuel"
    using open_names_less [OF Suc.prems(2,3)] Suc.prems(4) by simp
  show ?case
  proof (rule list_ends [OF e(1)])
    fix r f st
    assume r: "r \<in> set (rules_of cfg n)" "Suc fuel = Suc f" "rule_RuleType r = RT_SubRules"
    from verifyLoop_None [OF v r(1,3)]
    have "ends (matchSubRules fuel e (rules_of cfg (Adapter r)) h st)"
      by (intro Suc.IH [where arr = "arr @ [n]"]) (auto simp: less)
    with r(2) show "ends (matchSubRules f e (case subRules e (Adapter r) of None \<Rightarrow> [] | Some l \<Rightarrow> l) h st)"
      by (simp add: e(2) rules_of_def)
  qed (use e(3) in \<open>auto simp: config_lists_def\<close>)
qed

lemma rule_ends:
  assumes e: "flat_providers e" "subRules e = map_of cfg" "config_lists cfg"
    and "verifySubRule cfg = None" "config_rule r" "typed_rule r" "length cfg < fuel"
  shows "ends (rule_Match fuel e r h st)"
proof (rule config_ends [OF e(1)])
  fix f st
  assume f: "fuel = Suc f" and "rule_RuleType r = RT_SubRules"
  show "ends (matchSubRules f e (case subRules e (Adapter r) of None \<Rightarrow> [] | Some l \<Rightarrow> l) h st)"
  proof (cases "Adapter r \<in> fst ` set cfg")
    case True
    have "open_names cfg [] \<le> length cfg"
      unfolding open_names_def by (simp add: card_length [of "map fst cfg", simplified])
    then have "ends (matchSubRules f e (rules_of cfg (Adapter r)) h st)"
      using True assms(4,7) f verifyNames_None [of "map fst cfg" cfg "Adapter r"]
      by (intro sub_list_ends [OF e, where arr = "[]"]) (auto simp: verifySubRule_def)
    then show ?thesis by (simp add: e(2) rules_of_def)
  next
    case False
    then have "map_of cfg (Adapter r) = None" by (simp add: map_of_eq_None_iff)
    then show ?thesis by (simp add: e(2) match_simps)
  qed
qed (use assms in auto)

section \<open>What the check accepts\<close>

definition sub_refs :: "sub_rules \<Rightarrow> (string \<times> string) set" where
  "sub_refs cfg =
     {(n, Adapter r) | n r. r \<in> set (rules_of cfg n) \<and> rule_RuleType r = RT_SubRules}"

lemma accepted_acc:
  "verifySubRuleCircularReferences n cfg arr = None \<Longrightarrow> n \<in> fst ` set cfg \<Longrightarrow> n \<notin> set arr \<Longrightarrow>
   n \<in> Wellfounded.acc ((sub_refs cfg)\<inverse>)"
proof (induction "open_names cfg arr" arbitrary: n arr rule: less_induct)
  case less
  have v: "verifyLoop 0 (rules_of cfg n) n cfg (arr @ [n]) = None"
    using less.prems(1) by (simp add: verifySubRuleCircularReferences.simps)
  show ?case
  proof (rule accI)
    fix m assume "(m, n) \<in> (sub_refs cfg)\<inverse>"
    then obtain r where r: "r \<in> set (rules_of cfg n)" "rule_RuleType r = RT_SubRules" "m = Adapter r"
      by (auto simp: sub_refs_def)
    from verifyLoop_None [OF v r(1,2)] show "m \<in> Wellfounded.acc ((sub_refs cfg)\<inverse>)"
      using r(3) less.hyps [OF open_names_less [OF less.prems(2,3)]] by simp
  qed
qed

lemma ref_from_name: "(n, m) \<in> sub_refs cfg \<Longrightarrow> n \<in> fst ` set cfg"
  using rules_of_Nil by (fastforce simp: sub_refs_def)

lemma accepted_acyclic:
  assumes "verifySubRule cfg = None"
  shows "acyclic (sub_refs cfg) \<and> snd ` sub_refs cfg \<subseteq> fst ` set cfg"
proof
  have v: "verifySubRuleCircularReferences n cfg [] = None" if "n \<in> fst ` set cfg" for n
    using assms that verifyNames_None [of "map fst cfg" cfg n] by (simp add: verifySubRule_def)
  have "n \<in> Wellfounded.acc ((sub_refs cfg)\<inverse>)" for n
  proof (cases "n \<in> fst ` set cfg")
    case True
    then show ?thesis using accepted_acc [OF v] by simp
  next
    case False
    show ?thesis
    proof (rule accI)
      fix m assume "(m, n) \<in> (sub_refs cfg)\<inverse>"
      then have "n \<in> fst ` set cfg" using ref_from_name [of n m cfg] by simp
      with False show "m \<in> Wellfounded.acc ((sub_refs cfg)\<inverse>)" by contradiction
    qed
  qed
  then have "wf ((sub_refs cfg)\<inverse>)" by (rule acc_wfI [rule_format])
  then have "acyclic ((sub_refs cfg)\<inverse>)" by (rule wf_acyclic)
  then show "acyclic (sub_refs cfg)" by (simp only: acyclic_converse)
  show "snd ` sub_refs cfg \<subseteq> fst ` set cfg"
  proof (clarify, simp)
    fix n m assume nm: "(n, m) \<in> sub_refs cfg"
    then obtain r where r: "r \<in> set (rules_of cfg n)" "rule_RuleType r = RT_SubRules" "m = Adapter r"
      by (auto simp: sub_refs_def)
    have "verifyLoop 0 (rules_of cfg n) n cfg ([] @ [n]) = None"
      using v [OF ref_from_name [OF nm]] by (simp add: verifySubRuleCircularReferences.simps)
    from verifyLoop_None [OF this r(1,2)] r(3) show "m \<in> fst ` set cfg" by simp
  qed
qed

text \<open>The path \<open>arr\<close> leads to the name under test along references.\<close>

lemma acyclic_accepted:
  assumes "acyclic (sub_refs cfg)" "snd ` sub_refs cfg \<subseteq> fst ` set cfg"
  shows "(\<forall>x \<in> set arr. (x, n) \<in> (sub_refs cfg)\<^sup>+) \<Longrightarrow> verifySubRuleCircularReferences n cfg arr = None"
    and "set rs \<subseteq> set (rules_of cfg n) \<Longrightarrow> (\<forall>x \<in> set arr. (x, n) \<in> (sub_refs cfg)\<^sup>*) \<Longrightarrow>
      verifyLoop i rs n cfg arr = None"
  using assms
proof (induction n cfg arr and i rs n cfg arr rule: verifySubRuleCircularReferences_verifyLoop.induct)
  case (1 n cfg arr)
  then show ?case
    by (auto simp: verifySubRuleCircularReferences.simps intro: trancl_into_rtrancl)
next
  case (3 i r rs n cfg arr)
  show ?case
  proof (cases "rule_RuleType r = RT_SubRules")
    case True
    then have ref: "(n, Adapter r) \<in> sub_refs cfg" using 3(4) by (auto simp: sub_refs_def)
    then have "Adapter r \<in> fst ` set cfg" using 3(7) by force
    moreover have plus: "\<forall>x \<in> set arr. (x, Adapter r) \<in> (sub_refs cfg)\<^sup>+"
      using 3(5) ref by (auto intro: rtrancl_into_trancl1)
    moreover have "Adapter r \<notin> set arr" using plus 3(6) by (auto simp: acyclic_def)
    ultimately show ?thesis using 3 True by auto
  next
    case False
    then show ?thesis using 3 by auto
  qed
qed simp

lemma verifyNames_all:
  "verifyNames ns cfg = None \<longleftrightarrow> (\<forall>n \<in> set ns. verifySubRuleCircularReferences n cfg [] = None)"
  by (induction ns) (auto split: option.splits)

section \<open>Properties\<close>

text \<open>
  C15.  \<open>verifySubRule\<close> accepts a configuration exactly when every sub-rule list that a rule names
  exists and the references between the lists form no cycle.
\<close>

theorem verifySubRule_iff_acyclic:
  "verifySubRule cfg = None \<longleftrightarrow> acyclic (sub_refs cfg) \<and> snd ` sub_refs cfg \<subseteq> fst ` set cfg"
proof
  assume "acyclic (sub_refs cfg) \<and> snd ` sub_refs cfg \<subseteq> fst ` set cfg"
  then show "verifySubRule cfg = None"
    by (simp add: verifySubRule_def verifyNames_all acyclic_accepted(1))
qed (rule accepted_acyclic)

end
