(* ===== verification/Domain_Trie.thy ===== *)
theory Domain_Trie
  imports Prelude "HOL-Library.AList"
begin

text \<open>
  \<open>component/trie/node.go\<close> and \<open>component/trie/domain.go\<close>: the trie of domain patterns behind
  the hosts table, the DNS policies, the fake-ip filter and the domain rule providers.

  A node keeps its children either in one slot (\<open>childNode\<close> under \<open>childStr\<close>) or in a map; the
  locale \<open>child_store\<close> is the contract the trie code relies on, and node.go is shown to meet it.
  On top of it the trie is refined to a map from reversed label paths to data, \<open>Search\<close> to a
  priority search in that map, and the map to the pattern relation the documentation of
  \<open>Insert\<close> describes.  Nodes are owned by one parent, so the in-place updates of the source are
  functional updates of a tree; Go's map is an association list, whose order stands for the
  (unspecified) order in which \<open>range\<close> visits it.
\<close>

section \<open>node.go\<close>

text \<open>\<open>Node[T]\<close>; the zero value of \<open>data T\<close> is \<^const>\<open>None\<close>, the nil map is \<^const>\<open>None\<close>.\<close>

datatype 'a node = Node
  (childMap: "(string \<times> 'a node) list option")
  (childNode: "'a node option")
  (childStr: string)
  (inited: bool)
  (data: "'a option")

definition newNode :: "'a node" where
  "newNode = Node None None [] False None"

fun getChild :: "'a node \<Rightarrow> string \<Rightarrow> 'a node option" where
  "getChild (Node None cn cs i d) s =
     (case cn of None \<Rightarrow> None | Some c \<Rightarrow> if cs = s then Some c else None)"
| "getChild (Node (Some m) cn cs i d) s = map_of m s"

definition hasChild :: "'a node \<Rightarrow> string \<Rightarrow> bool" where
  "hasChild n s = (getChild n s \<noteq> None)"

fun addChild :: "string \<Rightarrow> 'a node \<Rightarrow> 'a node \<Rightarrow> 'a node" where
  "addChild s c (Node None None cs i d) = Node None (Some c) s i d"
| "addChild s c (Node None (Some c0) cs i d) =
     Node (Some (AList.update s c [(cs, c0)])) None [] i d"
| "addChild s c (Node (Some m) cn cs i d) = Node (Some (AList.update s c m)) cn cs i d"

text \<open>\<open>getOrNewChild\<close> returns the child and the node with the child in place.\<close>

definition getOrNewChild :: "'a node \<Rightarrow> string \<Rightarrow> 'a node \<times> 'a node" where
  "getOrNewChild n s =
     (case getChild n s of
        Some c \<Rightarrow> (c, n)
      | None \<Rightarrow> (newNode, addChild s newNode n))"

text \<open>
  The pointer returned by \<open>getOrNewChild\<close> is shared with the parent: what is written through it
  is written to the parent's child.
\<close>

fun writeChild :: "string \<Rightarrow> 'a node \<Rightarrow> 'a node \<Rightarrow> 'a node" where
  "writeChild s c (Node None cn cs i d) = Node None (if cs = s then Some c else cn) cs i d"
| "writeChild s c (Node (Some m) cn cs i d) = Node (Some (AList.update s c m)) cn cs i d"

definition isEmpty :: "'a node option \<Rightarrow> bool" where
  "isEmpty n = (case n of None \<Rightarrow> True | Some n \<Rightarrow> \<not> inited n)"

fun setData :: "'a \<Rightarrow> 'a node \<Rightarrow> 'a node" where
  "setData x (Node m cn cs i d) = Node m cn cs True (Some x)"

fun getChildren :: "'a node \<Rightarrow> (string \<times> 'a node) list" where
  "getChildren (Node None cn cs i d) = (case cn of None \<Rightarrow> [] | Some c \<Rightarrow> [(cs, c)])"
| "getChildren (Node (Some m) cn cs i d) = m"

definition Data :: "'a node \<Rightarrow> 'a option" where
  "Data n = data n"

text \<open>\<open>strClone\<close> copies the bytes; the value is the same.\<close>

definition wildcard :: string where "wildcard = ''*''"
definition dotWildcard :: string where "dotWildcard = ''''"
definition complexWildcard :: string where "complexWildcard = ''+''"
definition domainStep :: char where "domainStep = CHR ''.''"

definition strClone :: "string \<Rightarrow> string" where
  "strClone key =
     (if key = wildcard then wildcard else if key = dotWildcard then dotWildcard
      else if key = complexWildcard then complexWildcard
      else if key = [domainStep] then [domainStep] else key)"

lemma size_child_list:
  "(k, c) \<in> set m \<Longrightarrow> size c < size_list (size_prod (\<lambda>_. 0) size) m"
  by (induction m) auto

function optimize :: "'a node \<Rightarrow> 'a node" where
  "optimize (Node None cn cs i d) = Node None (map_option optimize cn) (strClone cs) i d"
| "optimize (Node (Some []) cn cs i d) = Node None (map_option optimize cn) (strClone cs) i d"
| "optimize (Node (Some [(k, c)]) cn cs i d) = optimize (Node None (Some c) k i d)"
| "optimize (Node (Some (x # y # m)) cn cs i d) =
     Node (Some (map (\<lambda>(k, c). (strClone k, optimize c)) (x # y # m)))
       (map_option optimize cn) (strClone cs) i d"
  by pat_completeness auto
termination
proof (relation "measure size", simp_all, goal_cases)
  case (1 x y m cn d z k c)
  then have "(k, c) \<in> set (x # y # m)" by auto
  from size_child_list [OF this] show ?case by simp
qed

section \<open>domain.go\<close>

text \<open>\<open>DomainTrie[T]\<close> is its root node.\<close>

datatype trie_error = ErrInvalidDomain

text \<open>
  A name is a list of bytes.  Lower case and the test for a space at its ends are those of ASCII; the source
  lower-cases and tests the characters of Unicode, which is the same for names in ASCII (the punycode form
  that host names have on the wire) and may differ for other ones.
\<close>

definition ValidAndSplitDomain :: "string \<Rightarrow> string list option" where
  "ValidAndSplitDomain domain =
     (if domain \<noteq> [] \<and> last domain = CHR ''.'' then None
      else if domain \<noteq> [] \<and> (is_space (hd domain) \<or> is_space (last domain)) then None
      else
        let parts = split_on domainStep (to_lower domain) in
        if length parts = 1 then (if hd parts = [] then None else Some parts)
        else if [] \<in> set (tl parts) then None
        else Some parts)"

text \<open>\<open>insert\<close> walks the parts from the last to the first; the argument here is that walk's order.\<close>

fun insert_walk :: "string list \<Rightarrow> 'a \<Rightarrow> 'a node \<Rightarrow> 'a node" where
  "insert_walk [] x n = setData x n"
| "insert_walk (part # ps) x n =
     (let (c, n') = getOrNewChild n part in writeChild part (insert_walk ps x c) n')"

definition insert_parts :: "string list \<Rightarrow> 'a \<Rightarrow> 'a node \<Rightarrow> 'a node" where
  "insert_parts parts x root = insert_walk (rev parts) x root"

definition Insert :: "string \<Rightarrow> 'a \<Rightarrow> 'a node \<Rightarrow> (trie_error, 'a node) result" where
  "Insert domain x t =
     (case ValidAndSplitDomain domain of
        None \<Rightarrow> Inl ErrInvalidDomain
      | Some parts \<Rightarrow>
          if hd parts = complexWildcard
          then Inr (insert_parts (dotWildcard # tl parts) x (insert_parts (tl parts) x t))
          else Inr (insert_parts parts x t))"

text \<open>\<open>search\<close> consumes the parts from the last to the first as well.\<close>

fun search_walk :: "'a node \<Rightarrow> string list \<Rightarrow> 'a node option" where
  "search_walk n [] = Some n"
| "search_walk n (part # ps) =
     (let r1 = (case getChild n part of None \<Rightarrow> None | Some c \<Rightarrow> search_walk c ps) in
      if \<not> isEmpty r1 then r1
      else
        let r2 = (case getChild n wildcard of None \<Rightarrow> None | Some c \<Rightarrow> search_walk c ps) in
        if \<not> isEmpty r2 then r2 else getChild n dotWildcard)"

definition Search :: "'a node \<Rightarrow> string \<Rightarrow> 'a node option" where
  "Search t domain =
     (case ValidAndSplitDomain domain of
        None \<Rightarrow> None
      | Some parts \<Rightarrow>
          if hd parts = [] then None
          else let n = search_walk t (rev parts) in if isEmpty n then None else n)"

definition Optimize :: "'a node \<Rightarrow> 'a node" where
  "Optimize t = optimize t"

definition IsEmpty :: "'a node option \<Rightarrow> bool" where
  "IsEmpty t = (case t of None \<Rightarrow> True | Some r \<Rightarrow> length (getChildren r) = 0)"

abbreviation joinDomain :: "string list \<Rightarrow> string" where
  "joinDomain items \<equiv> join_with domainStep items"

text \<open>
  \<open>recursion\<close> and \<open>Foreach\<close> with a callback that carries a state and answers whether to go on.
\<close>

lemma size_getChildren:
  "size_list (size_prod (\<lambda>_. 0) size) (getChildren n) < size n"
  by (cases n rule: getChildren.cases) (auto split: option.split)

definition foreachName :: "string list \<Rightarrow> string" where
  "foreachName items =
     (let domain = joinDomain items in
      if hd domain = CHR ''.'' then complexWildcard @ domain else domain)"

function recursion :: "string list \<Rightarrow> 'a node \<Rightarrow> (string \<Rightarrow> 'a option \<Rightarrow> 's \<Rightarrow> bool \<times> 's) \<Rightarrow> 's \<Rightarrow> bool \<times> 's"
  and recursion_range :: "string list \<Rightarrow> (string \<times> 'a node) list \<Rightarrow>
    (string \<Rightarrow> 'a option \<Rightarrow> 's \<Rightarrow> bool \<times> 's) \<Rightarrow> 's \<Rightarrow> bool \<times> 's" where
  "recursion items n fn s = recursion_range items (getChildren n) fn s"
| "recursion_range items [] fn s = (True, s)"
| "recursion_range items ((key, c) # rest) fn s =
     (let newItems = key # items;
          (more, s1) = (if \<not> isEmpty (Some c) then fn (foreachName newItems) (data c) s else (True, s))
      in if \<not> more then (False, s1)
         else
           let (more, s2) = recursion newItems c fn s1 in
           if \<not> more then (False, s2) else recursion_range items rest fn s2)"
  by pat_completeness auto
termination
  by (relation "measure (\<lambda>x. case x of
        Inl (items, n, fn, s) \<Rightarrow> size n
      | Inr (items, cs, fn, s) \<Rightarrow> size_list (size_prod (\<lambda>_. 0) size) cs)")
    (auto simp: size_getChildren)

fun Foreach_range :: "(string \<times> 'a node) list \<Rightarrow> (string \<Rightarrow> 'a option \<Rightarrow> 's \<Rightarrow> bool \<times> 's) \<Rightarrow> 's \<Rightarrow> 's" where
  "Foreach_range [] fn s = s"
| "Foreach_range ((key, c) # rest) fn s =
     (let (_, s1) = recursion [key] c fn s in
      if \<not> isEmpty (Some c) then
        let (more, s2) = fn (joinDomain [key]) (data c) s1 in
        if \<not> more then s2 else Foreach_range rest fn s2
      else Foreach_range rest fn s1)"

definition Foreach :: "'a node \<Rightarrow> (string \<Rightarrow> 'a option \<Rightarrow> 's \<Rightarrow> bool \<times> 's) \<Rightarrow> 's \<Rightarrow> 's" where
  "Foreach t fn s = Foreach_range (getChildren t) fn s"

definition New :: "'a node" where
  "New = newNode"

section \<open>The contract of the child store\<close>

text \<open>
  What the walk of \<open>insert\<close> relies on: opening a child gives the stored one or a fresh one, and
  writing through the opened pointer changes that child only.
\<close>

locale child_store =
  fixes child :: "'n \<Rightarrow> 'l \<Rightarrow> 'n option"
    and open_child :: "'n \<Rightarrow> 'l \<Rightarrow> 'n \<times> 'n"
    and write_child :: "'l \<Rightarrow> 'n \<Rightarrow> 'n \<Rightarrow> 'n"
    and payload :: "'n \<Rightarrow> 'a option"
    and set_payload :: "'a \<Rightarrow> 'n \<Rightarrow> 'n"
    and fresh :: 'n
  assumes open_child_get: "fst (open_child n l) = (case child n l of None \<Rightarrow> fresh | Some c \<Rightarrow> c)"
    and child_write: "child (write_child l c (snd (open_child n l))) l' = (if l' = l then Some c else child n l')"
    and payload_write: "payload (write_child l c (snd (open_child n l))) = payload n"
    and child_set_payload: "child (set_payload x n) l = child n l"
    and payload_set_payload: "payload (set_payload x n) = Some x"
    and child_fresh: "child fresh l = None"
    and payload_fresh: "payload fresh = None"

text \<open>A client that reads and writes along label paths stores exactly one path per write.\<close>

locale path_store = child_store child open_child write_child payload set_payload fresh
  for child :: "'n \<Rightarrow> 'l \<Rightarrow> 'n option"
    and open_child :: "'n \<Rightarrow> 'l \<Rightarrow> 'n \<times> 'n"
    and write_child :: "'l \<Rightarrow> 'n \<Rightarrow> 'n \<Rightarrow> 'n"
    and payload :: "'n \<Rightarrow> 'a option"
    and set_payload :: "'a \<Rightarrow> 'n \<Rightarrow> 'n"
    and fresh :: 'n +
  fixes path_get :: "'n \<Rightarrow> 'l list \<Rightarrow> 'a option"
    and path_put :: "'l list \<Rightarrow> 'a \<Rightarrow> 'n \<Rightarrow> 'n"
  assumes get_Nil: "path_get n [] = payload n"
    and get_Cons: "path_get n (l # ls) = (case child n l of None \<Rightarrow> None | Some c \<Rightarrow> path_get c ls)"
    and put_Nil: "path_put [] x n = set_payload x n"
    and put_Cons: "path_put (l # ls) x n =
      write_child l (path_put ls x (fst (open_child n l))) (snd (open_child n l))"
begin

lemma path_get_fresh: "path_get fresh ls = None"
  by (cases ls) (auto simp: get_Nil get_Cons payload_fresh child_fresh)

lemma path_get_put: "path_get (path_put ls x n) ks = (if ks = ls then Some x else path_get n ks)"
proof (induction ls arbitrary: n ks)
  case Nil
  show ?case
    by (cases ks) (auto simp: get_Nil get_Cons put_Nil payload_set_payload child_set_payload)
next
  case (Cons l ls)
  show ?case
  proof (cases ks)
    case Nil
    then show ?thesis by (simp add: get_Nil put_Cons payload_write)
  next
    case (Cons k ks')
    then show ?thesis
      using Cons.IH path_get_fresh
      by (auto simp: get_Cons put_Cons child_write open_child_get split: option.split)
  qed
qed

lemma path_get_put_map: "path_get (path_put ls x n) = (path_get n)(ls \<mapsto> x)"
  by (rule ext) (simp add: path_get_put)

end

section \<open>The contents of a trie\<close>

text \<open>
  \<open>contents n\<close>: the data stored under each path of labels below a node.  \<open>nodeData\<close>, the data of a node that is marked,
  is what \<^const>\<open>Data\<close> returns for every node a search returns (\<open>Search_Data\<close> below).
\<close>

definition nodeData :: "'a node \<Rightarrow> 'a option" where
  "nodeData n = (if inited n then data n else None)"

fun contents :: "'a node \<Rightarrow> string list \<Rightarrow> 'a option" where
  "contents n [] = nodeData n"
| "contents n (l # ls) = (case getChild n l of None \<Rightarrow> None | Some c \<Rightarrow> contents c ls)"

interpretation node_store: path_store getChild getOrNewChild writeChild nodeData setData newNode
  contents insert_walk
proof (unfold_locales, goal_cases)
  case (1 n l)
  show ?case by (simp add: getOrNewChild_def split: option.split)
next
  case (2 l c n l')
  show ?case
    by (cases "(l, c, n)" rule: addChild.cases)
      (auto simp: getOrNewChild_def update_conv' split: option.splits if_splits)
next
  case (3 l c n)
  show ?case
    by (cases "(l, c, n)" rule: addChild.cases)
      (auto simp: getOrNewChild_def nodeData_def split: option.splits if_splits)
next
  case (4 x n l)
  show ?case by (cases n; cases "childMap n") auto
next
  case (5 x n)
  show ?case by (cases n) (simp add: nodeData_def)
qed (auto simp: newNode_def nodeData_def split_beta)

lemma contents_New [simp]: "contents New = Map.empty"
  by (rule ext) (simp add: New_def node_store.path_get_fresh)

lemma contents_insert_parts: "contents (insert_parts ps x t) = (contents t)(rev ps \<mapsto> x)"
  by (simp add: insert_parts_def node_store.path_get_put_map)

section \<open>Search as a priority search in the contents\<close>

text \<open>
  The abstract search: at each label first the patterns that name the label, then those with
  \<open>*\<close>, then the one that ends in the empty label.
\<close>

fun priority_search :: "(string list \<Rightarrow> 'a option) \<Rightarrow> string list \<Rightarrow> 'a option" where
  "priority_search M [] = M []"
| "priority_search M (l # ls) =
     (case priority_search (\<lambda>p. M (l # p)) ls of
        Some x \<Rightarrow> Some x
      | None \<Rightarrow>
          (case priority_search (\<lambda>p. M (wildcard # p)) ls of
             Some x \<Rightarrow> Some x
           | None \<Rightarrow> M [dotWildcard]))"

lemma priority_search_empty: "priority_search (\<lambda>_. None) ls = None"
  by (induction ls) auto

text \<open>The data a search result carries; an empty node carries none.\<close>

definition resultData :: "'a node option \<Rightarrow> 'a option" where
  "resultData r = (case r of None \<Rightarrow> None | Some n \<Rightarrow> nodeData n)"

text \<open>Nodes built by the code have data as soon as they are marked.\<close>

function wf_node :: "'a node \<Rightarrow> bool" where
  "wf_node n =
     ((inited n \<longrightarrow> data n \<noteq> None) \<and> (childMap n \<noteq> None \<longrightarrow> childNode n = None) \<and>
      distinct (map fst (getChildren n)) \<and> list_all (\<lambda>(k, c). wf_node c) (getChildren n))"
  by pat_completeness auto
termination
proof (relation "measure size", simp_all, goal_cases)
  case (1 n kc k c)
  then have "(k, c) \<in> set (getChildren n)" by simp
  from size_child_list [OF this] size_getChildren [of n] show ?case by simp
qed

declare wf_node.simps [simp del]

lemma wf_Node:
  "wf_node (Node m cn cs i d) \<longleftrightarrow>
     (i \<longrightarrow> d \<noteq> None) \<and> (m \<noteq> None \<longrightarrow> cn = None) \<and>
     distinct (map fst (getChildren (Node m cn cs i d))) \<and>
     list_all (\<lambda>(k, c). wf_node c) (getChildren (Node m cn cs i d))"
  by (subst wf_node.simps) simp

lemma map_of_getChildren: "map_of (getChildren n) = getChild n"
  by (rule ext) (cases n rule: getChildren.cases; auto split: option.split)

lemma getChild_in_children: "getChild n s = Some c \<Longrightarrow> (s, c) \<in> set (getChildren n)"
  by (metis map_of_SomeD map_of_getChildren)

lemma wf_getChild: "wf_node n \<Longrightarrow> getChild n s = Some c \<Longrightarrow> wf_node c"
  using getChild_in_children [of n s c] by (fastforce simp: wf_node.simps [of n] list_all_iff)

lemma wf_nodeData: "wf_node n \<Longrightarrow> nodeData n = None \<longleftrightarrow> \<not> inited n"
  by (auto simp: wf_node.simps [of n] nodeData_def)

lemma wf_newNode: "wf_node newNode"
  by (simp add: wf_node.simps newNode_def)

lemma wf_setData: "wf_node n \<Longrightarrow> wf_node (setData x n)"
  by (cases n rule: getChildren.cases) (auto simp: wf_Node)

lemma wf_writeChild:
  assumes "wf_node n" "wf_node c"
  shows "wf_node (writeChild s c (snd (getOrNewChild n s)))"
proof -
  have upd: "list_all (\<lambda>(k, c). wf_node c) (AList.update s c m)"
    if "list_all (\<lambda>(k, c). wf_node c) m" for m
    using that assms(2) by (induction m) auto
  show ?thesis
    using assms wf_newNode upd
    by (cases "(s, c, n)" rule: addChild.cases)
      (auto simp: getOrNewChild_def wf_Node distinct_update split: option.splits if_splits)
qed

lemma wf_insert_walk: "wf_node n \<Longrightarrow> wf_node (insert_walk ps x n)"
proof (induction ps arbitrary: n)
  case (Cons p ps)
  have "wf_node (fst (getOrNewChild n p))"
    using Cons.prems wf_getChild wf_newNode by (auto simp: getOrNewChild_def split: option.split)
  with Cons show ?case by (simp add: split_beta wf_writeChild)
qed (simp add: wf_setData)

lemma wf_insert_parts: "wf_node n \<Longrightarrow> wf_node (insert_parts ps x n)"
  by (simp add: insert_parts_def wf_insert_walk)

lemma resultData_None_iff:
  "(\<And>n. r = Some n \<Longrightarrow> wf_node n) \<Longrightarrow> resultData r = None \<longleftrightarrow> isEmpty r"
  by (auto simp: resultData_def isEmpty_def wf_nodeData split: option.splits)

lemma wf_search_walk: "wf_node n \<Longrightarrow> search_walk n ls = Some m \<Longrightarrow> wf_node m"
proof (induction ls arbitrary: n m)
  case (Cons part ps)
  have "(\<exists>c k. getChild n k = Some c \<and> search_walk c ps = Some m) \<or> getChild n dotWildcard = Some m"
    using Cons.prems(2) by (auto simp: Let_def split: if_splits option.splits)
  with Cons show ?case by (blast dest: wf_getChild)
qed auto

text \<open>One descent of the search, through the child of a given label.\<close>

abbreviation descend :: "'a node \<Rightarrow> string \<Rightarrow> string list \<Rightarrow> 'a node option" where
  "descend n k ps \<equiv> (case getChild n k of None \<Rightarrow> None | Some c \<Rightarrow> search_walk c ps)"

lemma resultData_descend:
  fixes n :: "'a node"
  assumes "\<And>c :: 'a node. wf_node c \<Longrightarrow> resultData (search_walk c ps) = priority_search (contents c) ps"
    and "wf_node n"
  shows "resultData (descend n k ps) = priority_search (\<lambda>p. contents n (k # p)) ps"
proof (cases "getChild n k")
  case None
  then show ?thesis by (simp add: resultData_def priority_search_empty)
next
  case (Some c)
  with assms wf_getChild [of n k c] show ?thesis by simp
qed

lemma isEmpty_descend:
  "wf_node n \<Longrightarrow> isEmpty (descend n k ps) \<longleftrightarrow> resultData (descend n k ps) = None"
  by (rule resultData_None_iff [symmetric]) (auto dest: wf_getChild wf_search_walk split: option.splits)

lemma search_walk_priority:
  "wf_node n \<Longrightarrow> resultData (search_walk n ls) = priority_search (contents n) ls"
proof (induction ls arbitrary: n)
  case (Cons part ps)
  note sub = resultData_descend [OF Cons.IH Cons.prems]
  have dot: "resultData (getChild n dotWildcard) = contents n [dotWildcard]"
    by (simp add: resultData_def split: option.split)
  show ?case
    using sub isEmpty_descend [OF Cons.prems] dot
    by (simp add: Let_def split: option.split)
qed (simp add: resultData_def)

section \<open>Patterns\<close>

text \<open>
  When a stored path (labels from the top-level domain down) matches the labels of a host: label
  by label, \<open>*\<close> for any one label, and a final empty label for one or more remaining labels.
\<close>

fun pat_matches :: "string list \<Rightarrow> string list \<Rightarrow> bool" where
  "pat_matches [] ls = (ls = [])"
| "pat_matches (p # ps) [] = False"
| "pat_matches (p # ps) (l # ls) =
     (p = dotWildcard \<and> ps = [] \<or> (p = l \<or> p = wildcard) \<and> pat_matches ps ls)"

text \<open>How specific a match is, label by label: the label itself, a star, the rest.\<close>

fun specificity :: "string list \<Rightarrow> string list \<Rightarrow> nat list" where
  "specificity (p # ps) (l # ls) =
     (if p = l then 0 # specificity ps ls else if p = wildcard then 1 # specificity ps ls else [2])"
| "specificity ps ls = []"

fun rank_le :: "nat list \<Rightarrow> nat list \<Rightarrow> bool" where
  "rank_le [] bs = True"
| "rank_le (a # as) [] = False"
| "rank_le (a # as) (b # bs) = (a < b \<or> a = b \<and> rank_le as bs)"

lemma priority_search_sound:
  "priority_search M ls = Some x \<Longrightarrow> \<exists>p. M p = Some x \<and> pat_matches p ls"
proof (induction ls arbitrary: M)
  case (Cons l ls)
  from Cons.prems consider
      (lab) "priority_search (\<lambda>p. M (l # p)) ls = Some x"
    | (star) "priority_search (\<lambda>p. M (wildcard # p)) ls = Some x"
    | (dot) "M [dotWildcard] = Some x"
    by (auto split: option.splits)
  then show ?case
    by cases (force dest: Cons.IH intro: exI [of _ "_ # _"])+
qed (auto intro: exI [of _ "[]"])

lemma priority_search_complete:
  "M p = Some y \<Longrightarrow> pat_matches p ls \<Longrightarrow> priority_search M ls \<noteq> None"
proof (induction ls arbitrary: M p)
  case Nil
  then show ?case by (cases p) auto
next
  case (Cons l ls)
  then obtain q ps where p: "p = q # ps" by (cases p) auto
  from Cons.prems consider "q = dotWildcard" "ps = []" | "q = l" "pat_matches ps ls"
    | "q = wildcard" "pat_matches ps ls"
    unfolding p by auto
  then show ?case
  proof cases
    case 1
    with Cons.prems p show ?thesis by (simp split: option.split)
  next
    case 2
    with Cons.prems(1) p Cons.IH [of "\<lambda>r. M (l # r)" ps] show ?thesis by (auto split: option.split)
  next
    case 3
    with Cons.prems(1) p Cons.IH [of "\<lambda>r. M (wildcard # r)" ps] show ?thesis
      by (auto split: option.split)
  qed
qed

lemma priority_search_iff:
  "priority_search M ls \<noteq> None \<longleftrightarrow> (\<exists>p \<in> dom M. pat_matches p ls)"
  by (metis domD domI option.exhaust priority_search_complete priority_search_sound)

text \<open>The match found is at least as specific as every other match.\<close>

lemma priority_search_best:
  assumes "dotWildcard \<notin> set ls" "priority_search M ls = Some x"
  shows "\<exists>p. M p = Some x \<and> pat_matches p ls \<and>
    (\<forall>q y. M q = Some y \<longrightarrow> pat_matches q ls \<longrightarrow> rank_le (specificity p ls) (specificity q ls))"
  using assms
proof (induction ls arbitrary: M)
  case Nil
  then show ?case by (intro exI [of _ "[]"]) auto
next
  case (Cons l ls)
  define L where "L = priority_search (\<lambda>p. M (l # p)) ls"
  define S where "S = priority_search (\<lambda>p. M (wildcard # p)) ls"
  have noL: "\<not> pat_matches ps ls" if "L = None" "M (l # ps) = Some y" for ps y
    using that priority_search_complete [of "\<lambda>p. M (l # p)" ps y ls] by (auto simp: L_def)
  have noS: "\<not> pat_matches ps ls" if "S = None" "M (wildcard # ps) = Some y" for ps y
    using that priority_search_complete [of "\<lambda>p. M (wildcard # p)" ps y ls] by (auto simp: S_def)
  consider (lab) "L = Some x" | (star) "L = None" "S = Some x"
    | (dot) "L = None" "S = None" "M [dotWildcard] = Some x"
    using Cons.prems(2) by (auto simp: L_def S_def split: option.splits)
  then show ?case
  proof cases
    case lab
    then obtain p where p: "M (l # p) = Some x" "pat_matches p ls"
      "\<And>q y. M (l # q) = Some y \<Longrightarrow> pat_matches q ls \<Longrightarrow> rank_le (specificity p ls) (specificity q ls)"
      using Cons.IH [of "\<lambda>p. M (l # p)"] Cons.prems(1) unfolding L_def by auto
    show ?thesis
    proof (intro exI [of _ "l # p"] conjI allI impI)
      fix q y assume q: "M q = Some y" "pat_matches q (l # ls)"
      then show "rank_le (specificity (l # p) (l # ls)) (specificity q (l # ls))"
        using p(3) Cons.prems(1) by (cases q) auto
    qed (use p in auto)
  next
    case star
    then obtain p where p: "M (wildcard # p) = Some x" "pat_matches p ls"
      "\<And>q y. M (wildcard # q) = Some y \<Longrightarrow> pat_matches q ls \<Longrightarrow>
        rank_le (specificity p ls) (specificity q ls)"
      using Cons.IH [of "\<lambda>p. M (wildcard # p)"] Cons.prems(1) unfolding S_def by auto
    have "l \<noteq> wildcard" using noL star p by auto
    show ?thesis
    proof (intro exI [of _ "wildcard # p"] conjI allI impI)
      fix q y assume q: "M q = Some y" "pat_matches q (l # ls)"
      then show "rank_le (specificity (wildcard # p) (l # ls)) (specificity q (l # ls))"
        using p(3) noL [OF star(1)] \<open>l \<noteq> wildcard\<close> Cons.prems(1)
        by (cases q) (auto simp: wildcard_def dotWildcard_def)
    qed (use p in auto)
  next
    case dot
    show ?thesis
    proof (intro exI [of _ "[dotWildcard]"] conjI allI impI)
      fix q y assume q: "M q = Some y" "pat_matches q (l # ls)"
      then show "rank_le (specificity [dotWildcard] (l # ls)) (specificity q (l # ls))"
        using noL [OF dot(1)] noS [OF dot(2)] Cons.prems(1)
        by (cases q) (auto simp: wildcard_def dotWildcard_def)
    qed (use dot in auto)
  qed
qed

lemma pat_matches_snoc_dot:
  "pat_matches (ps @ [dotWildcard]) ls \<longleftrightarrow>
     (\<exists>as bs. ls = as @ bs \<and> bs \<noteq> [] \<and> pat_matches ps as)" if "dotWildcard \<notin> set ps"
  using that
proof (induction ps arbitrary: ls)
  case Nil
  show ?case by (cases ls) auto
next
  case (Cons p ps)
  show ?case
  proof (cases ls)
    case (Cons l ls')
    have "(\<exists>as bs. l # ls' = as @ bs \<and> bs \<noteq> [] \<and> pat_matches (p # ps) as) \<longleftrightarrow>
      (p = l \<or> p = wildcard) \<and> (\<exists>as bs. ls' = as @ bs \<and> bs \<noteq> [] \<and> pat_matches ps as)"
      (is "?L \<longleftrightarrow> ?R")
    proof
      assume ?L
      then obtain as bs where "l # ls' = as @ bs" "bs \<noteq> []" "pat_matches (p # ps) as" by blast
      with Cons.prems show ?R by (cases as) auto
    next
      assume ?R
      then obtain as bs where "ls' = as @ bs" "bs \<noteq> []" "pat_matches ps as" "p = l \<or> p = wildcard"
        by blast
      then show ?L by (intro exI [of _ "l # as"] exI [of _ bs]) auto
    qed
    with Cons Cons.IH Cons.prems show ?thesis by simp
  qed simp
qed

section \<open>Optimize keeps the contents\<close>

lemma strClone_id [simp]: "strClone key = key"
  by (simp add: strClone_def)

lemma map_of_map_snd: "map_of (map (\<lambda>(k, c). (k, f c)) m) s = map_option f (map_of m s)"
  by (induction m) auto

lemma getChild_optimize:
  "wf_node n \<Longrightarrow> getChild (optimize n) s = map_option optimize (getChild n s)"
proof (induction n rule: optimize.induct)
  case (4 x y m cn cs i d)
  show ?case by (simp only: optimize.simps getChild.simps strClone_id map_of_map_snd)
qed (auto simp: wf_Node split: option.split)

lemma nodeData_optimize [simp]: "nodeData (optimize n) = nodeData n"
  by (induction n rule: optimize.induct) (auto simp: nodeData_def)

lemma contents_optimize: "wf_node n \<Longrightarrow> contents (optimize n) ls = contents n ls"
proof (induction ls arbitrary: n)
  case (Cons l ls)
  show ?case
  proof (cases "getChild n l")
    case (Some c)
    with Cons wf_getChild [OF Cons.prems Some] show ?thesis by (simp add: getChild_optimize)
  qed (simp add: getChild_optimize Cons.prems)
qed simp

lemma wf_optimize: "wf_node n \<Longrightarrow> wf_node (optimize n)"
proof (induction n rule: optimize.induct)
  case (4 x y m cn cs i d)
  have keys: "map fst (map (\<lambda>(k, c). (strClone k, optimize c)) zs) = map fst zs" for zs :: "(string \<times> 'a node) list"
    by (induction zs) auto
  have "list_all (\<lambda>(k, c). wf_node c) (map (\<lambda>(k, c). (strClone k, optimize c)) (x # y # m))"
    using 4 by (fastforce simp: wf_Node list_all_iff)
  with 4 keys [of "x # y # m"] show ?case by (simp only: optimize.simps wf_Node getChildren.simps) simp
qed (auto simp: wf_Node split: option.splits)

section \<open>Foreach enumerates the contents\<close>

text \<open>The callback of \<open>NewDomainSet\<close> and the cache writers: keep every entry, never stop.\<close>

definition collect :: "string \<Rightarrow> 'a option \<Rightarrow> (string \<times> 'a option) list \<Rightarrow> bool \<times> (string \<times> 'a option) list" where
  "collect name x acc = (True, acc @ [(name, x)])"

definition entries_below :: "string list \<Rightarrow> 'a node \<Rightarrow> (string \<times> 'a option) set" where
  "entries_below items n =
     {(foreachName (rev p @ items), contents n p) | p. p \<noteq> [] \<and> contents n p \<noteq> None}"

definition entries_range :: "string list \<Rightarrow> (string \<times> 'a node) list \<Rightarrow> (string \<times> 'a option) set" where
  "entries_range items cs =
     (\<Union>(k, c) \<in> set cs. {(foreachName (rev p @ k # items), contents c p) | p. contents c p \<noteq> None})"

lemma contents_below:
  "wf_node n \<Longrightarrow> entries_below items n = entries_range items (getChildren n)"
  unfolding entries_below_def entries_range_def
proof (intro set_eqI iffI)
  fix e assume wf: "wf_node n"
    and "e \<in> {(foreachName (rev p @ items), contents n p) | p. p \<noteq> [] \<and> contents n p \<noteq> None}"
  then obtain k ps where "e = (foreachName (rev ps @ k # items), contents n (k # ps))"
    "contents n (k # ps) \<noteq> None"
    by (auto simp: neq_Nil_conv) force
  moreover from this(2) obtain c where "getChild n k = Some c" by (auto split: option.splits)
  ultimately show "e \<in> (\<Union>(k, c) \<in> set (getChildren n).
      {(foreachName (rev p @ k # items), contents c p) | p. contents c p \<noteq> None})"
    using getChild_in_children [of n k c] by fastforce
next
  fix e assume wf: "wf_node n"
    and "e \<in> (\<Union>(k, c) \<in> set (getChildren n).
      {(foreachName (rev p @ k # items), contents c p) | p. contents c p \<noteq> None})"
  then obtain k c p where kc: "(k, c) \<in> set (getChildren n)"
    and e: "e = (foreachName (rev p @ k # items), contents c p)" "contents c p \<noteq> None" by auto
  from kc wf have "getChild n k = Some c"
    by (metis map_of_getChildren map_of_eq_Some_iff wf_node.simps)
  then have "e = (foreachName (rev (k # p) @ items), contents n (k # p))"
    "contents n (k # p) \<noteq> None" using e by auto
  then show "e \<in> {(foreachName (rev p @ items), contents n p) | p. p \<noteq> [] \<and> contents n p \<noteq> None}"
    by blast
qed

lemma entries_range_Cons:
  assumes "wf_node c"
  shows "entries_range items ((k, c) # rest) =
    (if inited c then {(foreachName (k # items), data c)} else {}) \<union>
    entries_below (k # items) c \<union> entries_range items rest"
proof -
  have "{(foreachName (rev p @ k # items), contents c p) | p. contents c p \<noteq> None} =
      {(foreachName (k # items), nodeData c) | x :: unit. nodeData c \<noteq> None} \<union> entries_below (k # items) c"
    (is "?A = ?B \<union> ?C")
  proof (intro equalityI subsetI)
    fix e assume "e \<in> ?A"
    then obtain p where "e = (foreachName (rev p @ k # items), contents c p)" "contents c p \<noteq> None"
      by blast
    then show "e \<in> ?B \<union> ?C" by (cases "p = []") (auto simp: entries_below_def)
  next
    fix e assume "e \<in> ?B \<union> ?C"
    then show "e \<in> ?A"
      by (auto simp: entries_below_def) (metis append_Nil contents.simps(1) rev.simps(1))+
  qed
  then show ?thesis
    using wf_nodeData [OF assms] by (auto simp: entries_range_def nodeData_def)
qed

lemma recursion_collect:
  "wf_node n \<Longrightarrow> fst (recursion items n collect s) \<and>
     set (snd (recursion items n collect s)) = set s \<union> entries_below items n"
proof (induction n arbitrary: items s rule: measure_induct_rule [of size])
  case (less n)
  have range: "set cs \<subseteq> set (getChildren n) \<Longrightarrow> fst (recursion_range items cs collect s) \<and>
      set (snd (recursion_range items cs collect s)) = set s \<union> entries_range items cs" for cs s
  proof (induction cs arbitrary: s)
    case Nil
    then show ?case by (simp add: entries_range_def)
  next
    case (Cons kc rest)
    obtain k c where kc: "kc = (k, c)" by fastforce
    have c: "(k, c) \<in> set (getChildren n)" using Cons.prems kc by simp
    then have wf: "wf_node c" using less.prems by (auto simp: wf_node.simps [of n] list_all_iff)
    have sz: "size c < size n" using size_child_list [OF c] size_getChildren [of n] by simp
    let ?s1 = "if inited c then s @ [(foreachName (k # items), data c)] else s"
    obtain b s2 where s2: "recursion (k # items) c collect ?s1 = (b, s2)" by fastforce
    with less.IH [OF sz wf, of "k # items" ?s1]
    have "b" "set s2 = set ?s1 \<union> entries_below (k # items) c" by simp_all
    moreover have "recursion_range items (kc # rest) collect s = recursion_range items rest collect s2"
      using s2 \<open>b\<close> by (cases "inited c") (simp_all add: kc isEmpty_def collect_def del: recursion.simps)
    moreover have "fst (recursion_range items rest collect s2) \<and>
        set (snd (recursion_range items rest collect s2)) = set s2 \<union> entries_range items rest"
      using Cons by simp
    ultimately show ?case by (auto simp: kc entries_range_Cons [OF wf] split: if_splits)
  qed
  show ?case using range [OF subset_refl] contents_below [OF less.prems] by simp
qed

definition entryName :: "string list \<Rightarrow> string" where
  "entryName p = (if length p = 1 then hd p else foreachName (rev p))"

lemma entryName_longer: "p \<noteq> [] \<Longrightarrow> entryName (k # p) = foreachName (rev p @ [k])"
  by (simp add: entryName_def)

definition entries_top :: "(string \<times> 'a node) list \<Rightarrow> (string \<times> 'a option) set" where
  "entries_top cs = (\<Union>(k, c) \<in> set cs. {(entryName (k # p), contents c p) | p. contents c p \<noteq> None})"

lemma entries_top_Cons:
  assumes "wf_node c"
  shows "entries_top ((k, c) # rest) =
    entries_below [k] c \<union> (if inited c then {(k, data c)} else {}) \<union> entries_top rest"
proof -
  have "{(entryName (k # p), contents c p) | p. contents c p \<noteq> None} =
      entries_below [k] c \<union> {(k, nodeData c) | x :: unit. nodeData c \<noteq> None}"
    (is "?A = ?B \<union> ?C")
  proof (intro equalityI subsetI)
    fix e assume "e \<in> ?A"
    then obtain p where "e = (entryName (k # p), contents c p)" "contents c p \<noteq> None" by blast
    then show "e \<in> ?B \<union> ?C"
      by (cases "p = []") (auto simp: entries_below_def entryName_longer entryName_def)
  next
    fix e assume "e \<in> ?B \<union> ?C"
    then consider p where "p \<noteq> []" "contents c p \<noteq> None" "e = (foreachName (rev p @ [k]), contents c p)"
      | "e = (k, nodeData c)" "nodeData c \<noteq> None"
      by (auto simp: entries_below_def)
    then show "e \<in> ?A"
    proof cases
      case 1
      then show ?thesis using entryName_longer [of p k] by force
    next
      case 2
      then have "e = (entryName [k], contents c [])" "contents c [] \<noteq> None" by (auto simp: entryName_def)
      then show ?thesis by blast
    qed
  qed
  then show ?thesis using wf_nodeData [OF assms] by (auto simp: entries_top_def nodeData_def)
qed

lemma Foreach_range_collect:
  "list_all (\<lambda>(k, c). wf_node c) cs \<Longrightarrow>
     set (Foreach_range cs collect s) = set s \<union> entries_top cs"
proof (induction cs arbitrary: s)
  case Nil
  then show ?case by (simp add: entries_top_def)
next
  case (Cons kc rest)
  obtain k c where kc: "kc = (k, c)" by fastforce
  with Cons.prems have wf: "wf_node c" by simp
  obtain b s1 where s1: "recursion [k] c collect s = (b, s1)" by fastforce
  with recursion_collect [OF wf, of "[k]" s] have "set s1 = set s \<union> entries_below [k] c" by simp
  moreover have "collect k (data c) s1 = (True, s1 @ [(k, data c)])" by (simp add: collect_def)
  ultimately show ?case
    using Cons s1 kc
    by (cases "inited c") (simp_all add: entries_top_Cons [OF wf] isEmpty_def Un_ac del: recursion.simps)
qed

lemma entries_top_contents:
  assumes "wf_node t"
  shows "entries_top (getChildren t) = {(entryName p, contents t p) | p. p \<noteq> [] \<and> contents t p \<noteq> None}"
    (is "_ = ?E")
proof (intro equalityI subsetI)
  fix e assume "e \<in> entries_top (getChildren t)"
  then obtain k c p where kc: "(k, c) \<in> set (getChildren t)"
    and e: "e = (entryName (k # p), contents c p)" "contents c p \<noteq> None"
    by (auto simp: entries_top_def)
  from kc assms have "getChild t k = Some c"
    by (metis map_of_getChildren map_of_eq_Some_iff wf_node.simps)
  with e have "e = (entryName (k # p), contents t (k # p))" "contents t (k # p) \<noteq> None" by auto
  then show "e \<in> ?E" by blast
next
  fix e assume "e \<in> ?E"
  then obtain p where p: "p \<noteq> []" "contents t p \<noteq> None" "e = (entryName p, contents t p)" by blast
  then obtain k ps c where "p = k # ps" "getChild t k = Some c" "contents c ps \<noteq> None"
    by (cases p) (auto split: option.splits)
  moreover from this p(3) have "e = (entryName (k # ps), contents c ps)" by simp
  ultimately show "e \<in> entries_top (getChildren t)"
    using getChild_in_children [of t k c] unfolding entries_top_def by blast
qed

section \<open>Tries the code builds\<close>

text \<open>
  Callers insert one pattern after the other and skip the ones \<open>Insert\<close> refuses
  (\<open>domainStrategy.Insert\<close> of the rule providers logs them).
\<close>

definition insert_all :: "(string \<times> 'a) list \<Rightarrow> 'a node \<Rightarrow> 'a node" where
  "insert_all ps t = foldl (\<lambda>t (d, x). case Insert d x t of Inl _ \<Rightarrow> t | Inr t' \<Rightarrow> t') t ps"

text \<open>The paths an accepted pattern is stored under.\<close>

definition stored_paths :: "string \<Rightarrow> string list set" where
  "stored_paths d =
     (case ValidAndSplitDomain d of
        None \<Rightarrow> {}
      | Some parts \<Rightarrow>
          if hd parts = complexWildcard then {rev (tl parts), rev (dotWildcard # tl parts)}
          else {rev parts})"

lemma Insert_contents:
  "Insert d x t = Inr t' \<Longrightarrow>
     contents t' = (\<lambda>p. if p \<in> stored_paths d then Some x else contents t p)"
  by (auto simp: Insert_def stored_paths_def contents_insert_parts fun_eq_iff
      split: option.splits if_splits)

lemma wf_Insert: "wf_node t \<Longrightarrow> Insert d x t = Inr t' \<Longrightarrow> wf_node t'"
  by (auto simp: Insert_def wf_insert_parts split: option.splits if_splits)

lemma insert_all_snoc:
  "insert_all (ps @ [(d, x)]) t = (case Insert d x (insert_all ps t) of Inl _ \<Rightarrow> insert_all ps t | Inr t' \<Rightarrow> t')"
  by (simp add: insert_all_def cong: sum.case_cong)

lemma wf_insert_all: "wf_node t \<Longrightarrow> wf_node (insert_all ps t)"
  by (induction ps rule: rev_induct)
    (auto simp: insert_all_snoc insert_all_def [of "[]"] dest: wf_Insert split: sum.splits)

lemma wf_built: "wf_node (insert_all ps New)"
  by (simp add: wf_insert_all New_def wf_newNode)

lemma dom_contents_insert_all:
  "dom (contents (insert_all ps t)) = dom (contents t) \<union> (\<Union>(d, x) \<in> set ps. stored_paths d)"
proof (induction ps rule: rev_induct)
  case (snoc dx ps)
  obtain d x where dx: "dx = (d, x)" by fastforce
  show ?case
  proof (cases "Insert d x (insert_all ps t)")
    case (Inl e)
    then have "stored_paths d = {}" by (auto simp: Insert_def stored_paths_def split: option.splits if_splits)
    with Inl snoc dx show ?thesis by (simp add: insert_all_snoc)
  next
    case (Inr t')
    have "dom (contents t') = stored_paths d \<union> dom (contents (insert_all ps t))"
      by (auto simp: Insert_contents [OF Inr] split: if_splits)
    with Inr snoc dx show ?thesis by (auto simp: insert_all_snoc)
  qed
qed (simp add: insert_all_def)

lemma ValidAndSplit_labels:
  "ValidAndSplitDomain d = Some parts \<Longrightarrow> parts \<noteq> [] \<and> [] \<notin> set (tl parts)"
  by (auto simp: ValidAndSplitDomain_def Let_def split: if_splits) (metis One_nat_def length_0_conv
      length_tl diff_Suc_1 empty_iff list.set(1))+

lemma Search_nonempty:
  assumes "wf_node t" "ValidAndSplitDomain d = Some parts" "hd parts \<noteq> []"
  shows "Search t d = (if priority_search (contents t) (rev parts) = None then None
    else search_walk t (rev parts))"
proof -
  have "isEmpty (search_walk t (rev parts)) \<longleftrightarrow> priority_search (contents t) (rev parts) = None"
    using search_walk_priority [OF assms(1)] resultData_None_iff wf_search_walk [OF assms(1)] by metis
  with assms show ?thesis by (simp add: Search_def Let_def)
qed

lemma Search_resultData:
  assumes "wf_node t" "ValidAndSplitDomain d = Some parts" "hd parts \<noteq> []"
  shows "resultData (Search t d) = priority_search (contents t) (rev parts)"
  using Search_nonempty [OF assms] search_walk_priority [OF assms(1)]
  by (simp add: resultData_def [of None])

lemma Search_invalid:
  "ValidAndSplitDomain d = None \<or> (\<exists>parts. ValidAndSplitDomain d = Some parts \<and> hd parts = []) \<Longrightarrow>
     Search t d = None"
  by (auto simp: Search_def)

lemma Search_Data: "Search t d = Some n \<Longrightarrow> Data n = nodeData n"
  by (auto simp: Search_def Data_def nodeData_def isEmpty_def Let_def split: option.splits if_splits)

lemma Search_found_iff:
  assumes "wf_node t"
  shows "Search t d \<noteq> None \<longleftrightarrow>
    (\<exists>parts. ValidAndSplitDomain d = Some parts \<and> hd parts \<noteq> [] \<and>
       priority_search (contents t) (rev parts) \<noteq> None)"
proof (cases "\<exists>parts. ValidAndSplitDomain d = Some parts \<and> hd parts \<noteq> []")
  case True
  then obtain parts where p: "ValidAndSplitDomain d = Some parts" "hd parts \<noteq> []" by blast
  have "search_walk t (rev parts) \<noteq> None" if "priority_search (contents t) (rev parts) \<noteq> None"
    using that search_walk_priority [OF assms] by (metis option.simps(4) resultData_def)
  with Search_nonempty [OF assms p] p show ?thesis by auto
next
  case False
  then have "Search t d = None"
    by (intro Search_invalid) (metis option.exhaust)
  with False show ?thesis by blast
qed

section \<open>Properties\<close>

text \<open>
  C2. \<open>Insert\<close> refuses exactly the names \<open>ValidAndSplitDomain\<close> refuses; otherwise the new trie
  stores the data under the paths of the pattern (two paths for a leading \<open>+\<close>) and nothing else
  changes.
\<close>

theorem Insert_stores_pattern:
  "case Insert d x t of
     Inl e \<Rightarrow> ValidAndSplitDomain d = None
   | Inr t' \<Rightarrow> ValidAndSplitDomain d \<noteq> None \<and>
       contents t' = (\<lambda>p. if p \<in> stored_paths d then Some x else contents t p)"
proof (cases "Insert d x t")
  case (Inl e)
  then show ?thesis by (auto simp: Insert_def split: option.splits if_splits)
next
  case (Inr t')
  moreover from this have "ValidAndSplitDomain d \<noteq> None" by (auto simp: Insert_def split: option.splits)
  ultimately show ?thesis by (simp add: Insert_contents)
qed

text \<open>
  C3. In a trie built by any sequence of insertions, \<open>Search\<close> finds a node for a host name exactly
  if the name is well formed and one of the accepted patterns matches its labels.
\<close>

theorem Search_finds_iff_pattern_matches:
  "Search (insert_all ps New) d \<noteq> None \<longleftrightarrow>
     (\<exists>parts. ValidAndSplitDomain d = Some parts \<and> hd parts \<noteq> [] \<and>
        (\<exists>pat x p. (pat, x) \<in> set ps \<and> p \<in> stored_paths pat \<and> pat_matches p (rev parts)))"
  unfolding Search_found_iff [OF wf_built] priority_search_iff dom_contents_insert_all
  by auto

text \<open>
  C4. The node \<open>Search\<close> returns carries the data of a matching pattern that is at least as
  specific as every other matching pattern: at the first label where two patterns differ, the
  label itself wins over \<open>*\<close>, and \<open>*\<close> over the empty label.
\<close>

theorem Search_returns_most_specific:
  assumes "Search (insert_all ps New) d = Some n" "ValidAndSplitDomain d = Some parts"
  shows "\<exists>p x. contents (insert_all ps New) p = Some x \<and> nodeData n = Some x \<and>
    pat_matches p (rev parts) \<and>
    (\<forall>q y. contents (insert_all ps New) q = Some y \<longrightarrow> pat_matches q (rev parts) \<longrightarrow>
       rank_le (specificity p (rev parts)) (specificity q (rev parts)))"
proof -
  have hd: "hd parts \<noteq> []" using assms by (auto simp: Search_def)
  have "nodeData n = priority_search (contents (insert_all ps New)) (rev parts)"
    using Search_resultData [OF wf_built [of ps] assms(2) hd] assms(1) by (simp add: resultData_def)
  moreover have "priority_search (contents (insert_all ps New)) (rev parts) \<noteq> None"
    using Search_nonempty [OF wf_built [of ps] assms(2) hd] assms(1) by (auto split: if_splits)
  moreover have "dotWildcard \<notin> set (rev parts)"
    using ValidAndSplit_labels [OF assms(2)] hd by (cases parts) (auto simp: dotWildcard_def)
  ultimately show ?thesis using priority_search_best by fastforce
qed

theorem Search_returns_most_specific_witness:
  "\<exists>p x. contents (insert_all [(''*.com'', 1 :: nat), (''+.a.com'', 2)] New) p = Some x \<and>
    nodeData (the (Search (insert_all [(''*.com'', 1 :: nat), (''+.a.com'', 2)] New) ''A.com'')) = Some x \<and>
    pat_matches p [''com'', ''a''] \<and>
    (\<forall>q y. contents (insert_all [(''*.com'', 1 :: nat), (''+.a.com'', 2)] New) q = Some y \<longrightarrow>
       pat_matches q [''com'', ''a''] \<longrightarrow>
       rank_le (specificity p [''com'', ''a'']) (specificity q [''com'', ''a'']))"
proof -
  let ?t = "insert_all [(''*.com'', 1 :: nat), (''+.a.com'', 2)] New"
  have "ValidAndSplitDomain ''A.com'' = Some [''a'', ''com'']" by code_simp
  moreover have "Search ?t ''A.com'' = Some (the (Search ?t ''A.com''))" by code_simp
  ultimately show ?thesis using Search_returns_most_specific [of _ "''A.com''" _ "[''a'', ''com'']"] by simp
qed

text \<open>
  C5. \<open>Optimize\<close> changes the representation only: on every trie the code builds, it keeps the
  stored contents and the answer of every search.
\<close>

theorem Optimize_keeps_search:
  "contents (Optimize (insert_all ps New)) = contents (insert_all ps New) \<and>
   resultData (Search (Optimize (insert_all ps New)) d) = resultData (Search (insert_all ps New) d)"
proof
  show c: "contents (Optimize (insert_all ps New)) = contents (insert_all ps New)"
    by (rule ext) (simp add: Optimize_def contents_optimize wf_built)
  have wf: "wf_node (Optimize (insert_all ps New))" by (simp add: Optimize_def wf_optimize wf_built)
  show "resultData (Search (Optimize (insert_all ps New)) d) = resultData (Search (insert_all ps New) d)"
  proof (cases "\<exists>parts. ValidAndSplitDomain d = Some parts \<and> hd parts \<noteq> []")
    case True
    then obtain parts where p: "ValidAndSplitDomain d = Some parts" "hd parts \<noteq> []" by blast
    show ?thesis by (simp add: Search_resultData [OF wf p] Search_resultData [OF wf_built p] c)
  next
    case False
    then have "Search t d = None" for t :: "'a node" by (intro Search_invalid) (metis option.exhaust)
    then show ?thesis by simp
  qed
qed

text \<open>
  \<open>Foreach\<close> with a callback that never stops visits exactly the stored paths below the root,
  each with its data, under the name built from its labels (a leading dot is shown as \<open>+.\<close>).
\<close>

lemma Foreach_visits_contents:
  "set (Foreach (insert_all ps New) collect []) =
     {(entryName p, contents (insert_all ps New) p) | p. p \<noteq> [] \<and> contents (insert_all ps New) p \<noteq> None}"
  using Foreach_range_collect [of "getChildren (insert_all ps New)" "[]"] wf_built [of ps]
  by (simp add: Foreach_def entries_top_contents wf_node.simps [of "insert_all ps New"])

end
