(* ===== verification/Rule_Parser.thy ===== *)
theory Rule_Parser
  imports Sub_Rules Domain_Trie
begin

text \<open>
  From text to rules: \<open>ParseParams\<close> and \<open>ParseRulePayload\<close> of \<open>rules/common/base.go\<close>, the
  constructors of \<open>rules/common/*.go\<close>, the bracket parser of \<open>rules/logic/logic.go\<close>, \<open>ParseRule\<close> of
  \<open>rules/parser.go\<close>, the reading half of the rule-provider strategies and \<open>parseRules\<close>,
  \<open>parseSubRules\<close> of \<open>config/config.go\<close>.  Errors are values of \<open>parse_error\<close>.
\<close>

section \<open>rules/common/base.go\<close>

datatype parse_error =
    ErrPayload
  | ErrMissingParameters string
  | ErrUnsupportedType string
  | ErrRange range_error
  | ErrDSCP
  | ErrEmptyName
  | ErrUnknownType string
  | ErrNetwork
  | ErrUidPlatform
  | ErrRegex
  | ErrGeoInit
  | ErrGeoLoad
  | ErrMissingOpen
  | ErrMissingClose
  | ErrOneRule
  | ErrFormat string
  | ErrProxyNotFound string
  | ErrSubRuleNotFound string
  | ErrRuleSetNotFound string
  | ErrEmptySubRuleName
  | ErrSubRules sub_rule_error

definition ParseParams :: "string list \<Rightarrow> bool \<times> bool" where
  "ParseParams params =
     (let isSrc = ''src'' \<in> set params in
      (isSrc, if isSrc then True else ''no-resolve'' \<in> set params))"

definition trimArr :: "string list \<Rightarrow> string list" where
  "trimArr arr = map (trim_by (\<lambda>c. c = CHR '' '')) arr"

record rule_parts =
  rp_tp :: string
  rp_payload :: string
  rp_target :: string
  rp_params :: "string list"

definition comma_types :: "string list" where
  "comma_types = [''NOT'', ''OR'', ''AND'', ''SUB-RULE'', ''DOMAIN-REGEX'', ''PROCESS-NAME-REGEX'', ''PROCESS-PATH-REGEX'']"

definition ParseRulePayload :: "string \<Rightarrow> bool \<Rightarrow> rule_parts" where
  "ParseRulePayload ruleRaw needTarget =
     (let item = trimArr (split_on CHR '','' ruleRaw);
          tp = to_upper (item ! 0);
          none = \<lparr>rp_tp = tp, rp_payload = [], rp_target = [], rp_params = []\<rparr> in
      if length item > 1 then
        if tp = ''MATCH'' then none\<lparr>rp_target := item ! 1\<rparr>
        else if tp \<in> set comma_types then
          (if needTarget
           then none\<lparr>rp_target := item ! (length item - 1), rp_payload := join_with CHR '','' (drop 1 (butlast item))\<rparr>
           else none\<lparr>rp_payload := join_with CHR '','' (drop 1 item)\<rparr>)
        else
          let p = none\<lparr>rp_payload := item ! 1\<rparr> in
          if length item > 2 then
            if needTarget then
              (let q = p\<lparr>rp_target := item ! 2\<rparr> in
               if length item > 3 then q\<lparr>rp_params := drop 3 item\<rparr> else q)
            else p\<lparr>rp_params := drop 2 item\<rparr>
          else p
      else none)"

section \<open>The constructors\<close>

text \<open>What the constructors ask of libraries and data files.\<close>

record pconf =
  regexCompiles :: "string \<Rightarrow> bool"
  initGeoIP :: bool
  initGeoSite :: bool
  initASN :: bool
  goosLinuxOrAndroid :: bool

definition NewDomain :: "string \<Rightarrow> string \<Rightarrow> rule" where
  "NewDomain domain adapter = Domain (to_lower domain) adapter"

definition NewDomainSuffix :: "string \<Rightarrow> string \<Rightarrow> rule" where
  "NewDomainSuffix suffix adapter = DomainSuffix (to_lower suffix) adapter"

definition NewDomainKeyword :: "string \<Rightarrow> string \<Rightarrow> rule" where
  "NewDomainKeyword keyword adapter = DomainKeyword (to_lower keyword) adapter"

definition NewDomainRegex :: "pconf \<Rightarrow> string \<Rightarrow> string \<Rightarrow> (parse_error, rule) result" where
  "NewDomainRegex c regex adapter =
     (if regexCompiles c regex then Inr (DomainRegex regex adapter) else Inl ErrRegex)"

definition NewDomainWildcard :: "string \<Rightarrow> string \<Rightarrow> (parse_error, rule) result" where
  "NewDomainWildcard pattern adapter = Inr (DomainWildcard (to_lower pattern) adapter)"

definition NewGEOSITE :: "pconf \<Rightarrow> env \<Rightarrow> string \<Rightarrow> string \<Rightarrow> (parse_error, rule) result" where
  "NewGEOSITE c e country adapter =
     (if \<not> initGeoSite c then Inl ErrGeoInit
      else if LoadGeoSiteMatcher e country = None then Inl ErrGeoLoad
      else Inr (GEOSITE country adapter))"

definition NewGEOIP :: "pconf \<Rightarrow> env \<Rightarrow> string \<Rightarrow> string \<Rightarrow> bool \<Rightarrow> bool \<Rightarrow> (parse_error, rule) result" where
  "NewGEOIP c e country0 adapter isSrc noResolveIP =
     (let country = to_lower country0; geoip = GEOIP country adapter noResolveIP isSrc in
      if country = ''lan'' then Inr geoip
      else if \<not> initGeoIP c then Inl ErrGeoInit
      else if GeodataMode e \<and> LoadGeoIPMatcher e country = None then Inl ErrGeoLoad
      else Inr geoip)"

definition NewIPASN :: "pconf \<Rightarrow> string \<Rightarrow> string \<Rightarrow> bool \<Rightarrow> bool \<Rightarrow> (parse_error, rule) result" where
  "NewIPASN c asn adapter isSrc noResolveIP =
     (if initASN c then Inr (ASN asn adapter noResolveIP isSrc) else Inl ErrGeoInit)"

definition NewIPCIDR :: "string \<Rightarrow> string \<Rightarrow> bool \<Rightarrow> bool \<Rightarrow> (parse_error, rule) result" where
  "NewIPCIDR s adapter isSrc noResolveIP =
     (case ParsePrefix s of None \<Rightarrow> Inl ErrPayload | Some ipnet \<Rightarrow> Inr (IPCIDR ipnet adapter isSrc noResolveIP))"

definition NewIPSuffix :: "string \<Rightarrow> string \<Rightarrow> bool \<Rightarrow> bool \<Rightarrow> (parse_error, rule) result" where
  "NewIPSuffix payload adapter isSrc noResolveIP =
     (case ParsePrefix payload of
        None \<Rightarrow> Inl ErrPayload
      | Some ipnet \<Rightarrow> Inr (IPSuffix (AsSlice (p_addr ipnet)) (p_bits ipnet) payload adapter isSrc noResolveIP))"

definition NewPort :: "string \<Rightarrow> string \<Rightarrow> RuleType \<Rightarrow> (parse_error, rule) result" where
  "NewPort port adapter ruleType =
     (case NewUnsignedRanges port of
        Inl err \<Rightarrow> Inl (ErrRange err)
      | Inr portRanges \<Rightarrow>
          if length portRanges = 0 then Inl ErrPayload else Inr (Port adapter port ruleType portRanges))"

definition NewDSCP :: "string \<Rightarrow> string \<Rightarrow> (parse_error, rule) result" where
  "NewDSCP dscp adapter =
     (case NewUnsignedRanges dscp of
        Inl err \<Rightarrow> Inl (ErrRange err)
      | Inr ranges \<Rightarrow>
          if list_ex (\<lambda>r. r_end r > 63) ranges then Inl ErrDSCP else Inr (DSCP ranges dscp adapter))"

definition NewUid :: "pconf \<Rightarrow> string \<Rightarrow> string \<Rightarrow> (parse_error, rule) result" where
  "NewUid c oUid adapter =
     (if \<not> goosLinuxOrAndroid c then Inl ErrUidPlatform
      else
        (case NewUnsignedRanges oUid of
           Inl err \<Rightarrow> Inl (ErrRange err)
         | Inr uidRange \<Rightarrow>
             if length uidRange = 0 then Inl ErrPayload else Inr (Uid uidRange oUid adapter)))"

text \<open>The loop of \<open>NewInName\<close>, \<open>NewInUser\<close> and \<open>NewInType\<close>: trim each part and refuse an empty one.\<close>

fun trim_names :: "string list \<Rightarrow> (parse_error, string list) result" where
  "trim_names [] = Inr []"
| "trim_names (n # ns) =
     (let name = trim_space n in
      if length name = 0 then Inl ErrEmptyName
      else result_bind (trim_names ns) (\<lambda>ms. Inr (name # ms)))"

definition NewInName :: "string \<Rightarrow> string \<Rightarrow> (parse_error, rule) result" where
  "NewInName iNames adapter =
     result_bind (trim_names (split_on CHR ''/'' iNames)) (\<lambda>names. Inr (InName names adapter iNames))"

definition NewInUser :: "string \<Rightarrow> string \<Rightarrow> (parse_error, rule) result" where
  "NewInUser iUsers adapter =
     result_bind (trim_names (split_on CHR ''/'' iUsers)) (\<lambda>users. Inr (InUser users adapter iUsers))"

fun parseInTypes :: "string list \<Rightarrow> (parse_error, InboundType list) result" where
  "parseInTypes [] = Inr []"
| "parseInTypes (tp # tps) =
     (let utp = to_upper tp in
      if utp = ''SOCKS'' then result_bind (parseInTypes tps) (\<lambda>r. Inr (SOCKS4 # SOCKS5 # r))
      else
        (case ParseType utp of
           None \<Rightarrow> Inl (ErrUnknownType utp)
         | Some t \<Rightarrow> result_bind (parseInTypes tps) (\<lambda>r. Inr (t # r))))"

definition NewInType :: "string \<Rightarrow> string \<Rightarrow> (parse_error, rule) result" where
  "NewInType iTypes adapter =
     result_bind (trim_names (split_on CHR ''/'' iTypes)) (\<lambda>types.
       result_bind (parseInTypes types) (\<lambda>tps. Inr (InType tps adapter (to_upper iTypes))))"

definition NewProcess :: "pconf \<Rightarrow> string \<Rightarrow> string \<Rightarrow> RuleType \<Rightarrow> (parse_error, rule) result" where
  "NewProcess c pattern adapter ruleType =
     (if ruleType \<in> {RT_ProcessNameRegex, RT_ProcessPathRegex} \<and> \<not> regexCompiles c pattern
      then Inl ErrRegex else Inr (Process pattern adapter ruleType))"

definition NewNetworkType :: "string \<Rightarrow> string \<Rightarrow> (parse_error, rule) result" where
  "NewNetworkType network adapter =
     (if to_upper network = ''TCP'' then Inr (NetworkType TCP adapter)
      else if to_upper network = ''UDP'' then Inr (NetworkType UDP adapter)
      else Inl ErrNetwork)"

definition NewMatch :: "string \<Rightarrow> rule" where
  "NewMatch adapter = FinalMatch adapter"

definition NewRuleSet :: "string \<Rightarrow> string \<Rightarrow> bool \<Rightarrow> bool \<Rightarrow> (parse_error, rule) result" where
  "NewRuleSet ruleProviderName adapter isSrc noResolveIP =
     Inr (RuleSet ruleProviderName adapter isSrc noResolveIP)"

section \<open>rules/logic/logic.go: brackets\<close>

record brange =
  b_start :: nat
  b_end :: nat

definition containRange :: "brange \<Rightarrow> nat \<Rightarrow> nat \<Rightarrow> bool" where
  "containRange r preStart preEnd = (preStart < b_start r \<and> preEnd > b_end r)"

text \<open>The loop of \<open>format\<close> at byte index \<open>i\<close>, with the stack (top first) and the ranges so far.\<close>

fun format_loop :: "string \<Rightarrow> nat \<Rightarrow> nat list \<Rightarrow> brange list \<Rightarrow> (parse_error, nat list \<times> brange list) result" where
  "format_loop [] i stack ranges = Inr (stack, ranges)"
| "format_loop (c # cs) i stack ranges =
     (if c = CHR ''('' then format_loop cs (Suc i) (i # stack) ranges
      else if c = CHR '')'' then
        (case stack of
           [] \<Rightarrow> Inl ErrMissingOpen
         | start # rest \<Rightarrow> format_loop cs (Suc i) rest (ranges @ [\<lparr>b_start = start, b_end = i\<rparr>]))
      else format_loop cs (Suc i) stack ranges)"

definition format :: "string \<Rightarrow> (parse_error, brange list) result" where
  "format payload =
     result_bind (format_loop payload 0 [] []) (\<lambda>(stack, subRanges).
       if length stack \<noteq> 0 then Inl ErrMissingClose else Inr (sort_key b_start subRanges))"

fun findLoop :: "nat \<Rightarrow> brange list \<Rightarrow> brange list \<Rightarrow> brange list" where
  "findLoop payloadLen [] sub = sub"
| "findLoop payloadLen (rr # rrs) sub =
     (if b_start rr = 0 \<and> Suc (b_end rr) = payloadLen then findLoop payloadLen rrs sub
      else if list_ex (\<lambda>r. containRange rr (b_start r) (b_end r)) sub then findLoop payloadLen rrs sub
      else findLoop payloadLen rrs (sub @ [rr]))"

definition findSubRuleRange :: "string \<Rightarrow> brange list \<Rightarrow> brange list" where
  "findSubRuleRange payload ruleRanges = findLoop (length payload) ruleRanges []"

text \<open>The texts \<open>payload[start+1 : end]\<close> that \<open>parsePayload\<close> goes on with.\<close>

definition sub_text :: "string \<Rightarrow> brange \<Rightarrow> string" where
  "sub_text payload r = take (b_end r - (b_start r + 1)) (drop (b_start r + 1) payload)"

definition sub_payloads :: "string \<Rightarrow> (parse_error, string list) result" where
  "sub_payloads payload =
     (if \<not> has_prefix payload ''('' \<or> \<not> has_suffix payload '')'' then Inl (ErrFormat payload)
      else result_bind (format payload) (\<lambda>all. Inr (map (sub_text payload) (findSubRuleRange payload all))))"

lemma findLoop_proper:
  "r \<in> set (findLoop n rrs sub) \<Longrightarrow> r \<in> set sub \<or> (r \<in> set rrs \<and> \<not> (b_start r = 0 \<and> Suc (b_end r) = n))"
  by (induction n rrs sub rule: findLoop.induct) (auto split: if_splits)

lemma format_loop_bounds:
  "format_loop cs i stack ranges = Inr (stack', ranges') \<Longrightarrow>
   (\<And>x. x \<in> set stack \<Longrightarrow> x < i) \<Longrightarrow> (\<And>r. r \<in> set ranges \<Longrightarrow> b_start r < b_end r \<and> b_end r < n) \<Longrightarrow>
   i + length cs = n \<Longrightarrow> r \<in> set ranges' \<Longrightarrow> b_start r < b_end r \<and> b_end r < n"
proof (induction cs i stack ranges rule: format_loop.induct)
  case (2 c cs i stack ranges)
  consider "c = CHR ''(''" | start rest where "c = CHR '')''" "stack = start # rest"
    | "c \<noteq> CHR ''(''" "c \<noteq> CHR '')''"
    using 2(4) by (cases stack) (auto split: if_splits)
  then show ?case
  proof cases
    case 1
    show ?thesis by (rule 2(1)) (use 1 2(4-8) in \<open>auto intro: less_SucI\<close>)
  next
    case 2: 2
    show ?thesis by (rule "2.IH"(2) [OF _ _ 2(2)]) (use 2 "2.prems" in \<open>auto intro: less_SucI\<close>)
  next
    case 3
    show ?thesis by (rule "2.IH"(3)) (use 3 "2.prems" in \<open>auto intro: less_SucI\<close>)
  qed
qed auto

lemma sub_payloads_shorter:
  assumes "sub_payloads payload = Inr ss" "x \<in> set ss"
  shows "length x + 3 \<le> length payload"
proof -
  obtain stack ranges where l: "format_loop payload 0 [] [] = Inr (stack, ranges)"
    and ss: "ss = map (sub_text payload) (findSubRuleRange payload (sort_key b_start ranges))"
    using assms(1) by (auto simp: sub_payloads_def format_def result_bind_Inr_iff split: if_splits)
  from ss assms(2) obtain r where r: "r \<in> set (findSubRuleRange payload (sort_key b_start ranges))"
    and x: "x = sub_text payload r" by auto
  have "r \<in> set ranges" and whole: "\<not> (b_start r = 0 \<and> Suc (b_end r) = length payload)"
    using findLoop_proper [OF r [unfolded findSubRuleRange_def]] by auto
  then have "b_start r < b_end r \<and> b_end r < length payload"
    using format_loop_bounds [OF l, of "length payload" r] by simp
  with whole show ?thesis by (auto simp: x sub_text_def)
qed

section \<open>Lengths of the parts of a rule text\<close>

lemma length_trim_by: "length (trim_by p s) \<le> length s"
  unfolding trim_by_def by (metis length_dropWhile_le length_rev order_trans)

lemma length_join_trim: "length (join_with c (map (trim_by p) xs)) \<le> length (join_with c xs)"
proof (induction xs)
  case (Cons x xs)
  then show ?case
    using length_trim_by [of p x] by (cases "xs = []") (auto simp: join_with_Cons)
qed simp

lemma length_join_member: "x \<in> set xs \<Longrightarrow> length x \<le> length (join_with c xs)"
proof (induction xs)
  case (Cons y xs)
  then show ?case by (cases "xs = []") (auto simp: join_with_Cons)
qed simp

lemma length_join_drop: "length (join_with c (drop n xs)) \<le> length (join_with c xs)"
proof (induction xs arbitrary: n)
  case (Cons x xs)
  show ?case
  proof (cases n)
    case (Suc m)
    with Cons [of m] show ?thesis by (cases "xs = []") (auto simp: join_with_Cons)
  qed simp
qed simp

lemma payload_shorter: "length (rp_payload (ParseRulePayload raw False)) \<le> length raw"
proof -
  let ?item = "trimArr (split_on CHR '','' raw)"
  have item: "length (join_with CHR '','' ?item) \<le> length raw"
    using length_join_trim [of "CHR '',''" _ "split_on CHR '','' raw"] by (simp add: trimArr_def join_split)
  then have drop: "length (join_with CHR '','' (drop 1 ?item)) \<le> length raw"
    using length_join_drop [of "CHR '',''" 1 ?item] by simp
  have nth: "length ?item > 1 \<Longrightarrow> length (?item ! 1) \<le> length raw"
    using length_join_member [of "?item ! 1" ?item "CHR '',''"] item by simp
  from drop nth show ?thesis by (auto simp: ParseRulePayload_def Let_def)
qed

section \<open>rules/parser.go\<close>

text \<open>
  \<open>ParseRule\<close> and the mutual recursion through the logic rules.  \<open>parseSubs\<close> is the loop of
  \<open>parsePayload\<close> over the inner texts and holds \<open>payloadToRule\<close>.
\<close>

definition max_len :: "string list \<Rightarrow> nat" where
  "max_len ss = foldr (\<lambda>s m. max (length s) m) ss 0"

lemma max_len_simps [simp]: "max_len [] = 0" "max_len (s # ss) = max (length s) (max_len ss)"
  by (simp_all add: max_len_def)

lemma max_len_bound: "(\<And>x. x \<in> set ss \<Longrightarrow> length x < n) \<Longrightarrow> 0 < n \<Longrightarrow> max_len ss < n"
  by (induction ss) auto

lemma sub_payloads_max:
  "sub_payloads p = Inr ss \<Longrightarrow> length p \<le> n + 2 \<Longrightarrow> 0 < n \<Longrightarrow> max_len ss < n"
  using sub_payloads_shorter by (intro max_len_bound) force+

lemma sub_payloads_measure:
  assumes "payload \<noteq> []"
  shows "sub_payloads payload = Inr ss \<Longrightarrow> Suc (2 * max_len ss) < 2 * length payload"
    and "sub_payloads (CHR ''('' # payload @ '')'') = Inr ss \<Longrightarrow> Suc (2 * max_len ss) < 2 * length payload"
  using assms sub_payloads_max [of payload ss "length payload"]
    sub_payloads_max [of "CHR ''('' # payload @ '')''" ss "length payload"] by auto

function (sequential)
  ParseRule :: "pconf \<Rightarrow> env \<Rightarrow> string \<Rightarrow> string \<Rightarrow> string \<Rightarrow> string list \<Rightarrow> (parse_error, rule) result" and
  parseSubs :: "pconf \<Rightarrow> env \<Rightarrow> string list \<Rightarrow> (parse_error, rule list) result"
where
  "ParseRule c e tp payload target params =
     (if tp \<noteq> ''MATCH'' \<and> payload = [] then Inl (ErrMissingParameters tp)
      else if tp = ''DOMAIN'' then Inr (NewDomain payload target)
      else if tp = ''DOMAIN-SUFFIX'' then Inr (NewDomainSuffix payload target)
      else if tp = ''DOMAIN-KEYWORD'' then Inr (NewDomainKeyword payload target)
      else if tp = ''DOMAIN-REGEX'' then NewDomainRegex c payload target
      else if tp = ''DOMAIN-WILDCARD'' then NewDomainWildcard payload target
      else if tp = ''GEOSITE'' then NewGEOSITE c e payload target
      else if tp = ''GEOIP'' then (case ParseParams params of (isSrc, nr) \<Rightarrow> NewGEOIP c e payload target isSrc nr)
      else if tp = ''SRC-GEOIP'' then NewGEOIP c e payload target True True
      else if tp = ''IP-ASN'' then (case ParseParams params of (isSrc, nr) \<Rightarrow> NewIPASN c payload target isSrc nr)
      else if tp = ''SRC-IP-ASN'' then NewIPASN c payload target True True
      else if tp = ''IP-CIDR'' \<or> tp = ''IP-CIDR6'' then
        (case ParseParams params of (isSrc, nr) \<Rightarrow> NewIPCIDR payload target isSrc nr)
      else if tp = ''SRC-IP-CIDR'' then NewIPCIDR payload target True True
      else if tp = ''IP-SUFFIX'' then (case ParseParams params of (isSrc, nr) \<Rightarrow> NewIPSuffix payload target isSrc nr)
      else if tp = ''SRC-IP-SUFFIX'' then NewIPSuffix payload target True True
      else if tp = ''SRC-PORT'' then NewPort payload target RT_SrcPort
      else if tp = ''DST-PORT'' then NewPort payload target RT_DstPort
      else if tp = ''IN-PORT'' then NewPort payload target RT_InPort
      else if tp = ''DSCP'' then NewDSCP payload target
      else if tp = ''PROCESS-NAME'' then NewProcess c payload target RT_ProcessName
      else if tp = ''PROCESS-PATH'' then NewProcess c payload target RT_ProcessPath
      else if tp = ''PROCESS-NAME-REGEX'' then NewProcess c payload target RT_ProcessNameRegex
      else if tp = ''PROCESS-PATH-REGEX'' then NewProcess c payload target RT_ProcessPathRegex
      else if tp = ''PROCESS-NAME-WILDCARD'' then NewProcess c payload target RT_ProcessNameWildcard
      else if tp = ''PROCESS-PATH-WILDCARD'' then NewProcess c payload target RT_ProcessPathWildcard
      else if tp = ''NETWORK'' then NewNetworkType payload target
      else if tp = ''UID'' then NewUid c payload target
      else if tp = ''IN-TYPE'' then NewInType payload target
      else if tp = ''IN-USER'' then NewInUser payload target
      else if tp = ''IN-NAME'' then NewInName payload target
      else if tp = ''SUB-RULE'' then
        result_bind (sub_payloads (''('' @ payload @ '')'')) (\<lambda>ss.
          result_bind (parseSubs c e ss) (\<lambda>rules.
            if length rules \<noteq> 1 then Inl ErrOneRule else Inr (Logic payload target RT_SubRules rules)))
      else if tp = ''AND'' then
        result_bind (sub_payloads payload) (\<lambda>ss.
          result_bind (parseSubs c e ss) (\<lambda>rules. Inr (Logic payload target RT_AND rules)))
      else if tp = ''OR'' then
        result_bind (sub_payloads payload) (\<lambda>ss.
          result_bind (parseSubs c e ss) (\<lambda>rules. Inr (Logic payload target RT_OR rules)))
      else if tp = ''NOT'' then
        result_bind (sub_payloads payload) (\<lambda>ss.
          result_bind (parseSubs c e ss) (\<lambda>rules.
            if length rules \<noteq> 1 then Inl ErrOneRule else Inr (Logic payload target RT_NOT rules)))
      else if tp = ''RULE-SET'' then
        (case ParseParams params of (isSrc, nr) \<Rightarrow> NewRuleSet payload target isSrc nr)
      else if tp = ''MATCH'' then Inr (NewMatch target)
      else Inl (ErrUnsupportedType tp))"
| "parseSubs c e [] = Inr []"
| "parseSubs c e (s # ss) =
     (let p = ParseRulePayload s False in
      if rp_tp p = ''MATCH'' \<or> rp_tp p = ''SUB-RULE'' then Inl (ErrUnsupportedType (rp_tp p))
      else if rp_tp p = [] then Inl (ErrFormat s)
      else
        result_bind (ParseRule c e (rp_tp p) (rp_payload p) (rp_target p) (rp_params p)) (\<lambda>r.
          result_bind (parseSubs c e ss) (\<lambda>rs. Inr (r # rs))))"
  by pat_completeness auto

termination
proof (relation "inv_image (less_than <*lex*> less_than) (\<lambda>x. case x of
    Inl (c, e, tp, payload, _) \<Rightarrow> (2 * length payload, 0)
  | Inr (c, e, ss) \<Rightarrow> (Suc (2 * max_len ss), length ss))", goal_cases)
qed (auto simp: less_Suc_eq_le le_max_iff_disj sub_payloads_measure payload_shorter)

declare ParseRule.simps [simp del]

lemmas leaf_constructors =
  NewDomain_def NewDomainSuffix_def NewDomainKeyword_def NewDomainRegex_def NewDomainWildcard_def
  NewGEOSITE_def NewGEOIP_def NewIPASN_def NewIPCIDR_def NewIPSuffix_def NewPort_def NewDSCP_def
  NewUid_def NewInName_def NewInUser_def NewInType_def NewProcess_def NewNetworkType_def
  NewMatch_def NewRuleSet_def

text \<open>
  The shapes the parser lets through.  \<open>inner_rule\<close>: inside a logic rule there is neither a MATCH nor a SUB-RULE, at
  any depth, and NOT has exactly one rule.  \<open>top_rule\<close>: a rule of a list, which may be MATCH or a SUB-RULE with
  one condition.
\<close>

fun inner_rule :: "rule \<Rightarrow> bool" where
  "inner_rule (FinalMatch a) = False"
| "inner_rule (Logic pl a rt rs) =
     (rt \<in> {RT_AND, RT_OR, RT_NOT} \<and> (rt = RT_NOT \<longrightarrow> length rs = 1) \<and> list_all inner_rule rs)"
| "inner_rule r = True"

fun top_rule :: "rule \<Rightarrow> bool" where
  "top_rule (Logic pl a rt rs) =
     (rt \<in> {RT_AND, RT_OR, RT_NOT, RT_SubRules} \<and> (rt \<in> {RT_NOT, RT_SubRules} \<longrightarrow> length rs = 1) \<and> list_all inner_rule rs)"
| "top_rule r = True"

lemma inner_plain: "inner_rule r \<Longrightarrow> plain_rule r"
  by (induction r) (auto simp: list_all_iff)

lemma inner_top: "inner_rule r \<Longrightarrow> top_rule r"
  by (cases r) auto

lemma top_config: "top_rule r \<Longrightarrow> config_rule r"
  by (cases r) (auto simp: list_all_iff intro: inner_plain)

text \<open>What the parser guarantees of a rule that is no logic rule; only \<open>MATCH\<close> (\<open>m\<close>) gives one that may not stand inside.\<close>

definition leaf_ok :: "bool \<Rightarrow> string \<Rightarrow> (parse_error, rule) result \<Rightarrow> bool" where
  "leaf_ok m target res =
     (\<forall>r. res = Inr r \<longrightarrow> Adapter r = target \<and> plain_rule r \<and> typed_rule r \<and> top_rule r \<and> (m \<or> inner_rule r))"

lemma leaf_ok_constructors:
  "leaf_ok m t (Inr (NewDomain p t))" "leaf_ok m t (Inr (NewDomainSuffix p t))" "leaf_ok m t (Inr (NewDomainKeyword p t))"
  "leaf_ok m t (NewDomainRegex c p t)" "leaf_ok m t (NewDomainWildcard p t)" "leaf_ok m t (NewGEOSITE c e p t)"
  "leaf_ok m t (NewGEOIP c e p t src nr)" "leaf_ok m t (NewIPASN c p t src nr)" "leaf_ok m t (NewIPCIDR p t src nr)"
  "leaf_ok m t (NewIPSuffix p t src nr)" "leaf_ok m t (NewDSCP p t)" "leaf_ok m t (NewUid c p t)"
  "leaf_ok m t (NewInName p t)" "leaf_ok m t (NewInUser p t)" "leaf_ok m t (NewInType p t)"
  "leaf_ok m t (NewNetworkType p t)" "m \<Longrightarrow> leaf_ok m t (Inr (NewMatch t))" "leaf_ok m t (NewRuleSet p t src nr)"
  "rt \<noteq> RT_SubRules \<Longrightarrow> leaf_ok m t (NewPort p t rt)" "rt \<noteq> RT_SubRules \<Longrightarrow> leaf_ok m t (NewProcess c p t rt)"
  by (auto simp: leaf_ok_def leaf_constructors Let_def result_bind_Inr_iff split: sum.splits option.splits)

lemma leaf_ok_control:
  "(b \<Longrightarrow> leaf_ok m t x) \<Longrightarrow> (\<not> b \<Longrightarrow> leaf_ok m t y) \<Longrightarrow> leaf_ok m t (if b then x else y)"
  "(\<And>x y. leaf_ok m t (f x y)) \<Longrightarrow> leaf_ok m t (case p of (x, y) \<Rightarrow> f x y)"
  "leaf_ok m t (Inl err)"
  by (auto simp: leaf_ok_def split: prod.splits)

definition parsed_ok :: "string \<Rightarrow> string \<Rightarrow> rule \<Rightarrow> bool" where
  "parsed_ok tp target r =
     (Adapter r = target \<and> top_rule r \<and> typed_rule r \<and> (tp \<noteq> ''SUB-RULE'' \<and> tp \<noteq> ''MATCH'' \<longrightarrow> inner_rule r) \<and>
      (tp = ''SUB-RULE'' \<longleftrightarrow> rule_RuleType r = RT_SubRules))"

lemma plain_not_sub: "plain_rule r \<Longrightarrow> typed_rule r \<Longrightarrow> rule_RuleType r \<noteq> RT_SubRules"
  by (cases r) auto

lemma leaf_parsed_ok:
  "leaf_ok (tp = ''MATCH'') target res \<Longrightarrow> res = Inr r \<Longrightarrow> tp \<noteq> ''SUB-RULE'' \<Longrightarrow> parsed_ok tp target r"
  by (auto simp: leaf_ok_def parsed_ok_def plain_not_sub)

lemma logic_parsed_ok:
  "list_all inner_rule rs \<Longrightarrow> length rs = 1 \<Longrightarrow> parsed_ok ''SUB-RULE'' t (Logic pl t RT_SubRules rs)"
  "list_all inner_rule rs \<Longrightarrow> tp \<noteq> ''SUB-RULE'' \<Longrightarrow> rt \<in> {RT_AND, RT_OR, RT_NOT} \<Longrightarrow> (rt = RT_NOT \<Longrightarrow> length rs = 1) \<Longrightarrow>
    parsed_ok tp t (Logic pl t rt rs)"
  by (auto simp: parsed_ok_def)

lemma ParseRule_logic:
  assumes "tp \<in> {''SUB-RULE'', ''AND'', ''OR'', ''NOT''}" "ParseRule c e tp payload target params = Inr r"
  shows "\<exists>ss rs rt. parseSubs c e ss = Inr rs \<and> max_len ss < length payload \<and> r = Logic payload target rt rs \<and>
    (if tp = ''SUB-RULE'' then rt = RT_SubRules else rt \<in> {RT_AND, RT_OR, RT_NOT}) \<and>
    (rt \<in> {RT_NOT, RT_SubRules} \<longrightarrow> length rs = 1)"
proof -
  have p: "payload \<noteq> []" using assms by (auto simp: ParseRule.simps split: if_splits)
  show ?thesis
    using assms p sub_payloads_measure [OF p]
    by (elim insertE emptyE) (fastforce simp: ParseRule.simps result_bind_Inr_iff split: if_splits)+
qed

lemma ParseRule_leaf:
  assumes "tp \<notin> {''SUB-RULE'', ''AND'', ''OR'', ''NOT''}"
  shows "leaf_ok (tp = ''MATCH'') target (ParseRule c e tp payload target params)"
  using assms unfolding ParseRule.simps [of c e tp]
  by (simp only: insert_iff empty_iff de_Morgan_disj if_False HOL.simp_thms)
    (intro leaf_ok_control leaf_ok_constructors; simp)

lemma ParseRule_ok_step:
  assumes "\<And>ss rs. max_len ss < length payload \<Longrightarrow> parseSubs c e ss = Inr rs \<Longrightarrow> list_all inner_rule rs"
    and "ParseRule c e tp payload target params = Inr r"
  shows "parsed_ok tp target r"
proof (cases "tp \<in> {''SUB-RULE'', ''AND'', ''OR'', ''NOT''}")
  case True
  from ParseRule_logic [OF True assms(2)] obtain ss rs rt where rs: "parseSubs c e ss = Inr rs" "max_len ss < length payload"
    and r: "r = Logic payload target rt rs" "if tp = ''SUB-RULE'' then rt = RT_SubRules else rt \<in> {RT_AND, RT_OR, RT_NOT}"
      "rt \<in> {RT_NOT, RT_SubRules} \<longrightarrow> length rs = 1" by blast
  show ?thesis
  proof (cases "tp = ''SUB-RULE''")
    case True
    with r assms(1) [OF rs(2,1)] show ?thesis by (simp add: logic_parsed_ok)
  next
    case False
    show ?thesis unfolding r(1) by (rule logic_parsed_ok(2)) (use False r assms(1) [OF rs(2,1)] in auto)
  qed
next
  case False
  with assms(2) ParseRule_leaf [OF False, of target c e payload params] show ?thesis
    by (intro leaf_parsed_ok) auto
qed

lemma parseSubs_inner: "parseSubs c e ss = Inr rs \<Longrightarrow> list_all inner_rule rs"
proof (induction "max_len ss" arbitrary: ss rs rule: less_induct)
  case less
  have step: "parseSubs c e xs = Inr ys \<Longrightarrow> max_len xs \<le> max_len ss \<Longrightarrow> list_all inner_rule ys" for xs ys
  proof (induction xs arbitrary: ys)
    case (Cons x xs)
    let ?p = "ParseRulePayload x False"
    obtain r rs' where r: "ParseRule c e (rp_tp ?p) (rp_payload ?p) (rp_target ?p) (rp_params ?p) = Inr r"
      "rp_tp ?p \<noteq> ''SUB-RULE''" "rp_tp ?p \<noteq> ''MATCH''" and rs': "parseSubs c e xs = Inr rs'" "ys = r # rs'"
      using Cons.prems(1) by (auto simp: Let_def result_bind_Inr_iff split: if_splits)
    have len: "length (rp_payload ?p) \<le> max_len ss"
      using payload_shorter [of x] Cons.prems(2) by simp
    have "parsed_ok (rp_tp ?p) (rp_target ?p) r"
    proof (rule ParseRule_ok_step [OF _ r(1)])
      fix zs ws assume "max_len zs < length (rp_payload ?p)" "parseSubs c e zs = Inr ws"
      with len show "list_all inner_rule ws" by (intro less.hyps [of zs]) simp_all
    qed
    with r(2,3) rs' Cons show ?case by (simp add: parsed_ok_def)
  qed simp
  show ?case using step [OF less.prems] by simp
qed

lemma ParseRule_ok: "ParseRule c e tp payload target params = Inr r \<Longrightarrow> parsed_ok tp target r"
  using ParseRule_ok_step parseSubs_inner by blast

section \<open>rules/provider/classical\_strategy.go\<close>

record classicalStrategy =
  cs_rules :: "rule list"
  cs_count :: nat

definition NewClassicalStrategy :: classicalStrategy where
  "NewClassicalStrategy = \<lparr>cs_rules = [], cs_count = 0\<rparr>"

definition classical_Reset :: "classicalStrategy \<Rightarrow> classicalStrategy" where
  "classical_Reset cs = cs\<lparr>cs_rules := [], cs_count := 0\<rparr>"

definition classical_payloadToRule :: "pconf \<Rightarrow> env \<Rightarrow> string \<Rightarrow> (parse_error, rule) result" where
  "classical_payloadToRule c e rule_text =
     (let p = ParseRulePayload rule_text False in
      if rp_tp p \<in> {''MATCH'', ''RULE-SET'', ''SUB-RULE''} then Inl (ErrUnsupportedType (rp_tp p))
      else ParseRule c e (rp_tp p) (rp_payload p) (rp_target p) (rp_params p))"

text \<open>A text that does not parse is logged and left out.\<close>

definition classical_Insert :: "pconf \<Rightarrow> env \<Rightarrow> string \<Rightarrow> classicalStrategy \<Rightarrow> classicalStrategy" where
  "classical_Insert c e rule_text cs =
     (case classical_payloadToRule c e rule_text of
        Inl _ \<Rightarrow> cs
      | Inr r \<Rightarrow> cs\<lparr>cs_rules := cs_rules cs @ [r], cs_count := cs_count cs + 1\<rparr>)"

text \<open>\<open>rulesParseInline\<close> for the classical behaviour: reset, insert every non-empty text.\<close>

definition rulesParseInline :: "pconf \<Rightarrow> env \<Rightarrow> string list \<Rightarrow> classicalStrategy \<Rightarrow> classicalStrategy" where
  "rulesParseInline c e rs cs =
     foldl (\<lambda>s r. if r \<noteq> [] then classical_Insert c e r s else s) (classical_Reset cs) rs"

lemma classical_Insert_count:
  "cs_count cs = length (cs_rules cs) \<Longrightarrow>
   cs_count (classical_Insert c e r cs) = length (cs_rules (classical_Insert c e r cs))"
  by (simp add: classical_Insert_def split: sum.splits)

lemma classical_Insert_inner:
  "list_all inner_rule (cs_rules cs) \<Longrightarrow> list_all inner_rule (cs_rules (classical_Insert c e r cs))"
  by (auto simp: classical_Insert_def classical_payloadToRule_def Let_def parsed_ok_def
      dest!: ParseRule_ok split: sum.splits if_splits)

section \<open>config/config.go: parseRules and parseSubRules\<close>

text \<open>
  \<open>proxies\<close>, \<open>provs\<close> and \<open>subs\<close> are the key sets of the three maps.  \<^const>\<open>ErrFormat\<close> carries the
  line; the index and the section name of the message are left out.
\<close>

definition checkProviders :: "(string \<Rightarrow> bool) \<Rightarrow> rule \<Rightarrow> (parse_error, rule) result" where
  "checkProviders provs parsed =
     (case filter (\<lambda>n. \<not> provs n) (ProviderNames parsed) of
        [] \<Rightarrow> Inr parsed
      | n # _ \<Rightarrow> Inl (ErrRuleSetNotFound n))"

lemma checkProviders_Inr:
  "checkProviders provs r = Inr r' \<longleftrightarrow> r' = r \<and> (\<forall>n \<in> set (ProviderNames r). provs n)"
proof (cases "filter (\<lambda>n. \<not> provs n) (ProviderNames r)")
  case Nil
  then show ?thesis by (auto simp: checkProviders_def filter_empty_conv)
next
  case (Cons n ns)
  then have "n \<in> set (filter (\<lambda>n. \<not> provs n) (ProviderNames r))" by simp
  then have "n \<in> set (ProviderNames r) \<and> \<not> provs n" by simp
  with Cons show ?thesis by (auto simp: checkProviders_def)
qed

definition parseRuleLine ::
  "pconf \<Rightarrow> env \<Rightarrow> (string \<Rightarrow> bool) \<Rightarrow> (string \<Rightarrow> bool) \<Rightarrow> (string \<Rightarrow> bool) \<Rightarrow> string \<Rightarrow> (parse_error, rule) result" where
  "parseRuleLine c e proxies provs subs line =
     (let p = ParseRulePayload line True; target = rp_target p in
      if target = [] then Inl (ErrFormat line)
      else if \<not> proxies target \<and> rp_tp p \<noteq> ''SUB-RULE'' then Inl (ErrProxyNotFound target)
      else if \<not> proxies target \<and> \<not> subs target then Inl (ErrSubRuleNotFound target)
      else
        result_bind (ParseRule c e (rp_tp p) (rp_payload p) target (rp_params p)) (checkProviders provs))"

fun parseRules ::
  "pconf \<Rightarrow> env \<Rightarrow> (string \<Rightarrow> bool) \<Rightarrow> (string \<Rightarrow> bool) \<Rightarrow> (string \<Rightarrow> bool) \<Rightarrow> string list \<Rightarrow> (parse_error, rule list) result" where
  "parseRules c e proxies provs subs [] = Inr []"
| "parseRules c e proxies provs subs (line # ls) =
     result_bind (parseRuleLine c e proxies provs subs line) (\<lambda>r.
       result_bind (parseRules c e proxies provs subs ls) (\<lambda>rs. Inr (r # rs)))"

fun parseSubRuleLists ::
  "pconf \<Rightarrow> env \<Rightarrow> (string \<Rightarrow> bool) \<Rightarrow> (string \<Rightarrow> bool) \<Rightarrow> (string \<Rightarrow> bool) \<Rightarrow> (string \<times> string list) list \<Rightarrow> (parse_error, sub_rules) result" where
  "parseSubRuleLists c e proxies provs subs [] = Inr []"
| "parseSubRuleLists c e proxies provs subs ((name, raw) # rest) =
     (if length name = 0 then Inl ErrEmptySubRuleName
      else
        result_bind (parseRules c e proxies provs subs raw) (\<lambda>rules.
          result_bind (parseSubRuleLists c e proxies provs subs rest) (\<lambda>l. Inr ((name, rules) # l))))"

definition parseSubRules ::
  "pconf \<Rightarrow> env \<Rightarrow> (string \<Rightarrow> bool) \<Rightarrow> (string \<Rightarrow> bool) \<Rightarrow> (string \<times> string list) list \<Rightarrow> (parse_error, sub_rules) result" where
  "parseSubRules c e proxies provs raw =
     result_bind (parseSubRuleLists c e proxies provs (\<lambda>n. n \<in> fst ` set raw) raw) (\<lambda>cfg.
       case verifySubRule cfg of Some err \<Rightarrow> Inl (ErrSubRules err) | None \<Rightarrow> Inr cfg)"

lemma parseRuleLine_ok:
  assumes "parseRuleLine c e proxies provs subs line = Inr r"
  shows "top_rule r \<and> typed_rule r \<and> (proxies (Adapter r) \<or> (rule_RuleType r = RT_SubRules \<and> subs (Adapter r))) \<and>
    (\<forall>n \<in> set (ProviderNames r). provs n)"
proof -
  let ?p = "ParseRulePayload line True"
  have parse: "ParseRule c e (rp_tp ?p) (rp_payload ?p) (rp_target ?p) (rp_params ?p) = Inr r"
    and target: "proxies (rp_target ?p) \<or> (rp_tp ?p = ''SUB-RULE'' \<and> subs (rp_target ?p))"
    and provs: "\<forall>n \<in> set (ProviderNames r). provs n"
    using assms
    by (auto simp: parseRuleLine_def Let_def result_bind_Inr_iff checkProviders_Inr split: if_splits)
  from ParseRule_ok [OF parse] target provs show ?thesis
    by (auto simp: parsed_ok_def)
qed

lemma parseRules_ok:
  "parseRules c e proxies provs subs ls = Inr rs \<Longrightarrow> r \<in> set rs \<Longrightarrow>
   top_rule r \<and> typed_rule r \<and> (proxies (Adapter r) \<or> (rule_RuleType r = RT_SubRules \<and> subs (Adapter r))) \<and>
   (\<forall>n \<in> set (ProviderNames r). provs n)"
  by (induction ls arbitrary: rs) (auto simp: result_bind_Inr_iff dest!: parseRuleLine_ok)

lemma parseSubRuleLists_ok:
  "parseSubRuleLists c e proxies provs subs raw = Inr cfg \<Longrightarrow> r \<in> set (rules_of cfg n) \<Longrightarrow>
   top_rule r \<and> typed_rule r"
proof (induction raw arbitrary: cfg)
  case (Cons x raw)
  obtain name lines where x: "x = (name, lines)" by (cases x)
  with Cons.prems(1) obtain rules l where l: "parseRules c e proxies provs subs lines = Inr rules"
    "parseSubRuleLists c e proxies provs subs raw = Inr l" "cfg = (name, rules) # l"
    by (auto simp: result_bind_Inr_iff split: if_splits)
  then have "r \<in> set rules \<or> r \<in> set (rules_of l n)"
    using Cons.prems(2) by (auto simp: rules_of_def split: if_splits)
  then show ?case using Cons.IH [OF l(2)] parseRules_ok [OF l(1)] by blast
qed (simp add: rules_of_def)

section \<open>Where matching panics\<close>

text \<open>
  \<open>short_suffixes\<close>: no IP-SUFFIX rule inside gives every bit of its address.  \<open>safe_rule\<close> adds that the rules that
  read their first inner rule have one.
\<close>

fun short_suffixes :: "rule \<Rightarrow> bool" where
  "short_suffixes (IPSuffix bs bits pl a src nr) = (bits < 8 * length bs)"
| "short_suffixes (Logic pl a rt rs) = list_all short_suffixes rs"
| "short_suffixes r = True"

fun safe_rule :: "rule \<Rightarrow> bool" where
  "safe_rule (IPSuffix bs bits pl a src nr) = (bits < 8 * length bs)"
| "safe_rule (Logic pl a rt rs) = ((rt \<in> {RT_NOT, RT_SubRules} \<longrightarrow> rs \<noteq> []) \<and> list_all safe_rule rs)"
| "safe_rule r = True"

definition asn_readable :: "env \<Rightarrow> bool" where
  "asn_readable e = (asn_databaseType (ASNInstance e) = ''ipinfo generic_asn_free.mmdb'' \<longrightarrow>
     (\<forall>ip. 2 \<le> length (fst (lookup_ipinfo (ASNInstance e) ip))))"

definition short_providers :: "env \<Rightarrow> bool" where
  "short_providers e = (\<forall>n rs. RuleProviders e n = Some (Some (ClassicalStrategy rs)) \<longrightarrow> list_all (\<lambda>r. inner_rule r \<and> short_suffixes r) rs)"

definition safe_lists :: "env \<Rightarrow> bool" where
  "safe_lists e = ((\<forall>n rs. subRules e n = Some rs \<longrightarrow> list_all safe_rule rs) \<and>
     (\<forall>n rs. RuleProviders e n = Some (Some (ClassicalStrategy rs)) \<longrightarrow> list_all safe_rule rs))"

lemma inner_safe: "inner_rule r \<Longrightarrow> short_suffixes r \<Longrightarrow> safe_rule r"
  by (induction r) (auto simp: list_all_iff)

lemma top_safe: "top_rule r \<Longrightarrow> short_suffixes r \<Longrightarrow> safe_rule r"
  by (cases r) (auto simp: list_all_iff intro: inner_safe)

lemma match_error_cases: "err \<noteq> OutOfFuel \<Longrightarrow> err = IndexOutOfRange"
  by (cases err) simp_all

definition indexed :: "(match_error, 'a) result \<Rightarrow> bool" where
  "indexed r = (r \<noteq> Inl IndexOutOfRange)"

lemma indexed_simps [simp]: "indexed (Inr x)" "indexed (Inl OutOfFuel)" "\<not> indexed (Inl IndexOutOfRange)"
  by (simp_all add: indexed_def)

lemma indexed_bind: "indexed r \<Longrightarrow> (\<And>x. r = Inr x \<Longrightarrow> indexed (f x)) \<Longrightarrow> indexed (result_bind r f)"
  by (cases r) (auto simp: indexed_def)

lemma suffix_bytes_indexed: "i \<le> length ys \<Longrightarrow> indexed (suffix_bytes xs ys i)"
  by (induction i) (auto simp: Let_def)

lemma suffix_match_indexed: "bits < 8 * length bs \<Longrightarrow> indexed (suffix_match bs bits ys)"
  by (auto simp: suffix_match_def Let_def intro!: indexed_bind suffix_bytes_indexed)

lemma ASN_Match_indexed: "asn_readable e \<Longrightarrow> indexed (ASN_Match e n a nr src h st)"
  by (auto simp: ASN_Match_def LookupASN_def asn_readable_def Let_def intro!: indexed_bind split: prod.splits)
    (metis fst_conv not_less)

lemma any_indexed:
  assumes "\<And>r st. r \<in> set rs \<Longrightarrow> indexed (rule_Match fuel e r h st)"
  shows "indexed (any_match fuel e rs h st)" "indexed (all_match fuel e rs h st)"
  using assms by (induction rs arbitrary: st) (auto simp: match_simps intro!: indexed_bind)

lemma logic_indexed:
  assumes "safe_rule (Logic pl a rt rs)" "\<And>r st. r \<in> set rs \<Longrightarrow> indexed (rule_Match fuel e r h st)"
    and "\<And>f st. fuel = Suc f \<Longrightarrow> indexed (matchSubRules f e (case subRules e a of None \<Rightarrow> [] | Some l \<Rightarrow> l) h st)"
  shows "indexed (rule_Match fuel e (Logic pl a rt rs) h st)"
  using assms(1)
  by (auto simp: rule_Match.simps intro!: indexed_bind any_indexed assms(2,3) split: list.splits nat.splits)

lemma set_indexed:
  fixes h :: "'s RuleMatchHelper"
  assumes "safe_lists e" "\<And>r (h :: 's RuleMatchHelper) st f. fuel = Suc f \<Longrightarrow> safe_rule r \<Longrightarrow> indexed (rule_Match f e r h st)"
  shows "indexed (rule_Match fuel e (RuleSet n a src nr) h st)"
proof -
  have sg: "indexed (strategy_Match fuel e sg h' st')" if "RuleProviders e n = Some (Some sg)" for sg and h' :: "'s RuleMatchHelper" and st'
  proof (cases sg)
    case (ClassicalStrategy rs)
    with assms(1) that have "list_all safe_rule rs" by (auto simp: safe_lists_def)
    with ClassicalStrategy show ?thesis
      by (auto simp: match_simps list_all_iff intro!: any_indexed assms(2) split: nat.splits)
  qed (simp_all add: match_simps Let_def)
  show ?thesis by (auto simp: rule_Match.simps intro!: indexed_bind sg split: option.splits)
qed

lemma list_indexed:
  assumes "\<And>r st. safe_rule r \<Longrightarrow> indexed (rule_Match fuel e r h st)" "list_all safe_rule rs"
    and "\<And>f n st. fuel = Suc f \<Longrightarrow> indexed (matchSubRules f e (case subRules e n of None \<Rightarrow> [] | Some l \<Rightarrow> l) h st)"
  shows "indexed (matchSubRules fuel e rs h st)"
  using assms(2)
  by (induction rs arbitrary: st)
    (auto simp: matchSubRules.simps intro!: indexed_bind assms(1,3) split: nat.splits)

lemma in_range:
  fixes h :: "'s RuleMatchHelper"
  assumes e: "asn_readable e" "safe_lists e"
  shows "safe_rule r \<Longrightarrow> indexed (rule_Match fuel e r h st)"
    "list_all safe_rule rs \<Longrightarrow> indexed (matchSubRules fuel e rs h st)"
proof (induction fuel arbitrary: r rs h st)
  case (Suc fuel)
  have lists: "indexed (matchSubRules f e (case subRules e n of None \<Rightarrow> [] | Some l \<Rightarrow> l) h st)" if "Suc fuel = Suc f" for f n st and h :: "'s RuleMatchHelper"
    using that e(2) Suc.IH(2) by (auto simp: safe_lists_def split: option.splits)
  have rules: "safe_rule r \<Longrightarrow> indexed (rule_Match (Suc fuel) e r h st)" for r st and h :: "'s RuleMatchHelper"
  proof (induction r arbitrary: st)
    case (Logic pl a rt rs)
    then show ?case by (intro logic_indexed lists) (auto simp: list_all_iff)
  next
    case (RuleSet n a src nr)
    show ?case using Suc.IH(1) by (intro set_indexed [OF e(2)]) simp_all
  qed (auto simp: rule_Match.simps ASN_Match_indexed [OF e(1)] IPSuffix_Match_def Let_def intro!: indexed_bind suffix_match_indexed)
  { case 1 then show ?case by (rule rules) }
  { case 2 show ?case by (rule list_indexed [OF rules 2 lists]) simp_all }
next
  case 0
  have rules: "safe_rule r \<Longrightarrow> indexed (rule_Match 0 e r h st)" for r st and h :: "'s RuleMatchHelper"
  proof (induction r arbitrary: st)
    case (Logic pl a rt rs)
    then show ?case by (intro logic_indexed) (auto simp: list_all_iff)
  next
    case (RuleSet n a src nr)
    show ?case by (intro set_indexed [OF e(2)]) simp_all
  qed (auto simp: rule_Match.simps ASN_Match_indexed [OF e(1)] IPSuffix_Match_def Let_def intro!: indexed_bind suffix_match_indexed)
  { case 1 then show ?case by (rule rules) }
  { case 2 show ?case by (rule list_indexed [OF rules 2]) simp_all }
qed

lemma safe_listsI:
  assumes "subRules e = map_of cfg" "short_providers e"
    and "\<And>n r. r \<in> set (rules_of cfg n) \<Longrightarrow> top_rule r \<and> short_suffixes r"
  shows "safe_lists e"
proof -
  have "safe_rule r" if "map_of cfg n = Some rs" "r \<in> set rs" for n rs r
    using assms(3) [of r n] that by (simp add: rules_of_def top_safe)
  moreover have "safe_rule r" if "RuleProviders e n = Some (Some (ClassicalStrategy rs))" "r \<in> set rs" for n rs r
    using assms(2) that by (simp add: short_providers_def list_all_iff inner_safe)
  ultimately show ?thesis by (auto simp: safe_lists_def assms(1) list_all_iff)
qed

section \<open>Properties\<close>

text \<open>
  C16.  A configuration that the parser accepts routes every connection in a bounded number of
  steps: once \<open>parseSubRules\<close> and \<open>parseRules\<close> succeed, and no classical rule set contains a
  further rule set, the match of every parsed rule comes to an end with one unit of fuel per
  sub-rule list and one more, for every helper and every connection: with a result, or with the run-time panic of an
  index out of range.  The panic has two sources only: an IP-SUFFIX rule that gives every bit of an address, and
  a text of an ASN database shorter than the two bytes that are cut off.  With neither of them there is a result.
\<close>

theorem accepted_config_matching_ends:
  assumes "parseSubRules c e0 proxies provs raw = Inr cfg"
    and "parseRules c e0 proxies provs (\<lambda>n. n \<in> fst ` set cfg) lines = Inr rules"
    and "subRules e = map_of cfg" "flat_providers e" "r \<in> set rules"
  shows "((\<exists>res. rule_Match (length cfg + 1) e r h st = Inr res) \<or> rule_Match (length cfg + 1) e r h st = Inl IndexOutOfRange) \<and>
    (asn_readable e \<and> short_providers e \<and> short_suffixes r \<and> (\<forall>n. list_all short_suffixes (rules_of cfg n)) \<longrightarrow>
      (\<exists>res. rule_Match (length cfg + 1) e r h st = Inr res))"
proof -
  let ?res = "rule_Match (length cfg + 1) e r h st"
  have "verifySubRule cfg = None"
    and lists: "parseSubRuleLists c e0 proxies provs (\<lambda>n. n \<in> fst ` set raw) raw = Inr cfg"
    using assms(1) by (auto simp: parseSubRules_def result_bind_Inr_iff split: option.splits)
  moreover note tops = parseRules_ok [OF assms(2,5)] parseSubRuleLists_ok [OF lists]
  then have "config_lists cfg" by (auto simp: config_lists_def intro: top_config)
  ultimately have "ends ?res"
    using assms(3,4) tops top_config by (intro rule_ends) auto
  then have res: "(\<exists>res. ?res = Inr res) \<or> ?res = Inl IndexOutOfRange"
    by (cases ?res) (auto simp: ends_def dest: match_error_cases)
  have "\<exists>res. ?res = Inr res" if "asn_readable e" "short_providers e" "short_suffixes r" "\<forall>n. list_all short_suffixes (rules_of cfg n)"
  proof -
    have "safe_lists e"
      by (rule safe_listsI [OF assms(3) that(2)]) (use that(4) tops(2) in \<open>auto simp: list_all_iff\<close>)
    then have "indexed ?res" using in_range(1) [OF that(1)] top_safe that(3) tops(1) by blast
    with res show ?thesis by (simp add: indexed_def)
  qed
  with res show ?thesis by blast
qed

text \<open>
  C19.  Every rule of an accepted rule list carries the target of its line, which is a configured
  proxy or, for a SUB-RULE, a configured sub-rule list; every rule set it names anywhere inside
  exists; a MATCH or a SUB-RULE stands only at the top of a rule, never inside a logic rule at any depth; and
  a NOT and a SUB-RULE have exactly one rule inside.
\<close>

theorem parseRules_well_formed:
  assumes "parseRules c e proxies provs subs lines = Inr rules" "r \<in> set rules"
  shows "(proxies (Adapter r) \<or> (rule_RuleType r = RT_SubRules \<and> subs (Adapter r))) \<and>
    (\<forall>n \<in> set (ProviderNames r). provs n) \<and> top_rule r"
  using parseRules_ok [OF assms] by blast

definition example_pconf :: pconf where
  "example_pconf = \<lparr>regexCompiles = (\<lambda>_. True), initGeoIP = True, initGeoSite = True, initASN = True,
     goosLinuxOrAndroid = True\<rparr>"

lemma example_lines:
  "parseRules example_pconf emptyEnv (\<lambda>n. n = ''DIRECT'') (\<lambda>_. False) (\<lambda>n. n \<in> fst ` set [(''web'', ls)])
     [''SUB-RULE,(NETWORK,tcp),web''] =
   Inr [Logic ''(NETWORK,tcp)'' ''web'' RT_SubRules [NetworkType TCP []]]"
  by (simp add: parseRuleLine_def ParseRulePayload_def comma_types_def trimArr_def trim_by_def ParseRule.simps
      sub_payloads_def has_prefix_def has_suffix_def format_def findSubRuleRange_def containRange_def
      sub_text_def NewNetworkType_def checkProviders_def lower_eval to_upper_def)

lemma example_sub_rules:
  "parseSubRules example_pconf emptyEnv (\<lambda>n. n = ''DIRECT'') (\<lambda>_. False) [(''web'', [''MATCH,DIRECT''])] =
   Inr [(''web'', [FinalMatch ''DIRECT''])]"
  by (simp add: parseSubRules_def verifySubRule_def verifySubRuleCircularReferences.simps rules_of_def
      parseRuleLine_def ParseRulePayload_def trimArr_def trim_by_def ParseRule.simps NewMatch_def
      checkProviders_def lower_eval to_upper_def)

theorem accepted_config_matching_ends_witness:
  "\<exists>res. rule_Match 2 (emptyEnv\<lparr>subRules := map_of [(''web'', [FinalMatch ''DIRECT''])]\<rparr>)
     (Logic ''(NETWORK,tcp)'' ''web'' RT_SubRules [NetworkType TCP []]) emptyHelper (zeroMetadata, ()) = Inr res"
proof -
  let ?e = "emptyEnv\<lparr>subRules := map_of [(''web'', [FinalMatch ''DIRECT''])]\<rparr>"
  have e: "flat_providers ?e" "asn_readable ?e" "short_providers ?e"
    by (simp_all add: flat_providers_def asn_readable_def short_providers_def emptyEnv_def)
  from accepted_config_matching_ends [OF example_sub_rules example_lines _ e(1), of _ emptyHelper "(zeroMetadata, ())"] e(2,3)
  show ?thesis by (simp add: numeral_2_eq_2 rules_of_def)
qed

theorem parseRules_well_formed_witness:
  "top_rule (Logic ''(NETWORK,tcp)'' ''web'' RT_SubRules [NetworkType TCP []])"
  using parseRules_well_formed [OF example_lines [of "[]"], of "Logic ''(NETWORK,tcp)'' ''web'' RT_SubRules [NetworkType TCP []]"]
  by simp

end
