(* ===== verification/Match_Frame.thy ===== *)
theory Match_Frame
  imports Rules
begin

text \<open>
  What a match may do to the state, as an interface: a client names a pair of relations on states,
  one for helpers that may resolve and one for helpers that may not, shows that the elementary
  writes of the rules and its own closures stay inside, and gets that every match of every rule
  stays inside.
\<close>

locale match_rel =
  fixes R :: "bool \<Rightarrow> 's mstate \<Rightarrow> 's mstate \<Rightarrow> bool"
  assumes R_refl: "R b st st"
    and R_trans: "R b st1 st2 \<Longrightarrow> R b st2 st3 \<Longrightarrow> R b st1 st3"
    and R_weaken: "R False st1 st2 \<Longrightarrow> R b st1 st2"
    and R_geo: "R False (m, s) (set_geo_cache src c m, s)"
    and R_asn: "R False (m, s) (set_asn src t m, s)"
    and R_swap: "R False (swap_state st1) st2 \<Longrightarrow> R False st1 (swap_state st2)"
begin

definition good_helper :: "'s RuleMatchHelper \<Rightarrow> bool" where
  "good_helper h =
     ((\<forall>f. ResolveIP h = Some f \<longrightarrow> (\<forall>st. R True st (f st))) \<and>
      (\<forall>f. FindProcess h = Some f \<longrightarrow> (\<forall>st. R False st (f st))))"

definition resolves :: "'s RuleMatchHelper \<Rightarrow> bool" where
  "resolves h = (ResolveIP h \<noteq> None)"

lemma resolves_no_resolve [simp]: "resolves (h\<lparr>ResolveIP := None\<rparr>) = False"
  by (simp add: resolves_def)

lemma good_no_resolve [simp]: "good_helper h \<Longrightarrow> good_helper (h\<lparr>ResolveIP := None\<rparr>)"
  by (simp add: good_helper_def)

lemma resolve_rel:
  assumes "good_helper h"
  shows "R (resolves h) st (call_opt (ResolveIP h) st)"
proof (cases "ResolveIP h")
  case (Some f)
  with assms have "R True st (f st)" unfolding good_helper_def by blast
  with Some show ?thesis by (simp add: call_opt_def resolves_def)
qed (simp add: call_opt_def R_refl)

lemma resolve_first_rel: "good_helper h \<Longrightarrow> R (resolves h) st (resolve_first nr src h st)"
  by (simp add: resolve_first_def resolve_rel R_refl)

lemma process_rel:
  assumes "good_helper h"
  shows "R b st (call_opt (FindProcess h) st)"
proof (cases "FindProcess h")
  case (Some f)
  with assms have "R False st (f st)" unfolding good_helper_def by blast
  with Some show ?thesis by (simp add: call_opt_def R_weaken)
qed (simp add: call_opt_def R_refl)

lemma geo_rel: "R b st (set_geo_cache src c (fst st), snd st)"
  using R_geo [of "fst st" "snd st"] by (simp add: R_weaken)

lemma asn_rel: "R b st (set_asn src t (fst st), snd st)"
  using R_asn [of "fst st" "snd st"] by (simp add: R_weaken)

lemma GEOIP_rel:
  assumes "good_helper h" "GEOIP_Match e c a nr src h st = (x, st')"
  shows "R (resolves h) st st'"
proof -
  let ?s = "resolve_first nr src h st"
  have "st' = ?s \<or> (\<exists>c. st' = (set_geo_cache src c (fst ?s), snd ?s))"
    using assms(2) by (auto simp: GEOIP_Match_def Let_def split: if_splits option.splits)
  then show ?thesis
    using resolve_first_rel [OF assms(1), of st nr src] geo_rel R_trans by metis
qed

lemma ASN_rel:
  assumes "good_helper h" "ASN_Match e n a nr src h st = Inr (x, st')"
  shows "R (resolves h) st st'"
proof -
  let ?s = "resolve_first nr src h st"
  have "st' = ?s \<or> (\<exists>t. st' = (set_asn src t (fst ?s), snd ?s))"
    using assms(2) by (auto simp: ASN_Match_def Let_def result_bind_Inr_iff split: if_splits)
  then show ?thesis
    using resolve_first_rel [OF assms(1), of st nr src] asn_rel R_trans by metis
qed

text \<open>The rule keeps the relation with this much fuel, whatever the helper and the state.\<close>

definition rule_ok :: "nat \<Rightarrow> env \<Rightarrow> rule \<Rightarrow> bool" where
  "rule_ok fuel e r =
     (\<forall>h st x st'. good_helper h \<longrightarrow> rule_Match fuel e r h st = Inr (x, st') \<longrightarrow> R (resolves h) st st')"

definition subs_ok :: "nat \<Rightarrow> env \<Rightarrow> bool" where
  "subs_ok fuel e =
     (\<forall>rs h st x st'. good_helper h \<longrightarrow> matchSubRules fuel e rs h st = Inr (x, st') \<longrightarrow> R (resolves h) st st')"

definition sets_ok :: "nat \<Rightarrow> env \<Rightarrow> bool" where
  "sets_ok fuel e =
     (\<forall>sg h st b st'. good_helper h \<longrightarrow> strategy_Match fuel e sg h st = Inr (b, st') \<longrightarrow> R (resolves h) st st')"

lemma rule_okD:
  "rule_ok fuel e r \<Longrightarrow> good_helper h \<Longrightarrow> rule_Match fuel e r h st = Inr (x, st') \<Longrightarrow> R (resolves h) st st'"
  unfolding rule_ok_def by blast

lemma rule_okI:
  "(\<And>h st x st'. good_helper h \<Longrightarrow> rule_Match fuel e r h st = Inr (x, st') \<Longrightarrow> R (resolves h) st st') \<Longrightarrow>
   rule_ok fuel e r"
  unfolding rule_ok_def by blast

lemma subs_okD:
  "subs_ok fuel e \<Longrightarrow> good_helper h \<Longrightarrow> matchSubRules fuel e rs h st = Inr (x, st') \<Longrightarrow> R (resolves h) st st'"
  unfolding subs_ok_def by blast

lemma helper_rel:
  "good_helper h \<Longrightarrow> resolve_first nr src h st = st' \<Longrightarrow> R (resolves h) st st'"
  "good_helper h \<Longrightarrow> call_opt (FindProcess h) st = st' \<Longrightarrow> R (resolves h) st st'"
  using resolve_first_rel process_rel by blast+

lemma any_rel:
  assumes "\<And>r. r \<in> set rs \<Longrightarrow> rule_ok fuel e r" "good_helper h" "any_match fuel e rs h st = Inr (b, st')"
  shows "R (resolves h) st st'"
  using assms
proof (induction rs arbitrary: st)
  case (Cons r rs)
  then obtain m a st1 where r: "rule_Match fuel e r h st = Inr ((m, a), st1)"
    by (auto simp: match_simps result_bind_Inr_iff)
  have "R (resolves h) st st1" by (rule rule_okD [OF Cons.prems(1) _ r]) (simp_all add: assms)
  moreover have "R (resolves h) st1 st'"
    using Cons r by (auto simp: match_simps R_refl split: if_splits)
  ultimately show ?case by (rule R_trans)
qed (simp add: match_simps R_refl)

lemma all_rel:
  assumes "\<And>r. r \<in> set rs \<Longrightarrow> rule_ok fuel e r" "good_helper h" "all_match fuel e rs h st = Inr (b, st')"
  shows "R (resolves h) st st'"
  using assms
proof (induction rs arbitrary: st)
  case (Cons r rs)
  then obtain m a st1 where r: "rule_Match fuel e r h st = Inr ((m, a), st1)"
    by (auto simp: match_simps result_bind_Inr_iff)
  have "R (resolves h) st st1" by (rule rule_okD [OF Cons.prems(1) _ r]) (simp_all add: assms)
  moreover have "R (resolves h) st1 st'"
    using Cons r by (auto simp: match_simps R_refl split: if_splits)
  ultimately show ?case by (rule R_trans)
qed (simp add: match_simps R_refl)

text \<open>One step of the sub-rule loop: the rule, the list it names, and the rest.\<close>

lemma sub_rel:
  assumes "\<And>r. r \<in> set rs \<Longrightarrow> rule_ok fuel e r" "\<And>f. fuel = Suc f \<Longrightarrow> subs_ok f e" "good_helper h"
    and "matchSubRules fuel e rs h st = Inr (x, st')"
  shows "R (resolves h) st st'"
  using assms(1,4)
proof (induction rs arbitrary: st)
  case (Cons r rs)
  then obtain m a st1 where r: "rule_Match fuel e r h st = Inr ((m, a), st1)"
    by (auto simp: match_simps result_bind_Inr_iff)
  have st1: "R (resolves h) st st1"
    by (rule rule_okD [OF Cons.prems(1) _ r]) (simp_all add: assms(3))
  have ih: "matchSubRules fuel e rs h s = Inr (x, st') \<Longrightarrow> R (resolves h) s st'" for s
    using Cons by auto
  show ?case
  proof (cases m)
    case True
    with Cons.prems(2) r obtain m2 a2 st2 where
      i: "(if rule_RuleType r = RT_SubRules then
            (case fuel of 0 \<Rightarrow> Inl OutOfFuel
             | Suc f \<Rightarrow> matchSubRules f e (case subRules e (Adapter r) of None \<Rightarrow> [] | Some l \<Rightarrow> l) h st1)
          else Inr ((True, a), st1)) = Inr ((m2, a2), st2)"
      and rest: "(if m2 \<and> pass_rule h (fst st2) a2 then matchSubRules fuel e rs h st2
        else Inr ((m2, a2), st2)) = Inr (x, st')"
      by (auto simp: match_simps result_bind_Inr_iff)
    have "R (resolves h) st1 st2"
      using i assms(2,3) by (auto simp: R_refl intro: subs_okD split: if_splits nat.splits)
    moreover have "R (resolves h) st2 st'" using rest ih by (auto simp: R_refl split: if_splits)
    ultimately show ?thesis using st1 R_trans by blast
  next
    case False
    with Cons.prems(2) r have "R (resolves h) st1 st'" by (intro ih) (simp add: match_simps)
    with st1 show ?thesis by (rule R_trans)
  qed
qed (simp add: match_simps R_refl)

lemma set_rel:
  assumes "sets_ok fuel e" "good_helper h" "rule_Match fuel e (RuleSet n a src nr) h st = Inr (x, st')"
  shows "R (resolves h) st st'"
proof (cases "\<exists>sg. RuleProviders e n = Some (Some sg)")
  case True
  then obtain sg where p: "RuleProviders e n = Some (Some sg)" ..
  show ?thesis
  proof (cases src)
    case True
    with assms(3) p obtain b st1 where
      eq: "strategy_Match fuel e sg (h\<lparr>ResolveIP := None\<rparr>) (swap_state st) = Inr (b, st1)"
      and "st' = swap_state st1"
      by (auto simp: match_simps result_bind_Inr_iff)
    moreover have "R (resolves (h\<lparr>ResolveIP := None\<rparr>)) (swap_state st) st1"
      using assms(1,2) eq good_no_resolve unfolding sets_ok_def by blast
    ultimately show ?thesis by (simp add: R_swap R_weaken)
  next
    case False
    let ?h = "if nr then h\<lparr>ResolveIP := None\<rparr> else h"
    from False assms(3) p obtain b where "strategy_Match fuel e sg ?h st = Inr (b, st')"
      by (auto simp: match_simps result_bind_Inr_iff)
    moreover have "good_helper ?h" using assms(2) by simp
    ultimately have "R (resolves ?h) st st'" using assms(1) unfolding sets_ok_def by blast
    then show ?thesis by (cases nr) (auto intro: R_weaken)
  qed
next
  case False
  with assms(3) have "st' = st" by (auto simp: match_simps split: option.splits)
  then show ?thesis by (simp add: R_refl)
qed

lemma logic_rel:
  assumes "\<And>r. r \<in> set rs \<Longrightarrow> rule_ok fuel e r" "\<And>f. fuel = Suc f \<Longrightarrow> subs_ok f e" "good_helper h"
    and m: "rule_Match fuel e (Logic pl a rt rs) h st = Inr (x, st')"
  shows "R (resolves h) st st'"
proof -
  consider r rs' m x1 st1 where "rt = RT_SubRules" "rs = r # rs'" "rule_Match fuel e r h st = Inr ((m, x1), st1)"
    | r rs' m x1 where "rt = RT_NOT" "rs = r # rs'" "rule_Match fuel e r h st = Inr ((m, x1), st')"
    | b where "any_match fuel e rs h st = Inr (b, st')" | b where "all_match fuel e rs h st = Inr (b, st')"
    | "st' = st"
    using m by (cases rs) (auto simp: rule_Match.simps result_bind_Inr_iff split: if_splits)
  then show ?thesis
  proof cases
    case 1
    have "R (resolves h) st st1" by (rule rule_okD [OF assms(1) _ 1(3)]) (simp_all add: 1 assms(3))
    moreover have "R (resolves h) st1 st'"
    proof (cases m)
      case True
      then obtain f where "fuel = Suc f"
        "matchSubRules f e (case subRules e a of None \<Rightarrow> [] | Some l \<Rightarrow> l) h st1 = Inr (x, st')"
        using m 1 by (auto simp: match_simps split: nat.splits)
      then show ?thesis using assms(2,3) unfolding subs_ok_def by blast
    next
      case False
      then show ?thesis using m 1 by (simp add: match_simps R_refl)
    qed
    ultimately show ?thesis by (rule R_trans)
  next
    case 2
    show ?thesis by (rule rule_okD [OF assms(1) _ 2(3)]) (simp_all add: 2 assms(3))
  next
    case 3
    then show ?thesis using any_rel assms(1,3) by blast
  next
    case 4
    then show ?thesis using all_rel assms(1,3) by blast
  qed (simp add: R_refl)
qed

lemma rule_rel:
  assumes "\<And>f. fuel = Suc f \<Longrightarrow> subs_ok f e" "sets_ok fuel e"
  shows "rule_ok fuel e r"
proof (induction r)
  case (GEOIP c a nr src)
  show ?case unfolding rule_ok_def using GEOIP_rel by (auto simp: match_simps)
next
  case (ASN n a nr src)
  show ?case unfolding rule_ok_def using ASN_rel by (auto simp: match_simps)
next
  case (RuleSet n a src nr)
  show ?case unfolding rule_ok_def using set_rel [OF assms(2)] by blast
next
  case (Logic pl a rt rs)
  then show ?case using logic_rel [OF _ assms(1)] unfolding rule_ok_def [of _ _ "Logic pl a rt rs"] by blast
qed (auto intro!: rule_okI simp: match_simps IPCIDR_Match_def IPSuffix_Match_def Uid_Match_def
    Process_Match_def Let_def result_bind_Inr_iff R_refl intro: helper_rel)

lemma sets_rel:
  assumes "\<And>f r. fuel = Suc f \<Longrightarrow> rule_ok f e r"
  shows "sets_ok fuel e"
  unfolding sets_ok_def
proof (intro allI impI)
  fix sg h st b st'
  assume h: "good_helper h" and m: "strategy_Match fuel e sg h st = Inr (b, st')"
  show "R (resolves h) st st'"
  proof (cases sg)
    case (ClassicalStrategy rs)
    with m obtain f where "fuel = Suc f" "any_match f e rs h st = Inr (b, st')"
      by (cases fuel) (auto simp: match_simps)
    then show ?thesis using any_rel assms h by blast
  qed (use m h in \<open>auto simp: match_simps Let_def resolve_rel R_refl\<close>)
qed

lemma all_fuel_ok: "(\<forall>r. rule_ok fuel e r) \<and> subs_ok fuel e"
proof (induction fuel)
  case 0
  have "rule_ok 0 e r" for r by (rule rule_rel) (auto intro: sets_rel)
  then show ?case unfolding subs_ok_def using sub_rel [of _ 0 e] by blast
next
  case (Suc fuel)
  have r: "rule_ok (Suc fuel) e r" for r by (rule rule_rel) (use Suc in \<open>auto intro: sets_rel\<close>)
  then show ?case unfolding subs_ok_def using sub_rel [of _ "Suc fuel" e] Suc by blast
qed

lemma match_in_rel:
  "good_helper h \<Longrightarrow> rule_Match fuel e r h st = Inr (x, st') \<Longrightarrow> R (resolves h) st st'"
  using all_fuel_ok rule_okD by blast

lemma match_in_rel_True:
  assumes "good_helper h" "rule_Match fuel e r h st = Inr (x, st')"
  shows "R True st st'"
  using match_in_rel [OF assms] R_weaken by (cases "resolves h") simp_all

end

end
