(* ===== verification/Rule_Semantics.thy ===== *)
theory Rule_Semantics
  imports Rules "HOL-Library.Sublist"
begin

text \<open>
  What the rules of \<open>Rules\<close> mean: a declarative reading of the rules that neither resolve nor look
  up a process, the exact bit condition of \<open>IP-SUFFIX\<close> and its panic, and what a match may change in
  the metadata.
\<close>

section \<open>Reading of the rules without side effects\<close>

text \<open>
  \<open>denote\<close> reads a rule as a predicate on the metadata: a domain suffix is a suffix of the label
  list, a keyword a factor of the host, a wildcard a glob, the logic rules are the connectives.
\<close>

fun denote :: "env \<Rightarrow> rule \<Rightarrow> Metadata \<Rightarrow> bool" where
  "denote e (Domain d a) m = (RuleHost m = d)"
| "denote e (DomainSuffix s a) m = suffix (split_on CHR ''.'' s) (split_on CHR ''.'' (RuleHost m))"
| "denote e (DomainKeyword k a) m = sublist k (RuleHost m)"
| "denote e (DomainRegex r a) m = regexMatch e r (RuleHost m)"
| "denote e (DomainWildcard p a) m = glob p (mHost m)"
| "denote e (GEOSITE c a) m =
     (RuleHost m \<noteq> [] \<and> (\<exists>f. LoadGeoSiteMatcher e c = Some f \<and> f (RuleHost m)))"
| "denote e (IPCIDR p a src nr) m = prefix_contains p (WithZone [] (rule_ip src m))"
| "denote e (Port a pt rt rs) m =
     (rs = [] \<or> (\<exists>r \<in> set rs. Contains r
        (if rt = RT_InPort then mInPort m else if rt = RT_SrcPort then mSrcPort m else mDstPort m)))"
| "denote e (DSCP rs pl a) m = (rs = [] \<or> (\<exists>r \<in> set rs. Contains r (mDSCP m)))"
| "denote e (InName ns a pl) m = (mInName m \<in> set ns)"
| "denote e (InUser us a pl) m = (mInUser m \<in> set us)"
| "denote e (InType ts a pl) m = (mType m \<in> set ts)"
| "denote e (NetworkType n a) m = (mNetWork m = n)"
| "denote e (FinalMatch a) m = True"
| "denote e (Logic pl a rt rs) m =
     (if rt = RT_NOT then \<not> (case rs of [] \<Rightarrow> True | r # _ \<Rightarrow> denote e r m)
      else if rt = RT_OR then (\<exists>r \<in> set rs. denote e r m)
      else if rt = RT_AND then (\<forall>r \<in> set rs. denote e r m)
      else False)"
| "denote e _ m = False"

fun pure_rule :: "rule \<Rightarrow> bool" where
  "pure_rule (IPCIDR p a src nr) = (src \<or> nr)"
| "pure_rule (GEOIP c a nr src) = False"
| "pure_rule (ASN n a nr src) = False"
| "pure_rule (IPSuffix bs n pl a src nr) = False"
| "pure_rule (Uid us ou a) = False"
| "pure_rule (Process p a rt) = False"
| "pure_rule (RuleSet n a src nr) = False"
| "pure_rule (Logic pl a rt rs) =
     ((rt = RT_AND \<or> rt = RT_OR \<or> (rt = RT_NOT \<and> length rs = 1)) \<and> list_all pure_rule rs)"
| "pure_rule _ = True"

lemma Match_iff_glob: "Match p s = Some True \<longleftrightarrow> glob p s"
  by (simp add: Match_glob)

lemma suffix_match_labels:
  "(has_suffix host (CHR ''.'' # s) \<or> host = s) \<longleftrightarrow> suffix (split_on CHR ''.'' s) (split_on CHR ''.'' host)"
  using split_suffix_iff [of "CHR ''.''" host s] by (auto simp: has_suffix_iff suffix_def)

lemma InName_Match_set: "InName_Match ns a m = (if mInName m \<in> set ns then (True, a) else (False, []))"
  by (induction ns) auto

lemma InUser_Match_set: "InUser_Match us a m = (if mInUser m \<in> set us then (True, a) else (False, []))"
  by (induction us) auto

lemma InType_Match_set: "InType_Match ts a m = (if mType m \<in> set ts then (True, a) else (False, []))"
  by (induction ts) auto

lemma Check_set: "Check rs x \<longleftrightarrow> rs = [] \<or> (\<exists>r \<in> set rs. Contains r x)"
  by (auto simp: Check_def list_ex_iff)

lemma IsValid_WithZone [simp]: "IsValid (WithZone z a) = IsValid a"
  by (cases a) auto

lemmas leaf_matches =
  Domain_Match_def DomainSuffix_Match_def DomainKeyword_Match_def DomainRegex_Match_def
  DomainWildcard_Match_def GEOSITE_Match_def GEOSITE_MatchDomain_def Port_Match_def DSCP_Match_def
  InName_Match_set InUser_Match_set InType_Match_set NetworkType_Match_def Check_set Match_iff_glob Let_def
  suffix_match_labels str_contains_iff sublist_def

text \<open>A match that agrees with the reading, leaves the state alone and names the rule's adapter.\<close>

definition faithful :: "env \<Rightarrow> rule \<Rightarrow> 's mstate \<Rightarrow> ('s, bool \<times> string) mresult \<Rightarrow> bool" where
  "faithful e r st res =
     (\<exists>a. res = Inr ((denote e r (fst st), a), st) \<and> (denote e r (fst st) \<longrightarrow> a = Adapter r))"

lemma faithful_any:
  assumes "\<And>r. r \<in> set rs \<Longrightarrow> faithful e r st (rule_Match fuel e r h st)"
  shows "any_match fuel e rs h st = Inr ((\<exists>r \<in> set rs. denote e r (fst st)), st)"
  using assms
proof (induction rs)
  case (Cons r rs)
  from Cons.prems obtain a where "rule_Match fuel e r h st = Inr ((denote e r (fst st), a), st)"
    by (auto simp: faithful_def)
  with Cons show ?case by (simp add: match_simps)
qed (simp add: match_simps)

lemma faithful_all:
  assumes "\<And>r. r \<in> set rs \<Longrightarrow> faithful e r st (rule_Match fuel e r h st)"
  shows "all_match fuel e rs h st = Inr ((\<forall>r \<in> set rs. denote e r (fst st)), st)"
  using assms
proof (induction rs)
  case (Cons r rs)
  from Cons.prems obtain a where "rule_Match fuel e r h st = Inr ((denote e r (fst st), a), st)"
    by (auto simp: faithful_def)
  with Cons show ?case by (simp add: match_simps)
qed (simp add: match_simps)

lemma pure_faithful: "pure_rule r \<Longrightarrow> faithful e r st (rule_Match fuel e r h st)"
proof (induction r)
  case (GEOSITE c a)
  then show ?case
    by (auto simp: match_simps faithful_def leaf_matches split: option.splits)
next
  case (IPCIDR p a src nr)
  then show ?case
    using prefix_contains_IsValid [of p "WithZone [] (rule_ip src (fst st))"]
    by (auto simp: match_simps faithful_def IPCIDR_Match_def resolve_first_def Let_def)
next
  case (Logic pl a rt rs)
  have ih: "\<And>r. r \<in> set rs \<Longrightarrow> faithful e r st (rule_Match fuel e r h st)"
    using Logic by (auto simp: list_all_iff)
  consider "rt = RT_AND" | "rt = RT_OR" | r where "rt = RT_NOT" "rs = [r]"
    using Logic.prems by (auto simp: length_Suc_conv)
  then show ?case
  proof cases
    case 1
    then show ?thesis by (simp add: match_simps faithful_def faithful_all [OF ih])
  next
    case 2
    then show ?thesis by (simp add: match_simps faithful_def faithful_any [OF ih])
  next
    case 3
    then show ?thesis using ih by (auto simp: match_simps faithful_def)
  qed
qed (auto simp: match_simps faithful_def leaf_matches)

section \<open>IP-SUFFIX\<close>

lemma take_bit_agree:
  fixes v w :: "'w::len word"
  shows "take_bit n v = take_bit n w \<longleftrightarrow> (\<forall>i < n. bit v i = bit w i)"
  by (auto simp: bit_eq_iff bit_take_bit_iff dest: bit_imp_le_length)

lemma byte_agree:
  fixes v w :: "'w::len word"
  shows "(ucast (drop_bit k v) :: 8 word) = ucast (drop_bit k w) \<longleftrightarrow>
    (\<forall>i < 8. bit v (k + i) = bit w (k + i))"
  by (auto simp: bit_eq_iff bit_simps possible_bit_def add.commute)

lemma high_bits_agree:
  fixes x y :: "8 word"
  assumes "r \<le> 8"
  shows "push_bit (8 - r) x = push_bit (8 - r) y \<longleftrightarrow> (\<forall>i < r. bit x i = bit y i)"
proof
  assume eq: "push_bit (8 - r) x = push_bit (8 - r) y"
  show "\<forall>i < r. bit x i = bit y i"
  proof (intro allI impI)
    fix i assume "i < r"
    moreover have "bit (push_bit (8 - r) x) (8 - r + i) = bit (push_bit (8 - r) y) (8 - r + i)"
      using eq by simp
    moreover have "8 - r \<le> 8 + i - r \<and> 8 + i - r < 8" using \<open>i < r\<close> assms by linarith
    ultimately show "bit x i = bit y i" using assms by (simp add: bit_simps possible_bit_def)
  qed
next
  assume "\<forall>i < r. bit x i = bit y i"
  with assms show "push_bit (8 - r) x = push_bit (8 - r) y"
    by (auto simp: bit_eq_iff bit_simps possible_bit_def)
qed

lemma be_bytes_nth: "k < n \<Longrightarrow> be_bytes n w ! (n - Suc k) = ucast (drop_bit (8 * k) w)"
  by (simp add: be_bytes_def rev_nth)

lemma all_less_add: "(\<forall>i < a + (b :: nat). P i) \<longleftrightarrow> (\<forall>i < a. P i) \<and> (\<forall>i < b. P (a + i))"
  by (metis add_less_cancel_left le_Suc_ex not_less trans_less_add1)

lemma suffix_bytes_agree:
  fixes v w :: "'w::len word"
  shows "k \<le> n \<Longrightarrow>
    suffix_bytes (be_bytes n v) (be_bytes n w) k = Inr (take_bit (8 * k) v = take_bit (8 * k) w)"
proof (induction k)
  case (Suc k)
  have "take_bit (8 * Suc k) v = take_bit (8 * Suc k) w \<longleftrightarrow>
    (ucast (drop_bit (8 * k) v) :: 8 word) = ucast (drop_bit (8 * k) w) \<and>
    take_bit (8 * k) v = take_bit (8 * k) w"
    using all_less_add [of "8 * k" 8 "\<lambda>i. bit v i = bit w i"]
    by (auto simp: take_bit_agree byte_agree)
  with Suc show ?case by (auto simp: be_bytes_nth Let_def)
qed simp

lemma suffix_match_be_bytes:
  fixes v w :: "'w::len word"
  assumes "bits \<le> 8 * n"
  shows "suffix_match (be_bytes n v) bits (be_bytes n w) =
    (if take_bit (8 * (bits div 8)) v = take_bit (8 * (bits div 8)) w
     then if bits = 8 * n then Inl IndexOutOfRange else Inr (take_bit bits v = take_bit bits w)
     else Inr False)"
proof -
  let ?k = "bits div 8" and ?r = "bits mod 8"
  have k: "?k \<le> n" using assms by simp
  have split: "take_bit bits v = take_bit bits w \<longleftrightarrow>
    take_bit (8 * ?k) v = take_bit (8 * ?k) w \<and> (\<forall>i < ?r. bit v (8 * ?k + i) = bit w (8 * ?k + i))"
    using all_less_add [of "8 * ?k" ?r "\<lambda>i. bit v i = bit w i"] by (simp add: take_bit_agree)
  show ?thesis
  proof (cases "?k = n")
    case True
    then have "bits = 8 * n" using assms by presburger
    with k True show ?thesis by (simp add: suffix_match_def suffix_bytes_agree)
  next
    case False
    then have lt: "?k < n" and ne: "bits \<noteq> 8 * n" using k by auto
    have "push_bit (8 - ?r) (be_bytes n v ! (n - Suc ?k)) = push_bit (8 - ?r) (be_bytes n w ! (n - Suc ?k))
      \<longleftrightarrow> (\<forall>i < ?r. bit v (8 * ?k + i) = bit w (8 * ?k + i))"
      using lt high_bits_agree [of ?r] by (auto simp: be_bytes_nth bit_simps possible_bit_def add.commute)
    with lt ne show ?thesis by (auto simp: suffix_match_def suffix_bytes_agree split Let_def)
  qed
qed

text \<open>Two addresses of one family that agree on their last \<open>n\<close> bits, and the address length.\<close>

fun same_suffix :: "nat \<Rightarrow> addr \<Rightarrow> addr \<Rightarrow> bool" where
  "same_suffix n (V4 v) (V4 w) = (take_bit n v = take_bit n w)"
| "same_suffix n (V6 v z) (V6 w z') = (take_bit n v = take_bit n w)"
| "same_suffix n a b = False"

fun addr_bits :: "addr \<Rightarrow> nat" where
  "addr_bits NoAddr = 0"
| "addr_bits (V4 _) = 32"
| "addr_bits (V6 _ _) = 128"

lemma take_bit_whole_bytes:
  fixes v w :: "'w::len word"
  shows "take_bit bits v = take_bit bits w \<Longrightarrow> take_bit (8 * (bits div 8)) v = take_bit (8 * (bits div 8)) w"
  by (auto simp: take_bit_agree)

lemma suffix_match_addr:
  assumes "IsValid ip0" "bits < addr_bits ip0"
  shows "suffix_match (AsSlice ip0) bits (AsSlice ip) = Inr (same_suffix bits ip0 ip)"
proof (cases "(bits, ip0, ip)" rule: same_suffix.cases)
  case (1 n v w)
  with assms show ?thesis
    using suffix_match_be_bytes [of bits 4 v w] take_bit_whole_bytes [of bits v w] by auto
next
  case (2 n v z w z')
  with assms show ?thesis
    using suffix_match_be_bytes [of bits 16 v w] take_bit_whole_bytes [of bits v w] by auto
qed (use assms AsSlice_Nil_iff [of ip0] in \<open>auto simp: suffix_match_def\<close>)

lemma suffix_match_full:
  assumes "IsValid ip0"
  shows "suffix_match (AsSlice ip0) (addr_bits ip0) (AsSlice ip) =
    (if same_suffix (addr_bits ip0) ip0 ip then Inl IndexOutOfRange else Inr False)"
proof (cases "(addr_bits ip0, ip0, ip)" rule: same_suffix.cases)
  case (1 n v w)
  then show ?thesis using suffix_match_be_bytes [of 32 4 v w] by simp
next
  case (2 n v z w z')
  then show ?thesis using suffix_match_be_bytes [of 128 16 v w] by simp
qed (use assms AsSlice_Nil_iff [of ip0] in \<open>auto simp: suffix_match_def\<close>)

section \<open>Rule sets that contain themselves\<close>

lemma self_set_diverges:
  assumes "RuleProviders e n = Some (Some (ClassicalStrategy [Logic pl a' RT_AND [RuleSet n a2 False nr2]]))"
  shows "rule_Match fuel e (RuleSet n a False nr) h st = Inl OutOfFuel"
proof (induction fuel arbitrary: a nr h)
  case (Suc fuel)
  from Suc [of a2 nr2] assms show ?case by (simp add: match_simps)
qed (simp add: assms match_simps)

section \<open>Properties\<close>



text \<open>
  An IP-SUFFIX rule for fewer bits than the address has matches exactly the addresses of the
  same family whose last bits are those of the rule; an invalid address never matches.
\<close>

lemma IPSuffix_decides_low_bits:
  assumes "IsValid ip0" "bits < addr_bits ip0"
  shows "rule_Match fuel e (IPSuffix (AsSlice ip0) bits pl a src nr) h st =
    (let st' = resolve_first nr src h st in
     Inr (if same_suffix bits ip0 (rule_ip src (fst st')) then (True, a) else (False, []), st'))"
  by (simp add: match_simps IPSuffix_Match_def suffix_match_addr [OF assms] Let_def)

lemma IPSuffix_decides_low_bits_witness:
  "rule_Match 0 emptyEnv (IPSuffix (AsSlice (V4 0x00000801)) 16 ''0.0.8.1/16'' ''DIRECT'' True True) emptyHelper
     (zeroMetadata\<lparr>mSrcIP := V4 0xc0a80801\<rparr>, ()) =
   Inr ((True, ''DIRECT''), (zeroMetadata\<lparr>mSrcIP := V4 0xc0a80801\<rparr>, ()))"
  using IPSuffix_decides_low_bits [of "V4 0x00000801" 16 0 emptyEnv "''0.0.8.1/16''" "''DIRECT''" True True
      emptyHelper "(zeroMetadata\<lparr>mSrcIP := V4 0xc0a80801\<rparr>, ())"]
  by (simp add: resolve_first_def rule_ip_def)

text \<open>
  An IP-SUFFIX rule that gives every bit of an address (\<open>1.2.3.4/32\<close>, which the constructor
  accepts) ends a match against that very address in the run-time panic of an index out of range.
\<close>

lemma IPSuffix_full_length_panics:
  assumes "IsValid ip0" "rule_ip src (fst (resolve_first nr src h st)) = ip0"
  shows "rule_Match fuel e (IPSuffix (AsSlice ip0) (addr_bits ip0) pl a src nr) h st = Inl IndexOutOfRange"
proof -
  have "same_suffix (addr_bits ip0) ip0 ip0" using assms(1) by (cases ip0) auto
  then show ?thesis
    using assms by (simp add: match_simps IPSuffix_Match_def suffix_match_full Let_def)
qed

lemma IPSuffix_full_length_panics_witness:
  "rule_Match 0 emptyEnv (IPSuffix (AsSlice (V4 0x01020304)) 32 ''1.2.3.4/32'' ''DIRECT'' True True) emptyHelper
     (zeroMetadata\<lparr>mSrcIP := V4 0x01020304\<rparr>, ()) = Inl IndexOutOfRange"
  using IPSuffix_full_length_panics [of "V4 0x01020304" True True emptyHelper
      "(zeroMetadata\<lparr>mSrcIP := V4 0x01020304\<rparr>, ())" 0 emptyEnv]
  by (simp add: resolve_first_def rule_ip_def)

text \<open>
  A classical rule set with an AND rule over a RULE-SET rule that names the same set never
  finishes a match, whatever fuel it is given: only a RULE-SET at the top of a classical set is
  refused when the set is read.
\<close>

lemma self_rule_set_never_ends:
  assumes "RuleProviders e n = Some (Some (ClassicalStrategy [Logic pl a' RT_AND [RuleSet n a2 False nr2]]))"
  shows "\<forall>fuel. rule_Match fuel e (RuleSet n a False nr) h st = Inl OutOfFuel"
  using self_set_diverges [OF assms] by blast

lemma self_rule_set_never_ends_witness:
  "\<exists>e. RuleProviders e ''loop'' = Some (Some (ClassicalStrategy [Logic [] [] RT_AND [RuleSet ''loop'' [] False False]])) \<and>
     (\<forall>fuel. rule_Match fuel e (RuleSet ''loop'' ''DIRECT'' False False) emptyHelper (zeroMetadata, ()) = Inl OutOfFuel)"
proof -
  let ?e = "emptyEnv\<lparr>RuleProviders := [''loop'' \<mapsto>
     Some (ClassicalStrategy [Logic [] [] RT_AND [RuleSet ''loop'' [] False False]])]\<rparr>"
  have "RuleProviders ?e ''loop'' = Some (Some (ClassicalStrategy [Logic [] [] RT_AND [RuleSet ''loop'' [] False False]]))"
    by simp
  with self_rule_set_never_ends [OF this] show ?thesis by blast
qed

end
