(* ===== verification/Hosts.thy ===== *)
theory Hosts
  imports Domain_Trie Netip_Text
begin

text \<open>
  \<open>component/resolver/host.go\<close> and \<open>parseHosts\<close> of \<open>config/config.go\<close>: the static hosts table, a
  domain trie whose values are addresses or another name.  Following names is a loop in the source
  and may not end, so it is a partial function: \<^const>\<open>None\<close> is a search that never returns.
\<close>

section \<open>Host values\<close>

record HostValue =
  IsDomain :: bool
  IPs :: "addr list"
  hDomain :: string

datatype host_error =
    ErrEmptyValue | ErrEmptyIPs | ErrBadAddr string | ErrInvalidHost | ErrValueType
  | ErrCycle string

definition NewHostValueByIPs :: "addr list \<Rightarrow> (host_error, HostValue) result" where
  "NewHostValueByIPs ips =
     (if length ips = 0 then Inl ErrEmptyIPs else Inr \<lparr>IsDomain = False, IPs = ips, hDomain = []\<rparr>)"

definition NewHostValueByDomain :: "string \<Rightarrow> (host_error, HostValue) result" where
  "NewHostValueByDomain domain0 =
     (let domain = trim_by (\<lambda>c. c = CHR ''.'') domain0; item = split_on CHR ''.'' domain in
      if length item < 2 then Inl ErrInvalidHost
      else Inr \<lparr>IsDomain = True, IPs = [], hDomain = domain\<rparr>)"

fun parse_ips :: "string list \<Rightarrow> (host_error, addr list) result" where
  "parse_ips [] = Inr []"
| "parse_ips (s # ss) =
     (case ParseAddr s of
        None \<Rightarrow> Inl (ErrBadAddr s)
      | Some ip \<Rightarrow> result_bind (parse_ips ss) (\<lambda>ips. Inr (Unmap ip # ips)))"

definition NewHostValue :: "string list \<Rightarrow> (host_error, HostValue) result" where
  "NewHostValue value =
     (case value of
        [] \<Rightarrow> Inl ErrEmptyValue
      | [host] \<Rightarrow>
          (case ParseAddr host of
             Some ip \<Rightarrow> NewHostValueByIPs [Unmap ip]
           | None \<Rightarrow> NewHostValueByDomain host)
      | _ \<Rightarrow> result_bind (parse_ips value) NewHostValueByIPs)"

text \<open>\<open>RandIP\<close> with the random index as an argument; \<open>IntN(n)\<close> gives a number below \<open>n\<close>.\<close>

definition RandIP :: "(nat \<Rightarrow> nat) \<Rightarrow> HostValue \<Rightarrow> (host_error, addr) result" where
  "RandIP intN hv =
     (if IsDomain hv then Inl ErrValueType
      else if IPs hv = [] then Inl ErrEmptyIPs
      else Inr (IPs hv ! (intN (length (IPs hv)) mod length (IPs hv))))"

section \<open>Searching\<close>

text \<open>\<open>Data\<close> of the node that a search finds.\<close>

abbreviation trie_get :: "HostValue node \<Rightarrow> string \<Rightarrow> HostValue option" where
  "trie_get tree d \<equiv> resultData (Search tree d)"

text \<open>The \<open>for\<close> loop of \<open>Hosts.Search\<close>.\<close>

partial_function (option) hosts_loop :: "HostValue node \<Rightarrow> bool \<Rightarrow> HostValue \<Rightarrow> HostValue option" where
  "hosts_loop tree isDomain hv =
     (if isDomain \<and> IsDomain hv then Some hv
      else
        (case trie_get tree (hDomain hv) of
           Some next_hv \<Rightarrow> hosts_loop tree isDomain next_hv
         | None \<Rightarrow> Some hv))"

record sys_hosts =
  DisableSystemHosts :: bool
  UseSystemHosts :: bool
  LookupStaticHost :: "string \<Rightarrow> string list"

text \<open>The found value, if any, and whether it is of the kind asked for; \<^const>\<open>None\<close>: no return.\<close>

definition Hosts_Search ::
  "sys_hosts \<Rightarrow> HostValue node \<Rightarrow> string \<Rightarrow> bool \<Rightarrow> (HostValue option \<times> bool) option" where
  "Hosts_Search sys tree domain isDomain =
     (case trie_get tree domain of
        Some hv \<Rightarrow>
          map_option (\<lambda>r. (Some r, isDomain = IsDomain r)) (hosts_loop tree isDomain hv)
      | None \<Rightarrow>
          Some (if \<not> isDomain \<and> \<not> DisableSystemHosts sys \<and> UseSystemHosts sys then
                  (case NewHostValue (LookupStaticHost sys domain) of
                     Inr hv \<Rightarrow> (Some hv, True)
                   | Inl _ \<Rightarrow> (None, False))
                else (None, False)))"

section \<open>Reading the table\<close>

text \<open>The cycle check: follow names from the new value until none is left or the new key is met.\<close>

partial_function (option) cycle_loop :: "HostValue node \<Rightarrow> string \<Rightarrow> HostValue option \<Rightarrow> bool option" where
  "cycle_loop tree domain nd =
     (case nd of
        None \<Rightarrow> Some False
      | Some hv \<Rightarrow>
          if \<not> IsDomain hv then Some False
          else if hDomain hv = domain then Some True
          else cycle_loop tree domain (trie_get tree (hDomain hv)))"

definition try_insert :: "string \<Rightarrow> HostValue \<Rightarrow> HostValue node \<Rightarrow> HostValue node" where
  "try_insert domain v tree = (case Insert domain v tree of Inl _ \<Rightarrow> tree | Inr t \<Rightarrow> t)"

text \<open>\<open>lan\<close> is replaced by the interface addresses, where they can be listed.\<close>

definition expand_lan :: "string list option \<Rightarrow> string list \<Rightarrow> string list" where
  "expand_lan ifaces hosts =
     (if hosts = [''lan''] then (case ifaces of None \<Rightarrow> hosts | Some l \<Rightarrow> l) else hosts)"

fun parse_entries ::
  "string list option \<Rightarrow> (string \<times> string list) list \<Rightarrow> HostValue node \<Rightarrow> (host_error, HostValue node) result option" where
  "parse_entries ifaces [] tree = Some (Inr tree)"
| "parse_entries ifaces ((domain, raw) # rest) tree =
     (case NewHostValue (expand_lan ifaces raw) of
        Inl err \<Rightarrow> Some (Inl err)
      | Inr value \<Rightarrow>
          (case (if IsDomain value then cycle_loop tree domain (trie_get tree (hDomain value)) else Some False) of
             None \<Rightarrow> None
           | Some True \<Rightarrow> Some (Inl (ErrCycle domain))
           | Some False \<Rightarrow> parse_entries ifaces rest (try_insert domain value tree)))"

definition parseHosts ::
  "string list option \<Rightarrow> (string \<times> string list) list \<Rightarrow> (host_error, HostValue node) result option" where
  "parseHosts ifaces hosts =
     (let tree = try_insert ''localhost'' \<lparr>IsDomain = False, IPs = [V4 0x7f000001], hDomain = []\<rparr> New in
      map_option (\<lambda>r. result_bind r (\<lambda>t. Inr (Optimize t))) (parse_entries ifaces hosts tree))"

section \<open>When a search returns\<close>

text \<open>The chain of values from a value, one trie search per step.\<close>

fun alias_chain :: "HostValue node \<Rightarrow> HostValue \<Rightarrow> nat \<Rightarrow> HostValue option" where
  "alias_chain tree hv 0 = Some hv"
| "alias_chain tree hv (Suc n) =
     (case trie_get tree (hDomain hv) of None \<Rightarrow> None | Some next_hv \<Rightarrow> alias_chain tree next_hv n)"

lemma chain_returns:
  "alias_chain tree hv n = None \<Longrightarrow> \<exists>r. hosts_loop tree False hv = Some r"
proof (induction n arbitrary: hv)
  case (Suc n)
  then show ?case
    by (cases "trie_get tree (hDomain hv)") (simp_all add: hosts_loop.simps [of tree False hv])
qed simp

lemma loop_result:
  "hosts_loop tree isDomain hv = Some r \<Longrightarrow>
   \<exists>n. alias_chain tree hv n = Some r \<and> (alias_chain tree hv (Suc n) = None \<or> isDomain)"
proof (induct rule: hosts_loop.raw_induct [rotated, consumes 1])
  case (1 loop tree isDomain hv r)
  show ?case
  proof (cases "isDomain \<and> IsDomain hv \<or> trie_get tree (hDomain hv) = None")
    case True
    then have "r = hv" "trie_get tree (hDomain hv) = None \<or> isDomain"
      using 1(2) by (auto split: if_splits)
    then have "alias_chain tree hv 0 = Some r \<and> (alias_chain tree hv (Suc 0) = None \<or> isDomain)"
      by (cases isDomain) simp_all
    then show ?thesis by blast
  next
    case False
    then obtain h' where h': "trie_get tree (hDomain hv) = Some h'" "loop tree isDomain h' = Some r"
      using 1(2) by (auto split: if_splits option.splits)
    from 1(1) [OF h'(2)] obtain n where
      "alias_chain tree h' n = Some r \<and> (alias_chain tree h' (Suc n) = None \<or> isDomain)" ..
    then have "alias_chain tree hv (Suc n) = Some r \<and> (alias_chain tree hv (Suc (Suc n)) = None \<or> isDomain)"
      by (simp add: h'(1))
    then show ?thesis by blast
  qed
qed

text \<open>A value read from a table: a list of addresses has no name.\<close>

definition table_value :: "HostValue \<Rightarrow> bool" where
  "table_value hv = (IsDomain hv \<or> hDomain hv = [])"

lemma Search_empty_name [simp]: "Search tree [] = None"
  by (simp add: Search_def ValidAndSplitDomain_def to_lower_def)

lemma resultData_None [simp]: "resultData None = None"
  by (simp add: resultData_def)

lemma loop_for_domain_returns:
  "table_value hv \<Longrightarrow> hosts_loop tree True hv = Some hv"
  by (subst hosts_loop.simps) (auto simp: table_value_def resultData_def)

lemma NewHostValue_table: "NewHostValue v = Inr hv \<Longrightarrow> table_value hv"
  by (auto simp: NewHostValue_def NewHostValueByIPs_def NewHostValueByDomain_def table_value_def Let_def
      result_bind_Inr_iff split: list.splits option.splits if_splits)

lemma loop_fixpoint_diverges:
  assumes "trie_get tree (hDomain hv) = Some hv"
  shows "hosts_loop tree False hv = None"
proof (rule ccontr)
  assume "hosts_loop tree False hv \<noteq> None"
  then obtain r where "hosts_loop tree False hv = Some r" by blast
  from loop_result [OF this] obtain n where "alias_chain tree hv (Suc n) = None" by auto
  moreover have "alias_chain tree hv k = Some hv" for k by (induction k) (auto simp: assms)
  ultimately show False by (metis option.distinct(1))
qed

section \<open>Properties\<close>

text \<open>
  C20.  A search of the hosts table for addresses returns exactly when the chain of names from the
  found entry ends after finitely many steps, and then the answer is the last value of the chain,
  reported as found exactly when it is a list of addresses.  A search for a name always returns,
  with the first value of the chain, when the table's values come from the configuration.
\<close>

lemma address_search:
  assumes "trie_get tree domain = Some hv"
  shows "Hosts_Search sys tree domain False = map_option (\<lambda>r. (Some r, \<not> IsDomain r)) (hosts_loop tree False hv)"
  using assms by (simp add: Hosts_Search_def)

theorem Hosts_Search_follows_chain:
  assumes "trie_get tree domain = Some hv"
  shows "(Hosts_Search sys tree domain False = None \<longleftrightarrow> (\<forall>n. alias_chain tree hv n \<noteq> None)) \<and>
    (\<forall>found ok. Hosts_Search sys tree domain False = Some (found, ok) \<longrightarrow>
      (\<exists>n r. found = Some r \<and> alias_chain tree hv n = Some r \<and> alias_chain tree hv (Suc n) = None \<and>
        ok = (\<not> IsDomain r))) \<and>
    (table_value hv \<longrightarrow> Hosts_Search sys tree domain True = Some (Some hv, IsDomain hv))"
proof (intro conjI)
  show "Hosts_Search sys tree domain False = None \<longleftrightarrow> (\<forall>n. alias_chain tree hv n \<noteq> None)"
  proof (cases "hosts_loop tree False hv")
    case None
    then have "alias_chain tree hv n \<noteq> None" for n using chain_returns [of tree hv n] by auto
    with None show ?thesis by (simp add: address_search [OF assms])
  next
    case (Some r)
    with loop_result [OF Some] obtain n where "alias_chain tree hv (Suc n) = None" by auto
    with Some show ?thesis by (auto simp: address_search [OF assms] simp del: alias_chain.simps)
  qed
  show "\<forall>found ok. Hosts_Search sys tree domain False = Some (found, ok) \<longrightarrow>
      (\<exists>n r. found = Some r \<and> alias_chain tree hv n = Some r \<and> alias_chain tree hv (Suc n) = None \<and>
        ok = (\<not> IsDomain r))"
    using loop_result by (fastforce simp: address_search [OF assms])
qed (use assms loop_for_domain_returns in \<open>simp add: Hosts_Search_def\<close>)

text \<open>A table with one alias into a list of addresses.\<close>

definition example_table :: "HostValue node" where
  "example_table =
     try_insert ''nas.lan'' \<lparr>IsDomain = False, IPs = [V4 0xc0a80002], hDomain = []\<rparr>
       (try_insert ''files.lan'' \<lparr>IsDomain = True, IPs = [], hDomain = ''nas.lan''\<rparr> New)"

lemmas table_eval =
  try_insert_def Insert_def insert_parts_def getOrNewChild_def New_def newNode_def
  ValidAndSplitDomain_def Search_def resultData_def nodeData_def isEmpty_def to_lower_def lower_char_def
  is_space_def domainStep_def complexWildcard_def dotWildcard_def wildcard_def Let_def

lemma example_table_get:
  "trie_get example_table ''files.lan'' = Some \<lparr>IsDomain = True, IPs = [], hDomain = ''nas.lan''\<rparr>"
  "trie_get example_table ''nas.lan'' = Some \<lparr>IsDomain = False, IPs = [V4 0xc0a80002], hDomain = []\<rparr>"
  by (simp_all add: example_table_def table_eval)

theorem Hosts_Search_follows_chain_witness:
  "Hosts_Search \<lparr>DisableSystemHosts = True, UseSystemHosts = False, LookupStaticHost = (\<lambda>_. [])\<rparr>
     example_table ''files.lan'' False \<noteq> None \<and>
   Hosts_Search \<lparr>DisableSystemHosts = True, UseSystemHosts = False, LookupStaticHost = (\<lambda>_. [])\<rparr>
     example_table ''files.lan'' True = Some (Some \<lparr>IsDomain = True, IPs = [], hDomain = ''nas.lan''\<rparr>, True)"
proof -
  have "alias_chain example_table \<lparr>IsDomain = True, IPs = [], hDomain = ''nas.lan''\<rparr> 2 = None"
    by (simp add: numeral_2_eq_2 example_table_get)
  then show ?thesis
    using Hosts_Search_follows_chain [OF example_table_get(1),
        of "\<lparr>DisableSystemHosts = True, UseSystemHosts = False, LookupStaticHost = (\<lambda>_. [])\<rparr>"]
    by (auto simp: table_value_def)
qed

section \<open>A name that leads to itself\<close>

definition localhost_table :: "HostValue node" where
  "localhost_table = try_insert ''localhost'' \<lparr>IsDomain = False, IPs = [V4 0x7f000001], hDomain = []\<rparr> New"

lemma wf_try_insert: "wf_node t \<Longrightarrow> wf_node (try_insert d v t)"
  by (auto simp: try_insert_def dest: wf_Insert split: sum.splits)

lemma wf_localhost_table: "wf_node localhost_table"
  by (simp add: localhost_table_def wf_try_insert New_def wf_newNode)

lemma wf_parse_entries: "wf_node t \<Longrightarrow> parse_entries ifaces es t = Some (Inr t') \<Longrightarrow> wf_node t'"
  by (induction es arbitrary: t) (auto split: sum.splits option.splits bool.splits, metis wf_try_insert)

lemma parse_entries_append:
  "parse_entries ifaces es t = Some (Inr t') \<Longrightarrow> parse_entries ifaces (es @ es') t = parse_entries ifaces es' t'"
  by (induction es arbitrary: t) (auto split: sum.splits option.splits bool.splits)

lemma trie_get_Optimize: "wf_node t \<Longrightarrow> trie_get (Optimize t) d = trie_get t d"
proof (cases "\<exists>parts. ValidAndSplitDomain d = Some parts \<and> hd parts \<noteq> []")
  case True
  then obtain parts where p: "ValidAndSplitDomain d = Some parts" "hd parts \<noteq> []" by blast
  assume wf: "wf_node t"
  then have "contents (optimize t) = contents t" by (auto simp: contents_optimize)
  with wf show ?thesis by (simp add: Optimize_def Search_resultData [OF _ p] wf_optimize)
next
  case False
  then have "Search t' d = None" for t' :: "HostValue node" by (intro Search_invalid) (metis option.exhaust)
  then show ?thesis by simp
qed

text \<open>A pattern covers a name when one of the paths it is stored under matches the labels of the name.\<close>

definition covers :: "string \<Rightarrow> string \<Rightarrow> bool" where
  "covers pattern name \<longleftrightarrow> (\<exists>parts p. ValidAndSplitDomain name = Some parts \<and> hd parts \<noteq> [] \<and>
     p \<in> stored_paths pattern \<and> pat_matches p (rev parts))"

text \<open>A pattern that covers a name nothing else covered gives the name its value.\<close>

lemma trie_get_try_insert:
  assumes "wf_node t" "covers pattern name" "trie_get t name = None"
  shows "trie_get (try_insert pattern v t) name = Some v"
proof -
  from assms(2) obtain parts p where parts: "ValidAndSplitDomain name = Some parts" "hd parts \<noteq> []"
    and p: "p \<in> stored_paths pattern" "pat_matches p (rev parts)" by (auto simp: covers_def)
  from p(1) obtain t' where t': "Insert pattern v t = Inr t'"
    by (auto simp: Insert_def stored_paths_def split: option.splits if_splits)
  let ?M = "contents t'"
  note M = Insert_contents [OF t']
  have none: "contents t q = None" if "pat_matches q (rev parts)" for q
    using assms(3) priority_search_complete [of "contents t" q _ "rev parts"] that
    by (cases "contents t q") (auto simp: Search_resultData [OF assms(1) parts])
  have "?M p = Some v" using p(1) M by simp
  from priority_search_complete [of ?M, OF this p(2)] obtain x where x: "priority_search ?M (rev parts) = Some x" by blast
  from priority_search_sound [OF x] none M have "x = v" by (auto split: if_splits)
  with x t' show ?thesis
    by (simp add: try_insert_def Search_resultData [OF wf_Insert [OF assms(1) t'] parts])
qed

lemma NewHostValue_not_lan: "NewHostValue [target] = Inr hv \<Longrightarrow> IsDomain hv \<Longrightarrow> target \<noteq> ''lan''"
  by (auto simp: NewHostValue_def NewHostValueByIPs_def NewHostValueByDomain_def trim_by_def Let_def split: option.splits if_splits)

text \<open>
  C21.  An alias that its own pattern covers, the name itself or a wildcard, is accepted by \<open>parseHosts\<close> after any
  accepted table in which the name has no value yet, because the cycle check runs before the entry is in the
  table; and afterwards a search for the addresses of the name never returns.
\<close>

theorem self_alias_accepted_and_search_diverges:
  assumes table: "parseHosts ifaces table = Some (Inr tree0)" "trie_get tree0 (hDomain hv) = None"
    and self: "NewHostValue [target] = Inr hv" "IsDomain hv" "covers pattern (hDomain hv)"
  shows "\<exists>tree. parseHosts ifaces (table @ [(pattern, [target])]) = Some (Inr tree) \<and>
     (\<forall>sys. Hosts_Search sys tree (hDomain hv) False = None)"
proof -
  from table(1) obtain t where t: "parse_entries ifaces table localhost_table = Some (Inr t)" "tree0 = Optimize t"
    by (auto simp: parseHosts_def localhost_table_def result_bind_Inr_iff)
  note wf = wf_parse_entries [OF wf_localhost_table t(1)]
  let ?t = "try_insert pattern hv t"
  have none: "trie_get t (hDomain hv) = None" using table(2) trie_get_Optimize [OF wf] by (simp add: t(2))
  have "expand_lan ifaces [target] = [target]" using NewHostValue_not_lan [OF self(1,2)] by (simp add: expand_lan_def)
  with self(1,2) none have "parse_entries ifaces [(pattern, [target])] t = Some (Inr ?t)" by (simp add: cycle_loop.simps)
  then have tree: "parseHosts ifaces (table @ [(pattern, [target])]) = Some (Inr (Optimize ?t))"
    using parse_entries_append [OF t(1)] by (simp add: parseHosts_def localhost_table_def)
  have "trie_get (Optimize ?t) (hDomain hv) = Some hv"
    using trie_get_Optimize [OF wf_try_insert [OF wf]] trie_get_try_insert [OF wf self(3) none] by simp
  then have "Hosts_Search sys (Optimize ?t) (hDomain hv) False = None" for sys
    using loop_fixpoint_diverges by (simp add: Hosts_Search_def)
  with tree show ?thesis by blast
qed

text \<open>Witness: every name below \<open>com\<close> is an alias for \<open>a.com\<close>.\<close>

theorem self_alias_accepted_and_search_diverges_witness:
  "\<exists>tree. parseHosts None [(''*.com'', [''a.com''])] = Some (Inr tree) \<and>
     (\<forall>sys. Hosts_Search sys tree ''a.com'' False = None)"
proof -
  let ?hv = "\<lparr>IsDomain = True, IPs = [], hDomain = ''a.com''\<rparr>"
  have "parseHosts None [] = Some (Inr (Optimize localhost_table))" by (simp add: parseHosts_def localhost_table_def)
  moreover have "trie_get (Optimize localhost_table) ''a.com'' = None"
    unfolding trie_get_Optimize [OF wf_localhost_table] by (simp add: localhost_table_def table_eval)
  moreover have "NewHostValue [''a.com''] = Inr ?hv"
    by (simp add: NewHostValue_def NewHostValueByDomain_def ParseAddr_def parseIPv4_def parseIPv4Fields_def trim_by_def)
  moreover have "covers ''*.com'' ''a.com''"
    by (simp add: covers_def stored_paths_def table_eval)
  ultimately show ?thesis
    using self_alias_accepted_and_search_diverges [of None "[]" _ ?hv "''a.com''" "''*.com''"] by simp
qed

end
