(* ===== verification/Tunnel.thy ===== *)
theory Tunnel
  imports Match_Frame Rule_Semantics Hosts
begin

text \<open>
  \<open>tunnel/tunnel.go\<close> and \<open>rules/wrapper/wrapper.go\<close>: how a connection finds its outbound proxy.  The
  package-level variables are the record \<open>tunnel\<close>; the functions that read them take it as an
  argument.  The resolver, the process lookup and the sniffer do input and output: their answers
  are fields of the record \<open>world\<close>.
\<close>

section \<open>rules/wrapper/wrapper.go\<close>

record RuleWrapper =
  w_rule :: rule
  w_disabled :: bool
  w_hitCount :: "64 word"
  w_hitAt :: int
  w_missCount :: "64 word"
  w_missAt :: int

definition NewRuleWrapper :: "rule \<Rightarrow> RuleWrapper" where
  "NewRuleWrapper r = \<lparr>w_rule = r, w_disabled = False, w_hitCount = 0, w_hitAt = 0, w_missCount = 0, w_missAt = 0\<rparr>"

definition SetDisabled :: "bool \<Rightarrow> RuleWrapper \<Rightarrow> RuleWrapper" where
  "SetDisabled v w = w\<lparr>w_disabled := v\<rparr>"

definition Hit :: "int \<Rightarrow> RuleWrapper \<Rightarrow> RuleWrapper" where
  "Hit now w = w\<lparr>w_hitCount := w_hitCount w + 1, w_hitAt := now\<rparr>"

definition Miss :: "int \<Rightarrow> RuleWrapper \<Rightarrow> RuleWrapper" where
  "Miss now w = w\<lparr>w_missCount := w_missCount w + 1, w_missAt := now\<rparr>"

definition Wrapper_Match ::
  "nat \<Rightarrow> env \<Rightarrow> int \<Rightarrow> RuleWrapper \<Rightarrow> 's RuleMatchHelper \<Rightarrow> 's mstate \<Rightarrow> (match_error, ((bool \<times> string) \<times> RuleWrapper) \<times> 's mstate) result" where
  "Wrapper_Match fuel e now w h st =
     (if w_disabled w then Inr (((False, []), w), st)
      else
        result_bind (rule_Match fuel e (w_rule w) h st) (\<lambda>((ok, adapter), st').
          Inr (((ok, adapter), if ok then Hit now w else Miss now w), st')))"

text \<open>Rules of the main list are wrapped, those of a named list are not.\<close>

datatype top_rule = Wrapped RuleWrapper | Bare rule

fun unwrap_rule :: "top_rule \<Rightarrow> rule" where
  "unwrap_rule (Wrapped w) = w_rule w"
| "unwrap_rule (Bare r) = r"

fun is_disabled :: "top_rule \<Rightarrow> bool" where
  "is_disabled (Wrapped w) = w_disabled w"
| "is_disabled (Bare r) = False"

fun top_Match ::
  "nat \<Rightarrow> env \<Rightarrow> int \<Rightarrow> top_rule \<Rightarrow> 's RuleMatchHelper \<Rightarrow> 's mstate \<Rightarrow> (match_error, ((bool \<times> string) \<times> top_rule) \<times> 's mstate) result" where
  "top_Match fuel e now (Wrapped w) h st =
     result_bind (Wrapper_Match fuel e now w h st) (\<lambda>((r, w'), st'). Inr ((r, Wrapped w'), st'))"
| "top_Match fuel e now (Bare r) h st =
     result_bind (rule_Match fuel e r h st) (\<lambda>(x, st'). Inr ((x, Bare r), st'))"

section \<open>Proxies\<close>

text \<open>
  What routing asks of a \<open>C.Proxy\<close>: its name and type, whether it carries UDP, and the proxy a group
  currently selects for a connection.  Groups are nested to a finite depth, which the configuration
  reader enforces by sorting them topologically.
\<close>

datatype proxy = Proxy
  (pName: string) (pType: AdapterType) (pSupportUDP: bool) (pUnwrap: "Metadata \<Rightarrow> proxy option")

text \<open>\<open>for a := adapter; a != nil; a = a.Unwrap(metadata, false)\<close> looking for a type.\<close>

primrec chain_has :: "AdapterType \<Rightarrow> Metadata \<Rightarrow> proxy \<Rightarrow> bool" where
  "chain_has t m (Proxy n ty u un) = (ty = t \<or> (map_option (chain_has t m) \<circ> un) m = Some True)"

section \<open>State\<close>

text \<open>The variables the helper's closures capture, with a log of the lookups they made.\<close>

record lookups =
  resolved :: bool
  attemptProcessLookup :: bool
  dnsLog :: "string list"
  processLog :: "(NetWork \<times> addr \<times> 16 word) list"

record world =
  lookupIP :: "string \<Rightarrow> addr option"
  findProcessName :: "string \<Rightarrow> addr \<Rightarrow> 16 word \<Rightarrow> (32 word \<times> string) option"
  findPackageName :: "Metadata \<Rightarrow> string option"
  CMFA :: bool
  MappingEnabled :: bool
  IsFakeIP :: "addr \<Rightarrow> bool"
  FindHostByIP :: "addr \<Rightarrow> string option"
  sysHosts :: sys_hosts
  intN :: "nat \<Rightarrow> nat"

record tunnel =
  t_status :: TunnelStatus
  t_mode :: TunnelMode
  t_findProcessMode :: FindProcessMode
  t_rules :: "top_rule list"
  t_proxies :: "string \<Rightarrow> proxy option"
  t_env :: env
  t_hosts :: "HostValue node"

datatype tunnel_error =
    ProxyNotFound string
  | FakeDNSRecordMissing addr
  | MatchPanic match_error

section \<open>Preparing the metadata\<close>

definition isHandle :: "tunnel \<Rightarrow> InboundType \<Rightarrow> bool" where
  "isHandle T t = (t_status T = Running \<or> (t_status T = Inner \<and> t = INNER))"

definition fixMetadata :: "Metadata \<Rightarrow> Metadata" where
  "fixMetadata m0 =
     (let m = m0\<lparr>mDstIP := Unmap (mDstIP m0)\<rparr> in
      case ParseAddr (mHost m) of
        Some ip \<Rightarrow> m\<lparr>mDstIP := Unmap ip, mHost := []\<rparr>
      | None \<Rightarrow> m)"

definition needLookupIP :: "world \<Rightarrow> Metadata \<Rightarrow> bool" where
  "needLookupIP W m = (MappingEnabled W \<and> mHost m = [] \<and> IsValid (mDstIP m))"

text \<open>\<open>metadata.DstIP, _ = node.RandIP()\<close>: the zero address on an error.\<close>

definition rand_or_zero :: "world \<Rightarrow> HostValue \<Rightarrow> addr" where
  "rand_or_zero W hv = (case RandIP (intN W) hv of Inl _ \<Rightarrow> NoAddr | Inr ip \<Rightarrow> ip)"

text \<open>\<^const>\<open>None\<close> is a hosts search that never returns.\<close>

definition preHandleMetadata :: "world \<Rightarrow> tunnel \<Rightarrow> Metadata \<Rightarrow> (tunnel_error, Metadata) result option" where
  "preHandleMetadata W T m =
     (if needLookupIP W m then
        (case FindHostByIP W (mDstIP m) of
           Some host \<Rightarrow>
             (let m1 = m\<lparr>mHost := host, mDNSMode := DNSMapping\<rparr> in
              if IsFakeIP W (mDstIP m1) then Some (Inr (m1\<lparr>mDstIP := NoAddr, mDNSMode := DNSFakeIP\<rparr>))
              else
                (case Hosts_Search (sysHosts W) (t_hosts T) host False of
                   None \<Rightarrow> None
                 | Some (Some hv, True) \<Rightarrow> Some (Inr (m1\<lparr>mDstIP := rand_or_zero W hv\<rparr>))
                 | Some (Some hv, False) \<Rightarrow>
                     Some (Inr (if IsDomain hv then m1\<lparr>mHost := hDomain hv\<rparr> else m1))
                 | Some (None, _) \<Rightarrow> Some (Inr m1)))
         | None \<Rightarrow>
             if IsFakeIP W (mDstIP m) then Some (Inl (FakeDNSRecordMissing (mDstIP m))) else Some (Inr m))
      else
        (case Hosts_Search (sysHosts W) (t_hosts T) (mHost m) True of
           None \<Rightarrow> None
         | Some (Some hv, True) \<Rightarrow> Some (Inr (m\<lparr>mHost := hDomain hv\<rparr>))
         | Some _ \<Rightarrow> Some (Inr m)))"

section \<open>The helper of a connection\<close>

definition resolve_closure :: "world \<Rightarrow> lookups mstate \<Rightarrow> lookups mstate" where
  "resolve_closure W st =
     (case st of (m, s) \<Rightarrow>
        if \<not> resolved s \<and> mHost m \<noteq> [] \<and> \<not> Resolved m then
          (case lookupIP W (mHost m) of None \<Rightarrow> m | Some ip \<Rightarrow> m\<lparr>mDstIP := ip\<rparr>,
           s\<lparr>resolved := True, dnsLog := dnsLog s @ [mHost m]\<rparr>)
        else (m, s))"

text \<open>\<open>filepath.Base\<close> with the separator of Unix.\<close>

definition filepath_Base :: "string \<Rightarrow> string" where
  "filepath_Base path =
     (if path = [] then ''.''
      else
        let p = rev (dropWhile (\<lambda>c. c = CHR ''/'') (rev path)) in
        if p = [] then ''/'' else last (split_on CHR ''/'' p))"

definition process_closure :: "world \<Rightarrow> lookups mstate \<Rightarrow> lookups mstate" where
  "process_closure W st =
     (case st of (m, s) \<Rightarrow>
        if attemptProcessLookup s then
          let s' = s\<lparr>attemptProcessLookup := False, processLog := processLog s @ [(mNetWork m, mSrcIP m, mSrcPort m)]\<rparr> in
          if \<not> CMFA W then
            (case findProcessName W (NetWork_String (mNetWork m)) (mSrcIP m) (mSrcPort m) of
               None \<Rightarrow> (m, s')
             | Some (uid, path) \<Rightarrow>
                 let m1 = m\<lparr>mProcess := filepath_Base path, mProcessPath := path, mUid := uid\<rparr> in
                 (case findPackageName W m1 of None \<Rightarrow> m1 | Some pkg \<Rightarrow> m1\<lparr>mProcess := pkg\<rparr>, s'))
          else (case findPackageName W m of None \<Rightarrow> m | Some pkg \<Rightarrow> m\<lparr>mProcess := pkg\<rparr>, s')
        else (m, s))"

definition passrule_closure :: "tunnel \<Rightarrow> Metadata \<Rightarrow> string \<Rightarrow> bool" where
  "passrule_closure T m adapterName =
     (case t_proxies T adapterName of None \<Rightarrow> False | Some a \<Rightarrow> chain_has AT_PassRule m a)"

definition full_helper :: "world \<Rightarrow> tunnel \<Rightarrow> lookups RuleMatchHelper" where
  "full_helper W T =
     \<lparr>ResolveIP = Some (resolve_closure W), FindProcess = Some (process_closure W),
      CheckPassRule = Some (passrule_closure T)\<rparr>"

section \<open>Matching\<close>

definition getRules :: "tunnel \<Rightarrow> Metadata \<Rightarrow> top_rule list" where
  "getRules T m =
     (case subRules (t_env T) (mSpecialRules m) of Some sr \<Rightarrow> map Bare sr | None \<Rightarrow> t_rules T)"

text \<open>A matched adapter is taken unless it is unknown, passes, or cannot carry a UDP connection.\<close>

definition usable :: "tunnel \<Rightarrow> Metadata \<Rightarrow> string \<Rightarrow> proxy option" where
  "usable T m ada =
     (case t_proxies T ada of
        None \<Rightarrow> None
      | Some adapter \<Rightarrow>
          if chain_has AT_Pass m adapter then None
          else if mNetWork m = UDP \<and> \<not> pSupportUDP adapter then None
          else Some adapter)"

record route =
  rt_proxy :: "proxy option"
  rt_rule :: "rule option"

text \<open>
  The loop of \<open>match\<close>.  \<open>clock i\<close> is the time read for the \<open>i\<close>-th rule; the result has the list with
  the updated hit counters.
\<close>

fun match_rules ::
  "nat \<Rightarrow> tunnel \<Rightarrow> (nat \<Rightarrow> int) \<Rightarrow> nat \<Rightarrow> top_rule list \<Rightarrow> 's RuleMatchHelper \<Rightarrow> 's mstate \<Rightarrow>
   (match_error, (route \<times> top_rule list) \<times> 's mstate) result" where
  "match_rules fuel T clock i [] h st =
     Inr ((\<lparr>rt_proxy = t_proxies T ''DIRECT'', rt_rule = None\<rparr>, []), st)"
| "match_rules fuel T clock i (r # rs) h st =
     result_bind (top_Match fuel (t_env T) (clock i) r h st) (\<lambda>(((matched, ada), r'), st1).
       case (if matched then usable T (fst st1) ada else None) of
         Some adapter \<Rightarrow>
           Inr ((\<lparr>rt_proxy = Some adapter, rt_rule = Some (unwrap_rule r)\<rparr>, r' # rs), st1)
       | None \<Rightarrow>
           result_bind (match_rules fuel T clock (Suc i) rs h st1) (\<lambda>((res, rs'), st2).
             Inr ((res, r' # rs'), st2)))"

definition match_conn ::
  "nat \<Rightarrow> tunnel \<Rightarrow> (nat \<Rightarrow> int) \<Rightarrow> 's RuleMatchHelper \<Rightarrow> 's mstate \<Rightarrow>
   (match_error, (route \<times> top_rule list) \<times> 's mstate) result" where
  "match_conn fuel T clock h st = match_rules fuel T clock 0 (getRules T (fst st)) h st"

text \<open>
  \<open>resolveMetadata\<close>.  The outer option is a hosts search that never returns; the result holds the
  route, the connection's metadata and the lookups made.
\<close>

definition start_state :: "Metadata \<Rightarrow> bool \<Rightarrow> lookups mstate" where
  "start_state m res =
     (m, \<lparr>resolved = res, attemptProcessLookup = (mType m \<noteq> INNER), dnsLog = [], processLog = []\<rparr>)"

text \<open>The hosts table is asked first; an address found there counts as resolved.\<close>

definition hosts_start :: "world \<Rightarrow> Metadata \<Rightarrow> HostValue option \<times> bool \<Rightarrow> lookups mstate" where
  "hosts_start W m found =
     (case found of
        (Some hv, True) \<Rightarrow> start_state (m\<lparr>mDstIP := rand_or_zero W hv\<rparr>) True
      | _ \<Rightarrow> start_state m False)"

text \<open>\<open>switch FindProcessMode()\<close>: look the process up now, on demand, or never.\<close>

definition process_mode ::
  "world \<Rightarrow> tunnel \<Rightarrow> lookups mstate \<Rightarrow> lookups RuleMatchHelper \<times> lookups mstate" where
  "process_mode W T st0 =
     (case t_findProcessMode T of
        FindProcessAlways \<Rightarrow> (full_helper W T\<lparr>FindProcess := None\<rparr>, process_closure W st0)
      | FindProcessOff \<Rightarrow> (full_helper W T\<lparr>FindProcess := None\<rparr>, st0)
      | FindProcessStrict \<Rightarrow> (full_helper W T, st0))"

definition route_mode ::
  "nat \<Rightarrow> tunnel \<Rightarrow> (nat \<Rightarrow> int) \<Rightarrow> lookups RuleMatchHelper \<times> lookups mstate \<Rightarrow> (tunnel_error, route \<times> lookups mstate) result" where
  "route_mode fuel T clock hst =
     (case t_mode T of
        Direct \<Rightarrow> Inr (\<lparr>rt_proxy = t_proxies T ''DIRECT'', rt_rule = None\<rparr>, snd hst)
      | Global \<Rightarrow> Inr (\<lparr>rt_proxy = t_proxies T ''GLOBAL'', rt_rule = None\<rparr>, snd hst)
      | Rule \<Rightarrow>
          (case match_conn fuel T clock (fst hst) (snd hst) of
             Inl err \<Rightarrow> Inl (MatchPanic err)
           | Inr ((res, _), st') \<Rightarrow> Inr (res, st')))"

definition resolveMetadata ::
  "nat \<Rightarrow> world \<Rightarrow> tunnel \<Rightarrow> (nat \<Rightarrow> int) \<Rightarrow> Metadata \<Rightarrow> (tunnel_error, route \<times> lookups mstate) result option" where
  "resolveMetadata fuel W T clock m =
     (if mSpecialProxy m \<noteq> [] then
        Some (case t_proxies T (mSpecialProxy m) of
                None \<Rightarrow> Inl (ProxyNotFound (mSpecialProxy m))
              | Some p \<Rightarrow> Inr (\<lparr>rt_proxy = Some p, rt_rule = None\<rparr>, start_state m False))
      else
        (case Hosts_Search (sysHosts W) (t_hosts T) (mHost m) False of
           None \<Rightarrow> None
         | Some found \<Rightarrow> Some (route_mode fuel T clock (process_mode W T (hosts_start W m found)))))"

section \<open>Retrying\<close>

datatype dial_error = ErrIPNotFound | ErrIPVersion | ErrIPv6Disabled | ErrReject | OtherDialError string

definition shouldStopRetry :: "dial_error \<Rightarrow> bool" where
  "shouldStopRetry err = (err \<in> {ErrIPNotFound, ErrIPVersion, ErrIPv6Disabled, ErrReject})"

text \<open>
  \<open>retry\<close>: \<open>ft i\<close> is the outcome of the \<open>i\<close>-th attempt and \<open>wait i\<close> says whether the pause after it
  ended without the context being cancelled.  The second component counts the attempts, the third
  collects the errors handed to \<open>fe\<close>.
\<close>

function retry_loop ::
  "(nat \<Rightarrow> (dial_error, 't) result) \<Rightarrow> (nat \<Rightarrow> bool) \<Rightarrow> nat \<Rightarrow> dial_error list \<Rightarrow> (dial_error, 't) result \<Rightarrow>
   (dial_error, 't) result \<times> nat \<times> dial_error list" where
  "retry_loop ft wait i errs last_res =
     (if i < 10 then
        (case ft i of
           Inr t \<Rightarrow> (Inr t, i + 1, errs)
         | Inl err \<Rightarrow>
             if shouldStopRetry err then (Inl err, i + 1, errs @ [err])
             else if wait i then retry_loop ft wait (i + 1) (errs @ [err]) (Inl err)
             else (Inl err, i + 1, errs @ [err]))
      else (last_res, i, errs))"
  by pat_completeness auto
termination
  by (relation "measure (\<lambda>(ft, wait, i, errs, r). 10 - i)") auto

declare retry_loop.simps [simp del]

definition retry ::
  "(nat \<Rightarrow> (dial_error, 't) result) \<Rightarrow> (nat \<Rightarrow> bool) \<Rightarrow> (dial_error, 't) result \<times> nat \<times> dial_error list" where
  "retry ft wait = retry_loop ft wait 0 [] (ft 0)"

section \<open>Handling a TCP connection up to the dial\<close>

text \<open>
  \<open>handleTCPConn\<close> until the outbound connection is dialled: what is refused, and with which proxy
  and which metadata the dial happens.  \<open>sniff\<close> is the sniffer's answer where sniffing is enabled.
\<close>

datatype tcp_outcome =
    NotHandled
  | NotValid
  | GiveUp
  | ResolveFailed tunnel_error
  | DialTCP "proxy option" "rule option" Metadata Metadata

definition dial_metadata :: "world \<Rightarrow> tunnel \<Rightarrow> Metadata \<Rightarrow> (Metadata \<times> Metadata) option" where
  "dial_metadata W T m =
     (if length (mHost m) > 0 then
        (case Hosts_Search (sysHosts W) (t_hosts T) (mHost m) False of
           None \<Rightarrow> None
         | Some (Some hv, True) \<Rightarrow>
             (let dstIp = rand_or_zero W hv in
              if \<not> IsFakeIP W dstIp then
                (let m' = m\<lparr>mDstIP := dstIp, mDNSMode := DNSHosts\<rparr> in Some (m', Pure m'))
              else Some (m, m))
         | Some _ \<Rightarrow> Some (m, m))
      else Some (m, m))"

definition handleTCPConn ::
  "nat \<Rightarrow> world \<Rightarrow> tunnel \<Rightarrow> (nat \<Rightarrow> int) \<Rightarrow> (Metadata \<Rightarrow> (bool \<times> Metadata) option) \<Rightarrow> Metadata \<Rightarrow> tcp_outcome option" where
  "handleTCPConn fuel W T clock sniff m0 =
     (if \<not> isHandle T (mType m0) then Some NotHandled
      else if \<not> Valid m0 then Some NotValid
      else
        let m1 = fixMetadata m0 in
        case preHandleMetadata W T m1 of
          None \<Rightarrow> None
        | Some pre \<Rightarrow>
            let (failed, m2) = (case pre of Inl _ \<Rightarrow> (True, m1) | Inr m \<Rightarrow> (False, m));
                (failed', m3) = (case sniff m2 of
                    Some (True, m) \<Rightarrow> (False, m) | Some (False, m) \<Rightarrow> (failed, m) | None \<Rightarrow> (failed, m2)) in
            if failed' then Some GiveUp
            else
              (case resolveMetadata fuel W T clock m3 of
                 None \<Rightarrow> None
               | Some (Inl err) \<Rightarrow> Some (ResolveFailed err)
               | Some (Inr (res, st)) \<Rightarrow>
                   map_option (\<lambda>(m, dial). DialTCP (rt_proxy res) (rt_rule res) m dial)
                     (dial_metadata W T (fst st))))"

section \<open>First match\<close>

text \<open>The declarative reading of a rule list without side effects: the first enabled rule that holds
  and whose adapter is usable, else \<open>DIRECT\<close>.\<close>

definition selects :: "tunnel \<Rightarrow> Metadata \<Rightarrow> top_rule \<Rightarrow> bool" where
  "selects T m r =
     (\<not> is_disabled r \<and> denote (t_env T) (unwrap_rule r) m \<and> usable T m (Adapter (unwrap_rule r)) \<noteq> None)"

definition route_of :: "tunnel \<Rightarrow> Metadata \<Rightarrow> top_rule option \<Rightarrow> route" where
  "route_of T m sel =
     (case sel of
        None \<Rightarrow> \<lparr>rt_proxy = t_proxies T ''DIRECT'', rt_rule = None\<rparr>
      | Some r \<Rightarrow> \<lparr>rt_proxy = t_proxies T (Adapter (unwrap_rule r)), rt_rule = Some (unwrap_rule r)\<rparr>)"

lemma usable_Some: "usable T m a = Some p \<Longrightarrow> t_proxies T a = Some p"
  by (auto simp: usable_def split: option.splits if_splits)

lemma top_Match_pure:
  assumes "pure_rule (unwrap_rule r)"
  shows "\<exists>a r'. top_Match fuel e now r h st = Inr (((\<not> is_disabled r \<and> denote e (unwrap_rule r) (fst st), a), r'), st) \<and>
    (\<not> is_disabled r \<and> denote e (unwrap_rule r) (fst st) \<longrightarrow> a = Adapter (unwrap_rule r))"
proof (cases r)
  case (Wrapped w)
  show ?thesis
  proof (cases "w_disabled w")
    case False
    then show ?thesis
      using pure_faithful [OF assms, of e st fuel h] Wrapped by (auto simp: Wrapper_Match_def faithful_def)
  qed (simp add: Wrapped Wrapper_Match_def)
next
  case (Bare q)
  then show ?thesis using pure_faithful [OF assms, of e st fuel h] by (auto simp: faithful_def)
qed

lemma match_rules_find:
  assumes "\<And>r. r \<in> set rs \<Longrightarrow> pure_rule (unwrap_rule r)"
  shows "\<exists>rs'. match_rules fuel T clock i rs h st = Inr ((route_of T (fst st) (find (selects T (fst st)) rs), rs'), st)"
  using assms
proof (induction rs arbitrary: i)
  case (Cons r rs)
  obtain a r' where m: "top_Match fuel (t_env T) (clock i) r h st =
      Inr (((\<not> is_disabled r \<and> denote (t_env T) (unwrap_rule r) (fst st), a), r'), st)"
    and a: "\<not> is_disabled r \<and> denote (t_env T) (unwrap_rule r) (fst st) \<longrightarrow> a = Adapter (unwrap_rule r)"
    using top_Match_pure [of r fuel "t_env T" "clock i" h st] Cons.prems by auto
  obtain rs' where rest: "match_rules fuel T clock (Suc i) rs h st =
      Inr ((route_of T (fst st) (find (selects T (fst st)) rs), rs'), st)"
    using Cons by fastforce
  show ?case
  proof (cases "selects T (fst st) r")
    case True
    then obtain p where "usable T (fst st) (Adapter (unwrap_rule r)) = Some p"
      by (auto simp: selects_def)
    with True m a show ?thesis
      by (auto simp: selects_def route_of_def usable_Some)
  next
    case False
    then have "(if \<not> is_disabled r \<and> denote (t_env T) (unwrap_rule r) (fst st) then usable T (fst st) a else None) = None"
      using a by (auto simp: selects_def)
    with False m rest show ?thesis by (simp only: match_rules.simps result_bind.simps) (simp add: False)
  qed
qed (simp add: route_of_def)

text \<open>
  For rules of any kind the state is threaded from rule to rule.  \<open>rule_passes\<close>: a rule is asked in a state, does not
  match or names no usable adapter, and leaves a state for the next rule.  \<open>run_to\<close>: the states of a run over the
  first \<open>k\<close> rules, all of which pass.
\<close>

definition rule_passes ::
  "nat \<Rightarrow> tunnel \<Rightarrow> int \<Rightarrow> 's RuleMatchHelper \<Rightarrow> top_rule \<Rightarrow> 's mstate \<Rightarrow> 's mstate \<Rightarrow> bool" where
  "rule_passes fuel T now h r st st1 \<longleftrightarrow>
     (\<exists>matched ada r'. top_Match fuel (t_env T) now r h st = Inr (((matched, ada), r'), st1) \<and>
        (matched \<longrightarrow> usable T (fst st1) ada = None))"

definition run_to ::
  "nat \<Rightarrow> tunnel \<Rightarrow> (nat \<Rightarrow> int) \<Rightarrow> 's RuleMatchHelper \<Rightarrow> top_rule list \<Rightarrow> nat \<Rightarrow> (nat \<Rightarrow> 's mstate) \<Rightarrow> bool" where
  "run_to fuel T clock h rs k ss \<longleftrightarrow>
     k \<le> length rs \<and> (\<forall>j < k. rule_passes fuel T (clock j) h (rs ! j) (ss j) (ss (Suc j)))"

definition outcome_at ::
  "nat \<Rightarrow> tunnel \<Rightarrow> (nat \<Rightarrow> int) \<Rightarrow> 's RuleMatchHelper \<Rightarrow> top_rule list \<Rightarrow> nat \<Rightarrow> 's mstate \<Rightarrow>
   (match_error, (route \<times> top_rule list) \<times> 's mstate) result \<Rightarrow> bool" where
  "outcome_at fuel T clock h rs k st out \<longleftrightarrow>
     (if k = length rs then \<exists>rs'. out = Inr ((\<lparr>rt_proxy = t_proxies T ''DIRECT'', rt_rule = None\<rparr>, rs'), st)
      else
        (case top_Match fuel (t_env T) (clock k) (rs ! k) h st of
           Inl err \<Rightarrow> out = Inl err
         | Inr (((matched, ada), r'), st1) \<Rightarrow>
             matched \<and> \<not> is_disabled (rs ! k) \<and>
             (\<exists>p rs'. usable T (fst st1) ada = Some p \<and>
                out = Inr ((\<lparr>rt_proxy = Some p, rt_rule = Some (unwrap_rule (rs ! k))\<rparr>, rs'), st1))))"

lemma disabled_no_match:
  assumes "top_Match fuel e now r h st = Inr (((True, ada), r'), st1)"
  shows "\<not> is_disabled r"
  using assms by (cases r) (auto simp: Wrapper_Match_def split: if_splits)

lemma run_to_Cons:
  assumes "rule_passes fuel T (clock 0) h r st st1" "run_to fuel T (\<lambda>j. clock (Suc j)) h rs k ss" "ss 0 = st1"
  shows "run_to fuel T clock h (r # rs) (Suc k) (\<lambda>j. case j of 0 \<Rightarrow> st | Suc i \<Rightarrow> ss i)"
  unfolding run_to_def
proof (intro conjI allI impI)
  fix j assume "j < Suc k"
  with assms show "rule_passes fuel T (clock j) h ((r # rs) ! j)
      (case j of 0 \<Rightarrow> st | Suc i \<Rightarrow> ss i) (case Suc j of 0 \<Rightarrow> st | Suc i \<Rightarrow> ss i)"
    by (cases j) (auto simp: run_to_def)
qed (use assms(2) in \<open>simp add: run_to_def\<close>)

lemma match_rules_shift: "match_rules fuel T clock (Suc i) rs h st = match_rules fuel T (\<lambda>j. clock (Suc j)) i rs h st"
  by (induction rs arbitrary: i st) (auto cong: option.case_cong)

lemma match_rules_runs:
  "\<exists>k ss. ss 0 = st \<and> run_to fuel T clock h rs k ss \<and> outcome_at fuel T clock h rs k (ss k) (match_rules fuel T clock 0 rs h st)"
proof (induction rs arbitrary: st clock)
  case Nil
  show ?case by (intro exI [of _ 0] exI [of _ "\<lambda>_. st"]) (simp add: run_to_def outcome_at_def)
next
  case (Cons r rs)
  let ?top = "top_Match fuel (t_env T) (clock 0) r h st"
  show ?case
  proof (cases "\<exists>st1. rule_passes fuel T (clock 0) h r st st1")
    case True
    then obtain matched ada r' st1 where top: "?top = Inr (((matched, ada), r'), st1)"
      and no: "(if matched then usable T (fst st1) ada else None) = None"
      and pass: "rule_passes fuel T (clock 0) h r st st1" by (auto simp: rule_passes_def)
    from Cons.IH [of st1 "\<lambda>j. clock (Suc j)"] obtain k ss where IH: "ss 0 = st1" "run_to fuel T (\<lambda>j. clock (Suc j)) h rs k ss"
      and out: "outcome_at fuel T (\<lambda>j. clock (Suc j)) h rs k (ss k) (match_rules fuel T clock 1 rs h st1)"
      by (auto simp: match_rules_shift)
    have "match_rules fuel T clock 0 (r # rs) h st =
        result_bind (match_rules fuel T clock 1 rs h st1) (\<lambda>((res, rs'), st2). Inr ((res, r' # rs'), st2))"
      using top no by simp
    with out have "outcome_at fuel T clock h (r # rs) (Suc k) (ss k) (match_rules fuel T clock 0 (r # rs) h st)"
      by (auto simp: outcome_at_def split: if_splits sum.splits prod.splits)
    with run_to_Cons [OF pass IH(2,1)] show ?thesis
      by (intro exI [of _ "Suc k"] exI [of _ "\<lambda>j. case j of 0 \<Rightarrow> st | Suc i \<Rightarrow> ss i"]) simp
  next
    case False
    then have "outcome_at fuel T clock h (r # rs) 0 st (match_rules fuel T clock 0 (r # rs) h st)"
      by (cases ?top) (auto simp: outcome_at_def rule_passes_def disabled_no_match split: prod.splits)
    then show ?thesis by (intro exI [of _ 0] exI [of _ "\<lambda>_. st"]) (simp add: run_to_def)
  qed
qed

section \<open>What routing may change\<close>

text \<open>
  The metadata without what a match is allowed to write: the destination address, the geo and ASN
  caches and the process fields.
\<close>

definition frame :: "Metadata \<Rightarrow> Metadata" where
  "frame m = m\<lparr>mDstIP := NoAddr, mSrcGeoIP := None, mDstGeoIP := None, mSrcIPASN := [], mDstIPASN := [],
     mProcess := [], mProcessPath := [], mUid := 0\<rparr>"

definition dns_step :: "string \<Rightarrow> lookups \<Rightarrow> lookups \<Rightarrow> bool" where
  "dns_step host s s' =
     ((resolved s' = resolved s \<and> dnsLog s' = dnsLog s) \<or>
      (\<not> resolved s \<and> resolved s' \<and> dnsLog s' = dnsLog s @ [host]))"

definition process_step :: "lookups \<Rightarrow> lookups \<Rightarrow> bool" where
  "process_step s s' =
     ((attemptProcessLookup s' = attemptProcessLookup s \<and> processLog s' = processLog s) \<or>
      (attemptProcessLookup s \<and> \<not> attemptProcessLookup s' \<and> (\<exists>x. processLog s' = processLog s @ [x])))"

definition lookup_rel :: "bool \<Rightarrow> lookups mstate \<Rightarrow> lookups mstate \<Rightarrow> bool" where
  "lookup_rel b st st' =
     (frame (fst st) = frame (fst st') \<and>
      (mDstIP (fst st') = mDstIP (fst st) \<or> (b \<and> \<not> IsValid (mDstIP (fst st)))) \<and>
      dns_step (mHost (fst st)) (snd st) (snd st') \<and>
      (\<not> b \<longrightarrow> resolved (snd st') = resolved (snd st)) \<and>
      process_step (snd st) (snd st'))"

lemma mHost_frame: "mHost (frame m) = mHost m"
  by (simp add: frame_def)

lemma frame_host: "frame m = frame m' \<Longrightarrow> mHost m = mHost m'"
  using mHost_frame by metis

lemma dns_step_trans: "dns_step h s1 s2 \<Longrightarrow> dns_step h s2 s3 \<Longrightarrow> dns_step h s1 s3"
  by (auto simp: dns_step_def)

lemma process_step_trans: "process_step s1 s2 \<Longrightarrow> process_step s2 s3 \<Longrightarrow> process_step s1 s3"
  by (auto simp: process_step_def)

lemma lookup_rel_trans:
  assumes "lookup_rel b st1 st2" "lookup_rel b st2 st3"
  shows "lookup_rel b st1 st3"
proof -
  have f: "frame (fst st1) = frame (fst st2)" "frame (fst st2) = frame (fst st3)"
    and d: "dns_step (mHost (fst st1)) (snd st1) (snd st2)" "dns_step (mHost (fst st2)) (snd st2) (snd st3)"
    and p: "process_step (snd st1) (snd st2)" "process_step (snd st2) (snd st3)"
    and i: "mDstIP (fst st2) = mDstIP (fst st1) \<or> (b \<and> \<not> IsValid (mDstIP (fst st1)))"
      "mDstIP (fst st3) = mDstIP (fst st2) \<or> (b \<and> \<not> IsValid (mDstIP (fst st2)))"
    and r: "\<not> b \<longrightarrow> resolved (snd st2) = resolved (snd st1)" "\<not> b \<longrightarrow> resolved (snd st3) = resolved (snd st2)"
    using assms unfolding lookup_rel_def by blast+
  have "dns_step (mHost (fst st1)) (snd st1) (snd st3)"
    using dns_step_trans [OF d(1)] d(2) frame_host [OF f(1)] by simp
  moreover have "process_step (snd st1) (snd st3)" using p by (rule process_step_trans)
  moreover have "mDstIP (fst st3) = mDstIP (fst st1) \<or> (b \<and> \<not> IsValid (mDstIP (fst st1)))" using i by auto
  ultimately show ?thesis using f r unfolding lookup_rel_def by simp
qed

lemma frame_swap:
  "frame (SwapSrcDst a) = frame b \<Longrightarrow> mDstIP b = mDstIP (SwapSrcDst a) \<Longrightarrow>
   frame a = frame (SwapSrcDst b) \<and> mDstIP (SwapSrcDst b) = mDstIP a"
  by (cases a; cases b) (simp add: frame_def SwapSrcDst_def)

interpretation lookups_frame: match_rel lookup_rel
proof
  show "lookup_rel b st st" for b st
    by (simp add: lookup_rel_def dns_step_def process_step_def)
  show "lookup_rel b st1 st3" if "lookup_rel b st1 st2" "lookup_rel b st2 st3" for b st1 st2 st3
    using that by (rule lookup_rel_trans)
  show "lookup_rel b st1 st2" if "lookup_rel False st1 st2" for b st1 st2
    using that by (auto simp: lookup_rel_def)
  show "lookup_rel False (m, s) (set_geo_cache src c m, s)" for m s src c
    by (cases src) (simp_all add: lookup_rel_def frame_def set_geo_cache_def dns_step_def process_step_def)
  show "lookup_rel False (m, s) (set_asn src t m, s)" for m s src t
    by (cases src) (simp_all add: lookup_rel_def frame_def set_asn_def dns_step_def process_step_def)
  show "lookup_rel False st1 (swap_state st2)" if "lookup_rel False (swap_state st1) st2" for st1 st2
    using that frame_swap [of "fst st1" "fst st2"] by (auto simp: lookup_rel_def swap_state_def)
qed

lemma resolve_closure_rel: "lookup_rel True st (resolve_closure W st)"
  by (cases st) (auto simp: resolve_closure_def lookup_rel_def frame_def dns_step_def process_step_def
      Resolved_def split: option.splits)

lemma process_closure_rel: "lookup_rel False st (process_closure W st)"
  by (cases st) (auto simp: process_closure_def lookup_rel_def frame_def dns_step_def process_step_def Let_def
      split: option.splits)

lemma full_helper_good:
  "lookups_frame.good_helper (full_helper W T)"
  "lookups_frame.good_helper (full_helper W T\<lparr>FindProcess := None\<rparr>)"
  unfolding lookups_frame.good_helper_def full_helper_def
  using resolve_closure_rel process_closure_rel by auto

lemma top_Match_rel:
  assumes "lookups_frame.good_helper h" "top_Match fuel e now r h st = Inr (x, st')"
  shows "lookup_rel True st st'"
proof -
  have refl: "lookup_rel True st st" by (rule lookups_frame.R_refl)
  show ?thesis
  proof (cases r)
    case (Wrapped w)
    with assms(2) have "st' = st \<or> (\<exists>y. rule_Match fuel e (w_rule w) h st = Inr (y, st'))"
      by (auto simp: Wrapper_Match_def result_bind_Inr_iff split: if_splits)
    then show ?thesis
      using refl lookups_frame.match_in_rel_True [OF assms(1)] by blast
  next
    case (Bare q)
    with assms(2) obtain y where "rule_Match fuel e q h st = Inr (y, st')"
      by (auto simp: result_bind_Inr_iff)
    then show ?thesis by (rule lookups_frame.match_in_rel_True [OF assms(1)])
  qed
qed

lemma match_rules_rel:
  assumes "lookups_frame.good_helper h"
  shows "match_rules fuel T clock i rs h st = Inr (x, st') \<Longrightarrow> lookup_rel True st st'"
proof (induction rs arbitrary: i st x)
  case (Cons r rs)
  from Cons.prems obtain y st1 where t: "top_Match fuel (t_env T) (clock i) r h st = Inr (y, st1)"
    and "st' = st1 \<or> (\<exists>z. match_rules fuel T clock (Suc i) rs h st1 = Inr (z, st'))"
    by (fastforce simp: result_bind_Inr_iff split: option.splits if_splits)
  then show ?case using top_Match_rel [OF assms t] Cons.IH lookup_rel_trans by blast
qed (simp add: lookups_frame.R_refl)

lemma run_to_rel:
  assumes "lookups_frame.good_helper h" "run_to fuel T clock h rs k ss"
  shows "lookup_rel True (ss 0) (ss k)"
  using assms(2)
proof (induction k)
  case (Suc k)
  then have "run_to fuel T clock h rs k ss" "rule_passes fuel T (clock k) h (rs ! k) (ss k) (ss (Suc k))"
    by (auto simp: run_to_def)
  with Suc.IH top_Match_rel [OF assms(1)] lookup_rel_trans show ?case unfolding rule_passes_def by blast
qed (simp add: lookups_frame.R_refl)

lemma match_rules_usable:
  "match_rules fuel T clock i rs h st = Inr ((res, rs'), st') \<Longrightarrow> rt_rule res \<noteq> None \<Longrightarrow>
   \<exists>p ada. rt_proxy res = Some p \<and> usable T (fst st') ada = Some p"
proof (induction rs arbitrary: i st rs')
  case (Cons r rs)
  obtain m ada r' st1 where t: "top_Match fuel (t_env T) (clock i) r h st = Inr (((m, ada), r'), st1)"
    using Cons.prems(1) by (auto simp: result_bind_Inr_iff)
  show ?case
  proof (cases "if m then usable T (fst st1) ada else None")
    case None
    with Cons.prems(1) t obtain rs2 where "match_rules fuel T clock (Suc i) rs h st1 = Inr ((res, rs2), st')"
      by (auto simp: result_bind_Inr_iff)
    then show ?thesis using Cons by blast
  next
    case (Some p)
    with Cons.prems(1) t show ?thesis by (auto split: if_splits)
  qed
qed auto

lemma usable_iff:
  "usable T m ada = Some p \<longleftrightarrow>
   t_proxies T ada = Some p \<and> \<not> chain_has AT_Pass m p \<and> (mNetWork m = UDP \<longrightarrow> pSupportUDP p)"
  by (auto simp: usable_def split: option.splits)

lemma process_closure_step:
  "process_step (snd st) (snd (process_closure W st)) \<and> dnsLog (snd (process_closure W st)) = dnsLog (snd st) \<and>
   resolved (snd (process_closure W st)) = resolved (snd st) \<and> frame (fst (process_closure W st)) = frame (fst st)"
  using process_closure_rel [of st W] by (auto simp: lookup_rel_def dns_step_def)

text \<open>A state reached from the start of a connection.\<close>

lemma lookups_once:
  assumes "lookup_rel True (start_state m b) st'"
  shows "(dnsLog (snd st') = [] \<or> (dnsLog (snd st') = [mHost m] \<and> \<not> b)) \<and> length (processLog (snd st')) \<le> 1 \<and>
    frame (fst st') = frame m"
  using assms by (auto simp: lookup_rel_def dns_step_def process_step_def start_state_def)

lemma hosts_start_frame: "\<exists>m0 b. hosts_start W m found = start_state m0 b \<and> frame m0 = frame m"
  by (auto simp: hosts_start_def frame_def split: prod.splits option.splits bool.splits)

lemma process_mode_rel:
  "lookups_frame.good_helper (fst (process_mode W T st))"
  "lookup_rel True st (snd (process_mode W T st))"
proof -
  have "lookup_rel True st (process_closure W st)"
    by (rule lookups_frame.R_weaken [OF process_closure_rel])
  then show "lookups_frame.good_helper (fst (process_mode W T st))" "lookup_rel True st (snd (process_mode W T st))"
    using full_helper_good lookups_frame.R_refl
    by (cases "t_findProcessMode T", simp_all add: process_mode_def)+
qed

lemma route_mode_rel:
  assumes "lookups_frame.good_helper (fst hst)" "route_mode fuel T clock hst = Inr (res, st')"
  shows "lookup_rel True (snd hst) st'"
proof -
  have "st' = snd hst \<or> (\<exists>x. match_rules fuel T clock 0 (getRules T (fst (snd hst))) (fst hst) (snd hst) = Inr (x, st'))"
    using assms(2) by (auto simp: route_mode_def match_conn_def split: TunnelMode.splits sum.splits)
  then show ?thesis using match_rules_rel [OF assms(1)] lookups_frame.R_refl by blast
qed

lemma resolveMetadata_state:
  assumes "resolveMetadata fuel W T clock m = Some (Inr (res, st'))"
  shows "\<exists>m0 b. frame m0 = frame m \<and> lookup_rel True (start_state m0 b) st'"
proof (cases "mSpecialProxy m \<noteq> []")
  case True
  with assms have "st' = start_state m False"
    by (auto simp: resolveMetadata_def split: option.splits)
  then show ?thesis using lookups_frame.R_refl by blast
next
  case False
  then obtain found where
    r: "route_mode fuel T clock (process_mode W T (hosts_start W m found)) = Inr (res, st')"
    using assms by (auto simp: resolveMetadata_def split: option.splits)
  have "lookup_rel True (hosts_start W m found) st'"
    using lookup_rel_trans [OF process_mode_rel(2) route_mode_rel [OF process_mode_rel(1) r]] .
  with hosts_start_frame [of W m found] show ?thesis by metis
qed

section \<open>Retrying ends and reports the last attempt\<close>

lemma retry_loop_spec:
  assumes "i < 10"
  shows "\<exists>n. i \<le> n \<and> n < 10 \<and> fst (retry_loop ft wait i errs r) = ft n \<and> fst (snd (retry_loop ft wait i errs r)) = n + 1 \<and>
    (\<forall>k. i \<le> k \<and> k < n \<longrightarrow> (\<exists>err. ft k = Inl err \<and> \<not> shouldStopRetry err) \<and> wait k) \<and>
    (\<forall>err. ft n = Inl err \<longrightarrow> n = 9 \<or> shouldStopRetry err \<or> \<not> wait n)"
  using assms
proof (induction "9 - i" arbitrary: i errs r)
  case 0
  then have i: "i = 9" by simp
  have "fst (retry_loop ft wait i errs r) = ft i \<and> fst (snd (retry_loop ft wait i errs r)) = i + 1"
    by (simp add: i retry_loop.simps [of ft wait 9] retry_loop.simps [of ft wait 10] split: sum.splits)
  with i show ?case by (intro exI [of _ i]) auto
next
  case (Suc d)
  show ?case
  proof (cases "\<exists>err. ft i = Inl err \<and> \<not> shouldStopRetry err \<and> wait i")
    case True
    then obtain err where e: "ft i = Inl err" "\<not> shouldStopRetry err" "wait i" by blast
    have eq: "retry_loop ft wait i errs r = retry_loop ft wait (i + 1) (errs @ [err]) (Inl err)"
      using Suc.prems e by (simp add: retry_loop.simps [of ft wait i])
    have "d = 9 - (i + 1)" "i + 1 < 10" using Suc.hyps(2) by auto
    from Suc.hyps(1) [OF this, of "errs @ [err]" "Inl err"] obtain n where n:
      "i + 1 \<le> n" "n < 10" "fst (retry_loop ft wait (i + 1) (errs @ [err]) (Inl err)) = ft n"
      "fst (snd (retry_loop ft wait (i + 1) (errs @ [err]) (Inl err))) = n + 1"
      "\<forall>k. i + 1 \<le> k \<and> k < n \<longrightarrow> (\<exists>err. ft k = Inl err \<and> \<not> shouldStopRetry err) \<and> wait k"
      "\<forall>err. ft n = Inl err \<longrightarrow> n = 9 \<or> shouldStopRetry err \<or> \<not> wait n" by blast
    have "\<forall>k. i \<le> k \<and> k < n \<longrightarrow> (\<exists>err. ft k = Inl err \<and> \<not> shouldStopRetry err) \<and> wait k"
      using n(5) e by (metis Suc_eq_plus1 le_antisym not_less_eq_eq)
    with n eq show ?thesis by (intro exI [of _ n]) simp
  next
    case False
    then have "fst (retry_loop ft wait i errs r) = ft i \<and> fst (snd (retry_loop ft wait i errs r)) = i + 1"
      using Suc.prems by (auto simp: retry_loop.simps [of ft wait i] split: sum.splits)
    with False Suc.prems show ?thesis by (intro exI [of _ i]) auto
  qed
qed

section \<open>Properties\<close>

text \<open>
  C22.  First match.  For rules of every kind, with lookups between them, \<open>match\<close> asks the rules in order, each in the
  state the one before it left.  It stops at the first enabled rule that matches and names a proxy that exists, does
  not pass and carries the connection's network, and returns that proxy and that rule; every rule before it was
  asked and did not match or named no usable proxy.  With no such rule it returns \<open>DIRECT\<close>; and it panics exactly
  where the next rule to ask does.  When the rules in force make no lookups, the rule is the first one of the
  list that is enabled, whose boolean reading holds for the connection and whose proxy is usable, and
  the connection's state is unchanged.
\<close>

theorem match_conn_first_match:
  "(\<exists>k ss. ss 0 = st \<and> run_to fuel T clock h (getRules T (fst st)) k ss \<and>
      outcome_at fuel T clock h (getRules T (fst st)) k (ss k) (match_conn fuel T clock h st)) \<and>
   ((\<forall>r \<in> set (getRules T (fst st)). pure_rule (unwrap_rule r)) \<longrightarrow>
      (\<exists>rs'. match_conn fuel T clock h st =
        Inr ((route_of T (fst st) (find (selects T (fst st)) (getRules T (fst st))), rs'), st)))"
  unfolding match_conn_def using match_rules_runs match_rules_find by blast

definition example_proxies :: "string \<Rightarrow> proxy option" where
  "example_proxies = map_of
     [(''DIRECT'', Proxy ''DIRECT'' AT_Direct True (\<lambda>_. None)),
      (''PASS'', Proxy ''PASS'' AT_Pass True (\<lambda>_. None)),
      (''web'', Proxy ''web'' AT_Http False (\<lambda>_. None))]"

definition example_tunnel :: tunnel where
  "example_tunnel =
     \<lparr>t_status = Running, t_mode = Rule, t_findProcessMode = FindProcessOff,
      t_rules = [Wrapped (NewRuleWrapper (DomainSuffix ''lan'' ''PASS'')),
                 Wrapped (SetDisabled True (NewRuleWrapper (FinalMatch ''DIRECT''))),
                 Wrapped (NewRuleWrapper (DomainSuffix ''example.com'' ''web''))],
      t_proxies = example_proxies, t_env = emptyEnv, t_hosts = New\<rparr>"

theorem match_conn_first_match_witness:
  "\<exists>rs'. match_conn 0 example_tunnel (\<lambda>_. 0) emptyHelper (zeroMetadata\<lparr>mHost := ''www.example.com''\<rparr>, ()) =
     Inr ((\<lparr>rt_proxy = example_proxies ''web'', rt_rule = Some (DomainSuffix ''example.com'' ''web'')\<rparr>, rs'),
       (zeroMetadata\<lparr>mHost := ''www.example.com''\<rparr>, ()))"
proof -
  let ?m = "zeroMetadata\<lparr>mHost := ''www.example.com''\<rparr>"
  have rules: "getRules example_tunnel ?m = t_rules example_tunnel"
    by (simp add: getRules_def example_tunnel_def emptyEnv_def)
  have "find (selects example_tunnel ?m) (t_rules example_tunnel) =
      Some (Wrapped (NewRuleWrapper (DomainSuffix ''example.com'' ''web'')))"
    by (simp add: example_tunnel_def selects_def SetDisabled_def NewRuleWrapper_def RuleHost_def zeroMetadata_def
        suffix_def usable_def example_proxies_def)
  moreover have "pure_rule (unwrap_rule r)" if "r \<in> set (t_rules example_tunnel)" for r
    using that by (auto simp: example_tunnel_def NewRuleWrapper_def SetDisabled_def)
  moreover have "t_proxies example_tunnel = example_proxies" by (simp add: example_tunnel_def)
  ultimately show ?thesis
    using match_conn_first_match [of "(?m, ())" 0 example_tunnel "\<lambda>_. 0" emptyHelper, THEN conjunct2]
    by (simp add: rules route_of_def) (simp add: NewRuleWrapper_def)
qed

text \<open>
  C23.  Routing a connection asks the resolver at most once, and only for the connection's own
  host; it looks the process up at most once; and it changes nothing in the metadata but the
  destination address, the geo and ASN caches and the process fields.  In particular a RULE-SET in
  source mode restores the source and the destination.  This holds for every rule list, every
  configuration and every answer of the outside world, whenever routing returns a route; and in a run
  that ends in a panic, or does not end, it holds after every rule that was asked before the last one.
\<close>

theorem routing_lookups_once:
  "(\<forall>res st'. resolveMetadata fuel W T clock m = Some (Inr (res, st')) \<longrightarrow>
      (dnsLog (snd st') = [] \<or> dnsLog (snd st') = [mHost m]) \<and> length (processLog (snd st')) \<le> 1 \<and> frame (fst st') = frame m) \<and>
   (\<forall>found h st k ss. Hosts_Search (sysHosts W) (t_hosts T) (mHost m) False = Some found \<longrightarrow>
      process_mode W T (hosts_start W m found) = (h, st) \<longrightarrow> ss 0 = st \<longrightarrow> run_to fuel T clock h (getRules T (fst st)) k ss \<longrightarrow>
      (dnsLog (snd (ss k)) = [] \<or> dnsLog (snd (ss k)) = [mHost m]) \<and> length (processLog (snd (ss k))) \<le> 1 \<and>
      frame (fst (ss k)) = frame m)"
proof -
  have start: "(dnsLog (snd st') = [] \<or> dnsLog (snd st') = [mHost m]) \<and> length (processLog (snd st')) \<le> 1 \<and> frame (fst st') = frame m"
    if "frame m0 = frame m" "lookup_rel True (start_state m0 b) st'" for m0 b st'
    using that lookups_once [of m0 b st'] frame_host [of m0 m] by auto
  have rules: "\<exists>m0 b. frame m0 = frame m \<and> lookup_rel True (start_state m0 b) (ss k)"
    if "process_mode W T (hosts_start W m found) = (h, ss 0)" "run_to fuel T clock h rs k ss" for found h ss rs k
    using process_mode_rel [where W = W and T = T and st = "hosts_start W m found"] that run_to_rel [of h] lookup_rel_trans hosts_start_frame [of W m found]
    by (metis fst_conv snd_conv)
  show ?thesis
  proof (rule conjI; intro allI impI)
    fix res st' assume "resolveMetadata fuel W T clock m = Some (Inr (res, st'))"
    from resolveMetadata_state [OF this] show "(dnsLog (snd st') = [] \<or> dnsLog (snd st') = [mHost m]) \<and>
        length (processLog (snd st')) \<le> 1 \<and> frame (fst st') = frame m"
      by (elim exE conjE) (rule start)
  next
    fix found h st k and ss :: "nat \<Rightarrow> lookups mstate"
    assume "process_mode W T (hosts_start W m found) = (h, st)" "ss 0 = st" "run_to fuel T clock h (getRules T (fst st)) k ss"
    then have "\<exists>m0 b. frame m0 = frame m \<and> lookup_rel True (start_state m0 b) (ss k)"
      by (intro rules [of found h ss "getRules T (fst st)" k]) simp_all
    then show "(dnsLog (snd (ss k)) = [] \<or> dnsLog (snd (ss k)) = [mHost m]) \<and>
        length (processLog (snd (ss k))) \<le> 1 \<and> frame (fst (ss k)) = frame m"
      by (elim exE conjE) (rule start)
  qed
qed

definition example_world :: world where
  "example_world =
     \<lparr>lookupIP = (\<lambda>_. Some (V4 1)), findProcessName = (\<lambda>_ _ _. None), findPackageName = (\<lambda>_. None), CMFA = True,
      MappingEnabled = False, IsFakeIP = (\<lambda>_. False), FindHostByIP = (\<lambda>_. None),
      sysHosts = \<lparr>DisableSystemHosts = True, UseSystemHosts = False, LookupStaticHost = (\<lambda>_. [])\<rparr>, intN = (\<lambda>_. 0)\<rparr>"

text \<open>Witness: a rule that needs the address of the host, with the process looked up for every connection.\<close>

theorem routing_lookups_once_witness:
  "\<exists>res st'. resolveMetadata 0 example_world
       (example_tunnel\<lparr>t_findProcessMode := FindProcessAlways, t_rules := [Bare (IPCIDR \<lparr>p_addr = V4 0, p_bits = 8\<rparr> ''web'' False False)]\<rparr>)
       (\<lambda>_. 0) (zeroMetadata\<lparr>mHost := ''a.com''\<rparr>) = Some (Inr (res, st')) \<and>
     mDstIP (fst st') = V4 1 \<and> dnsLog (snd st') = [''a.com''] \<and> length (processLog (snd st')) = 1 \<and>
     frame (fst st') = frame (zeroMetadata\<lparr>mHost := ''a.com''\<rparr>)"
proof -
  let ?T = "example_tunnel\<lparr>t_findProcessMode := FindProcessAlways, t_rules := [Bare (IPCIDR \<lparr>p_addr = V4 0, p_bits = 8\<rparr> ''web'' False False)]\<rparr>"
  let ?m = "zeroMetadata\<lparr>mHost := ''a.com''\<rparr>"
  have hosts: "Hosts_Search (sysHosts example_world) (t_hosts ?T) ''a.com'' False = Some (None, False)"
    by (simp add: Hosts_Search_def example_tunnel_def example_world_def table_eval)
  have start: "process_mode example_world ?T (hosts_start example_world ?m (None, False)) =
      (full_helper example_world ?T\<lparr>FindProcess := None\<rparr>, process_closure example_world (start_state ?m False))"
    by (simp add: process_mode_def hosts_start_def)
  have "\<exists>res st'. resolveMetadata 0 example_world ?T (\<lambda>_. 0) ?m = Some (Inr (res, st')) \<and> mDstIP (fst st') = V4 1 \<and>
      dnsLog (snd st') \<noteq> [] \<and> processLog (snd st') \<noteq> []"
    unfolding resolveMetadata_def using hosts start
    by (simp add: zeroMetadata_def example_world_def route_mode_def example_tunnel_def
        start_state_def process_closure_def full_helper_def match_conn_def getRules_def emptyEnv_def
        match_simps IPCIDR_Match_def resolve_first_def call_opt_def resolve_closure_def Resolved_def rule_ip_def
        usable_def example_proxies_def Let_def)
  then obtain res st' where run: "resolveMetadata 0 example_world ?T (\<lambda>_. 0) ?m = Some (Inr (res, st'))" "mDstIP (fst st') = V4 1"
    "dnsLog (snd st') \<noteq> []" "processLog (snd st') \<noteq> []" by blast
  from routing_lookups_once [of 0 example_world ?T "\<lambda>_. 0" ?m, THEN conjunct1, rule_format, OF run(1)]
  have "dnsLog (snd st') = [''a.com'']" "length (processLog (snd st')) \<le> 1" "frame (fst st') = frame ?m"
    using run(3) by simp_all
  moreover have "length (processLog (snd st')) = 1" using calculation(2) run(4) by (cases "processLog (snd st')") simp_all
  ultimately show ?thesis using run(1,2) by blast
qed

text \<open>
  C24.  A proxy that a rule selects is one the tunnel knows, no proxy along its chain of groups is
  a pass-through, and it carries UDP when the connection is UDP; whatever the rules.
\<close>

theorem selected_proxy_usable:
  assumes "match_conn fuel T clock h st = Inr ((res, rs'), st')" "rt_rule res \<noteq> None"
  shows "\<exists>p ada. rt_proxy res = Some p \<and> t_proxies T ada = Some p \<and> \<not> chain_has AT_Pass (fst st') p \<and>
    (mNetWork (fst st') = UDP \<longrightarrow> pSupportUDP p)"
  using match_rules_usable [OF assms(1) [unfolded match_conn_def] assms(2)] by (auto simp: usable_iff)

theorem selected_proxy_usable_witness:
  "\<exists>res rs' st'. match_conn 0 (example_tunnel\<lparr>t_rules := [Bare (FinalMatch ''DIRECT'')]\<rparr>) (\<lambda>_. 0) emptyHelper
      (zeroMetadata\<lparr>mNetWork := UDP\<rparr>, ()) = Inr ((res, rs'), st') \<and>
     (\<exists>p ada. rt_proxy res = Some p \<and> example_proxies ada = Some p \<and> pSupportUDP p)"
proof -
  let ?T = "example_tunnel\<lparr>t_rules := [Bare (FinalMatch ''DIRECT'')]\<rparr>" and ?m = "zeroMetadata\<lparr>mNetWork := UDP\<rparr>"
  let ?res = "\<lparr>rt_proxy = example_proxies ''DIRECT'', rt_rule = Some (FinalMatch ''DIRECT'')\<rparr>"
  have "match_conn 0 ?T (\<lambda>_. 0) emptyHelper (?m, ()) = Inr ((?res, [Bare (FinalMatch ''DIRECT'')]), (?m, ()))"
    by (simp add: match_conn_def getRules_def example_tunnel_def emptyEnv_def match_simps usable_def
        example_proxies_def)
  from this selected_proxy_usable [OF this] show ?thesis
    by (fastforce simp: example_tunnel_def zeroMetadata_def)
qed

text \<open>
  C25.  \<open>retry\<close> makes between one and ten attempts and reports the outcome of the last one; every
  earlier attempt failed with an error worth retrying and an uninterrupted pause; and it gives up
  with an error only after the tenth attempt, on an error that retrying cannot help, or when the
  context ended.
\<close>

theorem retry_bounded:
  "\<exists>n < 10. fst (retry ft wait) = ft n \<and> fst (snd (retry ft wait)) = n + 1 \<and>
     (\<forall>k < n. (\<exists>err. ft k = Inl err \<and> \<not> shouldStopRetry err) \<and> wait k) \<and>
     (\<forall>err. ft n = Inl err \<longrightarrow> n = 9 \<or> shouldStopRetry err \<or> \<not> wait n)"
  using retry_loop_spec [of 0 ft wait "[]" "ft 0"] by (auto simp: retry_def)

theorem retry_bounded_witness:
  "\<exists>n < 10. fst (retry (\<lambda>k. if k < 2 then Inl (OtherDialError []) else Inr k) (\<lambda>_. True)) = Inr (2 :: nat) \<and> n = (2 :: nat)"
proof -
  let ?ft = "\<lambda>k. if k < 2 then Inl (OtherDialError []) else Inr k :: (dial_error, nat) result"
  obtain n where n: "n < 10" "fst (retry ?ft (\<lambda>_. True)) = ?ft n"
    "\<forall>k < n. (\<exists>err. ?ft k = Inl err \<and> \<not> shouldStopRetry err) \<and> True"
    "\<forall>err. ?ft n = Inl err \<longrightarrow> n = 9 \<or> shouldStopRetry err \<or> \<not> True"
    using retry_bounded [of ?ft "\<lambda>_. True"] by blast
  have "\<not> 2 < n" using n(3) by force
  moreover have "\<not> n < 2" using n(4) by (auto simp: shouldStopRetry_def)
  ultimately have "n = 2" by simp
  with n show ?thesis by auto
qed

text \<open>
  A process rule inside a RULE-SET in source mode looks the process up while source and
  destination are exchanged: the lookup is made for the destination address and port of the
  connection, and it uses up the connection's only lookup.
\<close>

lemma source_mode_process_lookup_swapped:
  assumes "RuleProviders e n = Some (Some (ClassicalStrategy [Process p a' rt]))" "attemptProcessLookup s"
  shows "\<exists>x m' s'. rule_Match (Suc fuel) e (RuleSet n a True nr) (full_helper W T) (m, s) = Inr (x, (m', s')) \<and>
    processLog s' = processLog s @ [(mNetWork m, mDstIP m, mDstPort m)] \<and> \<not> attemptProcessLookup s'"
proof -
  let ?st = "process_closure W (swap_state (m, s))"
  have log: "processLog (snd ?st) = processLog s @ [(mNetWork m, mDstIP m, mDstPort m)] \<and> \<not> attemptProcessLookup (snd ?st)"
    using assms(2) by (auto simp: process_closure_def swap_state_def SwapSrcDst_def Let_def split: option.splits)
  let ?h = "full_helper W T\<lparr>ResolveIP := None\<rparr>"
  have "snd (Process_Match e p a' rt ?h (swap_state (m, s))) = ?st"
    by (simp add: Process_Match_def full_helper_def call_opt_def Let_def)
  then obtain b y where "Process_Match e p a' rt ?h (swap_state (m, s)) = ((b, y), ?st)"
    by (metis prod.exhaust_sel)
  then have "rule_Match (Suc fuel) e (RuleSet n a True nr) (full_helper W T) (m, s) = Inr ((b, a), swap_state ?st)"
    using assms(1) by (cases b) (simp_all add: match_simps)
  with log show ?thesis by (auto simp: swap_state_def)
qed

lemma source_mode_process_lookup_swapped_witness:
  "\<exists>x m' s'. rule_Match 1 (emptyEnv\<lparr>RuleProviders := [''apps'' \<mapsto> Some (ClassicalStrategy [Process ''curl'' [] RT_ProcessName])]\<rparr>)
      (RuleSet ''apps'' ''DIRECT'' True True) (full_helper example_world example_tunnel)
      (start_state (zeroMetadata\<lparr>mSrcIP := V4 1, mSrcPort := 40000, mDstIP := V4 2, mDstPort := 443\<rparr>) False) = Inr (x, (m', s')) \<and>
    processLog s' = [(TCP, V4 2, 443)] \<and> \<not> attemptProcessLookup s'"
  using source_mode_process_lookup_swapped [of
      "emptyEnv\<lparr>RuleProviders := [''apps'' \<mapsto> Some (ClassicalStrategy [Process ''curl'' [] RT_ProcessName])]\<rparr>"
      "''apps''" "''curl''" "[]" RT_ProcessName
      "snd (start_state (zeroMetadata\<lparr>mSrcIP := V4 1, mSrcPort := 40000, mDstIP := V4 2, mDstPort := 443\<rparr>) False)"
      0 "''DIRECT''" True example_world example_tunnel
      "zeroMetadata\<lparr>mSrcIP := V4 1, mSrcPort := 40000, mDstIP := V4 2, mDstPort := 443\<rparr>"]
  by (simp add: start_state_def zeroMetadata_def)

end
