(* ===== verification/LRU_Cache.thy ===== *)
theory LRU_Cache
  imports Prelude
begin

text \<open>
  \<open>common/lru/lrucache.go\<close>: the cache behind the fake-IP pool, the DNS mapping and the load
  balancer.  The linked list is the sequence of its elements, least recently used first, as the
  standard library's \<open>container/list\<close> documents it; an element is a pair of its identity and its
  entry, and the map leads from a key to the identity of an element.  A cache allocates identities
  from a counter.  \<open>clock\<close> gives the successive readings of the wall clock in seconds, and
  \<open>evictLog\<close> collects the calls of the eviction callback, where one is set.

  The operations hold the cache's lock from their first to their last step, so each is one
  transition.  \<open>CloneTo\<close> copies pointers to entries; the model copies the entries as they are at
  that moment.
\<close>

section \<open>State\<close>

record ('k, 'v) entry =
  e_key :: 'k
  e_value :: 'v
  e_expires :: int

record ('k, 'v) LruCache =
  maxAge :: int
  maxSize :: int
  cache :: "'k \<rightharpoonup> nat"
  lru :: "(nat \<times> ('k, 'v) entry) list"
  updateAgeOnGet :: bool
  staleReturn :: bool
  onEvict :: bool
  evictLog :: "('k \<times> 'v) list"
  nextElem :: nat

type_synonym clock = "nat \<Rightarrow> int"

definition later :: "nat \<Rightarrow> clock \<Rightarrow> clock" where
  "later n clock i = clock (n + i)"

datatype lru_option = WithEvict | WithUpdateAgeOnGet | WithAge int | WithSize int | WithStale bool

fun apply_option :: "lru_option \<Rightarrow> ('k, 'v) LruCache \<Rightarrow> ('k, 'v) LruCache" where
  "apply_option WithEvict c = c\<lparr>onEvict := True\<rparr>"
| "apply_option WithUpdateAgeOnGet c = c\<lparr>updateAgeOnGet := True\<rparr>"
| "apply_option (WithAge n) c = c\<lparr>maxAge := n\<rparr>"
| "apply_option (WithSize n) c = c\<lparr>maxSize := n\<rparr>"
| "apply_option (WithStale b) c = c\<lparr>staleReturn := b\<rparr>"

definition lru_Clear :: "('k, 'v) LruCache \<Rightarrow> ('k, 'v) LruCache" where
  "lru_Clear c = c\<lparr>lru := [], cache := Map.empty\<rparr>"

definition lru_New :: "lru_option list \<Rightarrow> ('k, 'v) LruCache" where
  "lru_New options =
     fold apply_option options
       (lru_Clear \<lparr>maxAge = 0, maxSize = 0, cache = Map.empty, lru = [], updateAgeOnGet = False,
          staleReturn = False, onEvict = False, evictLog = [], nextElem = 0\<rparr>)"

section \<open>The linked list\<close>

definition elem_at :: "('k, 'v) LruCache \<Rightarrow> nat \<Rightarrow> ('k, 'v) entry" where
  "elem_at c i = the (map_of (lru c) i)"

definition list_Remove :: "nat \<Rightarrow> (nat \<times> 'e) list \<Rightarrow> (nat \<times> 'e) list" where
  "list_Remove i l = filter (\<lambda>x. fst x \<noteq> i) l"

definition list_MoveToBack :: "nat \<Rightarrow> (nat \<times> 'e) list \<Rightarrow> (nat \<times> 'e) list" where
  "list_MoveToBack i l = filter (\<lambda>x. fst x \<noteq> i) l @ filter (\<lambda>x. fst x = i) l"

definition list_write :: "nat \<Rightarrow> ('e \<Rightarrow> 'e) \<Rightarrow> (nat \<times> 'e) list \<Rightarrow> (nat \<times> 'e) list" where
  "list_write i f l = map (\<lambda>x. if fst x = i then (i, f (snd x)) else x) l"

section \<open>Operations\<close>

definition deleteElement :: "nat \<Rightarrow> ('k, 'v) LruCache \<Rightarrow> ('k, 'v) LruCache" where
  "deleteElement i c =
     (let e = elem_at c i in
      c\<lparr>lru := list_Remove i (lru c), cache := (cache c)(e_key e := None),
        evictLog := (if onEvict c then evictLog c @ [(e_key e, e_value e)] else evictLog c)\<rparr>)"

text \<open>The loop of \<open>maybeDeleteOldest\<close> deletes the front while it has expired.\<close>

function delete_expired :: "int \<Rightarrow> ('k, 'v) LruCache \<Rightarrow> ('k, 'v) LruCache" where
  "delete_expired now c =
     (case lru c of
        [] \<Rightarrow> c
      | (i, e) # _ \<Rightarrow> if e_expires e \<le> now then delete_expired now (deleteElement i c) else c)"
  by pat_completeness auto
termination
  by (relation "measure (\<lambda>(now, c). length (lru c))")
    (auto simp: deleteElement_def list_Remove_def Let_def less_Suc_eq_le)

declare delete_expired.simps [simp del]

definition maybeDeleteOldest :: "int \<Rightarrow> ('k, 'v) LruCache \<Rightarrow> ('k, 'v) LruCache" where
  "maybeDeleteOldest now c =
     (if \<not> staleReturn c \<and> maxAge c > 0 then delete_expired now c else c)"

definition lru_get :: "clock \<Rightarrow> 'k \<Rightarrow> ('k, 'v) LruCache \<Rightarrow> ('k, 'v) entry option \<times> ('k, 'v) LruCache" where
  "lru_get clock key c =
     (case cache c key of
        None \<Rightarrow> (None, c)
      | Some i \<Rightarrow>
          if \<not> staleReturn c \<and> maxAge c > 0 \<and> e_expires (elem_at c i) \<le> clock 0
          then (None, maybeDeleteOldest (clock 1) (deleteElement i c))
          else
            let c1 = c\<lparr>lru := list_MoveToBack i (lru c)\<rparr>;
                c2 = (if maxAge c > 0 \<and> updateAgeOnGet c
                      then c1\<lparr>lru := list_write i (\<lambda>e. e\<lparr>e_expires := clock 1 + maxAge c\<rparr>) (lru c1)\<rparr>
                      else c1)
            in (Some (elem_at c2 i), c2))"

definition setWithExpire :: "clock \<Rightarrow> 'k \<Rightarrow> 'v \<Rightarrow> int \<Rightarrow> ('k, 'v) LruCache \<Rightarrow> ('k, 'v) LruCache" where
  "setWithExpire clock key value expires c =
     maybeDeleteOldest (clock 0)
       (case cache c key of
          Some i \<Rightarrow>
            c\<lparr>lru := list_write i (\<lambda>e. e\<lparr>e_value := value, e_expires := expires\<rparr>) (list_MoveToBack i (lru c))\<rparr>
        | None \<Rightarrow>
            let i = nextElem c;
                c1 = c\<lparr>lru := lru c @ [(i, \<lparr>e_key = key, e_value = value, e_expires = expires\<rparr>)],
                       cache := (cache c)(key \<mapsto> i), nextElem := Suc i\<rparr>
            in if maxSize c1 > 0 \<and> int (length (lru c1)) > maxSize c1
               then deleteElement (fst (hd (lru c1))) c1 else c1)"

definition lru_set :: "clock \<Rightarrow> 'k \<Rightarrow> 'v \<Rightarrow> ('k, 'v) LruCache \<Rightarrow> ('k, 'v) LruCache" where
  "lru_set clock key value c =
     (if maxAge c > 0 then setWithExpire (later 1 clock) key value (clock 0 + maxAge c) c
      else setWithExpire clock key value 0 c)"

definition lru_delete :: "'k \<Rightarrow> ('k, 'v) LruCache \<Rightarrow> ('k, 'v) LruCache" where
  "lru_delete key c = (case cache c key of Some i \<Rightarrow> deleteElement i c | None \<Rightarrow> c)"

text \<open>The exported methods.  \<open>Get\<close> answers with the value, \<open>GetWithExpire\<close> also with the expiry.\<close>

definition lru_Get :: "clock \<Rightarrow> 'k \<Rightarrow> ('k, 'v) LruCache \<Rightarrow> 'v option \<times> ('k, 'v) LruCache" where
  "lru_Get clock key c = (case lru_get clock key c of (el, c') \<Rightarrow> (map_option e_value el, c'))"

definition GetWithExpire :: "clock \<Rightarrow> 'k \<Rightarrow> ('k, 'v) LruCache \<Rightarrow> ('v \<times> int) option \<times> ('k, 'v) LruCache" where
  "GetWithExpire clock key c =
     (case lru_get clock key c of (el, c') \<Rightarrow> (map_option (\<lambda>e. (e_value e, e_expires e)) el, c'))"

definition GetOrStore :: "clock \<Rightarrow> 'k \<Rightarrow> 'v \<Rightarrow> ('k, 'v) LruCache \<Rightarrow> ('v \<times> bool) \<times> ('k, 'v) LruCache" where
  "GetOrStore clock key constructed c =
     (case lru_get clock key c of
        (None, c') \<Rightarrow> ((constructed, False), lru_set (later 2 clock) key constructed c')
      | (Some el, c') \<Rightarrow> ((e_value el, True), c'))"

definition lru_Exist :: "'k \<Rightarrow> ('k, 'v) LruCache \<Rightarrow> bool" where
  "lru_Exist key c = (cache c key \<noteq> None)"

definition lru_Set :: "clock \<Rightarrow> 'k \<Rightarrow> 'v \<Rightarrow> ('k, 'v) LruCache \<Rightarrow> ('k, 'v) LruCache" where
  "lru_Set clock key value c = lru_set clock key value c"

definition SetWithExpire :: "clock \<Rightarrow> 'k \<Rightarrow> 'v \<Rightarrow> int \<Rightarrow> ('k, 'v) LruCache \<Rightarrow> ('k, 'v) LruCache" where
  "SetWithExpire clock key value expires c = setWithExpire clock key value expires c"

definition lru_Delete :: "'k \<Rightarrow> ('k, 'v) LruCache \<Rightarrow> ('k, 'v) LruCache" where
  "lru_Delete key c = lru_delete key c"

text \<open>\<open>valueFn\<close> maps the old value, if there is one, to the new value or to a deletion.\<close>

definition lru_Compute ::
  "clock \<Rightarrow> 'k \<Rightarrow> ('v option \<Rightarrow> 'v option) \<Rightarrow> ('k, 'v) LruCache \<Rightarrow> 'v option \<times> ('k, 'v) LruCache" where
  "lru_Compute clock key valueFn c =
     (case lru_get clock key c of
        (el, c') \<Rightarrow>
          (case valueFn (map_option e_value el) of
             None \<Rightarrow> (None, if el \<noteq> None then lru_delete key c' else c')
           | Some newValue \<Rightarrow> (Some newValue, lru_set (later 2 clock) key newValue c')))"

text \<open>The loop of \<open>CloneTo\<close> pushes the entries of \<open>c\<close> to the emptied list of \<open>n\<close>.\<close>

fun clone_loop :: "('k, 'v) entry list \<Rightarrow> ('k, 'v) LruCache \<Rightarrow> ('k, 'v) LruCache" where
  "clone_loop [] n = n"
| "clone_loop (e # es) n =
     clone_loop es (n\<lparr>lru := lru n @ [(nextElem n, e)], cache := (cache n)(e_key e \<mapsto> nextElem n),
                      nextElem := Suc (nextElem n)\<rparr>)"

definition lru_CloneTo :: "('k, 'v) LruCache \<Rightarrow> ('k, 'v) LruCache \<Rightarrow> ('k, 'v) LruCache" where
  "lru_CloneTo c n = clone_loop (map snd (lru c)) (n\<lparr>lru := [], cache := Map.empty\<rparr>)"

section \<open>Representation invariant\<close>

text \<open>
  Elements have distinct identities below the allocation counter, and the map leads from a key to
  exactly the element that carries it.
\<close>

definition lru_inv :: "('k, 'v) LruCache \<Rightarrow> bool" where
  "lru_inv c \<longleftrightarrow>
     distinct (map fst (lru c)) \<and> (\<forall>x \<in> set (lru c). fst x < nextElem c) \<and>
     (\<forall>k i. cache c k = Some i \<longleftrightarrow> (\<exists>e. (i, e) \<in> set (lru c) \<and> e_key e = k))"

abbreviation entries :: "('k, 'v) LruCache \<Rightarrow> ('k, 'v) entry list" where
  "entries c \<equiv> map snd (lru c)"

lemma lru_invD:
  assumes "lru_inv c"
  shows "distinct (map fst (lru c))" "\<forall>x \<in> set (lru c). fst x < nextElem c"
    "cache c k = Some i \<longleftrightarrow> (\<exists>e. (i, e) \<in> set (lru c) \<and> e_key e = k)"
  using assms by (auto simp: lru_inv_def)

lemma cache_None_iff:
  "lru_inv c \<Longrightarrow> cache c k = None \<longleftrightarrow> k \<notin> e_key ` set (entries c)"
proof -
  assume inv: "lru_inv c"
  have "cache c k \<noteq> None \<longleftrightarrow> (\<exists>i e. (i, e) \<in> set (lru c) \<and> e_key e = k)"
    unfolding not_None_eq lru_invD(3) [OF inv] ..
  also have "\<dots> \<longleftrightarrow> k \<in> e_key ` set (entries c)" by (simp add: image_image) force
  finally show ?thesis by blast
qed

lemma keys_distinct:
  assumes "lru_inv c"
  shows "distinct (map e_key (entries c))"
proof -
  have "inj_on (e_key \<circ> snd) (set (lru c))"
  proof (rule inj_onI)
    fix x y assume "x \<in> set (lru c)" "y \<in> set (lru c)" "(e_key \<circ> snd) x = (e_key \<circ> snd) y"
    then have "cache c (e_key (snd x)) = Some (fst x)" "cache c (e_key (snd x)) = Some (fst y)"
      using lru_invD(3) [OF assms] by (metis comp_apply prod.collapse)+
    then have "fst x = fst y" by simp
    with \<open>x \<in> set (lru c)\<close> \<open>y \<in> set (lru c)\<close> lru_invD(1) [OF assms] show "x = y"
      by (metis eq_key_imp_eq_value prod.collapse)
  qed
  moreover have "distinct (lru c)"
    using lru_invD(1) [OF assms] by (simp add: distinct_map)
  ultimately show ?thesis by (simp add: distinct_map)
qed

text \<open>The element of a key splits the list in two parts without the key and without the identity.\<close>

lemma lru_split:
  assumes "lru_inv c" "cache c k = Some i"
  obtains e xs ys where "lru c = xs @ (i, e) # ys" "e_key e = k" "elem_at c i = e"
    "i \<notin> fst ` set xs" "i \<notin> fst ` set ys"
    "k \<notin> e_key ` snd ` set xs" "k \<notin> e_key ` snd ` set ys"
proof -
  obtain e where e: "(i, e) \<in> set (lru c)" "e_key e = k"
    using assms(2) by (auto simp: lru_invD(3) [OF assms(1)])
  then obtain xs ys where l: "lru c = xs @ (i, e) # ys"
    by (auto dest: split_list)
  show thesis
  proof (rule that [OF l e(2)])
    show "elem_at c i = e"
      using lru_invD(1) [OF assms(1)] e(1) by (simp add: elem_at_def)
      show "i \<notin> fst ` set xs" "i \<notin> fst ` set ys"
      using lru_invD(1) [OF assms(1)] by (simp_all add: l)
    show "k \<notin> e_key ` snd ` set xs" "k \<notin> e_key ` snd ` set ys"
      using keys_distinct [OF assms(1)] e(2) by (auto simp: l image_image)
  qed
qed

section \<open>Reference: a list of entries\<close>

text \<open>
  The cache as a list of entries with distinct keys, least recently used first, and the settings
  as a record.  The eviction callback does not influence the contents.
\<close>

record lru_config =
  g_maxAge :: int
  g_maxSize :: int
  g_update :: bool
  g_stale :: bool

definition config_of :: "('k, 'v) LruCache \<Rightarrow> lru_config" where
  "config_of c = \<lparr>g_maxAge = maxAge c, g_maxSize = maxSize c, g_update = updateAgeOnGet c, g_stale = staleReturn c\<rparr>"

abbreviation without :: "'k \<Rightarrow> ('k, 'v) entry list \<Rightarrow> ('k, 'v) entry list" where
  "without k es \<equiv> filter (\<lambda>e. e_key e \<noteq> k) es"

abbreviation lookup :: "'k \<Rightarrow> ('k, 'v) entry list \<Rightarrow> ('k, 'v) entry option" where
  "lookup k es \<equiv> find (\<lambda>e. e_key e = k) es"

definition expiring :: "lru_config \<Rightarrow> bool" where
  "expiring g \<longleftrightarrow> \<not> g_stale g \<and> g_maxAge g > 0"

definition spec_expire :: "lru_config \<Rightarrow> int \<Rightarrow> ('k, 'v) entry list \<Rightarrow> ('k, 'v) entry list" where
  "spec_expire g now es = (if expiring g then dropWhile (\<lambda>e. e_expires e \<le> now) es else es)"

definition spec_get ::
  "lru_config \<Rightarrow> clock \<Rightarrow> 'k \<Rightarrow> ('k, 'v) entry list \<Rightarrow> ('k, 'v) entry option \<times> ('k, 'v) entry list" where
  "spec_get g clock k es =
     (case lookup k es of
        None \<Rightarrow> (None, es)
      | Some e \<Rightarrow>
          if expiring g \<and> e_expires e \<le> clock 0 then (None, spec_expire g (clock 1) (without k es))
          else
            let e' = (if g_maxAge g > 0 \<and> g_update g then e\<lparr>e_expires := clock 1 + g_maxAge g\<rparr> else e)
            in (Some e', without k es @ [e']))"

definition spec_setWithExpire ::
  "lru_config \<Rightarrow> clock \<Rightarrow> 'k \<Rightarrow> 'v \<Rightarrow> int \<Rightarrow> ('k, 'v) entry list \<Rightarrow> ('k, 'v) entry list" where
  "spec_setWithExpire g clock k v x es =
     spec_expire g (clock 0)
       (let es' = without k es @ [\<lparr>e_key = k, e_value = v, e_expires = x\<rparr>] in
        if lookup k es = None \<and> g_maxSize g > 0 \<and> int (length es') > g_maxSize g then tl es' else es')"

definition spec_set :: "lru_config \<Rightarrow> clock \<Rightarrow> 'k \<Rightarrow> 'v \<Rightarrow> ('k, 'v) entry list \<Rightarrow> ('k, 'v) entry list" where
  "spec_set g clock k v es =
     (if g_maxAge g > 0 then spec_setWithExpire g (later 1 clock) k v (clock 0 + g_maxAge g) es
      else spec_setWithExpire g clock k v 0 es)"

definition spec_Compute ::
  "lru_config \<Rightarrow> clock \<Rightarrow> 'k \<Rightarrow> ('v option \<Rightarrow> 'v option) \<Rightarrow> ('k, 'v) entry list \<Rightarrow> 'v option \<times> ('k, 'v) entry list" where
  "spec_Compute g clock k f es =
     (case spec_get g clock k es of
        (r, es') \<Rightarrow>
          (case f (map_option e_value r) of
             None \<Rightarrow> (None, without k es')
           | Some v \<Rightarrow> (Some v, spec_set g (later 2 clock) k v es')))"

text \<open>A cache represents a list under some settings.\<close>

definition represents :: "('k, 'v) LruCache \<Rightarrow> lru_config \<Rightarrow> ('k, 'v) entry list \<Rightarrow> bool" where
  "represents c g es \<longleftrightarrow> lru_inv c \<and> config_of c = g \<and> entries c = es"

lemma lookup_None: "lookup k es = None \<longleftrightarrow> k \<notin> e_key ` set es"
  by (auto simp: find_None_iff)

lemma find_split:
  "k \<notin> e_key ` set xs \<Longrightarrow> e_key e = k \<Longrightarrow> lookup k (xs @ e # ys) = Some e"
  by (induction xs) auto

lemma filter_other: "x \<notin> f ` set xs \<Longrightarrow> filter (\<lambda>y. f y \<noteq> x) xs = xs"
  by (induction xs) auto

lemma filter_none: "x \<notin> f ` set xs \<Longrightarrow> filter (\<lambda>y. f y = x) xs = []"
  by (induction xs) auto

lemma deleteElement_represents:
  assumes "represents c g es" "cache c k = Some i"
  shows "represents (deleteElement i c) g (without k es)"
proof -
  have inv: "lru_inv c" and es: "es = entries c" and g: "g = config_of c"
    using assms(1) by (auto simp: represents_def)
  obtain e xs ys where s: "lru c = xs @ (i, e) # ys" "e_key e = k" "elem_at c i = e"
    "i \<notin> fst ` set xs" "i \<notin> fst ` set ys" "k \<notin> e_key ` snd ` set xs" "k \<notin> e_key ` snd ` set ys"
    by (rule lru_split [OF inv assms(2)])
  let ?d = "deleteElement i c"
  have l: "lru ?d = xs @ ys" and m: "cache ?d = (cache c)(k := None)" and n: "nextElem ?d = nextElem c"
    using s by (simp_all add: deleteElement_def Let_def list_Remove_def filter_other)
  have "lru_inv ?d"
    unfolding lru_inv_def l m n
  proof (intro conjI allI)
    show "distinct (map fst (xs @ ys))" using lru_invD(1) [OF inv] s(1) by simp
    show "\<forall>x\<in>set (xs @ ys). fst x < nextElem c" using lru_invD(2) [OF inv] s(1) by auto
    show "(((cache c)(k := None)) k' = Some j) = (\<exists>e. (j, e) \<in> set (xs @ ys) \<and> e_key e = k')" for k' j
      using lru_invD(3) [OF inv, of k' j] s(1,2,6,7) by (force simp: image_iff)
  qed
  moreover have "config_of ?d = g" by (simp add: g config_of_def deleteElement_def Let_def)
  moreover have "entries ?d = without k es"
    unfolding l es s(1) using s(2,6,7) by (simp add: filter_other)
  ultimately show ?thesis by (simp add: represents_def)
qed

lemma delete_expired_represents:
  "represents c g es \<Longrightarrow> represents (delete_expired now c) g (dropWhile (\<lambda>e. e_expires e \<le> now) es)"
proof (induction now c arbitrary: es rule: delete_expired.induct)
  case (1 now c)
  show ?case
  proof (cases "lru c")
    case Nil
    with 1 show ?thesis by (simp add: delete_expired.simps [of now c] represents_def)
  next
    case (Cons x l)
    obtain i e where x: "x = (i, e)" by force
    from 1 have inv: "lru_inv c" and es: "es = e # map snd l" by (auto simp: represents_def Cons x)
    show ?thesis
    proof (cases "e_expires e \<le> now")
      case True
      have k: "cache c (e_key e) = Some i" using lru_invD(3) [OF inv] Cons x by auto
      have "e_key e \<notin> e_key ` set (map snd l)" using keys_distinct [OF inv] Cons x by (simp add: image_image)
      then have "without (e_key e) es = map snd l" using es by (simp add: filter_other)
      with "1.IH" [OF Cons x [symmetric] True] deleteElement_represents [OF 1(2) k] es True show ?thesis
        by (simp add: delete_expired.simps [of now c] Cons x)
    next
      case False
      with 1 es show ?thesis by (simp add: delete_expired.simps [of now c] Cons x)
    qed
  qed
qed

lemma maybeDeleteOldest_represents:
  "represents c g es \<Longrightarrow> represents (maybeDeleteOldest now c) g (spec_expire g now es)"
  using delete_expired_represents [of c g es now]
  by (auto simp: maybeDeleteOldest_def spec_expire_def represents_def expiring_def config_of_def)

lemma lookup_represents:
  assumes "represents c g es"
  shows "lookup k es = map_option (elem_at c) (cache c k)"
proof (cases "cache c k")
  case None
  with assms have "k \<notin> e_key ` set es" by (auto simp: represents_def cache_None_iff)
  then have "lookup k es = None" by (simp only: lookup_None not_False_eq_True)
  with None show ?thesis by simp
next
  case (Some i)
  from assms have inv: "lru_inv c" and es: "es = entries c" by (auto simp: represents_def)
  obtain e xs ys where s: "lru c = xs @ (i, e) # ys" "e_key e = k" "elem_at c i = e"
    "i \<notin> fst ` set xs" "i \<notin> fst ` set ys" "k \<notin> e_key ` snd ` set xs" "k \<notin> e_key ` snd ` set ys"
    by (rule lru_split [OF inv Some])
  show ?thesis using find_split [of k "map snd xs" e "map snd ys"] s(2,6) by (simp add: es s(1,3) Some)
qed

text \<open>Moving an element to the back and rewriting its entry, key apart.\<close>

lemma touch_represents:
  assumes "represents c g es" "cache c k = Some i" "\<And>e. e_key (f e) = e_key e"
  shows "represents (c\<lparr>lru := list_write i f (list_MoveToBack i (lru c))\<rparr>) g (without k es @ [f (elem_at c i)])"
    "elem_at (c\<lparr>lru := list_write i f (list_MoveToBack i (lru c))\<rparr>) i = f (elem_at c i)"
proof -
  from assms have inv: "lru_inv c" and es: "es = entries c" and g: "g = config_of c" by (auto simp: represents_def)
  obtain e xs ys where s: "lru c = xs @ (i, e) # ys" "e_key e = k" "elem_at c i = e"
    "i \<notin> fst ` set xs" "i \<notin> fst ` set ys" "k \<notin> e_key ` snd ` set xs" "k \<notin> e_key ` snd ` set ys"
    by (rule lru_split [OF inv assms(2)])
  have id: "map (\<lambda>x. if fst x = i then (i, f (snd x)) else x) zs = zs" if "i \<notin> fst ` set zs" for zs
    using that by (induction zs) auto
  let ?c = "c\<lparr>lru := list_write i f (list_MoveToBack i (lru c))\<rparr>"
  have l: "lru ?c = xs @ ys @ [(i, f e)]"
    using s by (simp add: list_write_def list_MoveToBack_def filter_other filter_none id)
  have "lru_inv ?c"
    unfolding lru_inv_def l
  proof (intro conjI allI)
    show "distinct (map fst (xs @ ys @ [(i, f e)]))" using lru_invD(1) [OF inv] s(1) by auto
    show "\<forall>x\<in>set (xs @ ys @ [(i, f e)]). fst x < nextElem ?c" using lru_invD(2) [OF inv] s(1) by auto
    show "(cache ?c k' = Some j) = (\<exists>e'. (j, e') \<in> set (xs @ ys @ [(i, f e)]) \<and> e_key e' = k')" for k' j
      using lru_invD(3) [OF inv, of k' j] s(1) assms(3) by auto
  qed
  moreover have "entries ?c = without k es @ [f e]"
    unfolding l using s(2,6,7) by (simp add: es s(1) filter_other)
  ultimately show "represents ?c g (without k es @ [f (elem_at c i)])"
    by (simp add: represents_def g s(3)) (simp add: config_of_def)
  show "elem_at ?c i = f (elem_at c i)"
    unfolding elem_at_def [of ?c] l using s(3,4,5) by (simp add: map_add_def map_of_eq_None_iff [THEN iffD2])
qed

lemma write_id [simp]: "list_write i (\<lambda>e. e) l = l"
  by (simp add: list_write_def map_idI prod_eq_iff)

lemma get_represents:
  assumes "represents c g es"
  shows "fst (lru_get clock k c) = fst (spec_get g clock k es) \<and>
    represents (snd (lru_get clock k c)) g (snd (spec_get g clock k es))"
proof (cases "cache c k")
  case None
  with assms lookup_represents [OF assms, of k] show ?thesis by (simp add: lru_get_def spec_get_def)
next
  case (Some i)
  have l: "lookup k es = Some (elem_at c i)" using lookup_represents [OF assms, of k] Some by simp
  have g [simp]: "g_maxAge g = maxAge c" "g_stale g = staleReturn c" "g_update g = updateAgeOnGet c"
    using assms by (auto simp: represents_def config_of_def)
  note upd = touch_represents [OF assms Some, of "\<lambda>e. e\<lparr>e_expires := clock 1 + maxAge c\<rparr>", simplified]
  note keep = touch_represents [OF assms Some, of "\<lambda>e. e", simplified]
  note del = maybeDeleteOldest_represents [OF deleteElement_represents [OF assms Some], of "clock 1", simplified]
  show ?thesis
    by (auto simp: lru_get_def spec_get_def Some l Let_def upd keep del expiring_def)
qed

lemma push_represents:
  assumes "represents c g es" "cache c (e_key e) = None"
  shows "represents (c\<lparr>lru := lru c @ [(nextElem c, e)], cache := (cache c)(e_key e \<mapsto> nextElem c),
    nextElem := Suc (nextElem c)\<rparr>) g (es @ [e])"
proof -
  from assms have inv: "lru_inv c" and es: "es = entries c" by (auto simp: represents_def)
  have new: "(nextElem c, x) \<notin> set (lru c)" for x using lru_invD(2) [OF inv] by fastforce
  have fresh: "e_key e \<notin> e_key ` set (entries c)" using assms(2) cache_None_iff [OF inv] by simp
  show ?thesis
    unfolding represents_def lru_inv_def
  proof (intro conjI allI)
    show "(cache (c\<lparr>lru := lru c @ [(nextElem c, e)], cache := (cache c)(e_key e \<mapsto> nextElem c), nextElem := Suc (nextElem c)\<rparr>) k = Some i) =
      (\<exists>e'. (i, e') \<in> set (lru (c\<lparr>lru := lru c @ [(nextElem c, e)], cache := (cache c)(e_key e \<mapsto> nextElem c), nextElem := Suc (nextElem c)\<rparr>)) \<and> e_key e' = k)" for k i
      using new fresh by (auto simp: lru_invD(3) [OF inv] image_iff)
  qed (use lru_invD(1,2) [OF inv] assms(1) new in \<open>auto simp: less_Suc_eq represents_def config_of_def\<close>)
qed

lemma setWithExpire_represents:
  assumes "represents c g es"
  shows "represents (setWithExpire clock k v x c) g (spec_setWithExpire g clock k v x es)"
proof -
  have inv: "lru_inv c" and size: "g_maxSize g = maxSize c" and es: "es = entries c"
    using assms by (auto simp: represents_def config_of_def)
  let ?e = "\<lparr>e_key = k, e_value = v, e_expires = x\<rparr>"
  show ?thesis
  proof (cases "cache c k")
    case (Some i)
    then have l: "lookup k es = Some (elem_at c i)" using lookup_represents [OF assms, of k] by simp
    then have "e_key (elem_at c i) = k" by (auto simp: find_Some_iff)
    then have e: "(elem_at c i)\<lparr>e_value := v, e_expires := x\<rparr> = ?e" by simp
    have "represents (c\<lparr>lru := list_write i (\<lambda>e. e\<lparr>e_value := v, e_expires := x\<rparr>) (list_MoveToBack i (lru c))\<rparr>) g (without k es @ [?e])"
      using touch_represents(1) [OF assms Some, of "\<lambda>e. e\<lparr>e_value := v, e_expires := x\<rparr>"] unfolding e by simp
    from maybeDeleteOldest_represents [OF this] Some l show ?thesis
      by (simp add: setWithExpire_def spec_setWithExpire_def Let_def)
  next
    case None
    then have l: "lookup k es = None" using lookup_represents [OF assms, of k] by simp
    then have w: "without k es = es" by (auto simp: lookup_None intro: filter_other)
    let ?c = "c\<lparr>lru := lru c @ [(nextElem c, ?e)], cache := (cache c)(k \<mapsto> nextElem c), nextElem := Suc (nextElem c)\<rparr>"
    have push: "represents ?c g (es @ [?e])" using push_represents [OF assms, of ?e] None by simp
    have "represents (deleteElement (fst (hd (lru ?c))) ?c) g (tl (es @ [?e]))"
    proof -
      obtain i f l' where h: "lru ?c = (i, f) # l'" by (cases "lru ?c") auto
      have inv': "lru_inv ?c" and es': "es @ [?e] = f # map snd l'"
        using push h by (auto simp: represents_def)
      have at: "cache ?c (e_key f) = Some i" unfolding lru_invD(3) [OF inv'] h by auto
      have "without (e_key f) (es @ [?e]) = map snd l'"
        unfolding es' using keys_distinct [OF inv'] unfolding h by (simp add: filter_other image_image)
      with deleteElement_represents [OF push at] show ?thesis unfolding h es' by simp
    qed
    with push None l w size es show ?thesis
      by (auto simp: setWithExpire_def spec_setWithExpire_def Let_def intro!: maybeDeleteOldest_represents)
  qed
qed

lemma set_represents:
  "represents c g es \<Longrightarrow> represents (lru_set clock k v c) g (spec_set g clock k v es)"
  using setWithExpire_represents [of c g es]
  by (auto simp: lru_set_def spec_set_def represents_def [of c] config_of_def)

lemma delete_represents:
  assumes "represents c g es"
  shows "represents (lru_delete k c) g (without k es)"
proof (cases "cache c k")
  case None
  then have "lookup k es = None" using lookup_represents [OF assms, of k] by simp
  then have "without k es = es" by (auto simp: lookup_None intro: filter_other)
  with assms None show ?thesis by (simp add: lru_delete_def)
next
  case (Some i)
  with deleteElement_represents [OF assms Some] show ?thesis by (simp add: lru_delete_def)
qed

lemma spec_get_None:
  assumes "fst (spec_get g clock k es) = None" "distinct (map e_key es)"
  shows "without k (snd (spec_get g clock k es)) = snd (spec_get g clock k es)"
proof -
  have "k \<notin> e_key ` set (snd (spec_get g clock k es))"
  proof (cases "lookup k es")
    case None
    then show ?thesis using lookup_None [of k es] by (simp add: spec_get_def)
  next
    case (Some e)
    with assms show ?thesis
      by (auto simp: spec_get_def spec_expire_def Let_def split: if_splits dest: set_dropWhileD)
  qed
  then show ?thesis by (rule filter_other)
qed

lemma Compute_represents:
  assumes "represents c g es"
  shows "fst (lru_Compute clock k f c) = fst (spec_Compute g clock k f es) \<and>
    represents (snd (lru_Compute clock k f c)) g (snd (spec_Compute g clock k f es))"
proof -
  obtain r c' where get: "lru_get clock k c = (r, c')" by force
  obtain es' where sp: "spec_get g clock k es = (r, es')" and rep: "represents c' g es'"
    using get_represents [OF assms, of clock k] get by (cases "spec_get g clock k es") auto
  have "distinct (map e_key es)" using assms keys_distinct by (auto simp: represents_def)
  then have gone: "without k es' = es'" if "r = None"
    using spec_get_None [of g clock k es] that sp by simp
  show ?thesis
    using rep delete_represents [OF rep, of k] set_represents [OF rep, of "later 2 clock" k] gone
    by (auto simp: lru_Compute_def spec_Compute_def get sp split: option.split)
qed

lemma clone_loop_represents:
  "represents n g fs \<Longrightarrow> distinct (map e_key (fs @ es)) \<Longrightarrow> represents (clone_loop es n) g (fs @ es)"
proof (induction es arbitrary: n fs)
  case (Cons e es)
  have inv: "lru_inv n" and fs: "fs = entries n" using Cons.prems(1) by (auto simp: represents_def)
  have "cache n (e_key e) = None" using Cons.prems(2) by (simp add: cache_None_iff [OF inv] fs image_image)
  from Cons.IH [OF push_represents [OF Cons.prems(1) this]] Cons.prems(2) show ?case by simp
qed simp

lemma CloneTo_represents:
  assumes "represents c g es"
  shows "represents (lru_CloneTo c n) (config_of n) es"
proof -
  have "distinct (map e_key es)" and es: "es = entries c"
    using assms keys_distinct by (auto simp: represents_def)
  moreover have "represents (n\<lparr>lru := [], cache := Map.empty\<rparr>) (config_of n) []"
    by (simp add: represents_def lru_inv_def config_of_def)
  ultimately show ?thesis
    using clone_loop_represents [of "n\<lparr>lru := [], cache := Map.empty\<rparr>" "config_of n" "[]" es]
    by (simp add: lru_CloneTo_def)
qed

lemma Clear_represents: "represents (lru_Clear c) (config_of c) []"
  by (simp add: lru_Clear_def represents_def lru_inv_def config_of_def)

lemma apply_option_empty: "lru_inv c \<and> lru c = [] \<Longrightarrow> lru_inv (apply_option a c) \<and> lru (apply_option a c) = []"
  by (cases a) (auto simp: lru_inv_def)

lemma fold_options_empty:
  "lru_inv c \<and> lru c = [] \<Longrightarrow> lru_inv (fold apply_option os c) \<and> lru (fold apply_option os c) = []"
proof (induction os arbitrary: c)
  case (Cons a os)
  show ?case using Cons.IH [OF apply_option_empty [OF Cons.prems]] by simp
qed simp

lemma New_represents:
  "represents (lru_New os :: ('k, 'v) LruCache) (config_of (lru_New os :: ('k, 'v) LruCache)) []"
proof -
  have "lru_inv (lru_Clear c) \<and> lru (lru_Clear c) = []" for c :: "('k, 'v) LruCache"
    using Clear_represents [of c] by (auto simp: represents_def)
  from fold_options_empty [OF this] show ?thesis by (auto simp: represents_def lru_New_def)
qed

section \<open>Size\<close>

definition bounded :: "lru_config \<Rightarrow> ('k, 'v) entry list \<Rightarrow> bool" where
  "bounded g es \<longleftrightarrow> g_maxSize g > 0 \<longrightarrow> int (length es) \<le> g_maxSize g"

lemma length_spec_expire: "length (spec_expire g now es) \<le> length es"
  by (simp add: spec_expire_def length_dropWhile_le)

lemma length_without: "lookup k es \<noteq> None \<Longrightarrow> length (without k es) < length es"
  by (auto simp: find_Some_iff intro!: length_filter_less)


lemma bounded_get: "bounded g es \<Longrightarrow> bounded g (snd (spec_get g clock k es))"
proof (cases "lookup k es")
  case (Some e)
  assume b: "bounded g es"
  have less: "length (without k es) < length es" using Some by (intro length_without) simp
  then have "length (snd (spec_get g clock k es)) \<le> length es"
    using le_trans [OF length_spec_expire, of "without k es" "length es"]
    by (auto simp: spec_get_def Some Let_def)
  with b show ?thesis by (auto simp: bounded_def)
qed (simp add: spec_get_def)

lemma bounded_setWithExpire: "bounded g es \<Longrightarrow> bounded g (spec_setWithExpire g clock k v x es)"
proof -
  assume b: "bounded g es"
  let ?n = "\<lparr>e_key = k, e_value = v, e_expires = x\<rparr>"
  let ?es = "(if lookup k es = None \<and> g_maxSize g > 0 \<and> int (length (without k es @ [?n])) > g_maxSize g
    then tl (without k es @ [?n]) else without k es @ [?n])"
  have "bounded g ?es"
  proof (cases "lookup k es = None")
    case True
    with b length_filter_le [of "\<lambda>e. e_key e \<noteq> k" es] show ?thesis
      unfolding bounded_def by (auto simp del: length_filter_le)
  next
    case False
    from length_without [OF this] False b show ?thesis by (auto simp: bounded_def)
  qed
  then show ?thesis
    using length_spec_expire [of g "clock 0" ?es] unfolding spec_setWithExpire_def Let_def bounded_def by linarith
qed

lemma bounded_set: "bounded g es \<Longrightarrow> bounded g (spec_set g clock k v es)"
  by (simp add: spec_set_def bounded_setWithExpire)

lemma bounded_without: "bounded g es \<Longrightarrow> bounded g (without k es)"
  using length_filter_le [of "\<lambda>e. e_key e \<noteq> k" es] unfolding bounded_def by linarith

lemma bounded_Compute: "bounded g es \<Longrightarrow> bounded g (snd (spec_Compute g clock k f es))"
  using bounded_get [of g es clock k]
  by (auto simp: spec_Compute_def bounded_without bounded_set split: prod.split option.split)

text \<open>The caches a program can build, one operation after the other.\<close>

inductive lru_reachable :: "('k, 'v) LruCache \<Rightarrow> bool" where
  new: "lru_reachable (lru_New os)"
| clear: "lru_reachable c \<Longrightarrow> lru_reachable (lru_Clear c)"
| get: "lru_reachable c \<Longrightarrow> lru_reachable (snd (lru_Get clock k c))"
| get_expire: "lru_reachable c \<Longrightarrow> lru_reachable (snd (GetWithExpire clock k c))"
| get_or_store: "lru_reachable c \<Longrightarrow> lru_reachable (snd (GetOrStore clock k v c))"
| set: "lru_reachable c \<Longrightarrow> lru_reachable (lru_Set clock k v c)"
| set_expire: "lru_reachable c \<Longrightarrow> lru_reachable (SetWithExpire clock k v x c)"
| delete: "lru_reachable c \<Longrightarrow> lru_reachable (lru_Delete k c)"
| compute: "lru_reachable c \<Longrightarrow> lru_reachable (snd (lru_Compute clock k f c))"

lemma snd_Get [simp]: "snd (lru_Get clock k c) = snd (lru_get clock k c)"
  by (simp add: lru_Get_def split: prod.split)

lemma fst_Get [simp]: "fst (lru_Get clock k c) = map_option e_value (fst (lru_get clock k c))"
  by (cases "lru_get clock k c") (simp add: lru_Get_def)

lemma snd_GetWithExpire [simp]: "snd (GetWithExpire clock k c) = snd (lru_get clock k c)"
  by (simp add: GetWithExpire_def split: prod.split)

lemma still_bounded: "represents c g es \<Longrightarrow> bounded g es \<Longrightarrow> \<exists>es. represents c (config_of c) es \<and> bounded (config_of c) es"
  by (auto simp: represents_def)

lemma reachable_bounded:
  "lru_reachable c \<Longrightarrow> \<exists>es. represents c (config_of c) es \<and> bounded (config_of c) es"
proof (induction rule: lru_reachable.induct)
  case (new os)
  show ?case by (intro exI [of _ "[]"] conjI New_represents) (simp add: bounded_def)
next
  case (clear c)
  have "config_of (lru_Clear c) = config_of c" by (simp add: lru_Clear_def config_of_def)
  then show ?case using Clear_represents [of c] by (intro exI [of _ "[]"]) (simp add: bounded_def)
next
  case (get c clock k)
  then show ?case using get_represents bounded_get by (metis represents_def snd_Get)
next
  case (get_expire c clock k)
  then show ?case using get_represents bounded_get by (metis represents_def snd_GetWithExpire)
next
  case (get_or_store c clock k v)
  then obtain es where es: "represents c (config_of c) es" "bounded (config_of c) es" by blast
  note g = get_represents [OF es(1), of clock k]
  show ?case
  proof (cases "lru_get clock k c")
    case (Pair r c')
    with g have rep: "represents c' (config_of c) (snd (spec_get (config_of c) clock k es))" by simp
    note b = bounded_get [OF es(2), of clock k]
    show ?thesis
    proof (cases r)
      case None
      with Pair set_represents [OF rep] bounded_set [OF b] show ?thesis
        by (simp add: GetOrStore_def) (metis represents_def)
    next
      case (Some e)
      with Pair rep b show ?thesis by (simp add: GetOrStore_def) (metis represents_def)
    qed
  qed
next
  case (set c clock k v)
  then obtain es where es: "represents c (config_of c) es" "bounded (config_of c) es" by blast
  show ?case unfolding lru_Set_def by (rule still_bounded [OF set_represents [OF es(1)] bounded_set [OF es(2)]])
next
  case (set_expire c clock k v x)
  then obtain es where es: "represents c (config_of c) es" "bounded (config_of c) es" by blast
  show ?case
    unfolding SetWithExpire_def by (rule still_bounded [OF setWithExpire_represents [OF es(1)] bounded_setWithExpire [OF es(2)]])
next
  case (delete c k)
  then obtain es where es: "represents c (config_of c) es" "bounded (config_of c) es" by blast
  show ?case unfolding lru_Delete_def by (rule still_bounded [OF delete_represents [OF es(1)] bounded_without [OF es(2)]])
next
  case (compute c clock k f)
  then show ?case using Compute_represents bounded_Compute by (metis represents_def)
qed

section \<open>Properties\<close>

text \<open>
  C27.  The map and the linked list together implement one list of entries in order of use: on a
  well-formed cache \<open>Get\<close>, \<open>Set\<close>, \<open>Delete\<close>, \<open>Compute\<close> and \<open>CloneTo\<close> keep the cache well formed, answer
  what the list answers and leave the list's next state; in particular a full cache gives up
  exactly its least recently used entry, and expired entries go only from the old end.
\<close>

theorem LruCache_refines_recency_list:
  assumes "represents c g es"
  shows "fst (lru_Get clock k c) = map_option e_value (fst (spec_get g clock k es)) \<and>
    represents (snd (lru_Get clock k c)) g (snd (spec_get g clock k es)) \<and>
    lru_Exist k c = (k \<in> e_key ` set es) \<and>
    represents (lru_Set clock k v c) g (spec_set g clock k v es) \<and>
    represents (SetWithExpire clock k v x c) g (spec_setWithExpire g clock k v x es) \<and>
    represents (lru_Delete k c) g (without k es) \<and>
    fst (lru_Compute clock k f c) = fst (spec_Compute g clock k f es) \<and>
    represents (snd (lru_Compute clock k f c)) g (snd (spec_Compute g clock k f es)) \<and>
    represents (lru_CloneTo c n) (config_of n) es"
proof -
  have "lru_Exist k c = (k \<in> e_key ` set es)"
    using assms cache_None_iff [of c k] by (auto simp: lru_Exist_def represents_def)
  moreover have "fst (lru_Get clock k c) = map_option e_value (fst (spec_get g clock k es))"
    using get_represents [OF assms, of clock k] by simp
  ultimately show ?thesis
    using get_represents [OF assms] set_represents [OF assms] setWithExpire_represents [OF assms]
      delete_represents [OF assms] Compute_represents [OF assms] CloneTo_represents [OF assms]
    by (simp add: lru_Set_def SetWithExpire_def lru_Delete_def)
qed

theorem LruCache_refines_recency_list_witness:
  "\<exists>c :: (nat, nat) LruCache. \<exists>g. represents c g [\<lparr>e_key = 1, e_value = 10, e_expires = 0\<rparr>] \<and>
     fst (lru_Get (\<lambda>_. 5) 1 c) = Some 10 \<and> fst (lru_Get (\<lambda>_. 5) 2 c) = None"
proof -
  let ?n = "lru_New [WithSize 1] :: (nat, nat) LruCache"
  let ?g = "config_of ?n" and ?e = "\<lparr>e_key = 1, e_value = 10, e_expires = 0\<rparr> :: (nat, nat) entry"
  let ?c = "lru_Set (\<lambda>_. 5) 1 10 ?n"
  have g: "?g = \<lparr>g_maxAge = 0, g_maxSize = 1, g_update = False, g_stale = False\<rparr>"
    by (simp add: lru_New_def lru_Clear_def config_of_def)
  have "represents ?c ?g (spec_set ?g (\<lambda>_. 5) 1 10 [])"
    using LruCache_refines_recency_list [OF New_represents, where k = 1 and v = 10 and clock = "\<lambda>_. 5"] by blast
  moreover have "spec_set ?g (\<lambda>_. 5) 1 10 [] = [?e]"
    by (simp add: g spec_set_def spec_setWithExpire_def spec_expire_def expiring_def Let_def)
  ultimately have r: "represents ?c ?g [?e]" by simp
  have "fst (lru_Get (\<lambda>_. 5) 1 ?c) = Some 10" "fst (lru_Get (\<lambda>_. 5) 2 ?c) = None"
    using LruCache_refines_recency_list [OF r, where clock = "\<lambda>_. 5"] unfolding g
    by (simp_all add: spec_get_def expiring_def Let_def)
  with r show ?thesis by blast
qed

text \<open>
  Whatever operations a program applies to a cache with a size limit, the list never holds
  more entries than the limit, and the map has exactly one key for each of them.
\<close>

lemma LruCache_within_size:
  assumes "lru_reachable c"
  shows "(maxSize c > 0 \<longrightarrow> int (length (lru c)) \<le> maxSize c) \<and> card (dom (cache c)) = length (lru c)"
proof -
  obtain es where r: "represents c (config_of c) es" and b: "bounded (config_of c) es"
    using reachable_bounded [OF assms] by blast
  have inv: "lru_inv c" and es: "es = entries c" using r by (auto simp: represents_def)
  have "dom (cache c) = e_key ` set (entries c)"
    unfolding dom_def set_eq_iff mem_Collect_eq cache_None_iff [OF inv] not_not by simp
  also have "card \<dots> = length (lru c)"
    using keys_distinct [OF inv] distinct_card [of "map e_key (entries c)"] by (simp add: image_image)
  finally show ?thesis using b es by (auto simp: bounded_def config_of_def)
qed

end
