(* ===== verification/Arc_Cache.thy ===== *)
theory Arc_Cache
  imports Prelude
begin

text \<open>
  \<open>common/arc\<close>: the adaptive replacement cache, the other cache the DNS resolver can be configured
  with.  Entries are shared objects: a store maps their addresses to their fields, and the map of
  the cache and its four lists hold addresses.  The lists \<open>t1\<close> and \<open>t2\<close> keep the cached entries,
  \<open>b1\<close> and \<open>b2\<close> the ghosts, entries that lost their value but are remembered; the front of a list is
  its most recent entry.  The linked lists are sequences, as in \<open>LRU_Cache\<close>.  \<^const>\<open>None\<close> is the
  runtime's panic on a nil element.
\<close>

section \<open>State\<close>

datatype arc_list = T1 | B1 | T2 | B2

text \<open>\<open>ae_value\<close> is \<^const>\<open>None\<close> for \<open>lo.Empty\<close>, \<open>ae_ll\<close> for the nil list of a new entry.\<close>

record ('k, 'v) arc_entry =
  ae_key :: 'k
  ae_value :: "'v option"
  ae_ll :: "arc_list option"
  ae_ghost :: bool
  ae_expires :: int

record ('k, 'v) ARC =
  a_p :: int
  a_c :: int
  a_lists :: "arc_list \<Rightarrow> nat list"
  a_len :: int
  a_cache :: "'k \<rightharpoonup> nat"
  a_store :: "nat \<rightharpoonup> ('k, 'v) arc_entry"
  a_next :: nat

abbreviation ll_len :: "('k, 'v) ARC \<Rightarrow> arc_list \<Rightarrow> int" where
  "ll_len a l \<equiv> int (length (a_lists a l))"

definition arc_ent :: "('k, 'v) ARC \<Rightarrow> nat \<Rightarrow> ('k, 'v) arc_entry" where
  "arc_ent a i = the (a_store a i)"

definition arc_write :: "nat \<Rightarrow> (('k, 'v) arc_entry \<Rightarrow> ('k, 'v) arc_entry) \<Rightarrow> ('k, 'v) ARC \<Rightarrow> ('k, 'v) ARC" where
  "arc_write i f a = a\<lparr>a_store := (a_store a)(i \<mapsto> f (arc_ent a i))\<rparr>"

definition arc_Clear :: "('k, 'v) ARC \<Rightarrow> ('k, 'v) ARC" where
  "arc_Clear a = a\<lparr>a_p := 0, a_lists := (\<lambda>_. []), a_len := 0, a_cache := Map.empty\<rparr>"

text \<open>\<open>New\<close> with the size option, if one is given.\<close>

definition arc_New :: "int option \<Rightarrow> ('k, 'v) ARC" where
  "arc_New opt =
     (let a = arc_Clear \<lparr>a_p = 0, a_c = 0, a_lists = (\<lambda>_. []), a_len = 0, a_cache = Map.empty,
                         a_store = Map.empty, a_next = 0\<rparr>
      in case opt of None \<Rightarrow> a | Some maxSize \<Rightarrow> a\<lparr>a_c := maxSize\<rparr>)"

section \<open>entry.go\<close>

definition detach :: "nat \<Rightarrow> ('k, 'v) ARC \<Rightarrow> ('k, 'v) ARC" where
  "detach i a =
     (case ae_ll (arc_ent a i) of
        None \<Rightarrow> a
      | Some l \<Rightarrow> a\<lparr>a_lists := (a_lists a)(l := filter (\<lambda>j. j \<noteq> i) (a_lists a l))\<rparr>)"

definition setMRU :: "nat \<Rightarrow> arc_list \<Rightarrow> ('k, 'v) ARC \<Rightarrow> ('k, 'v) ARC" where
  "setMRU i l a =
     (let a1 = arc_write i (\<lambda>e. e\<lparr>ae_ll := Some l\<rparr>) (detach i a) in
      a1\<lparr>a_lists := (a_lists a1)(l := i # a_lists a1 l)\<rparr>)"

definition setLRU :: "nat \<Rightarrow> arc_list \<Rightarrow> ('k, 'v) ARC \<Rightarrow> ('k, 'v) ARC" where
  "setLRU i l a =
     (let a1 = arc_write i (\<lambda>e. e\<lparr>ae_ll := Some l\<rparr>) (detach i a) in
      a1\<lparr>a_lists := (a_lists a1)(l := a_lists a1 l @ [i])\<rparr>)"

section \<open>arc.go\<close>

definition delLRU :: "arc_list \<Rightarrow> ('k, 'v) ARC \<Rightarrow> ('k, 'v) ARC option" where
  "delLRU l a =
     (case a_lists a l of
        [] \<Rightarrow> None
      | xs \<Rightarrow>
          let i = last xs in
          Some (a\<lparr>a_lists := (a_lists a)(l := butlast xs), a_len := a_len a - 1,
                  a_cache := (a_cache a)(ae_key (arc_ent a i) := None)\<rparr>))"

text \<open>The two branches of \<open>replace\<close>: the oldest entry of one list becomes a ghost on another.\<close>

definition demote :: "arc_list \<Rightarrow> arc_list \<Rightarrow> ('k, 'v) ARC \<Rightarrow> ('k, 'v) ARC option" where
  "demote src dst a =
     (case a_lists a src of
        [] \<Rightarrow> None
      | xs \<Rightarrow>
          let i = last xs;
              a1 = arc_write i (\<lambda>e. e\<lparr>ae_value := None, ae_ghost := True\<rparr>) a
          in Some (setMRU i dst (a1\<lparr>a_len := a_len a1 - 1\<rparr>)))"

definition replace :: "nat \<Rightarrow> ('k, 'v) ARC \<Rightarrow> ('k, 'v) ARC option" where
  "replace i a =
     (if ll_len a T1 > 0 \<and> (ll_len a T1 > a_p a \<or> ae_ll (arc_ent a i) = Some B2 \<and> ll_len a T1 = a_p a)
      then demote T1 B1 a else demote T2 B2 a)"

definition req :: "nat \<Rightarrow> ('k, 'v) ARC \<Rightarrow> ('k, 'v) ARC option" where
  "req i a =
     (case ae_ll (arc_ent a i) of
        Some T1 \<Rightarrow> Some (setMRU i T2 a)
      | Some T2 \<Rightarrow> Some (setMRU i T2 a)
      | Some B1 \<Rightarrow>
          let d = (if ll_len a B1 \<ge> ll_len a B2 then 1 else ll_len a B2 div ll_len a B1) in
          map_option (setMRU i T2) (replace i (a\<lparr>a_p := min (a_p a + d) (a_c a)\<rparr>))
      | Some B2 \<Rightarrow>
          let d = (if ll_len a B2 \<ge> ll_len a B1 then 1 else ll_len a B1 div ll_len a B2) in
          map_option (setMRU i T2) (replace i (a\<lparr>a_p := max (a_p a - d) 0\<rparr>))
      | None \<Rightarrow>
          if ll_len a T1 + ll_len a B1 = a_c a then
            (if ll_len a T1 < a_c a
             then map_option (setMRU i T1) (Option.bind (delLRU B1 a) (replace i))
             else map_option (setMRU i T1) (delLRU T1 a))
          else if ll_len a T1 + ll_len a B1 < a_c a then
            (let total = ll_len a T1 + ll_len a T2 + ll_len a B1 + ll_len a B2 in
             if total \<ge> a_c a then
               map_option (setMRU i T1)
                 (Option.bind (if total = 2 * a_c a then delLRU B2 a else Some a) (replace i))
             else Some (setMRU i T1 a))
          else Some (setMRU i T1 a))"

definition arc_setWithExpire :: "'k \<Rightarrow> 'v \<Rightarrow> int \<Rightarrow> ('k, 'v) ARC \<Rightarrow> ('k, 'v) ARC option" where
  "arc_setWithExpire key value expires a =
     (case a_cache a key of
        None \<Rightarrow>
          let i = a_next a;
              ent = \<lparr>ae_key = key, ae_value = Some value, ae_ll = None, ae_ghost = False, ae_expires = expires\<rparr>;
              a1 = a\<lparr>a_len := a_len a + 1, a_store := (a_store a)(i \<mapsto> ent), a_next := Suc i\<rparr>
          in map_option (\<lambda>a2. a2\<lparr>a_cache := (a_cache a2)(key \<mapsto> i)\<rparr>) (req i a1)
      | Some i \<Rightarrow>
          let a1 = (if ae_ghost (arc_ent a i) then a\<lparr>a_len := a_len a + 1\<rparr> else a) in
          req i (arc_write i (\<lambda>e. e\<lparr>ae_value := Some value, ae_ghost := False, ae_expires := expires\<rparr>) a1))"

definition arc_set :: "'k \<Rightarrow> 'v \<Rightarrow> ('k, 'v) ARC \<Rightarrow> ('k, 'v) ARC option" where
  "arc_set key value a = arc_setWithExpire key value 0 a"

text \<open>\<open>get\<close> answers with the entry, unless it is a ghost; \<open>req\<close> is called for a ghost as well.\<close>

definition arc_get :: "'k \<Rightarrow> ('k, 'v) ARC \<Rightarrow> (('k, 'v) arc_entry option \<times> ('k, 'v) ARC) option" where
  "arc_get key a =
     (case a_cache a key of
        None \<Rightarrow> Some (None, a)
      | Some i \<Rightarrow>
          map_option (\<lambda>a1. (if ae_ghost (arc_ent a1 i) then None else Some (arc_ent a1 i), a1)) (req i a))"

definition arc_Get :: "'k \<Rightarrow> ('k, 'v) ARC \<Rightarrow> ('v option \<times> ('k, 'v) ARC) option" where
  "arc_Get key a = map_option (\<lambda>(r, a1). (Option.bind r ae_value, a1)) (arc_get key a)"

definition arc_GetWithExpire :: "'k \<Rightarrow> ('k, 'v) ARC \<Rightarrow> (('v \<times> int) option \<times> ('k, 'v) ARC) option" where
  "arc_GetWithExpire key a =
     map_option (\<lambda>(r, a1). (Option.bind r (\<lambda>e. map_option (\<lambda>v. (v, ae_expires e)) (ae_value e)), a1)) (arc_get key a)"

definition arc_Len :: "('k, 'v) ARC \<Rightarrow> int" where
  "arc_Len a = a_len a"

section \<open>Links\<close>

text \<open>
  Every address on a list belongs to an entry that knows the list and that the map knows, every
  address in the map is on the list its entry names, and exactly the ghosts have lost their value.
\<close>

definition linked :: "('k, 'v) ARC \<Rightarrow> bool" where
  "linked a \<longleftrightarrow>
     (\<forall>l. distinct (a_lists a l)) \<and>
     (\<forall>l. \<forall>i \<in> set (a_lists a l).
        \<exists>e. a_store a i = Some e \<and> ae_ll e = Some l \<and> a_cache a (ae_key e) = Some i) \<and>
     (\<forall>k i. a_cache a k = Some i \<longrightarrow>
        (\<exists>e l. a_store a i = Some e \<and> ae_key e = k \<and> ae_ll e = Some l \<and> i \<in> set (a_lists a l))) \<and>
     (\<forall>i e. a_store a i = Some e \<longrightarrow>
        i < a_next a \<and> (ae_ghost e \<longleftrightarrow> ae_value e = None))"

text \<open>The entries of \<open>b1\<close> and \<open>b2\<close> are ghosts, except for one that is being revived.\<close>

definition ghosts :: "nat set \<Rightarrow> ('k, 'v) ARC \<Rightarrow> bool" where
  "ghosts X a \<longleftrightarrow> (\<forall>l \<in> {B1, B2}. \<forall>i \<in> set (a_lists a l) - X. ae_ghost (arc_ent a i))"

definition arc_view :: "('k, 'v) ARC \<Rightarrow> 'k \<rightharpoonup> 'v \<times> int" where
  "arc_view a k =
     Option.bind (a_cache a k) (\<lambda>i. Option.bind (a_store a i) (\<lambda>e. map_option (\<lambda>v. (v, ae_expires e)) (ae_value e)))"

lemma linkedD:
  assumes "linked a"
  shows "distinct (a_lists a l)"
    "i \<in> set (a_lists a l) \<Longrightarrow> \<exists>e. a_store a i = Some e \<and> ae_ll e = Some l \<and> a_cache a (ae_key e) = Some i"
    "a_cache a k = Some i \<Longrightarrow>
       \<exists>e l. a_store a i = Some e \<and> ae_key e = k \<and> ae_ll e = Some l \<and> i \<in> set (a_lists a l)"
    "a_store a i = Some e \<Longrightarrow> i < a_next a"
    "a_store a i = Some e \<Longrightarrow> ae_ghost e \<longleftrightarrow> ae_value e = None"
  using assms by (auto simp: linked_def)

lemma linked_ll:
  assumes "linked a" "i \<in> set (a_lists a l)"
  shows "ae_ll (arc_ent a i) = Some l" "a_cache a (ae_key (arc_ent a i)) = Some i" "a_store a i = Some (arc_ent a i)"
  using linkedD(2) [OF assms] by (auto simp: arc_ent_def)

lemma linked_unique:
  assumes "linked a" "i \<in> set (a_lists a l)" "i \<in> set (a_lists a l')"
  shows "l = l'"
  using linked_ll(1) [OF assms(1,2)] linked_ll(1) [OF assms(1,3)] by simp

text \<open>Moving an entry to the front of a list.\<close>

lemma setMRU_lists:
  assumes "linked a" "i \<in> set (a_lists a l0)"
  shows "a_lists (setMRU i l a) =
    ((a_lists a)(l0 := filter (\<lambda>j. j \<noteq> i) (a_lists a l0)))(l := i # filter (\<lambda>j. j \<noteq> i) (a_lists a l))"
proof -
  have "filter (\<lambda>j. j \<noteq> i) (a_lists a l) = a_lists a l" if "l \<noteq> l0"
    using linked_unique [OF assms] that by (auto intro!: filter_True)
  then show ?thesis
    using linked_ll(1) [OF assms] by (auto simp: setMRU_def detach_def arc_write_def Let_def)
qed

lemma setMRU_frame [simp]:
  "a_cache (setMRU i l a) = a_cache a" "a_p (setMRU i l a) = a_p a" "a_c (setMRU i l a) = a_c a"
  "a_len (setMRU i l a) = a_len a" "a_next (setMRU i l a) = a_next a"
  "a_store (setMRU i l a) = (a_store a)(i \<mapsto> (arc_ent a i)\<lparr>ae_ll := Some l\<rparr>)"
  by (simp_all add: setMRU_def detach_def arc_write_def arc_ent_def Let_def split: option.splits)

lemma arc_ent_setMRU: "arc_ent (setMRU i l a) j = (if j = i then (arc_ent a i)\<lparr>ae_ll := Some l\<rparr> else arc_ent a j)"
  by (simp add: arc_ent_def)

lemma length_filter_neq: "distinct xs \<Longrightarrow> x \<in> set xs \<Longrightarrow> Suc (length (filter (\<lambda>y. y \<noteq> x) xs)) = length xs"
  by (induction xs) (auto intro!: arg_cong [where f = length] filter_True)

lemma length_setMRU:
  assumes "linked a" "i \<in> set (a_lists a l0)"
  shows "ll_len (setMRU i l a) l' = ll_len a l' - (if l' = l0 then 1 else 0) + (if l' = l then 1 else 0)"
proof -
  have "int (length (filter (\<lambda>j. j \<noteq> i) (a_lists a l0))) = ll_len a l0 - 1"
    using length_filter_neq [OF linkedD(1) [OF assms(1)] assms(2)] by simp
  moreover have "filter (\<lambda>j. j \<noteq> i) (a_lists a l) = a_lists a l" if "l \<noteq> l0"
    using linked_unique [OF assms] that by (auto intro!: filter_True)
  ultimately show ?thesis by (simp add: setMRU_lists [OF assms])
qed

lemma linked_setMRU:
  assumes "linked a" "i \<in> set (a_lists a l0)"
  shows "linked (setMRU i l a)"
proof -
  note L = linkedD [OF assms(1)] and E = linked_ll [OF assms(1,2)]
  let ?b = "setMRU i l a"
  have mem: "j \<in> set (a_lists ?b l') \<longleftrightarrow> (if j = i then l' = l else j \<in> set (a_lists a l'))" for j l'
    using linked_unique [OF assms(1,2), of l'] by (auto simp: setMRU_lists [OF assms(1,2)])
  have st: "a_store ?b j = (if j = i then Some ((arc_ent a i)\<lparr>ae_ll := Some l\<rparr>) else a_store a j)" for j by simp
  show ?thesis
    unfolding linked_def
  proof (intro conjI allI ballI impI)
    fix l' show "distinct (a_lists ?b l')" using L(1) by (simp add: setMRU_lists [OF assms(1,2)])
  next
    fix l' j assume "j \<in> set (a_lists ?b l')"
    then show "\<exists>e. a_store ?b j = Some e \<and> ae_ll e = Some l' \<and> a_cache ?b (ae_key e) = Some j"
      using L(2) [of j l'] E by (auto simp: mem st split: if_splits)
  next
    fix k j assume "a_cache ?b k = Some j"
    then show "\<exists>e l'. a_store ?b j = Some e \<and> ae_key e = k \<and> ae_ll e = Some l' \<and> j \<in> set (a_lists ?b l')"
      using L(3) [of k j] E by (cases "j = i") (auto simp: mem st)
  next
    fix j e assume "a_store ?b j = Some e"
    then show "j < a_next ?b" "ae_ghost e \<longleftrightarrow> ae_value e = None"
      using L(4,5) [of j] L(4,5) [OF E(3)] by (auto simp: st split: if_splits)
  qed
qed

lemma ghosts_setMRU:
  assumes "linked a" "i \<in> set (a_lists a l0)" "ghosts X a" "l \<in> {B1, B2} \<Longrightarrow> ae_ghost (arc_ent a i)"
  shows "ghosts (X - {i}) (setMRU i l a)"
  unfolding ghosts_def
proof (intro ballI)
  fix l' j assume l': "l' \<in> {B1, B2}" and j: "j \<in> set (a_lists (setMRU i l a) l') - (X - {i})"
  show "ae_ghost (arc_ent (setMRU i l a) j)"
  proof (cases "j = i")
    case True
    with j linked_unique [OF assms(1,2), of l'] have "l' = l" by (auto simp: setMRU_lists [OF assms(1,2)] split: if_splits)
    with True l' assms(4) show ?thesis by (simp add: arc_ent_setMRU)
  next
    case False
    with j have "j \<in> set (a_lists a l') - X" by (auto simp: setMRU_lists [OF assms(1,2)] split: if_splits)
    with l' assms(3) False show ?thesis by (auto simp: ghosts_def arc_ent_setMRU)
  qed
qed

lemma view_setMRU: "a_store a i = Some e \<Longrightarrow> arc_view (setMRU i l a) = arc_view a"
  by (rule ext) (auto simp: arc_view_def arc_ent_def bind_eq_Some_conv Option.bind_map_option split: bind_splits)

text \<open>Forgetting the oldest entry of a list.\<close>

lemma set_butlast: "distinct xs \<Longrightarrow> set (butlast xs) = set xs - {last xs}"
  by (cases xs rule: rev_cases) auto

lemma length_butlast_int: "xs \<noteq> [] \<Longrightarrow> int (length (butlast xs)) = int (length xs) - 1"
  by (cases xs) auto

lemma delLRU_linked:
  assumes "linked a" "a_lists a l \<noteq> []"
  obtains b where "delLRU l a = Some b" "linked b" "a_p b = a_p a" "a_c b = a_c a" "a_next b = a_next a"
    "a_store b = a_store a" "arc_view b \<subseteq>\<^sub>m arc_view a" "dom (a_cache b) \<subseteq> dom (a_cache a)"
    "\<And>l'. a_lists b l' = (if l' = l then butlast (a_lists a l) else a_lists a l')"
    "\<And>X. ghosts X a \<Longrightarrow> ghosts X b"
proof -
  let ?i = "last (a_lists a l)"
  let ?b = "a\<lparr>a_lists := (a_lists a)(l := butlast (a_lists a l)), a_len := a_len a - 1,
    a_cache := (a_cache a)(ae_key (arc_ent a ?i) := None)\<rparr>"
  note L = linkedD [OF assms(1)]
  have i: "?i \<in> set (a_lists a l)" using assms(2) by simp
  have mem: "j \<in> set (a_lists ?b l') \<longleftrightarrow> j \<in> set (a_lists a l') \<and> j \<noteq> ?i" for j l'
  proof (cases "l' = l")
    case False
    then have "?i \<notin> set (a_lists a l')" using linked_unique [OF assms(1) i] by blast
    with False show ?thesis by auto
  qed (simp add: set_butlast [OF L(1)])
  have cache: "a_cache ?b k = Some j \<longleftrightarrow> a_cache a k = Some j \<and> j \<noteq> ?i" for k j
  proof -
    obtain e where "arc_ent a ?i = e" "a_store a ?i = Some e" "a_cache a (ae_key e) = Some ?i"
      using linked_ll [OF assms(1) i] by blast
    then show ?thesis using L(3) [of k j] by auto
  qed
  have "linked ?b"
    unfolding linked_def
  proof (intro conjI allI ballI impI)
    fix l' show "distinct (a_lists ?b l')" using L(1) by (simp add: distinct_butlast)
  next
    fix l' j assume "j \<in> set (a_lists ?b l')"
    then have j: "j \<in> set (a_lists a l')" "j \<noteq> ?i" unfolding mem by simp_all
    then show "\<exists>e. a_store ?b j = Some e \<and> ae_ll e = Some l' \<and> a_cache ?b (ae_key e) = Some j"
      unfolding cache using L(2) [OF j(1)] by auto
  next
    fix k j assume "a_cache ?b k = Some j"
    then have "a_cache a k = Some j" "j \<noteq> ?i" unfolding cache by blast+
    then show "\<exists>e l'. a_store ?b j = Some e \<and> ae_key e = k \<and> ae_ll e = Some l' \<and> j \<in> set (a_lists ?b l')"
      unfolding mem using L(3) [of k j] by auto
  next
    fix j e assume "a_store ?b j = Some e"
    then show "j < a_next ?b" "ae_ghost e \<longleftrightarrow> ae_value e = None" using L(4,5) [of j] by auto
  qed
  moreover have "delLRU l a = Some ?b" using assms(2) by (auto simp: delLRU_def Let_def split: list.splits)
  moreover have "arc_view ?b \<subseteq>\<^sub>m arc_view a" by (auto simp: map_le_def arc_view_def)
  moreover have "ghosts X a \<Longrightarrow> ghosts X ?b" for X
    by (auto simp: ghosts_def arc_ent_def dest: in_set_butlastD)
  ultimately show thesis by (intro that [of ?b]) auto
qed

text \<open>Making the oldest entry of a list a ghost.\<close>

lemma arc_write_linked:
  assumes "linked a" "i \<in> set (a_lists a l)"
    "\<And>e. ae_key (f e) = ae_key e" "\<And>e. ae_ll (f e) = ae_ll e"
    "\<And>e. ae_ghost (f e) \<longleftrightarrow> ae_value (f e) = None"
  shows "linked (arc_write i f a)"
proof -
  note L = linkedD [OF assms(1)] and E = linked_ll [OF assms(1,2)]
  have "\<exists>e. a_store (arc_write i f a) j = Some e \<and> ae_ll e = Some l' \<and> a_cache a (ae_key e) = Some j"
    if "j \<in> set (a_lists a l')" for j l'
    using L(2) [OF that] assms(3,4) by (auto simp: arc_write_def arc_ent_def)
  moreover have "\<exists>e l'. a_store (arc_write i f a) j = Some e \<and> ae_key e = k \<and> ae_ll e = Some l' \<and> j \<in> set (a_lists a l')"
    if "a_cache a k = Some j" for j k
    using L(3) [OF that] assms(3,4) by (auto simp: arc_write_def arc_ent_def)
  moreover have "j < a_next a \<and> (ae_ghost e \<longleftrightarrow> ae_value e = None)" if "a_store (arc_write i f a) j = Some e" for j e
    using that L(4,5) [of j e] L(4) [OF E(3)] assms(5) by (auto simp: arc_write_def split: if_splits)
  moreover have "a_lists (arc_write i f a) = a_lists a" "a_cache (arc_write i f a) = a_cache a" "a_next (arc_write i f a) = a_next a"
    by (simp_all add: arc_write_def)
  ultimately show ?thesis unfolding linked_def using L(1) by simp
qed

lemma demote_linked:
  assumes "linked a" "a_lists a src \<noteq> []" "src \<in> {T1, T2}" "dst \<in> {B1, B2}"
  obtains b where "demote src dst a = Some b" "linked b" "a_p b = a_p a" "a_c b = a_c a" "a_next b = a_next a"
    "a_cache b = a_cache a" "arc_view b \<subseteq>\<^sub>m arc_view a"
    "\<And>l. ll_len b l = ll_len a l - (if l = src then 1 else 0) + (if l = dst then 1 else 0)"
    "\<And>j. j \<notin> set (a_lists a src) \<Longrightarrow> a_store b j = a_store a j"
    "\<And>j l. l \<in> {B1, B2} \<Longrightarrow> j \<in> set (a_lists a l) \<Longrightarrow> j \<in> set (a_lists b l)"
    "\<And>X. ghosts X a \<Longrightarrow> ghosts X b"
proof -
  define i where "i = last (a_lists a src)"
  let ?w = "(arc_write i (\<lambda>e. e\<lparr>ae_value := None, ae_ghost := True\<rparr>) a)\<lparr>a_len := a_len a - 1\<rparr>"
  have i: "i \<in> set (a_lists a src)" using assms(2) by (simp add: i_def)
  have "linked (arc_write i (\<lambda>e. e\<lparr>ae_value := None, ae_ghost := True\<rparr>) a)"
    by (intro arc_write_linked [OF assms(1) i]) auto
  then have w: "linked ?w" by (simp add: linked_def arc_ent_def)
  have lists: "a_lists ?w = a_lists a" by (simp add: arc_write_def)
  have ent: "arc_ent ?w i = (arc_ent a i)\<lparr>ae_value := None, ae_ghost := True\<rparr>" "a_store ?w i = Some (arc_ent ?w i)"
    by (simp_all add: arc_ent_def arc_write_def)
  have iw: "i \<in> set (a_lists ?w src)" using i by (simp add: lists)
  have b: "linked (setMRU i dst ?w)" using linked_setMRU [OF w iw] ent by simp
  have view: "arc_view (setMRU i dst ?w) \<subseteq>\<^sub>m arc_view a"
    unfolding view_setMRU [OF ent(2)] by (auto simp: map_le_def arc_view_def arc_write_def bind_eq_Some_conv split: if_splits)
  have "demote src dst a = Some (setMRU i dst ?w)"
    using assms(2) by (auto simp: demote_def Let_def i_def arc_write_def split: list.splits)
  then show thesis
  proof (rule that [OF _ b _ _ _ _ view], goal_cases)
    case (5 l)
    then show ?case by (simp add: length_setMRU [OF w iw] lists)
  next
    case (6 j)
    then show ?case using i by (auto simp: arc_write_def)
  next
    case (7 j l)
    then have "l \<noteq> src" using assms(3) by auto
    with 7 show ?case using linked_unique [OF assms(1) i, of l] by (auto simp: setMRU_lists [OF w iw] lists)
  next
    case (8 X)
    then have "ghosts X ?w" by (simp add: ghosts_def arc_write_def arc_ent_def)
    from ghosts_setMRU [OF w iw this, of dst] ent(1) show ?case by (auto simp: ghosts_def)
  qed (simp_all add: arc_write_def)
qed

section \<open>Sizes\<close>

text \<open>
  \<open>t1\<close> and \<open>t2\<close> together have room for \<open>c\<close> entries, and so have \<open>t1\<close> and \<open>b1\<close>; there are ghosts only when
  the cache is full.
\<close>

definition fits :: "int \<Rightarrow> int \<Rightarrow> (arc_list \<Rightarrow> int) \<Rightarrow> bool" where
  "fits c p n \<longleftrightarrow>
     0 < c \<and> 0 \<le> p \<and> p \<le> c \<and> n T1 + n T2 \<le> c \<and> n T1 + n B1 \<le> c \<and>
     n T1 + n T2 + n B1 + n B2 \<le> 2 * c \<and> (n B1 + n B2 = 0 \<or> n T1 + n T2 = c)"

abbreviation sized :: "('k, 'v) ARC \<Rightarrow> bool" where
  "sized a \<equiv> fits (a_c a) (a_p a) (ll_len a)"

text \<open>Where there is room for one more entry once \<open>replace\<close> has made it, \<open>replace\<close> finds one to take.\<close>

lemma replace_linked:
  assumes "linked a" "0 \<le> a_p a" "ll_len a T1 + ll_len a T2 > 0"
    "ll_len a T2 > 0 \<or> ll_len a T1 > a_p a \<or> ae_ll (arc_ent a i) = Some B2 \<and> ll_len a T1 \<ge> a_p a"
  obtains b src dst where "replace i a = Some b" "linked b" "a_p b = a_p a" "a_c b = a_c a" "a_next b = a_next a"
    "a_cache b = a_cache a" "arc_view b \<subseteq>\<^sub>m arc_view a" "(src, dst) \<in> {(T1, B1), (T2, B2)}" "ll_len a src > 0"
    "\<And>l. ll_len b l = ll_len a l - (if l = src then 1 else 0) + (if l = dst then 1 else 0)"
    "\<And>j. j \<notin> set (a_lists a T1) \<union> set (a_lists a T2) \<Longrightarrow> a_store b j = a_store a j"
    "\<And>j l. l \<in> {B1, B2} \<Longrightarrow> j \<in> set (a_lists a l) \<Longrightarrow> j \<in> set (a_lists b l)"
    "\<And>X. ghosts X a \<Longrightarrow> ghosts X b"
proof (cases "ll_len a T1 > 0 \<and> (ll_len a T1 > a_p a \<or> ae_ll (arc_ent a i) = Some B2 \<and> ll_len a T1 = a_p a)")
  case True
  then have ne: "a_lists a T1 \<noteq> []" by auto
  from True have "replace i a = demote T1 B1 a" by (simp add: replace_def)
  moreover obtain b where "demote T1 B1 a = Some b" "linked b" "a_p b = a_p a" "a_c b = a_c a" "a_next b = a_next a"
    "a_cache b = a_cache a" "arc_view b \<subseteq>\<^sub>m arc_view a"
    "\<And>l. ll_len b l = ll_len a l - (if l = T1 then 1 else 0) + (if l = B1 then 1 else 0)"
    "\<And>j. j \<notin> set (a_lists a T1) \<Longrightarrow> a_store b j = a_store a j"
    "\<And>j l. l \<in> {B1, B2} \<Longrightarrow> j \<in> set (a_lists a l) \<Longrightarrow> j \<in> set (a_lists b l)"
    "\<And>X. ghosts X a \<Longrightarrow> ghosts X b"
    by (rule demote_linked [OF assms(1) ne, of B1]) auto
  ultimately show thesis using that [of b T1 B1] True by auto
next
  case False
  then have "ll_len a T2 > 0" using assms(2-4) by linarith
  then have ne: "a_lists a T2 \<noteq> []" by auto
  from False have "replace i a = demote T2 B2 a" unfolding replace_def by (rule if_not_P)
  moreover obtain b where "demote T2 B2 a = Some b" "linked b" "a_p b = a_p a" "a_c b = a_c a" "a_next b = a_next a"
    "a_cache b = a_cache a" "arc_view b \<subseteq>\<^sub>m arc_view a"
    "\<And>l. ll_len b l = ll_len a l - (if l = T2 then 1 else 0) + (if l = B2 then 1 else 0)"
    "\<And>j. j \<notin> set (a_lists a T2) \<Longrightarrow> a_store b j = a_store a j"
    "\<And>j l. l \<in> {B1, B2} \<Longrightarrow> j \<in> set (a_lists a l) \<Longrightarrow> j \<in> set (a_lists b l)"
    "\<And>X. ghosts X a \<Longrightarrow> ghosts X b"
    by (rule demote_linked [OF assms(1) ne, of B2]) auto
  ultimately show thesis using that [of b T2 B2] ne by auto
qed

text \<open>A request for an entry the cache knows.\<close>

lemma member_pos: "i \<in> set (a_lists a l) \<Longrightarrow> 0 < ll_len a l"
  by (cases "a_lists a l") auto

definition served :: "nat \<Rightarrow> ('k, 'v) ARC \<Rightarrow> ('k, 'v) ARC \<Rightarrow> bool" where
  "served i a b \<longleftrightarrow>
     linked b \<and> sized b \<and> ghosts {} b \<and> a_c b = a_c a \<and> a_next b = a_next a \<and> a_cache b = a_cache a \<and>
     arc_view b \<subseteq>\<^sub>m arc_view a \<and> a_store b i = Some ((arc_ent a i)\<lparr>ae_ll := Some T2\<rparr>)"

lemma req_ghost:
  assumes "linked a" "sized a" "ghosts {i} a" "i \<in> set (a_lists a l0)" "l0 \<in> {B1, B2}" "0 \<le> p" "p \<le> a_c a"
  shows "\<exists>b. map_option (setMRU i T2) (replace i (a\<lparr>a_p := p\<rparr>)) = Some b \<and> served i a b"
proof -
  let ?a = "a\<lparr>a_p := p\<rparr>"
  have ent: "arc_ent ?a = arc_ent a" by (simp add: arc_ent_def fun_eq_iff)
  have a: "linked ?a" "ghosts {i} ?a" using assms(1,3) by (simp_all add: linked_def ghosts_def ent)
  have pos: "0 < ll_len a l0" by (rule member_pos [OF assms(4)])
  have full: "ll_len a T1 + ll_len a T2 = a_c a" using assms(2,5) pos
    by (auto simp: fits_def simp del: of_nat_0_less_iff)
  have p: "0 \<le> a_p ?a" "ll_len ?a T1 + ll_len ?a T2 > 0" using full assms(2,6) by (simp_all add: fits_def)
  have room: "ll_len ?a T2 > 0 \<or> ll_len ?a T1 > a_p ?a \<or> ae_ll (arc_ent ?a i) = Some B2 \<and> ll_len ?a T1 \<ge> a_p ?a"
    using assms(2,5,7) pos full linked_ll(1) [OF assms(1,4)] by (auto simp: fits_def ent)
  obtain b src dst where b: "replace i ?a = Some b" "linked b" "a_p b = p" "a_c b = a_c a" "a_next b = a_next a"
    "a_cache b = a_cache a" "arc_view b \<subseteq>\<^sub>m arc_view ?a" "(src, dst) \<in> {(T1, B1), (T2, B2)}"
    "\<And>l. ll_len b l = ll_len a l - (if l = src then 1 else 0) + (if l = dst then 1 else 0)"
    "\<And>j. j \<notin> set (a_lists a T1) \<union> set (a_lists a T2) \<Longrightarrow> a_store b j = a_store a j"
    "\<And>j l. l \<in> {B1, B2} \<Longrightarrow> j \<in> set (a_lists a l) \<Longrightarrow> j \<in> set (a_lists b l)"
    "\<And>X. ghosts X ?a \<Longrightarrow> ghosts X b"
    by (rule replace_linked [OF a(1) p room]) auto
  have i: "i \<in> set (a_lists b l0)" by (rule b(11) [OF assms(5,4)])
  have "i \<notin> set (a_lists a T1) \<union> set (a_lists a T2)" using linked_unique [OF assms(1,4)] assms(5) by auto
  then have st: "a_store b i = a_store a i" by (rule b(10))
  have "arc_view (setMRU i T2 b) = arc_view b"
    by (rule view_setMRU) (use st linked_ll(3) [OF assms(1,4)] in simp)
  moreover have "arc_view ?a = arc_view a" by (simp add: arc_view_def fun_eq_iff)
  moreover have "sized (setMRU i T2 b)"
    using assms(2,5,6,7) full pos b(8) by (auto simp: fits_def length_setMRU [OF b(2) i] b(3,4,9))
  moreover have "ghosts {} (setMRU i T2 b)" using ghosts_setMRU [OF b(2) i b(12) [OF a(2)], of T2] by simp
  ultimately show ?thesis
    using b(1,4-7) linked_setMRU [OF b(2) i] st
    by (intro exI [of _ "setMRU i T2 b"]) (simp add: served_def arc_ent_def)
qed

lemma req_known:
  assumes "linked a" "sized a" "ghosts {i} a" "i \<in> set (a_lists a l0)"
  shows "\<exists>b. req i a = Some b \<and> served i a b"
proof (cases l0)
  case B1
  let ?d = "if ll_len a B1 \<ge> ll_len a B2 then 1 else ll_len a B2 div ll_len a B1"
  have "0 \<le> ?d" by (simp flip: zdiv_int)
  then have "0 \<le> min (a_p a + ?d) (a_c a)" "min (a_p a + ?d) (a_c a) \<le> a_c a"
    using assms(2) by (auto simp: fits_def simp del: of_nat_le_iff split: if_splits)
  moreover have "req i a = map_option (setMRU i T2) (replace i (a\<lparr>a_p := min (a_p a + ?d) (a_c a)\<rparr>))"
    using linked_ll(1) [OF assms(1,4)] B1 by (simp add: req_def Let_def)
  ultimately show ?thesis using req_ghost [OF assms, of "min (a_p a + ?d) (a_c a)"] B1 by simp
next
  case B2
  let ?d = "if ll_len a B2 \<ge> ll_len a B1 then 1 else ll_len a B1 div ll_len a B2"
  have "0 \<le> ?d" by (simp flip: zdiv_int)
  then have "0 \<le> max (a_p a - ?d) 0" "max (a_p a - ?d) 0 \<le> a_c a"
    using assms(2) by (auto simp: fits_def simp del: of_nat_le_iff split: if_splits)
  moreover have "req i a = map_option (setMRU i T2) (replace i (a\<lparr>a_p := max (a_p a - ?d) 0\<rparr>))"
    using linked_ll(1) [OF assms(1,4)] B2 by (simp add: req_def Let_def)
  ultimately show ?thesis using req_ghost [OF assms, of "max (a_p a - ?d) 0"] B2 by simp
qed ((rule exI [of _ "setMRU i T2 a"],
    use assms(2) member_pos [OF assms(4)] linked_ll [OF assms(1,4)] linked_setMRU [OF assms(1,4)]
      ghosts_setMRU [OF assms(1,4,3), of T2] view_setMRU [of a i _ T2]
    in \<open>auto simp: served_def req_def fits_def length_setMRU [OF assms(1,4)]\<close>)+)

text \<open>A request for a new entry first makes room for it, then puts it on \<open>t1\<close>.\<close>

definition roomy :: "nat \<Rightarrow> ('k, 'v) ARC \<Rightarrow> ('k, 'v) ARC \<Rightarrow> bool" where
  "roomy i a b \<longleftrightarrow>
     linked b \<and> ghosts {} b \<and> fits (a_c b) (a_p b) (\<lambda>l. ll_len b l + (if l = T1 then 1 else 0)) \<and>
     a_c b = a_c a \<and> a_next b = a_next a \<and> dom (a_cache b) \<subseteq> dom (a_cache a) \<and>
     arc_view b \<subseteq>\<^sub>m arc_view a \<and> a_store b i = a_store a i"

lemma replace_roomy:
  assumes "linked a" "ghosts {} a" "i \<notin> set (a_lists a T1) \<union> set (a_lists a T2)"
    "0 \<le> a_p a" "a_p a \<le> a_c a" "ll_len a T1 + ll_len a T2 = a_c a" "ll_len a T1 + ll_len a B1 < a_c a"
    "ll_len a T1 + ll_len a T2 + ll_len a B1 + ll_len a B2 < 2 * a_c a"
  shows "\<exists>b. replace i a = Some b \<and> roomy i a b"
proof -
  have "ll_len a T2 > 0" using assms(6,7) by linarith
  moreover from this have "ll_len a T1 + ll_len a T2 > 0" by linarith
  ultimately obtain b src dst where b: "replace i a = Some b" "linked b" "a_p b = a_p a" "a_c b = a_c a" "a_next b = a_next a"
    "a_cache b = a_cache a" "arc_view b \<subseteq>\<^sub>m arc_view a" "(src, dst) \<in> {(T1, B1), (T2, B2)}" "ll_len a src > 0"
    "\<And>l. ll_len b l = ll_len a l - (if l = src then 1 else 0) + (if l = dst then 1 else 0)"
    "\<And>j. j \<notin> set (a_lists a T1) \<union> set (a_lists a T2) \<Longrightarrow> a_store b j = a_store a j"
    "\<And>X. ghosts X a \<Longrightarrow> ghosts X b"
    using replace_linked [OF assms(1,4), of i] by metis
  have "fits (a_c b) (a_p b) (\<lambda>l. ll_len b l + (if l = T1 then 1 else 0))"
    using assms(4-8) b(8) by (auto simp: fits_def b(3,4,10))
  then show ?thesis using b(1,2,4-7) b(11) [OF assms(3)] b(12) [OF assms(2)] by (simp add: roomy_def)
qed

lemma roomy_trans:
  "roomy i a' b \<Longrightarrow> a_c a' = a_c a \<Longrightarrow> a_next a' = a_next a \<Longrightarrow> dom (a_cache a') \<subseteq> dom (a_cache a) \<Longrightarrow>
   arc_view a' \<subseteq>\<^sub>m arc_view a \<Longrightarrow> a_store a' i = a_store a i \<Longrightarrow> roomy i a b"
  unfolding roomy_def by (metis map_le_trans subset_trans)

lemma req_new:
  assumes "linked a" "sized a" "ghosts {} a" "a_store a i = Some e" "ae_ll e = None"
  shows "\<exists>b. req i a = Some (setMRU i T1 b) \<and> roomy i a b"
proof -
  have ll: "ae_ll (arc_ent a i) = None" using assms(4,5) by (simp add: arc_ent_def)
  have free: "i \<notin> set (a_lists a l)" for l using linked_ll(1) [OF assms(1)] ll by fastforce
  note F = assms(2) [unfolded fits_def]
  consider (A) "ll_len a T1 + ll_len a B1 = a_c a" "ll_len a T1 < a_c a"
    | (A') "ll_len a T1 + ll_len a B1 = a_c a" "ll_len a T1 = a_c a"
    | (B) "ll_len a T1 + ll_len a B1 < a_c a" "ll_len a T1 + ll_len a T2 + ll_len a B1 + ll_len a B2 \<ge> a_c a"
    | (free) "ll_len a T1 + ll_len a B1 < a_c a" "ll_len a T1 + ll_len a T2 + ll_len a B1 + ll_len a B2 < a_c a"
    using F by linarith
  then show ?thesis
  proof cases
    case A
    then have "0 < ll_len a B1" by linarith
    then have ne: "a_lists a B1 \<noteq> []" by auto
    from delLRU_linked [OF assms(1) this] obtain d where d: "delLRU B1 a = Some d" "linked d" "a_p d = a_p a" "a_c d = a_c a"
      "a_next d = a_next a" "a_store d = a_store a" "arc_view d \<subseteq>\<^sub>m arc_view a" "dom (a_cache d) \<subseteq> dom (a_cache a)"
      "\<And>l'. a_lists d l' = (if l' = B1 then butlast (a_lists a B1) else a_lists a l')" "\<And>X. ghosts X a \<Longrightarrow> ghosts X d"
      by metis
    have "ll_len d B1 = ll_len a B1 - 1" using length_butlast_int [OF ne] by (simp add: d(9))
    with F \<open>0 < ll_len a B1\<close> A have "\<exists>b. replace i d = Some b \<and> roomy i d b"
      by (intro replace_roomy [OF d(2) d(10) [OF assms(3)]]) (use free in \<open>simp_all add: d(3,4,9)\<close>)
    then show ?thesis using A ll d roomy_trans [of i d _ a] by (auto simp: req_def)
  next
    case A'
    then have ne: "a_lists a T1 \<noteq> []" using F by auto
    from delLRU_linked [OF assms(1) this] obtain d where d: "delLRU T1 a = Some d" "linked d" "a_p d = a_p a" "a_c d = a_c a"
      "a_next d = a_next a" "a_store d = a_store a" "arc_view d \<subseteq>\<^sub>m arc_view a" "dom (a_cache d) \<subseteq> dom (a_cache a)"
      "\<And>l'. a_lists d l' = (if l' = T1 then butlast (a_lists a T1) else a_lists a l')" "\<And>X. ghosts X a \<Longrightarrow> ghosts X d"
      by metis
    have "ll_len d T1 = ll_len a T1 - 1" using length_butlast_int [OF ne] by (simp add: d(9))
    with F A' have "fits (a_c d) (a_p d) (\<lambda>l. ll_len d l + (if l = T1 then 1 else 0))"
      by (simp add: fits_def d(3,4,9))
    then have "roomy i a d" using d assms(3) by (simp add: roomy_def)
    then show ?thesis using A' ll d(1) by (auto simp: req_def)
  next
    case B
    with F have full: "ll_len a T1 + ll_len a T2 = a_c a" by linarith
    show ?thesis
    proof (cases "ll_len a T1 + ll_len a T2 + ll_len a B1 + ll_len a B2 = 2 * a_c a")
      case True
      then have "0 < ll_len a B2" using F B by linarith
      then have ne: "a_lists a B2 \<noteq> []" by auto
      from delLRU_linked [OF assms(1) this] obtain d where d: "delLRU B2 a = Some d" "linked d" "a_p d = a_p a" "a_c d = a_c a"
        "a_next d = a_next a" "a_store d = a_store a" "arc_view d \<subseteq>\<^sub>m arc_view a" "dom (a_cache d) \<subseteq> dom (a_cache a)"
        "\<And>l'. a_lists d l' = (if l' = B2 then butlast (a_lists a B2) else a_lists a l')" "\<And>X. ghosts X a \<Longrightarrow> ghosts X d"
        by metis
      have "ll_len d B2 = ll_len a B2 - 1" using length_butlast_int [OF ne] by (simp add: d(9))
      with F full B True have "\<exists>b. replace i d = Some b \<and> roomy i d b"
        by (intro replace_roomy [OF d(2) d(10) [OF assms(3)]]) (use free in \<open>simp_all add: d(3,4,9)\<close>)
      then show ?thesis using B True ll d roomy_trans [of i d _ a] by (auto simp: req_def Let_def)
    next
      case False
      with F full B have "\<exists>b. replace i a = Some b \<and> roomy i a b"
        by (intro replace_roomy [OF assms(1,3)]) (use free in simp_all)
      then show ?thesis using B False ll by (auto simp: req_def Let_def)
    qed
  next
    case free
    with F have "fits (a_c a) (a_p a) (\<lambda>l. ll_len a l + (if l = T1 then 1 else 0))" by (auto simp: fits_def)
    then have "roomy i a a" using assms(1,3) by (simp add: roomy_def)
    then show ?thesis using free ll by (auto simp: req_def Let_def)
  qed
qed

section \<open>The cache as a map\<close>

definition arc_ok :: "('k, 'v) ARC \<Rightarrow> bool" where
  "arc_ok a \<longleftrightarrow> linked a \<and> sized a \<and> ghosts {} a"

lemma arc_New_ok: "0 < c \<Longrightarrow> arc_ok (arc_New (Some c))" and arc_New_view: "arc_view (arc_New (Some c)) = Map.empty"
  and arc_New_size: "a_c (arc_New (Some c)) = c"
  by (simp_all add: arc_ok_def linked_def fits_def ghosts_def arc_view_def arc_New_def arc_Clear_def Let_def fun_eq_iff)

lemma arc_Clear_ok: "arc_ok a \<Longrightarrow> arc_ok (arc_Clear a)" and arc_Clear_view: "arc_view (arc_Clear a) = Map.empty"
  and arc_Clear_size: "a_c (arc_Clear a) = a_c a"
  by (auto simp: arc_ok_def linked_def fits_def ghosts_def arc_view_def arc_Clear_def fun_eq_iff)

lemma view_known: "a_cache a k = Some i \<Longrightarrow> a_store a i = Some e \<Longrightarrow> arc_view a k = map_option (\<lambda>v. (v, ae_expires e)) (ae_value e)"
  by (simp add: arc_view_def)

text \<open>Once linked into the map, the new entry is an entry like the others.\<close>

lemma link_new:
  assumes "roomy i a b" "a_store a i = Some e" "ae_ll e = None" "a_cache a (ae_key e) = None"
    "ae_ghost e \<longleftrightarrow> ae_value e = None"
  defines "r \<equiv> (setMRU i T1 b)\<lparr>a_cache := (a_cache b)(ae_key e \<mapsto> i)\<rparr>"
  shows "arc_ok r" "a_c r = a_c a" "arc_view r = (arc_view b)(ae_key e := map_option (\<lambda>v. (v, ae_expires e)) (ae_value e))"
proof -
  have b: "linked b" "ghosts {} b" "fits (a_c b) (a_p b) (\<lambda>l. ll_len b l + (if l = T1 then 1 else 0))"
    "a_c b = a_c a" "a_store b i = Some e" "dom (a_cache b) \<subseteq> dom (a_cache a)"
    using assms(1) unfolding roomy_def assms(2) by blast+
  note L = linkedD [OF b(1)]
  have ent: "arc_ent b i = e" using b(5) by (simp add: arc_ent_def)
  have free: "i \<notin> set (a_lists b l)" for l using linked_ll(1) [OF b(1)] ent assms(3) by fastforce
  have key: "a_cache b (ae_key e) = None" using b(6) assms(4) by blast
  have other: "a_cache b k \<noteq> Some i" for k using L(3) [of k i] free by blast
  have lists: "a_lists r = (a_lists b)(T1 := i # a_lists b T1)"
    using ent assms(3) by (simp add: r_def setMRU_def detach_def arc_write_def Let_def)
  have rest: "a_store r = (a_store b)(i \<mapsto> e\<lparr>ae_ll := Some T1\<rparr>)" "a_cache r = (a_cache b)(ae_key e \<mapsto> i)"
    "a_next r = a_next b" "a_c r = a_c b" "a_p r = a_p b"
    by (simp_all add: r_def ent)
  have "linked r"
    unfolding linked_def lists rest
  proof (intro conjI allI ballI impI)
    fix l show "distinct (((a_lists b)(T1 := i # a_lists b T1)) l)" using L(1) free by simp
  next
    fix l j assume "j \<in> set (((a_lists b)(T1 := i # a_lists b T1)) l)"
    then consider "j = i" "l = T1" | "j \<noteq> i" "j \<in> set (a_lists b l)" using free by (auto split: if_splits)
    then show "\<exists>e'. ((a_store b)(i \<mapsto> e\<lparr>ae_ll := Some T1\<rparr>)) j = Some e' \<and> ae_ll e' = Some l \<and>
        ((a_cache b)(ae_key e \<mapsto> i)) (ae_key e') = Some j"
    proof cases
      case 2
      then obtain e' where "a_store b j = Some e'" "ae_ll e' = Some l" "a_cache b (ae_key e') = Some j" using L(2) by blast
      moreover from this key have "ae_key e' \<noteq> ae_key e" by auto
      ultimately show ?thesis using 2(1) by auto
    qed simp
  next
    fix k j assume "((a_cache b)(ae_key e \<mapsto> i)) k = Some j"
    then consider "j = i" "k = ae_key e" | "j \<noteq> i" "a_cache b k = Some j" using other by (auto split: if_splits)
    then show "\<exists>e' l. ((a_store b)(i \<mapsto> e\<lparr>ae_ll := Some T1\<rparr>)) j = Some e' \<and> ae_key e' = k \<and> ae_ll e' = Some l \<and>
        j \<in> set (((a_lists b)(T1 := i # a_lists b T1)) l)"
    proof cases
      case 2
      from L(3) [OF 2(2)] 2(1) show ?thesis by auto
    qed simp
  next
    fix j e' assume "((a_store b)(i \<mapsto> e\<lparr>ae_ll := Some T1\<rparr>)) j = Some e'"
    then show "j < a_next b" "ae_ghost e' \<longleftrightarrow> ae_value e' = None"
      using L(4,5) [of j] L(4) [OF b(5)] assms(5) by (auto split: if_splits)
  qed
  moreover have "ll_len r = (\<lambda>l. ll_len b l + (if l = T1 then 1 else 0))" by (auto simp: lists)
  moreover have "ghosts {} r" using b(2) free by (auto simp: ghosts_def lists arc_ent_def rest(1))
  ultimately show "arc_ok r" "a_c r = a_c a" using b(3,4) by (simp_all add: arc_ok_def rest)
  show "arc_view r = (arc_view b)(ae_key e := map_option (\<lambda>v. (v, ae_expires e)) (ae_value e))"
  proof
    fix k
    have "a_cache b k = Some j \<Longrightarrow> a_store r j = a_store b j" for j using other [of k] by (auto simp: rest)
    then show "arc_view r k = ((arc_view b)(ae_key e := map_option (\<lambda>v. (v, ae_expires e)) (ae_value e))) k"
      by (cases "a_cache b k") (auto simp: arc_view_def rest)
  qed
qed

lemma arc_get_spec:
  assumes "arc_ok a"
  shows "\<exists>a'. arc_GetWithExpire k a = Some (arc_view a k, a') \<and> arc_ok a' \<and> a_c a' = a_c a \<and> arc_view a' \<subseteq>\<^sub>m arc_view a"
proof (cases "a_cache a k")
  case None
  then show ?thesis using assms by (simp add: arc_GetWithExpire_def arc_get_def arc_view_def)
next
  case (Some i)
  have a: "linked a" "sized a" "ghosts {i} a" using assms by (auto simp: arc_ok_def ghosts_def)
  obtain e l where e: "a_store a i = Some e" "i \<in> set (a_lists a l)" using linkedD(3) [OF a(1) Some] by blast
  obtain b where b: "req i a = Some b" "served i a b" using req_known [OF a e(2)] by blast
  then have "arc_ent b i = e\<lparr>ae_ll := Some T2\<rparr>" using e(1) by (simp add: served_def arc_ent_def)
  then show ?thesis
    using b e(1) linkedD(5) [OF a(1) e(1)]
    by (auto simp: arc_GetWithExpire_def arc_get_def Some view_known [OF Some e(1)] served_def arc_ok_def)
qed

lemma arc_set_spec:
  assumes "arc_ok a"
  shows "\<exists>a'. arc_setWithExpire k v x a = Some a' \<and> arc_ok a' \<and> a_c a' = a_c a \<and>
    arc_view a' k = Some (v, x) \<and> arc_view a' \<subseteq>\<^sub>m (arc_view a)(k \<mapsto> (v, x))"
proof (cases "a_cache a k")
  case None
  let ?e = "\<lparr>ae_key = k, ae_value = Some v, ae_ll = None, ae_ghost = False, ae_expires = x\<rparr>"
  let ?a = "a\<lparr>a_len := a_len a + 1, a_store := (a_store a)(a_next a \<mapsto> ?e), a_next := Suc (a_next a)\<rparr>"
  have old: "a_store a i = Some e \<Longrightarrow> i \<noteq> a_next a \<and> i < Suc (a_next a)" for i e
    using linkedD(4) [of a i e] assms by (auto simp: arc_ok_def)
  have known: "a_cache a k' = Some i \<Longrightarrow> i \<noteq> a_next a" for k' i
    using linkedD(3) [of a k' i] assms old by (auto simp: arc_ok_def)
  have lists: "i \<in> set (a_lists a l) \<Longrightarrow> i \<noteq> a_next a" for i l
    using linkedD(2) [of a i l] assms old by (auto simp: arc_ok_def)
  have "linked ?a" using assms old lists known unfolding arc_ok_def linked_def by (simp add: less_Suc_eq)
  moreover have "ghosts {} ?a" using assms lists by (auto simp: arc_ok_def ghosts_def arc_ent_def)
  moreover have "sized ?a" using assms by (simp add: arc_ok_def)
  ultimately obtain b where b: "req (a_next a) ?a = Some (setMRU (a_next a) T1 b)" "roomy (a_next a) ?a b"
    using req_new [of ?a "a_next a" ?e] by auto
  have view: "arc_view ?a = arc_view a"
    using known by (auto simp: arc_view_def fun_eq_iff split: bind_splits)
  let ?r = "(setMRU (a_next a) T1 b)\<lparr>a_cache := (a_cache b)(ae_key ?e \<mapsto> a_next a)\<rparr>"
  have r: "arc_ok ?r" "a_c ?r = a_c ?a" "arc_view ?r = (arc_view b)(k \<mapsto> (v, x))"
    using link_new [OF b(2), of ?e] None by auto
  moreover have "arc_setWithExpire k v x a = Some ?r" using b(1) None by (simp add: arc_setWithExpire_def Let_def)
  moreover have "arc_view b \<subseteq>\<^sub>m arc_view a" using b(2) view by (simp add: roomy_def)
  then have "arc_view ?r \<subseteq>\<^sub>m (arc_view a)(k \<mapsto> (v, x))" unfolding r(3) by (rule map_le_upd)
  ultimately show ?thesis by simp
next
  case (Some i)
  have a: "linked a" "sized a" "ghosts {} a" using assms by (simp_all add: arc_ok_def)
  obtain e l where e: "a_store a i = Some e" "ae_key e = k" "i \<in> set (a_lists a l)" using linkedD(3) [OF a(1) Some] by blast
  let ?f = "\<lambda>e. e\<lparr>ae_value := Some v, ae_ghost := False, ae_expires := x\<rparr>"
  define d where "d = (if ae_ghost (arc_ent a i) then a\<lparr>a_len := a_len a + 1\<rparr> else a)"
  have d: "linked d" "a_lists d = a_lists a" "a_store d = a_store a" "a_cache d = a_cache a" "a_c d = a_c a" "a_p d = a_p a"
    using a(1) by (auto simp: d_def linked_def)
  have w: "linked (arc_write i ?f d)" by (intro arc_write_linked [OF d(1)]) (use e d in auto)
  have same: "a_lists (arc_write i ?f d) = a_lists a" "a_cache (arc_write i ?f d) = a_cache a" "a_c (arc_write i ?f d) = a_c a"
    "a_p (arc_write i ?f d) = a_p a" "a_store (arc_write i ?f d) = (a_store a)(i \<mapsto> ?f e)"
    using d e(1) by (simp_all add: arc_write_def arc_ent_def)
  have "sized (arc_write i ?f d)" using a(2) by (simp add: same)
  moreover have "ghosts {i} (arc_write i ?f d)" using a(3) by (simp add: ghosts_def arc_ent_def same)
  ultimately obtain b where b: "req i (arc_write i ?f d) = Some b" "served i (arc_write i ?f d) b"
    using req_known [OF w, of i l] e(3) same(1) by auto
  have view: "arc_view (arc_write i ?f d) = (arc_view a)(k \<mapsto> (v, x))"
  proof
    fix k'
    have "k' = k" if "a_cache a k' = Some i" using linkedD(3) [OF a(1) that] e by auto
    then show "arc_view (arc_write i ?f d) k' = ((arc_view a)(k \<mapsto> (v, x))) k'"
      using Some by (cases "a_cache a k'") (auto simp: arc_view_def same)
  qed
  have "a_store b i = Some ((?f e)\<lparr>ae_ll := Some T2\<rparr>)" "a_cache b k = Some i"
    using b(2) Some by (simp_all add: served_def same arc_ent_def)
  then have "arc_view b k = Some (v, x)" by (simp add: view_known)
  moreover have "arc_setWithExpire k v x a = Some b" using b(1) Some by (simp add: arc_setWithExpire_def Let_def d_def)
  ultimately show ?thesis using b(2) view by (auto simp: served_def arc_ok_def same)
qed

section \<open>Sequences of operations\<close>

text \<open>The operations a client calls, and the map of what it stored last under each key.\<close>

datatype ('k, 'v) arc_op = OpSet 'k 'v int | OpGet 'k | OpClear

fun arc_run :: "('k, 'v) arc_op list \<Rightarrow> ('k, 'v) ARC \<Rightarrow> ('k, 'v) ARC option" where
  "arc_run [] a = Some a"
| "arc_run (OpSet k v x # ops) a = Option.bind (arc_setWithExpire k v x a) (arc_run ops)"
| "arc_run (OpGet k # ops) a = Option.bind (arc_GetWithExpire k a) (\<lambda>(r, a'). arc_run ops a')"
| "arc_run (OpClear # ops) a = arc_run ops (arc_Clear a)"

fun stored :: "('k, 'v) arc_op list \<Rightarrow> ('k \<rightharpoonup> 'v \<times> int) \<Rightarrow> 'k \<rightharpoonup> 'v \<times> int" where
  "stored [] m = m"
| "stored (OpSet k v x # ops) m = stored ops (m(k \<mapsto> (v, x)))"
| "stored (OpGet k # ops) m = stored ops m"
| "stored (OpClear # ops) m = stored ops Map.empty"

lemma arc_run_ok:
  "arc_ok a \<Longrightarrow> arc_view a \<subseteq>\<^sub>m m \<Longrightarrow>
   \<exists>a'. arc_run ops a = Some a' \<and> arc_ok a' \<and> a_c a' = a_c a \<and> arc_view a' \<subseteq>\<^sub>m stored ops m"
proof (induction ops a arbitrary: m rule: arc_run.induct)
  case (2 k v x ops a)
  obtain a1 where a1: "arc_setWithExpire k v x a = Some a1" "arc_ok a1" "a_c a1 = a_c a"
    "arc_view a1 \<subseteq>\<^sub>m (arc_view a)(k \<mapsto> (v, x))"
    using arc_set_spec [OF 2(2)] by blast
  then have "arc_view a1 \<subseteq>\<^sub>m m(k \<mapsto> (v, x))" using map_le_upd [OF 2(3)] map_le_trans by blast
  with 2(1) [OF a1(1,2)] a1 show ?case by fastforce
next
  case (3 k ops a)
  obtain a1 where a1: "arc_GetWithExpire k a = Some (arc_view a k, a1)" "arc_ok a1" "a_c a1 = a_c a" "arc_view a1 \<subseteq>\<^sub>m arc_view a"
    using arc_get_spec [OF 3(2)] by blast
  with 3(1) [OF a1(1) refl a1(2)] 3(3) show ?case using map_le_trans by fastforce
next
  case (4 ops a)
  then show ?case using arc_Clear_ok [of a] by (simp add: arc_Clear_view arc_Clear_size)
qed auto

lemma live_on_t:
  assumes "arc_ok a" "arc_view a k \<noteq> None"
  shows "\<exists>i \<in> set (a_lists a T1) \<union> set (a_lists a T2). k = ae_key (arc_ent a i)"
proof -
  have a: "linked a" "ghosts {} a" using assms(1) by (simp_all add: arc_ok_def)
  obtain i e where i: "a_cache a k = Some i" "a_store a i = Some e" "ae_value e \<noteq> None"
    using assms(2) by (auto simp: arc_view_def bind_eq_Some_conv)
  then have live: "\<not> ae_ghost e" "arc_ent a i = e" using linkedD(5) [OF a(1)] by (auto simp: arc_ent_def)
  obtain l where l: "ae_key e = k" "i \<in> set (a_lists a l)" using linkedD(3) [OF a(1) i(1)] i(2) by auto
  then have "l \<notin> {B1, B2}" using a(2) live by (auto simp: ghosts_def)
  with l live show ?thesis by (cases l) auto
qed

lemma arc_capacity: "arc_ok a \<Longrightarrow> card (dom (arc_view a)) \<le> nat (a_c a)"
proof -
  assume ok: "arc_ok a"
  let ?S = "set (a_lists a T1) \<union> set (a_lists a T2)"
  have "dom (arc_view a) \<subseteq> (\<lambda>i. ae_key (arc_ent a i)) ` ?S" using live_on_t [OF ok] by blast
  then have "card (dom (arc_view a)) \<le> card ?S" by (meson card_image_le card_mono finite_UnI finite_imageI finite_set le_trans)
  also have "\<dots> \<le> length (a_lists a T1) + length (a_lists a T2)"
    by (meson add_le_mono card_Un_le card_length le_trans)
  also have "\<dots> \<le> nat (a_c a)" using ok by (auto simp: arc_ok_def fits_def)
  finally show ?thesis .
qed

text \<open>
  Two wrong counts.  A forgotten ghost is subtracted from \<open>len\<close> a second time: with room for one
  entry, the calls below leave one entry in the cache and a \<open>Len\<close> of 0.  And \<open>New\<close> without a size
  makes a cache whose first \<open>Set\<close> panics.
\<close>

definition len_ops :: "(nat, nat) arc_op list" where
  "len_ops = [OpSet 0 0 0, OpGet 0, OpSet 1 1 0, OpGet 1, OpSet 2 2 0]"

lemma arc_Len_undercounts:
  "map_option arc_Len (arc_run len_ops (arc_New (Some 1))) = Some 0"
  "map_option (\<lambda>a. arc_view a 2) (arc_run len_ops (arc_New (Some 1))) = Some (Some (2, 0))"
  by code_simp+

lemma arc_unsized_panics: "arc_setWithExpire k v x (arc_New None) = None"
  by (simp add: arc_setWithExpire_def arc_New_def arc_Clear_def req_def delLRU_def arc_ent_def Let_def)

section \<open>Property\<close>

text \<open>
  C28.  The adaptive replacement cache is safe.  However a cache of a positive size is used, no
  operation panics, it never holds more live entries than its size, a lookup only ever finds what
  was stored last under its key, and what is stored can be read at once.
\<close>

theorem arc_cache_safe:
  assumes "0 < c"
  shows "\<exists>a. arc_run ops (arc_New (Some c)) = Some a \<and> card (dom (arc_view a)) \<le> nat c \<and>
    arc_view a \<subseteq>\<^sub>m stored ops Map.empty \<and>
    (\<forall>k. \<exists>a'. arc_GetWithExpire k a = Some (arc_view a k, a')) \<and>
    (\<forall>k v x. \<exists>a'. arc_setWithExpire k v x a = Some a' \<and> arc_view a' k = Some (v, x))"
proof -
  obtain a where a: "arc_run ops (arc_New (Some c)) = Some a" "arc_ok a" "a_c a = c" "arc_view a \<subseteq>\<^sub>m stored ops Map.empty"
    using arc_run_ok [OF arc_New_ok [OF assms], of Map.empty ops] by (auto simp: arc_New_view arc_New_size)
  with arc_capacity [OF a(2)] arc_get_spec [OF a(2)] arc_set_spec [OF a(2)] show ?thesis by blast
qed

theorem arc_cache_safe_witness:
  "\<exists>a. arc_run len_ops (arc_New (Some 1)) = Some a \<and> card (dom (arc_view a)) \<le> 1"
  using arc_cache_safe [of 1 len_ops] by auto

end
