(* ===== verification/Fake_IP.thy ===== *)
theory Fake_IP
  imports LRU_Cache Netip_Text Rules
begin

text \<open>
  \<open>component/fakeip\<close>: the pool that answers DNS queries with addresses of a reserved range and
  remembers which host each one stands for.  The interface \<open>store\<close> is a record of its methods; the
  pool's operations take it as an argument, and the in-memory store provides it.  The persistent
  store keeps its data in a database file and enters only through the interface
  (\<open>sIsCachefile\<close> is the type test of \<open>StoreState\<close> and \<open>restoreState\<close>).
\<close>

section \<open>The interface store\<close>

record 's store_ops =
  sGetByHost :: "string \<Rightarrow> 's \<Rightarrow> addr option \<times> 's"
  sPutByHost :: "string \<Rightarrow> addr \<Rightarrow> 's \<Rightarrow> 's"
  sGetByIP :: "addr \<Rightarrow> 's \<Rightarrow> string option \<times> 's"
  sPutByIP :: "addr \<Rightarrow> string \<Rightarrow> 's \<Rightarrow> 's"
  sDelByIP :: "addr \<Rightarrow> 's \<Rightarrow> 's"
  sExist :: "addr \<Rightarrow> 's \<Rightarrow> bool"
  sCloneTo :: "'s \<Rightarrow> 's \<Rightarrow> 's"
  sFlushFakeIP :: "'s \<Rightarrow> bool \<times> 's"
  sIsCachefile :: bool

section \<open>component/fakeip/memory.go\<close>

record memoryStore =
  cacheIP :: "(string, addr) LruCache"
  cacheHost :: "(addr, string) LruCache"

definition mem_GetByHost :: "clock \<Rightarrow> string \<Rightarrow> memoryStore \<Rightarrow> addr option \<times> memoryStore" where
  "mem_GetByHost clock host m =
     (case lru_Get clock host (cacheIP m) of
        (Some ip, c) \<Rightarrow> (Some ip, m\<lparr>cacheIP := c, cacheHost := snd (lru_Get clock ip (cacheHost m))\<rparr>)
      | (None, c) \<Rightarrow> (None, m\<lparr>cacheIP := c\<rparr>))"

definition mem_PutByHost :: "clock \<Rightarrow> string \<Rightarrow> addr \<Rightarrow> memoryStore \<Rightarrow> memoryStore" where
  "mem_PutByHost clock host ip m = m\<lparr>cacheIP := lru_Set clock host ip (cacheIP m)\<rparr>"

definition mem_GetByIP :: "clock \<Rightarrow> addr \<Rightarrow> memoryStore \<Rightarrow> string option \<times> memoryStore" where
  "mem_GetByIP clock ip m =
     (case lru_Get clock ip (cacheHost m) of
        (Some host, c) \<Rightarrow> (Some host, m\<lparr>cacheHost := c, cacheIP := snd (lru_Get clock host (cacheIP m))\<rparr>)
      | (None, c) \<Rightarrow> (None, m\<lparr>cacheHost := c\<rparr>))"

definition mem_PutByIP :: "clock \<Rightarrow> addr \<Rightarrow> string \<Rightarrow> memoryStore \<Rightarrow> memoryStore" where
  "mem_PutByIP clock ip host m = m\<lparr>cacheHost := lru_Set clock ip host (cacheHost m)\<rparr>"

definition mem_DelByIP :: "clock \<Rightarrow> addr \<Rightarrow> memoryStore \<Rightarrow> memoryStore" where
  "mem_DelByIP clock ip m =
     (let m1 =
        (case lru_Get clock ip (cacheHost m) of
           (Some host, c) \<Rightarrow> m\<lparr>cacheHost := c, cacheIP := lru_Delete host (cacheIP m)\<rparr>
         | (None, c) \<Rightarrow> m\<lparr>cacheHost := c\<rparr>)
      in m1\<lparr>cacheHost := lru_Delete ip (cacheHost m1)\<rparr>)"

definition mem_Exist :: "addr \<Rightarrow> memoryStore \<Rightarrow> bool" where
  "mem_Exist ip m = lru_Exist ip (cacheHost m)"

definition mem_CloneTo :: "memoryStore \<Rightarrow> memoryStore \<Rightarrow> memoryStore" where
  "mem_CloneTo m ms =
     ms\<lparr>cacheIP := lru_CloneTo (cacheIP m) (cacheIP ms), cacheHost := lru_CloneTo (cacheHost m) (cacheHost ms)\<rparr>"

definition mem_FlushFakeIP :: "memoryStore \<Rightarrow> bool \<times> memoryStore" where
  "mem_FlushFakeIP m = (True, m\<lparr>cacheIP := lru_Clear (cacheIP m), cacheHost := lru_Clear (cacheHost m)\<rparr>)"

definition newMemoryStore :: "int \<Rightarrow> memoryStore" where
  "newMemoryStore sz = \<lparr>cacheIP = lru_New [WithSize sz], cacheHost = lru_New [WithSize sz]\<rparr>"

definition memory_ops :: "clock \<Rightarrow> memoryStore store_ops" where
  "memory_ops clock =
     \<lparr>sGetByHost = mem_GetByHost clock, sPutByHost = mem_PutByHost clock, sGetByIP = mem_GetByIP clock,
      sPutByIP = mem_PutByIP clock, sDelByIP = mem_DelByIP clock, sExist = mem_Exist,
      sCloneTo = mem_CloneTo, sFlushFakeIP = mem_FlushFakeIP, sIsCachefile = False\<rparr>"

section \<open>component/fakeip/pool.go\<close>

record 's Pool =
  p_gateway :: addr
  p_first :: addr
  p_last :: addr
  p_offset :: addr
  p_cycle :: bool
  p_ipnet :: prefix
  p_store :: 's

definition offsetKey :: string where "offsetKey = ''key-offset-fake-ip''"
definition cycleKey :: string where "cycleKey = ''key-cycle-fake-ip''"

definition pool_get :: "'s store_ops \<Rightarrow> string \<Rightarrow> 's Pool \<Rightarrow> addr \<times> 's Pool" where
  "pool_get S host p =
     (let p1 = p\<lparr>p_offset := Next (p_offset p)\<rparr>;
          p2 = (if \<not> Less (p_offset p1) (p_last p1) then p1\<lparr>p_cycle := True, p_offset := p_first p1\<rparr> else p1);
          p3 = (if p_cycle p2 \<or> sExist S (p_offset p2) (p_store p2)
                then p2\<lparr>p_store := sDelByIP S (p_offset p2) (p_store p2)\<rparr> else p2)
      in (p_offset p3, p3\<lparr>p_store := sPutByIP S (p_offset p3) host (p_store p3)\<rparr>))"

definition Lookup :: "'s store_ops \<Rightarrow> string \<Rightarrow> 's Pool \<Rightarrow> addr \<times> 's Pool" where
  "Lookup S host0 p =
     (let host = to_lower host0 in
      case sGetByHost S host (p_store p) of
        (Some ip, s) \<Rightarrow> (ip, p\<lparr>p_store := s\<rparr>)
      | (None, s) \<Rightarrow>
          (case pool_get S host (p\<lparr>p_store := s\<rparr>) of
             (ip, p') \<Rightarrow> (ip, p'\<lparr>p_store := sPutByHost S host ip (p_store p')\<rparr>)))"

definition LookBack :: "'s store_ops \<Rightarrow> addr \<Rightarrow> 's Pool \<Rightarrow> string option \<times> 's Pool" where
  "LookBack S ip p = (case sGetByIP S ip (p_store p) of (r, s) \<Rightarrow> (r, p\<lparr>p_store := s\<rparr>))"

definition pool_Exist :: "'s store_ops \<Rightarrow> addr \<Rightarrow> 's Pool \<Rightarrow> bool" where
  "pool_Exist S ip p = sExist S ip (p_store p)"

definition CloneFrom :: "'s store_ops \<Rightarrow> 's Pool \<Rightarrow> 's Pool \<Rightarrow> 's Pool" where
  "CloneFrom S q p = p\<lparr>p_store := sCloneTo S (p_store q) (p_store p)\<rparr>"

definition pool_FlushFakeIP :: "'s store_ops \<Rightarrow> 's Pool \<Rightarrow> bool \<times> 's Pool" where
  "pool_FlushFakeIP S p =
     (case sFlushFakeIP S (p_store p) of
        (True, s) \<Rightarrow> (True, p\<lparr>p_store := s, p_cycle := False, p_offset := Prev (p_first p)\<rparr>)
      | (False, s) \<Rightarrow> (False, p\<lparr>p_store := s\<rparr>))"

definition StoreState :: "'s store_ops \<Rightarrow> 's Pool \<Rightarrow> 's Pool" where
  "StoreState S p =
     (if sIsCachefile S then
        let p1 = p\<lparr>p_store := sPutByHost S offsetKey (p_offset p) (p_store p)\<rparr> in
        if p_cycle p1 then p1\<lparr>p_store := sPutByHost S cycleKey (p_offset p1) (p_store p1)\<rparr> else p1
      else p)"

definition restoreState :: "'s store_ops \<Rightarrow> 's Pool \<Rightarrow> 's Pool" where
  "restoreState S p =
     (if sIsCachefile S then
        (case sGetByHost S cycleKey (p_store p) of
           (r, s) \<Rightarrow>
             let p1 = (if r \<noteq> None then p\<lparr>p_store := s, p_cycle := True\<rparr> else p\<lparr>p_store := s\<rparr>) in
             (case sGetByHost S offsetKey (p_store p1) of
                (Some off, s) \<Rightarrow>
                  if prefix_contains (p_ipnet p1) off then p1\<lparr>p_store := s, p_offset := off\<rparr>
                  else snd (pool_FlushFakeIP S (p1\<lparr>p_store := s\<rparr>))
              | (None, s) \<Rightarrow>
                  if sExist S (p_first p1) s then snd (pool_FlushFakeIP S (p1\<lparr>p_store := s\<rparr>))
                  else p1\<lparr>p_store := s\<rparr>))
      else p)"

text \<open>
  \<open>New\<close>: \<open>PrefixLastIP\<close> of package \<open>netipx\<close> is an argument, and \<open>store\<close> is the store the options
  select.
\<close>

fun Masked :: "prefix \<Rightarrow> prefix" where
  "Masked p =
     (if prefix_valid p then
        (case p_addr p of
           V4 a \<Rightarrow> p\<lparr>p_addr := V4 (push_bit (32 - p_bits p) (drop_bit (32 - p_bits p) a))\<rparr>
         | V6 a z \<Rightarrow> p\<lparr>p_addr := V6 (push_bit (128 - p_bits p) (drop_bit (128 - p_bits p) a)) []\<rparr>
         | NoAddr \<Rightarrow> p)
      else \<lparr>p_addr = NoAddr, p_bits = 0\<rparr>)"

declare Masked.simps [simp del]

definition pool_New :: "(prefix \<Rightarrow> addr) \<Rightarrow> 's store_ops \<Rightarrow> 's \<Rightarrow> prefix \<Rightarrow> 's Pool option" where
  "pool_New PrefixLastIP S store ipnet =
     (let hostAddr = p_addr (Masked ipnet);
          gateway = Next hostAddr;
          first_ip = Next (Next (Next gateway));
          last_ip = PrefixLastIP ipnet
      in if \<not> prefix_valid ipnet \<or> \<not> IsValid first_ip \<or> \<not> Less first_ip last_ip then None
         else Some (restoreState S
           \<lparr>p_gateway = gateway, p_first = first_ip, p_last = last_ip, p_offset = Prev first_ip,
            p_cycle = False, p_ipnet = ipnet, p_store = store\<rparr>))"

section \<open>component/fakeip/skipper.go\<close>

record Skipper =
  sk_Rules :: "rule list"
  sk_Host :: "(string \<Rightarrow> bool) list"
  sk_Mode :: FilterMode

definition UseFakeIP :: string where "UseFakeIP = ''fake-ip''"
definition UseRealIP :: string where "UseRealIP = ''real-ip''"

fun skip_rules :: "nat \<Rightarrow> env \<Rightarrow> rule list \<Rightarrow> unit mstate \<Rightarrow> (match_error, bool) result" where
  "skip_rules fuel e [] st = Inr False"
| "skip_rules fuel e (r # rs) st =
     result_bind (rule_Match fuel e r emptyHelper st) (\<lambda>((matched, action), st').
       if matched then Inr (action = UseRealIP) else skip_rules fuel e rs st')"

fun any_host :: "(string \<Rightarrow> bool) list \<Rightarrow> string \<Rightarrow> bool" where
  "any_host [] domain = False"
| "any_host (m # ms) domain = (if m domain then True else any_host ms domain)"

definition ShouldSkipped :: "nat \<Rightarrow> env \<Rightarrow> Skipper \<Rightarrow> string \<Rightarrow> (match_error, bool) result" where
  "ShouldSkipped fuel e sk domain =
     (if length (sk_Rules sk) > 0
      then skip_rules fuel e (sk_Rules sk) (zeroMetadata\<lparr>mHost := domain\<rparr>, ())
      else
        let should = any_host (sk_Host sk) domain in
        Inr (if sk_Mode sk = FilterWhiteList then \<not> should else should))"

section \<open>Addresses of one family as numbers\<close>

fun addr_num :: "addr \<Rightarrow> nat" where
  "addr_num NoAddr = 0"
| "addr_num (V4 a) = unat a"
| "addr_num (V6 a z) = unat a"

fun same_family :: "addr \<Rightarrow> addr \<Rightarrow> bool" where
  "same_family (V4 a) (V4 b) = True"
| "same_family (V6 a z) (V6 b z') = (z = z')"
| "same_family a b = False"

lemma same_family_sym: "same_family a b \<Longrightarrow> same_family b a"
  by (cases a; cases b) auto

lemma same_family_trans: "same_family a b \<Longrightarrow> same_family b c \<Longrightarrow> same_family a c"
  by (cases a; cases b; cases c) auto

lemma same_family_valid: "same_family a b \<Longrightarrow> IsValid a \<and> IsValid b"
  by (cases a; cases b) auto

lemma same_family_refl: "IsValid a \<Longrightarrow> same_family a a"
  by (cases a) auto

lemma Less_num: "same_family a b \<Longrightarrow> Less a b \<longleftrightarrow> addr_num a < addr_num b"
  by (cases a; cases b) (auto simp: word_less_nat_alt)

lemma addr_num_inj: "same_family a b \<Longrightarrow> addr_num a = addr_num b \<Longrightarrow> a = b"
  by (cases a; cases b) (auto dest: word_unat_eq_iff [THEN iffD2])

lemma unat_succ: "x + 1 \<noteq> 0 \<Longrightarrow> unat (x + 1) = Suc (unat x)" for x :: "'w::len word"
  by (metis Suc_eq_plus1 Suc_lessI mod_less mod_self unat_1 unat_eq_zero unat_less_power unat_word_ariths(1))

lemma succ_nonzero: "unat x < unat y \<Longrightarrow> x + 1 \<noteq> 0" for x y :: "'w::len word"
  using max_word_wrap [of x] by (auto simp: word_less_nat_alt [symmetric])

lemma Next_valid:
  assumes "IsValid (Next a)"
  shows "same_family (Next a) a \<and> addr_num (Next a) = Suc (addr_num a)"
  using assms by (cases a) (auto simp: unat_succ split: if_splits)

lemma Next_below:
  assumes "same_family a b" "addr_num a < addr_num b"
  shows "IsValid (Next a)"
  using assms by (cases a; cases b) (auto dest: succ_nonzero)

lemma Prev_Next: "IsValid (Next a) \<Longrightarrow> Prev (Next a) = a"
  by (cases a) (auto split: if_splits)

section \<open>The contract of a store\<close>

text \<open>
  A store holds pairs of a host and an address.  Every law but the first says what one operation,
  or one of the two sequences of operations the pool uses, does to the pairs.
\<close>

locale fake_store =
  fixes S :: "'s store_ops" and inv :: "'s \<Rightarrow> bool" and pairs :: "'s \<Rightarrow> (string \<times> addr) set"
  assumes one_to_one: "inv s \<Longrightarrow> x \<in> pairs s \<Longrightarrow> y \<in> pairs s \<Longrightarrow> fst x = fst y \<longleftrightarrow> snd x = snd y"
    and by_host: "inv s \<Longrightarrow> inv (snd (sGetByHost S h s)) \<and> pairs (snd (sGetByHost S h s)) = pairs s \<and>
      (\<forall>a. fst (sGetByHost S h s) = Some a \<longleftrightarrow> (h, a) \<in> pairs s)"
    and by_ip: "inv s \<Longrightarrow> inv (snd (sGetByIP S a s)) \<and> pairs (snd (sGetByIP S a s)) = pairs s \<and>
      (\<forall>h. fst (sGetByIP S a s) = Some h \<longleftrightarrow> (h, a) \<in> pairs s)"
    and del: "inv s \<Longrightarrow> inv (sDelByIP S a s) \<and> pairs (sDelByIP S a s) = {x \<in> pairs s. snd x \<noteq> a}"
    and exist: "inv s \<Longrightarrow> sExist S a s \<longleftrightarrow> a \<in> snd ` pairs s"
    and put: "inv s \<Longrightarrow> h \<notin> fst ` pairs s \<Longrightarrow> a \<notin> snd ` pairs s \<Longrightarrow>
      inv (sPutByHost S h a (sPutByIP S a h s)) \<and>
      (h, a) \<in> pairs (sPutByHost S h a (sPutByIP S a h s)) \<and>
      pairs (sPutByHost S h a (sPutByIP S a h s)) \<subseteq> insert (h, a) (pairs s)"
    and flush: "inv s \<Longrightarrow> fst (sFlushFakeIP S s) \<Longrightarrow>
      inv (snd (sFlushFakeIP S s)) \<and> pairs (snd (sFlushFakeIP S s)) = {}"
    and flush_fail: "inv s \<Longrightarrow> \<not> fst (sFlushFakeIP S s) \<Longrightarrow>
      inv (snd (sFlushFakeIP S s)) \<and> pairs (snd (sFlushFakeIP S s)) = pairs s"
    and clone: "inv s \<Longrightarrow> inv t \<Longrightarrow> inv (sCloneTo S s t) \<and> pairs (sCloneTo S s t) = pairs s"

definition in_range :: "'s Pool \<Rightarrow> addr \<Rightarrow> bool" where
  "in_range p a \<longleftrightarrow> same_family a (p_first p) \<and> addr_num (p_first p) \<le> addr_num a \<and> addr_num a < addr_num (p_last p)"

definition range_ok :: "'s Pool \<Rightarrow> bool" where
  "range_ok p \<longleftrightarrow> same_family (p_first p) (p_last p) \<and> addr_num (p_first p) < addr_num (p_last p) \<and>
     same_family (p_offset p) (p_first p) \<and>
     addr_num (p_first p) \<le> Suc (addr_num (p_offset p)) \<and> addr_num (p_offset p) < addr_num (p_last p)"

text \<open>The next address the pool hands out.\<close>

definition next_offset :: "'s Pool \<Rightarrow> addr" where
  "next_offset p = (if Less (Next (p_offset p)) (p_last p) then Next (p_offset p) else p_first p)"

lemma next_offset_in_range:
  assumes "range_ok p"
  shows "in_range p (next_offset p)"
proof -
  have fam: "same_family (p_offset p) (p_last p)"
    using assms same_family_trans by (auto simp: range_ok_def)
  have v: "IsValid (Next (p_offset p))"
    using assms by (intro Next_below [OF fam]) (simp add: range_ok_def)
  note n = Next_valid [OF v]
  have "same_family (Next (p_offset p)) (p_first p)" "same_family (Next (p_offset p)) (p_last p)"
    using n assms fam same_family_trans by (auto simp: range_ok_def)
  with n assms show ?thesis
    using same_family_valid same_family_refl by (auto simp: next_offset_def in_range_def range_ok_def Less_num)
qed

text \<open>The operations of a running pool, and what none of them changes.\<close>

inductive pool_run :: "'s store_ops \<Rightarrow> 's Pool \<Rightarrow> 's Pool \<Rightarrow> bool" for S p0 where
  start: "pool_run S p0 p0"
| lookup: "pool_run S p0 p \<Longrightarrow> pool_run S p0 (snd (Lookup S h p))"
| look_back: "pool_run S p0 p \<Longrightarrow> pool_run S p0 (snd (LookBack S a p))"
| flush: "pool_run S p0 p \<Longrightarrow> pool_run S p0 (snd (pool_FlushFakeIP S p))"
| store_state: "pool_run S p0 p \<Longrightarrow> pool_run S p0 (StoreState S p)"

definition geometry :: "'s Pool \<Rightarrow> addr \<times> addr \<times> addr \<times> prefix" where
  "geometry p = (p_gateway p, p_first p, p_last p, p_ipnet p)"

lemma geometry_kept [simp]:
  "geometry (snd (Lookup S h p)) = geometry p" "geometry (snd (LookBack S a p)) = geometry p"
  "geometry (snd (pool_FlushFakeIP S p)) = geometry p"
  by (auto simp: geometry_def Lookup_def LookBack_def pool_FlushFakeIP_def pool_get_def Let_def
      split: prod.split option.split bool.split)

context fake_store
begin

definition pool_ok :: "'s Pool \<Rightarrow> bool" where
  "pool_ok p \<longleftrightarrow> inv (p_store p) \<and> range_ok p \<and> (\<forall>x \<in> pairs (p_store p). in_range p (snd x))"

text \<open>\<open>get\<close> frees the next address and takes it, so that the pair it makes is new on both sides.\<close>

lemma get_frees:
  assumes "inv (p_store p)"
  shows "\<exists>s. inv s \<and> pairs s = {x \<in> pairs (p_store p). snd x \<noteq> next_offset p} \<and>
    pool_get S h p = (next_offset p, p\<lparr>p_offset := next_offset p,
      p_cycle := p_cycle p \<or> \<not> Less (Next (p_offset p)) (p_last p),
      p_store := sPutByIP S (next_offset p) h s\<rparr>)"
proof -
  let ?a = "next_offset p" and ?c = "p_cycle p \<or> \<not> Less (Next (p_offset p)) (p_last p)"
  let ?s = "if ?c \<or> sExist S ?a (p_store p) then sDelByIP S ?a (p_store p) else p_store p"
  have "pairs ?s = {x \<in> pairs (p_store p). snd x \<noteq> ?a}" "inv ?s"
    using del [OF assms, of ?a] exist [OF assms, of ?a] assms by (auto simp: image_iff)
  moreover have "pool_get S h p = (?a, p\<lparr>p_offset := ?a, p_cycle := ?c, p_store := sPutByIP S ?a h ?s\<rparr>)"
    by (simp add: pool_get_def next_offset_def Let_def)
  ultimately show ?thesis by blast
qed

lemma Lookup_cases:
  assumes ok: "pool_ok p" and h: "h = to_lower host"
  obtains (known) a where "(h, a) \<in> pairs (p_store p)" "fst (Lookup S host p) = a"
      "pool_ok (snd (Lookup S host p))" "pairs (p_store (snd (Lookup S host p))) = pairs (p_store p)"
      "\<exists>s. snd (Lookup S host p) = p\<lparr>p_store := s\<rparr>"
    | (fresh) "h \<notin> fst ` pairs (p_store p)" "fst (Lookup S host p) = next_offset p"
      "pool_ok (snd (Lookup S host p))"
      "(h, next_offset p) \<in> pairs (p_store (snd (Lookup S host p)))"
      "pairs (p_store (snd (Lookup S host p))) \<subseteq>
         insert (h, next_offset p) {x \<in> pairs (p_store p). snd x \<noteq> next_offset p}"
proof -
  have inv: "inv (p_store p)" and r: "range_ok p" and all: "\<forall>x \<in> pairs (p_store p). in_range p (snd x)"
    using ok by (auto simp: pool_ok_def)
  obtain ro s where get: "sGetByHost S h (p_store p) = (ro, s)" by force
  with by_host [OF inv, of h] have s: "inv s" "pairs s = pairs (p_store p)"
    and found: "\<And>a. ro = Some a \<longleftrightarrow> (h, a) \<in> pairs (p_store p)" by auto
  let ?q = "p\<lparr>p_store := s\<rparr>"
  show thesis
  proof (cases ro)
    case (Some a)
    then have L: "Lookup S host p = (a, ?q)" by (simp add: Lookup_def h [symmetric] get Let_def)
    show thesis
    proof (rule known)
      show "(h, a) \<in> pairs (p_store p)" using found [of a] Some by simp
      show "pool_ok (snd (Lookup S host p))"
        using s r all by (simp add: L pool_ok_def range_ok_def in_range_def)
    qed (auto simp: L s)
  next
    case None
    have new: "h \<notin> fst ` pairs s" using found None s(2) by force
    have no: "next_offset ?q = next_offset p" by (simp add: next_offset_def)
    obtain s1 where s1: "inv s1" "pairs s1 = {x \<in> pairs s. snd x \<noteq> next_offset p}"
      and g: "pool_get S h ?q = (next_offset p, ?q\<lparr>p_offset := next_offset p,
        p_cycle := p_cycle p \<or> \<not> Less (Next (p_offset p)) (p_last p),
        p_store := sPutByIP S (next_offset p) h s1\<rparr>)"
      using get_frees [of ?q h] s(1) unfolding no by auto
    let ?s2 = "sPutByHost S h (next_offset p) (sPutByIP S (next_offset p) h s1)"
    have L: "Lookup S host p = (next_offset p, ?q\<lparr>p_offset := next_offset p,
        p_cycle := p_cycle p \<or> \<not> Less (Next (p_offset p)) (p_last p), p_store := ?s2\<rparr>)"
      by (simp add: Lookup_def h [symmetric] get None g Let_def)
    have put: "inv ?s2" "(h, next_offset p) \<in> pairs ?s2" "pairs ?s2 \<subseteq> insert (h, next_offset p) (pairs s1)"
    proof -
      have "h \<notin> fst ` pairs s1" "next_offset p \<notin> snd ` pairs s1" using new by (auto simp: s1(2))
      from put [OF s1(1) this]
      show "inv ?s2" "(h, next_offset p) \<in> pairs ?s2" "pairs ?s2 \<subseteq> insert (h, next_offset p) (pairs s1)"
        by blast+
    qed
    note rng = next_offset_in_range [OF r]
    show thesis
    proof (rule fresh)
      show "pool_ok (snd (Lookup S host p))"
        using put rng r all s1(2) s(2) unfolding L pool_ok_def
        by (auto simp: range_ok_def in_range_def)
    qed (use L new put s s1(2) in auto)
  qed
qed

lemma Lookup_ok: "pool_ok p \<Longrightarrow> pool_ok (snd (Lookup S host p))"
  by (rule Lookup_cases [OF _ refl, of p host]) auto

lemma Lookup_pair:
  assumes "pool_ok p"
  shows "(to_lower host, fst (Lookup S host p)) \<in> pairs (p_store (snd (Lookup S host p)))"
  using assms by (rule Lookup_cases [OF _ refl, of p host]) auto

lemma Lookup_in_range:
  assumes "pool_ok p"
  shows "in_range (snd (Lookup S host p)) (fst (Lookup S host p))"
  using Lookup_pair [OF assms, of host] Lookup_ok [OF assms, of host] by (auto simp: pool_ok_def)

lemma LookBack_ok:
  assumes "pool_ok p"
  shows "pool_ok (snd (LookBack S a p)) \<and> pairs (p_store (snd (LookBack S a p))) = pairs (p_store p) \<and>
    (\<forall>h. fst (LookBack S a p) = Some h \<longleftrightarrow> (h, a) \<in> pairs (p_store p))"
  using assms by_ip [of "p_store p" a]
  by (auto simp: LookBack_def pool_ok_def range_ok_def in_range_def split: prod.split)

lemma Lookup_known:
  assumes "inv (p_store p)" "(to_lower host, a) \<in> pairs (p_store p)"
  shows "fst (Lookup S host p) = a"
proof -
  have "fst (sGetByHost S (to_lower host) (p_store p)) = Some a"
    using by_host [OF assms(1), of "to_lower host"] assms(2) by blast
  then show ?thesis by (cases "sGetByHost S (to_lower host) (p_store p)") (simp add: Lookup_def Let_def)
qed

lemma Flush_ok:
  assumes "pool_ok p" "range_ok (p\<lparr>p_offset := Prev (p_first p)\<rparr>)"
  shows "pool_ok (snd (pool_FlushFakeIP S p))"
proof -
  have inv: "inv (p_store p)" using assms(1) by (simp add: pool_ok_def)
  show ?thesis
    using flush [OF inv] flush_fail [OF inv] assms
    by (cases "sFlushFakeIP S (p_store p)"; cases "fst (sFlushFakeIP S (p_store p))")
      (auto simp: pool_FlushFakeIP_def pool_ok_def range_ok_def in_range_def)
qed

lemma run_ok:
  assumes "pool_run S p0 p" "pool_ok p0" "p_offset p0 = Prev (p_first p0)" "\<not> sIsCachefile S"
  shows "pool_ok p \<and> geometry p = geometry p0"
  using assms(1)
proof (induction rule: pool_run.induct)
  case start
  show ?case using assms(2) by simp
next
  case (flush p)
  have "range_ok (p0\<lparr>p_offset := Prev (p_first p0)\<rparr>)"
    using assms(2) unfolding assms(3) [symmetric] by (simp add: pool_ok_def)
  then have "range_ok (p\<lparr>p_offset := Prev (p_first p)\<rparr>)"
    using flush.IH by (simp add: geometry_def range_ok_def)
  with flush.IH show ?case using Flush_ok by simp
qed (simp_all add: Lookup_ok LookBack_ok StoreState_def assms(4))

end

section \<open>The in-memory store keeps the contract\<close>

text \<open>
  The two caches of the memory store always hold the same pairs in the same order of use, one
  under the host and one under the address: this is why evicting the oldest entry of one and of
  the other removes the same pair.
\<close>

definition mirror :: "('k, 'v) entry \<Rightarrow> ('v, 'k) entry" where
  "mirror e = \<lparr>e_key = e_value e, e_value = e_key e, e_expires = e_expires e\<rparr>"

lemma mirror_simps [simp]:
  "e_key (mirror e) = e_value e" "e_value (mirror e) = e_key e" "e_expires (mirror e) = e_expires e"
  "mirror (mirror e) = e"
  by (simp_all add: mirror_def)

definition mem_view :: "memoryStore \<Rightarrow> lru_config \<Rightarrow> (string, addr) entry list \<Rightarrow> bool" where
  "mem_view m g es \<longleftrightarrow> g_maxAge g = 0 \<and> represents (cacheIP m) g es \<and> represents (cacheHost m) g (map mirror es)"

definition mem_inv :: "memoryStore \<Rightarrow> bool" where
  "mem_inv m \<longleftrightarrow> (\<exists>g es. mem_view m g es)"

definition mem_pairs :: "memoryStore \<Rightarrow> (string \<times> addr) set" where
  "mem_pairs m = (\<lambda>e. (e_key e, e_value e)) ` set (entries (cacheIP m))"

lemma mem_viewD:
  assumes "mem_view m g es"
  shows "represents (cacheIP m) g es" "represents (cacheHost m) g (map mirror es)" "g_maxAge g = 0"
    "mem_pairs m = (\<lambda>e. (e_key e, e_value e)) ` set es" "distinct (map e_key es)" "distinct (map e_value es)"
  using assms keys_distinct [of "cacheIP m"] keys_distinct [of "cacheHost m"]
  by (auto simp: mem_view_def represents_def mem_pairs_def comp_def)

lemma distinct_key_eq:
  "distinct (map f es) \<Longrightarrow> x \<in> set es \<Longrightarrow> y \<in> set es \<Longrightarrow> f x = f y \<Longrightarrow> x = y"
  by (meson distinct_map inj_onD)

lemma lookup_Some:
  "distinct (map e_key es) \<Longrightarrow> lookup k es = Some e \<longleftrightarrow> e \<in> set es \<and> e_key e = k"
proof -
  assume d: "distinct (map e_key es)"
  have "lookup k es = Some e" if "e \<in> set es" "e_key e = k"
  proof (cases "lookup k es")
    case None
    with that show ?thesis by (auto simp: find_None_iff)
  next
    case (Some e')
    then have "e' \<in> set es" "e_key e' = k" by (auto simp: find_Some_iff)
    with Some that distinct_key_eq [OF d] show ?thesis by simp
  qed
  then show ?thesis by (auto simp: find_Some_iff)
qed

lemma without_value:
  assumes "distinct (map e_key es)" "distinct (map e_value es)" "e \<in> set es"
  shows "filter (\<lambda>x. e_value x \<noteq> e_value e) es = without (e_key e) es"
  using distinct_key_eq [OF assms(1) _ assms(3)] distinct_key_eq [OF assms(2) _ assms(3)]
  by (intro filter_cong refl) auto

lemma without_mirror:
  assumes "distinct (map e_key es)" "distinct (map e_value es)" "e \<in> set es"
  shows "without (e_value e) (map mirror es) = map mirror (without (e_key e) es)"
  using without_value [OF assms] by (simp add: filter_map comp_def)

lemma spec_get_ageless:
  "g_maxAge g = 0 \<Longrightarrow> spec_get g clock k es = (case lookup k es of None \<Rightarrow> (None, es) | Some e \<Rightarrow> (Some e, without k es @ [e]))"
  by (simp add: spec_get_def expiring_def split: option.split)

text \<open>Reading through either cache moves the pair to the back of both.\<close>

lemma touch_view:
  assumes "mem_view m g es" "e \<in> set es"
  shows "mem_view (m\<lparr>cacheIP := snd (lru_get c1 (e_key e) (cacheIP m)), cacheHost := snd (lru_get c2 (e_value e) (cacheHost m))\<rparr>)
    g (without (e_key e) es @ [e])"
proof -
  note v = mem_viewD [OF assms(1)]
  have "lookup (e_key e) es = Some e" using lookup_Some [OF v(5)] assms(2) by simp
  moreover have "distinct (map e_key (map mirror es))" using v(6) by (simp add: comp_def)
  then have "lookup (e_value e) (map mirror es) = Some (mirror e)" using lookup_Some assms(2) by fastforce
  ultimately show ?thesis
    using get_represents [OF v(1), of c1 "e_key e"] get_represents [OF v(2), of c2 "e_value e"] v(3)
      without_mirror [OF v(5,6) assms(2)]
    by (simp add: mem_view_def spec_get_ageless)
qed

lemma mem_pairs_set: "mem_view m g es \<Longrightarrow> (h, a) \<in> mem_pairs m \<longleftrightarrow> (\<exists>e \<in> set es. e_key e = h \<and> e_value e = a)"
  using mem_viewD(4) by fastforce

lemma set_touched: "e \<in> set es \<Longrightarrow> distinct (map e_key es) \<Longrightarrow> set (without (e_key e) es @ [e]) = set es"
  using distinct_key_eq [of e_key es] by auto

lemma touch_pairs:
  assumes "mem_view m g es" "e \<in> set es" "mem_view m' g (without (e_key e) es @ [e])"
  shows "mem_pairs m' = mem_pairs m"
  unfolding mem_viewD(4) [OF assms(1)] mem_viewD(4) [OF assms(3)]
    set_touched [OF assms(2) mem_viewD(5) [OF assms(1)]] ..

lemma mem_GetByHost_law:
  assumes "mem_inv m"
  shows "mem_inv (snd (mem_GetByHost clock h m)) \<and> mem_pairs (snd (mem_GetByHost clock h m)) = mem_pairs m \<and>
    (\<forall>a. fst (mem_GetByHost clock h m) = Some a \<longleftrightarrow> (h, a) \<in> mem_pairs m)"
proof -
  obtain g es where view: "mem_view m g es" using assms by (auto simp: mem_inv_def)
  note v = mem_viewD [OF view]
  note get = get_represents [OF v(1), of clock h]
  obtain r c where rc: "lru_get clock h (cacheIP m) = (r, c)" by force
  show ?thesis
  proof (cases "lookup h es")
    case None
    then have "h \<notin> e_key ` set es" by (simp add: lookup_None)
    moreover from None get rc v(3) have "r = None" "represents c g es" by (simp_all add: spec_get_ageless)
    moreover from this view v have "mem_view (m\<lparr>cacheIP := c\<rparr>) g es" by (simp add: mem_view_def)
    ultimately show ?thesis
      using mem_viewD(4) [of "m\<lparr>cacheIP := c\<rparr>" g es] v(4)
      by (auto simp: mem_GetByHost_def lru_Get_def rc mem_inv_def)
  next
    case (Some e)
    then have e: "e \<in> set es" "e_key e = h" using lookup_Some [OF v(5)] by auto
    from Some get rc v(3) have r: "r = Some e" by (simp add: spec_get_ageless)
    let ?m = "m\<lparr>cacheIP := c, cacheHost := snd (lru_get clock (e_value e) (cacheHost m))\<rparr>"
    have "mem_view ?m g (without (e_key e) es @ [e])" using touch_view [OF view e(1), of clock clock] e(2) rc by simp
    moreover from touch_pairs [OF view e(1) this] have "mem_pairs ?m = mem_pairs m" .
    moreover have "mem_GetByHost clock h m = (Some (e_value e), ?m)"
      by (simp add: mem_GetByHost_def lru_Get_def rc r split: prod.split)
    moreover have "(h, a) \<in> mem_pairs m \<longleftrightarrow> a = e_value e" for a
      using e distinct_key_eq [OF v(5)] by (auto simp: mem_pairs_set [OF view])
    ultimately show ?thesis by (auto simp: mem_inv_def)
  qed
qed

text \<open>What a read of the address cache finds.\<close>

lemma get_by_ip:
  assumes view: "mem_view m g es"
  shows "case lru_get clock a (cacheHost m) of (r, c) \<Rightarrow>
    (r = None \<and> a \<notin> e_value ` set es \<and> represents c g (map mirror es)) \<or>
    (\<exists>e \<in> set es. e_value e = a \<and> r = Some (mirror e) \<and>
       represents c g (map mirror (without (e_key e) es @ [e])))"
proof -
  note v = mem_viewD [OF view]
  note get = get_represents [OF v(2), of clock a]
  have d: "distinct (map e_key (map mirror es))" using v(6) by (simp add: comp_def)
  obtain r c where rc: "lru_get clock a (cacheHost m) = (r, c)" by force
  show ?thesis
  proof (cases "lookup a (map mirror es)")
    case None
    then have "a \<notin> e_value ` set es" by (simp add: lookup_None image_image)
    with None get rc v(3) show ?thesis by (simp add: spec_get_ageless)
  next
    case (Some f)
    then have "f \<in> set (map mirror es)" "e_key f = a" by (auto simp: lookup_Some [OF d])
    then obtain e where e: "e \<in> set es" "f = mirror e" "e_value e = a"
      unfolding set_map by (elim imageE) simp
    with Some get rc v(3) without_mirror [OF v(5,6) e(1)] have "r = Some (mirror e) \<and>
      represents c g (map mirror (without (e_key e) es @ [e]))" by (simp add: spec_get_ageless)
    with e rc show ?thesis by auto
  qed
qed

lemma mem_GetByIP_law:
  assumes "mem_inv m"
  shows "mem_inv (snd (mem_GetByIP clock a m)) \<and> mem_pairs (snd (mem_GetByIP clock a m)) = mem_pairs m \<and>
    (\<forall>h. fst (mem_GetByIP clock a m) = Some h \<longleftrightarrow> (h, a) \<in> mem_pairs m)"
proof -
  obtain g es where view: "mem_view m g es" using assms by (auto simp: mem_inv_def)
  note v = mem_viewD [OF view]
  obtain r c where rc: "lru_get clock a (cacheHost m) = (r, c)" by force
  from get_by_ip [OF view, where clock = clock and a = a] rc consider
    (none) "r = None" "a \<notin> e_value ` set es" "represents c g (map mirror es)" |
    (some) e where "e \<in> set es" "e_value e = a" "r = Some (mirror e)"
    by auto
  then show ?thesis
  proof cases
    case none
    then have "mem_view (m\<lparr>cacheHost := c\<rparr>) g es" using view by (simp add: mem_view_def)
    with none mem_viewD(4) [OF this] v(4) show ?thesis
      by (auto simp: mem_GetByIP_def lru_Get_def rc mem_inv_def)
  next
    case (some e)
    let ?m = "m\<lparr>cacheHost := c, cacheIP := snd (lru_get clock (e_key e) (cacheIP m))\<rparr>"
    have swap: "?m = m\<lparr>cacheIP := snd (lru_get clock (e_key e) (cacheIP m)), cacheHost := c\<rparr>" by simp
    have "mem_view ?m g (without (e_key e) es @ [e])"
      using touch_view [OF view some(1), of clock clock] unfolding swap some(2) rc snd_conv .
    moreover from touch_pairs [OF view some(1) this] have "mem_pairs ?m = mem_pairs m" .
    moreover have "mem_GetByIP clock a m = (Some (e_key e), ?m)"
      by (simp add: mem_GetByIP_def lru_Get_def rc some split: prod.split)
    moreover have "(h, a) \<in> mem_pairs m \<longleftrightarrow> h = e_key e" for h
      using some distinct_key_eq [OF v(6)] by (auto simp: mem_pairs_set [OF view])
    ultimately show ?thesis by (auto simp: mem_inv_def)
  qed
qed

lemma mem_DelByIP_law:
  assumes "mem_inv m"
  shows "mem_inv (mem_DelByIP clock a m) \<and> mem_pairs (mem_DelByIP clock a m) = {x \<in> mem_pairs m. snd x \<noteq> a}"
proof -
  obtain g es where view: "mem_view m g es" using assms by (auto simp: mem_inv_def)
  note v = mem_viewD [OF view]
  obtain r c where rc: "lru_get clock a (cacheHost m) = (r, c)" by force
  let ?es = "filter (\<lambda>e. e_value e \<noteq> a) es"
  have "mem_view (mem_DelByIP clock a m) g ?es"
  proof -
    from get_by_ip [OF view, where clock = clock and a = a] rc consider
      (none) "r = None" "a \<notin> e_value ` set es" "represents c g (map mirror es)" |
      (some) e where "e \<in> set es" "e_value e = a" "r = Some (mirror e)"
        "represents c g (map mirror (without (e_key e) es @ [e]))"
      by auto
    then show ?thesis
    proof cases
      case none
      have "?es = es" using none(2) by (rule filter_other)
      moreover have "without a (map mirror es) = map mirror es" using none(2) by (intro filter_other) (simp add: image_image)
      ultimately show ?thesis
        using delete_represents [OF none(3), of a] v(1,3) none(1)
        by (simp add: mem_DelByIP_def lru_Get_def rc lru_Delete_def mem_view_def)
    next
      case (some e)
      have f: "?es = without (e_key e) es"
        using without_value [OF v(5,6) some(1)] unfolding some(2) .
      have "without a (map mirror (without (e_key e) es @ [e])) = map mirror ?es"
        unfolding f [symmetric] using some(2) by (simp add: filter_map comp_def)
      then show ?thesis
        using delete_represents [OF some(4), of a] delete_represents [OF v(1), of "e_key e"] v(3) some(3)
        by (simp add: mem_DelByIP_def lru_Get_def rc lru_Delete_def mem_view_def f)
    qed
  qed
  from mem_viewD(4) [OF this] this v(4) show ?thesis by (auto simp: mem_inv_def)
qed

lemma mem_put_law:
  fixes clock :: clock
  assumes "mem_inv m" "h \<notin> fst ` mem_pairs m" "a \<notin> snd ` mem_pairs m"
  defines "m' \<equiv> mem_PutByHost clock h a (mem_PutByIP clock a h m)"
  shows "mem_inv m' \<and> (h, a) \<in> mem_pairs m' \<and> mem_pairs m' \<subseteq> insert (h, a) (mem_pairs m)"
proof -
  obtain g es where view: "mem_view m g es" using assms(1) by (auto simp: mem_inv_def)
  note v = mem_viewD [OF view]
  let ?e = "\<lparr>e_key = h, e_value = a, e_expires = 0\<rparr>"
  let ?es = "if g_maxSize g > 0 \<and> int (Suc (length es)) > g_maxSize g then tl (es @ [?e]) else es @ [?e]"
  have new: "h \<notin> e_key ` set es" "a \<notin> e_value ` set es" using assms(2,3) v(4) by (auto simp: image_iff)
  then have l: "lookup h es = None" "lookup a (map mirror es) = None" by (auto simp: lookup_None)
  have w: "without h es = es" "without a (map mirror es) = map mirror es"
    using new by (auto intro!: filter_other)
  have "represents (cacheIP m') g ?es"
    using set_represents [OF v(1), of clock h a] l w v(3)
    by (simp add: m'_def mem_PutByHost_def mem_PutByIP_def lru_Set_def spec_set_def spec_setWithExpire_def spec_expire_def expiring_def Let_def)
  moreover have "represents (cacheHost m') g (map mirror ?es)"
    using set_represents [OF v(2), of clock a h] l w v(3)
    by (auto simp: m'_def mem_PutByHost_def mem_PutByIP_def lru_Set_def spec_set_def spec_setWithExpire_def
        spec_expire_def expiring_def Let_def mirror_def map_tl split: if_splits)
  ultimately have view': "mem_view m' g ?es" using v(3) by (simp add: mem_view_def)
  have pairs: "mem_pairs m' = (\<lambda>e. (e_key e, e_value e)) ` set ?es" by (rule mem_viewD(4) [OF view'])
  have "?e \<in> set ?es" by (cases es) auto
  then have "(\<lambda>e. (e_key e, e_value e)) ?e \<in> mem_pairs m'" unfolding pairs by (rule imageI)
  moreover have "set ?es \<subseteq> insert ?e (set es)" by (cases es) auto
  then have "mem_pairs m' \<subseteq> (\<lambda>e. (e_key e, e_value e)) ` insert ?e (set es)" unfolding pairs by (rule image_mono)
  moreover have "mem_inv m'" using view' unfolding mem_inv_def by blast
  ultimately show ?thesis by (simp add: v(4))
qed

lemma mem_clone_law:
  assumes "mem_inv m" "mem_inv n"
  shows "mem_inv (mem_CloneTo m n) \<and> mem_pairs (mem_CloneTo m n) = mem_pairs m"
proof -
  obtain g es where m: "mem_view m g es" using assms(1) by (auto simp: mem_inv_def)
  obtain g' fs where n: "mem_view n g' fs" using assms(2) by (auto simp: mem_inv_def)
  have "config_of (cacheIP n) = g'" "config_of (cacheHost n) = g'" "g_maxAge g' = 0"
    using n by (auto simp: mem_view_def represents_def)
  then have "mem_view (mem_CloneTo m n) g' es"
    using CloneTo_represents [OF mem_viewD(1) [OF m], of "cacheIP n"]
      CloneTo_represents [OF mem_viewD(2) [OF m], of "cacheHost n"]
    by (simp add: mem_view_def mem_CloneTo_def)
  from mem_viewD(4) [OF this] this mem_viewD(4) [OF m] show ?thesis by (auto simp: mem_inv_def)
qed

lemma mem_flush_law: "mem_inv m \<Longrightarrow> mem_inv (snd (mem_FlushFakeIP m)) \<and> mem_pairs (snd (mem_FlushFakeIP m)) = {}"
proof -
  assume "mem_inv m"
  then obtain g es where m: "mem_view m g es" by (auto simp: mem_inv_def)
  then have "config_of (cacheIP m) = g" "config_of (cacheHost m) = g" "g_maxAge g = 0"
    by (auto simp: mem_view_def represents_def)
  then have "mem_view (snd (mem_FlushFakeIP m)) g []"
    using Clear_represents [of "cacheIP m"] Clear_represents [of "cacheHost m"]
    by (simp add: mem_FlushFakeIP_def mem_view_def)
  from mem_viewD(4) [OF this] this show ?thesis by (auto simp: mem_inv_def)
qed

interpretation memory: fake_store "memory_ops clock" mem_inv mem_pairs
proof
  fix s x y assume "mem_inv s" and xy: "x \<in> mem_pairs s" "y \<in> mem_pairs s"
  then obtain g es where m: "mem_view s g es" by (auto simp: mem_inv_def)
  note v = mem_viewD [OF m]
  from xy v(4) obtain e f where "e \<in> set es" "f \<in> set es" "x = (e_key e, e_value e)" "y = (e_key f, e_value f)"
    by auto
  then show "(fst x = fst y) = (snd x = snd y)"
    using distinct_key_eq [OF v(5), of e f] distinct_key_eq [OF v(6), of e f] by auto
next
  fix s a assume "mem_inv s"
  then obtain g es where m: "mem_view s g es" by (auto simp: mem_inv_def)
  have "lru_inv (cacheHost s)" "entries (cacheHost s) = map mirror es"
    using mem_viewD(2) [OF m] by (auto simp: represents_def)
  then have "lru_Exist a (cacheHost s) \<longleftrightarrow> a \<in> e_key ` set (map mirror es)"
    using cache_None_iff [of "cacheHost s" a] by (simp add: lru_Exist_def)
  then show "sExist (memory_ops clock) a s \<longleftrightarrow> a \<in> snd ` mem_pairs s"
    using mem_viewD(4) [OF m] by (simp add: memory_ops_def mem_Exist_def image_image)
qed (simp_all add: memory_ops_def mem_GetByHost_law mem_GetByIP_law mem_DelByIP_law mem_put_law mem_clone_law
  mem_flush_law, simp_all add: mem_FlushFakeIP_def)

section \<open>The range of a new pool\<close>

lemma drop_bit_between:
  fixes lo x hi :: "'w::len word"
  assumes "drop_bit n lo = drop_bit n hi" "unat lo \<le> unat x" "unat x \<le> unat hi"
  shows "drop_bit n x = drop_bit n hi"
proof -
  have u: "unat (drop_bit n w) = unat w div 2 ^ n" for w :: "'w word"
    unfolding unat_drop_bit_eq by (simp add: drop_bit_eq_div)
  have "unat (drop_bit n lo) \<le> unat (drop_bit n x)" "unat (drop_bit n x) \<le> unat (drop_bit n hi)"
    unfolding u using assms(2,3) by (auto intro: div_le_mono)
  with assms(1) show ?thesis by (simp add: word_unat_eq_iff)
qed

lemma prefix_convex:
  assumes "prefix_contains net lo" "prefix_contains net hi" "same_family lo a"
    "addr_num lo \<le> addr_num a" "addr_num a \<le> addr_num hi"
  shows "prefix_contains net a"
  using assms
  by (cases "p_addr net"; cases lo; cases hi; cases a)
    (auto simp: prefix_contains_def intro: drop_bit_between [symmetric])

lemma drop_push_drop: "drop_bit n (push_bit n (drop_bit n w)) = drop_bit n w" for w :: "'w::len word"
  by (rule bit_word_eqI) (auto simp: bit_simps dest: bit_imp_le_length)

lemma contains_Masked: "prefix_valid net \<Longrightarrow> prefix_contains net (p_addr (Masked net))"
  by (cases "p_addr net") (auto simp: prefix_contains_def drop_push_drop Masked.simps)

text \<open>The documented behaviour of \<open>netipx.PrefixLastIP\<close> the pool relies on.\<close>

definition last_ip_law :: "(prefix \<Rightarrow> addr) \<Rightarrow> bool" where
  "last_ip_law L \<longleftrightarrow> (\<forall>net. prefix_valid net \<longrightarrow> prefix_contains net (L net))"

lemma Next4:
  assumes "IsValid (Next (Next (Next (Next a))))"
  shows "same_family (Next (Next (Next (Next a)))) a \<and> addr_num (Next (Next (Next (Next a)))) = addr_num a + 4 \<and>
    same_family (Next a) a \<and> addr_num (Next a) = addr_num a + 1"
proof -
  have valid: "IsValid (Next x) \<Longrightarrow> IsValid x" for x by (cases x) auto
  have "IsValid (Next a)" "IsValid (Next (Next a))" "IsValid (Next (Next (Next a)))" using assms valid by blast+
  note n = this [THEN Next_valid] assms [THEN Next_valid]
  have "same_family (Next (Next a)) a" using n same_family_trans by blast
  moreover from this have "same_family (Next (Next (Next a))) a" using n(3) same_family_trans by blast
  moreover from this have "same_family (Next (Next (Next (Next a)))) a" using n(4) same_family_trans by blast
  ultimately show ?thesis using n by simp
qed

lemma prefix_same_family: "prefix_contains net a \<Longrightarrow> prefix_contains net b \<Longrightarrow> Is4 a = Is4 b"
  by (cases a; cases b; cases "p_addr net") (auto simp: prefix_contains_def)

lemma contains_family:
  "prefix_contains net a \<Longrightarrow> prefix_contains net b \<Longrightarrow> (\<exists>x. a = V6 x []) \<or> Is4 a \<Longrightarrow> same_family a b"
  by (cases a; cases b; cases "p_addr net") (auto simp: prefix_contains_def)

lemma New_range:
  assumes "pool_New L S st net = Some p" "last_ip_law L" "\<not> sIsCachefile S"
  shows "range_ok p \<and> p_offset p = Prev (p_first p) \<and> p_store p = st \<and> p_ipnet p = net \<and>
    p_gateway p = Next (p_addr (Masked net)) \<and> p_last p = L net \<and>
    (\<forall>a. in_range p a \<longrightarrow> prefix_contains net a \<and> Less (p_gateway p) a \<and> Less a (p_last p) \<and> a \<noteq> p_gateway p \<and> a \<noteq> p_last p)"
proof -
  let ?h = "p_addr (Masked net)"
  let ?f = "Next (Next (Next (Next ?h)))"
  have valid: "prefix_valid net" "IsValid ?f" "Less ?f (L net)"
    and p: "p = \<lparr>p_gateway = Next ?h, p_first = ?f, p_last = L net, p_offset = Prev ?f,
      p_cycle = False, p_ipnet = net, p_store = st\<rparr>"
    using assms(1,3) by (auto simp: pool_New_def restoreState_def Let_def split: if_splits)
  have ch: "prefix_contains net ?h" by (rule contains_Masked [OF valid(1)])
  have cl: "prefix_contains net (L net)" using assms(2) valid(1) by (simp add: last_ip_law_def)
  note n4 = Next4 [OF valid(2)]
  have "(\<exists>x. ?h = V6 x []) \<or> Is4 ?h"
    using valid(1) by (cases "p_addr net") (auto simp: Masked.simps)
  then have hl: "same_family ?h (L net)" by (rule contains_family [OF ch cl])
  have fl: "same_family ?f (L net)" using n4 hl same_family_trans by blast
  have less: "addr_num ?f < addr_num (L net)" using valid(3) Less_num [OF fl] by simp
  have "Prev ?f = Next (Next (Next ?h))" by (rule Prev_Next [OF valid(2)])
  moreover have "same_family ?f (Next (Next (Next ?h)))" "addr_num ?f = Suc (addr_num (Next (Next (Next ?h))))"
    using Next_valid [OF valid(2)] by auto
  ultimately have "range_ok p"
    using fl less same_family_sym [of ?f "Next (Next (Next ?h))"] unfolding p range_ok_def by simp
  moreover have "prefix_contains net a \<and> Less (Next ?h) a \<and> Less a (L net) \<and> a \<noteq> Next ?h \<and> a \<noteq> L net" if "in_range p a" for a
  proof -
    from that have a: "same_family a ?f" "addr_num ?f \<le> addr_num a" "addr_num a < addr_num (L net)"
      by (auto simp: in_range_def p)
    have "same_family ?h a" using a(1) n4 same_family_trans same_family_sym by blast
    then have "prefix_contains net a"
      using a n4 by (intro prefix_convex [OF ch cl]) auto
    moreover have "same_family (Next ?h) a" "same_family a (L net)"
      using a(1) n4 fl same_family_trans same_family_sym by blast+
    ultimately show ?thesis using a n4 by (auto simp: Less_num)
  qed
  ultimately show ?thesis by (simp add: p)
qed

lemma newMemoryStore_inv: "mem_inv (newMemoryStore sz) \<and> mem_pairs (newMemoryStore sz) = {}"
proof -
  let ?g = "\<lparr>g_maxAge = 0, g_maxSize = sz, g_update = False, g_stale = False\<rparr>"
  have "config_of (lru_New [WithSize sz] :: (string, addr) LruCache) = ?g"
    "config_of (lru_New [WithSize sz] :: (addr, string) LruCache) = ?g"
    by (simp_all add: lru_New_def lru_Clear_def config_of_def)
  then have "mem_view (newMemoryStore sz) ?g []"
    using New_represents [of "[WithSize sz]", where 'k = string and 'v = addr]
      New_represents [of "[WithSize sz]", where 'k = addr and 'v = string]
    by (simp add: newMemoryStore_def mem_view_def)
  from mem_viewD(4) [OF this] this show ?thesis by (auto simp: mem_inv_def)
qed

lemma memory_pool_ok:
  assumes "pool_New L (memory_ops clock) (newMemoryStore sz) net = Some p0" "last_ip_law L"
    "pool_run (memory_ops clock) p0 p"
  shows "memory.pool_ok p \<and> geometry p = geometry p0"
proof -
  have c: "\<not> sIsCachefile (memory_ops clock)" by (simp add: memory_ops_def)
  have "memory.pool_ok p0"
    using New_range [OF assms(1,2) c] newMemoryStore_inv [of sz] by (simp add: memory.pool_ok_def)
  from memory.run_ok [OF assms(3) this _ c] show ?thesis
    using New_range [OF assms(1,2) c] by blast
qed

text \<open>What a lookup in a reachable pool gives, with the geometry of the pool afterwards.\<close>

lemma fake_ip_lookup:
  assumes new: "pool_New L (memory_ops clock) (newMemoryStore sz) net = Some p0" and law: "last_ip_law L"
    and run: "pool_run (memory_ops clock) p0 p" and a: "Lookup (memory_ops clock) host p = (a, p')"
  shows "prefix_contains net a \<and> Less (p_gateway p0) a \<and> Less a (p_last p0) \<and> a \<noteq> p_gateway p0 \<and> a \<noteq> p_last p0 \<and>
    p_ipnet p' = net \<and> p_gateway p' = p_gateway p0 \<and> p_last p' = p_last p0 \<and>
    memory.pool_ok p' \<and> (to_lower host, a) \<in> mem_pairs (p_store p') \<and>
    fst (LookBack (memory_ops clock) a p') = Some (to_lower host)"
proof -
  have ok: "memory.pool_ok p" and geo: "geometry p = geometry p0"
    using memory_pool_ok [OF new law run] by auto
  have ok': "memory.pool_ok p'" and pair: "(to_lower host, a) \<in> mem_pairs (p_store p')" and rng: "in_range p' a"
    using memory.Lookup_ok [OF ok, of clock host] memory.Lookup_pair [OF ok, of host clock]
      memory.Lookup_in_range [OF ok, of clock host] a by simp_all
  have geo': "geometry p' = geometry p0" using geo a geometry_kept(1) [of "memory_ops clock" host p] by simp
  then have "in_range p0 a" using rng by (simp add: in_range_def geometry_def)
  moreover have "\<not> sIsCachefile (memory_ops clock)" by (simp add: memory_ops_def)
  ultimately have "prefix_contains net a \<and> Less (p_gateway p0) a \<and> Less a (p_last p0) \<and> a \<noteq> p_gateway p0 \<and> a \<noteq> p_last p0 \<and>
      p_ipnet p0 = net"
    using New_range [OF new law] by blast
  moreover have "fst (LookBack (memory_ops clock) a p') = Some (to_lower host)"
    using memory.LookBack_ok [OF ok', of clock a] pair by simp
  ultimately show ?thesis using ok' pair geo' by (simp add: geometry_def)
qed

section \<open>Properties\<close>


text \<open>
  C30.  No two hosts share an address: in every reachable state of an in-memory pool a host has
  an address exactly when the address leads back to that host, whatever was evicted, recycled or
  flushed before.
\<close>

theorem fake_ip_one_to_one:
  fixes clock L sz net
  defines "S \<equiv> memory_ops clock"
  assumes new: "pool_New L S (newMemoryStore sz) net = Some p0" and law: "last_ip_law L"
    and run: "pool_run S p0 p"
  shows "fst (sGetByHost S h (p_store p)) = Some a \<longleftrightarrow> fst (LookBack S a p) = Some h"
proof -
  have ok: "memory.pool_ok p" using memory_pool_ok [OF new [unfolded S_def] law run [unfolded S_def]] by simp
  then have "mem_inv (p_store p)" by (simp add: memory.pool_ok_def)
  with ok show ?thesis
    using memory.by_host [of "p_store p" clock h] memory.LookBack_ok [OF ok, of clock a] by (simp add: S_def)
qed

text \<open>
  A reloaded configuration keeps old answers: \<open>CloneFrom\<close> copies the pairs of the old pool
  into the new one without looking at the new range, so a host known to the old pool is still
  answered with its old address, which the new range does not contain when the two ranges are
  disjoint.
\<close>

lemma cloned_pool_answers_outside_its_range:
  fixes clock L sz sz' net net' host
  defines "S \<equiv> memory_ops clock"
  assumes old: "pool_New L S (newMemoryStore sz) net = Some p0" and law: "last_ip_law L"
    and run: "pool_run S p0 p" and a: "Lookup S host p = (a, p')"
    and new: "pool_New L S (newMemoryStore sz') net' = Some q"
    and disjoint: "\<not> (prefix_contains net a \<and> prefix_contains net' a)"
  shows "fst (Lookup S host (CloneFrom S p' q)) = a \<and> \<not> prefix_contains (p_ipnet (CloneFrom S p' q)) a"
proof -
  note sound = fake_ip_lookup [OF old [unfolded S_def] law run [unfolded S_def] a [unfolded S_def]]
  have c: "\<not> sIsCachefile S" by (simp add: S_def memory_ops_def)
  have ipnet: "p_ipnet (CloneFrom S p' q) = net'" and store: "p_store q = newMemoryStore sz'"
    using New_range [OF new law c] by (simp_all add: CloneFrom_def)
  have "mem_inv (p_store (CloneFrom S p' q)) \<and> (to_lower host, a) \<in> mem_pairs (p_store (CloneFrom S p' q))"
    using memory.clone [of "p_store p'" "p_store q" clock] sound newMemoryStore_inv [of sz'] store
    by (simp add: CloneFrom_def S_def memory.pool_ok_def)
  then have "fst (Lookup S host (CloneFrom S p' q)) = a"
    using memory.Lookup_known [of "CloneFrom S p' q" host a clock] by (simp add: S_def)
  with sound disjoint ipnet show ?thesis by simp
qed

text \<open>Example: the default range, and a second range for a reload.\<close>

definition example_last :: "prefix \<Rightarrow> addr" where
  "example_last net =
     (case p_addr net of
        V4 a \<Rightarrow> V4 (a OR mask (32 - p_bits net))
      | V6 a z \<Rightarrow> V6 (a OR mask (128 - p_bits net)) []
      | NoAddr \<Rightarrow> NoAddr)"

lemma drop_mask: "drop_bit n (mask n :: 'w::len word) = 0"
  by (rule bit_word_eqI) (auto simp: bit_simps)

lemma example_last_law: "last_ip_law example_last"
  by (auto simp: last_ip_law_def example_last_def prefix_contains_def drop_mask split: addr.splits)

definition example_net :: "32 word \<Rightarrow> prefix" where
  "example_net a = \<lparr>p_addr = V4 a, p_bits = 16\<rparr>"

lemma example_pool:
  assumes "a = 0xC6120000 \<or> a = 0x0A000000"
  shows "\<exists>p. pool_New example_last (memory_ops clock) (newMemoryStore 1000) (example_net a) = Some p"
  using assms
  by (auto simp: pool_New_def Let_def example_net_def Masked.simps example_last_def mask_eq_exp_minus_1)


theorem fake_ip_one_to_one_witness:
  "\<exists>p0. pool_New example_last (memory_ops (\<lambda>_. 0)) (newMemoryStore 1000) (example_net 0xC6120000) = Some p0 \<and>
     (fst (sGetByHost (memory_ops (\<lambda>_. 0)) ''x'' (p_store p0)) = Some (V4 5) \<longleftrightarrow>
      fst (LookBack (memory_ops (\<lambda>_. 0)) (V4 5) p0) = Some ''x'')"
proof -
  obtain p0 where p0: "pool_New example_last (memory_ops (\<lambda>_. 0)) (newMemoryStore 1000) (example_net 0xC6120000) = Some p0"
    using example_pool by blast
  from fake_ip_one_to_one [OF p0 example_last_law pool_run.start] p0 show ?thesis by blast
qed

lemma example_nets_disjoint:
  "\<not> (prefix_contains (example_net 0xC6120000) a \<and> prefix_contains (example_net 0x0A000000) a)"
  by (cases a) (auto simp: prefix_contains_def example_net_def)

lemma cloned_pool_answers_outside_its_range_witness:
  "\<exists>p0 q a p'. Lookup (memory_ops (\<lambda>_. 0)) ''x'' p0 = (a, p') \<and>
     pool_New example_last (memory_ops (\<lambda>_. 0)) (newMemoryStore 1000) (example_net 0x0A000000) = Some q \<and>
     \<not> prefix_contains (p_ipnet (CloneFrom (memory_ops (\<lambda>_. 0)) p' q)) (fst (Lookup (memory_ops (\<lambda>_. 0)) ''x'' (CloneFrom (memory_ops (\<lambda>_. 0)) p' q)))"
proof -
  obtain p0 where p0: "pool_New example_last (memory_ops (\<lambda>_. 0)) (newMemoryStore 1000) (example_net 0xC6120000) = Some p0"
    using example_pool by blast
  obtain q where q: "pool_New example_last (memory_ops (\<lambda>_. 0)) (newMemoryStore 1000) (example_net 0x0A000000) = Some q"
    using example_pool by blast
  obtain a p' where a: "Lookup (memory_ops (\<lambda>_. 0)) ''x'' p0 = (a, p')" by force
  have "fst (Lookup (memory_ops (\<lambda>_. 0)) ''x'' (CloneFrom (memory_ops (\<lambda>_. 0)) p' q)) = a \<and>
    \<not> prefix_contains (p_ipnet (CloneFrom (memory_ops (\<lambda>_. 0)) p' q)) a"
    by (rule cloned_pool_answers_outside_its_range [OF p0 example_last_law pool_run.start a q example_nets_disjoint])
  with a q show ?thesis
    by (intro exI [of _ p0] exI [of _ q] exI [of _ a] exI [of _ p']) simp
qed

end
