(* ===== verification/Wire.thy ===== *)
theory Wire
  imports Netip "HOL-Library.Multiset"
begin

text \<open>
  What the wire formats share: big-endian numbers, the standard library's readers over a byte
  stream, text as bytes, and the interface of a reassembler of fragmented datagrams with the lemma
  its users need.

  A reader is the list of bytes that are still to come.  \<open>io.ReadFull\<close> fails with \<open>EOF\<close> at the end of
  the stream and with \<open>ErrUnexpectedEOF\<close> inside a read; a failed index or slice is \<open>WirePanic\<close>.
\<close>

type_synonym bytes = "8 word list"

section \<open>Numbers and text\<close>

definition from_bytes :: "bytes \<Rightarrow> 'w::len word" where
  "from_bytes bs = fold (\<lambda>b acc. push_bit 8 acc OR ucast b) bs 0"

definition AddrFromSlice :: "bytes \<Rightarrow> addr" where
  "AddrFromSlice bs =
     (if length bs = 4 then V4 (from_bytes bs) else if length bs = 16 then V6 (from_bytes bs) [] else NoAddr)"

definition string_bytes :: "string \<Rightarrow> bytes" where
  "string_bytes s = map (\<lambda>c. of_nat (of_char c)) s"

definition bytes_string :: "bytes \<Rightarrow> string" where
  "bytes_string bs = map (\<lambda>b. char_of (unat b)) bs"

text \<open>Go's integer division truncates.\<close>

definition go_quot :: "int \<Rightarrow> int \<Rightarrow> int" where
  "go_quot a b = (if (a < 0) = (b < 0) then \<bar>a\<bar> div \<bar>b\<bar> else - (\<bar>a\<bar> div \<bar>b\<bar>))"

section \<open>Readers\<close>

datatype wire_error =
    WireEOF
  | WireUnexpectedEOF
  | WirePanic
  | WireCommand "8 word"
  | WireVersion
  | WireRate
  | WireLength

definition ReadFull :: "nat \<Rightarrow> bytes \<Rightarrow> (wire_error, bytes \<times> bytes) result" where
  "ReadFull n r =
     (if n = 0 then Inr ([], r)
      else if r = [] then Inl WireEOF
      else if length r < n then Inl WireUnexpectedEOF
      else Inr (take n r, drop n r))"

definition wire_ReadByte :: "bytes \<Rightarrow> (wire_error, 8 word \<times> bytes) result" where
  "wire_ReadByte r = (case r of [] \<Rightarrow> Inl WireEOF | b # r' \<Rightarrow> Inr (b, r'))"

text \<open>\<open>binary.Read\<close> of an unsigned number of \<open>n\<close> bytes, and \<open>binary.Write\<close>.\<close>

definition read_be :: "nat \<Rightarrow> bytes \<Rightarrow> (wire_error, 'w::len word \<times> bytes) result" where
  "read_be n r = result_bind (ReadFull n r) (\<lambda>(b, r'). Inr (from_bytes b, r'))"

section \<open>Lemmas\<close>

lemma be_bytes_Suc: "be_bytes (Suc n) x = ucast (drop_bit (8 * n) x) # be_bytes n x"
  by (simp add: be_bytes_def)

lemma fold_be_bytes:
  "fold (\<lambda>b acc. push_bit 8 acc OR ucast b) (be_bytes n x) acc = push_bit (8 * n) acc OR take_bit (8 * n) (x :: 'w::len word)"
proof (induction n arbitrary: acc)
  case 0
  show ?case by (simp add: be_bytes_def)
next
  case (Suc n)
  have "push_bit (8 * n) (push_bit 8 acc OR ucast (ucast (drop_bit (8 * n) x) :: 8 word)) OR take_bit (8 * n) x =
      push_bit (8 * Suc n) acc OR take_bit (8 * Suc n) x"
    by (rule bit_word_eqI) (auto simp: bit_simps add.commute)
  then show ?case by (simp add: be_bytes_Suc Suc.IH)
qed

lemma from_be_bytes: "8 * n = LENGTH('w) \<Longrightarrow> from_bytes (be_bytes n x) = (x :: 'w::len word)"
  by (simp add: from_bytes_def fold_be_bytes take_bit_word_eq_self)

lemma AddrFromSlice_V4 [simp]: "AddrFromSlice (be_bytes 4 x) = V4 x"
  by (simp add: AddrFromSlice_def from_be_bytes)

lemma bytes_string_bytes [simp]: "bytes_string (string_bytes s) = s"
proof -
  have "char_of (unat (of_nat (of_char c) :: 8 word)) = c" for c :: char
    using nat_of_char_less_256 [of c] by (simp add: unat_of_nat take_bit_nat_eq_self)
  then show ?thesis by (simp add: bytes_string_def string_bytes_def comp_def)
qed

lemma string_bytes_Nil [simp]: "string_bytes [] = []"
  by (simp add: string_bytes_def)

lemma length_string_bytes [simp]: "length (string_bytes s) = length s"
  by (simp add: string_bytes_def)

lemma ReadFull_append [simp]: "n = length b \<Longrightarrow> ReadFull n (b @ r) = Inr (b, r)"
  by (auto simp: ReadFull_def)

lemma ReadByte_Cons [simp]: "wire_ReadByte (b # r) = Inr (b, r)"
  by (simp add: wire_ReadByte_def)

lemma read_be_append [simp]:
  "8 * n = LENGTH('w) \<Longrightarrow> read_be n (be_bytes n x @ r) = Inr (x :: 'w::len word, r)"
  by (simp add: read_be_def from_be_bytes)

lemma ReadFull_length: "ReadFull n r = Inr (b, r') \<Longrightarrow> length r = n + length r'"
  by (auto simp: ReadFull_def split: if_splits)

lemma ReadByte_length: "wire_ReadByte r = Inr (b, r') \<Longrightarrow> length r = Suc (length r')"
  by (auto simp: wire_ReadByte_def split: list.splits)

lemma read_be_length: "read_be n r = Inr (x, r') \<Longrightarrow> length r = n + length r'"
  by (auto simp: read_be_def result_bind_Inr_iff dest: ReadFull_length)

lemmas wire_lengths = ReadFull_length ReadByte_length read_be_length

section \<open>Slices of a payload\<close>

function chunks :: "nat \<Rightarrow> 'a list \<Rightarrow> 'a list list" where
  "chunks k xs = (if k = 0 \<or> xs = [] then [] else take k xs # chunks k (drop k xs))"
  by pat_completeness auto
termination by (relation "measure (\<lambda>(k, xs). length xs)") auto

declare chunks.simps [simp del]

lemma concat_chunks: "0 < k \<Longrightarrow> concat (chunks k xs) = xs"
  by (induction k xs rule: chunks.induct) (subst chunks.simps, auto)

lemma chunk_size: "c \<in> set (chunks k xs) \<Longrightarrow> length c \<le> length xs"
proof (induction k xs rule: chunks.induct)
  case (1 k xs)
  then show ?case by (subst (asm) (2) chunks.simps) (auto split: if_splits)
qed

lemma chunk_bound: "c \<in> set (chunks k xs) \<Longrightarrow> length c \<le> k"
proof (induction k xs rule: chunks.induct)
  case (1 k xs)
  then show ?case by (subst (asm) (2) chunks.simps) (auto split: if_splits)
qed

lemma length_chunks: "0 < k \<Longrightarrow> length (chunks k xs) = (length xs + k - 1) div k"
proof (induction k xs rule: chunks.induct)
  case (1 k xs)
  show ?case
  proof (cases "length xs \<le> k")
    case True
    have "(length xs + k - 1) div k = (if xs = [] then 0 else 1)"
      using True 1(2) by (cases xs) (auto intro!: div_nat_eqI)
    then show ?thesis using True 1(2) by (subst chunks.simps) (auto simp: chunks.simps [of k "[]"])
  next
    case False
    then have cut: "chunks k xs = take k xs # chunks k (drop k xs)" using 1(2) by (subst chunks.simps) auto
    have "length (chunks k (drop k xs)) = (length (drop k xs) + k - 1) div k"
      using False 1(2) by (intro 1(1)) auto
    then have "length (chunks k xs) = Suc ((length xs - 1) div k)" using cut False by simp
    also have "\<dots> = (length xs - 1 + k) div k" using div_add_self2 [of k "length xs - 1"] 1(2) by linarith
    also have "length xs - 1 + k = length xs + k - 1" using False by simp
    finally show ?thesis .
  qed
qed

lemma chunk_count:
  assumes "0 < k" "k < int (length xs)" "int (length xs) \<le> 255 * k"
  shows "2 \<le> length (chunks (nat k) xs) \<and> length (chunks (nat k) xs) \<le> 255"
proof
  have pos: "0 < nat k" using assms(1) by simp
  have "2 * nat k \<le> length xs + nat k - 1" using assms by linarith
  then show "2 \<le> length (chunks (nat k) xs)" using pos by (simp add: length_chunks less_eq_div_iff_mult_less_eq)
  have "length xs + nat k - 1 < 256 * nat k" using assms by linarith
  then show "length (chunks (nat k) xs) \<le> 255"
    using pos by (simp add: length_chunks less_Suc_eq_le [symmetric] div_less_iff_less_mult del: less_Suc_eq_le)
qed

text \<open>How many of the fragments have arrived.\<close>

definition present :: "'a option list \<Rightarrow> nat" where
  "present fs = length (filter (\<lambda>x. x \<noteq> None) fs)"

lemma present_update: "i < length fs \<Longrightarrow> fs ! i = None \<Longrightarrow> present (fs[i := Some m]) = Suc (present fs)"
  by (induction fs arbitrary: i) (auto simp: present_def split: nat.splits)

lemma present_full: "present fs = length fs \<longleftrightarrow> None \<notin> set fs"
proof (cases "None \<in> set fs")
  case True
  then show ?thesis using length_filter_less [of None fs "\<lambda>x. x \<noteq> None"] by (simp add: present_def)
next
  case False
  then have "filter (\<lambda>x. x \<noteq> None) fs = fs" by (intro filter_True) metis
  with False show ?thesis unfolding present_def by metis
qed

lemma those_full: "None \<notin> set fs \<Longrightarrow> those fs = Some (map the fs)"
proof (induction fs)
  case (Cons a fs)
  then show ?case by (cases a) auto
qed simp

lemma mset_map_inv: "mset ys = mset (map f xs) \<Longrightarrow> \<exists>zs. mset zs = mset xs \<and> map f zs = ys"
proof (induction ys arbitrary: xs)
  case (Cons y ys)
  then have "y \<in> set (map f xs)" by (metis list.set_intros(1) mset_eq_setD)
  then obtain x where x: "x \<in> set xs" "y = f x" by auto
  then have "mset ys = mset (map f (remove1 x xs))" using Cons.prems by (simp add: image_mset_Diff) (metis add_mset_remove_trivial)
  from Cons.IH [OF this] obtain zs where zs: "mset zs = mset (remove1 x xs)" "map f zs = ys" by blast
  have "mset (x # zs) = mset xs" using zs(1) x(1) by simp
  with zs(2) x(2) show ?case by (intro exI [of _ "x # zs"]) simp
qed simp

section \<open>Reassembly\<close>

text \<open>Feeding datagrams one after the other; the number of the call stands for its time.\<close>

fun feed_all ::
  "(nat \<Rightarrow> 'm \<Rightarrow> 'st \<Rightarrow> ('e, 'm option \<times> 'st) result) \<Rightarrow> nat \<Rightarrow> 'm list \<Rightarrow> 'st \<Rightarrow> ('e, 'm option list \<times> 'st) result" where
  "feed_all feed i [] st = Inr ([], st)"
| "feed_all feed i (m # ms) st =
     result_bind (feed i m st) (\<lambda>(r, st1). result_bind (feed_all feed (Suc i) ms st1) (\<lambda>(rs, st2). Inr (r # rs, st2)))"

text \<open>
  What a reassembler promises for the fragments of one packet.  \<open>ident\<close> is a fragment's number,
  \<open>belongs n m\<close> says that \<open>m\<close> is one of the \<open>n\<close> fragments of the packet, \<open>collected fs\<close> that exactly
  the fragments in \<open>fs\<close> have arrived, and \<open>assemble\<close> gives the packet from its fragments in order
  and the one that arrived last.
\<close>

locale reassembler =
  fixes feed :: "nat \<Rightarrow> 'm \<Rightarrow> 'st \<Rightarrow> ('e, 'm option \<times> 'st) result"
    and idle :: "'st \<Rightarrow> bool"
    and collected :: "'m option list \<Rightarrow> 'st \<Rightarrow> bool"
    and ident :: "'m \<Rightarrow> nat"
    and belongs :: "nat \<Rightarrow> 'm \<Rightarrow> bool"
    and assemble :: "'m list \<Rightarrow> 'm \<Rightarrow> 'm"
  assumes ident_less: "belongs n m \<Longrightarrow> ident m < n"
    and first: "idle st \<Longrightarrow> belongs n m \<Longrightarrow> 2 \<le> n \<Longrightarrow>
      \<exists>st'. feed i m st = Inr (None, st') \<and> collected ((replicate n None)[ident m := Some m]) st'"
    and more: "collected fs st \<Longrightarrow> belongs (length fs) m \<Longrightarrow> fs ! ident m = None \<Longrightarrow> None \<in> set (fs[ident m := Some m]) \<Longrightarrow>
      \<exists>st'. feed i m st = Inr (None, st') \<and> collected (fs[ident m := Some m]) st'"
    and last_one: "collected fs st \<Longrightarrow> belongs (length fs) m \<Longrightarrow> fs ! ident m = None \<Longrightarrow> None \<notin> set (fs[ident m := Some m]) \<Longrightarrow>
      \<exists>st'. feed i m st = Inr (Some (assemble (map the (fs[ident m := Some m])) m), st')"
begin

definition arrived :: "'m list \<Rightarrow> 'm set \<Rightarrow> 'm option list" where
  "arrived ms S = map (\<lambda>m. if m \<in> S then Some m else None) ms"

lemma arrived_add:
  assumes "j < length ms" "distinct ms"
  shows "(arrived ms S)[j := Some (ms ! j)] = arrived ms (insert (ms ! j) S)"
  using assms by (intro nth_equalityI) (auto simp: arrived_def nth_list_update nth_eq_iff_index_eq)

lemma feed_rest:
  assumes ms: "\<And>j. j < length ms \<Longrightarrow> belongs (length ms) (ms ! j) \<and> ident (ms ! j) = j"
  shows "collected (arrived ms S) st \<Longrightarrow> distinct rest \<Longrightarrow> rest \<noteq> [] \<Longrightarrow> set rest \<inter> S = {} \<Longrightarrow> set rest \<union> S = set ms \<Longrightarrow>
    \<exists>st'. feed_all feed i rest st = Inr (replicate (length rest - 1) None @ [Some (assemble ms (last rest))], st')"
proof (induction rest arbitrary: S st i)
  case (Cons m rest)
  have dist: "distinct ms" using ms by (metis distinct_conv_nth)
  obtain j where j: "j < length ms" "ms ! j = m" using Cons.prems(5) by (metis UnI1 in_set_conv_nth list.set_intros(1))
  then have m: "belongs (length ms) m" "ident m = j" using ms [OF j(1)] by auto
  have S': "(arrived ms S)[ident m := Some m] = arrived ms (insert m S)" using arrived_add [OF j(1) dist, of S] j(2) m(2) by simp
  have new: "arrived ms S ! ident m = None" using j m(2) Cons.prems(4) by (auto simp: arrived_def)
  have full: "None \<in> set (arrived ms (insert m S)) \<longleftrightarrow> rest \<noteq> []"
    using Cons.prems(2,4,5) by (cases rest) (auto simp: arrived_def)
  have len: "length (arrived ms S) = length ms" by (simp add: arrived_def)
  show ?case
  proof (cases "rest = []")
    case True
    then have "set ms \<subseteq> insert m S" using Cons.prems(5) by auto
    then have "map the (arrived ms (insert m S)) = ms" by (auto simp: arrived_def subset_iff intro!: map_idI)
    with True last_one [OF Cons.prems(1) _ new, of i] m(1) len S' full show ?thesis by auto
  next
    case False
    then obtain st1 where st1: "feed i m st = Inr (None, st1)" "collected (arrived ms (insert m S)) st1"
      using more [OF Cons.prems(1) _ new, of i] m(1) len S' full by auto
    from Cons.IH [OF st1(2), of "Suc i"] Cons.prems(2,4,5) False obtain st' where
      "feed_all feed (Suc i) rest st1 = Inr (replicate (length rest - 1) None @ [Some (assemble ms (last rest))], st')" by auto
    with st1(1) False show ?thesis by (cases rest) auto
  qed
qed simp

text \<open>In whatever order the fragments arrive, the last one completes the packet and no other does.\<close>

lemma feed_any_order:
  assumes ms: "\<And>j. j < length ms \<Longrightarrow> belongs (length ms) (ms ! j) \<and> ident (ms ! j) = j"
    and "2 \<le> length ms" "idle st" "mset order = mset ms"
  shows "\<exists>st'. feed_all feed i order st = Inr (replicate (length ms - 1) None @ [Some (assemble ms (last order))], st')"
proof -
  have dist: "distinct ms" using ms by (metis distinct_conv_nth)
  have order: "set order = set ms" "length order = length ms" "distinct order"
    using assms(4) dist by (metis set_mset_mset, metis mset_eq_length, metis mset_eq_imp_distinct_iff)
  obtain m rest where o: "order = m # rest" "rest \<noteq> []"
    using assms(2) order(2) by (cases order; cases "tl order") auto
  obtain j where j: "j < length ms" "ms ! j = m" using o order(1) by (metis in_set_conv_nth list.set_intros(1))
  then have m: "belongs (length ms) m" "ident m = j" using ms [OF j(1)] by auto
  have "(replicate (length ms) None)[j := Some m] = arrived ms {m}"
    using arrived_add [OF j(1) dist, of "{}"] j(2) by (simp add: arrived_def map_replicate_const)
  with first [OF assms(3) m(1) assms(2), of i] m(2) obtain st1 where
    st1: "feed i m st = Inr (None, st1)" "collected (arrived ms {m}) st1" by auto
  obtain st' where "feed_all feed (Suc i) rest st1 = Inr (replicate (length rest - 1) None @ [Some (assemble ms (last rest))], st')"
    using feed_rest [OF ms st1(2), of rest "Suc i"] order(1,3) o by auto
  moreover have "replicate (length ms - 1) None = None # replicate (length rest - 1) (None :: 'm option)"
    using o order(2) [symmetric] by (cases rest) auto
  ultimately show ?thesis using st1(1) o by simp
qed

end

end
