(* ===== verification/Dns_Handler.thy ===== *)
theory Dns_Handler
  imports Fake_IP Hosts Wire
begin

text \<open>
  \<open>dns/enhancer.go\<close> and \<open>dns/middleware.go\<close>: the enhancer that owns the fake-IP pools and the
  mapping from addresses to hosts, and the chain of handlers that answers a DNS query.  Messages
  are records of the fields the handlers touch; \<open>SetRcode\<close> of package \<open>miekg/dns\<close>, the upstream
  exchange and the clock are fields of the record \<open>dns_env\<close>.
\<close>

section \<open>Addresses\<close>

definition IsGlobalUnicast :: "addr \<Rightarrow> bool" where
  "IsGlobalUnicast a0 =
     (let a = Unmap a0 in
      IsValid a \<and> a \<noteq> V4 0 \<and> a \<noteq> V4 (- 1) \<and> a \<noteq> V6 0 [] \<and>
      \<not> IsLoopback a \<and> \<not> IsMulticast a \<and> \<not> IsLinkLocalUnicast a)"

section \<open>dns/enhancer.go\<close>

record 's ResolverEnhancer =
  en_ipv6 :: bool
  en_mode :: DNSMode
  en_fakeIPPool :: "'s Pool option"
  en_fakeIPPool6 :: "'s Pool option"
  en_fakeIPSkipper :: "Skipper option"
  en_fakeIPTTL :: int
  en_mapping :: "(addr, string) LruCache option"
  en_useHosts :: bool

definition en_FakeIPEnabled :: "'s ResolverEnhancer \<Rightarrow> bool" where
  "en_FakeIPEnabled h = (en_mode h = DNSFakeIP)"

definition en_MappingEnabled :: "'s ResolverEnhancer \<Rightarrow> bool" where
  "en_MappingEnabled h = (en_mode h = DNSFakeIP \<or> en_mode h = DNSMapping)"

definition en_IsExistFakeIP :: "'s store_ops \<Rightarrow> 's ResolverEnhancer \<Rightarrow> addr \<Rightarrow> bool" where
  "en_IsExistFakeIP S h ip =
     (if \<not> en_FakeIPEnabled h then False
      else if (case en_fakeIPPool h of Some pool \<Rightarrow> pool_Exist S ip pool | None \<Rightarrow> False) then True
      else if (case en_fakeIPPool6 h of Some pool6 \<Rightarrow> pool_Exist S ip pool6 | None \<Rightarrow> False) then True
      else False)"

definition fake_in_pool :: "'s Pool \<Rightarrow> addr \<Rightarrow> bool" where
  "fake_in_pool pool ip = (prefix_contains (p_ipnet pool) ip \<and> ip \<noteq> p_gateway pool \<and> ip \<noteq> p_last pool)"

definition en_IsFakeIP :: "'s ResolverEnhancer \<Rightarrow> addr \<Rightarrow> bool" where
  "en_IsFakeIP h ip =
     (if \<not> en_FakeIPEnabled h then False
      else if (case en_fakeIPPool h of Some pool \<Rightarrow> fake_in_pool pool ip | None \<Rightarrow> False) then True
      else if (case en_fakeIPPool6 h of Some pool6 \<Rightarrow> fake_in_pool pool6 ip | None \<Rightarrow> False) then True
      else False)"

definition en_IsFakeBroadcastIP :: "'s ResolverEnhancer \<Rightarrow> addr \<Rightarrow> bool" where
  "en_IsFakeBroadcastIP h ip =
     (if \<not> en_FakeIPEnabled h then False
      else if (case en_fakeIPPool h of Some pool \<Rightarrow> p_last pool = ip | None \<Rightarrow> False) then True
      else if (case en_fakeIPPool6 h of Some pool6 \<Rightarrow> p_last pool6 = ip | None \<Rightarrow> False) then True
      else False)"

text \<open>One pool of \<open>FindHostByIP\<close>; a nil pool answers nothing.\<close>

definition pool_host :: "'s store_ops \<Rightarrow> addr \<Rightarrow> 's Pool option \<Rightarrow> string option \<times> 's Pool option" where
  "pool_host S ip po =
     (case po of None \<Rightarrow> (None, None) | Some p \<Rightarrow> (case LookBack S ip p of (r, p') \<Rightarrow> (r, Some p')))"

definition en_FindHostByIP ::
  "'s store_ops \<Rightarrow> clock \<Rightarrow> addr \<Rightarrow> 's ResolverEnhancer \<Rightarrow> string option \<times> 's ResolverEnhancer" where
  "en_FindHostByIP S clock ip h =
     (case pool_host S ip (en_fakeIPPool h) of
        (Some host, p) \<Rightarrow> (Some host, h\<lparr>en_fakeIPPool := p\<rparr>)
      | (None, p) \<Rightarrow>
          (case pool_host S ip (en_fakeIPPool6 h) of
             (Some host, p6) \<Rightarrow> (Some host, h\<lparr>en_fakeIPPool := p, en_fakeIPPool6 := p6\<rparr>)
           | (None, p6) \<Rightarrow>
               let h1 = h\<lparr>en_fakeIPPool := p, en_fakeIPPool6 := p6\<rparr> in
               (case en_mapping h1 of
                  None \<Rightarrow> (None, h1)
                | Some mapping \<Rightarrow>
                    (case lru_Get clock ip mapping of (r, mapping') \<Rightarrow> (r, h1\<lparr>en_mapping := Some mapping'\<rparr>)))))"

definition en_InsertHostByIP :: "clock \<Rightarrow> addr \<Rightarrow> string \<Rightarrow> 's ResolverEnhancer \<Rightarrow> 's ResolverEnhancer" where
  "en_InsertHostByIP clock ip host h = h\<lparr>en_mapping := map_option (lru_Set clock ip host) (en_mapping h)\<rparr>"

definition flush_pool :: "'s store_ops \<Rightarrow> 's Pool option \<Rightarrow> bool \<times> 's Pool option" where
  "flush_pool S po =
     (case po of None \<Rightarrow> (True, None) | Some p \<Rightarrow> (case pool_FlushFakeIP S p of (ok, p') \<Rightarrow> (ok, Some p')))"

definition en_FlushFakeIP :: "'s store_ops \<Rightarrow> 's ResolverEnhancer \<Rightarrow> bool \<times> 's ResolverEnhancer" where
  "en_FlushFakeIP S h =
     (case flush_pool S (en_fakeIPPool h) of
        (ok, p) \<Rightarrow>
          (case flush_pool S (en_fakeIPPool6 h) of
             (ok6, p6) \<Rightarrow> (ok \<and> ok6, h\<lparr>en_fakeIPPool := p, en_fakeIPPool6 := p6\<rparr>)))"

definition patch_pool :: "'s store_ops \<Rightarrow> 's Pool option \<Rightarrow> 's Pool option \<Rightarrow> 's Pool option" where
  "patch_pool S old new = (case (new, old) of (Some p, Some q) \<Rightarrow> Some (CloneFrom S q p) | _ \<Rightarrow> new)"

definition en_PatchFrom :: "'s store_ops \<Rightarrow> 's ResolverEnhancer \<Rightarrow> 's ResolverEnhancer \<Rightarrow> 's ResolverEnhancer" where
  "en_PatchFrom S old h =
     h\<lparr>en_mapping := (case (en_mapping h, en_mapping old) of (Some n, Some c) \<Rightarrow> Some (lru_CloneTo c n) | _ \<Rightarrow> en_mapping h),
       en_fakeIPPool := patch_pool S (en_fakeIPPool old) (en_fakeIPPool h),
       en_fakeIPPool6 := patch_pool S (en_fakeIPPool6 old) (en_fakeIPPool6 h)\<rparr>"

definition en_StoreFakePoolState :: "'s store_ops \<Rightarrow> 's ResolverEnhancer \<Rightarrow> 's ResolverEnhancer" where
  "en_StoreFakePoolState S h =
     h\<lparr>en_fakeIPPool := map_option (StoreState S) (en_fakeIPPool h),
       en_fakeIPPool6 := map_option (StoreState S) (en_fakeIPPool6 h)\<rparr>"

record 's EnhancerConfig =
  ec_IPv6 :: bool
  ec_EnhancedMode :: DNSMode
  ec_FakeIPPool :: "'s Pool option"
  ec_FakeIPPool6 :: "'s Pool option"
  ec_FakeIPSkipper :: "Skipper option"
  ec_FakeIPTTL :: int
  ec_UseHosts :: bool

definition NewEnhancer :: "'s EnhancerConfig \<Rightarrow> 's ResolverEnhancer" where
  "NewEnhancer cfg =
     (let e = \<lparr>en_ipv6 = ec_IPv6 cfg, en_mode = ec_EnhancedMode cfg, en_fakeIPPool = None,
               en_fakeIPPool6 = None, en_fakeIPSkipper = None, en_fakeIPTTL = 0, en_mapping = None,
               en_useHosts = ec_UseHosts cfg\<rparr>
      in if ec_EnhancedMode cfg \<noteq> DNSNormal then
           e\<lparr>en_fakeIPPool := ec_FakeIPPool cfg,
             en_fakeIPPool6 := (if ec_IPv6 cfg then ec_FakeIPPool6 cfg else None),
             en_fakeIPSkipper := ec_FakeIPSkipper cfg,
             en_fakeIPTTL := (if ec_FakeIPTTL cfg < 1 then 1 else ec_FakeIPTTL cfg),
             en_mapping := Some (lru_New [WithSize 4096])\<rparr>
         else e)"

section \<open>Messages\<close>

datatype qtype = TypeA | TypeAAAA | TypeCNAME | TypeSVCB | TypeHTTPS | OtherType nat

record Question =
  q_Name :: string
  q_Qtype :: qtype
  q_INET :: bool

text \<open>The options of an OPT record: the client subnet, and any other by its code.\<close>

datatype EDNS0 =
    EDNS0_SUBNET (es_Family: nat) (es_SourceNetmask: nat) (es_Address: "8 word list")
  | EDNS0_Other nat

datatype RR =
    RR_A (rr_Name: string) (rr_Ttl: "32 word") (rr_bytes: "8 word list")
  | RR_AAAA (rr_Name: string) (rr_Ttl: "32 word") (rr_bytes: "8 word list")
  | RR_CNAME (rr_Name: string) (rr_Ttl: "32 word") (rr_Target: string)
  | RR_OPT (rr_Name: string) (rr_Ttl: "32 word") (rr_Option: "EDNS0 list")
  | RR_Other (rr_Name: string) (rr_Ttl: "32 word") (rr_Rrtype: qtype)

record Msg =
  msg_Id :: nat
  msg_Question :: "Question list"
  msg_Answer :: "RR list"
  msg_Ns :: "RR list"
  msg_Extra :: "RR list"
  msg_Rcode :: nat
  msg_Response :: bool
  msg_Authoritative :: bool
  msg_RecursionAvailable :: bool

definition zeroMsg :: Msg where
  "zeroMsg = \<lparr>msg_Id = 0, msg_Question = [], msg_Answer = [], msg_Ns = [], msg_Extra = [], msg_Rcode = 0, msg_Response = False,
     msg_Authoritative = False, msg_RecursionAvailable = False\<rparr>"

definition isIPRequest :: "Question \<Rightarrow> bool" where
  "isIPRequest q = (q_INET q \<and> (q_Qtype q = TypeA \<or> q_Qtype q = TypeAAAA \<or> q_Qtype q = TypeCNAME))"

fun set_ttl :: "32 word \<Rightarrow> RR \<Rightarrow> RR" where
  "set_ttl t (RR_A n _ bs) = RR_A n t bs"
| "set_ttl t (RR_AAAA n _ bs) = RR_AAAA n t bs"
| "set_ttl t (RR_CNAME n _ d) = RR_CNAME n t d"
| "set_ttl t (RR_OPT n _ os) = RR_OPT n t os"
| "set_ttl t (RR_Other n _ ty) = RR_Other n t ty"

fun is_opt :: "RR \<Rightarrow> bool" where
  "is_opt (RR_OPT _ _ _) = True"
| "is_opt _ = False"

definition setMsgTTL :: "Msg \<Rightarrow> 32 word \<Rightarrow> Msg" where
  "setMsgTTL m t =
     m\<lparr>msg_Answer := map (set_ttl t) (msg_Answer m), msg_Ns := map (set_ttl t) (msg_Ns m),
       msg_Extra := map (\<lambda>r. if is_opt r then r else set_ttl t r) (msg_Extra m)\<rparr>"

definition trim_dots :: "string \<Rightarrow> string" where
  "trim_dots s = rev (dropWhile (\<lambda>c. c = CHR ''.'') (rev s))"

fun msgToIP_loop :: "RR list \<Rightarrow> addr list" where
  "msgToIP_loop [] = []"
| "msgToIP_loop (r # rs) =
     (case r of
        RR_A _ _ bs \<Rightarrow> (let ip = AddrFromSlice bs in if \<not> IsValid ip then msgToIP_loop rs else Unmap ip # msgToIP_loop rs)
      | RR_AAAA _ _ bs \<Rightarrow> (let ip = AddrFromSlice bs in if \<not> IsValid ip then msgToIP_loop rs else Unmap ip # msgToIP_loop rs)
      | _ \<Rightarrow> msgToIP_loop rs)"

definition msgToIP :: "Msg \<Rightarrow> addr list" where
  "msgToIP m = msgToIP_loop (msg_Answer m)"

definition msgToDomain :: "Msg \<Rightarrow> string" where
  "msgToDomain m = (case msg_Question m of [] \<Rightarrow> [] | q # _ \<Rightarrow> trim_dots (q_Name q))"

section \<open>dns/middleware.go\<close>

datatype dns_error = DnsPanic | DnsUpstream string

record 's dns_env =
  de_ops :: "'s store_ops"
  de_sys :: sys_hosts
  de_hosts :: "HostValue node"
  de_clock :: clock
  de_now :: int
  de_SetRcode :: "Msg \<Rightarrow> Msg \<Rightarrow> nat \<Rightarrow> Msg"
  de_exchange :: "Msg \<Rightarrow> (string, Msg) result"
  de_fuel :: nat
  de_rules :: env

text \<open>
  A handler reads a message and works on the enhancer, whose pools and mapping the middlewares
  share, and on the type noted in the query's context.  \<^const>\<open>None\<close> is a hosts search that never
  returns.
\<close>

type_synonym 's dctx = "'s ResolverEnhancer \<times> string"
type_synonym 's handler = "Msg \<Rightarrow> 's dctx \<Rightarrow> ((dns_error, Msg) result \<times> 's dctx) option"

definition dnsDefaultTTL :: "32 word" where "dnsDefaultTTL = 600"

definition DNSTypeHost :: string where "DNSTypeHost = ''host''"
definition DNSTypeFakeIP :: string where "DNSTypeFakeIP = ''fakeip''"
definition DNSTypeRaw :: string where "DNSTypeRaw = ''raw''"

definition finish_msg :: "'s dns_env \<Rightarrow> Msg \<Rightarrow> Msg \<Rightarrow> Msg" where
  "finish_msg E r msg = (de_SetRcode E msg r 0)\<lparr>msg_Authoritative := True, msg_RecursionAvailable := True\<rparr>"

definition handleMsgWithEmptyAnswer :: "'s dns_env \<Rightarrow> Msg \<Rightarrow> Msg" where
  "handleMsgWithEmptyAnswer E r = finish_msg E r (zeroMsg\<lparr>msg_Answer := []\<rparr>)"

definition handleCName :: "Question \<Rightarrow> string \<Rightarrow> Msg \<Rightarrow> Msg" where
  "handleCName q domain resp = resp\<lparr>msg_Answer := RR_CNAME (q_Name q) 10 (domain @ ''.'') # msg_Answer resp\<rparr>"

text \<open>The loop of \<open>handleIPs\<close> over the addresses of a hosts record.\<close>

fun handleIPs ::
  "'s dns_env \<Rightarrow> Question \<Rightarrow> string \<Rightarrow> addr list \<Rightarrow> Msg \<Rightarrow> (addr, string) LruCache option \<Rightarrow> Msg \<times> (addr, string) LruCache option" where
  "handleIPs E q host [] msg mapping = (msg, mapping)"
| "handleIPs E q host (ip # ips) msg mapping =
     (if Is4 ip \<and> q_Qtype q = TypeA then
        handleIPs E q host ips (msg\<lparr>msg_Answer := msg_Answer msg @ [RR_A (q_Name q) 10 (AsSlice ip)]\<rparr>)
          (map_option (SetWithExpire (de_clock E) ip host (de_now E + 10)) mapping)
      else if Is6 ip \<and> q_Qtype q = TypeAAAA then
        handleIPs E q host ips (msg\<lparr>msg_Answer := msg_Answer msg @ [RR_AAAA (q_Name q) 10 (AsSlice ip)]\<rparr>)
          (map_option (SetWithExpire (de_clock E) ip host (de_now E + 10)) mapping)
      else handleIPs E q host ips msg mapping)"

definition rename_question :: "string \<Rightarrow> Msg \<Rightarrow> Msg" where
  "rename_question name r =
     r\<lparr>msg_Question := (case msg_Question r of [] \<Rightarrow> [] | q # qs \<Rightarrow> q\<lparr>q_Name := name\<rparr> # qs)\<rparr>"

definition withHosts :: "'s dns_env \<Rightarrow> 's handler \<Rightarrow> 's handler" where
  "withHosts E next_h r st =
     (case msg_Question r of
        [] \<Rightarrow> Some (Inl DnsPanic, st)
      | q # _ \<Rightarrow>
          if \<not> isIPRequest q then next_h r st
          else
            let host = trim_dots (q_Name q) in
            (case Hosts_Search (de_sys E) (de_hosts E) host (q_Qtype q \<noteq> TypeA \<and> q_Qtype q \<noteq> TypeAAAA) of
               None \<Rightarrow> None
             | Some (rec_o, False) \<Rightarrow>
                 (case rec_o of
                    None \<Rightarrow> next_h r st
                  | Some hv \<Rightarrow>
                      if IsDomain hv then
                        (case next_h (rename_question (hDomain hv @ ''.'') r) st of
                           None \<Rightarrow> None
                         | Some (Inl e, st') \<Rightarrow> Some (Inl e, st')
                         | Some (Inr resp, st') \<Rightarrow>
                             Some (Inr (handleCName q (hDomain hv)
                                     (resp\<lparr>msg_Id := msg_Id r, msg_Question := msg_Question r\<rparr>)), st'))
                      else next_h r st)
             | Some (rec_o, True) \<Rightarrow>
                 (case rec_o of
                    None \<Rightarrow> Some (Inl DnsPanic, st)
                  | Some hv \<Rightarrow>
                      if q_Qtype q = TypeA \<or> q_Qtype q = TypeAAAA then
                        (case handleIPs E q host (IPs hv) r (en_mapping (fst st)) of
                           (msg, mapping) \<Rightarrow>
                             Some (Inr (finish_msg E r msg), ((fst st)\<lparr>en_mapping := mapping\<rparr>, DNSTypeHost)))
                      else if q_Qtype q = TypeCNAME then
                        Some (Inr (finish_msg E (handleCName q (hDomain hv) r) r), (fst st, DNSTypeHost))
                      else next_h r st)))"

text \<open>The address \<open>withMapping\<close> takes from an answer, with its time to live.\<close>

definition mapped_answer :: "RR \<Rightarrow> (addr \<times> 32 word) option" where
  "mapped_answer ans =
     (case (case ans of RR_A _ t bs \<Rightarrow> Some (bs, t) | RR_AAAA _ t bs \<Rightarrow> Some (bs, t) | _ \<Rightarrow> None) of
        None \<Rightarrow> None
      | Some (bs, t) \<Rightarrow>
          let ip = AddrFromSlice bs in
          if \<not> IsValid ip then None
          else if \<not> IsGlobalUnicast ip then None
          else Some (Unmap ip, if t < 1 then 1 else t))"

fun map_answers ::
  "'s dns_env \<Rightarrow> string \<Rightarrow> RR list \<Rightarrow> (addr, string) LruCache option \<Rightarrow> (dns_error, (addr, string) LruCache option) result" where
  "map_answers E host [] mapping = Inr mapping"
| "map_answers E host (ans # rest) mapping =
     (case mapped_answer ans of
        None \<Rightarrow> map_answers E host rest mapping
      | Some (ip, t) \<Rightarrow>
          (case mapping of
             None \<Rightarrow> Inl DnsPanic
           | Some c \<Rightarrow> map_answers E host rest (Some (SetWithExpire (de_clock E) ip host (de_now E + uint t) c))))"

definition withMapping :: "'s dns_env \<Rightarrow> 's handler \<Rightarrow> 's handler" where
  "withMapping E next_h r st =
     (case msg_Question r of
        [] \<Rightarrow> Some (Inl DnsPanic, st)
      | q # _ \<Rightarrow>
          if \<not> isIPRequest q then next_h r st
          else
            (case next_h r st of
               None \<Rightarrow> None
             | Some (Inl e, st') \<Rightarrow> Some (Inl e, st')
             | Some (Inr msg, st') \<Rightarrow>
                 (case map_answers E (trim_dots (q_Name q)) (msg_Answer msg) (en_mapping (fst st')) of
                    Inl e \<Rightarrow> Some (Inl e, st')
                  | Inr mapping \<Rightarrow> Some (Inr msg, ((fst st')\<lparr>en_mapping := mapping\<rparr>, snd st')))))"

definition fake_answer :: "'s dns_env \<Rightarrow> Msg \<Rightarrow> RR \<Rightarrow> int \<Rightarrow> Msg" where
  "fake_answer E r rr ttl = finish_msg E r (setMsgTTL (r\<lparr>msg_Answer := [rr]\<rparr>) (word_of_int ttl))"

definition withFakeIP :: "'s dns_env \<Rightarrow> 's handler \<Rightarrow> 's handler" where
  "withFakeIP E next_h r st =
     (case msg_Question r of
        [] \<Rightarrow> Some (Inl DnsPanic, st)
      | q # _ \<Rightarrow>
          let host = trim_dots (q_Name q); h = fst st in
          (case en_fakeIPSkipper h of
             None \<Rightarrow> Some (Inl DnsPanic, st)
           | Some sk \<Rightarrow>
               (case ShouldSkipped (de_fuel E) (de_rules E) sk host of
                  Inl _ \<Rightarrow> Some (Inl DnsPanic, st)
                | Inr True \<Rightarrow> next_h r st
                | Inr False \<Rightarrow>
                    (case q_Qtype q of
                       TypeA \<Rightarrow>
                         (case en_fakeIPPool h of
                            None \<Rightarrow> Some (Inr (handleMsgWithEmptyAnswer E r), st)
                          | Some p \<Rightarrow>
                              (case Lookup (de_ops E) host p of
                                 (ip, p') \<Rightarrow>
                                   Some (Inr (fake_answer E r (RR_A (q_Name q) dnsDefaultTTL (AsSlice ip)) (en_fakeIPTTL h)),
                                         (h\<lparr>en_fakeIPPool := Some p'\<rparr>, DNSTypeFakeIP))))
                     | TypeAAAA \<Rightarrow>
                         (case en_fakeIPPool6 h of
                            None \<Rightarrow> Some (Inr (handleMsgWithEmptyAnswer E r), st)
                          | Some p \<Rightarrow>
                              (case Lookup (de_ops E) host p of
                                 (ip, p') \<Rightarrow>
                                   Some (Inr (fake_answer E r (RR_AAAA (q_Name q) dnsDefaultTTL (AsSlice ip)) (en_fakeIPTTL h)),
                                         (h\<lparr>en_fakeIPPool6 := Some p'\<rparr>, DNSTypeFakeIP))))
                     | TypeSVCB \<Rightarrow> Some (Inr (handleMsgWithEmptyAnswer E r), st)
                     | TypeHTTPS \<Rightarrow> Some (Inr (handleMsgWithEmptyAnswer E r), st)
                     | _ \<Rightarrow> next_h r st))))"

definition withResolver :: "'s dns_env \<Rightarrow> bool \<Rightarrow> 's handler" where
  "withResolver E ipv6 r st =
     (let st1 = (fst st, DNSTypeRaw) in
      case msg_Question r of
        [] \<Rightarrow> Some (Inl DnsPanic, st1)
      | q # _ \<Rightarrow>
          if \<not> ipv6 \<and> q_Qtype q = TypeAAAA then Some (Inr (handleMsgWithEmptyAnswer E r), st1)
          else
            (case de_exchange E r of
               Inl err \<Rightarrow> Some (Inl (DnsUpstream err), st1)
             | Inr msg \<Rightarrow> Some (Inr ((de_SetRcode E msg r (msg_Rcode msg))\<lparr>msg_Authoritative := True\<rparr>), st1)))"

definition compose :: "('s handler \<Rightarrow> 's handler) list \<Rightarrow> 's handler \<Rightarrow> 's handler" where
  "compose middlewares endpoint = foldr (\<lambda>m h. m h) middlewares endpoint"

definition newHandler :: "'s dns_env \<Rightarrow> 's ResolverEnhancer \<Rightarrow> 's handler" where
  "newHandler E mapper =
     compose
       ((if en_useHosts mapper then [withHosts E] else []) @
        (if en_mode mapper = DNSFakeIP then [withFakeIP E] else []) @
        (if en_mode mapper \<noteq> DNSNormal then [withMapping E] else []))
       (withResolver E (en_ipv6 mapper))"

text \<open>\<open>ServeMsg\<close> of \<open>dns/service.go\<close>.\<close>

definition ServeMsg :: "'s dns_env \<Rightarrow> 's ResolverEnhancer \<Rightarrow> 's handler" where
  "ServeMsg E mapper msg st =
     (if length (msg_Question msg) = 0 then Some (Inl (DnsUpstream ''at least one question is required''), st)
      else newHandler E mapper msg (fst st, []))"

section \<open>Lemmas\<close>

text \<open>The documented behaviour of \<open>Msg.SetRcode\<close> the handlers rely on: it leaves the answers.\<close>

definition set_rcode_law :: "'s dns_env \<Rightarrow> bool" where
  "set_rcode_law E \<longleftrightarrow> (\<forall>m r c. msg_Answer (de_SetRcode E m r c) = msg_Answer m)"

lemma finish_msg_Answer [simp]: "set_rcode_law E \<Longrightarrow> msg_Answer (finish_msg E r m) = msg_Answer m"
  by (simp add: finish_msg_def set_rcode_law_def)

lemma fake_answer_Answer [simp]: "set_rcode_law E \<Longrightarrow> msg_Answer (fake_answer E r rr t) = [set_ttl (word_of_int t) rr]"
  by (simp add: fake_answer_def setMsgTTL_def)

text \<open>A query the hosts table does not answer reaches the fake-IP handler unchanged.\<close>

definition not_in_hosts :: "'s dns_env \<Rightarrow> 's ResolverEnhancer \<Rightarrow> string \<Rightarrow> bool" where
  "not_in_hosts E h host \<longleftrightarrow> en_useHosts h \<longrightarrow> Hosts_Search (de_sys E) (de_hosts E) host False = Some (None, False)"

lemma ServeMsg_fake:
  assumes "msg_Question r = q # qs" "q_Qtype q = TypeA \<or> q_Qtype q = TypeAAAA" "en_mode h = DNSFakeIP"
    "not_in_hosts E h (trim_dots (q_Name q))"
  shows "\<exists>next_h. ServeMsg E h r (h, t) = withFakeIP E next_h r (h, [])"
  using assms
  by (auto simp: ServeMsg_def newHandler_def compose_def withHosts_def not_in_hosts_def)

lemma pool_host_Some: "fst (pool_host S ip (Some p)) = fst (LookBack S ip p)"
  by (simp add: pool_host_def split: prod.split)

lemma FindHostByIP_first_pool:
  assumes "en_fakeIPPool h = Some p" "fst (LookBack S ip p) = Some host"
  shows "fst (en_FindHostByIP S clock ip h) = Some host"
  using assms pool_host_Some [of S ip p]
  by (cases "pool_host S ip (Some p)") (simp add: en_FindHostByIP_def)

lemma FakeIP_answer:
  assumes "msg_Question r = q # qs" "q_Qtype q = TypeA" "en_mode h = DNSFakeIP"
    "not_in_hosts E h (trim_dots (q_Name q))"
    "en_fakeIPSkipper h = Some sk" "ShouldSkipped (de_fuel E) (de_rules E) sk (trim_dots (q_Name q)) = Inr False"
    "en_fakeIPPool h = Some p" "Lookup (de_ops E) (trim_dots (q_Name q)) p = (a, p')"
  shows "ServeMsg E h r (h, t) =
    Some (Inr (fake_answer E r (RR_A (q_Name q) dnsDefaultTTL (AsSlice a)) (en_fakeIPTTL h)),
          (h\<lparr>en_fakeIPPool := Some p'\<rparr>, DNSTypeFakeIP))"
proof -
  obtain next_h where "ServeMsg E h r (h, t) = withFakeIP E next_h r (h, [])"
    using ServeMsg_fake [OF assms(1) _ assms(3,4)] assms(2) by blast
  with assms show ?thesis by (simp add: withFakeIP_def Let_def)
qed

lemma pool_addr_V4:
  "prefix_contains net a \<Longrightarrow> Is4 (p_addr net) \<Longrightarrow> \<exists>x. a = V4 x"
  by (cases a; cases "p_addr net") (auto simp: prefix_contains_def)

lemma fake_ip_answer:
  fixes E :: "memoryStore dns_env"
  assumes ops: "de_ops E = memory_ops clock" and law: "set_rcode_law E" "last_ip_law L"
    and q: "msg_Question r = q # qs" "q_Qtype q = TypeA"
    and mode: "en_mode h = DNSFakeIP" "not_in_hosts E h (trim_dots (q_Name q))"
    and skip: "en_fakeIPSkipper h = Some sk"
      "ShouldSkipped (de_fuel E) (de_rules E) sk (trim_dots (q_Name q)) = Inr False"
    and pool: "pool_New L (memory_ops clock) (newMemoryStore sz) net = Some p0" "Is4 (p_addr net)"
      "pool_run (memory_ops clock) p0 p" "en_fakeIPPool h = Some p"
  shows "\<exists>msg h' a. ServeMsg E h r (h, t) = Some (Inr msg, (h', DNSTypeFakeIP)) \<and> msgToIP msg = [a] \<and>
    en_IsFakeIP h' a \<and> en_MappingEnabled h' \<and> IsValid a \<and>
    fst (en_FindHostByIP (de_ops E) clock' a h') = Some (to_lower (trim_dots (q_Name q)))"
proof -
  let ?host = "trim_dots (q_Name q)"
  obtain a p' where look: "Lookup (memory_ops clock) ?host p = (a, p')" by force
  note sound = fake_ip_lookup [OF pool(1) law(2) pool(3) look]
  obtain x where x: "a = V4 x" using sound pool(2) pool_addr_V4 by blast
  let ?h = "h\<lparr>en_fakeIPPool := Some p'\<rparr>"
  let ?msg = "fake_answer E r (RR_A (q_Name q) dnsDefaultTTL (AsSlice a)) (en_fakeIPTTL h)"
  have serve: "ServeMsg E h r (h, t) = Some (Inr ?msg, (?h, DNSTypeFakeIP))"
    using FakeIP_answer [OF q mode skip pool(4)] look ops by simp
  moreover have "msgToIP ?msg = [a]" using law(1) by (simp add: msgToIP_def x)
  moreover have "en_IsFakeIP ?h a"
    using sound mode(1) by (simp add: en_IsFakeIP_def en_FakeIPEnabled_def fake_in_pool_def)
  moreover have "en_MappingEnabled ?h" using mode(1) by (simp add: en_MappingEnabled_def)
  moreover have "fst (en_FindHostByIP (de_ops E) clock' a ?h) = Some (to_lower ?host)"
    using sound ops by (intro FindHostByIP_first_pool [of _ p']) simp_all
  moreover have "IsValid a" by (simp add: x)
  ultimately show ?thesis by blast
qed

section \<open>Properties\<close>

text \<open>
  C32.  A query answered from the fake-IP pool.  In fake-IP mode with an in-memory pool over an IPv4
  range, an A query for a name that is neither in the hosts table nor skipped is answered without
  asking upstream: the message carries exactly one address, the enhancer takes that address for a
  fake one afterwards, and \<open>FindHostByIP\<close> leads from it back to the name in lower case.
\<close>

theorem fake_ip_query_round_trip:
  fixes E :: "memoryStore dns_env"
  assumes ops: "de_ops E = memory_ops clock" and law: "set_rcode_law E" "last_ip_law L"
    and q: "msg_Question r = q # qs" "q_Qtype q = TypeA"
    and mode: "en_mode h = DNSFakeIP" "not_in_hosts E h (trim_dots (q_Name q))"
    and skip: "en_fakeIPSkipper h = Some sk"
      "ShouldSkipped (de_fuel E) (de_rules E) sk (trim_dots (q_Name q)) = Inr False"
    and pool: "pool_New L (memory_ops clock) (newMemoryStore sz) net = Some p0" "Is4 (p_addr net)"
      "pool_run (memory_ops clock) p0 p" "en_fakeIPPool h = Some p"
  shows "\<exists>msg h' a. ServeMsg E h r (h, t) = Some (Inr msg, (h', DNSTypeFakeIP)) \<and> msgToIP msg = [a] \<and>
    en_IsFakeIP h' a \<and> en_MappingEnabled h' \<and>
    fst (en_FindHostByIP (de_ops E) clock' a h') = Some (to_lower (trim_dots (q_Name q)))"
  using fake_ip_answer [OF ops law q mode skip pool, of t clock'] by blast

definition example_dns :: "memoryStore dns_env" where
  "example_dns =
     \<lparr>de_ops = memory_ops (\<lambda>_. 0),
      de_sys = \<lparr>DisableSystemHosts = True, UseSystemHosts = False, LookupStaticHost = (\<lambda>_. [])\<rparr>,
      de_hosts = example_table, de_clock = (\<lambda>_. 0), de_now = 0,
      de_SetRcode = (\<lambda>m r c. m\<lparr>msg_Id := msg_Id r, msg_Question := msg_Question r, msg_Rcode := c\<rparr>),
      de_exchange = (\<lambda>_. Inl []), de_fuel = 0, de_rules = emptyEnv\<rparr>"

definition example_enhancer :: "memoryStore Pool option \<Rightarrow> bool \<Rightarrow> memoryStore ResolverEnhancer" where
  "example_enhancer p hosts =
     NewEnhancer \<lparr>ec_IPv6 = False, ec_EnhancedMode = DNSFakeIP, ec_FakeIPPool = p, ec_FakeIPPool6 = None,
       ec_FakeIPSkipper = Some \<lparr>sk_Rules = [], sk_Host = [], sk_Mode = FilterBlackList\<rparr>, ec_FakeIPTTL = 1,
       ec_UseHosts = hosts\<rparr>"

definition example_query :: "string \<Rightarrow> qtype \<Rightarrow> Msg" where
  "example_query name t = zeroMsg\<lparr>msg_Question := [\<lparr>q_Name = name, q_Qtype = t, q_INET = True\<rparr>]\<rparr>"

lemma example_dns_law: "set_rcode_law example_dns"
  by (simp add: set_rcode_law_def example_dns_def)

lemma example_setup:
  shows "de_ops example_dns = memory_ops (\<lambda>_. 0)"
    "msg_Question (example_query name TypeA) = [\<lparr>q_Name = name, q_Qtype = TypeA, q_INET = True\<rparr>]"
    "en_mode (example_enhancer p False) = DNSFakeIP" "not_in_hosts example_dns (example_enhancer p False) host"
    "en_fakeIPSkipper (example_enhancer p False) = Some \<lparr>sk_Rules = [], sk_Host = [], sk_Mode = FilterBlackList\<rparr>"
    "ShouldSkipped (de_fuel example_dns) (de_rules example_dns)
      \<lparr>sk_Rules = [], sk_Host = [], sk_Mode = FilterBlackList\<rparr> host = Inr False"
    "Is4 (p_addr (example_net x))" "en_fakeIPPool (example_enhancer p False) = p"
  by (simp_all add: example_dns_def example_query_def example_enhancer_def NewEnhancer_def example_net_def
      not_in_hosts_def ShouldSkipped_def)

lemmas example_fake = fake_ip_answer [OF example_setup(1) example_dns_law example_last_law example_setup(2) _
  example_setup(3-6) _ example_setup(7) pool_run.start example_setup(8)]

theorem fake_ip_query_round_trip_witness:
  "\<exists>p. \<exists>msg h' a. ServeMsg example_dns (example_enhancer (Some p) False) (example_query ''x.'' TypeA)
       (example_enhancer (Some p) False, []) = Some (Inr msg, (h', DNSTypeFakeIP)) \<and> msgToIP msg = [a] \<and>
     fst (en_FindHostByIP (de_ops example_dns) (\<lambda>_. 0) a h') = Some ''x''"
proof -
  obtain p where p: "pool_New example_last (memory_ops (\<lambda>_. 0)) (newMemoryStore 1000) (example_net 0xC6120000) = Some p"
    using example_pool by blast
  let ?h = "example_enhancer (Some p) False" and ?q = "\<lparr>q_Name = ''x.'', q_Qtype = TypeA, q_INET = True\<rparr>"
  have host: "trim_dots ''x.'' = ''x''" "to_lower ''x'' = ''x''" by (simp_all add: trim_dots_def lower_eval)
  have "\<exists>msg h' a. ServeMsg example_dns ?h (example_query ''x.'' TypeA) (?h, []) = Some (Inr msg, (h', DNSTypeFakeIP)) \<and>
      msgToIP msg = [a] \<and> en_IsFakeIP h' a \<and> en_MappingEnabled h' \<and>
      fst (en_FindHostByIP (de_ops example_dns) (\<lambda>_. 0) a h') = Some (to_lower (trim_dots (q_Name ?q)))"
    by (rule fake_ip_query_round_trip [OF example_setup(1) example_dns_law example_last_law example_setup(2) _
          example_setup(3-6) p example_setup(7) pool_run.start example_setup(8)]) simp
  then show ?thesis unfolding Question.simps host by blast
qed

text \<open>
  A CNAME query for an alias of the hosts table is answered with an empty message: the record
  is put in front of the answers of the request, after the reply was copied from it.
\<close>

lemma hosts_cname_answer_lost:
  assumes law: "set_rcode_law E" and q: "msg_Question r = q # qs" "q_INET q" "q_Qtype q = TypeCNAME"
    and r: "msg_Answer r = []" and h: "en_useHosts h"
    and found: "Hosts_Search (de_sys E) (de_hosts E) (trim_dots (q_Name q)) True = Some (Some hv, True)"
  shows "\<exists>msg. ServeMsg E h r (h, t) = Some (Inr msg, (h, DNSTypeHost)) \<and> msg_Answer msg = []"
  using assms
  by (auto simp: ServeMsg_def newHandler_def compose_def withHosts_def isIPRequest_def)

lemma hosts_cname_answer_lost_witness:
  "\<exists>msg. ServeMsg example_dns (example_enhancer None True) (example_query ''files.lan.'' TypeCNAME)
     (example_enhancer None True, []) = Some (Inr msg, (example_enhancer None True, DNSTypeHost)) \<and> msg_Answer msg = []"
proof (rule hosts_cname_answer_lost [OF example_dns_law, where q = "\<lparr>q_Name = ''files.lan.'', q_Qtype = TypeCNAME, q_INET = True\<rparr>"])
  have "trim_dots ''files.lan.'' = ''files.lan''" by (simp add: trim_dots_def)
  then show "Hosts_Search (de_sys example_dns) (de_hosts example_dns)
      (trim_dots (q_Name \<lparr>q_Name = ''files.lan.'', q_Qtype = TypeCNAME, q_INET = True\<rparr>)) True =
    Some (Some \<lparr>IsDomain = True, IPs = [], hDomain = ''nas.lan''\<rparr>, True)"
    by (simp add: example_dns_def Hosts_Search_def example_table_get hosts_loop.simps)
qed (simp_all add: example_query_def zeroMsg_def example_enhancer_def NewEnhancer_def)

end
