(* ===== verification/Dns_Cache.thy ===== *)
theory Dns_Cache
  imports LRU_Cache Arc_Cache Dns_Handler
begin

text \<open>
  The caches of the DNS resolver.  \<open>dnsCache\<close> of \<open>dns/resolver.go\<close> is an interface with two
  implementations, the LRU cache and the adaptive replacement cache; the locale \<open>expiring_cache\<close> is its
  contract, both implementations meet it, and the resolver uses the cache through it.
\<close>

section \<open>The contract\<close>

text \<open>
  \<open>view\<close> is what a cache holds.  A lookup answers with it, an insertion is visible at once, and
  every operation may lose entries, but none invents one.  \<^const>\<open>None\<close> as a result is a panic.
\<close>

locale expiring_cache =
  fixes ok :: "'c \<Rightarrow> bool"
    and view :: "'c \<Rightarrow> 'k \<rightharpoonup> 'v \<times> int"
    and get :: "'k \<Rightarrow> 'c \<Rightarrow> (('v \<times> int) option \<times> 'c) option"
    and put :: "'k \<Rightarrow> 'v \<Rightarrow> int \<Rightarrow> 'c \<Rightarrow> 'c option"
    and clear :: "'c \<Rightarrow> 'c"
  assumes get_law: "ok c \<Longrightarrow> \<exists>c'. get k c = Some (view c k, c') \<and> ok c' \<and> view c' \<subseteq>\<^sub>m view c"
    and put_law: "ok c \<Longrightarrow>
      \<exists>c'. put k v x c = Some c' \<and> ok c' \<and> view c' k = Some (v, x) \<and> view c' \<subseteq>\<^sub>m (view c)(k \<mapsto> (v, x))"
    and clear_law: "ok c \<Longrightarrow> ok (clear c) \<and> view (clear c) = Map.empty"
begin

text \<open>What holds of all entries, and of each new one, goes on to hold.\<close>

lemma get_keeps:
  assumes "ok c" "\<And>k v x. view c k = Some (v, x) \<Longrightarrow> P k v"
  obtains c' where "get k c = Some (view c k, c')" "ok c'" "\<And>k v x. view c' k = Some (v, x) \<Longrightarrow> P k v"
proof -
  from get_law [OF assms(1)] obtain c' where c': "get k c = Some (view c k, c')" "ok c'" "view c' \<subseteq>\<^sub>m view c" by blast
  from c'(3) have "view c' k' = Some y \<Longrightarrow> view c k' = Some y" for k' y by (metis domI map_le_def)
  with assms(2) have "\<And>k v x. view c' k = Some (v, x) \<Longrightarrow> P k v" by blast
  with c'(1,2) show thesis by (rule that)
qed

lemma put_keeps:
  assumes "ok c" "\<And>k v x. view c k = Some (v, x) \<Longrightarrow> P k v" "P k v"
  obtains c' where "put k v x c = Some c'" "ok c'" "\<And>k v x. view c' k = Some (v, x) \<Longrightarrow> P k v"
proof -
  from put_law [OF assms(1)] obtain c' where c': "put k v x c = Some c'" "ok c'"
    "view c' \<subseteq>\<^sub>m (view c)(k \<mapsto> (v, x))" by blast
  from c'(3) have "view c' k' = Some y \<Longrightarrow> ((view c)(k \<mapsto> (v, x))) k' = Some y" for k' y by (metis domI map_le_def)
  with assms(2,3) have "\<And>k v x. view c' k = Some (v, x) \<Longrightarrow> P k v" by (metis fun_upd_apply option.inject prod.inject)
  with c'(1,2) show thesis by (rule that)
qed

end

section \<open>The LRU cache, as the resolver makes it\<close>

definition lru_ok :: "('k, 'v) LruCache \<Rightarrow> bool" where
  "lru_ok c \<longleftrightarrow> lru_inv c \<and> staleReturn c \<and> maxAge c = 0"

definition lru_view :: "('k, 'v) LruCache \<Rightarrow> 'k \<rightharpoonup> 'v \<times> int" where
  "lru_view c k = map_option (\<lambda>i. (e_value (elem_at c i), e_expires (elem_at c i))) (cache c k)"

lemma lru_view_entries:
  "represents c g es \<Longrightarrow> lru_view c k = map_option (\<lambda>e. (e_value e, e_expires e)) (lookup k es)"
  by (simp add: lru_view_def lookup_represents option.map_comp comp_def)

lemma lookup_without: "lookup k' (without k es) = (if k' = k then None else lookup k' es)"
  by (induction es) auto

lemma lookup_snoc: "lookup k (es @ [e]) = (case lookup k es of None \<Rightarrow> if e_key e = k then Some e else None | Some e' \<Rightarrow> Some e')"
  by (induction es) auto

lemma lookup_tl: "distinct (map e_key es) \<Longrightarrow> lookup k (tl es) = (if es \<noteq> [] \<and> e_key (hd es) = k then None else lookup k es)"
  by (cases es) (auto simp: find_None_iff, metis image_eqI)

lemma represents_ok:
  assumes "lru_ok c"
  shows "represents c (config_of c) (entries c)" "\<not> expiring (config_of c)" "g_maxAge (config_of c) = 0"
  using assms by (simp_all add: lru_ok_def represents_def expiring_def config_of_def)

lemma ok_represents: "represents c' (config_of c) es \<Longrightarrow> lru_ok c \<Longrightarrow> lru_ok c'"
  by (simp add: lru_ok_def represents_def config_of_def)

lemma lru_get_law:
  assumes "lru_ok c"
  shows "fst (GetWithExpire clock k c) = lru_view c k" "lru_ok (snd (GetWithExpire clock k c))"
    "lru_view (snd (GetWithExpire clock k c)) = lru_view c"
proof -
  let ?g = "config_of c" and ?es = "entries c"
  note R = represents_ok [OF assms]
  have sp: "spec_get ?g clock k ?es = (lookup k ?es, case lookup k ?es of None \<Rightarrow> ?es | Some e \<Rightarrow> without k ?es @ [e])"
    using R(2,3) by (simp add: spec_get_def split: option.splits)
  note G = get_represents [OF R(1), of clock k, unfolded sp]
  show "fst (GetWithExpire clock k c) = lru_view c k"
    using G by (simp add: GetWithExpire_def split_beta lru_view_entries [OF R(1)])
  show "lru_ok (snd (GetWithExpire clock k c))" using G assms by (auto intro: ok_represents)
  have "represents (snd (lru_get clock k c)) ?g (snd (spec_get ?g clock k ?es))" using get_represents [OF R(1)] by blast
  then have V: "lru_view (snd (GetWithExpire clock k c)) k' =
      map_option (\<lambda>e. (e_value e, e_expires e)) (lookup k' (snd (spec_get ?g clock k ?es)))" for k'
    by (simp add: lru_view_entries)
  have "lookup k' (snd (spec_get ?g clock k ?es)) = lookup k' ?es" for k'
  proof (cases "lookup k ?es")
    case (Some e)
    then have "e_key e = k" by (auto simp: find_Some_iff)
    then show ?thesis using Some by (cases "k' = k") (auto simp: sp lookup_snoc lookup_without split: option.splits)
  qed (simp add: sp)
  then show "lru_view (snd (GetWithExpire clock k c)) = lru_view c" by (intro ext) (simp only: V lru_view_entries [OF R(1)])
qed

lemma lru_put_law:
  assumes "lru_ok c"
  shows "lru_ok (SetWithExpire clock k v x c)" "lru_view (SetWithExpire clock k v x c) k = Some (v, x)"
    "lru_view (SetWithExpire clock k v x c) \<subseteq>\<^sub>m (lru_view c)(k \<mapsto> (v, x))"
proof -
  define es where "es = entries c"
  let ?g = "config_of c" and ?e = "\<lparr>e_key = k, e_value = v, e_expires = x\<rparr>"
  note R = represents_ok [OF assms, folded es_def]
  let ?es' = "without k es @ [?e]"
  let ?cut = "lookup k es = None \<and> g_maxSize ?g > 0 \<and> int (length ?es') > g_maxSize ?g"
  have "represents (SetWithExpire clock k v x c) ?g (if ?cut then tl ?es' else ?es')"
    using setWithExpire_represents [OF R(1), of clock k v x] R(2)
    by (simp add: SetWithExpire_def spec_setWithExpire_def spec_expire_def Let_def)
  note S = this
  show "lru_ok (SetWithExpire clock k v x c)" using S assms by (rule ok_represents)
  have full: "lookup k' ?es' = (if k' = k then Some ?e else lookup k' es)" for k'
    by (simp add: lookup_snoc lookup_without split: option.splits)
  have "distinct (map e_key es)" using keys_distinct [of c] assms unfolding lru_ok_def es_def by blast
  then have dist: "distinct (map e_key ?es')" by (auto simp: distinct_map_filter)
  have hd: "e_key (hd ?es') \<noteq> k" if ?cut
  proof -
    from that have "0 < length (without k es)" by auto
    then show ?thesis by (cases "without k es") (auto simp: filter_eq_Cons_iff)
  qed
  have V: "lru_view (SetWithExpire clock k v x c) k' =
      map_option (\<lambda>e. (e_value e, e_expires e)) (lookup k' (if ?cut then tl ?es' else ?es'))" for k'
    by (rule lru_view_entries [OF S])
  show "lru_view (SetWithExpire clock k v x c) k = Some (v, x)"
    unfolding V using hd by (simp add: lookup_tl [OF dist] full)
  show "lru_view (SetWithExpire clock k v x c) \<subseteq>\<^sub>m (lru_view c)(k \<mapsto> (v, x))"
    unfolding map_le_def V lru_view_entries [OF R(1)] by (auto simp: lookup_tl [OF dist] full split: if_splits)
qed

interpretation lru_cache: expiring_cache lru_ok lru_view
  "\<lambda>k c. Some (GetWithExpire clock k c)" "\<lambda>k v x c. Some (SetWithExpire clock k v x c)" lru_Clear
proof
  fix c :: "('a, 'b) LruCache" and k v x
  assume c: "lru_ok c"
  show "\<exists>c'. Some (GetWithExpire clock k c) = Some (lru_view c k, c') \<and> lru_ok c' \<and> lru_view c' \<subseteq>\<^sub>m lru_view c"
    using lru_get_law [OF c, of clock k] by (metis map_le_refl prod.collapse)
  show "\<exists>c'. Some (SetWithExpire clock k v x c) = Some c' \<and> lru_ok c' \<and> lru_view c' k = Some (v, x) \<and>
      lru_view c' \<subseteq>\<^sub>m (lru_view c)(k \<mapsto> (v, x))"
    using lru_put_law [OF c] by blast
  show "lru_ok (lru_Clear c) \<and> lru_view (lru_Clear c) = Map.empty"
    using c Clear_represents [of c] by (auto simp: lru_ok_def represents_def lru_Clear_def lru_view_def)
qed

interpretation arc_cache: expiring_cache arc_ok arc_view arc_GetWithExpire arc_setWithExpire arc_Clear
proof
  fix a :: "('a, 'b) ARC" and k v x
  assume a: "arc_ok a"
  show "\<exists>a'. arc_GetWithExpire k a = Some (arc_view a k, a') \<and> arc_ok a' \<and> arc_view a' \<subseteq>\<^sub>m arc_view a"
    using arc_get_spec [OF a] by blast
  show "\<exists>a'. arc_setWithExpire k v x a = Some a' \<and> arc_ok a' \<and> arc_view a' k = Some (v, x) \<and>
      arc_view a' \<subseteq>\<^sub>m (arc_view a)(k \<mapsto> (v, x))"
    using arc_set_spec [OF a] by blast
  show "arc_ok (arc_Clear a) \<and> arc_view (arc_Clear a) = Map.empty"
    using arc_Clear_ok [OF a] arc_Clear_view by blast
qed

section \<open>dnsCache\<close>

datatype dnsCache = CacheARC "(string, Msg) ARC" | CacheLRU "(string, Msg) LruCache"

fun dc_GetWithExpire :: "clock \<Rightarrow> string \<Rightarrow> dnsCache \<Rightarrow> ((Msg \<times> int) option \<times> dnsCache) option" where
  "dc_GetWithExpire clock key (CacheARC a) = map_option (\<lambda>(r, a'). (r, CacheARC a')) (arc_GetWithExpire key a)"
| "dc_GetWithExpire clock key (CacheLRU c) = (case GetWithExpire clock key c of (r, c') \<Rightarrow> Some (r, CacheLRU c'))"

fun dc_SetWithExpire :: "clock \<Rightarrow> string \<Rightarrow> Msg \<Rightarrow> int \<Rightarrow> dnsCache \<Rightarrow> dnsCache option" where
  "dc_SetWithExpire clock key m x (CacheARC a) = map_option CacheARC (arc_setWithExpire key m x a)"
| "dc_SetWithExpire clock key m x (CacheLRU c) = Some (CacheLRU (SetWithExpire clock key m x c))"

fun dc_Clear :: "dnsCache \<Rightarrow> dnsCache" where
  "dc_Clear (CacheARC a) = CacheARC (arc_Clear a)"
| "dc_Clear (CacheLRU c) = CacheLRU (lru_Clear c)"

text \<open>\<open>Config.newCache\<close>, from the fields \<open>CacheAlgorithm\<close> and \<open>CacheMaxSize\<close>.\<close>

definition newCache :: "string \<Rightarrow> int \<Rightarrow> dnsCache" where
  "newCache algorithm msize =
     (let n = (if msize = 0 then 4096 else msize) in
      if algorithm = ''arc'' then CacheARC (arc_New (Some n))
      else CacheLRU (lru_New [WithSize n, WithStale True]))"

fun dc_ok :: "dnsCache \<Rightarrow> bool" where
  "dc_ok (CacheARC a) = arc_ok a"
| "dc_ok (CacheLRU c) = lru_ok c"

fun dc_view :: "dnsCache \<Rightarrow> string \<rightharpoonup> Msg \<times> int" where
  "dc_view (CacheARC a) = arc_view a"
| "dc_view (CacheLRU c) = lru_view c"

lemma lru_New_ok:
  "lru_ok (lru_New [WithSize n, WithStale True]) \<and> lru_view (lru_New [WithSize n, WithStale True]) = Map.empty"
  by (auto simp: lru_New_def lru_Clear_def lru_ok_def lru_inv_def lru_view_def)

lemma newCache_ok: "0 \<le> msize \<Longrightarrow> dc_ok (newCache algorithm msize) \<and> dc_view (newCache algorithm msize) = Map.empty"
  by (simp add: newCache_def Let_def arc_New_ok arc_New_view lru_New_ok)

interpretation dns_cache: expiring_cache dc_ok dc_view "dc_GetWithExpire clock" "dc_SetWithExpire clock" dc_Clear
proof
  fix c k v x
  assume c: "dc_ok c"
  show "\<exists>c'. dc_GetWithExpire clock k c = Some (dc_view c k, c') \<and> dc_ok c' \<and> dc_view c' \<subseteq>\<^sub>m dc_view c"
    using c arc_cache.get_law [of _ k] lru_cache.get_law [of _ clock k] by (cases c) fastforce+
  show "\<exists>c'. dc_SetWithExpire clock k v x c = Some c' \<and> dc_ok c' \<and> dc_view c' k = Some (v, x) \<and>
      dc_view c' \<subseteq>\<^sub>m (dc_view c)(k \<mapsto> (v, x))"
    using c arc_cache.put_law [of _ k v x] lru_cache.put_law [of _ clock k v x] by (cases c) fastforce+
  show "dc_ok (dc_Clear c) \<and> dc_view (dc_Clear c) = Map.empty"
    using c arc_cache.clear_law lru_cache.clear_law by (cases c) fastforce+
qed

end
