(* ===== verification/Float64.thy ===== *)
theory Float64
  imports Prelude "HOL-Library.Log_Nat"
begin

text \<open>
  Go's \<open>float64\<close> as rational numbers that are rounded after each operation, as far as the code of the
  load balancer and of the DNS resolver uses it.
\<close>

section \<open>Rounding\<close>

text \<open>
  Arithmetic of \<open>float64\<close> for values of at least 1: the result of an operation is rounded to 53 binary
  digits, to the even one of two nearest.
\<close>

definition round_even :: "rat \<Rightarrow> int" where
  "round_even x =
     (let f = \<lfloor>x\<rfloor>; r = x - of_int f in
      if r < 1 / 2 then f else if r > 1 / 2 then f + 1 else if even f then f else f + 1)"

definition float64 :: "rat \<Rightarrow> rat" where
  "float64 x =
     (let bits = floorlog 2 (nat \<lfloor>x\<rfloor>) in
      if bits \<le> 53 then of_int (round_even (x * 2 ^ (53 - bits))) / 2 ^ (53 - bits)
      else of_int (round_even (x / 2 ^ (bits - 53))) * 2 ^ (bits - 53))"

text \<open>
  For values below 1 the exponent goes down with the value: at most \<open>k\<close> doublings bring one of at
  least \<open>2\<^sup>-\<^sup>k\<close> to the range of \<open>float64\<close>, and scaling by two is exact.
\<close>

primrec unit64 :: "nat \<Rightarrow> rat \<Rightarrow> rat" where
  "unit64 0 x = float64 x"
| "unit64 (Suc k) x = (if x < 1 then unit64 k (2 * x) / 2 else float64 x)"

text \<open>
  \<open>Duration.Seconds\<close>: whole seconds and nanoseconds, converted and added.  A duration is a number of
  nanoseconds; the least part of a second is larger than \<open>2\<^sup>-\<^sup>3\<^sup>0\<close>.
\<close>

definition seconds_pos :: "int \<Rightarrow> rat" where
  "seconds_pos d = unit64 30 (of_int (d div 1000000000) + unit64 30 (of_int (d mod 1000000000) / 1000000000))"

definition Duration_Seconds :: "int \<Rightarrow> rat" where
  "Duration_Seconds d = (if d < 0 then - seconds_pos (- d) else seconds_pos d)"

section \<open>Lemmas\<close>

lemma round_even_ge: "of_int n \<le> x \<Longrightarrow> n \<le> round_even x"
proof -
  assume "of_int n \<le> x"
  then have "n \<le> \<lfloor>x\<rfloor>" by (simp add: le_floor_iff)
  then show ?thesis by (simp add: round_even_def Let_def)
qed

lemma float64_ge:
  assumes "1 \<le> n" "n < 2 ^ 53" "of_nat n \<le> x"
  shows "of_nat n \<le> float64 x"
proof -
  let ?bits = "floorlog 2 (nat \<lfloor>x\<rfloor>)"
  show ?thesis
  proof (cases "?bits \<le> 53")
    case True
    have "of_int (int n * 2 ^ (53 - ?bits)) \<le> x * 2 ^ (53 - ?bits)" using assms(3) by simp
    from round_even_ge [OF this] have "int n * 2 ^ (53 - ?bits) \<le> round_even (x * 2 ^ (53 - ?bits))" .
    then have "(of_int (int n * 2 ^ (53 - ?bits)) :: rat) \<le> of_int (round_even (x * 2 ^ (53 - ?bits)))"
      by (simp only: of_int_le_iff)
    with True show ?thesis by (simp add: float64_def Let_def le_divide_eq)
  next
    case False
    have "1 \<le> x" using assms(1,3) by (metis of_nat_1 of_nat_le_iff order_trans)
    then have "0 < nat \<lfloor>x\<rfloor>" by (simp add: one_le_floor)
    then have "2 ^ (?bits - 1) \<le> nat \<lfloor>x\<rfloor>" using floorlog_bounds [of "nat \<lfloor>x\<rfloor>" 2] by simp
    then have "(2 :: int) ^ (?bits - 1) \<le> \<lfloor>x\<rfloor>" by (simp add: le_nat_iff \<open>1 \<le> x\<close> order_trans [OF zero_le_one])
    then have "(2 :: rat) ^ (?bits - 1) \<le> x" by (metis le_floor_iff of_int_numeral of_int_power)
    moreover have "?bits - 1 = 52 + (?bits - 53)" using False by simp
    then have "(2 :: rat) ^ (?bits - 1) = 2 ^ 52 * 2 ^ (?bits - 53)" by (simp only: power_add)
    ultimately have "of_int (2 ^ 52) \<le> x / 2 ^ (?bits - 53)" by (simp add: le_divide_eq)
    from round_even_ge [OF this] have "(of_int (2 ^ 52) :: rat) \<le> of_int (round_even (x / 2 ^ (?bits - 53)))"
      by (simp only: of_int_le_iff)
    then have "2 ^ 52 * 2 ^ (?bits - 53) \<le> float64 x" using False by (simp add: float64_def Let_def)
    moreover have "(2 :: rat) ^ 1 \<le> 2 ^ (?bits - 53)" using False by (intro power_increasing) auto
    ultimately have "2 ^ 53 \<le> float64 x" by simp
    moreover have "(of_nat n :: rat) < 2 ^ 53" using assms(2) by (metis of_nat_less_iff of_nat_numeral of_nat_power)
    ultimately show ?thesis by linarith
  qed
qed

lemma round_even_le: "x \<le> of_int n \<Longrightarrow> round_even x \<le> n"
proof -
  assume x: "x \<le> of_int n"
  show ?thesis
  proof (cases "x = of_int n")
    case False
    with x have "\<lfloor>x\<rfloor> < n" by (simp add: floor_less_iff)
    then show ?thesis by (simp add: round_even_def Let_def)
  qed (simp add: round_even_def)
qed

lemma float64_le:
  assumes "x \<le> of_nat n" "n < 2 ^ 53"
  shows "float64 x \<le> of_nat n"
proof -
  let ?bits = "floorlog 2 (nat \<lfloor>x\<rfloor>)"
  have "\<lfloor>x\<rfloor> \<le> int n" using assms(1) by (metis floor_le_iff floor_mono floor_of_nat)
  then have "nat \<lfloor>x\<rfloor> \<le> n" by simp
  with assms(2) have "nat \<lfloor>x\<rfloor> < 2 ^ 53" by linarith
  then have bits: "?bits \<le> 53" by (intro floorlog_leI) auto
  have "x * 2 ^ (53 - ?bits) \<le> of_int (int n * 2 ^ (53 - ?bits))" using assms(1) by simp
  from round_even_le [OF this] have "(of_int (round_even (x * 2 ^ (53 - ?bits))) :: rat) \<le> of_int (int n * 2 ^ (53 - ?bits))"
    by (simp only: of_int_le_iff)
  with bits show ?thesis by (simp add: float64_def Let_def divide_le_eq)
qed

lemma float64_nonneg: "0 \<le> x \<Longrightarrow> 0 \<le> float64 x"
proof -
  assume "0 \<le> x"
  then have "0 \<le> round_even (x * 2 ^ n)" "0 \<le> round_even (x / 2 ^ n)" for n
    by (simp_all add: round_even_ge)
  then show ?thesis by (simp add: float64_def Let_def)
qed

lemma unit64_nonneg: "0 \<le> x \<Longrightarrow> 0 \<le> unit64 k x"
  by (induction k arbitrary: x) (auto simp: float64_nonneg)

lemma unit64_0 [simp]: "unit64 k 0 = 0"
  by (induction k) (simp_all add: float64_def round_even_def Let_def)

lemma unit64_le: "x \<le> 1 \<Longrightarrow> unit64 k x \<le> 1"
proof (induction k arbitrary: x)
  case (Suc k)
  have "unit64 k (2 * x) \<le> 2" if "x < 1"
  proof (cases "2 * x \<le> 1")
    case True
    from Suc.IH [OF this] show ?thesis by simp
  next
    case False
    with that have "float64 (2 * x) \<le> of_nat 2" by (intro float64_le) auto
    with False show ?thesis by (cases k) auto
  qed
  moreover have "float64 x \<le> of_nat 1" using Suc.prems by (intro float64_le) auto
  ultimately show ?case by simp
qed (use float64_le [of _ 1] in simp)

lemma unit64_ge:
  assumes "of_nat n \<le> x" "n < 2 ^ 53"
  shows "of_nat n \<le> unit64 k x"
proof (cases "n = 0")
  case True
  with assms(1) unit64_nonneg [of x] show ?thesis by simp
next
  case False
  then have "1 \<le> x" using assms(1) by (metis One_nat_def Suc_leI of_nat_1 of_nat_le_iff order_trans neq0_conv)
  moreover have "of_nat n \<le> float64 x" using False assms by (intro float64_ge) auto
  ultimately show ?thesis by (cases k) auto
qed

lemma unit64_le_nat:
  assumes "x \<le> of_nat n" "1 \<le> n" "n < 2 ^ 53"
  shows "unit64 k x \<le> of_nat n"
proof (cases "x \<le> 1")
  case True
  from unit64_le [OF this, of k] assms(2) show ?thesis by (metis of_nat_1 of_nat_le_iff order_trans)
next
  case False
  with float64_le [OF assms(1,3)] show ?thesis by (cases k) auto
qed

text \<open>The whole part of a duration in seconds is that of the exact value, or one more when it is not whole.\<close>

lemma Duration_Seconds_bounds:
  assumes "0 \<le> d" "d \<le> of_nat n * 1000000000" "n < 2 ^ 53"
  shows "0 \<le> Duration_Seconds d" "Duration_Seconds d \<le> of_nat n"
proof -
  let ?s = "nat (d div 1000000000)" and ?r = "of_int (d mod 1000000000) / 1000000000 :: rat"
  have s: "of_int (d div 1000000000) = (of_nat ?s :: rat)" using assms(1) by (simp add: pos_imp_zdiv_nonneg_iff)
  have r: "0 \<le> ?r" "?r \<le> 1" by (simp_all add: divide_le_eq order.strict_implies_order)
  have "0 \<le> of_nat ?s + unit64 30 ?r" using unit64_nonneg [OF r(1), of 30] by simp
  then show "0 \<le> Duration_Seconds d"
    using assms(1) unfolding Duration_Seconds_def seconds_pos_def s by (simp add: unit64_nonneg)
  show "Duration_Seconds d \<le> of_nat n"
  proof (cases "n = 0")
    case True
    with assms have "d = 0" by simp
    then show ?thesis by (simp add: Duration_Seconds_def seconds_pos_def True)
  next
    case False
    have "(of_nat ?s :: rat) + unit64 30 ?r \<le> of_nat n"
    proof (cases "d mod 1000000000 = 0")
      case True
      have "d div 1000000000 \<le> int n" using assms(2) by linarith
      then have "?s \<le> n" by simp
      moreover from True have "unit64 30 ?r = 0" by simp
      ultimately show ?thesis by simp
    next
      case r0: False
      then have "0 < d mod 1000000000" by (metis order_le_less pos_mod_sign zero_less_numeral)
      moreover have "d = 1000000000 * (d div 1000000000) + d mod 1000000000" by simp
      ultimately have "1000000000 * (d div 1000000000) < 1000000000 * int n" using assms(2) by linarith
      then have "d div 1000000000 < int n" by simp
      then have "?s + 1 \<le> n" using False by linarith
      then have "(of_nat ?s :: rat) + 1 \<le> of_nat n" by (metis of_nat_1 of_nat_add of_nat_le_iff)
      with unit64_le [OF r(2), of 30] show ?thesis by linarith
    qed
    then have "unit64 30 (of_nat ?s + unit64 30 ?r) \<le> of_nat n" using False assms(3) by (intro unit64_le_nat) auto
    then show ?thesis unfolding Duration_Seconds_def seconds_pos_def s if_not_P [OF leD [OF assms(1)]] .
  qed
qed

end
