(* ===== verification/Resolver.thy ===== *)
theory Resolver
  imports Dns_Cache Float64
begin

text \<open>
  \<open>dns/resolver.go\<close>, \<open>dns/util.go\<close>, \<open>dns/policy.go\<close>, \<open>dns/rcode.go\<close>, \<open>dns/edns0_subnet.go\<close> and \<open>common/picker\<close>: how a DNS
  query is answered from the cache or from the name servers, which of them are asked, and which
  answer is taken.

  Arguments of the model, collected in the record \<open>res_env\<close>, are the exchange with a name server over
  the network, the functions of \<open>miekg/dns\<close> and of \<open>samber/lo\<close> that the code calls, and Go's
  conversion of a float to \<open>uint32\<close>, which the language leaves open outside the range.  Goroutines that
  race for an answer run one after the other, in the order \<open>re_order\<close> in which they finish.
\<close>

section \<open>Time to live\<close>

fun rr_type :: "RR \<Rightarrow> qtype" where
  "rr_type (RR_A _ _ _) = TypeA"
| "rr_type (RR_AAAA _ _ _) = TypeAAAA"
| "rr_type (RR_CNAME _ _ _) = TypeCNAME"
| "rr_type (RR_OPT _ _ _) = OtherType 41"
| "rr_type (RR_Other _ _ ty) = ty"

record NameServer =
  ns_Net :: string
  ns_Addr :: string
  ns_ProxyAdapter :: "nat option"
  ns_ProxyName :: string
  ns_Params :: "(string \<times> string) list"
  ns_PreferH3 :: bool

text \<open>\<open>context.DeadlineExceeded\<close> and \<open>Canceled\<close> are told apart; \<open>AllFailed\<close> wraps the first error.\<close>

datatype res_error =
    DeadlineExceeded | Canceled | ResErr string | AllFailed "res_error option" | ErrIPNotFound | ErrIPVersion

datatype client_kind = DoTClient | DoHClient | DHCPClient | SystemClient | TailscaleClient | DoQClient | PlainClient

record res_env =
  re_dns :: "unit dns_env"
  re_MinBy :: "RR list \<Rightarrow> (RR \<Rightarrow> RR \<Rightarrow> bool) \<Rightarrow> RR option"
  re_Clamp :: "32 word \<Rightarrow> 32 word \<Rightarrow> 32 word \<Rightarrow> 32 word"
  re_uint32 :: "rat \<Rightarrow> 32 word"
  re_qstring :: "Question \<Rightarrow> string"
  re_RcodeToString :: "nat \<Rightarrow> string"
  re_TypeToRR :: "nat \<Rightarrow> bool"
  re_SetQuestion :: "string \<Rightarrow> qtype \<Rightarrow> Msg"
  re_ask :: "nat \<Rightarrow> client_kind \<Rightarrow> NameServer \<Rightarrow> Msg \<Rightarrow> (res_error, Msg) result"
  re_order :: "nat \<Rightarrow> nat list"
  re_clock :: clock

definition serverFailureCacheTTL :: "32 word" where "serverFailureCacheTTL = 5"

definition RcodeServerFailure :: nat where "RcodeServerFailure = 2"
definition RcodeRefused :: nat where "RcodeRefused = 5"

definition minimalTTL :: "res_env \<Rightarrow> RR list \<Rightarrow> 32 word" where
  "minimalTTL E records =
     (case re_MinBy E records (\<lambda>r1 r2. rr_Ttl r1 < rr_Ttl r2) of None \<Rightarrow> 0 | Some rr \<Rightarrow> rr_Ttl rr)"

definition updateTTL :: "res_env \<Rightarrow> RR list \<Rightarrow> 32 word \<Rightarrow> RR list" where
  "updateTTL E records ttl =
     (if length records = 0 then records
      else let delta = minimalTTL E records - ttl in
           map (\<lambda>r. set_ttl (re_Clamp E (rr_Ttl r - delta) 1 (rr_Ttl r)) r) records)"

definition updateMsgTTL :: "res_env \<Rightarrow> Msg \<Rightarrow> 32 word \<Rightarrow> Msg" where
  "updateMsgTTL E m ttl =
     m\<lparr>msg_Answer := updateTTL E (msg_Answer m) ttl, msg_Ns := updateTTL E (msg_Ns m) ttl,
       msg_Extra := updateTTL E (msg_Extra m) ttl\<rparr>"

text \<open>Messages are values here, so the copies of the source are the messages themselves.\<close>

definition getMsgFromCache :: "res_env \<Rightarrow> dnsCache \<Rightarrow> Question \<Rightarrow> ((Msg \<times> int) option \<times> dnsCache) option" where
  "getMsgFromCache E c q = dc_GetWithExpire (re_clock E) (re_qstring E q) c"

text \<open>\<open>now\<close> is the clock in nanoseconds; the cache keeps whole seconds.\<close>

definition putMsgToCache :: "res_env \<Rightarrow> int \<Rightarrow> dnsCache \<Rightarrow> Question \<Rightarrow> Msg \<Rightarrow> dnsCache option" where
  "putMsgToCache E now c q m0 =
     (if q_Qtype q = OtherType 16 \<and> has_prefix (q_Name q) ''_acme-challenge.'' then Some c
      else
        let m = m0\<lparr>msg_Extra := filter (\<lambda>rr. rr_type rr \<noteq> OtherType 41) (msg_Extra m0)\<rparr>;
            ttl = (if msg_Rcode m = RcodeServerFailure then serverFailureCacheTTL
                   else minimalTTL E (msg_Answer m @ msg_Ns m @ msg_Extra m))
        in if ttl = 0 then Some c
           else dc_SetWithExpire (re_clock E) (re_qstring E q) m ((now + int (unat ttl) * 1000000000) div 1000000000) c)"

section \<open>Clients\<close>

text \<open>
  The implementations of \<open>dnsClient\<close>.  A client that talks to a server is an object of its own: its
  identity, its kind and the name server it was made from.  The two wrappers hold a client.
\<close>

datatype dnsClient =
    RCodeClient nat string
  | Upstream nat client_kind NameServer
  | WithDisableTypes dnsClient "qtype set"
  | WithEdns0Subnet dnsClient prefix bool

definition newRCodeClient :: "string \<Rightarrow> dnsClient option" where
  "newRCodeClient addr =
     map_option (\<lambda>rcode. RCodeClient rcode (''rcode://'' @ addr))
       (if addr = ''success'' then Some 0
        else if addr = ''format_error'' then Some 1
        else if addr = ''server_failure'' then Some 2
        else if addr = ''name_error'' then Some 3
        else if addr = ''not_implemented'' then Some 4
        else if addr = ''refused'' then Some 5
        else None)"

text \<open>
  \<open>edns0_subnet.go\<close>: the loop leaves the index of the OPT record it looked at last, if that was one, and
  the index of the subnet option it stopped at.
\<close>

fun find_subnet :: "EDNS0 list \<Rightarrow> nat \<Rightarrow> nat option" where
  "find_subnet [] j = None"
| "find_subnet (EDNS0_SUBNET _ _ _ # os) j = Some j"
| "find_subnet (EDNS0_Other _ # os) j = find_subnet os (Suc j)"

fun edns_scan :: "RR list \<Rightarrow> nat \<Rightarrow> nat option \<Rightarrow> nat option \<times> nat option" where
  "edns_scan [] i opt = (opt, None)"
| "edns_scan (r # rs) i opt =
     (case r of
        RR_OPT _ _ os \<Rightarrow>
          (case find_subnet os 0 of Some j \<Rightarrow> (Some i, Some j) | None \<Rightarrow> edns_scan rs (Suc i) (Some i))
      | _ \<Rightarrow> edns_scan rs (Suc i) None)"

fun write_option :: "nat option \<Rightarrow> EDNS0 \<Rightarrow> RR \<Rightarrow> RR" where
  "write_option sub e (RR_OPT n t os) = RR_OPT n t (case sub of Some j \<Rightarrow> os[j := e] | None \<Rightarrow> os @ [e])"
| "write_option sub e r = r"

definition setEdns0Subnet :: "Msg \<Rightarrow> prefix \<Rightarrow> bool \<Rightarrow> bool \<times> Msg" where
  "setEdns0Subnet m clientSubnet override =
     (case edns_scan (msg_Extra m) 0 None of
        (opt, sub) \<Rightarrow>
          if sub \<noteq> None \<and> \<not> override then (False, m)
          else
            let (extra, i) = (case opt of Some i \<Rightarrow> (msg_Extra m, i)
                              | None \<Rightarrow> (msg_Extra m @ [RR_OPT ''.'' 0 []], length (msg_Extra m)));
                e = EDNS0_SUBNET (if Is4 (p_addr clientSubnet) then 1 else 2) (p_bits clientSubnet mod 256)
                      (AsSlice (p_addr clientSubnet))
            in (True, m\<lparr>msg_Extra := extra[i := write_option sub e (extra ! i)]\<rparr>))"

text \<open>
  \<open>ExchangeContext\<close> of a client: the answer, and the query as the client leaves it.  The rcode client
  answers with the query itself, which it changes, and a wrapper that filters such an answer
  changes it once more.
\<close>

fun answers_in_place :: "dnsClient \<Rightarrow> bool" where
  "answers_in_place (RCodeClient _ _) = True"
| "answers_in_place (Upstream _ _ _) = False"
| "answers_in_place (WithDisableTypes c _) = answers_in_place c"
| "answers_in_place (WithEdns0Subnet _ _ _) = False"

definition drop_types :: "qtype set \<Rightarrow> Msg \<Rightarrow> Msg" where
  "drop_types ts m =
     m\<lparr>msg_Answer := filter (\<lambda>r. rr_type r \<notin> ts) (msg_Answer m), msg_Ns := filter (\<lambda>r. rr_type r \<notin> ts) (msg_Ns m),
       msg_Extra := filter (\<lambda>r. rr_type r \<notin> ts) (msg_Extra m)\<rparr>"

fun client_exchange :: "res_env \<Rightarrow> dnsClient \<Rightarrow> Msg \<Rightarrow> (res_error, Msg) result \<times> Msg" where
  "client_exchange E (RCodeClient rcode _) m =
     (let m' = m\<lparr>msg_Response := True, msg_Rcode := rcode\<rparr> in (Inr m', m'))"
| "client_exchange E (Upstream i k ns) m = (re_ask E i k ns m, m)"
| "client_exchange E (WithDisableTypes c ts) m =
     (if list_ex (\<lambda>q. q_Qtype q \<in> ts) (msg_Question m) then (Inr (handleMsgWithEmptyAnswer (re_dns E) m), m)
      else
        (case client_exchange E c m of
           (Inl e, m') \<Rightarrow> (Inl e, m')
         | (Inr r, m') \<Rightarrow> (Inr (drop_types ts r), if answers_in_place c then drop_types ts m' else m')))"
| "client_exchange E (WithEdns0Subnet c p override) m =
     (fst (client_exchange E c (snd (setEdns0Subnet m p override))), m)"

section \<open>From name servers to clients\<close>

definition params_get :: "(string \<times> string) list \<Rightarrow> string \<Rightarrow> string" where
  "params_get ps k = (case map_of ps k of None \<Rightarrow> [] | Some v \<Rightarrow> v)"

fun qtype_of :: "nat \<Rightarrow> qtype" where
  "qtype_of n = (if n = 1 then TypeA else if n = 28 then TypeAAAA else if n = 5 then TypeCNAME
     else if n = 64 then TypeSVCB else if n = 65 then TypeHTTPS else OtherType n)"

definition disable_qtype :: "res_env \<Rightarrow> string \<times> string \<Rightarrow> qtype option" where
  "disable_qtype E kv =
     (case kv of (key, value) \<Rightarrow>
        if has_prefix key ''disable-qtype-'' \<and> value = ''true'' then
          (case parse_uint 16 (drop (length ''disable-qtype-'') key) of
             None \<Rightarrow> None
           | Some n \<Rightarrow> if re_TypeToRR E n then Some (qtype_of n) else None)
        else None)"

definition warpClientWithDisableTypes :: "res_env \<Rightarrow> dnsClient \<Rightarrow> (string \<times> string) list \<Rightarrow> dnsClient" where
  "warpClientWithDisableTypes E c params =
     (let ts = (if params_get params ''disable-ipv4'' = ''true'' then {TypeA} else {}) \<union>
               (if params_get params ''disable-ipv6'' = ''true'' then {TypeAAAA} else {}) \<union>
               set (List.map_filter (disable_qtype E) params)
      in if ts \<noteq> {} then WithDisableTypes c ts else c)"

text \<open>\<open>PrefixFrom\<close> of an address and its own bit length.\<close>

definition full_prefix :: "addr \<Rightarrow> prefix" where
  "full_prefix a = \<lparr>p_addr = WithZone [] a, p_bits = (if Is4 a then 32 else 128)\<rparr>"

definition warpClientWithEdns0Subnet :: "dnsClient \<Rightarrow> (string \<times> string) list \<Rightarrow> dnsClient" where
  "warpClientWithEdns0Subnet c params =
     (let ecs = params_get params ''ecs'';
          ecsPrefix = (if ecs = [] then None
                       else case ParsePrefix ecs of Some p \<Rightarrow> Some p | None \<Rightarrow> map_option full_prefix (ParseAddr ecs))
      in case ecsPrefix of
           Some p \<Rightarrow> if prefix_valid p then WithEdns0Subnet c p (params_get params ''ecs-override'' = ''true'') else c
         | None \<Rightarrow> c)"

definition client_kind_of :: "string \<Rightarrow> client_kind" where
  "client_kind_of net =
     (if net = ''tls'' then DoTClient else if net = ''https'' then DoHClient else if net = ''dhcp'' then DHCPClient
      else if net = ''system'' then SystemClient else if net = ''tailscale'' then TailscaleClient
      else if net = ''quic'' then DoQClient else PlainClient)"

text \<open>\<open>transform\<close> makes new clients; \<open>n\<close> is the next free identity, \<^const>\<open>None\<close> the panic of the rcode client.\<close>

fun transform :: "res_env \<Rightarrow> NameServer list \<Rightarrow> nat \<Rightarrow> (dnsClient list \<times> nat) option" where
  "transform E [] n = Some ([], n)"
| "transform E (s # ss) n =
     Option.bind (if ns_Net s = ''rcode'' then newRCodeClient (ns_Addr s) else Some (Upstream n (client_kind_of (ns_Net s)) s))
       (\<lambda>c0. let c = warpClientWithDisableTypes E (warpClientWithEdns0Subnet c0 (ns_Params s)) (ns_Params s) in
             map_option (\<lambda>(cs, n'). (c # cs, n')) (transform E ss (Suc n)))"

section \<open>common/picker\<close>

text \<open>
  A picker collects the first result and the first error of the functions it runs; \<open>pk_cancelled\<close> says
  that its context was cancelled.
\<close>

record Picker =
  pk_once :: bool
  pk_errOnce :: bool
  pk_result :: "Msg option"
  pk_err :: "res_error option"
  pk_cancelled :: bool

definition newPicker :: Picker where
  "newPicker = \<lparr>pk_once = False, pk_errOnce = False, pk_result = None, pk_err = None, pk_cancelled = False\<rparr>"

text \<open>The end of a goroutine of \<open>Go\<close>, and \<open>Wait\<close> after the last of them.\<close>

definition picker_finish :: "(res_error, Msg) result \<Rightarrow> Picker \<Rightarrow> Picker" where
  "picker_finish r pk =
     (case r of
        Inr v \<Rightarrow> if pk_once pk then pk else pk\<lparr>pk_once := True, pk_result := Some v, pk_cancelled := True\<rparr>
      | Inl e \<Rightarrow> if pk_errOnce pk then pk else pk\<lparr>pk_errOnce := True, pk_err := Some e\<rparr>)"

definition picker_Wait :: "Picker \<Rightarrow> Msg option \<times> Picker" where
  "picker_Wait pk = (pk_result pk, pk\<lparr>pk_cancelled := True\<rparr>)"

section \<open>batchExchange\<close>

text \<open>The function each goroutine runs: an exchange, whose failure codes are errors.\<close>

definition batch_job :: "res_env \<Rightarrow> dnsClient \<Rightarrow> Msg \<Rightarrow> (res_error, Msg) result \<times> Msg" where
  "batch_job E client m =
     (case client_exchange E client m of
        (Inl e, m') \<Rightarrow> (Inl e, m')
      | (Inr r, m') \<Rightarrow>
          if msg_Rcode r = RcodeServerFailure \<or> msg_Rcode r = RcodeRefused
          then (Inl (ResErr (''server failure: '' @ re_RcodeToString E (msg_Rcode r))), m') else (Inr r, m'))"

fun run_jobs :: "res_env \<Rightarrow> dnsClient list \<Rightarrow> Picker \<Rightarrow> Msg \<Rightarrow> Picker \<times> Msg" where
  "run_jobs E [] pk m = (pk, m)"
| "run_jobs E (c # cs) pk m = (case batch_job E c m of (r, m') \<Rightarrow> run_jobs E cs (picker_finish r pk) m')"

fun isRCodeClient :: "dnsClient \<Rightarrow> bool" where
  "isRCodeClient (RCodeClient _ _) = True"
| "isRCodeClient _ = False"

text \<open>
  The loop over the clients ends at the first rcode client, whose answer is returned at once; the
  goroutines that were started before it are left to themselves.  The result is the answer, whether
  it may be cached, and the query as it is afterwards.
\<close>

fun batch_loop :: "dnsClient list \<Rightarrow> dnsClient list \<Rightarrow> (dnsClient, dnsClient list) sum" where
  "batch_loop [] started = Inr started"
| "batch_loop (c # cs) started = (if isRCodeClient c then Inl c else batch_loop cs (started @ [c]))"

definition batchExchange :: "res_env \<Rightarrow> dnsClient list \<Rightarrow> Msg \<Rightarrow> (res_error, Msg) result \<times> bool \<times> Msg" where
  "batchExchange E clients m =
     (case batch_loop clients [] of
        Inl c \<Rightarrow> (case client_exchange E c m of (r, m') \<Rightarrow> (r, False, m'))
      | Inr started \<Rightarrow>
          (case run_jobs E (map (\<lambda>i. started ! i) (re_order E (length started))) newPicker m of
             (pk, m') \<Rightarrow>
               (case picker_Wait pk of
                  (Some msg, _) \<Rightarrow> (Inr msg, True, m')
                | (None, pk') \<Rightarrow> (Inl (AllFailed (pk_err pk')), True, m'))))"

section \<open>Policies\<close>

text \<open>A \<open>DomainMatcher\<close> is the predicate it decides.\<close>

datatype dnsPolicy =
    DomainTriePolicy "dnsClient list node"
  | DomainMatcherPolicy "string \<Rightarrow> bool" "dnsClient list"

fun policy_Match :: "dnsPolicy \<Rightarrow> string \<Rightarrow> dnsClient list" where
  "policy_Match (DomainTriePolicy t) domain =
     (case Search t domain of None \<Rightarrow> [] | Some record \<Rightarrow> (case data record of None \<Rightarrow> [] | Some cs \<Rightarrow> cs))"
| "policy_Match (DomainMatcherPolicy matcher cs) domain = (if matcher domain then cs else [])"

section \<open>The resolver\<close>

text \<open>A nil slice is the empty list.\<close>

record Resolver =
  r_ipv6 :: bool
  r_ipv6Timeout :: int
  r_main :: "dnsClient list"
  r_fallback :: "dnsClient list"
  r_fallbackDomainFilters :: "(string \<Rightarrow> bool) list"
  r_fallbackIPFilters :: "(addr \<Rightarrow> bool) list"
  r_cache :: dnsCache
  r_policy :: "dnsPolicy list"

fun ip_filter_loop :: "(addr \<Rightarrow> bool) list \<Rightarrow> addr \<Rightarrow> bool" where
  "ip_filter_loop [] ip = False"
| "ip_filter_loop (f # fs) ip = (if f ip then True else ip_filter_loop fs ip)"

definition shouldIPFallback :: "Resolver \<Rightarrow> addr \<Rightarrow> bool" where
  "shouldIPFallback r ip = ip_filter_loop (r_fallbackIPFilters r) ip"

fun policy_loop :: "dnsPolicy list \<Rightarrow> string \<Rightarrow> dnsClient list" where
  "policy_loop [] domain = []"
| "policy_loop (p # ps) domain = (let cs = policy_Match p domain in if length cs > 0 then cs else policy_loop ps domain)"

definition matchPolicy :: "Resolver \<Rightarrow> Msg \<Rightarrow> dnsClient list" where
  "matchPolicy r m =
     (if r_policy r = [] then []
      else let domain = msgToDomain m in if domain = [] then [] else policy_loop (r_policy r) domain)"

fun domain_filter_loop :: "(string \<Rightarrow> bool) list \<Rightarrow> string \<Rightarrow> bool" where
  "domain_filter_loop [] domain = False"
| "domain_filter_loop (df # dfs) domain = (if df domain then True else domain_filter_loop dfs domain)"

definition shouldOnlyQueryFallback :: "Resolver \<Rightarrow> Msg \<Rightarrow> bool" where
  "shouldOnlyQueryFallback r m =
     (if r_fallback r = [] \<or> length (r_fallbackDomainFilters r) = 0 then False
      else let domain = msgToDomain m in
           if domain = [] then False else domain_filter_loop (r_fallbackDomainFilters r) domain)"

text \<open>\<open>asyncExchange\<close>, whose channel is read at once, drops the word on caching.\<close>

definition asyncExchange :: "res_env \<Rightarrow> dnsClient list \<Rightarrow> Msg \<Rightarrow> (res_error, Msg) result \<times> Msg" where
  "asyncExchange E clients m = (case batchExchange E clients m of (r, _, m') \<Rightarrow> (r, m'))"

definition ipExchange :: "res_env \<Rightarrow> Resolver \<Rightarrow> Msg \<Rightarrow> (res_error, Msg) result \<times> Msg" where
  "ipExchange E r m =
     (let matched = matchPolicy r m in
      if length matched \<noteq> 0 then asyncExchange E matched m
      else if shouldOnlyQueryFallback r m then asyncExchange E (r_fallback r) m
      else
        (case asyncExchange E (r_main r) m of
           (res, m1) \<Rightarrow>
             if r_fallback r = [] then (res, m1)
             else
               (case res of
                  Inr msg \<Rightarrow>
                    let ips = msgToIP msg in
                    if length ips \<noteq> 0 \<and> list_all (\<lambda>ip. \<not> shouldIPFallback r ip) ips then (Inr msg, m1)
                    else asyncExchange E (r_fallback r) m1
                | Inl _ \<Rightarrow> asyncExchange E (r_fallback r) m1)))"

text \<open>
  The function that \<open>exchangeWithoutCache\<close> gives to the single flight, with its deferred write to the
  cache; the result is the answer, the query and the resolver.
\<close>

definition fetch :: "res_env \<Rightarrow> int \<Rightarrow> Resolver \<Rightarrow> Msg \<Rightarrow> ((res_error, Msg) result \<times> Msg \<times> Resolver) option" where
  "fetch E now r m =
     (let q = hd (msg_Question m);
          (res, cacheable, m') =
            (if isIPRequest q then (case ipExchange E r m of (res, m') \<Rightarrow> (res, True, m'))
             else let matched = matchPolicy r m in
                  if length matched \<noteq> 0 then batchExchange E matched m else batchExchange E (r_main r) m)
      in case res of
           Inl e \<Rightarrow> Some (Inl e, m', r)
         | Inr msg \<Rightarrow>
             if cacheable then map_option (\<lambda>c. (Inr msg, m', r\<lparr>r_cache := c\<rparr>)) (putMsgToCache E now (r_cache r) q msg)
             else Some (Inr msg, m', r))"

text \<open>
  \<open>exchangeWithoutCache\<close> for a caller whose context lives until the flight ends: the last component
  says that the query is tried once more in the background.  \<open>retryNum\<close> is 0 in the first run of the
  function, which is below \<open>retryMax\<close>; a flight that is shared is not retried.
\<close>

definition exchangeWithoutCache ::
  "res_env \<Rightarrow> int \<Rightarrow> bool \<Rightarrow> Resolver \<Rightarrow> Msg \<Rightarrow> ((res_error, Msg) result \<times> Msg \<times> Resolver \<times> bool) option" where
  "exchangeWithoutCache E now shared r m =
     map_option (\<lambda>(res, m', r'). (res, m', r', (case res of Inl _ \<Rightarrow> \<not> shared | Inr _ \<Rightarrow> False))) (fetch E now r m)"

fun is_ctx_error :: "res_error \<Rightarrow> bool" where
  "is_ctx_error DeadlineExceeded = True"
| "is_ctx_error Canceled = True"
| "is_ctx_error (AllFailed (Some e)) = is_ctx_error e"
| "is_ctx_error _ = False"

text \<open>
  \<open>ExchangeContext\<close>.  \<open>now\<close> and \<open>now'\<close> are its two readings of the clock; the last component says that the
  query is fetched again in the background.
\<close>

definition ExchangeContext ::
  "res_env \<Rightarrow> int \<Rightarrow> int \<Rightarrow> bool \<Rightarrow> Resolver \<Rightarrow> Msg \<Rightarrow> ((res_error, Msg) result \<times> Msg \<times> Resolver \<times> bool) option" where
  "ExchangeContext E now now' shared r m =
     (case msg_Question m of
        [] \<Rightarrow> Some (Inl (ResErr ''should have one question at least''), m, r, False)
      | q # _ \<Rightarrow>
          Option.bind (getMsgFromCache E (r_cache r) q) (\<lambda>(hit, c).
            let r1 = r\<lparr>r_cache := c\<rparr> in
            case hit of
              Some (msg, expire) \<Rightarrow>
                if expire * 1000000000 < now then Some (Inr (setMsgTTL msg 1), m, r1, True)
                else Some (Inr (updateMsgTTL E msg (re_uint32 E (Duration_Seconds (expire * 1000000000 - now')))), m, r1, False)
            | None \<Rightarrow>
                map_option (\<lambda>(res, m', r2, again).
                    (res, m', r2, again \<or> (case res of Inl e \<Rightarrow> is_ctx_error e | Inr _ \<Rightarrow> False)))
                  (exchangeWithoutCache E now shared r1 m)))"

definition ClearCache :: "Resolver \<Rightarrow> Resolver" where
  "ClearCache r = r\<lparr>r_cache := dc_Clear (r_cache r)\<rparr>"

definition Invalid :: "Resolver option \<Rightarrow> bool" where
  "Invalid ro = (case ro of None \<Rightarrow> False | Some r \<Rightarrow> length (r_main r) > 0)"

text \<open>\<open>lookupIP\<close> and what is built from it; \<open>dnsType\<close> is \<^const>\<open>TypeA\<close> or \<^const>\<open>TypeAAAA\<close>.\<close>

definition lookupIP ::
  "res_env \<Rightarrow> int \<Rightarrow> int \<Rightarrow> bool \<Rightarrow> Resolver \<Rightarrow> string \<Rightarrow> qtype \<Rightarrow> ((res_error, addr list) result \<times> Resolver) option" where
  "lookupIP E now now' shared r host dnsType =
     (case ParseAddr host of
        Some ip0 \<Rightarrow>
          let ip = Unmap ip0; isIPv4 = Is4 ip in
          if dnsType = TypeAAAA \<and> \<not> isIPv4 then Some (Inr [ip], r)
          else if dnsType = TypeA \<and> isIPv4 then Some (Inr [ip], r)
          else Some (Inl ErrIPVersion, r)
      | None \<Rightarrow>
          map_option (\<lambda>(res, _, r', _).
            (case res of
               Inl e \<Rightarrow> (Inl e, r')
             | Inr msg \<Rightarrow> (let ips = msgToIP msg in if length ips = 0 then Inl ErrIPNotFound else Inr ips, r')))
            (ExchangeContext E now now' shared r (re_SetQuestion E host dnsType)))"

definition LookupIPv4 :: "res_env \<Rightarrow> int \<Rightarrow> int \<Rightarrow> bool \<Rightarrow> Resolver \<Rightarrow> string \<Rightarrow> ((res_error, addr list) result \<times> Resolver) option" where
  "LookupIPv4 E now now' shared r host = lookupIP E now now' shared r host TypeA"

definition LookupIPv6 :: "res_env \<Rightarrow> int \<Rightarrow> int \<Rightarrow> bool \<Rightarrow> Resolver \<Rightarrow> string \<Rightarrow> ((res_error, addr list) result \<times> Resolver) option" where
  "LookupIPv6 E now now' shared r host = lookupIP E now now' shared r host TypeAAAA"

text \<open>
  The two lookups run at the same time; here the one for IPv6 comes first.  \<open>timely\<close> says that its result
  was there when the timer of \<open>LookupIP\<close> fired.
\<close>

definition LookupIPPrimaryIPv4 ::
  "res_env \<Rightarrow> int \<Rightarrow> int \<Rightarrow> bool \<Rightarrow> Resolver \<Rightarrow> string \<Rightarrow> ((res_error, addr list) result \<times> Resolver) option" where
  "LookupIPPrimaryIPv4 E now now' shared r host =
     Option.bind (lookupIP E now now' shared r host TypeAAAA) (\<lambda>(v6, r1).
       map_option (\<lambda>(v4, r2).
         (case v4 of
            Inr ips \<Rightarrow> (Inr ips, r2)
          | Inl _ \<Rightarrow> (case v6 of Inl _ \<Rightarrow> (Inl ErrIPNotFound, r2) | Inr ips \<Rightarrow> (Inr ips, r2))))
         (lookupIP E now now' shared r1 host TypeA))"

definition LookupIP ::
  "res_env \<Rightarrow> int \<Rightarrow> int \<Rightarrow> bool \<Rightarrow> bool \<Rightarrow> Resolver \<Rightarrow> string \<Rightarrow> ((res_error, addr list) result \<times> Resolver) option" where
  "LookupIP E now now' shared timely r host =
     Option.bind (lookupIP E now now' shared r host TypeAAAA) (\<lambda>(v6, r1).
       map_option (\<lambda>(v4, r2).
         let ips = (case v4 of Inl _ \<Rightarrow> [] | Inr ips \<Rightarrow> ips) in
         if timely then
           (case v6 of
              Inl _ \<Rightarrow> (case v4 of Inl _ \<Rightarrow> (Inl ErrIPNotFound, r2) | Inr _ \<Rightarrow> (Inr ips, r2))
            | Inr ipv6s \<Rightarrow> (Inr (ips @ ipv6s), r2))
         else (Inr ips, r2))
         (lookupIP E now now' shared r1 host TypeA))"

section \<open>NewResolver\<close>

record dns_Policy =
  dp_Domain :: string
  dp_Matcher :: "(string \<Rightarrow> bool) option"
  dp_NameServers :: "NameServer list"

record dns_Config =
  dc_Main :: "NameServer list"
  dc_Fallback :: "NameServer list"
  dc_Default :: "NameServer list"
  dc_ProxyServer :: "NameServer list"
  dc_DirectServer :: "NameServer list"
  dc_DirectFollowPolicy :: bool
  dc_IPv6 :: bool
  dc_IPv6Timeout :: nat
  dc_FallbackIPFilter :: "(addr \<Rightarrow> bool) list"
  dc_FallbackDomainFilter :: "(string \<Rightarrow> bool) list"
  dc_Policy :: "dns_Policy list"
  dc_ProxyServerPolicy :: "dns_Policy list"
  dc_CacheAlgorithm :: string
  dc_CacheMaxSize :: int

text \<open>\<open>maps.Equal\<close>: as many keys, and the same value under each.\<close>

definition params_equal :: "(string \<times> string) list \<Rightarrow> (string \<times> string) list \<Rightarrow> bool" where
  "params_equal p q = (length p = length q \<and> list_all (\<lambda>(k, v). map_of q k = Some v) p)"

definition NameServer_Equal :: "NameServer \<Rightarrow> NameServer \<Rightarrow> bool" where
  "NameServer_Equal ns ns2 =
     (ns_Net ns = ns_Net ns2 \<and> ns_Addr ns = ns_Addr ns2 \<and> ns_ProxyAdapter ns = ns_ProxyAdapter ns2 \<and>
      ns_ProxyName ns = ns_ProxyName ns2 \<and> params_equal (ns_Params ns) (ns_Params ns2) \<and> ns_PreferH3 ns = ns_PreferH3 ns2)"

text \<open>The variables the closures share: the clients made so far, and the next free identity.\<close>

record ns_state =
  nameServerCache :: "(NameServer \<times> dnsClient) list"
  next_client :: nat

fun cached_client :: "(NameServer \<times> dnsClient) list \<Rightarrow> NameServer \<Rightarrow> dnsClient option" where
  "cached_client [] ns = None"
| "cached_client ((ns', c) # rest) ns = (if NameServer_Equal ns' ns then Some c else cached_client rest ns)"

fun cacheTransform :: "res_env \<Rightarrow> NameServer list \<Rightarrow> ns_state \<Rightarrow> (dnsClient list \<times> ns_state) option" where
  "cacheTransform E [] s = Some ([], s)"
| "cacheTransform E (ns # rest) s =
     (case cached_client (nameServerCache s) ns of
        Some c \<Rightarrow> map_option (\<lambda>(cs, s'). (c # cs, s')) (cacheTransform E rest s)
      | None \<Rightarrow>
          Option.bind (transform E [ns] (next_client s)) (\<lambda>(dc, n).
            case dc of
              [] \<Rightarrow> cacheTransform E rest (s\<lparr>next_client := n\<rparr>)
            | c # _ \<Rightarrow>
                map_option (\<lambda>(cs, s'). (c # cs, s'))
                  (cacheTransform E rest (s\<lparr>nameServerCache := nameServerCache s @ [(ns, c)], next_client := n\<rparr>))))"

text \<open>\<open>insertPolicy\<close> closes the trie that is being filled; the loop fills it or closes it.\<close>

definition insertPolicy ::
  "dnsPolicy option \<Rightarrow> dnsClient list node option \<times> dnsPolicy list \<Rightarrow> dnsClient list node option \<times> dnsPolicy list" where
  "insertPolicy policy st =
     (case st of (triePolicy, ps) \<Rightarrow>
        let ps1 = (case triePolicy of Some t \<Rightarrow> ps @ [DomainTriePolicy (Optimize t)] | None \<Rightarrow> ps) in
        (None, case policy of Some p \<Rightarrow> ps1 @ [p] | None \<Rightarrow> ps1))"

fun policies_loop ::
  "res_env \<Rightarrow> dns_Policy list \<Rightarrow> dnsClient list node option \<times> dnsPolicy list \<Rightarrow> ns_state \<Rightarrow>
     ((dnsClient list node option \<times> dnsPolicy list) \<times> ns_state) option" where
  "policies_loop E [] st s = Some (st, s)"
| "policies_loop E (policy # rest) st s =
     Option.bind (cacheTransform E (dp_NameServers policy) s) (\<lambda>(cs, s').
       case dp_Matcher policy of
         Some matcher \<Rightarrow> policies_loop E rest (insertPolicy (Some (DomainMatcherPolicy matcher cs)) st) s'
       | None \<Rightarrow>
           let t = (case fst st of None \<Rightarrow> New | Some t \<Rightarrow> t);
               t' = (case Insert (dp_Domain policy) cs t of Inl _ \<Rightarrow> t | Inr t' \<Rightarrow> t')
           in policies_loop E rest (Some t', snd st) s')"

definition makePolicy :: "res_env \<Rightarrow> dns_Policy list \<Rightarrow> ns_state \<Rightarrow> (dnsPolicy list \<times> ns_state) option" where
  "makePolicy E policies s =
     map_option (\<lambda>(st, s'). (snd (insertPolicy None st), s')) (policies_loop E policies (None, []) s)"

record Resolvers =
  rs_Resolver :: Resolver
  rs_ProxyResolver :: "Resolver option"
  rs_DirectResolver :: "Resolver option"
  rs_default :: Resolver

definition new_resolver :: "dns_Config \<Rightarrow> bool \<Rightarrow> dnsClient list \<Rightarrow> dnsPolicy list \<Rightarrow> Resolver" where
  "new_resolver cfg ipv6 main policy =
     \<lparr>r_ipv6 = ipv6, r_ipv6Timeout = int (dc_IPv6Timeout cfg) * 1000000, r_main = main, r_fallback = [],
      r_fallbackDomainFilters = [], r_fallbackIPFilters = [],
      r_cache = newCache (dc_CacheAlgorithm cfg) (dc_CacheMaxSize cfg), r_policy = policy\<rparr>"

definition NewResolverFromClient :: "dnsClient \<Rightarrow> Resolver" where
  "NewResolverFromClient client =
     \<lparr>r_ipv6 = True, r_ipv6Timeout = 0, r_main = [client], r_fallback = [], r_fallbackDomainFilters = [],
      r_fallbackIPFilters = [], r_cache = newCache [] 0, r_policy = []\<rparr>"

definition NewResolver :: "res_env \<Rightarrow> dns_Config \<Rightarrow> Resolvers option" where
  "NewResolver E cfg =
     Option.bind (transform E (dc_Default cfg) 0) (\<lambda>(dflt, n).
     Option.bind (cacheTransform E (dc_Main cfg) \<lparr>nameServerCache = [], next_client = n\<rparr>) (\<lambda>(main, s1).
     Option.bind (makePolicy E (dc_Policy cfg) s1) (\<lambda>(policy, s2).
     Option.bind
       (if length (dc_ProxyServer cfg) \<noteq> 0 then
          Option.bind (cacheTransform E (dc_ProxyServer cfg) s2) (\<lambda>(pmain, s3).
            map_option (\<lambda>(ppolicy, s4). (Some (new_resolver cfg (dc_IPv6 cfg) pmain ppolicy), s4))
              (makePolicy E (dc_ProxyServerPolicy cfg) s3))
        else Some (None, s2)) (\<lambda>(proxy, s4).
     Option.bind
       (if length (dc_DirectServer cfg) \<noteq> 0 then
          map_option (\<lambda>(dmain, s5).
              (Some (new_resolver cfg (dc_IPv6 cfg) dmain (if dc_DirectFollowPolicy cfg then policy else [])), s5))
            (cacheTransform E (dc_DirectServer cfg) s4)
        else Some (None, s4)) (\<lambda>(direct, s5).
     let r = new_resolver cfg (dc_IPv6 cfg) main policy in
     map_option
       (\<lambda>r'. \<lparr>rs_Resolver = r', rs_ProxyResolver = proxy, rs_DirectResolver = direct,
              rs_default = new_resolver cfg False dflt []\<rparr>)
       (if length (dc_Fallback cfg) \<noteq> 0 then
          map_option (\<lambda>(fallback, s6).
              r\<lparr>r_fallback := fallback, r_fallbackIPFilters := dc_FallbackIPFilter cfg,
                r_fallbackDomainFilters := dc_FallbackDomainFilter cfg\<rparr>)
            (cacheTransform E (dc_Fallback cfg) s5)
        else Some r))))))"

definition Resolvers_ClearCache :: "Resolvers \<Rightarrow> Resolvers" where
  "Resolvers_ClearCache rs =
     rs\<lparr>rs_Resolver := ClearCache (rs_Resolver rs), rs_ProxyResolver := map_option ClearCache (rs_ProxyResolver rs),
        rs_DirectResolver := map_option ClearCache (rs_DirectResolver rs)\<rparr>"

section \<open>Where answers come from\<close>

definition order_law :: "res_env \<Rightarrow> bool" where
  "order_law E \<longleftrightarrow> (\<forall>n. distinct (re_order E n) \<and> set (re_order E n) = {..<n})"

text \<open>A client may change the query it is given, but puts no answers into an empty one.\<close>

lemma client_exchange_query: "msg_Answer m = [] \<Longrightarrow> msg_Answer (snd (client_exchange E c m)) = []"
proof (induction c arbitrary: m)
  case (WithDisableTypes c ts)
  obtain res m' where c: "client_exchange E c m = (res, m')" by fastforce
  with WithDisableTypes.IH [OF WithDisableTypes.prems] have "msg_Answer m' = []" by simp
  with c WithDisableTypes.prems show ?case by (auto simp: drop_types_def split: sum.splits)
qed (simp_all add: Let_def)

lemma batch_job_query: "msg_Answer m = [] \<Longrightarrow> msg_Answer (snd (batch_job E c m)) = []"
  using client_exchange_query [of m E c] by (auto simp: batch_job_def split: prod.splits sum.splits)

definition answer_of :: "res_env \<Rightarrow> dnsClient list \<Rightarrow> Msg \<Rightarrow> bool" where
  "answer_of E cs msg \<longleftrightarrow> (\<exists>c \<in> set cs. \<exists>m. msg_Answer m = [] \<and> fst (client_exchange E c m) = Inr msg)"

lemma batch_job_answer:
  "batch_job E c m = (Inr msg, m') \<Longrightarrow> fst (client_exchange E c m) = Inr msg \<and> msg_Rcode msg \<notin> {RcodeServerFailure, RcodeRefused}"
  by (auto simp: batch_job_def split: prod.splits sum.splits if_splits)

lemma run_jobs_answer:
  assumes "msg_Answer m = []" "pk_result (fst (run_jobs E cs pk m)) = Some msg"
  shows "pk_result pk = Some msg \<or> answer_of E cs msg"
  using assms
proof (induction E cs pk m rule: run_jobs.induct)
  case (2 E c cs pk m)
  obtain r m' where j: "batch_job E c m = (r, m')" by fastforce
  have q: "msg_Answer m' = []" using batch_job_query [OF 2(2), of E c] j by simp
  have "pk_result (picker_finish r pk) = Some msg \<or> answer_of E cs msg"
    using 2(1) [OF j [symmetric] q] 2(3) j by simp
  then consider "pk_result pk = Some msg" | "r = Inr msg" | "answer_of E cs msg"
    by (auto simp: picker_finish_def split: sum.splits if_splits)
  then show ?case
  proof cases
    case 2
    with batch_job_answer j have "fst (client_exchange E c m) = Inr msg" by metis
    with \<open>msg_Answer m = []\<close> show ?thesis by (auto simp: answer_of_def)
  qed (auto simp: answer_of_def)
qed simp

lemma run_jobs_query: "msg_Answer m = [] \<Longrightarrow> msg_Answer (snd (run_jobs E cs pk m)) = []"
proof (induction E cs pk m rule: run_jobs.induct)
  case (2 E c cs pk m)
  obtain r m' where j: "batch_job E c m = (r, m')" by fastforce
  with 2(1) [OF j [symmetric]] batch_job_query [OF 2(2), of E c] show ?case by simp
qed simp

lemma batch_loop_cases:
  "(case batch_loop cs started of
      Inl c \<Rightarrow> c \<in> set cs \<and> isRCodeClient c
    | Inr all \<Rightarrow> all = started @ cs \<and> list_all (\<lambda>c. \<not> isRCodeClient c) cs)"
  by (induction cs started rule: batch_loop.induct) (auto split: sum.splits)

lemma batchExchange_answer:
  assumes "order_law E" "msg_Answer m = []" "batchExchange E clients m = (res, cacheable, m')"
  shows "msg_Answer m' = []" "res = Inr msg \<Longrightarrow> answer_of E clients msg"
proof -
  have "msg_Answer m' = [] \<and> (res = Inr msg \<longrightarrow> answer_of E clients msg)"
  proof (cases "batch_loop clients []")
    case (Inl c)
    with batch_loop_cases [of clients "[]"] have "c \<in> set clients" by simp
    moreover from assms(3) Inl have "client_exchange E c m = (res, m')" by (auto simp: batchExchange_def split: prod.splits)
    ultimately show ?thesis
      using assms(2) client_exchange_query [OF assms(2), of E c] unfolding answer_of_def by force
  next
    case (Inr started)
    let ?cs = "map (\<lambda>i. started ! i) (re_order E (length started))"
    obtain pk m1 where run: "run_jobs E ?cs newPicker m = (pk, m1)" by fastforce
    have "started = clients" using batch_loop_cases [of clients "[]"] Inr by simp
    moreover have "set ?cs = set started"
      using assms(1) by (simp add: order_law_def lessThan_atLeast0 nth_image)
    ultimately have set: "set ?cs = set clients" by simp
    have m1: "m' = m1" "res = Inr msg \<Longrightarrow> pk_result pk = Some msg"
      using assms(3) Inr run by (auto simp: batchExchange_def picker_Wait_def split: option.splits)
    have "msg_Answer m1 = []" using run_jobs_query [OF assms(2), of E ?cs newPicker] run by simp
    moreover have "answer_of E ?cs msg" if "pk_result pk = Some msg"
      using run_jobs_answer [OF assms(2), of E ?cs newPicker msg] that run by (simp add: newPicker_def)
    ultimately show ?thesis using m1 set by (auto simp: answer_of_def)
  qed
  then show "msg_Answer m' = []" "res = Inr msg \<Longrightarrow> answer_of E clients msg" by blast+
qed

lemma asyncExchange_answer:
  assumes "order_law E" "msg_Answer m = []" "asyncExchange E clients m = (res, m')"
  shows "msg_Answer m' = []" "res = Inr msg \<Longrightarrow> answer_of E clients msg"
proof -
  from assms(3) obtain b where "batchExchange E clients m = (res, b, m')"
    by (auto simp: asyncExchange_def split: prod.splits)
  from batchExchange_answer [OF assms(1,2) this] show "msg_Answer m' = []" "res = Inr msg \<Longrightarrow> answer_of E clients msg"
    by auto
qed

section \<open>Poisoned answers\<close>

text \<open>
  An answer is poisoned when one of its addresses is caught by the filters.  A client is trusted when
  it never gives such an answer; the fallback servers, and the servers a policy names, are to be
  trusted, the main ones need not be.
\<close>

definition poisoned :: "Resolver \<Rightarrow> Msg \<Rightarrow> bool" where
  "poisoned r m \<longleftrightarrow> (\<exists>ip \<in> set (msgToIP m). shouldIPFallback r ip)"

definition trusted :: "res_env \<Rightarrow> Resolver \<Rightarrow> dnsClient \<Rightarrow> bool" where
  "trusted E r c \<longleftrightarrow> (\<forall>m msg. msg_Answer m = [] \<longrightarrow> fst (client_exchange E c m) = Inr msg \<longrightarrow> \<not> poisoned r msg)"

definition vetted :: "res_env \<Rightarrow> Resolver \<Rightarrow> bool" where
  "vetted E r \<longleftrightarrow>
     (\<forall>c \<in> set (r_fallback r). trusted E r c) \<and>
     (\<forall>p \<in> set (r_policy r). \<forall>d. \<forall>c \<in> set (policy_Match p d). trusted E r c)"

lemma answer_of_trusted: "answer_of E cs msg \<Longrightarrow> \<forall>c \<in> set cs. trusted E r c \<Longrightarrow> \<not> poisoned r msg"
  by (auto simp: answer_of_def trusted_def)

lemma policy_loop_from: "policy_loop ps d \<noteq> [] \<Longrightarrow> \<exists>p \<in> set ps. policy_loop ps d = policy_Match p d"
  by (induction ps d rule: policy_loop.induct) (auto simp: Let_def split: if_splits)

lemma matchPolicy_vetted:
  assumes "vetted E r" "c \<in> set (matchPolicy r m)"
  shows "trusted E r c"
proof -
  from assms(2) have "c \<in> set (policy_loop (r_policy r) (msgToDomain m))"
    by (auto simp: matchPolicy_def Let_def split: if_splits)
  moreover from this policy_loop_from [of "r_policy r"] obtain p where
    "p \<in> set (r_policy r)" "policy_loop (r_policy r) (msgToDomain m) = policy_Match p (msgToDomain m)"
    by (metis empty_iff list.set(1))
  ultimately show ?thesis using assms(1) by (auto simp: vetted_def)
qed

text \<open>With a fallback server there is a second opinion on every answer the filters object to.\<close>

lemma ipExchange_clean:
  assumes "order_law E" "vetted E r" "r_fallback r \<noteq> []" "msg_Answer m = []" "ipExchange E r m = (Inr msg, m')"
  shows "\<not> poisoned r msg"
proof -
  note A = asyncExchange_answer [OF assms(1)]
  have fb: "\<not> poisoned r msg" if "asyncExchange E (r_fallback r) m0 = (Inr msg, m')" "msg_Answer m0 = []" for m0
    using A(2) [OF that(2,1) refl] assms(2) unfolding vetted_def by (meson answer_of_trusted)
  obtain res m1 where main: "asyncExchange E (r_main r) m = (res, m1)" by fastforce
  have m1: "msg_Answer m1 = []" by (rule A(1) [OF assms(4) main])
  consider "matchPolicy r m \<noteq> []" | "matchPolicy r m = []" "shouldOnlyQueryFallback r m"
    | "matchPolicy r m = []" "\<not> shouldOnlyQueryFallback r m" by blast
  then show ?thesis
  proof cases
    case 1
    then have "asyncExchange E (matchPolicy r m) m = (Inr msg, m')" using assms(5) by (simp add: ipExchange_def Let_def)
    from A(2) [OF assms(4) this refl] show ?thesis using matchPolicy_vetted [OF assms(2)] by (meson answer_of_trusted)
  next
    case 2
    then show ?thesis using fb assms(4,5) by (simp add: ipExchange_def Let_def)
  next
    case 3
    then show ?thesis
      using assms(3,5) main fb [OF _ m1]
      by (auto simp: ipExchange_def Let_def poisoned_def list_all_iff split: sum.splits if_splits)
  qed
qed

section \<open>A resolver at work\<close>

text \<open>
  The states a resolver goes through: queries, fetches in the background, and the cache being
  cleared.  Each step has an environment of its own, since servers change their answers.
\<close>

inductive resolver_run :: "res_env set \<Rightarrow> Resolver \<Rightarrow> Resolver \<Rightarrow> bool" for Es r0 where
  start: "resolver_run Es r0 r0"
| query: "resolver_run Es r0 r \<Longrightarrow> E \<in> Es \<Longrightarrow> msg_Answer m = [] \<Longrightarrow>
    ExchangeContext E now now' shared r m = Some (res, m', r', again) \<Longrightarrow> resolver_run Es r0 r'"
| background: "resolver_run Es r0 r \<Longrightarrow> E \<in> Es \<Longrightarrow> msg_Answer m = [] \<Longrightarrow> msg_Question m \<noteq> [] \<Longrightarrow>
    fetch E now r m = Some (res, m', r') \<Longrightarrow> resolver_run Es r0 r'"
| clear: "resolver_run Es r0 r \<Longrightarrow> resolver_run Es r0 (ClearCache r)"

text \<open>The text of a question, the key of the cache, shows its type and its class.\<close>

definition qstring_law :: "res_env set \<Rightarrow> bool" where
  "qstring_law Es \<longleftrightarrow>
     (\<forall>E \<in> Es. \<forall>E' \<in> Es. \<forall>q q'. re_qstring E q = re_qstring E' q' \<longrightarrow> isIPRequest q = isIPRequest q')"

definition clean_entry :: "res_env set \<Rightarrow> Resolver \<Rightarrow> string \<Rightarrow> Msg \<Rightarrow> bool" where
  "clean_entry Es r k msg \<longleftrightarrow> (\<forall>E \<in> Es. \<forall>q. re_qstring E q = k \<longrightarrow> isIPRequest q \<longrightarrow> \<not> poisoned r msg)"

definition clean_cache :: "res_env set \<Rightarrow> Resolver \<Rightarrow> dnsCache \<Rightarrow> bool" where
  "clean_cache Es r c \<longleftrightarrow> dc_ok c \<and> (\<forall>k msg x. dc_view c k = Some (msg, x) \<longrightarrow> clean_entry Es r k msg)"

lemma msgToIP_set_ttl: "msgToIP_loop (map (\<lambda>r. set_ttl (f r) r) rs) = msgToIP_loop rs"
proof (induction rs)
  case (Cons r rs)
  then show ?case by (cases r) (simp_all add: Let_def)
qed simp

lemma poisoned_ttl:
  "poisoned r (setMsgTTL m t) = poisoned r m" "poisoned r (updateMsgTTL E m t) = poisoned r m"
  "poisoned r (m\<lparr>msg_Extra := e\<rparr>) = poisoned r m"
  by (simp_all add: poisoned_def msgToIP_def setMsgTTL_def updateMsgTTL_def updateTTL_def Let_def
      msgToIP_set_ttl msgToIP_set_ttl [of "\<lambda>_. t"])

lemma poisoned_cache [simp]: "poisoned (r\<lparr>r_cache := c\<rparr>) = poisoned r"
  by (simp add: poisoned_def shouldIPFallback_def fun_eq_iff)

lemma vetted_cache [simp]: "vetted E (r\<lparr>r_cache := c\<rparr>) = vetted E r"
  by (simp add: vetted_def trusted_def)

lemma getMsgFromCache_clean:
  assumes "clean_cache Es r c"
  shows "\<exists>c'. getMsgFromCache E c q = Some (dc_view c (re_qstring E q), c') \<and> clean_cache Es r c'"
proof -
  obtain c' where "dc_GetWithExpire (re_clock E) (re_qstring E q) c = Some (dc_view c (re_qstring E q), c')" "dc_ok c'"
    "\<And>k v x. dc_view c' k = Some (v, x) \<Longrightarrow> clean_entry Es r k v"
    using assms by (elim dns_cache.get_keeps [of c "clean_entry Es r" "re_clock E" "re_qstring E q", rotated 2])
      (auto simp: clean_cache_def)
  then show ?thesis by (auto simp: getMsgFromCache_def clean_cache_def)
qed

lemma putMsgToCache_clean:
  assumes "clean_cache Es r c" "qstring_law Es" "E \<in> Es" "isIPRequest q \<Longrightarrow> \<not> poisoned r msg"
  shows "\<exists>c'. putMsgToCache E now c q msg = Some c' \<and> clean_cache Es r c'"
proof -
  let ?m = "msg\<lparr>msg_Extra := filter (\<lambda>rr. rr_type rr \<noteq> OtherType 41) (msg_Extra msg)\<rparr>"
  have "clean_entry Es r (re_qstring E q) ?m"
    using assms(2-4) unfolding clean_entry_def qstring_law_def poisoned_ttl by blast
  then have "\<exists>c'. dc_SetWithExpire (re_clock E) (re_qstring E q) ?m x c = Some c' \<and> clean_cache Es r c'" for x
    using assms(1) dns_cache.put_keeps [of c "clean_entry Es r" "re_qstring E q" ?m "re_clock E" x]
    by (metis clean_cache_def)
  then show ?thesis using assms(1) by (auto simp: putMsgToCache_def Let_def)
qed

lemma fetch_clean:
  assumes "clean_cache Es r (r_cache r)" "qstring_law Es" "E \<in> Es" "order_law E" "vetted E r" "r_fallback r \<noteq> []"
    "msg_Answer m = []"
  shows "\<exists>res m' c. fetch E now r m = Some (res, m', r\<lparr>r_cache := c\<rparr>) \<and> clean_cache Es r c \<and>
    (\<forall>msg. isIPRequest (hd (msg_Question m)) \<longrightarrow> res = Inr msg \<longrightarrow> \<not> poisoned r msg)"
proof -
  let ?q = "hd (msg_Question m)"
  define t where "t = (if isIPRequest ?q then (case ipExchange E r m of (res, m') \<Rightarrow> (res, True, m'))
     else let matched = matchPolicy r m in
          if length matched \<noteq> 0 then batchExchange E matched m else batchExchange E (r_main r) m)"
  obtain res b m' where t: "t = (res, b, m')" by (cases t) auto
  have ip: "\<not> poisoned r msg" if "isIPRequest ?q" "res = Inr msg" for msg
  proof -
    have "ipExchange E r m = (Inr msg, m')" using t that by (auto simp: t_def split: prod.splits)
    then show ?thesis by (rule ipExchange_clean [OF assms(4-7)])
  qed
  have f: "fetch E now r m = (case res of
       Inl e \<Rightarrow> Some (Inl e, m', r)
     | Inr msg \<Rightarrow> if b then map_option (\<lambda>c. (Inr msg, m', r\<lparr>r_cache := c\<rparr>)) (putMsgToCache E now (r_cache r) ?q msg)
                 else Some (Inr msg, m', r))"
    unfolding fetch_def Let_def t_def [unfolded Let_def, symmetric] t by simp
  show ?thesis
  proof (cases res)
    case (Inl e)
    then show ?thesis using f assms(1) by (intro exI [of _ res] exI [of _ m'] exI [of _ "r_cache r"]) simp
  next
    case (Inr msg)
    show ?thesis
    proof (cases b)
      case True
      obtain c where "putMsgToCache E now (r_cache r) ?q msg = Some c" "clean_cache Es r c"
        using putMsgToCache_clean [OF assms(1-3)] ip Inr by metis
      then show ?thesis using f Inr True ip by auto
    next
      case False
      then show ?thesis using f Inr ip assms(1) by (intro exI [of _ res] exI [of _ m'] exI [of _ "r_cache r"]) simp
    qed
  qed
qed

lemma ExchangeContext_clean:
  assumes "clean_cache Es r (r_cache r)" "qstring_law Es" "E \<in> Es" "order_law E" "vetted E r" "r_fallback r \<noteq> []"
    "msg_Answer m = []"
  shows "\<exists>res m' c again. ExchangeContext E now now' shared r m = Some (res, m', r\<lparr>r_cache := c\<rparr>, again) \<and>
    clean_cache Es r c \<and>
    (\<forall>q qs msg. msg_Question m = q # qs \<longrightarrow> isIPRequest q \<longrightarrow> res = Inr msg \<longrightarrow> \<not> poisoned r msg)"
proof (cases "msg_Question m")
  case Nil
  then show ?thesis using assms(1) unfolding ExchangeContext_def by (intro exI [of _ m] exI [of _ "r_cache r"] exI) auto
next
  case (Cons q qs)
  obtain c where c: "getMsgFromCache E (r_cache r) q = Some (dc_view (r_cache r) (re_qstring E q), c)" "clean_cache Es r c"
    using getMsgFromCache_clean [OF assms(1)] by blast
  show ?thesis
  proof (cases "dc_view (r_cache r) (re_qstring E q)")
    case None
    let ?r = "r\<lparr>r_cache := c\<rparr>"
    have "clean_cache Es ?r (r_cache ?r)" using c(2) by (simp add: clean_cache_def clean_entry_def)
    from fetch_clean [OF this assms(2-4) _ _ assms(7), of now] assms(5,6)
    obtain res m' c' where f: "fetch E now ?r m = Some (res, m', r\<lparr>r_cache := c'\<rparr>)" "clean_cache Es r c'"
      "\<And>msg. isIPRequest q \<Longrightarrow> res = Inr msg \<Longrightarrow> \<not> poisoned r msg"
      by (auto simp: Cons clean_cache_def clean_entry_def)
    then show ?thesis using c(1) None Cons by (auto simp: ExchangeContext_def exchangeWithoutCache_def Let_def)
  next
    case (Some hit)
    obtain msg x where hit: "hit = (msg, x)" by fastforce
    have "isIPRequest q \<Longrightarrow> \<not> poisoned r msg"
      using assms(1,3) Some hit by (auto simp: clean_cache_def clean_entry_def)
    then show ?thesis using c Some hit Cons by (auto simp: ExchangeContext_def Let_def poisoned_ttl)
  qed
qed

lemma resolver_run_clean:
  assumes "resolver_run Es r0 r" "clean_cache Es r0 (r_cache r0)" "qstring_law Es"
    "\<And>E. E \<in> Es \<Longrightarrow> order_law E \<and> vetted E r0" "r_fallback r0 \<noteq> []"
  shows "\<exists>c. r = r0\<lparr>r_cache := c\<rparr> \<and> clean_cache Es r0 c"
  using assms(1)
proof induction
  case start
  then show ?case using assms(2) by (intro exI [of _ "r_cache r0"]) simp
next
  case (query r E m now now' shared res m' r' again)
  then obtain c where c: "r = r0\<lparr>r_cache := c\<rparr>" "clean_cache Es r0 c" by blast
  then have "clean_cache Es r (r_cache r)" by (simp add: clean_cache_def clean_entry_def)
  from ExchangeContext_clean [OF this assms(3) query(2) _ _ _ query(3), of now now' shared] query(2,4) assms(4,5) c
  show ?case by (auto simp: clean_cache_def clean_entry_def)
next
  case (background r E m now res m' r')
  then obtain c where c: "r = r0\<lparr>r_cache := c\<rparr>" "clean_cache Es r0 c" by blast
  then have "clean_cache Es r (r_cache r)" by (simp add: clean_cache_def clean_entry_def)
  from fetch_clean [OF this assms(3) background(2) _ _ _ background(3), of now] background(2,5) assms(4,5) c
  show ?case by (auto simp: clean_cache_def clean_entry_def)
next
  case (clear r)
  then obtain c where c: "r = r0\<lparr>r_cache := c\<rparr>" "clean_cache Es r0 c" by blast
  then show ?case using dns_cache.clear_law [of c] by (auto simp: ClearCache_def clean_cache_def)
qed

section \<open>What NewResolver makes\<close>

lemma transform_one: "transform E [ns] n = Some (dc, n') \<Longrightarrow> \<exists>c. dc = [c] \<and> n' = Suc n"
  by (auto simp: Let_def bind_eq_Some_conv)

lemma cacheTransform_length: "cacheTransform E nss s = Some (cs, s') \<Longrightarrow> length cs = length nss"
proof (induction E nss s arbitrary: cs rule: cacheTransform.induct)
  case (2 E ns rest s)
  show ?case
  proof (cases "cached_client (nameServerCache s) ns")
    case (Some c)
    with 2(3) [OF Some] 2(4) show ?thesis by auto
  next
    case None
    with 2(4) obtain dc n where t: "transform E [ns] (next_client s) = Some (dc, n)" by (auto simp: bind_eq_Some_conv simp del: transform.simps)
    from transform_one [OF this] obtain c where "dc = [c]" by blast
    with t None 2(2) [OF None t refl] 2(4) show ?thesis by (auto simp del: transform.simps)
  qed
qed simp

text \<open>
  The clients handed out for a list of servers are the ones the final cache has for them, so that a
  server that is named again, for another resolver or a policy, is served by the same client.
\<close>

lemma cached_client_append:
  "cached_client (xs @ ys) ns = (case cached_client xs ns of Some c \<Rightarrow> Some c | None \<Rightarrow> cached_client ys ns)"
  by (induction xs ns rule: cached_client.induct) auto

lemma NameServer_Equal_refl: "distinct (map fst (ns_Params ns)) \<Longrightarrow> NameServer_Equal ns ns"
  by (auto simp: NameServer_Equal_def params_equal_def list_all_iff)

lemma cacheTransform_shares:
  assumes "cacheTransform E nss s = Some (cs, s')" "\<forall>ns \<in> set nss. distinct (map fst (ns_Params ns))"
  shows "(\<forall>ns c. cached_client (nameServerCache s) ns = Some c \<longrightarrow> cached_client (nameServerCache s') ns = Some c) \<and>
    list_all2 (\<lambda>ns c. cached_client (nameServerCache s') ns = Some c) nss cs"
  using assms
proof (induction E nss s arbitrary: cs rule: cacheTransform.induct)
  case (2 E ns rest s)
  show ?case
  proof (cases "cached_client (nameServerCache s) ns")
    case (Some c)
    with 2(4) obtain cs1 where "cs = c # cs1" "cacheTransform E rest s = Some (cs1, s')" by auto
    with 2(3) [OF Some, of cs1] 2(5) Some show ?thesis by auto
  next
    case None
    with 2(4) obtain dc n where t: "transform E [ns] (next_client s) = Some (dc, n)" by (auto simp: bind_eq_Some_conv simp del: transform.simps)
    from transform_one [OF this] obtain c where dc: "dc = [c]" by blast
    let ?s = "s\<lparr>nameServerCache := nameServerCache s @ [(ns, c)], next_client := n\<rparr>"
    from t None 2(4) dc obtain cs1 where "cs = c # cs1" "cacheTransform E rest ?s = Some (cs1, s')"
      by (auto simp del: transform.simps)
    moreover have "cached_client (nameServerCache ?s) ns = Some c"
      using None NameServer_Equal_refl 2(5) by (simp add: cached_client_append)
    moreover have "cached_client (nameServerCache ?s) ns' = Some c'" if "cached_client (nameServerCache s) ns' = Some c'" for ns' c'
      using that by (simp add: cached_client_append)
    ultimately show ?thesis using 2(2) [OF None t refl, of c "[]" cs1] dc 2(5) by auto
  qed
qed simp

lemma NewResolver_fallback:
  assumes "NewResolver E cfg = Some rs" "dc_Fallback cfg \<noteq> []"
  shows "r_fallback (rs_Resolver rs) \<noteq> []" "r_fallbackIPFilters (rs_Resolver rs) = dc_FallbackIPFilter cfg"
    "r_cache (rs_Resolver rs) = newCache (dc_CacheAlgorithm cfg) (dc_CacheMaxSize cfg)"
  using assms by (auto simp: NewResolver_def bind_eq_Some_conv Let_def new_resolver_def dest!: cacheTransform_length)

lemma ip_filter_loop_iff: "ip_filter_loop fs ip \<longleftrightarrow> list_ex (\<lambda>f. f ip) fs"
  by (induction fs) auto

section \<open>Time to live of a cached answer\<close>

text \<open>The documented behaviour of \<open>lo.MinBy\<close>, \<open>lo.Clamp\<close> and of the conversion of a float in range.\<close>

definition lo_law :: "res_env \<Rightarrow> bool" where
  "lo_law E \<longleftrightarrow>
     (\<forall>rs. rs \<noteq> [] \<longrightarrow> (\<exists>r \<in> set rs. re_MinBy E rs (\<lambda>r1 r2. rr_Ttl r1 < rr_Ttl r2) = Some r \<and>
        (\<forall>r' \<in> set rs. rr_Ttl r \<le> rr_Ttl r'))) \<and>
     (\<forall>v lower upper. re_Clamp E v lower upper = (if v < lower then lower else if v > upper then upper else v))"

definition uint32_law :: "res_env \<Rightarrow> bool" where
  "uint32_law E \<longleftrightarrow> (\<forall>x. 0 \<le> x \<longrightarrow> x < 2 ^ 32 \<longrightarrow> re_uint32 E x = word_of_int \<lfloor>x\<rfloor>)"

lemma rr_Ttl_set_ttl [simp]: "rr_Ttl (set_ttl t r) = t"
  by (cases r) auto

definition ttl_lowered :: "32 word \<Rightarrow> RR list \<Rightarrow> RR list \<Rightarrow> bool" where
  "ttl_lowered ttl rs rs' \<longleftrightarrow>
     list_all2 (\<lambda>old new. \<exists>t \<le> max 1 (rr_Ttl old). new = set_ttl t old) rs rs' \<and> (rs \<noteq> [] \<longrightarrow> (\<exists>r \<in> set rs'. rr_Ttl r \<le> max 1 ttl))"

lemma updateTTL_lowers:
  assumes "lo_law E"
  shows "ttl_lowered ttl rs (updateTTL E rs ttl)"
proof (cases "rs = []")
  case False
  let ?new = "\<lambda>r. re_Clamp E (rr_Ttl r - (minimalTTL E rs - ttl)) 1 (rr_Ttl r)"
  have clamp: "re_Clamp E v lower upper = (if v < lower then lower else if v > upper then upper else v)" for v lower upper
    using assms by (simp add: lo_law_def)
  have u: "updateTTL E rs ttl = map (\<lambda>r. set_ttl (?new r) r) rs" using False by (simp add: updateTTL_def Let_def)
  from assms False obtain r where r: "r \<in> set rs" "re_MinBy E rs (\<lambda>r1 r2. rr_Ttl r1 < rr_Ttl r2) = Some r"
    unfolding lo_law_def by blast
  then have "?new r = re_Clamp E ttl 1 (rr_Ttl r)" by (simp add: minimalTTL_def)
  then have "?new r \<le> max 1 ttl" by (auto simp: clamp le_max_iff_disj)
  with r(1) have "\<exists>a \<in> set (updateTTL E rs ttl). rr_Ttl a \<le> max 1 ttl" unfolding u by force
  moreover have "?new r \<le> max 1 (rr_Ttl r)" for r by (auto simp: clamp le_max_iff_disj)
  then have "list_all2 (\<lambda>old new. \<exists>t \<le> max 1 (rr_Ttl old). new = set_ttl t old) rs (updateTTL E rs ttl)"
    unfolding u list_all2_map2 by (intro list.rel_refl) blast
  ultimately show ?thesis by (simp add: ttl_lowered_def)
qed (simp add: ttl_lowered_def updateTTL_def)

lemma remaining_seconds:
  assumes "uint32_law E" "0 \<le> d" "d \<le> (2 ^ 32 - 1) * 1000000000"
  shows "uint (re_uint32 E (Duration_Seconds d)) = 0 \<or> (uint (re_uint32 E (Duration_Seconds d)) - 1) * 1000000000 < d"
proof -
  define n where "n = nat ((d + 999999999) div 1000000000)"
  have n: "int n = (d + 999999999) div 1000000000" using assms(2) by (simp add: n_def)
  have le: "d \<le> int n * 1000000000" and gt: "n = 0 \<or> (int n - 1) * 1000000000 < d" and small: "int n \<le> 2 ^ 32 - 1"
    using assms(3) unfolding n by auto
  then have "n < 2 ^ 53" by simp
  note B = Duration_Seconds_bounds [OF assms(2) _ this]
  let ?x = "Duration_Seconds d"
  have x: "0 \<le> ?x" "?x \<le> of_nat n" using B le by simp_all
  then have fl: "0 \<le> \<lfloor>?x\<rfloor>" "\<lfloor>?x\<rfloor> \<le> int n" by (simp_all add: floor_le_iff le_floor_iff)
  have "?x < 2 ^ 32" using x(2) small by (metis le_less_trans linorder_not_le of_int_of_nat_eq of_int_less_iff of_int_numeral of_int_power zle_diff1_eq)
  with assms(1) x(1) have "re_uint32 E ?x = word_of_int \<lfloor>?x\<rfloor>" by (simp add: uint32_law_def)
  moreover have "\<lfloor>?x\<rfloor> < 2 ^ 32" using fl(2) small by linarith
  ultimately have u: "uint (re_uint32 E ?x) = \<lfloor>?x\<rfloor>" using fl(1) by (simp add: uint_word_of_int)
  from gt show ?thesis
  proof
    assume "n = 0"
    with fl have "\<lfloor>?x\<rfloor> = 0" by linarith
    then show ?thesis unfolding u by blast
  next
    assume "(int n - 1) * 1000000000 < d"
    moreover have "(\<lfloor>?x\<rfloor> - 1) * 1000000000 \<le> (int n - 1) * 1000000000" using fl(2) by (intro mult_right_mono) simp_all
    ultimately show ?thesis unfolding u by (meson le_less_trans)
  qed
qed

section \<open>Behaviour to know of\<close>

text \<open>
  A rcode client in front of fallback servers: it answers by changing the query, so the fallback
  servers are sent a message that is marked as a response and carries its code.
\<close>

lemma rcode_query_to_fallback:
  assumes "r_main r = [RCodeClient rcode a]" "r_fallback r = [Upstream i k ns]" "matchPolicy r m = []"
    "\<not> shouldOnlyQueryFallback r m" "msg_Answer m = []"
  shows "ipExchange E r m =
    asyncExchange E [Upstream i k ns] (m\<lparr>msg_Response := True, msg_Rcode := rcode\<rparr>)"
  using assms by (simp add: ipExchange_def asyncExchange_def batchExchange_def msgToIP_def Let_def)

text \<open>
  The answer of a rcode client is not to be cached, and \<open>batchExchange\<close> says so; for a query for
  addresses \<open>asyncExchange\<close> loses that word, and the failure is kept for five seconds.
\<close>

lemma rcode_failure_cached:
  assumes "r_main r = [RCodeClient RcodeServerFailure a]" "r_fallback r = []" "r_policy r = []"
    "msg_Question m = [q]" "isIPRequest q" "r_cache r = CacheLRU c" "lru_ok c"
  shows "fst (snd (batchExchange E (r_main r) m)) = False"
    "\<exists>res m' r'. fetch E now r m = Some (res, m', r') \<and>
       map_option snd (dc_view (r_cache r') (re_qstring E q)) = Some ((now + 5000000000) div 1000000000)"
proof -
  have q: "q_Qtype q \<noteq> OtherType 16" using assms(5) by (auto simp: isIPRequest_def)
  show "fst (snd (batchExchange E (r_main r) m)) = False" using assms(1) by (simp add: batchExchange_def Let_def)
  show "\<exists>res m' r'. fetch E now r m = Some (res, m', r') \<and>
       map_option snd (dc_view (r_cache r') (re_qstring E q)) = Some ((now + 5000000000) div 1000000000)"
    using assms q lru_put_law(2) [OF assms(7)]
    by (simp add: fetch_def ipExchange_def matchPolicy_def shouldOnlyQueryFallback_def asyncExchange_def batchExchange_def
        putMsgToCache_def serverFailureCacheTTL_def Let_def)
qed

text \<open>The comment says a common delta; each section has its own, and the sections end up with the same least value.\<close>

lemma updateMsgTTL_per_section:
  assumes "lo_law E" "1 \<le> ttl" "ttl \<le> rr_Ttl a" "ttl \<le> rr_Ttl b"
  shows "map rr_Ttl (updateTTL E [a] ttl) = [ttl]" "map rr_Ttl (updateTTL E [b] ttl) = [ttl]"
proof -
  have "re_MinBy E [x] (\<lambda>r1 r2. rr_Ttl r1 < rr_Ttl r2) = Some x" for x
    using assms(1) unfolding lo_law_def by (metis empty_iff empty_set insert_iff list.discI list.simps(15))
  moreover have "re_Clamp E v lower upper = (if v < lower then lower else if v > upper then upper else v)" for v lower upper
    using assms(1) by (simp add: lo_law_def)
  ultimately show "map rr_Ttl (updateTTL E [a] ttl) = [ttl]" "map rr_Ttl (updateTTL E [b] ttl) = [ttl]"
    using assms(2-4) by (auto simp: updateTTL_def minimalTTL_def Let_def)
qed

text \<open>\<open>LookupIP\<close> returns no addresses and no error when the IPv4 lookup fails and the timer fires first.\<close>

lemma LookupIP_loses_error:
  assumes "lookupIP E now now' shared r host TypeAAAA = Some (v6, r1)" "lookupIP E now now' shared r1 host TypeA = Some (Inl e, r2)"
  shows "LookupIP E now now' shared False r host = Some (Inr [], r2)"
  using assms by (simp add: LookupIP_def)

text \<open>
  A query whose OPT record is not the last of the additional records gets a second one, because the
  search forgets the record when it looks at the next.
\<close>

lemma setEdns0Subnet_second_opt:
  assumes "msg_Extra m = [RR_OPT n t [], RR_Other n' t' ty]"
  shows "length (filter is_opt (msg_Extra (snd (setEdns0Subnet m p override)))) = 2"
  using assms by (simp add: setEdns0Subnet_def Let_def)

section \<open>An example\<close>

definition example_NS :: "string \<Rightarrow> NameServer" where
  "example_NS a = \<lparr>ns_Net = [], ns_Addr = a, ns_ProxyAdapter = None, ns_ProxyName = [], ns_Params = [], ns_PreferH3 = False\<rparr>"

definition example_reply :: "8 word list \<Rightarrow> Msg" where
  "example_reply bs = zeroMsg\<lparr>msg_Answer := [RR_A ''a.'' 300 bs]\<rparr>"

text \<open>The server \<open>liar\<close> answers every query with a loopback address.\<close>

definition example_res :: res_env where
  "example_res =
     \<lparr>re_dns = \<lparr>de_ops = undefined, de_sys = undefined, de_hosts = New, de_clock = (\<lambda>_. 0), de_now = 0,
        de_SetRcode = (\<lambda>m r c. m), de_exchange = (\<lambda>m. Inr m), de_fuel = 0, de_rules = undefined\<rparr>,
      re_MinBy = (\<lambda>rs lt. case rs of [] \<Rightarrow> None | r # rs' \<Rightarrow> Some (fold (\<lambda>x b. if rr_Ttl x < rr_Ttl b then x else b) rs' r)),
      re_Clamp = (\<lambda>v lower upper. if v < lower then lower else if v > upper then upper else v),
      re_uint32 = (\<lambda>x. word_of_int \<lfloor>x\<rfloor>),
      re_qstring = (\<lambda>q. (if isIPRequest q then CHR ''i'' else CHR ''o'') # q_Name q),
      re_RcodeToString = (\<lambda>_. ''failure''), re_TypeToRR = (\<lambda>_. True),
      re_SetQuestion = (\<lambda>h t. zeroMsg\<lparr>msg_Question := [\<lparr>q_Name = h, q_Qtype = t, q_INET = True\<rparr>]\<rparr>),
      re_ask = (\<lambda>i k ns m. Inr (example_reply (if ns_Addr ns = ''liar'' then [127, 0, 0, 1] else [1, 2, 3, 4]))),
      re_order = (\<lambda>n. [0..<n]), re_clock = (\<lambda>_. 0)\<rparr>"

definition example_dns_config :: dns_Config where
  "example_dns_config =
     \<lparr>dc_Main = [example_NS ''liar''], dc_Fallback = [example_NS ''honest''], dc_Default = [], dc_ProxyServer = [],
      dc_DirectServer = [], dc_DirectFollowPolicy = False, dc_IPv6 = True, dc_IPv6Timeout = 100,
      dc_FallbackIPFilter = [IsLoopback], dc_FallbackDomainFilter = [], dc_Policy = [], dc_ProxyServerPolicy = [],
      dc_CacheAlgorithm = ''arc'', dc_CacheMaxSize = 0\<rparr>"

definition example_resolver :: Resolver where
  "example_resolver =
     (new_resolver example_dns_config True [Upstream 0 PlainClient (example_NS ''liar'')] [])
       \<lparr>r_fallback := [Upstream 1 PlainClient (example_NS ''honest'')], r_fallbackIPFilters := [IsLoopback]\<rparr>"

lemma example_wrap: "warpClientWithDisableTypes E (warpClientWithEdns0Subnet c []) [] = c"
  by (simp add: warpClientWithDisableTypes_def warpClientWithEdns0Subnet_def params_get_def map_filter_def)

lemma example_NewResolver:
  "\<exists>rs. NewResolver example_res example_dns_config = Some rs \<and> rs_Resolver rs = example_resolver"
  by (simp add: NewResolver_def example_dns_config_def example_NS_def example_resolver_def new_resolver_def makePolicy_def
      insertPolicy_def NameServer_Equal_def client_kind_of_def example_wrap Let_def)

lemma example_laws: "qstring_law {example_res}" "order_law example_res" "lo_law example_res" "uint32_law example_res"
proof -
  show "qstring_law {example_res}" by (auto simp: qstring_law_def example_res_def split: if_splits)
  show "order_law example_res" by (auto simp: order_law_def example_res_def)
  show "uint32_law example_res" by (simp add: uint32_law_def example_res_def)
  have "\<exists>b \<in> set (r # rs). fold (\<lambda>x b. if rr_Ttl x < rr_Ttl b then x else b) rs r = b \<and> (\<forall>r' \<in> set (r # rs). rr_Ttl b \<le> rr_Ttl r')" for r rs
  proof (induction rs arbitrary: r)
    case (Cons x rs)
    show ?case using Cons.IH [of "if rr_Ttl x < rr_Ttl r then x else r"] by (auto split: if_splits)
  qed simp
  then have "rs \<noteq> [] \<Longrightarrow> \<exists>r \<in> set rs. (case rs of [] \<Rightarrow> None | r # rs' \<Rightarrow> Some (fold (\<lambda>x b. if rr_Ttl x < rr_Ttl b then x else b) rs' r)) = Some r \<and>
      (\<forall>r' \<in> set rs. rr_Ttl r \<le> rr_Ttl r')" for rs
    by (cases rs) auto
  then show "lo_law example_res" by (simp add: lo_law_def example_res_def)
qed

lemma example_vetted: "vetted example_res example_resolver"
proof -
  have "drop_bit 24 (from_bytes [1, 2, 3, 4] :: 32 word) \<noteq> 127" by code_simp
  then show ?thesis
  by (simp add: vetted_def trusted_def example_resolver_def new_resolver_def example_res_def poisoned_def shouldIPFallback_def
      example_reply_def example_NS_def msgToIP_def AddrFromSlice_def)
qed

section \<open>Properties\<close>

text \<open>
  C11.  Poisoned answers are not served.  A resolver with fallback servers answers no query for
  addresses with an address that a fallback filter catches, whatever its main servers say and
  whatever was asked before, from the cache or not, as long as the fallback servers and those of the
  policies give no such answers themselves; and neither cache ever panics.
\<close>

theorem resolver_never_poisoned:
  assumes new: "NewResolver E0 cfg = Some rs" "dc_Fallback cfg \<noteq> []" "0 \<le> dc_CacheMaxSize cfg"
    and laws: "qstring_law Es" "\<forall>E \<in> Es. order_law E \<and> vetted E (rs_Resolver rs)"
    and run: "resolver_run Es (rs_Resolver rs) r" "E \<in> Es"
    and query: "msg_Question m = q # qs" "isIPRequest q" "msg_Answer m = []"
  shows "\<exists>res m' r' again. ExchangeContext E now now' shared r m = Some (res, m', r', again) \<and>
    (\<forall>msg. res = Inr msg \<longrightarrow> (\<forall>ip \<in> set (msgToIP msg). \<not> list_ex (\<lambda>f. f ip) (dc_FallbackIPFilter cfg)))"
proof -
  let ?r = "rs_Resolver rs"
  note N = NewResolver_fallback [OF new(1,2)]
  have "clean_cache Es ?r (r_cache ?r)" using newCache_ok [OF new(3)] by (simp add: N(3) clean_cache_def)
  then obtain c where c: "r = ?r\<lparr>r_cache := c\<rparr>" "clean_cache Es ?r c"
    using resolver_run_clean [OF run(1) _ laws(1) _ N(1)] laws(2) by blast
  then have "clean_cache Es r (r_cache r)" by (simp add: clean_cache_def clean_entry_def)
  from ExchangeContext_clean [OF this laws(1) run(2) _ _ _ query(3), of now now' shared]
  show ?thesis using laws(2) run(2) N(1,2) query(1,2) c(1)
    by (fastforce simp: poisoned_def shouldIPFallback_def ip_filter_loop_iff)
qed

theorem resolver_never_poisoned_witness:
  "\<exists>res m' r' again. ExchangeContext example_res 0 0 False example_resolver (re_SetQuestion example_res ''a.'' TypeA) =
     Some (res, m', r', again) \<and> (\<forall>msg. res = Inr msg \<longrightarrow> (\<forall>ip \<in> set (msgToIP msg). \<not> IsLoopback ip))"
proof -
  obtain rs where rs: "NewResolver example_res example_dns_config = Some rs" "rs_Resolver rs = example_resolver"
    using example_NewResolver by blast
  show ?thesis
    using resolver_never_poisoned [OF rs(1), of "{example_res}" example_resolver example_res
        "re_SetQuestion example_res ''a.'' TypeA" _ "[]" 0 0 False]
      example_laws example_vetted rs(2) resolver_run.start [of "{example_res}" example_resolver]
    by (simp add: example_dns_config_def) (simp add: example_res_def isIPRequest_def zeroMsg_def)
qed

text \<open>
  C8.  Answers from the cache age.  A cached answer that has not expired is served from the cache with
  the same records in the same order.  A record's time to live becomes at most the larger of its
  stored value and 1 (a stored 0 may become 1: \<open>Clamp\<close> has 1 as its lower end); and each section that has records
  has one whose time to live is at most 1 or runs out less than a second after the entry expires.
\<close>

theorem cached_answer_ages:
  assumes laws: "lo_law E" "uint32_law E"
    and entry: "dc_ok (r_cache r)" "msg_Question m = q # qs" "dc_view (r_cache r) (re_qstring E q) = Some (msg, expire)"
    and time: "now \<le> expire * 1000000000" "now' \<le> expire * 1000000000" "expire * 1000000000 - now' \<le> (2 ^ 32 - 1) * 1000000000"
  shows "\<exists>answer r'. ExchangeContext E now now' shared r m = Some (Inr answer, m, r', False) \<and>
    (\<forall>f \<in> {msg_Answer, msg_Ns, msg_Extra}.
       list_all2 (\<lambda>old new. \<exists>t \<le> max 1 (rr_Ttl old). new = set_ttl t old) (f msg) (f answer) \<and>
       (f msg \<noteq> [] \<longrightarrow> (\<exists>rr \<in> set (f answer). uint (rr_Ttl rr) \<le> 1 \<or>
          (uint (rr_Ttl rr) - 1) * 1000000000 < expire * 1000000000 - now')))"
proof -
  let ?d = "expire * 1000000000 - now'" and ?ttl = "re_uint32 E (Duration_Seconds (expire * 1000000000 - now'))"
  obtain c where "dc_GetWithExpire (re_clock E) (re_qstring E q) (r_cache r) = Some (Some (msg, expire), c)"
    using dns_cache.get_law [OF entry(1), of "re_clock E" "re_qstring E q"] entry(3) by auto
  then have hit: "ExchangeContext E now now' shared r m = Some (Inr (updateMsgTTL E msg ?ttl), m, r\<lparr>r_cache := c\<rparr>, False)"
    using time(1) by (simp add: ExchangeContext_def entry(2) getMsgFromCache_def)
  have rem: "uint ?ttl = 0 \<or> (uint ?ttl - 1) * 1000000000 < ?d"
    using time(2,3) by (intro remaining_seconds [OF laws(2)]) simp_all
  have small: "uint (rr_Ttl rr) \<le> 1 \<or> (uint (rr_Ttl rr) - 1) * 1000000000 < ?d" if "rr_Ttl rr \<le> max 1 ?ttl" for rr
  proof (cases "rr_Ttl rr \<le> 1")
    case True
    then show ?thesis by (simp add: word_le_def)
  next
    case False
    with that have "rr_Ttl rr \<le> ?ttl" by (simp only: le_max_iff_disj) blast
    then have "uint (rr_Ttl rr) \<le> uint ?ttl" by (simp only: word_le_def)
    with rem show ?thesis using uint_ge_0 [of "rr_Ttl rr"] by auto
  qed
  have sec: "list_all2 (\<lambda>old new. \<exists>t \<le> max 1 (rr_Ttl old). new = set_ttl t old) rs (updateTTL E rs ?ttl) \<and>
      (rs \<noteq> [] \<longrightarrow> (\<exists>rr \<in> set (updateTTL E rs ?ttl). uint (rr_Ttl rr) \<le> 1 \<or> (uint (rr_Ttl rr) - 1) * 1000000000 < ?d))" for rs
    using updateTTL_lowers [OF laws(1), of ?ttl rs] small unfolding ttl_lowered_def by blast
  then show ?thesis unfolding hit
    by (intro exI [of _ "updateMsgTTL E msg ?ttl"] exI [of _ "r\<lparr>r_cache := c\<rparr>"]) (simp add: updateMsgTTL_def)
qed

definition example_aged :: Resolver where
  "example_aged = example_resolver\<lparr>r_cache :=
     CacheLRU (SetWithExpire (\<lambda>_. 0) ''ia.'' (example_reply [1, 2, 3, 4]) 300 (lru_New [WithSize 1, WithStale True]))\<rparr>"

theorem cached_answer_ages_witness:
  "\<exists>answer r'. ExchangeContext example_res 100000000000 100000000000 False example_aged (re_SetQuestion example_res ''a.'' TypeA) =
     Some (Inr answer, re_SetQuestion example_res ''a.'' TypeA, r', False) \<and>
     (\<exists>rr \<in> set (msg_Answer answer). uint (rr_Ttl rr) \<le> 200)"
proof -
  let ?m = "re_SetQuestion example_res ''a.'' TypeA" and ?q = "\<lparr>q_Name = ''a.'', q_Qtype = TypeA, q_INET = True\<rparr>"
  have q: "msg_Question ?m = ?q # []" "re_qstring example_res ?q = ''ia.''" by (simp_all add: example_res_def isIPRequest_def)
  have c: "dc_ok (r_cache example_aged)" "dc_view (r_cache example_aged) (re_qstring example_res ?q) = Some (example_reply [1, 2, 3, 4], 300)"
    unfolding q(2) using lru_New_ok [of 1] lru_put_law(1,2) by (auto simp: example_aged_def)
  from cached_answer_ages [OF example_laws(3,4) c(1) q(1) c(2), of 100000000000 100000000000 False]
  obtain answer r' where a: "ExchangeContext example_res 100000000000 100000000000 False example_aged ?m = Some (Inr answer, ?m, r', False)"
    and "msg_Answer (example_reply [1, 2, 3, 4]) \<noteq> [] \<longrightarrow> (\<exists>rr \<in> set (msg_Answer answer).
      uint (rr_Ttl rr) \<le> 1 \<or> (uint (rr_Ttl rr) - 1) * 1000000000 < 300 * 1000000000 - 100000000000)"
    by (auto simp only: ball_simps le_refl)  auto
  then obtain rr where "rr \<in> set (msg_Answer answer)" "uint (rr_Ttl rr) \<le> 200" by (fastforce simp: example_reply_def)
  with a show ?thesis by blast
qed

end
