(* ===== verification/Deque.thy ===== *)
theory Deque
  imports Prelude
begin

text \<open>
  \<open>common/deque/deque.go\<close>: a double-ended queue in a ring buffer whose length is a power of two.
  Positions are Go ints and wrap by a bitwise AND with the length less one, as in the code.  A zero
  value of the element type is the argument \<open>z\<close>.  Reading or writing outside the buffer and the
  explicit panics are errors; so is a doubling loop that starts at zero, which never ends.
\<close>

unbundle bit_operations_syntax

section \<open>State\<close>

record 'a Deque =
  buf :: "'a list"
  dq_head :: int
  dq_tail :: int
  dq_count :: int
  dq_minCap :: int

datatype dq_error = Panic string | BufferIndex | NeverEnds

definition minCapacity :: int where "minCapacity = 8"

definition zeroDeque :: "'a Deque" where
  "zeroDeque = \<lparr>buf = [], dq_head = 0, dq_tail = 0, dq_count = 0, dq_minCap = 0\<rparr>"

abbreviation dq_Cap :: "'a Deque \<Rightarrow> int" where
  "dq_Cap q \<equiv> int (length (buf q))"

definition dq_next :: "'a Deque \<Rightarrow> int \<Rightarrow> int" where
  "dq_next q i = (i + 1) AND (dq_Cap q - 1)"

definition dq_prev :: "'a Deque \<Rightarrow> int \<Rightarrow> int" where
  "dq_prev q i = (i - 1) AND (dq_Cap q - 1)"

definition dq_real :: "'a Deque \<Rightarrow> int \<Rightarrow> int" where
  "dq_real q i = (dq_head q + i) AND (dq_Cap q - 1)"

definition dq_read :: "'a Deque \<Rightarrow> int \<Rightarrow> (dq_error, 'a) result" where
  "dq_read q i = (if 0 \<le> i \<and> i < dq_Cap q then Inr (buf q ! nat i) else Inl BufferIndex)"

definition dq_write :: "'a Deque \<Rightarrow> int \<Rightarrow> 'a \<Rightarrow> (dq_error, 'a Deque) result" where
  "dq_write q i x = (if 0 \<le> i \<and> i < dq_Cap q then Inr (q\<lparr>buf := (buf q)[nat i := x]\<rparr>) else Inl BufferIndex)"

text \<open>Go's \<open>copy\<close> and \<open>make\<close>.\<close>

definition copy_into :: "'a list \<Rightarrow> 'a list \<Rightarrow> 'a list" where
  "copy_into dst src = take (length dst) src @ drop (length src) dst"

abbreviation make :: "'a \<Rightarrow> int \<Rightarrow> 'a list" where
  "make z n \<equiv> replicate (nat n) z"

text \<open>The slices \<open>q.buf[head:]\<close> and \<open>q.buf[head:tail]\<close>, as the code reads the contents.\<close>

definition dq_parts :: "'a Deque \<Rightarrow> 'a list" where
  "dq_parts q =
     (if dq_head q \<ge> dq_tail q
      then drop (nat (dq_head q)) (buf q) @ take (nat (dq_tail q)) (buf q)
      else drop (nat (dq_head q)) (take (nat (dq_tail q)) (buf q)))"

section \<open>Resizing\<close>

definition resize :: "'a \<Rightarrow> int \<Rightarrow> 'a Deque \<Rightarrow> 'a Deque" where
  "resize z newSize q =
     (let newBuf = make z newSize;
          filled =
            (if dq_tail q > dq_head q
             then copy_into newBuf (drop (nat (dq_head q)) (take (nat (dq_tail q)) (buf q)))
             else
               let src = drop (nat (dq_head q)) (buf q); n = min (length newBuf) (length src);
                   b1 = copy_into newBuf src
               in take n b1 @ copy_into (drop n b1) (take (nat (dq_tail q)) (buf q)))
      in q\<lparr>dq_head := 0, dq_tail := dq_count q, buf := filled\<rparr>)"

definition growIfFull :: "'a \<Rightarrow> 'a Deque \<Rightarrow> 'a Deque" where
  "growIfFull z q =
     (if dq_count q \<noteq> dq_Cap q then q
      else if dq_Cap q = 0 then
        let q1 = (if dq_minCap q = 0 then q\<lparr>dq_minCap := minCapacity\<rparr> else q)
        in q1\<lparr>buf := make z (dq_minCap q1)\<rparr>
      else resize z (push_bit 1 (dq_count q)) q)"

definition shrinkIfExcess :: "'a \<Rightarrow> 'a Deque \<Rightarrow> 'a Deque" where
  "shrinkIfExcess z q =
     (if dq_Cap q > dq_minCap q \<and> push_bit 2 (dq_count q) = dq_Cap q
      then resize z (push_bit 1 (dq_count q)) q else q)"

text \<open>\<open>for c < n { c <<= 1 }\<close>: from a positive start it ends, from zero it never does.\<close>

function double_until :: "int \<Rightarrow> int \<Rightarrow> (dq_error, int) result" where
  "double_until c n =
     (if c \<ge> n then Inr c else if c \<le> 0 then Inl NeverEnds else double_until (push_bit 1 c) n)"
  by pat_completeness auto
termination
  by (relation "measure (\<lambda>(c, n). nat (n - c))") auto

declare double_until.simps [simp del]

definition shrinkToFit :: "'a \<Rightarrow> 'a Deque \<Rightarrow> (dq_error, 'a Deque) result" where
  "shrinkToFit z q =
     (if dq_Cap q > dq_minCap q \<and> push_bit 2 (dq_count q) \<le> dq_Cap q then
        if dq_count q = 0 then Inr (q\<lparr>dq_head := 0, dq_tail := 0, buf := make z (dq_minCap q)\<rparr>)
        else result_bind (double_until (dq_minCap q) (dq_count q)) (\<lambda>c. Inr (resize z c q))
      else Inr q)"

definition SetBaseCap :: "int \<Rightarrow> 'a Deque \<Rightarrow> (dq_error, 'a Deque) result" where
  "SetBaseCap baseCap q =
     result_bind (double_until minCapacity baseCap) (\<lambda>c. Inr (q\<lparr>dq_minCap := c\<rparr>))"

section \<open>Both ends\<close>

definition PushBack :: "'a \<Rightarrow> 'a \<Rightarrow> 'a Deque \<Rightarrow> (dq_error, 'a Deque) result" where
  "PushBack z x q =
     (let q1 = growIfFull z q in
      result_bind (dq_write q1 (dq_tail q1) x) (\<lambda>q2.
        Inr (q2\<lparr>dq_tail := dq_next q2 (dq_tail q2), dq_count := dq_count q2 + 1\<rparr>)))"

definition PushFront :: "'a \<Rightarrow> 'a \<Rightarrow> 'a Deque \<Rightarrow> (dq_error, 'a Deque) result" where
  "PushFront z x q =
     (let q1 = growIfFull z q; q2 = q1\<lparr>dq_head := dq_prev q1 (dq_head q1)\<rparr> in
      result_bind (dq_write q2 (dq_head q2) x) (\<lambda>q3. Inr (q3\<lparr>dq_count := dq_count q3 + 1\<rparr>)))"

text \<open>Removing one element at an end, before any resizing.\<close>

definition take_front :: "'a \<Rightarrow> 'a Deque \<Rightarrow> (dq_error, 'a \<times> 'a Deque) result" where
  "take_front z q =
     result_bind (dq_read q (dq_head q)) (\<lambda>ret.
       result_bind (dq_write q (dq_head q) z) (\<lambda>q1.
         Inr (ret, q1\<lparr>dq_head := dq_next q1 (dq_head q1), dq_count := dq_count q1 - 1\<rparr>)))"

definition take_back :: "'a \<Rightarrow> 'a Deque \<Rightarrow> (dq_error, 'a \<times> 'a Deque) result" where
  "take_back z q =
     (let q1 = q\<lparr>dq_tail := dq_prev q (dq_tail q)\<rparr> in
      result_bind (dq_read q1 (dq_tail q1)) (\<lambda>ret.
        result_bind (dq_write q1 (dq_tail q1) z) (\<lambda>q2. Inr (ret, q2\<lparr>dq_count := dq_count q2 - 1\<rparr>))))"

definition PopFront :: "'a \<Rightarrow> 'a Deque \<Rightarrow> (dq_error, 'a \<times> 'a Deque) result" where
  "PopFront z q =
     (if dq_count q \<le> 0 then Inl (Panic ''deque: PopFront() called on empty queue'')
      else result_bind (take_front z q) (\<lambda>(ret, q1). Inr (ret, shrinkIfExcess z q1)))"

definition PopBack :: "'a \<Rightarrow> 'a Deque \<Rightarrow> (dq_error, 'a \<times> 'a Deque) result" where
  "PopBack z q =
     (if dq_count q \<le> 0 then Inl (Panic ''deque: PopBack() called on empty queue'')
      else result_bind (take_back z q) (\<lambda>(ret, q1). Inr (ret, shrinkIfExcess z q1)))"

text \<open>
  The popping iterators, with a consumer that keeps a state and says whether to go on.  The loop
  runs at most \<open>count\<close> times.
\<close>

fun pop_loop ::
  "nat \<Rightarrow> ('a Deque \<Rightarrow> (dq_error, 'a \<times> 'a Deque) result) \<Rightarrow> ('a \<Rightarrow> 's \<Rightarrow> bool \<times> 's) \<Rightarrow> 'a Deque \<Rightarrow> 's \<Rightarrow> (dq_error, 'a Deque \<times> 's) result" where
  "pop_loop 0 take1 yield q s = Inr (q, s)"
| "pop_loop (Suc n) take1 yield q s =
     result_bind (take1 q) (\<lambda>(ret, q1).
       case yield ret s of (go, s1) \<Rightarrow> if go then pop_loop n take1 yield q1 s1 else Inr (q1, s1))"

definition IterPopFront :: "'a \<Rightarrow> ('a \<Rightarrow> 's \<Rightarrow> bool \<times> 's) \<Rightarrow> 'a Deque \<Rightarrow> 's \<Rightarrow> (dq_error, 'a Deque \<times> 's) result" where
  "IterPopFront z yield q s =
     (if dq_count q = 0 then Inr (q, s)
      else result_bind (pop_loop (nat (dq_count q)) (take_front z) yield q s) (\<lambda>(q1, s1).
        result_bind (shrinkToFit z q1) (\<lambda>q2. Inr (q2, s1))))"

definition IterPopBack :: "'a \<Rightarrow> ('a \<Rightarrow> 's \<Rightarrow> bool \<times> 's) \<Rightarrow> 'a Deque \<Rightarrow> 's \<Rightarrow> (dq_error, 'a Deque \<times> 's) result" where
  "IterPopBack z yield q s =
     (if dq_count q = 0 then Inr (q, s)
      else result_bind (pop_loop (nat (dq_count q)) (take_back z) yield q s) (\<lambda>(q1, s1).
        result_bind (shrinkToFit z q1) (\<lambda>q2. Inr (q2, s1))))"

section \<open>Reading and writing inside\<close>

definition dq_Front :: "'a Deque \<Rightarrow> (dq_error, 'a) result" where
  "dq_Front q = (if dq_count q \<le> 0 then Inl (Panic ''deque: Front() called when empty'') else dq_read q (dq_head q))"

definition dq_Back :: "'a Deque \<Rightarrow> (dq_error, 'a) result" where
  "dq_Back q =
     (if dq_count q \<le> 0 then Inl (Panic ''deque: Back() called when empty'')
      else dq_read q (dq_prev q (dq_tail q)))"

definition checkRange :: "int \<Rightarrow> 'a Deque \<Rightarrow> (dq_error, unit) result" where
  "checkRange i q = (if i < 0 \<or> i \<ge> dq_count q then Inl (Panic ''deque: index out of range'') else Inr ())"

definition dq_At :: "int \<Rightarrow> 'a Deque \<Rightarrow> (dq_error, 'a) result" where
  "dq_At i q = result_bind (checkRange i q) (\<lambda>_. dq_read q (dq_real q i))"

definition dq_Set :: "int \<Rightarrow> 'a \<Rightarrow> 'a Deque \<Rightarrow> (dq_error, 'a Deque) result" where
  "dq_Set i x q = result_bind (checkRange i q) (\<lambda>_. dq_write q (dq_real q i) x)"

definition swap_at :: "'a Deque \<Rightarrow> int \<Rightarrow> int \<Rightarrow> (dq_error, 'a Deque) result" where
  "swap_at q i j =
     result_bind (dq_read q i) (\<lambda>x. result_bind (dq_read q j) (\<lambda>y.
       result_bind (dq_write q i y) (\<lambda>q1. dq_write q1 j x)))"

definition dq_Swap :: "int \<Rightarrow> int \<Rightarrow> 'a Deque \<Rightarrow> (dq_error, 'a Deque) result" where
  "dq_Swap i j q =
     result_bind (checkRange i q) (\<lambda>_. result_bind (checkRange j q) (\<lambda>_.
       if i = j then Inr q else swap_at q (dq_real q i) (dq_real q j)))"

definition dq_Clear :: "'a \<Rightarrow> 'a Deque \<Rightarrow> 'a Deque" where
  "dq_Clear z q =
     (if dq_count q = 0 then q
      else
        let b1 = (if dq_head q \<ge> dq_tail q then take (nat (dq_head q)) (buf q) @ map (\<lambda>_. z) (drop (nat (dq_head q)) (buf q))
                  else buf q);
            from = (if dq_head q \<ge> dq_tail q then 0 else nat (dq_head q));
            upto = nat (dq_tail q)
        in q\<lparr>dq_count := 0, dq_head := 0, dq_tail := 0,
             buf := take from b1 @ map (\<lambda>_. z) (drop from (take upto b1)) @ drop upto b1\<rparr>)"

definition dq_Grow :: "'a \<Rightarrow> int \<Rightarrow> 'a Deque \<Rightarrow> (dq_error, 'a Deque) result" where
  "dq_Grow z n q =
     (if n < 0 then Inl (Panic ''deque.Grow: negative count'')
      else if n \<le> dq_Cap q - dq_count q then Inr q
      else
        result_bind (double_until (if dq_Cap q = 0 then minCapacity else dq_Cap q) (dq_count q + n)) (\<lambda>c.
          if dq_count q = 0 then Inr (q\<lparr>buf := make z c, dq_head := 0, dq_tail := 0\<rparr>)
          else Inr (resize z c q)))"

definition AppendToSlice :: "'a list \<Rightarrow> 'a Deque \<Rightarrow> 'a list" where
  "AppendToSlice out q = (if dq_count q = 0 then out else out @ dq_parts q)"

text \<open>\<open>Iter\<close> and \<open>RIter\<close> with a consumer that leaves the deque alone.\<close>

fun iter_loop :: "nat \<Rightarrow> int \<Rightarrow> 'a Deque \<Rightarrow> ('a \<Rightarrow> 's \<Rightarrow> bool \<times> 's) \<Rightarrow> 's \<Rightarrow> (dq_error, 's) result" where
  "iter_loop 0 head q yield s = Inr s"
| "iter_loop (Suc n) head q yield s =
     result_bind (dq_read q head) (\<lambda>x.
       case yield x s of (go, s1) \<Rightarrow> if go then iter_loop n (dq_next q head) q yield s1 else Inr s1)"

definition dq_Iter :: "'a Deque \<Rightarrow> ('a \<Rightarrow> 's \<Rightarrow> bool \<times> 's) \<Rightarrow> 's \<Rightarrow> (dq_error, 's) result" where
  "dq_Iter q yield s = iter_loop (nat (dq_count q)) (dq_head q) q yield s"

fun riter_loop :: "nat \<Rightarrow> int \<Rightarrow> 'a Deque \<Rightarrow> ('a \<Rightarrow> 's \<Rightarrow> bool \<times> 's) \<Rightarrow> 's \<Rightarrow> (dq_error, 's) result" where
  "riter_loop 0 tail q yield s = Inr s"
| "riter_loop (Suc n) tail q yield s =
     result_bind (dq_read q (dq_prev q tail)) (\<lambda>x.
       case yield x s of (go, s1) \<Rightarrow> if go then riter_loop n (dq_prev q tail) q yield s1 else Inr s1)"

definition dq_RIter :: "'a Deque \<Rightarrow> ('a \<Rightarrow> 's \<Rightarrow> bool \<times> 's) \<Rightarrow> 's \<Rightarrow> (dq_error, 's) result" where
  "dq_RIter q yield s = riter_loop (nat (dq_count q)) (dq_tail q) q yield s"

fun index_loop :: "nat \<Rightarrow> int \<Rightarrow> 'a Deque \<Rightarrow> ('a \<Rightarrow> bool) \<Rightarrow> (dq_error, int) result" where
  "index_loop 0 i q f = Inr (- 1)"
| "index_loop (Suc n) i q f =
     result_bind (dq_read q (dq_real q i)) (\<lambda>x. if f x then Inr i else index_loop n (i + 1) q f)"

definition dq_Index :: "('a \<Rightarrow> bool) \<Rightarrow> 'a Deque \<Rightarrow> (dq_error, int) result" where
  "dq_Index f q = index_loop (nat (dq_count q)) 0 q f"

fun rindex_loop :: "nat \<Rightarrow> 'a Deque \<Rightarrow> ('a \<Rightarrow> bool) \<Rightarrow> (dq_error, int) result" where
  "rindex_loop 0 q f = Inr (- 1)"
| "rindex_loop (Suc n) q f =
     result_bind (dq_read q (dq_real q (int n))) (\<lambda>x. if f x then Inr (int n) else rindex_loop n q f)"

definition dq_RIndex :: "('a \<Rightarrow> bool) \<Rightarrow> 'a Deque \<Rightarrow> (dq_error, int) result" where
  "dq_RIndex f q = rindex_loop (nat (dq_count q)) q f"

section \<open>Whole contents\<close>

text \<open>\<open>CopyOutSlice\<close>: the filled slice and the number of elements copied.\<close>

definition CopyOutSlice :: "'a list \<Rightarrow> 'a Deque \<Rightarrow> 'a list \<times> int" where
  "CopyOutSlice out q =
     (if dq_count q = 0 \<or> length out = 0 then (out, 0)
      else if dq_head q \<ge> dq_tail q then
        let src = drop (nat (dq_head q)) (buf q); n = min (length out) (length src); o1 = copy_into out src;
            rest = drop n o1; src2 = take (nat (dq_tail q)) (buf q)
        in if length rest = 0 then (o1, int n)
           else (take n o1 @ copy_into rest src2, int (n + min (length rest) (length src2)))
      else
        let src = drop (nat (dq_head q)) (take (nat (dq_tail q)) (buf q))
        in (copy_into out src, int (min (length out) (length src))))"

definition dq_Copy :: "'a \<Rightarrow> 'a Deque \<Rightarrow> 'a Deque \<Rightarrow> (dq_error, 'a Deque) result" where
  "dq_Copy z src q =
     result_bind (dq_Grow z (dq_count src) (dq_Clear z q)) (\<lambda>q1.
       case CopyOutSlice (buf q1) src of
         (b, n) \<Rightarrow> Inr (q1\<lparr>buf := b, dq_count := n, dq_tail := n, dq_head := 0\<rparr>))"

definition CopyInSlice :: "'a \<Rightarrow> 'a list \<Rightarrow> 'a Deque \<Rightarrow> (dq_error, 'a Deque) result" where
  "CopyInSlice z xs q =
     result_bind
       (if dq_Cap q < int (length xs) then
          let q1 = (if dq_Cap q = 0 then q\<lparr>dq_minCap := minCapacity\<rparr> else q)
          in result_bind (double_until (if dq_Cap q = 0 then minCapacity else dq_Cap q) (int (length xs)))
               (\<lambda>c. Inr (q1\<lparr>buf := make z c\<rparr>))
        else if dq_Cap q > int (length xs) then Inr (dq_Clear z q)
        else Inr q)
       (\<lambda>q2.
         let n = int (min (length (buf q2)) (length xs))
         in Inr (q2\<lparr>buf := copy_into (buf q2) xs, dq_count := n, dq_tail := n, dq_head := 0\<rparr>))"

section \<open>Moving elements\<close>

fun rotate_back :: "nat \<Rightarrow> 'a \<Rightarrow> 'a Deque \<Rightarrow> (dq_error, 'a Deque) result" where
  "rotate_back 0 z q = Inr q"
| "rotate_back (Suc n) z q =
     (let q1 = q\<lparr>dq_head := (dq_head q - 1) AND (dq_Cap q - 1), dq_tail := (dq_tail q - 1) AND (dq_Cap q - 1)\<rparr> in
      result_bind (dq_read q1 (dq_tail q1)) (\<lambda>x.
        result_bind (dq_write q1 (dq_head q1) x) (\<lambda>q2.
          result_bind (dq_write q2 (dq_tail q2) z) (\<lambda>q3. rotate_back n z q3))))"

fun rotate_front :: "nat \<Rightarrow> 'a \<Rightarrow> 'a Deque \<Rightarrow> (dq_error, 'a Deque) result" where
  "rotate_front 0 z q = Inr q"
| "rotate_front (Suc n) z q =
     result_bind (dq_read q (dq_head q)) (\<lambda>x.
       result_bind (dq_write q (dq_tail q) x) (\<lambda>q1.
         result_bind (dq_write q1 (dq_head q1) z) (\<lambda>q2.
           rotate_front n z
             (q2\<lparr>dq_head := (dq_head q2 + 1) AND (dq_Cap q2 - 1), dq_tail := (dq_tail q2 + 1) AND (dq_Cap q2 - 1)\<rparr>))))"

text \<open>Go's remainder keeps the sign of the dividend.\<close>

definition go_rem :: "int \<Rightarrow> int \<Rightarrow> int" where
  "go_rem a b = sgn a * (\<bar>a\<bar> mod \<bar>b\<bar>)"

definition dq_Rotate :: "'a \<Rightarrow> int \<Rightarrow> 'a Deque \<Rightarrow> (dq_error, 'a Deque) result" where
  "dq_Rotate z n0 q =
     (if dq_count q \<le> 1 then Inr q
      else
        let n = go_rem n0 (dq_count q) in
        if n = 0 then Inr q
        else if dq_head q = dq_tail q then
          let h = (dq_head q + n) AND (dq_Cap q - 1) in Inr (q\<lparr>dq_head := h, dq_tail := h\<rparr>)
        else if n < 0 then rotate_back (nat (- n)) z q
        else rotate_front (nat n) z q)"

fun swap_forward :: "nat \<Rightarrow> int \<Rightarrow> 'a Deque \<Rightarrow> (dq_error, 'a Deque) result" where
  "swap_forward 0 i q = Inr q"
| "swap_forward (Suc n) i q =
     result_bind (swap_at q i (dq_next q i)) (\<lambda>q1. swap_forward n (dq_next q i) q1)"

fun swap_backward :: "nat \<Rightarrow> int \<Rightarrow> 'a Deque \<Rightarrow> (dq_error, 'a Deque) result" where
  "swap_backward 0 i q = Inr q"
| "swap_backward (Suc n) i q =
     result_bind (swap_at q i (dq_prev q i)) (\<lambda>q1. swap_backward n (dq_prev q i) q1)"

definition dq_Insert :: "'a \<Rightarrow> int \<Rightarrow> 'a \<Rightarrow> 'a Deque \<Rightarrow> (dq_error, 'a Deque) result" where
  "dq_Insert z at x q =
     (if at \<le> 0 then PushFront z x q
      else if at \<ge> dq_count q then PushBack z x q
      else if at * 2 < dq_count q then
        result_bind (PushFront z x q) (\<lambda>q1. swap_forward (nat at) (dq_head q1) q1)
      else
        result_bind (PushBack z x q) (\<lambda>q1.
          swap_backward (nat (dq_count q - at)) (dq_prev q1 (dq_tail q1)) q1))"

definition dq_Remove :: "'a \<Rightarrow> int \<Rightarrow> 'a Deque \<Rightarrow> (dq_error, 'a \<times> 'a Deque) result" where
  "dq_Remove z at q =
     result_bind (checkRange at q) (\<lambda>_.
       if at * 2 < dq_count q then
         result_bind (swap_backward (nat at) (dq_real q at) q) (PopFront z)
       else
         result_bind (swap_forward (nat (dq_count q - at - 1)) (dq_real q at) q) (PopBack z))"

section \<open>The list a ring buffer holds\<close>

definition ring :: "'a list \<Rightarrow> int \<Rightarrow> 'a list \<Rightarrow> bool" where
  "ring b h xs \<longleftrightarrow> 0 \<le> h \<and> h < int (length b) \<and> length xs \<le> length b \<and>
     (\<forall>i < length xs. b ! nat ((h + int i) mod int (length b)) = xs ! i)"

definition power2 :: "int \<Rightarrow> bool" where
  "power2 n \<longleftrightarrow> (\<exists>k. n = 2 ^ k)"

text \<open>
  \<open>holds q xs\<close>: the buffer is not yet allocated, or its length is a power of two and it holds \<open>xs\<close>
  from \<open>head\<close> on, with \<open>count\<close> and \<open>tail\<close> to match.
\<close>

definition holds :: "'a Deque \<Rightarrow> 'a list \<Rightarrow> bool" where
  "holds q xs \<longleftrightarrow>
     (if buf q = [] then xs = [] \<and> dq_head q = 0 \<and> dq_tail q = 0
      else power2 (dq_Cap q) \<and> ring (buf q) (dq_head q) xs \<and>
        dq_tail q = (dq_head q + int (length xs)) mod dq_Cap q) \<and>
     dq_count q = int (length xs) \<and> (dq_minCap q = 0 \<or> power2 (dq_minCap q))"

lemma power2_pos: "power2 n \<Longrightarrow> n > 0"
  by (auto simp: power2_def)

lemma power2_double: "power2 n \<Longrightarrow> power2 (2 * n)"
  unfolding power2_def by (metis power_Suc)

lemma and_mod:
  assumes "power2 n"
  shows "x AND (n - 1) = x mod n"
proof -
  obtain k where "n = 2 ^ k" using assms by (auto simp: power2_def)
  then show ?thesis by (metis mask_eq_exp_minus_1 take_bit_eq_mask take_bit_eq_mod)
qed

lemma mod_shift_inj:
  fixes h n :: int
  assumes "(h + int i) mod n = (h + int j) mod n" "int i < n" "int j < n"
  shows "i = j"
proof -
  have "n dvd int i - int j"
    using assms(1) unfolding mod_eq_dvd_iff by simp
  moreover have "\<bar>int i - int j\<bar> < \<bar>n\<bar>" using assms(2,3) by linarith
  ultimately have "int i - int j = 0" using dvd_imp_le_int [of "int i - int j" n] by linarith
  then show ?thesis by simp
qed

lemma mod_once:
  fixes h k n :: int
  assumes "0 \<le> h" "h < n" "0 \<le> k" "k \<le> n"
  shows "(h + k) mod n = (if h + k < n then h + k else h + k - n)"
proof (cases "h + k < n")
  case False
  then have "(h + k - n) mod n = h + k - n" using assms by (intro mod_pos_pos_trivial) auto
  with False show ?thesis by simp
qed (use assms in simp)

text \<open>Writing one position of the ring is writing one position of the list.\<close>

lemma ring_write:
  assumes "ring b h xs" "i < length xs"
  shows "ring (b[nat ((h + int i) mod int (length b)) := x]) h (xs[i := x])"
proof -
  let ?n = "int (length b)"
  have pos: "0 < ?n" using assms(1) by (auto simp: ring_def)
  have in_buf: "nat ((h + int j) mod ?n) < length b" for j using pos by (simp add: nat_less_iff)
  have "nat ((h + int i) mod ?n) = nat ((h + int j) mod ?n) \<longleftrightarrow> i = j" if "j < length xs" for j
    using mod_shift_inj [of h i ?n j] that assms pos by (auto simp: ring_def nat_eq_iff2)
  with assms in_buf show ?thesis by (auto simp: ring_def nth_list_update)
qed

lemma ring_index: "ring b h xs \<Longrightarrow> nat ((h + i) mod int (length b)) < length b"
proof -
  assume "ring b h xs"
  then have "0 < int (length b)" by (auto simp: ring_def)
  then show ?thesis by (simp add: nat_less_iff)
qed

text \<open>Taking a free position at the back or at the front into the list.\<close>

lemma ring_snoc:
  assumes "ring b h xs" "length xs < length b" "b ! nat ((h + int (length xs)) mod int (length b)) = x"
  shows "ring b h (xs @ [x])"
  using assms by (auto simp: ring_def nth_append less_Suc_eq)

lemma ring_cons:
  assumes "ring b h xs" "length xs < length b" "b ! nat ((h - 1) mod int (length b)) = x"
  shows "ring b ((h - 1) mod int (length b)) (x # xs)"
proof -
  let ?n = "int (length b)"
  have pos: "0 < ?n" using assms(2) by linarith
  have "((h - 1) mod ?n + int i) mod ?n = (h - 1 + int i) mod ?n" for i by (simp add: mod_add_left_eq)
  moreover have "h - 1 + int (Suc i) = h + int i" for i by simp
  ultimately show ?thesis
    using assms pos by (auto simp: ring_def nth_Cons' less_Suc_eq_0_disj)
qed

lemma ring_tl:
  assumes "ring b h (x # xs)"
  shows "ring b ((h + 1) mod int (length b)) xs"
proof -
  let ?n = "int (length b)"
  have pos: "0 < ?n" using assms by (auto simp: ring_def)
  have "((h + 1) mod ?n + int i) mod ?n = (h + int (Suc i)) mod ?n" for i
    by (simp only: mod_add_left_eq of_nat_Suc) (simp add: algebra_simps)
  with assms pos show ?thesis by (auto simp: ring_def)
qed

lemma ring_butlast: "ring b h (xs @ [x]) \<Longrightarrow> ring b h xs"
  by (auto simp: ring_def nth_append)

text \<open>A write at a position outside the list does not change the list.\<close>

lemma ring_write_free:
  assumes "ring b h xs" "length xs < length b"
  shows "ring (b[nat ((h + int (length xs)) mod int (length b)) := x]) h (xs @ [x])"
proof -
  let ?n = "int (length b)" and ?j = "nat ((h + int (length xs)) mod int (length b))"
  have pos: "0 < ?n" using assms(2) by linarith
  have "?j \<noteq> nat ((h + int i) mod ?n)" if "i < length xs" for i
    using mod_shift_inj [of h i ?n "length xs"] that assms pos by (auto simp: nat_eq_iff2)
  then have "ring (b[?j := x]) h xs" using assms by (auto simp: ring_def nth_list_update)
  moreover have "b[?j := x] ! ?j = x" using ring_index [OF assms(1)] by simp
  ultimately show ?thesis using ring_snoc [of "b[?j := x]" h xs x] assms(2) by simp
qed

lemma ring_push_front:
  assumes "ring b h xs" "length xs < length b"
  shows "ring (b[nat ((h - 1) mod int (length b)) := x]) ((h - 1) mod int (length b)) (x # xs)"
proof -
  let ?n = "int (length b)" and ?j = "nat ((h - 1) mod int (length b))"
  have pos: "0 < ?n" using assms(2) by linarith
  have "(h - 1) mod ?n = (h + int (length b - 1)) mod ?n"
  proof -
    have "h - 1 = h + int (length b - 1) - ?n" using pos by (cases b) auto
    then show ?thesis by (metis minus_mod_self2)
  qed
  then have "?j \<noteq> nat ((h + int i) mod ?n)" if "i < length xs" for i
    using mod_shift_inj [of h i ?n "length b - 1"] that assms pos by (auto simp: nat_eq_iff2)
  then have "ring (b[?j := x]) h xs" using assms by (auto simp: ring_def nth_list_update)
  moreover have "b[?j := x] ! ?j = x" using pos by (simp add: nat_less_iff)
  ultimately show ?thesis using ring_cons [of "b[?j := x]" h xs x] assms(2) by simp
qed

text \<open>Clearing the position that leaves the list.\<close>

lemma ring_pop_front:
  assumes "ring b h (x # xs)"
  shows "b ! nat h = x" "ring (b[nat h := z]) ((h + 1) mod int (length b)) xs"
proof -
  have h: "0 \<le> h" "h < int (length b)" "h mod int (length b) = h" using assms by (auto simp: ring_def)
  show "b ! nat h = x" using assms h by (auto simp: ring_def)
  have "ring (b[nat h := z]) h ((x # xs)[0 := z])" using ring_write [OF assms, of 0 z] h by simp
  from ring_tl [OF this [simplified]] show "ring (b[nat h := z]) ((h + 1) mod int (length b)) xs" by simp
qed

lemma ring_pop_back:
  assumes "ring b h (xs @ [x])"
  shows "b ! nat ((h + int (length xs)) mod int (length b)) = x"
    "ring (b[nat ((h + int (length xs)) mod int (length b)) := z]) h xs"
proof -
  show "b ! nat ((h + int (length xs)) mod int (length b)) = x" using assms by (auto simp: ring_def nth_append)
  have "ring (b[nat ((h + int (length xs)) mod int (length b)) := z]) h ((xs @ [x])[length xs := z])"
    by (rule ring_write [OF assms]) simp
  then show "ring (b[nat ((h + int (length xs)) mod int (length b)) := z]) h xs"
    by (simp add: ring_butlast)
qed

text \<open>The slices of the code are the list, when it is not empty.\<close>

lemma parts_list:
  assumes "ring (buf q) (dq_head q) xs" "dq_tail q = (dq_head q + int (length xs)) mod dq_Cap q" "xs \<noteq> []"
  shows "dq_parts q = xs"
proof (rule nth_equalityI)
  let ?b = "buf q" and ?h = "dq_head q" and ?n = "dq_Cap q"
  have h: "0 \<le> ?h" "?h < ?n" "length xs \<le> length ?b" using assms(1) by (auto simp: ring_def)
  have tail: "dq_tail q = (if ?h + int (length xs) < ?n then ?h + int (length xs) else ?h + int (length xs) - ?n)"
    using mod_once [of ?h ?n "int (length xs)"] h assms(2) by simp
  show "length (dq_parts q) = length xs"
    using h tail assms(3) by (auto simp: dq_parts_def min_def split: if_splits)
  then have len: "i < length xs" if "i < length (dq_parts q)" for i using that by simp
  fix i assume "i < length (dq_parts q)"
  then have i: "i < length xs" by (rule len)
  then have at: "?b ! nat (if ?h + int i < ?n then ?h + int i else ?h + int i - ?n) = xs ! i"
    using assms(1) h mod_once [of ?h ?n "int i"] by (auto simp: ring_def)
  show "dq_parts q ! i = xs ! i"
    using at i h tail unfolding dq_parts_def
    by (auto simp: nth_append min_def nat_add_distrib nat_diff_distrib' split: if_splits) (simp add: add.commute)
qed

section \<open>Resizing keeps the list\<close>

lemma copy_twice:
  assumes "length a + length c \<le> length nb"
  shows "take (min (length nb) (length a)) (copy_into nb a) @
    copy_into (drop (min (length nb) (length a)) (copy_into nb a)) c = copy_into nb (a @ c)"
  using assms by (simp add: copy_into_def min_def add.commute)

lemma copy_make: "length xs \<le> nat n \<Longrightarrow> copy_into (make z n) xs = xs @ replicate (nat n - length xs) z"
  by (simp add: copy_into_def)

lemma ring_start: "xs @ ys \<noteq> [] \<Longrightarrow> ring (xs @ ys) 0 xs"
proof -
  assume "xs @ ys \<noteq> []"
  then have "0 < int (length (xs @ ys))" by (simp only: of_nat_0_less_iff length_greater_0_conv not_False_eq_True)
  then show ?thesis by (simp add: ring_def nth_append)
qed

lemma holds_buf: "holds q xs \<Longrightarrow> xs \<noteq> [] \<Longrightarrow> buf q \<noteq> []"
  by (auto simp: holds_def)

lemma resize_holds:
  assumes "holds q xs" "xs \<noteq> []" "power2 n" "int (length xs) < n"
  shows "holds (resize z n q) xs \<and> dq_Cap (resize z n q) = n \<and> dq_minCap (resize z n q) = dq_minCap q"
proof -
  have q: "ring (buf q) (dq_head q) xs" "dq_tail q = (dq_head q + int (length xs)) mod dq_Cap q"
    "dq_count q = int (length xs)" "dq_minCap q = 0 \<or> power2 (dq_minCap q)"
    using assms(1,2) by (auto simp: holds_def split: if_splits)
  have parts: "dq_parts q = xs" by (rule parts_list [OF q(1,2) assms(2)])
  let ?src = "drop (nat (dq_head q)) (buf q)" and ?src2 = "take (nat (dq_tail q)) (buf q)"
  have "buf (resize z n q) = copy_into (make z n) xs"
  proof (cases "dq_tail q > dq_head q")
    case True
    then show ?thesis using parts by (simp add: resize_def dq_parts_def Let_def)
  next
    case False
    then have xs: "xs = ?src @ ?src2" using parts by (simp add: dq_parts_def)
    then have "length ?src + length ?src2 = length xs" by (metis length_append)
    then have "length ?src + length ?src2 \<le> length (make z n)" using assms(4) by simp
    from copy_twice [OF this] False xs show ?thesis by (simp add: resize_def Let_def)
  qed
  also have "\<dots> = xs @ replicate (nat n - length xs) z" using assms(4) by (intro copy_make) linarith
  finally have b: "buf (resize z n q) = xs @ replicate (nat n - length xs) z" .
  then have cap: "dq_Cap (resize z n q) = n" using assms(4) by simp
  have rest: "dq_head (resize z n q) = 0" "dq_tail (resize z n q) = int (length xs)"
    "dq_count (resize z n q) = int (length xs)" "dq_minCap (resize z n q) = dq_minCap q"
    by (simp_all add: resize_def Let_def q(3))
  have "buf (resize z n q) \<noteq> []" using assms(2) b by simp
  with rest cap q(4) assms(3,4) ring_start [of xs "replicate (nat n - length xs) z"] assms(2) show ?thesis
    by (simp add: holds_def b)
qed

lemma power2_half:
  assumes "power2 (2 * n)"
  shows "power2 n"
proof -
  obtain k where k: "2 * n = 2 ^ k" using assms by (auto simp: power2_def)
  then have "k \<noteq> 0" by (metis dvd_triv_left even_power odd_one power_0)
  then obtain j where "k = Suc j" by (cases k) auto
  with k show ?thesis by (auto simp: power2_def)
qed

lemma growIfFull_holds:
  assumes "holds q xs"
  shows "holds (growIfFull z q) xs \<and> int (length xs) < dq_Cap (growIfFull z q)"
proof (cases "dq_count q = dq_Cap q")
  case False
  with assms show ?thesis by (auto simp: growIfFull_def holds_def ring_def split: if_splits)
next
  case full: True
  show ?thesis
  proof (cases "buf q = []")
    case True
    then have empty: "xs = []" "dq_head q = 0" "dq_tail q = 0" "dq_count q = 0"
      and mc: "dq_minCap q = 0 \<or> power2 (dq_minCap q)" using assms by (auto simp: holds_def)
    let ?c = "if dq_minCap q = 0 then minCapacity else dq_minCap q"
    have c: "power2 ?c" using mc by (auto simp: power2_def minCapacity_def intro: exI [of _ 3])
    have "growIfFull z q = q\<lparr>dq_minCap := ?c, buf := make z ?c\<rparr>"
      using True empty by (simp add: growIfFull_def)
    moreover have "?c > 0" by (rule power2_pos [OF c])
    ultimately show ?thesis using empty c by (simp add: holds_def ring_def)
  next
    case False
    have count: "dq_count q = int (length xs)" and p: "power2 (dq_Cap q)" using assms False by (auto simp: holds_def)
    then have "xs \<noteq> []" using False full by auto
    moreover from p count full have "power2 (2 * int (length xs))" using power2_double by simp
    ultimately show ?thesis
      using resize_holds [OF assms, of "2 * int (length xs)" z] full False count
      by (simp add: growIfFull_def push_bit_eq_mult mult.commute)
  qed
qed

lemma shrinkIfExcess_holds:
  assumes "holds q xs"
  shows "holds (shrinkIfExcess z q) xs"
proof (cases "dq_Cap q > dq_minCap q \<and> push_bit 2 (dq_count q) = dq_Cap q")
  case True
  have count: "dq_count q = int (length xs)" "dq_minCap q \<ge> 0"
    using assms power2_pos [of "dq_minCap q"] by (auto simp: holds_def)
  then have cap: "dq_Cap q = 2 * (2 * int (length xs))" "dq_Cap q > 0" using True by (auto simp: push_bit_eq_mult)
  then have b: "buf q \<noteq> []" "xs \<noteq> []" by auto
  then have "power2 (2 * (2 * int (length xs)))" using assms cap by (auto simp: holds_def)
  then have "power2 (2 * int (length xs))" by (rule power2_half)
  with resize_holds [OF assms b(2), of "2 * int (length xs)" z] b True count show ?thesis
    by (simp add: shrinkIfExcess_def push_bit_eq_mult mult.commute)
qed (use assms in \<open>auto simp: shrinkIfExcess_def\<close>)

section \<open>Both ends of the list\<close>

lemma holds_unfold:
  assumes "holds q xs" "buf q \<noteq> []"
  shows "power2 (dq_Cap q)" "ring (buf q) (dq_head q) xs" "dq_tail q = (dq_head q + int (length xs)) mod dq_Cap q"
    "dq_count q = int (length xs)" "dq_minCap q = 0 \<or> power2 (dq_minCap q)"
    "dq_next q i = (i + 1) mod dq_Cap q" "dq_prev q i = (i - 1) mod dq_Cap q"
    "dq_real q i = (dq_head q + i) mod dq_Cap q" "0 \<le> dq_head q" "dq_head q < dq_Cap q"
  using assms by (auto simp: holds_def dq_next_def dq_prev_def dq_real_def and_mod ring_def)

lemma read_mod: "buf q \<noteq> [] \<Longrightarrow> dq_read q (i mod dq_Cap q) = Inr (buf q ! nat (i mod dq_Cap q))"
  by (simp add: dq_read_def)

lemma write_mod: "buf q \<noteq> [] \<Longrightarrow> dq_write q (i mod dq_Cap q) x = Inr (q\<lparr>buf := (buf q)[nat (i mod dq_Cap q) := x]\<rparr>)"
  by (simp add: dq_write_def)

lemma PushBack_holds:
  assumes "holds q xs"
  shows "\<exists>q'. PushBack z x q = Inr q' \<and> holds q' (xs @ [x])"
proof -
  let ?q = "growIfFull z q"
  have h: "holds ?q xs" and room: "int (length xs) < dq_Cap ?q" using growIfFull_holds [OF assms] by auto
  have b: "buf ?q \<noteq> []" using room by auto
  note u = holds_unfold [OF h b]
  let ?b = "(buf ?q)[nat ((dq_head ?q + int (length xs)) mod dq_Cap ?q) := x]"
  have "ring ?b (dq_head ?q) (xs @ [x])" using ring_write_free [OF u(2), of x] room by simp
  moreover have "(dq_tail ?q + 1) mod dq_Cap ?q = (dq_head ?q + (int (length xs) + 1)) mod dq_Cap ?q"
    unfolding u(3) by (simp add: mod_add_left_eq add.assoc)
  moreover have "dq_next (?q\<lparr>buf := ?b\<rparr>) i = dq_next ?q i" for i by (simp add: dq_next_def)
  ultimately show ?thesis
    using u(1,4,5) b write_mod [OF b, of "dq_head ?q + int (length xs)" x]
    by (simp add: PushBack_def Let_def u(3) [symmetric] u(6)) (simp add: u(3) holds_def add.commute)
qed

lemma PushFront_holds:
  assumes "holds q xs"
  shows "\<exists>q'. PushFront z x q = Inr q' \<and> holds q' (x # xs)"
proof -
  let ?q = "growIfFull z q"
  have h: "holds ?q xs" and room: "int (length xs) < dq_Cap ?q" using growIfFull_holds [OF assms] by auto
  have b: "buf ?q \<noteq> []" using room by auto
  note u = holds_unfold [OF h b]
  let ?j = "(dq_head ?q - 1) mod dq_Cap ?q"
  have r: "ring ((buf ?q)[nat ?j := x]) ?j (x # xs)" using ring_push_front [OF u(2), of x] room by simp
  have t: "dq_tail ?q = (?j + (1 + int (length xs))) mod dq_Cap ?q"
    unfolding u(3) by (simp add: mod_add_left_eq)
  have w: "dq_write (?q\<lparr>dq_head := ?j\<rparr>) ?j x = Inr (?q\<lparr>dq_head := ?j, buf := (buf ?q)[nat ?j := x]\<rparr>)"
    using write_mod [of "?q\<lparr>dq_head := ?j\<rparr>" "dq_head ?q - 1" x] b by simp
  let ?q' = "?q\<lparr>dq_head := ?j, buf := (buf ?q)[nat ?j := x], dq_count := dq_count ?q + 1\<rparr>"
  have "PushFront z x q = Inr ?q'" by (simp add: PushFront_def Let_def u(7) w)
  moreover have "holds ?q' (x # xs)" using r t u(1,4,5) b by (simp add: holds_def add.commute)
  ultimately show ?thesis by blast
qed

lemma take_front_holds:
  assumes "holds q (x # xs)"
  shows "\<exists>q'. take_front z q = Inr (x, q') \<and> holds q' xs \<and> dq_Cap q' = dq_Cap q \<and> dq_minCap q' = dq_minCap q"
proof -
  have b: "buf q \<noteq> []" using holds_buf [OF assms] by simp
  note u = holds_unfold [OF assms b]
  let ?q = "q\<lparr>buf := (buf q)[nat (dq_head q) := z], dq_head := (dq_head q + 1) mod dq_Cap q, dq_count := dq_count q - 1\<rparr>"
  have "dq_next (q\<lparr>buf := (buf q)[nat (dq_head q) := z]\<rparr>) i = (i + 1) mod dq_Cap q" for i
    using u(1) by (simp add: dq_next_def and_mod)
  then have "take_front z q = Inr (x, ?q)"
    using u(9,10) ring_pop_front(1) [OF u(2)] by (simp add: take_front_def dq_read_def dq_write_def)
  moreover have "((dq_head q + 1) mod dq_Cap q + int (length xs)) mod dq_Cap q = dq_tail q"
    unfolding u(3) by (simp add: mod_add_left_eq add.assoc)
  then have "holds ?q xs" using ring_pop_front(2) [OF u(2), of z] u(1,4,5) b by (simp add: holds_def)
  ultimately show ?thesis by (intro exI [of _ ?q]) simp
qed

lemma take_back_holds:
  assumes "holds q (xs @ [x])"
  shows "\<exists>q'. take_back z q = Inr (x, q') \<and> holds q' xs \<and> dq_Cap q' = dq_Cap q \<and> dq_minCap q' = dq_minCap q"
proof -
  have b: "buf q \<noteq> []" using holds_buf [OF assms] by simp
  note u = holds_unfold [OF assms b]
  let ?t = "(dq_head q + int (length xs)) mod dq_Cap q"
  have t: "dq_prev q (dq_tail q) = ?t"
    unfolding u(7) u(3) by (simp add: mod_diff_left_eq add.assoc [symmetric])
  let ?q = "q\<lparr>dq_tail := ?t, buf := (buf q)[nat ?t := z], dq_count := dq_count q - 1\<rparr>"
  have "dq_read (q\<lparr>dq_tail := ?t\<rparr>) ?t = Inr x" "dq_write (q\<lparr>dq_tail := ?t\<rparr>) ?t z = Inr (q\<lparr>dq_tail := ?t, buf := (buf q)[nat ?t := z]\<rparr>)"
    using read_mod [of "q\<lparr>dq_tail := ?t\<rparr>" "dq_head q + int (length xs)"] ring_pop_back(1) [OF u(2)] b
      write_mod [of "q\<lparr>dq_tail := ?t\<rparr>" "dq_head q + int (length xs)" z] by simp_all
  then have "take_back z q = Inr (x, ?q)" by (simp add: take_back_def Let_def t)
  moreover have "holds ?q xs" using ring_pop_back(2) [OF u(2), of z] u(1,4,5) b by (simp add: holds_def)
  ultimately show ?thesis by (intro exI [of _ ?q]) simp
qed

lemma PopFront_holds:
  assumes "holds q xs"
  shows "case xs of [] \<Rightarrow> (\<exists>m. PopFront z q = Inl (Panic m)) | x # ys \<Rightarrow> \<exists>q'. PopFront z q = Inr (x, q') \<and> holds q' ys"
proof (cases xs)
  case Nil
  with assms show ?thesis by (auto simp: PopFront_def holds_def)
next
  case (Cons x ys)
  have "dq_count q > 0" using assms Cons by (simp add: holds_def)
  with take_front_holds [OF assms [unfolded Cons], of z] Cons show ?thesis
    by (auto simp: PopFront_def intro: shrinkIfExcess_holds)
qed

lemma PopBack_holds:
  assumes "holds q xs"
  shows "if xs = [] then \<exists>m. PopBack z q = Inl (Panic m) else \<exists>q'. PopBack z q = Inr (last xs, q') \<and> holds q' (butlast xs)"
proof (cases xs rule: rev_cases)
  case Nil
  with assms show ?thesis by (auto simp: PopBack_def holds_def)
next
  case (snoc ys x)
  have "dq_count q > 0" using assms snoc by (simp add: holds_def)
  with take_back_holds [OF assms [unfolded snoc], of z] snoc show ?thesis
    by (auto simp: PopBack_def intro: shrinkIfExcess_holds)
qed

section \<open>Inside the list\<close>

lemma read_real:
  assumes "holds q xs" "i < length xs"
  shows "dq_read q (dq_real q (int i)) = Inr (xs ! i)"
proof -
  have b: "buf q \<noteq> []" using holds_buf [OF assms(1)] assms(2) by (cases xs) auto
  note u = holds_unfold [OF assms(1) b]
  show ?thesis using u(2) assms(2) read_mod [OF b, of "dq_head q + int i"] by (simp add: u(8) ring_def)
qed

lemma write_real:
  assumes "holds q xs" "i < length xs"
  shows "\<exists>q'. dq_write q (dq_real q (int i)) x = Inr q' \<and> holds q' (xs[i := x]) \<and>
    dq_head q' = dq_head q \<and> dq_Cap q' = dq_Cap q \<and> dq_tail q' = dq_tail q"
proof -
  have b: "buf q \<noteq> []" using holds_buf [OF assms(1)] assms(2) by (cases xs) auto
  note u = holds_unfold [OF assms(1) b]
  show ?thesis
    using write_mod [OF b, of "dq_head q + int i" x] ring_write [OF u(2) assms(2), of x] u(1,3,4,5) b
    by (simp add: u(8) holds_def)
qed

lemma dq_At_holds:
  assumes "holds q xs"
  shows "if 0 \<le> i \<and> i < int (length xs) then dq_At i q = Inr (xs ! nat i) else \<exists>m. dq_At i q = Inl (Panic m)"
  using assms read_real [OF assms, of "nat i"] by (auto simp: dq_At_def checkRange_def holds_def)

lemma dq_Set_holds:
  assumes "holds q xs"
  shows "if 0 \<le> i \<and> i < int (length xs) then \<exists>q'. dq_Set i x q = Inr q' \<and> holds q' (xs[nat i := x])
    else \<exists>m. dq_Set i x q = Inl (Panic m)"
proof -
  have c: "dq_count q = int (length xs)" using assms by (simp add: holds_def)
  show ?thesis
  proof (cases "0 \<le> i \<and> i < int (length xs)")
    case True
    then have "nat i < length xs" by auto
    from write_real [OF assms this, of x] True c show ?thesis by (auto simp: dq_Set_def checkRange_def)
  qed (auto simp: dq_Set_def checkRange_def c)
qed

definition same_place :: "'a Deque \<Rightarrow> 'a Deque \<Rightarrow> bool" where
  "same_place q q' \<longleftrightarrow> dq_head q' = dq_head q \<and> dq_Cap q' = dq_Cap q \<and> dq_tail q' = dq_tail q"

lemma same_place_real: "same_place q q' \<Longrightarrow> dq_real q' i = dq_real q i"
  by (simp add: same_place_def dq_real_def)

lemma same_place_trans: "same_place p q \<Longrightarrow> same_place q r \<Longrightarrow> same_place p r"
  by (simp add: same_place_def)

lemma swap_at_holds:
  assumes "holds q xs" "i < length xs" "j < length xs"
  shows "\<exists>q'. swap_at q (dq_real q (int i)) (dq_real q (int j)) = Inr q' \<and> holds q' (xs[i := xs ! j, j := xs ! i]) \<and> same_place q q'"
proof -
  obtain q1 where q1: "dq_write q (dq_real q (int i)) (xs ! j) = Inr q1" "holds q1 (xs[i := xs ! j])" "same_place q q1"
    using write_real [OF assms(1,2)] by (auto simp: same_place_def)
  have "j < length (xs[i := xs ! j])" using assms(3) by simp
  then obtain q2 where q2: "dq_write q1 (dq_real q1 (int j)) (xs ! i) = Inr q2" "holds q2 (xs[i := xs ! j, j := xs ! i])" "same_place q1 q2"
    using write_real [OF q1(2), of j "xs ! i"] by (auto simp: same_place_def)
  have "swap_at q (dq_real q (int i)) (dq_real q (int j)) = Inr q2"
    using q1(1) q2(1) read_real [OF assms(1,2)] read_real [OF assms(1,3)] same_place_real [OF q1(3)]
    by (simp add: swap_at_def)
  with q2(2) same_place_trans [OF q1(3) q2(3)] show ?thesis by blast
qed

lemma next_real:
  assumes "holds q xs" "buf q \<noteq> []"
  shows "dq_next q (dq_real q i) = dq_real q (i + 1)" "dq_prev q (dq_real q i) = dq_real q (i - 1)"
proof -
  note u = holds_unfold [OF assms]
  show "dq_next q (dq_real q i) = dq_real q (i + 1)" by (simp add: u(6,8) mod_add_left_eq add.assoc)
  show "dq_prev q (dq_real q i) = dq_real q (i - 1)" by (simp add: u(7,8) mod_diff_left_eq) (simp add: algebra_simps)
qed

text \<open>The iterators and the searches run along the list and along its reverse.\<close>

fun iter_list :: "('a \<Rightarrow> 's \<Rightarrow> bool \<times> 's) \<Rightarrow> 'a list \<Rightarrow> 's \<Rightarrow> 's" where
  "iter_list yield [] s = s"
| "iter_list yield (x # xs) s = (case yield x s of (go, s1) \<Rightarrow> if go then iter_list yield xs s1 else s1)"

lemma iter_loop_holds:
  "holds q (as @ bs) \<Longrightarrow> iter_loop (length bs) (dq_real q (int (length as))) q yield s = Inr (iter_list yield bs s)"
proof (induction bs arbitrary: as s)
  case (Cons b bs)
  then have "buf q \<noteq> []" using holds_buf by blast
  with Cons.prems have "dq_next q (dq_real q (int (length as))) = dq_real q (int (length (as @ [b])))"
    using next_real(1) [of q "as @ b # bs" "int (length as)"] by (simp add: add.commute)
  moreover have "dq_read q (dq_real q (int (length as))) = Inr b"
    using read_real [OF Cons.prems, of "length as"] by simp
  ultimately show ?case using Cons.IH [of "as @ [b]"] Cons.prems by (simp split: prod.split)
qed simp

lemma riter_loop_holds:
  "holds q (as @ bs) \<Longrightarrow> riter_loop (length as) (dq_real q (int (length as))) q yield s = Inr (iter_list yield (rev as) s)"
proof (induction as arbitrary: bs s rule: rev_induct)
  case (snoc a as)
  then have "buf q \<noteq> []" using holds_buf by blast
  with snoc.prems have "dq_prev q (dq_real q (int (length (as @ [a])))) = dq_real q (int (length as))"
    using next_real(2) [of q "as @ [a] @ bs" "int (length (as @ [a]))"] by simp
  moreover have "dq_read q (dq_real q (int (length as))) = Inr a"
    using read_real [OF snoc.prems, of "length as"] by (simp add: nth_append)
  ultimately show ?case using snoc.IH [of "a # bs"] snoc.prems by (simp split: prod.split)
qed simp

lemma dq_Iter_holds:
  assumes "holds q xs"
  shows "dq_Iter q yield s = Inr (iter_list yield xs s)" "dq_RIter q yield s = Inr (iter_list yield (rev xs) s)"
proof -
  have "dq_Iter q yield s = Inr (iter_list yield xs s) \<and> dq_RIter q yield s = Inr (iter_list yield (rev xs) s)"
  proof (cases "buf q = []")
    case False
    note u = holds_unfold [OF assms False]
    have "dq_real q 0 = dq_head q" "dq_real q (int (length xs)) = dq_tail q" using u(3,8-10) by simp_all
    with iter_loop_holds [of q "[]" xs yield s] riter_loop_holds [of q xs "[]" yield s] assms u(4) show ?thesis
      by (simp add: dq_Iter_def dq_RIter_def)
  qed (use assms in \<open>simp add: holds_def dq_Iter_def dq_RIter_def\<close>)
  then show "dq_Iter q yield s = Inr (iter_list yield xs s)" "dq_RIter q yield s = Inr (iter_list yield (rev xs) s)" by auto
qed

section \<open>Looking, searching and emptying\<close>

lemma real_ends:
  assumes "holds q xs" "buf q \<noteq> []"
  shows "dq_real q 0 = dq_head q" "dq_real q (int (length xs)) = dq_tail q"
  using holds_unfold [OF assms] by simp_all

lemma dq_Front_holds:
  assumes "holds q xs"
  shows "if xs = [] then \<exists>m. dq_Front q = Inl (Panic m) else dq_Front q = Inr (hd xs)"
proof (cases "xs = []")
  case False
  with assms have "buf q \<noteq> []" "dq_count q > 0" by (auto simp: holds_def)
  with read_real [OF assms, of 0] real_ends(1) [OF assms] False show ?thesis by (simp add: dq_Front_def hd_conv_nth)
qed (use assms in \<open>simp add: holds_def dq_Front_def\<close>)

lemma dq_Back_holds:
  assumes "holds q xs"
  shows "if xs = [] then \<exists>m. dq_Back q = Inl (Panic m) else dq_Back q = Inr (last xs)"
proof (cases "xs = []")
  case False
  with assms have b: "buf q \<noteq> []" "dq_count q > 0" by (auto simp: holds_def)
  have "dq_prev q (dq_tail q) = dq_real q (int (length xs - 1))"
    using next_real(2) [OF assms b(1), of "int (length xs)"] real_ends(2) [OF assms b(1)] False by (simp add: of_nat_diff Suc_le_eq)
  with read_real [OF assms, of "length xs - 1"] b(2) False show ?thesis by (simp add: dq_Back_def last_conv_nth)
qed (use assms in \<open>simp add: holds_def dq_Back_def\<close>)

lemma dq_Swap_holds:
  assumes "holds q xs"
  shows "if 0 \<le> i \<and> i < int (length xs) \<and> 0 \<le> j \<and> j < int (length xs)
    then \<exists>q'. dq_Swap i j q = Inr q' \<and> holds q' (xs[nat i := xs ! nat j, nat j := xs ! nat i])
    else \<exists>m. dq_Swap i j q = Inl (Panic m)"
proof -
  have c: "dq_count q = int (length xs)" using assms by (simp add: holds_def)
  show ?thesis
  proof (cases "0 \<le> i \<and> i < int (length xs) \<and> 0 \<le> j \<and> j < int (length xs)")
    case True
    then have "nat i < length xs" "nat j < length xs" by auto
    from swap_at_holds [OF assms this] True c assms show ?thesis
      by (auto simp: dq_Swap_def checkRange_def)
  qed (auto simp: dq_Swap_def checkRange_def c)
qed

lemma dq_Clear_holds:
  assumes "holds q xs"
  shows "holds (dq_Clear z q) []"
proof (cases "xs = []")
  case False
  then have b: "buf q \<noteq> []" using holds_buf [OF assms] by blast
  note u = holds_unfold [OF assms b]
  have t: "0 \<le> dq_tail q" "dq_tail q < dq_Cap q" using u(3,9,10) by (metis pos_mod_sign pos_mod_bound order_le_less_trans)+
  have len: "length (buf (dq_Clear z q)) = length (buf q)"
    using False u(4,9,10) t by (auto simp: dq_Clear_def Let_def)
  have "dq_head (dq_Clear z q) = 0" "dq_tail (dq_Clear z q) = 0" "dq_count (dq_Clear z q) = 0" "dq_minCap (dq_Clear z q) = dq_minCap q"
    using False u(4) by (simp_all add: dq_Clear_def Let_def)
  with len b u(1,5) show ?thesis by (auto simp: holds_def ring_def)
qed (use assms in \<open>simp add: holds_def dq_Clear_def\<close>)

lemma AppendToSlice_holds: "holds q xs \<Longrightarrow> AppendToSlice out q = out @ xs"
proof (cases "xs = []")
  case False
  assume q: "holds q xs"
  note u = holds_unfold [OF q holds_buf [OF q False]]
  show ?thesis using parts_list [OF u(2,3) False] u(4) False by (simp add: AppendToSlice_def)
qed (simp add: holds_def AppendToSlice_def)

definition first_at :: "('a \<Rightarrow> bool) \<Rightarrow> 'a list \<Rightarrow> int \<Rightarrow> bool" where
  "first_at f xs r \<longleftrightarrow> (if \<exists>x \<in> set xs. f x then \<exists>k < length xs. r = int k \<and> f (xs ! k) \<and> (\<forall>l < k. \<not> f (xs ! l)) else r = - 1)"

definition last_at :: "('a \<Rightarrow> bool) \<Rightarrow> 'a list \<Rightarrow> int \<Rightarrow> bool" where
  "last_at f xs r \<longleftrightarrow>
     (if \<exists>x \<in> set xs. f x then \<exists>k < length xs. r = int k \<and> f (xs ! k) \<and> (\<forall>l. k < l \<and> l < length xs \<longrightarrow> \<not> f (xs ! l)) else r = - 1)"

lemma index_loop_holds:
  "holds q (as @ bs) \<Longrightarrow> \<forall>x \<in> set as. \<not> f x \<Longrightarrow> \<exists>r. index_loop (length bs) (int (length as)) q f = Inr r \<and> first_at f (as @ bs) r"
proof (induction bs arbitrary: as)
  case (Cons b bs)
  have "dq_read q (dq_real q (int (length as))) = Inr b" using read_real [OF Cons.prems(1), of "length as"] by simp
  moreover have "first_at f (as @ b # bs) (int (length as))" if "f b"
    using that Cons.prems(2) by (auto simp: first_at_def nth_append intro!: exI [of _ "length as"])
  ultimately show ?case using Cons.IH [of "as @ [b]"] Cons.prems by (simp add: add.commute)
qed (auto simp: first_at_def)

lemma rindex_loop_holds:
  "holds q (as @ bs) \<Longrightarrow> \<forall>x \<in> set bs. \<not> f x \<Longrightarrow> \<exists>r. rindex_loop (length as) q f = Inr r \<and> last_at f (as @ bs) r"
proof (induction as arbitrary: bs rule: rev_induct)
  case (snoc a as)
  have "dq_read q (dq_real q (int (length as))) = Inr a"
    using read_real [OF snoc.prems(1), of "length as"] by (simp add: nth_append)
  moreover have "last_at f (as @ a # bs) (int (length as))" if "f a"
    using that snoc.prems(2) by (auto simp: last_at_def nth_append nth_Cons' intro!: exI [of _ "length as"])
  ultimately show ?case using snoc.IH [of "a # bs"] snoc.prems by simp
qed (auto simp: last_at_def)

lemma dq_Index_holds:
  assumes "holds q xs"
  shows "\<exists>r. dq_Index f q = Inr r \<and> first_at f xs r" "\<exists>r. dq_RIndex f q = Inr r \<and> last_at f xs r"
  using index_loop_holds [of q "[]" xs f] rindex_loop_holds [of q xs "[]" f] assms
  by (simp_all add: dq_Index_def dq_RIndex_def holds_def)

section \<open>Capacity\<close>

lemma double_until_power2: "power2 c \<Longrightarrow> \<exists>c'. double_until c n = Inr c' \<and> power2 c' \<and> n \<le> c'"
proof (induction c n rule: double_until.induct)
  case (1 c n)
  have "power2 (push_bit 1 c)" using power2_double [OF 1(2)] by (simp add: push_bit_eq_mult mult.commute)
  with 1 power2_pos [OF 1(2)] show ?case by (cases "n \<le> c") (simp_all add: double_until.simps [of c n])
qed

lemma minCapacity_power2: "power2 minCapacity"
  by (auto simp: power2_def minCapacity_def intro: exI [of _ 3])

lemma SetBaseCap_holds: "holds q xs \<Longrightarrow> \<exists>q'. SetBaseCap n q = Inr q' \<and> holds q' xs \<and> n \<le> dq_minCap q'"
  using double_until_power2 [OF minCapacity_power2, of n] by (auto simp: SetBaseCap_def holds_def)

lemma dq_Grow_holds:
  assumes "holds q xs"
  shows "if n < 0 then \<exists>m. dq_Grow z n q = Inl (Panic m)
    else \<exists>q'. dq_Grow z n q = Inr q' \<and> holds q' xs \<and> int (length xs) + n \<le> dq_Cap q'"
proof -
  have c: "dq_count q = int (length xs)" using assms by (simp add: holds_def)
  show ?thesis
  proof (cases "n < 0 \<or> n \<le> dq_Cap q - dq_count q")
    case False
    have full: "int (length xs) \<le> dq_Cap q" using assms by (auto simp: holds_def ring_def split: if_splits)
    have "power2 (if dq_Cap q = 0 then minCapacity else dq_Cap q)"
      using assms minCapacity_power2 by (auto simp: holds_def split: if_splits)
    then obtain cap where cap: "double_until (if dq_Cap q = 0 then minCapacity else dq_Cap q) (dq_count q + n) = Inr cap"
      "power2 cap" "dq_count q + n \<le> cap" using double_until_power2 by blast
    show ?thesis
    proof (cases "xs = []")
      case True
      then have "holds (q\<lparr>buf := make z cap, dq_head := 0, dq_tail := 0\<rparr>) xs"
        using assms cap(2) power2_pos [OF cap(2)] by (auto simp: holds_def ring_def)
      with True False cap c show ?thesis by (simp add: dq_Grow_def)
    next
      case ne: False
      have "int (length xs) < cap" using False full cap(3) c by simp
      from resize_holds [OF assms ne cap(2) this, of z] False cap c ne show ?thesis by (simp add: dq_Grow_def)
    qed
  qed (use assms c in \<open>auto simp: dq_Grow_def\<close>)
qed

text \<open>The swapping loops carry one element over a segment.\<close>

lemma swap_forward_holds:
  "holds q (as @ x # bs @ cs) \<Longrightarrow>
   \<exists>q'. swap_forward (length bs) (dq_real q (int (length as))) q = Inr q' \<and> holds q' (as @ bs @ x # cs)"
proof (induction bs arbitrary: as q)
  case (Cons b bs)
  let ?xs = "as @ x # (b # bs) @ cs"
  have buf: "buf q \<noteq> []" using holds_buf [OF Cons.prems] by simp
  obtain q1 where q1: "swap_at q (dq_real q (int (length as))) (dq_real q (int (Suc (length as)))) = Inr q1"
    "holds q1 (?xs[length as := ?xs ! Suc (length as), Suc (length as) := ?xs ! length as])" "same_place q q1"
    using swap_at_holds [OF Cons.prems, of "length as" "Suc (length as)"] by auto
  have "?xs[length as := ?xs ! Suc (length as), Suc (length as) := ?xs ! length as] = (as @ [b]) @ x # bs @ cs"
    by (simp add: nth_append list_update_append)
  with q1(2) have "holds q1 ((as @ [b]) @ x # bs @ cs)" by simp
  from Cons.IH [OF this] obtain q2 where
    "swap_forward (length bs) (dq_real q1 (int (length (as @ [b])))) q1 = Inr q2" "holds q2 ((as @ [b]) @ bs @ x # cs)" by blast
  moreover have "dq_next q (dq_real q (int (length as))) = dq_real q1 (int (length (as @ [b])))"
    using next_real [OF Cons.prems buf] same_place_real [OF q1(3)] by (simp add: add.commute)
  moreover have "dq_next q (dq_real q (int (length as))) = dq_real q (int (Suc (length as)))"
    using next_real [OF Cons.prems buf] by (simp add: add.commute)
  ultimately show ?case using q1(1) by simp
qed simp

lemma swap_backward_holds:
  "holds q (as @ bs @ x # cs) \<Longrightarrow>
   \<exists>q'. swap_backward (length bs) (dq_real q (int (length as + length bs))) q = Inr q' \<and> holds q' (as @ x # bs @ cs)"
proof (induction bs arbitrary: cs q rule: rev_induct)
  case (snoc b bs)
  let ?xs = "as @ (bs @ [b]) @ x # cs" and ?i = "length as + length bs"
  have buf: "buf q \<noteq> []" using holds_buf [OF snoc.prems] by simp
  obtain q1 where q1: "swap_at q (dq_real q (int (Suc ?i))) (dq_real q (int ?i)) = Inr q1"
    "holds q1 (?xs[Suc ?i := ?xs ! ?i, ?i := ?xs ! Suc ?i])" "same_place q q1"
    using swap_at_holds [OF snoc.prems, of "Suc ?i" ?i] by auto
  have "?xs[Suc ?i := ?xs ! ?i, ?i := ?xs ! Suc ?i] = as @ bs @ x # b # cs"
    by (simp add: nth_append list_update_append)
  with q1(2) have "holds q1 (as @ bs @ x # b # cs)" by simp
  from snoc.IH [OF this] obtain q2 where
    "swap_backward (length bs) (dq_real q1 (int ?i)) q1 = Inr q2" "holds q2 (as @ x # bs @ b # cs)" by blast
  moreover have "dq_prev q (dq_real q (int (Suc ?i))) = dq_real q (int ?i)" "dq_real q1 (int ?i) = dq_real q (int ?i)"
    using next_real [OF snoc.prems buf, of "int (Suc ?i)"] same_place_real [OF q1(3)] by simp_all
  ultimately show ?case using q1(1) by simp
qed simp

lemma dq_Insert_holds:
  assumes "holds q xs"
  shows "\<exists>q'. dq_Insert z at x q = Inr q' \<and> holds q' (take (nat at) xs @ x # drop (nat at) xs)"
proof -
  have c: "dq_count q = int (length xs)" using assms by (simp add: holds_def)
  let ?a = "take (nat at) xs" and ?d = "drop (nat at) xs"
  consider "at \<le> 0" | "at > 0" "at \<ge> int (length xs)" | "0 < at" "at < int (length xs)" by linarith
  then show ?thesis
  proof cases
    case 1
    then show ?thesis using PushFront_holds [OF assms, of z x] by (simp add: dq_Insert_def)
  next
    case 2
    then show ?thesis using PushBack_holds [OF assms, of z x] c by (simp add: dq_Insert_def)
  next
    case 3
    have xs: "xs = ?a @ ?d" "length ?a = nat at" "length ?d = nat (dq_count q - at)" using 3 c by (auto simp: nat_diff_distrib)
    show ?thesis
    proof (cases "at * 2 < dq_count q")
      case True
      obtain q1 where q1: "PushFront z x q = Inr q1" "holds q1 (x # xs)" using PushFront_holds [OF assms] by blast
      have "buf q1 \<noteq> []" using holds_buf [OF q1(2)] by simp
      from holds_unfold(8-10) [OF q1(2) this] have "dq_real q1 0 = dq_head q1" by simp
      moreover have "holds q1 ([] @ x # ?a @ ?d)" using q1(2) by simp
      ultimately show ?thesis
        using swap_forward_holds [of q1 "[]" x ?a ?d] xs(2) q1(1) 3 c True by (simp add: dq_Insert_def)
    next
      case False
      obtain q1 where q1: "PushBack z x q = Inr q1" "holds q1 (xs @ [x])" using PushBack_holds [OF assms] by blast
      have b: "buf q1 \<noteq> []" using holds_buf [OF q1(2)] by simp
      note u = holds_unfold [OF q1(2) b]
      have "dq_prev q1 (dq_tail q1) = dq_real q1 (int (length xs))"
        unfolding u(7) u(3) u(8) by (simp add: mod_diff_left_eq add.assoc [symmetric])
      moreover have "length ?a + length ?d = length xs" by (metis length_append xs(1))
      moreover have "holds q1 (?a @ ?d @ x # [])" using q1(2) by (simp add: append_assoc [symmetric] del: append_assoc)
      ultimately show ?thesis
        using swap_backward_holds [of q1 ?a ?d x "[]"] xs(3) q1(1) 3 c False by (simp add: dq_Insert_def)
    qed
  qed
qed

lemma dq_Remove_holds:
  assumes "holds q xs"
  shows "if 0 \<le> at \<and> at < int (length xs)
    then \<exists>q'. dq_Remove z at q = Inr (xs ! nat at, q') \<and> holds q' (take (nat at) xs @ drop (Suc (nat at)) xs)
    else \<exists>m. dq_Remove z at q = Inl (Panic m)"
proof (cases "0 \<le> at \<and> at < int (length xs)")
  case False
  with assms show ?thesis by (auto simp: dq_Remove_def checkRange_def holds_def)
next
  case True
  have c: "dq_count q = int (length xs)" using assms by (simp add: holds_def)
  let ?a = "take (nat at) xs" and ?d = "drop (Suc (nat at)) xs" and ?x = "xs ! nat at"
  have n: "nat at < length xs" "int (nat at) = at" using True by auto
  have xs: "xs = ?a @ ?x # ?d" by (rule id_take_nth_drop [OF n(1)])
  have la: "length ?a = nat at" "length ?d = nat (dq_count q - at - 1)" using True c by auto
  show ?thesis
  proof (cases "at * 2 < dq_count q")
    case small: True
    have "holds q ([] @ ?a @ ?x # ?d)" using assms xs by simp
    from swap_backward_holds [OF this] obtain q1 where
      "swap_backward (nat at) (dq_real q at) q = Inr q1" "holds q1 (?x # ?a @ ?d)"
      using la(1) n(2) by auto
    with PopFront_holds [of q1 "?x # ?a @ ?d" z] True small c show ?thesis by (auto simp: dq_Remove_def checkRange_def)
  next
    case False
    have "holds q (?a @ ?x # ?d @ [])" using assms xs by simp
    from swap_forward_holds [OF this] obtain q1 where
      "swap_forward (nat (dq_count q - at - 1)) (dq_real q at) q = Inr q1" "holds q1 ((?a @ ?d) @ [?x])"
      using la n(2) by auto
    with PopBack_holds [of q1 "(?a @ ?d) @ [?x]" z] True False c show ?thesis
      by (auto simp: dq_Remove_def checkRange_def butlast_append)
  qed
qed

section \<open>Rotation\<close>

lemma full_iff:
  assumes "holds q xs" "xs \<noteq> []"
  shows "dq_head q = dq_tail q \<longleftrightarrow> int (length xs) = dq_Cap q"
proof -
  have b: "buf q \<noteq> []" by (rule holds_buf [OF assms])
  note u = holds_unfold [OF assms(1) b]
  have "length xs \<le> length (buf q)" "length xs > 0" using u(2) assms(2) by (auto simp: ring_def)
  then show ?thesis using mod_once [of "dq_head q" "dq_Cap q" "int (length xs)"] u(3,9,10) by auto
qed

lemma ring_rotate:
  assumes "ring b h xs" "length xs = length b" "0 \<le> k"
  shows "ring b ((h + k) mod int (length b)) (rotate (nat k) xs)"
proof -
  let ?n = "int (length b)"
  have pos: "0 < ?n" using assms(1) by (auto simp: ring_def)
  have "b ! nat (((h + k) mod ?n + int i) mod ?n) = rotate (nat k) xs ! i" if "i < length xs" for i
  proof -
    let ?j = "(nat k + i) mod length b"
    have "?j < length xs" using pos assms(2) by simp
    then have "b ! nat ((h + int ?j) mod ?n) = xs ! ?j" using assms(1) by (auto simp: ring_def)
    moreover have "(h + int ?j) mod ?n = ((h + k) mod ?n + int i) mod ?n"
      using assms(3) by (simp add: of_nat_mod mod_add_left_eq mod_add_right_eq add.assoc)
    ultimately show ?thesis using that assms(2) by (simp add: nth_rotate)
  qed
  with assms pos show ?thesis by (auto simp: ring_def)
qed

lemma rotate_front_holds:
  "holds q xs \<Longrightarrow> xs \<noteq> [] \<Longrightarrow> int (length xs) < dq_Cap q \<Longrightarrow>
   \<exists>q'. rotate_front n z q = Inr q' \<and> holds q' (rotate n xs)"
proof (induction n arbitrary: q xs)
  case (Suc n)
  have b: "buf q \<noteq> []" by (rule holds_buf [OF Suc.prems(1,2)])
  note u = holds_unfold [OF Suc.prems(1) b]
  obtain x ys where xs: "xs = x # ys" using Suc.prems(2) by (cases xs) auto
  let ?t = "dq_tail q" and ?n = "dq_Cap q"
  let ?b1 = "(buf q)[nat ?t := x]"
  let ?b2 = "?b1[nat (dq_head q) := z]"
  have r1: "ring ?b1 (dq_head q) (xs @ [x])" using ring_write_free [OF u(2), of x] Suc.prems(3) u(3) by simp
  have r2: "ring ?b2 ((dq_head q + 1) mod ?n) (ys @ [x])"
    using ring_pop_front(2) [of ?b1 "dq_head q" x "ys @ [x]" z] r1 xs by simp
  have t: "0 \<le> ?t" "?t < ?n" using b by (simp_all add: u(3))
  have rd: "dq_read q (dq_head q) = Inr x" "dq_write q ?t x = Inr (q\<lparr>buf := ?b1\<rparr>)"
    using u(9,10) t ring_pop_front(1) [of "buf q" "dq_head q" x ys] u(2) xs by (simp_all add: dq_read_def dq_write_def)
  have wr: "dq_write (q\<lparr>buf := ?b1\<rparr>) (dq_head q) z = Inr (q\<lparr>buf := ?b2\<rparr>)" using u(9,10) by (simp add: dq_write_def)
  let ?q = "q\<lparr>buf := ?b2, dq_head := (dq_head q + 1) mod ?n, dq_tail := (?t + 1) mod ?n\<rparr>"
  have tl: "(?t + 1) mod ?n = ((dq_head q + 1) mod ?n + int (length xs)) mod ?n"
    unfolding u(3) mod_add_left_eq by (simp add: algebra_simps)
  have "holds ?q (ys @ [x])" using r2 tl u(1,4,5) b xs by (simp add: holds_def)
  from Suc.IH [OF this] Suc.prems(3) xs obtain q' where
    "rotate_front n z ?q = Inr q'" "holds q' (rotate n (ys @ [x]))" by auto
  moreover have "rotate_front (Suc n) z q = rotate_front n z ?q" using u(1) by (simp add: rd wr and_mod)
  ultimately show ?case using xs by (simp add: rotate1_rotate_swap)
qed simp

lemma rotate_back_holds:
  "holds q (rotate n xs) \<Longrightarrow> xs \<noteq> [] \<Longrightarrow> int (length xs) < dq_Cap q \<Longrightarrow>
   \<exists>q'. rotate_back n z q = Inr q' \<and> holds q' xs"
proof (induction n arbitrary: q)
  case (Suc n)
  let ?ys = "rotate n xs"
  have ne: "?ys \<noteq> []" "rotate (Suc n) xs \<noteq> []" using Suc.prems(2) by simp_all
  have b: "buf q \<noteq> []" by (rule holds_buf [OF Suc.prems(1) ne(2)])
  note u = holds_unfold [OF Suc.prems(1) b]
  obtain x zs where ys: "?ys = x # zs" using ne(1) by (cases ?ys) auto
  have rot: "rotate (Suc n) xs = zs @ [x]" using ys by simp
  have len: "int (length (zs @ [x])) < dq_Cap q" using Suc.prems(3) rot by (metis length_rotate)
  let ?n = "dq_Cap q" and ?h = "(dq_head q - 1) mod dq_Cap q" and ?t = "(dq_tail q - 1) mod dq_Cap q"
  have t: "?t = (dq_head q + int (length zs)) mod ?n"
    unfolding u(3) rot by (simp add: mod_diff_left_eq add.assoc [symmetric])
  let ?b1 = "(buf q)[nat ?h := x]"
  let ?b2 = "?b1[nat ?t := z]"
  have r1: "ring ?b1 ?h ((x # zs) @ [x])" using ring_push_front [OF u(2) [unfolded rot], of x] len by simp
  have t': "(?h + int (length (x # zs))) mod int (length ?b1) = ?t"
    unfolding t length_list_update mod_add_left_eq by (simp add: algebra_simps)
  have r2: "ring ?b2 ?h (x # zs)" using ring_pop_back(2) [OF r1, of z] unfolding t' .
  have x: "buf q ! nat ?t = x" unfolding t using u(2) [unfolded rot] by (auto simp: ring_def nth_append)
  let ?q = "q\<lparr>dq_head := ?h, dq_tail := ?t, buf := ?b2\<rparr>"
  have "rotate_back (Suc n) z q = rotate_back n z ?q"
    using u(1) b x by (simp add: dq_read_def dq_write_def and_mod Let_def)
  moreover have "holds ?q ?ys" using r2 t' u(1,4,5) b by (simp add: holds_def ys rot)
  from Suc.IH [OF this Suc.prems(2)] Suc.prems(3) obtain q' where "rotate_back n z ?q = Inr q'" "holds q' xs" by auto
  ultimately show ?case by simp
qed simp

lemma rotate_inverse: "m + k = length xs \<Longrightarrow> rotate m (rotate k xs) = xs"
  by (simp add: rotate_rotate rotate_id)

lemma go_rem_mod:
  "l > 0 \<Longrightarrow> go_rem n l = (if n \<ge> 0 \<or> n mod l = 0 then n mod l else n mod l - l)"
  by (auto simp: go_rem_def sgn_if zmod_zminus1_eq_if)

lemma rotate_full_holds:
  assumes "holds q xs" "xs \<noteq> []" "dq_head q = dq_tail q" "0 \<le> k"
  shows "holds (q\<lparr>dq_head := (dq_head q + k) mod dq_Cap q, dq_tail := (dq_head q + k) mod dq_Cap q\<rparr>) (rotate (nat k) xs)"
proof -
  have b: "buf q \<noteq> []" by (rule holds_buf [OF assms(1,2)])
  note u = holds_unfold [OF assms(1) b]
  have full: "length xs = length (buf q)" using full_iff [OF assms(1,2)] assms(3) by simp
  from ring_rotate [OF u(2) full assms(4)] u(1,4,5) b full show ?thesis by (simp add: holds_def)
qed

lemma dq_Rotate_holds:
  assumes "holds q xs"
  shows "\<exists>q'. dq_Rotate z n q = Inr q' \<and> holds q' (rotate (nat (n mod int (length xs))) xs)"
proof -
  have c: "dq_count q = int (length xs)" using assms by (simp add: holds_def)
  let ?l = "int (length xs)" and ?m = "go_rem n (dq_count q)" and ?k = "n mod int (length xs)"
  show ?thesis
  proof (cases "length xs \<le> 1")
    case True
    then have "rotate m xs = xs" for m by (cases xs; cases "tl xs") auto
    with True assms c show ?thesis by (simp add: dq_Rotate_def)
  next
    case False
    then have l: "?l > 1" "xs \<noteq> []" by auto
    have b: "buf q \<noteq> []" by (rule holds_buf [OF assms l(2)])
    note u = holds_unfold [OF assms b]
    have k: "0 \<le> ?k" "?k < ?l" using l(1) pos_mod_sign [of ?l n] pos_mod_bound [of ?l n] by linarith+
    have m: "?m = (if n \<ge> 0 \<or> ?k = 0 then ?k else ?k - ?l)"
      unfolding c using l(1) by (intro go_rem_mod) linarith
    show ?thesis
    proof (cases "?m = 0")
      case True
      then have "?k = 0" using m k by (auto split: if_splits)
      with True assms c l show ?thesis by (simp add: dq_Rotate_def)
    next
      case nz: False
      show ?thesis
      proof (cases "dq_head q = dq_tail q")
        case True
        then have "?l = dq_Cap q" using full_iff [OF assms l(2)] by simp
        then have "(dq_head q + ?m) mod dq_Cap q = (dq_head q + ?k) mod dq_Cap q" using m by (auto simp: add_diff_eq)
        with rotate_full_holds [OF assms l(2) True k(1)] True nz c l u(1) show ?thesis
          by (simp add: dq_Rotate_def Let_def and_mod)
      next
        case notfull: False
        have "length xs \<le> length (buf q)" using u(2) by (simp add: ring_def)
        then have room: "?l < dq_Cap q" using full_iff [OF assms l(2)] notfull by linarith
        show ?thesis
        proof (cases "?m < 0")
          case True
          then have mk: "?m = ?k - ?l" using m k by (auto split: if_splits)
          then have "nat (- ?m) + nat ?k = length xs" using k by linarith
          then have "holds q (rotate (nat (- ?m)) (rotate (nat ?k) xs))" using assms by (simp only: rotate_inverse)
          from rotate_back_holds [OF this, of z] room l(2) True nz notfull c l(1) show ?thesis
            by (simp add: dq_Rotate_def Let_def)
        next
          case False
          then have "?m = ?k" using m k by (auto split: if_splits)
          with rotate_front_holds [OF assms l(2) room, of "nat ?k" z] False nz notfull c l(1) show ?thesis
            by (simp add: dq_Rotate_def Let_def)
        qed
      qed
    qed
  qed
qed

section \<open>Queues over a deque\<close>

text \<open>
  A queue in the use of a deque: one end takes elements, an end gives them back.  Pushing and
  popping through either pair of ends is first in, first out.
\<close>

fun push_all :: "('a \<Rightarrow> 'q \<Rightarrow> ('e, 'q) result) \<Rightarrow> 'a list \<Rightarrow> 'q \<Rightarrow> ('e, 'q) result" where
  "push_all push [] q = Inr q"
| "push_all push (x # xs) q = result_bind (push x q) (push_all push xs)"

fun pop_n :: "('q \<Rightarrow> ('e, 'a \<times> 'q) result) \<Rightarrow> nat \<Rightarrow> 'q \<Rightarrow> ('e, 'a list \<times> 'q) result" where
  "pop_n pop 0 q = Inr ([], q)"
| "pop_n pop (Suc n) q =
     result_bind (pop q) (\<lambda>(x, q1). result_bind (pop_n pop n q1) (\<lambda>(xs, q2). Inr (x # xs, q2)))"

locale list_queue =
  fixes rep :: "'q \<Rightarrow> 'a list \<Rightarrow> bool" and push :: "'a \<Rightarrow> 'q \<Rightarrow> ('e, 'q) result"
    and pop :: "'q \<Rightarrow> ('e, 'a \<times> 'q) result"
  assumes push: "rep q xs \<Longrightarrow> \<exists>q'. push x q = Inr q' \<and> rep q' (xs @ [x])"
    and pop: "rep q (x # xs) \<Longrightarrow> \<exists>q'. pop q = Inr (x, q') \<and> rep q' xs"
begin

lemma push_all_rep: "rep q xs \<Longrightarrow> \<exists>q'. push_all push ys q = Inr q' \<and> rep q' (xs @ ys)"
proof (induction ys arbitrary: q xs)
  case (Cons y ys)
  from push [OF Cons.prems, of y] obtain q1 where "push y q = Inr q1" "rep q1 (xs @ [y])" by blast
  with Cons.IH [of q1 "xs @ [y]"] show ?case by simp
qed simp

lemma pop_n_rep: "rep q (ys @ xs) \<Longrightarrow> \<exists>q'. pop_n pop (length ys) q = Inr (ys, q') \<and> rep q' xs"
proof (induction ys arbitrary: q)
  case (Cons y ys)
  from pop [of q y "ys @ xs"] Cons.prems obtain q1 where "pop q = Inr (y, q1)" "rep q1 (ys @ xs)" by auto
  with Cons.IH [of q1] show ?case by auto
qed auto

lemma fifo: "rep q [] \<Longrightarrow> \<exists>q'. result_bind (push_all push ys q) (pop_n pop (length ys)) = Inr (ys, q') \<and> rep q' []"
  using push_all_rep [of q "[]" ys] pop_n_rep [of _ ys "[]"] by force

end

interpretation back_to_front: list_queue holds "PushBack z" "PopFront z"
proof
  show "holds q (x # xs) \<Longrightarrow> \<exists>q'. PopFront z q = Inr (x, q') \<and> holds q' xs" for q x xs
    using PopFront_holds [of q "x # xs" z] by simp
qed (rule PushBack_holds)

interpretation front_to_back: list_queue "\<lambda>q xs. holds q (rev xs)" "PushFront z" "PopBack z"
proof
  show "holds q (rev xs) \<Longrightarrow> \<exists>q'. PushFront z x q = Inr q' \<and> holds q' (rev (xs @ [x]))" for q x xs
    using PushFront_holds [of q "rev xs" z x] by simp
  show "holds q (rev (x # xs)) \<Longrightarrow> \<exists>q'. PopBack z q = Inr (x, q') \<and> holds q' (rev xs)" for q x xs
    using PopBack_holds [of q "rev (x # xs)" z] by simp
qed

lemma zero_holds: "holds zeroDeque []"
  by (simp add: holds_def zeroDeque_def)

section \<open>Properties\<close>

text \<open>
  C35.  The ring buffer implements a list.  On a deque that holds \<open>xs\<close>, pushing and popping at the
  ends, looking at them, reading, writing, inserting and removing at an index, swapping, rotating, clearing,
  growing and setting the base capacity never touch a position outside the buffer, panic exactly where the
  list has no such element (\<open>Grow\<close>: where the count is negative), return what the list returns and leave a deque that
  holds the list's next value, through every growth and shrinking of the buffer.  \<open>Iter\<close> and \<open>RIter\<close> hand the elements
  over from the front and from the back until the consumer stops, \<open>Index\<close> and \<open>RIndex\<close> find the first and the last
  position where a test holds, and \<open>AppendToSlice\<close> appends the list.  \<open>Copy\<close>, \<open>CopyInSlice\<close>, \<open>CopyOutSlice\<close> and the two
  popping iterators are not part of this: \<open>Copy\<close> and \<open>CopyInSlice\<close> may leave a deque that holds no list (below).
\<close>

theorem Deque_refines_list:
  assumes "holds q xs"
  shows "(\<exists>q'. PushBack z x q = Inr q' \<and> holds q' (xs @ [x])) \<and>
    (\<exists>q'. PushFront z x q = Inr q' \<and> holds q' (x # xs)) \<and>
    (if xs = [] then \<exists>m. PopFront z q = Inl (Panic m) else \<exists>q'. PopFront z q = Inr (hd xs, q') \<and> holds q' (tl xs)) \<and>
    (if xs = [] then \<exists>m. PopBack z q = Inl (Panic m) else \<exists>q'. PopBack z q = Inr (last xs, q') \<and> holds q' (butlast xs)) \<and>
    (if xs = [] then \<exists>m m'. dq_Front q = Inl (Panic m) \<and> dq_Back q = Inl (Panic m')
     else dq_Front q = Inr (hd xs) \<and> dq_Back q = Inr (last xs)) \<and>
    (if 0 \<le> i \<and> i < int (length xs)
     then dq_At i q = Inr (xs ! nat i) \<and> (\<exists>q'. dq_Set i x q = Inr q' \<and> holds q' (xs[nat i := x])) \<and>
       (\<exists>q'. dq_Remove z i q = Inr (xs ! nat i, q') \<and> holds q' (take (nat i) xs @ drop (Suc (nat i)) xs))
     else \<exists>m m' m''. dq_At i q = Inl (Panic m) \<and> dq_Set i x q = Inl (Panic m') \<and> dq_Remove z i q = Inl (Panic m'')) \<and>
    (if 0 \<le> i \<and> i < int (length xs) \<and> 0 \<le> j \<and> j < int (length xs)
     then \<exists>q'. dq_Swap i j q = Inr q' \<and> holds q' (xs[nat i := xs ! nat j, nat j := xs ! nat i])
     else \<exists>m. dq_Swap i j q = Inl (Panic m)) \<and>
    (\<exists>q'. dq_Insert z i x q = Inr q' \<and> holds q' (take (nat i) xs @ x # drop (nat i) xs)) \<and>
    (\<exists>q'. dq_Rotate z n q = Inr q' \<and> holds q' (rotate (nat (n mod int (length xs))) xs)) \<and>
    holds (dq_Clear z q) [] \<and>
    (if n < 0 then \<exists>m. dq_Grow z n q = Inl (Panic m)
     else \<exists>q'. dq_Grow z n q = Inr q' \<and> holds q' xs \<and> int (length xs) + n \<le> dq_Cap q') \<and>
    (\<exists>q'. SetBaseCap n q = Inr q' \<and> holds q' xs \<and> n \<le> dq_minCap q') \<and>
    dq_Iter q yield s = Inr (iter_list yield xs s) \<and> dq_RIter q yield s = Inr (iter_list yield (rev xs) s) \<and>
    (\<exists>r. dq_Index f q = Inr r \<and> first_at f xs r) \<and> (\<exists>r. dq_RIndex f q = Inr r \<and> last_at f xs r) \<and>
    AppendToSlice out q = out @ xs"
proof (intro conjI)
  show "if xs = [] then \<exists>m. PopFront z q = Inl (Panic m) else \<exists>q'. PopFront z q = Inr (hd xs, q') \<and> holds q' (tl xs)"
    using PopFront_holds [OF assms, of z] by (cases xs) auto
  show "if xs = [] then \<exists>m m'. dq_Front q = Inl (Panic m) \<and> dq_Back q = Inl (Panic m')
     else dq_Front q = Inr (hd xs) \<and> dq_Back q = Inr (last xs)"
    using dq_Front_holds [OF assms] dq_Back_holds [OF assms] by (cases "xs = []") auto
  show "if 0 \<le> i \<and> i < int (length xs)
     then dq_At i q = Inr (xs ! nat i) \<and> (\<exists>q'. dq_Set i x q = Inr q' \<and> holds q' (xs[nat i := x])) \<and>
       (\<exists>q'. dq_Remove z i q = Inr (xs ! nat i, q') \<and> holds q' (take (nat i) xs @ drop (Suc (nat i)) xs))
     else \<exists>m m' m''. dq_At i q = Inl (Panic m) \<and> dq_Set i x q = Inl (Panic m') \<and> dq_Remove z i q = Inl (Panic m'')"
    using dq_At_holds [OF assms, of i] dq_Set_holds [OF assms, of i x] dq_Remove_holds [OF assms, of i z]
    by (cases "0 \<le> i \<and> i < int (length xs)") (simp_all only: if_True if_False simp_thms, blast)
qed (use assms in \<open>rule PushBack_holds PushFront_holds PopBack_holds dq_Swap_holds dq_Insert_holds dq_Rotate_holds dq_Clear_holds
  dq_Grow_holds SetBaseCap_holds dq_Iter_holds dq_Index_holds AppendToSlice_holds\<close>)+

theorem Deque_refines_list_witness:
  "\<exists>q. holds q [1 :: nat, 2] \<and> (\<exists>q'. PopBack 0 q = Inr (2, q') \<and> holds q' [1]) \<and> dq_At 0 q = Inr 1 \<and>
     dq_Iter q (\<lambda>x s. (True, s + x)) (0 :: nat) = Inr 3"
proof -
  obtain q1 q2 where q1: "PushBack 0 1 zeroDeque = Inr q1" "holds q1 [1 :: nat]" and q2: "PushBack 0 2 q1 = Inr q2" "holds q2 [1, 2]"
    using PushBack_holds [OF zero_holds, of 0 "1 :: nat"] PushBack_holds [of _ "[1]" 0 "2 :: nat"] by fastforce
  from Deque_refines_list [OF q2(2), of 0 0 0 0 0 "\<lambda>x s. (True, s + x)" "0 :: nat"] q2(2) show ?thesis by auto
qed

text \<open>
  \<open>Copy\<close> into a deque that ends up exactly full leaves \<open>tail\<close> one past the buffer.  The next
  push after a pop then indexes outside the buffer and panics: copying eight elements into a new
  deque, popping one and pushing one is enough.
\<close>

lemma Deque_Copy_full_then_push_panics:
  "result_bind (push_all (PushBack 0) [1, 2, 3, 4, 5, 6, 7, 8 :: nat] zeroDeque) (\<lambda>src.
     result_bind (dq_Copy 0 src zeroDeque) (\<lambda>q.
       result_bind (PopFront 0 q) (\<lambda>(x, q1). PushBack 0 9 q1))) = Inl BufferIndex"
  by code_simp

end
