(* ===== verification/Domain_Set.thy ===== *)
theory Domain_Set
  imports Domain_Trie "HOL-Library.List_Lexorder" "HOL-Library.Char_ord" "HOL-Library.Sublist"
begin

unbundle bit_operations_syntax

text \<open>
  \<open>component/trie/domain_set.go\<close>: the compressed set of domains that the domain rule providers match against.
  It is a trie over the bytes of the reversed names, stored level by level: \<open>labels\<close> has the edges of all nodes in
  the order of a breadth-first walk, \<open>labelBitmap\<close> a zero for every edge and a one after the edges of
  each node, \<open>leaves\<close> a one for every node that ends a name.  The child of an edge is found by
  counting zeros, its own edges by selecting a one.  Counting and selecting are functions of the
  package \<open>openacid/low/bitmap\<close>, an argument of the model whose documented behaviour is \<open>bitmap_law\<close>.
\<close>

section \<open>Bitmaps\<close>

type_synonym bitmap = "64 word list"

record bitmap_pkg =
  IndexSelect32R64 :: "bitmap \<Rightarrow> int list \<times> int list"
  Rank64 :: "bitmap \<Rightarrow> int list \<Rightarrow> int \<Rightarrow> int \<times> int"
  Select32R64 :: "bitmap \<Rightarrow> int list \<Rightarrow> int list \<Rightarrow> int \<Rightarrow> int \<times> int"

text \<open>The conversion \<open>int32(i)\<close>.\<close>

definition int32 :: "int \<Rightarrow> int" where
  "int32 i = sint (word_of_int i :: 32 word)"

definition setBit :: "bitmap \<Rightarrow> nat \<Rightarrow> 64 word \<Rightarrow> bitmap" where
  "setBit bm i v =
     (let bm1 = bm @ replicate (Suc (i div 64) - length bm) 0
      in bm1[i div 64 := (bm1 ! (i div 64)) OR push_bit (i mod 64) v])"

text \<open>An index out of range panics, which is \<^const>\<open>None\<close>.\<close>

definition index :: "'a list \<Rightarrow> int \<Rightarrow> 'a option" where
  "index xs i = (if 0 \<le> i \<and> i < int (length xs) then Some (xs ! nat i) else None)"

definition getBit :: "bitmap \<Rightarrow> int \<Rightarrow> 64 word option" where
  "getBit bm i = map_option (\<lambda>w. w AND push_bit (nat (i mod 64)) 1) (index bm (i div 64))"

section \<open>The set\<close>

record DomainSet =
  ds_leaves :: bitmap
  ds_labelBitmap :: bitmap
  ds_labels :: string
  ds_ranks :: "int list"
  ds_selects :: "int list"

definition ds_init :: "bitmap_pkg \<Rightarrow> DomainSet \<Rightarrow> DomainSet" where
  "ds_init P ss = (let (selects, ranks) = IndexSelect32R64 P (ds_labelBitmap ss) in ss\<lparr>ds_selects := selects, ds_ranks := ranks\<rparr>)"

definition countZeros :: "bitmap_pkg \<Rightarrow> bitmap \<Rightarrow> int list \<Rightarrow> int \<Rightarrow> int" where
  "countZeros P bm ranks i = i - fst (Rank64 P bm ranks (int32 i))"

definition selectIthOne :: "bitmap_pkg \<Rightarrow> bitmap \<Rightarrow> int list \<Rightarrow> int list \<Rightarrow> int \<Rightarrow> int" where
  "selectIthOne P bm ranks selects i = fst (Select32R64 P bm selects ranks (int32 i))"

text \<open>
  The queue's elements are a range of the sorted keys and the column of their next byte.  \<open>run_end\<close> is the
  inner loop that passes the keys with the same byte, \<open>runs\<close> the loop around it.
\<close>

type_synonym qElt = "nat \<times> nat \<times> nat"

definition key_at :: "string list \<Rightarrow> nat \<Rightarrow> nat \<Rightarrow> char option" where
  "key_at keys j col = (if j < length keys \<and> col < length (keys ! j) then Some (keys ! j ! col) else None)"

function run_end :: "string list \<Rightarrow> nat \<Rightarrow> nat \<Rightarrow> char \<Rightarrow> nat \<Rightarrow> nat option" where
  "run_end keys e col c j =
     (if j < e then
        (case key_at keys j col of
           None \<Rightarrow> None
         | Some d \<Rightarrow> if d = c then run_end keys e col c (Suc j) else Some j)
      else Some j)"
  by pat_completeness auto
termination by (relation "measure (\<lambda>(keys, e, col, c, j). e - j)") auto

declare run_end.simps [simp del]

lemma run_end_ge: "run_end keys e col c j = Some j' \<Longrightarrow> j \<le> j'"
  by (induction keys e col c j rule: run_end.induct) (subst (asm) run_end.simps, auto split: if_splits option.splits)

lemma run_end_greater:
  "key_at keys j col = Some c \<Longrightarrow> j < e \<Longrightarrow> run_end keys e col c j = Some j' \<Longrightarrow> j < j'"
  by (subst (asm) run_end.simps) (auto dest: run_end_ge)

function runs :: "string list \<Rightarrow> nat \<Rightarrow> nat \<Rightarrow> nat \<Rightarrow> (char \<times> qElt) list option" where
  "runs keys e col j =
     (if j < e then
        (case key_at keys j col of
           None \<Rightarrow> None
         | Some c \<Rightarrow>
             (case run_end keys e col c j of
                None \<Rightarrow> None
              | Some j' \<Rightarrow> map_option (\<lambda>rs. (c, j, j', Suc col) # rs) (runs keys e col j')))
      else Some [])"
  by pat_completeness auto
termination by (relation "measure (\<lambda>(keys, e, col, j). e - j)") (auto dest: run_end_greater)

declare runs.simps [simp del]

lemma run_end_facts:
  assumes "run_end keys e col c j = Some j'" "j \<le> e"
  shows "j' \<le> e" "\<And>u. j \<le> u \<Longrightarrow> u < j' \<Longrightarrow> key_at keys u col = Some c"
    "j' < e \<Longrightarrow> \<exists>d. key_at keys j' col = Some d \<and> d \<noteq> c"
proof -
  have "j' \<le> e \<and> (\<forall>u. j \<le> u \<and> u < j' \<longrightarrow> key_at keys u col = Some c) \<and> (j' < e \<longrightarrow> (\<exists>d. key_at keys j' col = Some d \<and> d \<noteq> c))"
    using assms
  proof (induction keys e col c j rule: run_end.induct)
    case (1 keys e col c j)
    show ?case
    proof (cases "j < e \<and> key_at keys j col = Some c")
      case True
      with 1 have *: "j' \<le> e" "\<forall>u. Suc j \<le> u \<and> u < j' \<longrightarrow> key_at keys u col = Some c"
        "j' < e \<longrightarrow> (\<exists>d. key_at keys j' col = Some d \<and> d \<noteq> c)" by (auto simp: run_end.simps [of keys e col c j])
      have "key_at keys u col = Some c" if "j \<le> u" "u < j'" for u
        using that * True by (cases "u = j") auto
      with * show ?thesis by blast
    next
      case False
      with 1(2,3) have "j' = j" "j' < e \<longrightarrow> (\<exists>d. key_at keys j' col = Some d \<and> d \<noteq> c)"
        by (auto simp: run_end.simps [of keys e col c j] split: if_splits option.splits)
      with 1(3) show ?thesis by auto
    qed
  qed
  then show "j' \<le> e" "\<And>u. j \<le> u \<Longrightarrow> u < j' \<Longrightarrow> key_at keys u col = Some c"
    "j' < e \<Longrightarrow> \<exists>d. key_at keys j' col = Some d \<and> d \<noteq> c" by blast+
qed

text \<open>What is left to be read below a queue element; it bounds the loop over the queue.\<close>

definition unread :: "string list \<Rightarrow> nat \<Rightarrow> nat \<Rightarrow> nat \<Rightarrow> nat" where
  "unread keys s e col = (\<Sum>j = s..<e. length (keys ! j) - col)"

fun weight :: "string list \<Rightarrow> qElt \<Rightarrow> nat" where
  "weight keys (s, e, col) = Suc (2 * unread keys s e col)"

lemma unread_split: "s \<le> m \<Longrightarrow> m \<le> e \<Longrightarrow> unread keys s e col = unread keys s m col + unread keys m e col"
  unfolding unread_def by (simp add: sum.atLeastLessThan_concat)

lemma unread_deeper:
  assumes "\<And>u. j \<le> u \<Longrightarrow> u < j' \<Longrightarrow> col < length (keys ! u)"
  shows "unread keys j j' (Suc col) + (j' - j) = unread keys j j' col"
proof -
  have "unread keys j j' col = (\<Sum>u = j..<j'. (length (keys ! u) - Suc col) + 1)"
    unfolding unread_def using assms by (intro sum.cong) (auto simp: Suc_diff_Suc)
  then show ?thesis by (simp add: unread_def sum_Suc)
qed

lemma runs_weight:
  assumes "runs keys e col j = Some rs"
  shows "sum_list (map (weight keys \<circ> snd) rs) \<le> 2 * unread keys j e col"
  using assms
proof (induction keys e col j arbitrary: rs rule: runs.induct)
  case (1 keys e col j)
  show ?case
  proof (cases "j < e")
    case True
    from 1(2) True obtain c j' rs' where c: "key_at keys j col = Some c" and j': "run_end keys e col c j = Some j'"
      and rs': "runs keys e col j' = Some rs'" "rs = (c, j, j', Suc col) # rs'"
      by (auto simp: runs.simps [of keys e col j] split: option.splits)
    note f = run_end_facts [OF j'] and g = run_end_greater [OF c True j']
    have "unread keys j j' (Suc col) + (j' - j) = unread keys j j' col"
      using f True by (intro unread_deeper) (force simp: key_at_def split: if_splits)
    moreover have "sum_list (map (weight keys \<circ> snd) rs') \<le> 2 * unread keys j' e col"
      using 1(1) [OF True c j' rs'(1)] .
    moreover have "unread keys j e col = unread keys j j' col + unread keys j' e col"
      using f(1) g True by (intro unread_split) auto
    ultimately show ?thesis using g by (simp add: rs'(2) comp_def)
  next
    case False
    with 1(2) show ?thesis by (simp add: runs.simps [of keys e col j])
  qed
qed

text \<open>The loop over the queue; its argument is the part of the queue not yet visited.\<close>

record set_builder =
  sb_leaves :: bitmap
  sb_labelBitmap :: bitmap
  sb_labels :: string
  sb_lIdx :: nat

definition skip_leaf :: "string list \<Rightarrow> qElt \<Rightarrow> nat" where
  "skip_leaf keys = (\<lambda>(s, e, col). if col = length (keys ! s) then Suc s else s)"

definition add_node :: "bool \<Rightarrow> nat \<Rightarrow> string \<Rightarrow> set_builder \<Rightarrow> set_builder" where
  "add_node leaf i ls b =
     (let l = sb_lIdx b + length ls in
      b\<lparr>sb_leaves := (if leaf then setBit (sb_leaves b) i 1 else sb_leaves b),
        sb_labelBitmap := setBit (foldl (\<lambda>bm t. setBit bm t 0) (sb_labelBitmap b) [sb_lIdx b..<l]) l 1,
        sb_labels := sb_labels b @ ls, sb_lIdx := Suc l\<rparr>)"

function build_set :: "string list \<Rightarrow> nat \<Rightarrow> qElt list \<Rightarrow> set_builder \<Rightarrow> set_builder option" where
  "build_set keys i [] b = Some b"
| "build_set keys i ((s, e, col) # queue) b =
     (if s < length keys then
        (case runs keys e col (skip_leaf keys (s, e, col)) of
           None \<Rightarrow> None
         | Some rs \<Rightarrow> build_set keys (Suc i) (queue @ map snd rs) (add_node (col = length (keys ! s)) i (map fst rs) b))
      else None)"
  by pat_completeness auto
termination
proof (relation "measure (\<lambda>(keys, i, queue, b). sum_list (map (weight keys) queue))", simp, goal_cases)
  case (1 keys i s e col queue b rs)
  have "unread keys (skip_leaf keys (s, e, col)) e col \<le> unread keys s e col"
    unfolding unread_def skip_leaf_def by (intro sum_mono2) auto
  with runs_weight [OF 1(2)] show ?case by simp
qed

definition NewDomainSet_keys :: "bitmap_pkg \<Rightarrow> string list \<Rightarrow> DomainSet option option" where
  "NewDomainSet_keys P keys =
     (if length keys = 0 then Some None
      else (case build_set keys 0 [(0, length keys, 0)] \<lparr>sb_leaves = [], sb_labelBitmap = [], sb_labels = [], sb_lIdx = 0\<rparr> of
              None \<Rightarrow> None
            | Some b \<Rightarrow> Some (Some (ds_init P \<lparr>ds_leaves = sb_leaves b, ds_labelBitmap = sb_labelBitmap b,
                ds_labels = sb_labels b, ds_ranks = [], ds_selects = []\<rparr>))))"

text \<open>\<open>utils.Reverse\<close> on ASCII names; the callback of \<open>Foreach\<close> keeps the reversed names.  The outer \<^const>\<open>None\<close> is a panic, the inner one nil.\<close>

definition Reverse :: "string \<Rightarrow> string" where
  "Reverse s = rev s"

definition reserveDomains :: "'a node \<Rightarrow> string list" where
  "reserveDomains t = Foreach t (\<lambda>domain x acc. (True, acc @ [Reverse domain])) []"

definition NewDomainSet :: "bitmap_pkg \<Rightarrow> 'a node \<Rightarrow> DomainSet option option" where
  "NewDomainSet P t = NewDomainSet_keys P (sort (reserveDomains t))"

section \<open>Has\<close>

definition complexWildcardByte :: char where "complexWildcardByte = CHR ''+''"
definition wildcardByte :: char where "wildcardByte = CHR ''*''"
definition domainStepByte :: char where "domainStepByte = CHR ''.''"

text \<open>The end of the label from \<open>j\<close> on, and the search for a dot among the labels from an index on.\<close>

definition label_end :: "string \<Rightarrow> nat \<Rightarrow> nat" where
  "label_end key j = j + length (takeWhile (\<lambda>c. c \<noteq> domainStepByte) (drop j key))"

function find_step :: "string \<Rightarrow> int \<Rightarrow> int \<Rightarrow> int option option" where
  "find_step labels nextNodeId nextBmIdx =
     (if nextBmIdx - nextNodeId < int (length labels) then
        (case index labels (nextBmIdx - nextNodeId) of
           None \<Rightarrow> None
         | Some c \<Rightarrow> if c = domainStepByte then Some (Some nextBmIdx) else find_step labels nextNodeId (nextBmIdx + 1))
      else Some None)"
  by pat_completeness auto
termination by (relation "measure (\<lambda>(labels, n, b). nat (int (length labels) - (b - n)))") (auto simp: index_def split: if_splits)

declare find_step.simps [simp del]

definition child_node :: "bitmap_pkg \<Rightarrow> DomainSet \<Rightarrow> int \<Rightarrow> int \<times> int" where
  "child_node P ss bmIdx =
     (let nodeId = countZeros P (ds_labelBitmap ss) (ds_ranks ss) (bmIdx + 1)
      in (nodeId, selectIthOne P (ds_labelBitmap ss) (ds_ranks ss) (ds_selects ss) (nodeId - 1) + 1))"

text \<open>
  The loops of \<open>Has\<close>, with the cursors of the wildcards passed (bit index and position in the name).  The outer
  \<^const>\<open>None\<close> is a loop that does not end, the inner one a panic.
\<close>

partial_function (option) has_loop ::
    "bitmap_pkg \<Rightarrow> DomainSet \<Rightarrow> string \<Rightarrow> nat \<Rightarrow> int \<Rightarrow> int \<Rightarrow> (int \<times> nat) list \<Rightarrow> bool option option" where
  "has_loop P ss key i nodeId bmIdx stack =
     (if length key \<le> i then Some (map_option (\<lambda>b. b \<noteq> 0) (getBit (ds_leaves ss) nodeId))
      else (case getBit (ds_labelBitmap ss) bmIdx of
              None \<Rightarrow> Some None
            | Some b \<Rightarrow>
                if b \<noteq> 0 then
                  (case stack of
                     [] \<Rightarrow> Some (Some False)
                   | (cbm, cidx) # rest \<Rightarrow>
                       (case child_node P ss cbm of (nextNodeId, nextBmIdx) \<Rightarrow>
                         if label_end key cidx = length key then
                           (case getBit (ds_leaves ss) nextNodeId of
                              None \<Rightarrow> Some None
                            | Some l \<Rightarrow> if l \<noteq> 0 then Some (Some True) else has_loop P ss key i nodeId bmIdx rest)
                         else
                           (case find_step (ds_labels ss) nextNodeId nextBmIdx of
                              None \<Rightarrow> Some None
                            | Some None \<Rightarrow> Some (Some False)
                            | Some (Some nb) \<Rightarrow> has_loop P ss key (label_end key cidx) nextNodeId nb rest)))
                else
                  (case index (ds_labels ss) (bmIdx - nodeId) of
                     None \<Rightarrow> Some None
                   | Some l \<Rightarrow>
                       if l = complexWildcardByte then Some (Some True)
                       else if l = wildcardByte then has_loop P ss key i nodeId (bmIdx + 1) ((bmIdx, i) # stack)
                       else if l = key ! i then
                         (case child_node P ss bmIdx of (nodeId', bmIdx') \<Rightarrow> has_loop P ss key (Suc i) nodeId' bmIdx' stack)
                       else has_loop P ss key i nodeId (bmIdx + 1) stack)))"

declare has_loop.simps [code]

definition Has :: "bitmap_pkg \<Rightarrow> DomainSet option \<Rightarrow> string \<Rightarrow> bool option option" where
  "Has P ss key =
     (case ss of None \<Rightarrow> Some (Some False) | Some ss \<Rightarrow> has_loop P ss (to_lower (Reverse key)) 0 0 0 [])"

definition MatchDomain :: "bitmap_pkg \<Rightarrow> DomainSet option \<Rightarrow> string \<Rightarrow> bool option option" where
  "MatchDomain P ss domain = Has P ss domain"

section \<open>Bits of a bitmap\<close>

definition bm_bit :: "bitmap \<Rightarrow> nat \<Rightarrow> bool" where
  "bm_bit bm p \<longleftrightarrow> p div 64 < length bm \<and> bit (bm ! (p div 64)) (p mod 64)"

definition ones :: "bitmap \<Rightarrow> nat \<Rightarrow> nat" where
  "ones bm i = length (filter (bm_bit bm) [0..<i])"

text \<open>
  What the documentation of the package says: \<open>Rank64\<close> counts the ones before a bit of the bitmap, \<open>Select32R64\<close>
  gives the position of the one that has so many before it, for bitmaps whose bits an \<open>int32\<close> can number.
\<close>

definition bitmap_law :: "bitmap_pkg \<Rightarrow> bool" where
  "bitmap_law P \<longleftrightarrow> (\<forall>bm p. 64 * length bm < 2 ^ 31 \<and> p < 64 * length bm \<longrightarrow>
     fst (Rank64 P bm (snd (IndexSelect32R64 P bm)) (int p)) = int (ones bm p) \<and>
     (bm_bit bm p \<longrightarrow>
        fst (Select32R64 P bm (fst (IndexSelect32R64 P bm)) (snd (IndexSelect32R64 P bm)) (int (ones bm p))) = int p))"

lemma and_push_bit_iff:
  fixes w :: "64 word"
  assumes "n < 64"
  shows "w AND push_bit n 1 \<noteq> 0 \<longleftrightarrow> bit w n"
proof
  assume "w AND push_bit n 1 \<noteq> 0"
  then obtain m where "bit (w AND push_bit n 1) m" by (auto simp: bit_eq_iff)
  then show "bit w n" by (auto simp: bit_and_iff bit_exp_iff)
next
  assume "bit w n"
  with assms have "bit (w AND push_bit n 1) n" by (simp add: bit_and_iff bit_exp_iff)
  then show "w AND push_bit n 1 \<noteq> 0" by auto
qed

lemma getBit_bit:
  assumes "p < 64 * length bm"
  obtains b where "getBit bm (int p) = Some b" "b \<noteq> 0 \<longleftrightarrow> bm_bit bm p"
proof -
  have "p div 64 < length bm" using assms by (simp add: less_mult_imp_div_less mult.commute)
  moreover have "int p div 64 = int (p div 64)" "nat (int p mod 64) = p mod 64" by (simp_all add: zdiv_int nat_mod_distrib)
  ultimately show ?thesis
    using that [of "(bm ! (p div 64)) AND push_bit (p mod 64) 1"] and_push_bit_iff [of "p mod 64" "bm ! (p div 64)"]
    by (simp add: getBit_def index_def bm_bit_def)
qed

lemma length_setBit: "length (setBit bm i v) = max (length bm) (Suc (i div 64))"
  by (simp add: setBit_def Let_def)

lemma bm_bit_setBit:
  assumes "v = 0 \<or> v = 1"
  shows "bm_bit (setBit bm i v) p \<longleftrightarrow> bm_bit bm p \<or> (p = i \<and> v = 1)"
proof -
  let ?bm = "bm @ replicate (Suc (i div 64) - length bm) 0"
  have pad: "bm_bit ?bm p \<longleftrightarrow> bm_bit bm p" for p
    by (auto simp: bm_bit_def nth_append)
  have i: "i div 64 < length ?bm" by simp
  have "bm_bit (setBit bm i v) p \<longleftrightarrow> bm_bit ?bm p \<or> (p div 64 = i div 64 \<and> bit (push_bit (i mod 64) v) (p mod 64))"
    using i by (auto simp: setBit_def Let_def bm_bit_def nth_list_update bit_or_iff simp del: length_append length_replicate)
  also have "bit (push_bit (i mod 64) v) (p mod 64) \<longleftrightarrow> p mod 64 = i mod 64 \<and> v = 1"
    using assms by (auto simp: bit_push_bit_iff bit_1_iff)
  also have "p div 64 = i div 64 \<and> p mod 64 = i mod 64 \<and> v = 1 \<longleftrightarrow> p = i \<and> v = 1"
    by (metis div_mult_mod_eq)
  finally show ?thesis by (simp add: pad)
qed

text \<open>A bitmap that has exactly the given bits.\<close>

definition represents :: "bitmap \<Rightarrow> bool list \<Rightarrow> bool" where
  "represents bm bs \<longleftrightarrow> length bm = (length bs + 63) div 64 \<and> (\<forall>p. bm_bit bm p \<longleftrightarrow> p < length bs \<and> bs ! p)"

lemma represents_bounds: "represents bm bs \<Longrightarrow> length bs \<le> 64 * length bm \<and> 64 * length bm \<le> length bs + 63"
  by (auto simp: represents_def)

lemma represents_snoc:
  assumes "represents bm bs" "v = (if b then 1 else 0)"
  shows "represents (setBit bm (length bs) v) (bs @ [b])"
proof -
  have words: "max ((n + 63) div 64) (Suc (n div 64)) = (Suc n + 63) div 64" for n :: nat
  proof -
    have "(Suc n + 63) div 64 = Suc (n div 64)" using div_add_self2 [of 64 n] by (simp add: add.commute)
    moreover have "(n + 63) div 64 \<le> (Suc n + 63) div 64" by (intro div_le_mono) simp
    ultimately show ?thesis by (metis max.absorb2)
  qed
  have "length (setBit bm (length bs) v) = (length (bs @ [b]) + 63) div 64"
    using assms(1) words [of "length bs"] by (simp add: represents_def length_setBit)
  moreover have "bm_bit (setBit bm (length bs) v) p \<longleftrightarrow> p < length (bs @ [b]) \<and> (bs @ [b]) ! p" for p
    using assms by (cases "p = length bs") (auto simp: represents_def bm_bit_setBit nth_append)
  ultimately show ?thesis by (simp add: represents_def)
qed

lemma represents_zeros:
  "represents bm bs \<Longrightarrow> represents (foldl (\<lambda>bm t. setBit bm t 0) bm [length bs..<length bs + n]) (bs @ replicate n False)"
proof (induction n)
  case (Suc n)
  then have "represents (setBit (foldl (\<lambda>bm t. setBit bm t 0) bm [length bs..<length bs + n]) (length (bs @ replicate n False)) 0)
      ((bs @ replicate n False) @ [False])"
    by (intro represents_snoc) auto
  then show ?case by (simp add: replicate_append_same)
qed simp

lemma ones_represents: "represents bm bs \<Longrightarrow> i \<le> length bs \<Longrightarrow> ones bm i = length (filter id (take i bs))"
proof (induction i)
  case (Suc i)
  then have "take (Suc i) bs = take i bs @ [bs ! i]" by (simp add: take_Suc_conv_app_nth)
  with Suc show ?case by (auto simp: ones_def represents_def)
qed (simp add: ones_def)

section \<open>Blocks of a concatenation\<close>

definition offset :: "'a list list \<Rightarrow> nat \<Rightarrow> nat" where
  "offset xss v = length (concat (take v xss))"

lemma offset_nth:
  assumes "v < length xss" "t < length (xss ! v)"
  shows "offset xss v + t < length (concat xss)" "concat xss ! (offset xss v + t) = xss ! v ! t"
proof -
  have "concat xss = concat (take v xss) @ xss ! v @ concat (drop (Suc v) xss)"
    using assms(1) by (metis concat.simps(2) concat_append id_take_nth_drop)
  then show "offset xss v + t < length (concat xss)" "concat xss ! (offset xss v + t) = xss ! v ! t"
    using assms(2) unfolding offset_def by (simp_all add: nth_append)
qed

lemma take_offset:
  assumes "v < length xss" "t \<le> length (xss ! v)"
  shows "take (offset xss v + t) (concat xss) = concat (take v xss) @ take t (xss ! v)"
proof -
  have "concat xss = concat (take v xss) @ xss ! v @ concat (drop (Suc v) xss)"
    using assms(1) by (metis concat.simps(2) concat_append id_take_nth_drop)
  then show ?thesis using assms(2) by (simp add: offset_def)
qed

lemma offset_Suc: "v < length xss \<Longrightarrow> offset xss (Suc v) = offset xss v + length (xss ! v)"
  by (simp add: offset_def take_Suc_conv_app_nth)

text \<open>The inverse: every index of a concatenation is in a block.\<close>

lemma offset_cover: "m < length (concat xss) \<Longrightarrow> \<exists>v t. v < length xss \<and> t < length (xss ! v) \<and> m = offset xss v + t"
proof (induction xss arbitrary: m)
  case (Cons xs xss)
  show ?case
  proof (cases "m < length xs")
    case True
    then show ?thesis by (intro exI [of _ 0] exI [of _ m]) (simp add: offset_def)
  next
    case False
    with Cons.prems have "m - length xs < length (concat xss)" by simp
    from Cons.IH [OF this] obtain v t where "v < length xss" "t < length (xss ! v)" "m - length xs = offset xss v + t" by blast
    with False show ?thesis by (intro exI [of _ "Suc v"] exI [of _ t]) (simp add: offset_def)
  qed
qed simp

section \<open>The nodes in the order of the walk\<close>

text \<open>The edges of a node, with the queue elements they lead to.\<close>

definition kids :: "string list \<Rightarrow> qElt \<Rightarrow> (char \<times> qElt) list" where
  "kids keys q = the (runs keys (fst (snd q)) (snd (snd q)) (skip_leaf keys q))"

definition is_leaf :: "string list \<Rightarrow> qElt \<Rightarrow> bool" where
  "is_leaf keys = (\<lambda>(s, e, col). col = length (keys ! s))"

definition node_bits :: "string list \<Rightarrow> qElt \<Rightarrow> bool list" where
  "node_bits keys q = replicate (length (kids keys q)) False @ [True]"

text \<open>
  The keys are sorted and different, and those of a node share the bytes before its column.
\<close>

definition node_ok :: "string list \<Rightarrow> qElt \<Rightarrow> bool" where
  "node_ok keys = (\<lambda>(s, e, col). s < e \<and> e \<le> length keys \<and>
     (\<forall>u. s \<le> u \<and> u < e \<longrightarrow> col \<le> length (keys ! u) \<and> take col (keys ! u) = take col (keys ! s)))"

lemma lex_column:
  fixes xs ys :: string
  assumes "xs \<le> ys" "take n xs = take n ys" "n < length xs" "n < length ys"
  shows "xs ! n \<le> ys ! n"
  using assms
proof (induction n arbitrary: xs ys)
  case 0
  then show ?case by (cases xs; cases ys) auto
next
  case (Suc n)
  then obtain x xs' y ys' where "xs = x # xs'" "ys = y # ys'" by (cases xs; cases ys) auto
  with Suc show ?case by auto
qed

lemma lex_prefix_le: "take (length xs) ys = xs \<Longrightarrow> xs \<le> (ys :: string)"
proof (induction xs arbitrary: ys)
  case (Cons x xs)
  then show ?case by (cases ys) auto
qed simp

lemma node_okD:
  assumes "node_ok keys (s, e, col)"
  shows "s < e" "e \<le> length keys" "\<And>u. s \<le> u \<Longrightarrow> u < e \<Longrightarrow> col \<le> length (keys ! u)"
    "\<And>u. s \<le> u \<Longrightarrow> u < e \<Longrightarrow> take col (keys ! u) = take col (keys ! s)"
  using assms unfolding node_ok_def prod.case by blast+

lemma skip_leaf_bounds: "s \<le> skip_leaf keys (s, e, col)" "skip_leaf keys (s, e, col) \<le> Suc s"
  by (simp_all add: skip_leaf_def)

lemma node_columns:
  assumes "sorted keys" "distinct keys" "node_ok keys (s, e, col)" "skip_leaf keys (s, e, col) \<le> u" "u < e"
  shows "s \<le> u" "u < length keys" "col < length (keys ! u)" "take col (keys ! u) = take col (keys ! s)"
proof -
  show su: "s \<le> u" and ul: "u < length keys" and eq: "take col (keys ! u) = take col (keys ! s)"
    using node_okD [OF assms(3)] assms(4,5) skip_leaf_bounds [where keys = keys and s = s and e = e and col = col] by (meson le_trans less_le_trans)+
  have len: "col \<le> length (keys ! u)" "col \<le> length (keys ! s)"
    using node_okD [OF assms(3)] su assms(5) by (blast, metis order_refl)
  have "col \<noteq> length (keys ! u)"
  proof
    assume c: "col = length (keys ! u)"
    then have "keys ! u \<le> keys ! s" using eq by (intro lex_prefix_le) simp
    moreover have "keys ! s \<le> keys ! u" using assms(1) su ul by (simp add: sorted_nth_mono)
    ultimately have "u = s" using assms(2) su ul by (simp add: nth_eq_iff_index_eq)
    with c assms(4) show False by (simp add: skip_leaf_def)
  qed
  with len show "col < length (keys ! u)" by simp
qed

lemma key_at_Some: "j < length keys \<Longrightarrow> col < length (keys ! j) \<Longrightarrow> key_at keys j col = Some (keys ! j ! col)"
  by (simp add: key_at_def)

lemma run_end_total:
  "(\<And>u. j \<le> u \<Longrightarrow> u < e \<Longrightarrow> key_at keys u col \<noteq> None) \<Longrightarrow> \<exists>j'. run_end keys e col c j = Some j'"
proof (induction keys e col c j rule: run_end.induct)
  case (1 keys e col c j)
  show ?case
  proof (cases "j < e")
    case True
    then obtain d where d: "key_at keys j col = Some d" using 1(2) by force
    with 1 True show ?thesis by (cases "d = c") (simp_all add: run_end.simps [of keys e col c j])
  qed (simp add: run_end.simps [of keys e col c j])
qed

text \<open>The runs of a range: they cover it, and their bytes ascend.\<close>

lemma runs_props:
  assumes "\<And>u. j \<le> u \<Longrightarrow> u < e \<Longrightarrow> key_at keys u col \<noteq> None" "j \<le> e"
    "\<And>u u'. j \<le> u \<Longrightarrow> u \<le> u' \<Longrightarrow> u' < e \<Longrightarrow> the (key_at keys u col) \<le> the (key_at keys u' col)"
  shows "\<exists>rs. runs keys e col j = Some rs \<and>
    (\<forall>(c, f, t, k) \<in> set rs. j \<le> f \<and> f < t \<and> t \<le> e \<and> k = Suc col \<and> (\<forall>u. f \<le> u \<and> u < t \<longrightarrow> key_at keys u col = Some c)) \<and>
    (\<forall>u. j \<le> u \<and> u < e \<longrightarrow> (\<exists>(c, f, t, k) \<in> set rs. f \<le> u \<and> u < t)) \<and>
    sorted_wrt (<) (map fst rs)"
  using assms
proof (induction keys e col j rule: runs.induct)
  case (1 keys e col j)
  show ?case
  proof (cases "j < e")
    case False
    then show ?thesis by (simp add: runs.simps [of keys e col j])
  next
    case True
    obtain c where c: "key_at keys j col = Some c" using 1(2) [of j] True by auto
    obtain j' where j': "run_end keys e col c j = Some j'" using run_end_total [OF 1(2)] by blast
    note f = run_end_facts [OF j' 1(3)] and g = run_end_greater [OF c True j']
    have "\<exists>rs. runs keys e col j' = Some rs \<and>
      (\<forall>(c, f, t, k) \<in> set rs. j' \<le> f \<and> f < t \<and> t \<le> e \<and> k = Suc col \<and> (\<forall>u. f \<le> u \<and> u < t \<longrightarrow> key_at keys u col = Some c)) \<and>
      (\<forall>u. j' \<le> u \<and> u < e \<longrightarrow> (\<exists>(c, f, t, k) \<in> set rs. f \<le> u \<and> u < t)) \<and> sorted_wrt (<) (map fst rs)"
      using g by (intro 1(1) [OF True c j'] 1(2) 1(4) f(1)) auto
    then obtain rs where rs: "runs keys e col j' = Some rs"
      "\<forall>(c, f, t, k) \<in> set rs. j' \<le> f \<and> f < t \<and> t \<le> e \<and> k = Suc col \<and> (\<forall>u. f \<le> u \<and> u < t \<longrightarrow> key_at keys u col = Some c)"
      "\<forall>u. j' \<le> u \<and> u < e \<longrightarrow> (\<exists>(c, f, t, k) \<in> set rs. f \<le> u \<and> u < t)" "sorted_wrt (<) (map fst rs)"
      by blast
    have above: "c < d" if "(d, f, t, k) \<in> set rs" for d f t k
    proof -
      from that rs(2) have d: "j' \<le> f" "f < e" "key_at keys f col = Some d" by fastforce+
      then obtain d' where d': "key_at keys j' col = Some d'" "d' \<noteq> c" using f(3) by force
      have "c \<le> d'" using 1(4) [of j j'] g d d' c by simp
      moreover have "d' \<le> d" using 1(4) [of j' f] g d d' by simp
      ultimately show ?thesis using d'(2) by simp
    qed
    have cover: "\<exists>(c, f, t, k) \<in> set ((c, j, j', Suc col) # rs). f \<le> u \<and> u < t" if "j \<le> u" "u < e" for u
      using that rs(3) by (cases "u < j'") auto
    have "runs keys e col j = Some ((c, j, j', Suc col) # rs)"
      using True c j' rs(1) by (simp add: runs.simps [of keys e col j])
    moreover have "\<forall>(c, f, t, k) \<in> set ((c, j, j', Suc col) # rs). j \<le> f \<and> f < t \<and> t \<le> e \<and> k = Suc col \<and>
        (\<forall>u. f \<le> u \<and> u < t \<longrightarrow> key_at keys u col = Some c)"
      using rs(2) g f(1,2) by fastforce
    moreover have "sorted_wrt (<) (map fst ((c, j, j', Suc col) # rs))" using rs(4) above by auto
    ultimately show ?thesis using cover by blast
  qed
qed

lemma kids_props:
  assumes "sorted keys" "distinct keys" "node_ok keys (s, e, col)"
  shows "runs keys e col (skip_leaf keys (s, e, col)) = Some (kids keys (s, e, col))"
    and "\<And>c f t k. (c, f, t, k) \<in> set (kids keys (s, e, col)) \<Longrightarrow>
      s \<le> f \<and> f < t \<and> t \<le> e \<and> k = Suc col \<and> (\<forall>u. f \<le> u \<and> u < t \<longrightarrow> col < length (keys ! u) \<and> keys ! u ! col = c)"
    and "\<And>u. skip_leaf keys (s, e, col) \<le> u \<Longrightarrow> u < e \<Longrightarrow> \<exists>c f t k. (c, f, t, k) \<in> set (kids keys (s, e, col)) \<and> f \<le> u \<and> u < t"
    and "sorted_wrt (<) (map fst (kids keys (s, e, col)))"
proof -
  let ?j = "skip_leaf keys (s, e, col)"
  note cols = node_columns [OF assms]
  have at: "key_at keys u col = Some (keys ! u ! col)" if "?j \<le> u" "u < e" for u
    using cols [OF that] by (simp add: key_at_Some)
  have mono: "the (key_at keys u col) \<le> the (key_at keys u' col)" if "?j \<le> u" "u \<le> u'" "u' < e" for u u'
    using that at [of u] at [of u'] cols [of u] cols [of u'] lex_column [of "keys ! u" "keys ! u'" col] sorted_nth_mono [OF assms(1), of u u']
    by simp
  have "?j \<le> e" using node_okD(1) [OF assms(3)] skip_leaf_bounds(2) [where keys = keys and s = s and e = e and col = col] by simp
  from runs_props [OF _ this mono] at obtain rs where rs: "runs keys e col ?j = Some rs"
    "\<forall>(c, f, t, k) \<in> set rs. ?j \<le> f \<and> f < t \<and> t \<le> e \<and> k = Suc col \<and> (\<forall>u. f \<le> u \<and> u < t \<longrightarrow> key_at keys u col = Some c)"
    "\<forall>u. ?j \<le> u \<and> u < e \<longrightarrow> (\<exists>(c, f, t, k) \<in> set rs. f \<le> u \<and> u < t)" "sorted_wrt (<) (map fst rs)"
    by force
  then have k: "kids keys (s, e, col) = rs" by (simp add: kids_def)
  show "runs keys e col ?j = Some (kids keys (s, e, col))" "sorted_wrt (<) (map fst (kids keys (s, e, col)))"
    using rs k by simp_all
  show "\<exists>c f t k. (c, f, t, k) \<in> set (kids keys (s, e, col)) \<and> f \<le> u \<and> u < t" if "?j \<le> u" "u < e" for u
    using rs(3) that unfolding k by fastforce
  fix c f t k assume "(c, f, t, k) \<in> set (kids keys (s, e, col))"
  with rs(2) have *: "?j \<le> f" "f < t" "t \<le> e" "k = Suc col" "\<forall>u. f \<le> u \<and> u < t \<longrightarrow> key_at keys u col = Some c"
    unfolding k by fastforce+
  have "col < length (keys ! u) \<and> keys ! u ! col = c" if "f \<le> u" "u < t" for u
    using *(5) that by (auto simp: key_at_def split: if_splits)
  with * skip_leaf_bounds(1) [where keys = keys and s = s and e = e and col = col]
  show "s \<le> f \<and> f < t \<and> t \<le> e \<and> k = Suc col \<and> (\<forall>u. f \<le> u \<and> u < t \<longrightarrow> col < length (keys ! u) \<and> keys ! u ! col = c)"
    by auto
qed

lemma kids_ok:
  assumes "sorted keys" "distinct keys" "node_ok keys (s, e, col)" "(c, f, t, k) \<in> set (kids keys (s, e, col))"
  shows "node_ok keys (f, t, k)"
proof -
  note p = kids_props(2) [OF assms] and ok = node_okD [OF assms(3)]
  have "k \<le> length (keys ! u) \<and> take k (keys ! u) = take k (keys ! f)" if "f \<le> u" "u < t" for u
  proof -
    have "col < length (keys ! u)" "keys ! u ! col = c" "col < length (keys ! f)" "keys ! f ! col = c" "k = Suc col"
      using p that by auto
    moreover have "take col (keys ! u) = take col (keys ! s)" "take col (keys ! f) = take col (keys ! s)"
      using p that by (auto intro!: ok(4))
    ultimately show ?thesis by (simp add: take_Suc_conv_app_nth)
  qed
  moreover have "f < t" "t \<le> length keys" using p ok(2) by auto
  ultimately show ?thesis unfolding node_ok_def prod.case by blast
qed

text \<open>What the walk over the queue adds to the set, node after node.\<close>

fun add_all :: "string list \<Rightarrow> nat \<Rightarrow> qElt list \<Rightarrow> set_builder \<Rightarrow> set_builder" where
  "add_all keys i [] b = b"
| "add_all keys i (q # N) b = add_all keys (Suc i) N (add_node (is_leaf keys q) i (map fst (kids keys q)) b)"

lemma build_set_nodes:
  "sorted keys \<Longrightarrow> distinct keys \<Longrightarrow> \<forall>q \<in> set queue. node_ok keys q \<Longrightarrow>
    \<exists>N. build_set keys i queue b = Some (add_all keys i N b) \<and> N = queue @ concat (map (map snd \<circ> kids keys) N) \<and>
      (\<forall>q \<in> set N. node_ok keys q) \<and> length N \<le> sum_list (map (weight keys) queue)"
proof (induction keys i queue b rule: build_set.induct)
  case (1 keys i b)
  then show ?case by (intro exI [of _ "[]"]) simp
next
  case (2 keys i s e col queue b)
  let ?q = "(s, e, col)" and ?rs = "kids keys (s, e, col)"
  have ok: "node_ok keys ?q" using 2(4) by simp
  then have s: "s < length keys" using node_okD [OF ok] by simp
  note rs = kids_props(1) [OF 2(2,3) ok]
  have next_ok: "\<forall>q \<in> set (queue @ map snd ?rs). node_ok keys q"
    using 2(4) kids_ok [OF 2(2,3) ok] by auto
  from 2(1) [OF s rs 2(2,3) next_ok] obtain N where N:
    "build_set keys (Suc i) (queue @ map snd ?rs) (add_node (col = length (keys ! s)) i (map fst ?rs) b) =
       Some (add_all keys (Suc i) N (add_node (col = length (keys ! s)) i (map fst ?rs) b))"
    "N = (queue @ map snd ?rs) @ concat (map (map snd \<circ> kids keys) N)" "\<forall>q \<in> set N. node_ok keys q"
    "length N \<le> sum_list (map (weight keys) (queue @ map snd ?rs))"
    by blast
  have "unread keys (skip_leaf keys ?q) e col \<le> unread keys s e col"
    unfolding unread_def skip_leaf_def by (intro sum_mono2) auto
  with runs_weight [OF rs] N(4) have "length (?q # N) \<le> sum_list (map (weight keys) (?q # queue))"
    by (simp add: comp_def)
  moreover have "build_set keys i (?q # queue) b = Some (add_all keys i (?q # N) b)"
    using N(1) s rs by (simp add: is_leaf_def)
  moreover have "?q # N = (?q # queue) @ concat (map (map snd \<circ> kids keys) (?q # N))"
  proof -
    have "?q # N = ?q # (queue @ map snd ?rs) @ concat (map (map snd \<circ> kids keys) N)" by (rule arg_cong [OF N(2)])
    also have "\<dots> = (?q # queue) @ concat (map (map snd \<circ> kids keys) (?q # N))" by simp
    finally show ?thesis .
  qed
  ultimately show ?case using N(3) ok by (intro exI [of _ "?q # N"]) (simp only: list.set ball_simps simp_thms insert_iff)
qed

lemma add_all_labels: "sb_labels (add_all keys i N b) = sb_labels b @ concat (map (map fst \<circ> kids keys) N)"
  by (induction N arbitrary: i b) (auto simp: add_node_def Let_def)

lemma add_all_bits:
  "represents (sb_labelBitmap b) bs \<Longrightarrow> sb_lIdx b = length bs \<Longrightarrow>
    represents (sb_labelBitmap (add_all keys i N b)) (bs @ concat (map (node_bits keys) N))"
proof (induction N arbitrary: i b bs)
  case (Cons q N)
  let ?n = "length (kids keys q)" and ?b = "add_node (is_leaf keys q) i (map fst (kids keys q)) b"
  have "represents (setBit (foldl (\<lambda>bm t. setBit bm t 0) (sb_labelBitmap b) [length bs..<length bs + ?n]) (length (bs @ replicate ?n False)) 1)
      ((bs @ replicate ?n False) @ [True])"
    by (intro represents_snoc represents_zeros Cons.prems) simp
  then have "represents (sb_labelBitmap ?b) (bs @ node_bits keys q)"
    using Cons.prems(2) by (simp add: add_node_def Let_def node_bits_def)
  moreover have "sb_lIdx ?b = length (bs @ node_bits keys q)" using Cons.prems(2) by (simp add: add_node_def Let_def node_bits_def)
  ultimately show ?case using Cons.IH [of ?b "bs @ node_bits keys q" "Suc i"] by simp
qed simp

lemma add_all_leaves:
  "bm_bit (sb_leaves (add_all keys i N b)) p \<longleftrightarrow> bm_bit (sb_leaves b) p \<or> (\<exists>v < length N. p = i + v \<and> is_leaf keys (N ! v))"
proof (induction N arbitrary: i b)
  case (Cons q N)
  have "bm_bit (sb_leaves (add_all keys i (q # N) b)) p \<longleftrightarrow>
      bm_bit (sb_leaves b) p \<or> (p = i \<and> is_leaf keys q) \<or> (\<exists>v < length N. p = Suc i + v \<and> is_leaf keys (N ! v))"
    by (simp add: Cons.IH add_node_def Let_def bm_bit_setBit disj_assoc)
  also have "\<dots> \<longleftrightarrow> bm_bit (sb_leaves b) p \<or> (\<exists>v < length (q # N). p = i + v \<and> is_leaf keys ((q # N) ! v))"
    by (auto simp: less_Suc_eq_0_disj)
  finally show ?case .
qed simp

lemma bm_bit_in_range: "bm_bit bm p \<Longrightarrow> p < 64 * length bm"
  by (auto simp: bm_bit_def)

section \<open>Navigation\<close>

text \<open>The set of the nodes \<open>N\<close>, in the order of the walk.\<close>

definition encodes :: "bitmap_pkg \<Rightarrow> string list \<Rightarrow> qElt list \<Rightarrow> DomainSet \<Rightarrow> bool" where
  "encodes P keys N ss \<longleftrightarrow>
     N = (0, length keys, 0) # map snd (concat (map (kids keys) N)) \<and> (\<forall>q \<in> set N. node_ok keys q) \<and>
     represents (ds_labelBitmap ss) (concat (map (node_bits keys) N)) \<and>
     ds_labels ss = map fst (concat (map (kids keys) N)) \<and>
     (\<forall>p. bm_bit (ds_leaves ss) p \<longleftrightarrow> p < length N \<and> is_leaf keys (N ! p)) \<and>
     IndexSelect32R64 P (ds_labelBitmap ss) = (ds_selects ss, ds_ranks ss) \<and> 64 * length (ds_labelBitmap ss) < 2 ^ 31"

definition edges :: "string list \<Rightarrow> qElt list \<Rightarrow> nat \<Rightarrow> nat" where
  "edges keys N v = offset (map (kids keys) N) v"

lemma length_bits: "length (concat (map (node_bits keys) N)) = length N + length (concat (map (kids keys) N))"
  by (induction N) (auto simp: node_bits_def)

lemma ones_bits: "length (filter id (concat (map (node_bits keys) N))) = length N"
  by (induction N) (auto simp: node_bits_def)

lemma offset_bits: "v \<le> length N \<Longrightarrow> offset (map (node_bits keys) N) v = v + edges keys N v"
  unfolding offset_def edges_def take_map using length_bits [of keys "take v N"] by simp

lemma bits_at:
  assumes "v < length N" "t \<le> length (kids keys (N ! v))"
  shows "v + edges keys N v + t < length (concat (map (node_bits keys) N))"
    "concat (map (node_bits keys) N) ! (v + edges keys N v + t) \<longleftrightarrow> t = length (kids keys (N ! v))"
    "length (filter id (take (v + edges keys N v + t) (concat (map (node_bits keys) N)))) = v"
proof -
  have len: "v < length (map (node_bits keys) N)" "t < length (map (node_bits keys) N ! v)"
    using assms by (simp_all add: node_bits_def)
  have off: "offset (map (node_bits keys) N) v = v + edges keys N v" using assms(1) by (simp add: offset_bits)
  show "v + edges keys N v + t < length (concat (map (node_bits keys) N))" using offset_nth(1) [OF len] off by simp
  show "concat (map (node_bits keys) N) ! (v + edges keys N v + t) \<longleftrightarrow> t = length (kids keys (N ! v))"
    using offset_nth(2) [OF len] off assms by (auto simp: node_bits_def nth_append)
  have "take (v + edges keys N v + t) (concat (map (node_bits keys) N)) =
      concat (map (node_bits keys) (take v N)) @ take t (node_bits keys (N ! v))"
    using take_offset [of v "map (node_bits keys) N" t] len off assms(1) by (simp add: take_map)
  moreover have "take t (node_bits keys (N ! v)) = replicate t False" using assms(2) by (simp add: node_bits_def)
  ultimately show "length (filter id (take (v + edges keys N v + t) (concat (map (node_bits keys) N)))) = v"
    using ones_bits [of keys "take v N"] assms(1) by simp
qed

lemma edge_at:
  assumes "encodes P keys N ss" "v < length N" "t < length (kids keys (N ! v))"
  shows "index (ds_labels ss) (int (v + edges keys N v + t) - int v) = Some (fst (kids keys (N ! v) ! t))"
    "Suc (edges keys N v + t) < length N" "N ! Suc (edges keys N v + t) = snd (kids keys (N ! v) ! t)"
proof -
  let ?E = "concat (map (kids keys) N)"
  have N: "N = (0, length keys, 0) # map snd ?E" and labels: "ds_labels ss = map fst ?E"
    using assms(1) by (auto simp: encodes_def)
  have e: "edges keys N v + t < length ?E" "?E ! (edges keys N v + t) = kids keys (N ! v) ! t"
    using offset_nth [of v "map (kids keys) N" t] assms(2,3) by (simp_all add: edges_def)
  show "index (ds_labels ss) (int (v + edges keys N v + t) - int v) = Some (fst (kids keys (N ! v) ! t))"
  proof -
    have eq: "int (v + edges keys N v + t) - int v = int (edges keys N v + t)" by simp
    show ?thesis unfolding eq index_def labels nat_int using e by simp
  qed
  have "length N = Suc (length ?E)" by (subst N) simp
  with e show "Suc (edges keys N v + t) < length N" by simp
  have "N ! Suc (edges keys N v + t) = map snd ?E ! (edges keys N v + t)" by (subst (1) N) simp
  with e show "N ! Suc (edges keys N v + t) = snd (kids keys (N ! v) ! t)" by simp
qed

lemma int32_small: "i < 2 ^ 31 \<Longrightarrow> int32 (int i) = int i"
  by (simp add: int32_def sint_uint uint_nat unat_of_nat take_bit_nat_eq_self signed_take_bit_int_eq_self)

lemma child_node_at:
  assumes law: "bitmap_law P" and enc: "encodes P keys N ss" and v: "v < length N" "t < length (kids keys (N ! v))"
  defines "w \<equiv> Suc (edges keys N v + t)"
  shows "child_node P ss (int (v + edges keys N v + t)) = (int w, int (w + edges keys N w))"
proof -
  let ?bs = "concat (map (node_bits keys) N)" and ?bm = "ds_labelBitmap ss"
  let ?p = "v + edges keys N v + t" and ?u = "edges keys N v + t"
  have rep: "represents ?bm ?bs" and idx: "IndexSelect32R64 P ?bm = (ds_selects ss, ds_ranks ss)"
    and small: "64 * length ?bm < 2 ^ 31" using enc by (auto simp: encodes_def)
  have in_bm: "p < 64 * length ?bm" if "p < length ?bs" for p using represents_bounds [OF rep] that by simp
  have rank: "countZeros P ?bm (ds_ranks ss) (int p) = int p - int (length (filter id (take p ?bs)))" if "p < length ?bs" for p
  proof -
    have "int32 (int p) = int p" using in_bm [OF that] small by (intro int32_small) linarith
    moreover have "fst (Rank64 P ?bm (ds_ranks ss) (int p)) = int (ones ?bm p)"
      using law in_bm [OF that] small idx unfolding bitmap_law_def by (metis snd_conv)
    ultimately show ?thesis using ones_represents [OF rep, of p] that by (simp add: countZeros_def)
  qed
  have w: "w < length N" unfolding w_def by (rule edge_at(2) [OF enc v])
  have "?p + 1 < length ?bs" "length (filter id (take (?p + 1) ?bs)) = v"
    using bits_at(1,3) [of v N "Suc t"] v by (simp_all add: Suc_le_eq)
  with rank [of "?p + 1"] have node: "countZeros P ?bm (ds_ranks ss) (int ?p + 1) = int w"
    by (simp add: w_def algebra_simps)
  let ?m = "length (kids keys (N ! ?u))"
  have u: "?u < length N" using w by (simp add: w_def)
  note one = bits_at [OF u order_refl, of keys]
  have next_start: "?u + edges keys N ?u + ?m + 1 = w + edges keys N w"
    using u offset_Suc [of ?u "map (kids keys) N"] by (simp add: w_def edges_def)
  have bit: "bm_bit ?bm (?u + edges keys N ?u + ?m)" using rep one(1,2) by (auto simp: represents_def)
  have "selectIthOne P ?bm (ds_ranks ss) (ds_selects ss) (int ?u) = int (?u + edges keys N ?u + ?m)"
  proof -
    have "?u < 64 * length ?bm" using one(1) in_bm by (meson le_add1 le_trans linorder_not_less)
    then have "int32 (int ?u) = int ?u" using small by (intro int32_small) linarith
    moreover have "ones ?bm (?u + edges keys N ?u + ?m) = ?u"
      using ones_represents [OF rep, of "?u + edges keys N ?u + ?m"] one(1,3) by simp
    ultimately show ?thesis
      using law in_bm [OF one(1)] small idx bit unfolding bitmap_law_def selectIthOne_def by (metis fst_conv snd_conv)
  qed
  with node next_start show ?thesis by (simp add: child_node_def Let_def w_def)
qed

section \<open>Has answers for the keys\<close>

text \<open>
  A name hits the keys of a node if it is one of them, or if one of them has a \<open>+\<close> where the two part, or
  earlier, but not before the node's column.
\<close>

definition hits :: "string list \<Rightarrow> string \<Rightarrow> qElt \<Rightarrow> bool" where
  "hits keys key = (\<lambda>(s, e, col). \<exists>u. s \<le> u \<and> u < e \<and>
     (keys ! u = key \<or> (\<exists>m. col \<le> m \<and> m < length key \<and> m < length (keys ! u) \<and> keys ! u ! m = complexWildcardByte \<and>
        take m (keys ! u) = take m key)))"

lemma hitsI:
  "s \<le> u \<Longrightarrow> u < e \<Longrightarrow> keys ! u = key \<Longrightarrow> hits keys key (s, e, col)"
  "s \<le> u \<Longrightarrow> u < e \<Longrightarrow> col \<le> m \<Longrightarrow> m < length key \<Longrightarrow> m < length (keys ! u) \<Longrightarrow> keys ! u ! m = complexWildcardByte \<Longrightarrow>
    take m (keys ! u) = take m key \<Longrightarrow> hits keys key (s, e, col)"
  unfolding hits_def by blast+

lemma hitsE:
  assumes "hits keys key (s, e, col)"
  obtains (exact) u where "s \<le> u" "u < e" "keys ! u = key"
  | (wild) u m where "s \<le> u" "u < e" "col \<le> m" "m < length key" "m < length (keys ! u)" "keys ! u ! m = complexWildcardByte"
      "take m (keys ! u) = take m key"
  using assms unfolding hits_def prod.case by blast

lemma same_byte: "take m xs = take m ys \<Longrightarrow> i < m \<Longrightarrow> xs ! i = ys ! i"
  by (metis nth_take)

lemma hits_end:
  assumes "sorted keys" "distinct keys" "node_ok keys (s, e, col)" "col = length key" "take col (keys ! s) = take col key"
  shows "hits keys key (s, e, col) \<longleftrightarrow> is_leaf keys (s, e, col)"
proof
  assume "is_leaf keys (s, e, col)"
  then have "keys ! s = key" using assms(4,5) by (simp add: is_leaf_def)
  then show "hits keys key (s, e, col)" using node_okD(1) [OF assms(3)] by (intro hitsI(1) [of s s]) auto
next
  assume "hits keys key (s, e, col)"
  then show "is_leaf keys (s, e, col)"
  proof (cases rule: hitsE)
    case (exact u)
    show ?thesis
    proof (rule ccontr)
      assume "\<not> is_leaf keys (s, e, col)"
      then have "skip_leaf keys (s, e, col) \<le> u" using exact by (simp add: skip_leaf_def is_leaf_def)
      from node_columns(3) [OF assms(1-3) this exact(2)] exact(3) assms(4) show False by simp
    qed
  qed (use assms(4) in simp)
qed

lemma hits_kids:
  assumes "sorted keys" "distinct keys" "node_ok keys (s, e, col)" "col < length key" "take col (keys ! s) = take col key"
  shows "hits keys key (s, e, col) \<longleftrightarrow>
    (\<exists>(c, q) \<in> set (kids keys (s, e, col)). c = complexWildcardByte \<or> (c = key ! col \<and> hits keys key q))"
proof
  note kp = kids_props [OF assms(1-3)] and ok = node_okD [OF assms(3)]
  have run: "\<exists>c f t k. (c, f, t, k) \<in> set (kids keys (s, e, col)) \<and> f \<le> u \<and> u < t \<and> k = Suc col \<and> keys ! u ! col = c"
    if "s \<le> u" "u < e" "col < length (keys ! u)" for u
  proof -
    have "skip_leaf keys (s, e, col) \<le> u" using that by (auto simp: skip_leaf_def le_Suc_eq order.order_iff_strict)
    from kp(3) [OF this that(2)] obtain c f t k where "(c, f, t, k) \<in> set (kids keys (s, e, col))" "f \<le> u" "u < t" by blast
    with kp(2) [OF this(1)] show ?thesis by blast
  qed
  assume "hits keys key (s, e, col)"
  then show "\<exists>(c, q) \<in> set (kids keys (s, e, col)). c = complexWildcardByte \<or> (c = key ! col \<and> hits keys key q)"
  proof (cases rule: hitsE)
    case (exact u)
    then obtain c f t k where "(c, f, t, k) \<in> set (kids keys (s, e, col))" "f \<le> u" "u < t" "keys ! u ! col = c"
      using run [of u] assms(4) by blast
    moreover from this exact have "c = key ! col" "hits keys key (f, t, k)" by (auto intro: hitsI(1))
    ultimately show ?thesis by blast
  next
    case (wild u m)
    with run [of u] obtain c f t where q: "(c, f, t, Suc col) \<in> set (kids keys (s, e, col))" "f \<le> u" "u < t" "keys ! u ! col = c"
      by (metis le_less_trans)
    show ?thesis
    proof (cases "m = col")
      case True
      with q wild have "c = complexWildcardByte" by simp
      with q(1) show ?thesis by blast
    next
      case False
      with wild have "c = key ! col" using same_byte [of m "keys ! u" key col] q(4) by simp
      moreover have "hits keys key (f, t, Suc col)" using False wild q by (intro hitsI(2) [of f u t "Suc col" m]) auto
      ultimately show ?thesis using q(1) by blast
    qed
  qed
next
  note kp = kids_props [OF assms(1-3)] and ok = node_okD [OF assms(3)]
  assume "\<exists>(c, q) \<in> set (kids keys (s, e, col)). c = complexWildcardByte \<or> (c = key ! col \<and> hits keys key q)"
  then obtain c f t k where q: "(c, f, t, k) \<in> set (kids keys (s, e, col))"
    and c: "c = complexWildcardByte \<or> (c = key ! col \<and> hits keys key (f, t, k))" by auto
  note b = kp(2) [OF q]
  from c show "hits keys key (s, e, col)"
  proof
    assume "c = complexWildcardByte"
    with b assms(4,5) ok(4) [of f] show ?thesis by (intro hitsI(2) [of s f e col col]) auto
  next
    assume "c = key ! col \<and> hits keys key (f, t, k)"
    then have "hits keys key (f, t, k)" ..
    then show ?thesis
    proof (cases rule: hitsE)
      case (exact u)
      with b show ?thesis by (intro hitsI(1) [of s u]) auto
    next
      case (wild u m)
      with b show ?thesis by (intro hitsI(2) [of s u e col m]) auto
    qed
  qed
qed

lemma last_node_leaf:
  assumes "sorted keys" "distinct keys" "encodes P keys N ss"
  shows "is_leaf keys (N ! (length N - 1))"
proof -
  define v where "v = length N - 1"
  let ?E = "concat (map (kids keys) N)"
  have N: "N = (0, length keys, 0) # map snd ?E" and ok: "\<forall>q \<in> set N. node_ok keys q"
    using assms(3) by (auto simp: encodes_def)
  have "N \<noteq> []" by (subst N) simp
  then have v: "v < length N" and len: "length N = Suc v" by (simp_all add: v_def)
  obtain s e col where q: "N ! v = (s, e, col)" by (cases "N ! v")
  have okq: "node_ok keys (s, e, col)" using ok v q by (metis nth_mem)
  have none: "kids keys (s, e, col) = []"
  proof (rule ccontr)
    assume *: "kids keys (s, e, col) \<noteq> []"
    define t where "t = length (kids keys (s, e, col)) - 1"
    have t: "t < length (kids keys (N ! v))" using * by (simp add: t_def q)
    have "offset (map (kids keys) N) (Suc v) = length ?E" by (simp add: offset_def len flip: len)
    then have "edges keys N v + length (kids keys (N ! v)) = length ?E"
      using offset_Suc [of v "map (kids keys) N"] v by (simp add: edges_def)
    moreover have "length N = Suc (length ?E)" by (subst N) simp
    ultimately have "Suc (edges keys N v + t) = v" using * len by (cases "kids keys (s, e, col)") (simp_all add: t_def q)
    with edge_at(3) [OF assms(3) v t] have "snd (kids keys (s, e, col) ! t) = (s, e, col)" by (simp add: q)
    moreover have "kids keys (s, e, col) ! t \<in> set (kids keys (s, e, col))" using t by (simp add: q)
    ultimately obtain c where "(c, s, e, col) \<in> set (kids keys (s, e, col))" by (metis prod.collapse)
    from kids_props(2) [OF assms(1,2) okq this] show False by simp
  qed
  have "e \<le> skip_leaf keys (s, e, col)"
  proof (rule ccontr)
    assume "\<not> e \<le> skip_leaf keys (s, e, col)"
    with kids_props(3) [OF assms(1,2) okq order_refl] none show False by simp
  qed
  with node_okD(1) [OF okq] show ?thesis unfolding v_def [symmetric] q is_leaf_def skip_leaf_def by (auto split: if_splits)
qed

lemma leaf_bit:
  assumes "sorted keys" "distinct keys" "encodes P keys N ss" "v < length N"
  obtains b where "getBit (ds_leaves ss) (int v) = Some b" "b \<noteq> 0 \<longleftrightarrow> is_leaf keys (N ! v)"
proof -
  have bits: "bm_bit (ds_leaves ss) p \<longleftrightarrow> p < length N \<and> is_leaf keys (N ! p)" for p
    using assms(3) by (auto simp: encodes_def)
  have "bm_bit (ds_leaves ss) (length N - 1)" using last_node_leaf [OF assms(1-3)] assms(4) by (simp add: bits)
  then have "v < 64 * length (ds_leaves ss)" using bm_bit_in_range assms(4) by fastforce
  from getBit_bit [OF this] show ?thesis using that bits assms(4) by metis
qed

lemma wildcard_below: "wildcardByte < complexWildcardByte"
  by (simp add: wildcardByte_def complexWildcardByte_def less_char_def)

lemma key_bytes:
  assumes "sorted keys" "distinct keys" "node_ok keys (s, e, col)" "\<forall>k \<in> set keys. \<forall>c \<in> set k. complexWildcardByte \<le> c"
    "(c, q) \<in> set (kids keys (s, e, col))"
  shows "complexWildcardByte \<le> c"
proof -
  obtain f t k where q: "q = (f, t, k)" by (cases q)
  from kids_props(2) [OF assms(1-3), of c f t k] assms(5) q
  have "f < e" "col < length (keys ! f)" "keys ! f ! col = c" by auto
  moreover from this(1) node_okD(2) [OF assms(3)] have "keys ! f \<in> set keys" by simp
  ultimately show ?thesis using assms(4) nth_mem by blast
qed

lemma label_bit:
  assumes "encodes P keys N ss" "v < length N" "t \<le> length (kids keys (N ! v))"
  obtains b where "getBit (ds_labelBitmap ss) (int (v + edges keys N v + t)) = Some b" "b \<noteq> 0 \<longleftrightarrow> t = length (kids keys (N ! v))"
proof -
  have rep: "represents (ds_labelBitmap ss) (concat (map (node_bits keys) N))" using assms(1) by (auto simp: encodes_def)
  note bits = bits_at [OF assms(2,3)]
  have "v + edges keys N v + t < 64 * length (ds_labelBitmap ss)" using represents_bounds [OF rep] bits(1) by simp
  from getBit_bit [OF this] show ?thesis using that bits rep unfolding represents_def by metis
qed

lemma sorted_labels_unique:
  assumes "sorted_wrt (<) (map fst K)" "t < length K" "K ! t = (c, q)" "(c', q') \<in> set (drop (Suc t) K)"
  shows "c < (c' :: char)"
proof -
  have "K = take t K @ (c, q) # drop (Suc t) K" using assms(2,3) by (metis id_take_nth_drop)
  then have "sorted_wrt (<) (map fst (take t K) @ c # map fst (drop (Suc t) K))" using assms(1) by (metis fst_conv list.simps(9) map_append)
  then show ?thesis using assms(4) by (force simp: sorted_wrt_append)
qed

text \<open>The scan of the edges of a node, from the edge \<open>t\<close> on; \<open>down\<close> is the walk from the next node.\<close>

lemma has_scan:
  assumes law: "bitmap_law P" and enc: "encodes P keys N ss" and keys: "sorted keys" "distinct keys"
    "\<forall>k \<in> set keys. \<forall>c \<in> set k. complexWildcardByte \<le> c"
    and v: "v < length N" "N ! v = (s, e, col)" "col < length key" "take col (keys ! s) = take col key"
    and down: "\<And>t f t' k. t < length (kids keys (N ! v)) \<Longrightarrow> kids keys (N ! v) ! t = (key ! col, f, t', k) \<Longrightarrow>
      has_loop P ss key (Suc col) (int (Suc (edges keys N v + t))) (int (Suc (edges keys N v + t) + edges keys N (Suc (edges keys N v + t)))) [] =
        Some (Some (hits keys key (f, t', k)))"
  shows "t \<le> length (kids keys (N ! v)) \<Longrightarrow>
    \<forall>(c, q) \<in> set (take t (kids keys (N ! v))). c \<noteq> complexWildcardByte \<and> c \<noteq> key ! col \<Longrightarrow>
    has_loop P ss key col (int v) (int (v + edges keys N v + t)) [] = Some (Some (hits keys key (s, e, col)))"
proof (induction "length (kids keys (N ! v)) - t" arbitrary: t)
  let ?K = "kids keys (N ! v)"
  have ok: "node_ok keys (s, e, col)" using enc v(1,2) by (metis encodes_def nth_mem)
  have K: "?K = kids keys (s, e, col)" by (simp add: v(2))
  note hk = hits_kids [OF keys(1,2) ok v(3,4), folded K]
  {
    case 0
    then have t: "t = length ?K" by simp
    obtain b where b: "getBit (ds_labelBitmap ss) (int (v + edges keys N v + t)) = Some b" "b \<noteq> 0"
      using label_bit [OF enc v(1), of t] t by auto
    have "\<not> hits keys key (s, e, col)" using 0(3) unfolding hk t by auto
    with b v(3) show ?case by (subst has_loop.simps) simp
  next
    case (Suc n)
    then have t: "t < length ?K" by simp
    obtain c q where cq: "?K ! t = (c, q)" by (cases "?K ! t")
    have mem: "(c, q) \<in> set ?K" using t cq by (metis nth_mem)
    have "complexWildcardByte \<le> c" using key_bytes [OF keys(1,2) ok keys(3)] mem K by simp
    then have c: "c \<noteq> wildcardByte" using wildcard_below by auto
    have bit: "getBit (ds_labelBitmap ss) (int (v + edges keys N v + t)) = Some 0"
      using label_bit [OF enc v(1), of t] t by (metis less_imp_le less_irrefl)
    have label: "index (ds_labels ss) (int (v + edges keys N v + t) - int v) = Some c"
      using edge_at(1) [OF enc v(1) t] cq by simp
    note unfold_loop = has_loop.simps [of P ss key col "int v" "int (v + edges keys N v + t)" "[]"]
    consider (wild) "c = complexWildcardByte" | (match) "c = key ! col" "c \<noteq> complexWildcardByte"
      | (other) "c \<noteq> key ! col" "c \<noteq> complexWildcardByte" by blast
    then show ?case
    proof cases
      case wild
      then have "hits keys key (s, e, col)" using mem unfolding hk by blast
      with wild bit label v(3) show ?thesis by (subst unfold_loop) simp
    next
      case match
      obtain f t' k where q: "q = (f, t', k)" by (cases q)
      have after: "c < c'" if "(c', q') \<in> set (drop (Suc t) ?K)" for c' q'
        using sorted_labels_unique [OF _ t cq that] kids_props(4) [OF keys(1,2) ok] K by simp
      have split: "set ?K = set (take t ?K) \<union> {(c, q)} \<union> set (drop (Suc t) ?K)"
      proof -
        have "set ?K = set (take t ?K @ ?K ! t # drop (Suc t) ?K)" by (rule arg_cong [OF id_take_nth_drop [OF t]])
        then show ?thesis unfolding cq set_append list.set by blast
      qed
      have others: "c' \<noteq> complexWildcardByte \<and> c' \<noteq> key ! col" if "(c', q') \<in> set (take t ?K) \<union> set (drop (Suc t) ?K)" for c' q'
        using that
      proof
        assume "(c', q') \<in> set (drop (Suc t) ?K)"
        from after [OF this] match \<open>complexWildcardByte \<le> c\<close> show ?thesis by auto
      qed (use Suc(4) in blast)
      have "hits keys key (s, e, col) \<longleftrightarrow> hits keys key q"
        unfolding hk split using others match by blast
      moreover have "has_loop P ss key (Suc col) (int (Suc (edges keys N v + t)))
          (int (Suc (edges keys N v + t) + edges keys N (Suc (edges keys N v + t)))) [] = Some (Some (hits keys key q))"
        using down [OF t] cq match(1) q by simp
      ultimately show ?thesis
        using match bit label v(3) c child_node_at [OF law enc v(1) t] by (subst unfold_loop) simp
    next
      case other
      have "has_loop P ss key col (int v) (int (v + edges keys N v + Suc t)) [] = Some (Some (hits keys key (s, e, col)))"
      proof (rule Suc(1))
        show "n = length ?K - Suc t" "Suc t \<le> length ?K" using Suc(2) t by simp_all
        show "\<forall>(c, q) \<in> set (take (Suc t) ?K). c \<noteq> complexWildcardByte \<and> c \<noteq> key ! col"
          using Suc(4) other cq t by (auto simp: take_Suc_conv_app_nth)
      qed
      moreover have "int (v + edges keys N v + Suc t) = int (v + edges keys N v + t) + 1" by simp
      ultimately show ?thesis using other bit label v(3) c by (subst unfold_loop) (simp only: option.case if_True if_False simp_thms not_le if_not_P)
    qed
  }
qed

lemma has_from_node:
  assumes "bitmap_law P" "encodes P keys N ss" "sorted keys" "distinct keys" "\<forall>k \<in> set keys. \<forall>c \<in> set k. complexWildcardByte \<le> c"
  shows "v < length N \<Longrightarrow> N ! v = (s, e, col) \<Longrightarrow> col \<le> length key \<Longrightarrow> take col (keys ! s) = take col key \<Longrightarrow>
    has_loop P ss key col (int v) (int (v + edges keys N v)) [] = Some (Some (hits keys key (s, e, col)))"
proof (induction "length key - col" arbitrary: v s e col)
  case 0
  then have ok: "node_ok keys (s, e, col)" using assms(2) by (metis encodes_def nth_mem)
  have col: "col = length key" using 0 by simp
  obtain b where b: "getBit (ds_leaves ss) (int v) = Some b" "b \<noteq> 0 \<longleftrightarrow> is_leaf keys (s, e, col)"
    using leaf_bit [OF assms(3,4,2) 0(2)] 0(3) by metis
  with hits_end [OF assms(3,4) ok col 0(5)] col show ?case by (subst has_loop.simps) simp
next
  case (Suc n)
  then have col: "col < length key" by simp
  have ok: "node_ok keys (s, e, col)" using assms(2) Suc(3,4) by (metis encodes_def nth_mem)
  have down: "has_loop P ss key (Suc col) (int (Suc (edges keys N v + t)))
      (int (Suc (edges keys N v + t) + edges keys N (Suc (edges keys N v + t)))) [] = Some (Some (hits keys key (f, t', k)))"
    if t: "t < length (kids keys (N ! v))" and q: "kids keys (N ! v) ! t = (key ! col, f, t', k)" for t f t' k
  proof -
    have "(key ! col, f, t', k) \<in> set (kids keys (s, e, col))" using t q Suc(4) by (metis nth_mem)
    from kids_props(2) [OF assms(3,4) ok this] have k: "k = Suc col" "s \<le> f" "f < e" "col < length (keys ! f)" "keys ! f ! col = key ! col"
      by auto
    have "take col (keys ! f) = take col key" using node_okD(4) [OF ok k(2,3)] Suc(6) by simp
    then have "take k (keys ! f) = take k key" using k(1,4,5) col by (simp add: take_Suc_conv_app_nth)
    with edge_at(2,3) [OF assms(2) Suc(3) t] q k(1) col Suc(2) show ?thesis
      using Suc(1) [of k "Suc (edges keys N v + t)" f t'] by simp
  qed
  show ?case
    using has_scan [OF assms Suc(3,4) col Suc(6) down, of 0] by simp
qed

lemma NewDomainSet_keys_encodes:
  assumes "bitmap_law P" "sorted keys" "distinct keys" "keys \<noteq> []" "sum_list (map length keys) < 2 ^ 28"
  shows "\<exists>ss N. NewDomainSet_keys P keys = Some (Some ss) \<and> encodes P keys N ss"
proof -
  let ?b = "\<lparr>sb_leaves = [], sb_labelBitmap = [], sb_labels = [], sb_lIdx = 0\<rparr>" and ?root = "(0, length keys, 0)"
  have root: "node_ok keys ?root" using assms(4) by (simp add: node_ok_def)
  from build_set_nodes [OF assms(2,3), of "[?root]" 0 ?b] root obtain N where
    N: "build_set keys 0 [?root] ?b = Some (add_all keys 0 N ?b)" "N = [?root] @ concat (map (map snd \<circ> kids keys) N)"
      "\<forall>q \<in> set N. node_ok keys q" "length N \<le> weight keys ?root"
    by auto
  let ?b' = "add_all keys 0 N ?b" and ?E = "concat (map (kids keys) N)"
  have snds: "concat (map (map f \<circ> kids keys) N) = map f ?E" for f :: "char \<times> qElt \<Rightarrow> 'b"
    by (simp add: map_concat)
  have N': "N = ?root # map snd ?E" using N(2) unfolding snds by simp
  have empty: "represents (sb_labelBitmap ?b) []" by (simp add: represents_def bm_bit_def)
  have rep: "represents (sb_labelBitmap ?b') (concat (map (node_bits keys) N))"
    using add_all_bits [OF empty, of keys 0 N] by simp
  have "unread keys 0 (length keys) 0 = sum_list (map length keys)"
    by (simp add: unread_def sum_list_sum_nth atLeast0LessThan)
  then have "length N \<le> Suc (2 * sum_list (map length keys))" using N(4) by simp
  moreover have "length N = Suc (length ?E)" by (subst N') simp
  ultimately have "64 * length (sb_labelBitmap ?b') < 2 ^ 31"
    using represents_bounds [OF rep] assms(5) by (simp add: length_bits)
  then show ?thesis
    using N(1,3) N' rep assms(4) add_all_labels [of keys 0 N ?b] add_all_leaves [of keys 0 N ?b]
    by (intro exI [of _ "ds_init P \<lparr>ds_leaves = sb_leaves ?b', ds_labelBitmap = sb_labelBitmap ?b', ds_labels = sb_labels ?b', ds_ranks = [], ds_selects = []\<rparr>"] exI [of _ N])
      (simp add: NewDomainSet_keys_def encodes_def ds_init_def bm_bit_def snds split: prod.splits)
qed

text \<open>The set answers for its keys, ends and does not panic.\<close>

lemma DomainSet_keys:
  assumes "bitmap_law P" "sorted keys" "distinct keys" "keys \<noteq> []" "sum_list (map length keys) < 2 ^ 28"
    "\<forall>k \<in> set keys. \<forall>c \<in> set k. complexWildcardByte \<le> c"
  shows "\<exists>ss. NewDomainSet_keys P keys = Some (Some ss) \<and>
    (\<forall>key. has_loop P ss key 0 0 0 [] = Some (Some (hits keys key (0, length keys, 0))))"
proof -
  obtain ss N where ss: "NewDomainSet_keys P keys = Some (Some ss)" and enc: "encodes P keys N ss"
    using NewDomainSet_keys_encodes [OF assms(1-5)] by blast
  have "N \<noteq> [] \<and> N ! 0 = (0, length keys, 0)" using enc unfolding encodes_def by (metis list.distinct(1) nth_Cons_0)
  then have "has_loop P ss key 0 0 0 [] = Some (Some (hits keys key (0, length keys, 0)))" for key
    using has_from_node [OF assms(1) enc assms(2,3,6), of 0 0 "length keys" 0 key] by (simp add: edges_def offset_def)
  with ss show ?thesis by blast
qed

section \<open>The names of a trie\<close>

text \<open>\<open>Foreach\<close> visits every stored path once.\<close>

definition below :: "(string \<times> 'a node) list \<Rightarrow> string list set" where
  "below cs = {k # p | k c p. (k, c) \<in> set cs \<and> contents c p \<noteq> None}"

lemma below_children: "wf_node n \<Longrightarrow> below (getChildren n) = {p. p \<noteq> [] \<and> contents n p \<noteq> None}"
proof (intro set_eqI iffI)
  fix q assume wf: "wf_node n" and "q \<in> below (getChildren n)"
  then obtain k c p where "q = k # p" "(k, c) \<in> set (getChildren n)" "contents c p \<noteq> None" by (auto simp: below_def)
  moreover from this wf have "getChild n k = Some c" by (metis map_of_getChildren map_of_eq_Some_iff wf_node.simps)
  ultimately show "q \<in> {p. p \<noteq> [] \<and> contents n p \<noteq> None}" by simp
next
  fix q assume "q \<in> {p. p \<noteq> [] \<and> contents n p \<noteq> None}"
  then obtain k p c where "q = k # p" "getChild n k = Some c" "contents c p \<noteq> None"
    by (cases q) (auto split: option.splits)
  then show "q \<in> below (getChildren n)" unfolding below_def by (blast dest: getChild_in_children)
qed

lemma below_Cons: "below ((k, c) # cs) = (#) k ` {p. contents c p \<noteq> None} \<union> below cs"
  by (auto simp: below_def)

lemma contents_child: "wf_node n \<Longrightarrow> (k, c) \<in> set (getChildren n) \<Longrightarrow> contents n (k # p) = contents c p"
  by (metis contents.simps(2) map_of_getChildren map_of_eq_Some_iff option.simps(5) wf_node.simps)

lemma wf_child: "wf_node n \<Longrightarrow> (k, c) \<in> set (getChildren n) \<Longrightarrow> wf_node c"
  by (auto simp: wf_node.simps [of n] list_all_iff)

text \<open>The paths of one child: its own, if it has data, and those below it.\<close>

lemma child_paths:
  assumes "wf_node c" "distinct ps" "set ps = {p. p \<noteq> [] \<and> contents c p \<noteq> None}"
  defines "qs \<equiv> (if inited c then [[]] else []) @ ps"
  shows "distinct qs" "set qs = {p. contents c p \<noteq> None}"
proof -
  have "contents c [] \<noteq> None \<longleftrightarrow> inited c" using wf_nodeData [OF assms(1)] by simp
  then show "distinct qs" "set qs = {p. contents c p \<noteq> None}"
    using assms(2,3) unfolding qs_def by (auto split: if_splits)
qed

lemma recursion_paths:
  "wf_node n \<Longrightarrow> \<exists>ps. recursion items n collect s = (True, s @ map (\<lambda>p. (foreachName (rev p @ items), contents n p)) ps) \<and>
     distinct ps \<and> set ps = {p. p \<noteq> [] \<and> contents n p \<noteq> None}"
proof (induction n arbitrary: items s rule: measure_induct_rule [of size])
  case (less n)
  have "\<exists>ps. recursion_range items cs collect s = (True, s @ map (\<lambda>p. (foreachName (rev p @ items), contents n p)) ps) \<and>
      distinct ps \<and> set ps = below cs"
    if "set cs \<subseteq> set (getChildren n)" "distinct (map fst cs)" for cs s
    using that
  proof (induction cs arbitrary: s)
    case Nil
    then show ?case by (simp add: below_def)
  next
    case (Cons kc cs)
    obtain k c where kc: "kc = (k, c)" by fastforce
    have c: "(k, c) \<in> set (getChildren n)" using Cons.prems kc by simp
    have wf: "wf_node c" using wf_child [OF less.prems c] .
    have sz: "size c < size n" using size_child_list [OF c] size_getChildren [of n] by simp
    let ?s1 = "if inited c then s @ [(foreachName (k # items), data c)] else s"
    from less.IH [OF sz wf, of "k # items" ?s1] obtain ps where
      ps: "recursion (k # items) c collect ?s1 = (True, ?s1 @ map (\<lambda>p. (foreachName (rev p @ k # items), contents c p)) ps)"
        "distinct ps" "set ps = {p. p \<noteq> [] \<and> contents c p \<noteq> None}" by blast
    note qs = child_paths [OF wf ps(2,3)]
    let ?qs = "(if inited c then [[]] else []) @ ps"
    let ?s2 = "s @ map (\<lambda>p. (foreachName (rev p @ items), contents n p)) (map ((#) k) ?qs)"
    have s2: "?s1 @ map (\<lambda>p. (foreachName (rev p @ k # items), contents c p)) ps = ?s2"
      using contents_child [OF less.prems c] by (simp add: nodeData_def comp_def)
    have cs: "set cs \<subseteq> set (getChildren n)" "distinct (map fst cs)" using Cons.prems by auto
    from Cons.IH [OF cs, of ?s2] obtain rs where rs: "recursion_range items cs collect ?s2 =
        (True, ?s2 @ map (\<lambda>p. (foreachName (rev p @ items), contents n p)) rs)" "distinct rs" "set rs = below cs" by blast
    have "recursion_range items (kc # cs) collect s =
        recursion_range items cs collect (?s1 @ map (\<lambda>p. (foreachName (rev p @ k # items), contents c p)) ps)"
      using ps(1) by (cases "inited c") (simp_all add: kc isEmpty_def collect_def Let_def del: recursion.simps)
    then have "recursion_range items (kc # cs) collect s = recursion_range items cs collect ?s2" unfolding s2 .
    moreover have "distinct (map ((#) k) ?qs @ rs)"
      using qs(1) rs(2,3) Cons.prems(2) kc by (auto simp: distinct_map below_def image_iff inj_on_def intro: rev_image_eqI)
    moreover have "set (map ((#) k) ?qs @ rs) = below (kc # cs)"
      using qs(2) rs(3) kc by (simp only: below_Cons set_append set_map)
    ultimately show ?case using rs(1) by (intro exI [of _ "map ((#) k) ?qs @ rs"]) simp
  qed
  from this [OF subset_refl] show ?case
    using less.prems below_children [OF less.prems] by (simp add: wf_node.simps [of n])
qed

lemma Foreach_paths:
  assumes "wf_node t"
  shows "\<exists>ps. Foreach t collect [] = map (\<lambda>p. (entryName p, contents t p)) ps \<and> distinct ps \<and>
    set ps = {p. p \<noteq> [] \<and> contents t p \<noteq> None}"
proof -
  have "\<exists>ps. Foreach_range cs collect s = s @ map (\<lambda>p. (entryName p, contents t p)) ps \<and> distinct ps \<and> set ps = below cs"
    if "set cs \<subseteq> set (getChildren t)" "distinct (map fst cs)" for cs s
    using that
  proof (induction cs arbitrary: s)
    case Nil
    then show ?case by (simp add: below_def)
  next
    case (Cons kc cs)
    obtain k c where kc: "kc = (k, c)" by fastforce
    have c: "(k, c) \<in> set (getChildren t)" using Cons.prems kc by simp
    have wf: "wf_node c" using wf_child [OF assms c] .
    from recursion_paths [OF wf, of "[k]" s] obtain ps where
      ps: "recursion [k] c collect s = (True, s @ map (\<lambda>p. (foreachName (rev p @ [k]), contents c p)) ps)"
        "distinct ps" "set ps = {p. p \<noteq> [] \<and> contents c p \<noteq> None}" by blast
    note qs = child_paths [OF wf ps(2,3)]
    let ?qs = "ps @ (if inited c then [[]] else [])"
    let ?s2 = "s @ map (\<lambda>p. (entryName p, contents t p)) (map ((#) k) ?qs)"
    let ?L = "map (\<lambda>p. (foreachName (rev p @ [k]), contents c p)) ps"
    have L: "?L = map (\<lambda>p. (entryName p, contents t p)) (map ((#) k) ps)"
      using ps(3) contents_child [OF assms c] by (auto simp: entryName_longer simp del: contents.simps)
    have s2: "s @ ?L @ (if inited c then [(k, data c)] else []) = ?s2"
      unfolding L using contents_child [OF assms c, of "[]"] by (simp add: entryName_def nodeData_def del: contents.simps(2))
    have "Foreach_range (kc # cs) collect s = Foreach_range cs collect (s @ ?L @ (if inited c then [(k, data c)] else []))"
      using ps(1) by (cases "inited c") (simp_all add: kc isEmpty_def collect_def del: recursion.simps)
    then have step: "Foreach_range (kc # cs) collect s = Foreach_range cs collect ?s2" unfolding s2 .
    have cs: "set cs \<subseteq> set (getChildren t)" "distinct (map fst cs)" using Cons.prems by auto
    from Cons.IH [OF cs, of ?s2] obtain rs where rs: "Foreach_range cs collect ?s2 = ?s2 @ map (\<lambda>p. (entryName p, contents t p)) rs"
      "distinct rs" "set rs = below cs" by blast
    have "distinct (map ((#) k) ?qs @ rs)"
      using qs(1) rs(2,3) Cons.prems(2) kc by (auto simp: distinct_map below_def image_iff inj_on_def intro: rev_image_eqI)
    moreover have "set (map ((#) k) ?qs @ rs) = below (kc # cs)"
      using qs(2) rs(3) kc by (simp only: below_Cons set_append set_map Un_commute)
    ultimately show ?case using step rs(1) by (intro exI [of _ "map ((#) k) ?qs @ rs"]) simp
  qed
  from this [OF subset_refl, of "[]"] show ?thesis
    using assms below_children [OF assms] by (simp add: wf_node.simps [of t] Foreach_def)
qed

text \<open>A callback that keeps a function of the state of another one keeps it to the end.\<close>

lemma recursion_simulates:
  assumes "\<And>name x s. fn' name x (h s) = (fst (fn name x s), h (snd (fn name x s)))"
  shows "recursion items n fn' (h s) = (fst (recursion items n fn s), h (snd (recursion items n fn s)))"
proof (induction n arbitrary: items s rule: measure_induct_rule [of size])
  case (less n)
  have "recursion_range items cs fn' (h s) = (fst (recursion_range items cs fn s), h (snd (recursion_range items cs fn s)))"
    if "set cs \<subseteq> set (getChildren n)" for cs s
    using that
  proof (induction cs arbitrary: s)
    case (Cons kc cs)
    obtain k c where kc: "kc = (k, c)" by fastforce
    have "size c < size n" using size_child_list [of k c "getChildren n"] size_getChildren [of n] Cons.prems kc by simp
    note child = less.IH [OF this]
    show ?case
      using Cons by (simp add: kc Let_def assms child split: prod.split del: recursion.simps)
  qed simp
  then show ?case by simp
qed

lemma Foreach_simulates:
  assumes "\<And>name x s. fn' name x (h s) = (fst (fn name x s), h (snd (fn name x s)))"
  shows "Foreach t fn' (h s) = h (Foreach t fn s)"
proof -
  have "Foreach_range cs fn' (h s) = h (Foreach_range cs fn s)" for cs s
    by (induction cs arbitrary: s) (auto simp: recursion_simulates [of fn' h fn, OF assms] assms Let_def split: prod.split simp del: recursion.simps)
  then show ?thesis by (simp add: Foreach_def)
qed

lemma reserveDomains_names: "reserveDomains t = map (rev \<circ> fst) (Foreach t collect [])"
  unfolding reserveDomains_def
  using Foreach_simulates [of "\<lambda>domain x acc. (True, acc @ [Reverse domain])" "map (rev \<circ> fst)" collect t "[]"]
  by (simp add: collect_def Reverse_def)

text \<open>
  Paths without wildcards inside: every byte comes after the plus sign, and only the last label may be empty, for a
  leading \<open>+\<close>.
\<close>

definition plain_label :: "string \<Rightarrow> bool" where
  "plain_label l \<longleftrightarrow> (\<forall>c \<in> set l. complexWildcardByte < c)"

definition plain_path :: "string list \<Rightarrow> bool" where
  "plain_path p \<longleftrightarrow> p \<noteq> [] \<and> (\<forall>l \<in> set p. plain_label l \<and> domainStep \<notin> set l) \<and> [] \<notin> set (butlast p) \<and>
     (last p = [] \<longrightarrow> 2 \<le> length p)"

definition plain_pattern :: "string \<Rightarrow> bool" where
  "plain_pattern pat \<longleftrightarrow> (\<forall>parts. ValidAndSplitDomain pat = Some parts \<longrightarrow>
     (\<forall>l \<in> set (tl parts). plain_label l) \<and> (if hd parts = complexWildcard then tl parts \<noteq> [] else plain_label (hd parts)))"

lemma ValidAndSplit_no_dot: "ValidAndSplitDomain d = Some parts \<Longrightarrow> l \<in> set parts \<Longrightarrow> domainStep \<notin> set l"
  by (auto simp: ValidAndSplitDomain_def Let_def dest: split_on_no_sep split: if_splits)

lemma ValidAndSplit_join: "ValidAndSplitDomain d = Some parts \<Longrightarrow> joinDomain parts = to_lower d"
  by (auto simp: ValidAndSplitDomain_def Let_def join_split split: if_splits)

lemma ValidAndSplit_single: "ValidAndSplitDomain d = Some [l] \<Longrightarrow> l \<noteq> []"
  by (auto simp: ValidAndSplitDomain_def Let_def split: if_splits)

lemma stored_plain:
  assumes "plain_pattern pat" "p \<in> stored_paths pat"
  shows "plain_path p"
proof -
  obtain parts where parts: "ValidAndSplitDomain pat = Some parts"
    and p: "if hd parts = complexWildcard then p = rev (tl parts) \<or> p = rev (dotWildcard # tl parts) else p = rev parts"
    using assms(2) by (auto simp: stored_paths_def split: option.splits if_splits)
  note labels = ValidAndSplit_labels [OF parts] and nodot = ValidAndSplit_no_dot [OF parts]
  have plain: "\<forall>l \<in> set (tl parts). plain_label l"
    "if hd parts = complexWildcard then tl parts \<noteq> [] else plain_label (hd parts)"
    using assms(1) parts by (auto simp: plain_pattern_def)
  obtain h r where hr: "parts = h # r" using labels by (cases parts) auto
  have r: "\<forall>l \<in> set r. plain_label l \<and> domainStep \<notin> set l \<and> l \<noteq> []" using plain(1) nodot labels by (auto simp: hr)
  show ?thesis
  proof (cases "h = complexWildcard")
    case True
    then have "r \<noteq> []" "p = rev r \<or> p = rev r @ [[]]" using plain(2) p by (auto simp: hr dotWildcard_def)
    with r show ?thesis
      by (auto simp: plain_path_def plain_label_def last_rev butlast_rev hd_in_set dest: in_set_butlastD list.set_sel(2))
        (metis list.set_sel(1) list.set_sel(2) last_rev rev_rev_ident hd_rev set_rev length_greater_0_conv Suc_leI)+
  next
    case False
    then have "p = rev r @ [h]" "plain_label h" "domainStep \<notin> set h" using plain(2) p nodot by (auto simp: hr)
    moreover have "h = [] \<Longrightarrow> r \<noteq> []" using ValidAndSplit_single parts hr by blast
    ultimately show ?thesis using r by (auto simp: plain_path_def Suc_le_eq)
  qed
qed

lemma entryName_plain:
  assumes "plain_path p"
  shows "entryName p = (if last p = [] then ''+.'' @ joinDomain (rev (butlast p)) else joinDomain (rev p))"
proof (cases "length p = 1")
  case True
  then obtain l where "p = [l]" by (auto simp: length_Suc_conv)
  with assms show ?thesis by (auto simp: entryName_def plain_path_def)
next
  case False
  have p: "p \<noteq> []" "domainStep \<notin> set (last p)" using assms by (auto simp: plain_path_def)
  with False have b: "butlast p \<noteq> []" by (cases p rule: rev_cases) auto
  have rp: "rev p = last p # rev (butlast p)" using p(1) by (metis append_butlast_last_id rev_eq_Cons_iff rev_rev_ident rev.simps(2))
  have j: "joinDomain (rev p) = last p @ domainStep # joinDomain (rev (butlast p))" unfolding rp using b by (simp add: join_with_Cons)
  have "hd (joinDomain (rev p)) = CHR ''.'' \<longleftrightarrow> last p = []"
    using p(2) unfolding j by (cases "last p") (auto simp: domainStep_def)
  with False j show ?thesis by (auto simp: entryName_def foreachName_def Let_def complexWildcard_def domainStep_def)
qed

lemma join_bytes: "set (joinDomain ps) \<subseteq> insert domainStep (\<Union> (set ` set ps))"
proof (induction ps)
  case (Cons p ps)
  then show ?case by (cases "ps = []") (auto simp: join_with_Cons)
qed simp

lemma join_nonempty: "ps \<noteq> [] \<Longrightarrow> [] \<notin> set ps \<Longrightarrow> joinDomain ps \<noteq> []"
  by (cases ps; cases "tl ps") auto

lemma step_above: "complexWildcardByte < domainStep"
  by (simp add: complexWildcardByte_def domainStep_def less_char_def)

lemma join_plain: "\<forall>l \<in> set ps. plain_label l \<Longrightarrow> c \<in> set (joinDomain ps) \<Longrightarrow> complexWildcardByte < c"
  using join_bytes [of ps] step_above by (auto simp: plain_label_def)

lemma entryName_bytes: "plain_path p \<Longrightarrow> c \<in> set (entryName p) \<Longrightarrow> complexWildcardByte \<le> c"
proof -
  assume p: "plain_path p" and c: "c \<in> set (entryName p)"
  have "\<forall>l \<in> set (rev p). plain_label l" "\<forall>l \<in> set (rev (butlast p)). plain_label l"
    using p by (auto simp: plain_path_def dest: in_set_butlastD)
  then have "c \<in> set (joinDomain (rev p)) \<Longrightarrow> complexWildcardByte \<le> c"
    "c \<in> set (joinDomain (rev (butlast p))) \<Longrightarrow> complexWildcardByte \<le> c"
    using join_plain less_imp_le by blast+
  with c show ?thesis
    using step_above unfolding entryName_plain [OF p]
    by (auto split: if_splits simp: complexWildcardByte_def domainStep_def)
qed

lemma pat_matches_plain: "[] \<notin> set p \<Longrightarrow> wildcard \<notin> set p \<Longrightarrow> pat_matches p ls \<longleftrightarrow> p = ls"
  by (induction p ls rule: pat_matches.induct) (auto simp: dotWildcard_def)

lemma wildcard_not_plain: "\<not> plain_label wildcard"
  using wildcard_below by (auto simp: plain_label_def wildcard_def wildcardByte_def)

text \<open>One name of the set and one host: the scan of the bytes decides the match of the labels.\<close>

lemma key_matches:
  assumes p: "plain_path p" and ls: "parts \<noteq> []" "[] \<notin> set parts" "\<forall>l \<in> set parts. domainStep \<notin> set l"
  defines "k \<equiv> rev (entryName p)" and "key \<equiv> rev (joinDomain parts)"
  shows "(k = key \<or> (\<exists>m. m < length key \<and> m < length k \<and> k ! m = complexWildcardByte \<and> take m k = take m key)) \<longleftrightarrow>
    pat_matches p (rev parts)"
proof (cases "last p = []")
  case False
  have labels: "\<forall>l \<in> set p. plain_label l \<and> domainStep \<notin> set l" "p \<noteq> []" using p by (auto simp: plain_path_def)
  have "[] \<notin> set p" using p False by (metis append_butlast_last_id in_set_conv_decomp_last plain_path_def set_append Un_iff empty_iff set_ConsD list.set(1))
  moreover have "wildcard \<notin> set p" using labels wildcard_not_plain by blast
  ultimately have "pat_matches p (rev parts) \<longleftrightarrow> p = rev parts" by (rule pat_matches_plain)
  moreover have k: "k = rev (joinDomain (rev p))" using entryName_plain [OF p] False by (simp add: k_def)
  moreover have "joinDomain (rev p) = joinDomain parts \<longleftrightarrow> rev p = parts"
    using split_join [of "rev p" domainStep] split_join [of parts domainStep] labels ls by (metis rev_is_Nil_conv set_rev)
  moreover have "k ! m \<noteq> complexWildcardByte" if "m < length k" for m
    using that join_plain [of "rev p"] labels nth_mem [OF that] unfolding k by (metis less_irrefl set_rev)
  ultimately show ?thesis by (auto simp: key_def)
next
  case True
  define q where "q = butlast p"
  have pq: "p = q @ [dotWildcard]" "q \<noteq> []" and labels: "\<forall>l \<in> set q. plain_label l \<and> domainStep \<notin> set l"
    using p True append_butlast_last_id [of p] unfolding q_def plain_path_def dotWildcard_def
    by (auto dest: in_set_butlastD)
  let ?J = "joinDomain (rev q)"
  have k: "k = rev ?J @ [domainStep, complexWildcardByte]"
    using entryName_plain [OF p] True by (simp add: k_def q_def domainStep_def complexWildcardByte_def)
  have plus: "k ! m = complexWildcardByte \<longleftrightarrow> m = Suc (length ?J)" if "m < length k" for m
  proof -
    have "m < length ?J \<Longrightarrow> rev ?J ! m \<in> set ?J" by (metis length_rev nth_mem set_rev)
    then have "m < length ?J \<Longrightarrow> rev ?J ! m \<noteq> complexWildcardByte" using join_plain [of "rev q"] labels by force
    with that step_above show ?thesis by (auto simp: k nth_append less_Suc_eq)
  qed
  have "(\<exists>m. m < length key \<and> m < length k \<and> k ! m = complexWildcardByte \<and> take m k = take m key) \<longleftrightarrow>
      Suc (length ?J) < length key \<and> take (Suc (length ?J)) key = rev ?J @ [domainStep]"
    using plus by (auto simp: k)
  also have "\<dots> \<longleftrightarrow> (\<exists>x. x \<noteq> [] \<and> joinDomain parts = x @ domainStep # ?J)"
  proof
    assume *: "Suc (length ?J) < length key \<and> take (Suc (length ?J)) key = rev ?J @ [domainStep]"
    then have "key = (rev ?J @ [domainStep]) @ drop (Suc (length ?J)) key" by (metis append_take_drop_id)
    then have "joinDomain parts = rev (drop (Suc (length ?J)) key) @ domainStep # ?J" unfolding key_def by (metis append_Cons append_Nil rev.simps(2) rev_append rev_rev_ident append_assoc)
    with * show "\<exists>x. x \<noteq> [] \<and> joinDomain parts = x @ domainStep # ?J" by (intro exI [of _ "rev (drop (Suc (length ?J)) key)"]) simp
  qed (auto simp: key_def)
  finally have wild: "(\<exists>m. m < length key \<and> m < length k \<and> k ! m = complexWildcardByte \<and> take m k = take m key) \<longleftrightarrow>
      (\<exists>x. x \<noteq> [] \<and> joinDomain parts = x @ domainStep # ?J)" .
  have split: "split_on domainStep (joinDomain parts) = parts" "split_on domainStep ?J = rev q"
    using split_join ls labels pq(2) by (metis, metis rev_is_Nil_conv set_rev)
  have exact: "k = key \<Longrightarrow> \<exists>x. x \<noteq> [] \<and> joinDomain parts = x @ domainStep # ?J"
    unfolding k key_def by (intro exI [of _ "[complexWildcardByte]"]) (metis append_Cons append_Nil list.distinct(1) rev.simps rev_append rev_rev_ident append_assoc)
  have "(\<exists>x. x \<noteq> [] \<and> joinDomain parts = x @ domainStep # ?J) \<longleftrightarrow> (\<exists>ys. ys \<noteq> [] \<and> rev parts = q @ ys)"
  proof
    assume "\<exists>x. x \<noteq> [] \<and> joinDomain parts = x @ domainStep # ?J"
    then obtain x where "joinDomain parts = x @ domainStep # ?J" by blast
    then have "parts = split_on domainStep x @ rev q" using split split_on_append_any [of domainStep x ?J] by simp
    then show "\<exists>ys. ys \<noteq> [] \<and> rev parts = q @ ys" by (intro exI [of _ "rev (split_on domainStep x)"]) simp
  next
    assume "\<exists>ys. ys \<noteq> [] \<and> rev parts = q @ ys"
    then obtain ys where ys: "ys \<noteq> []" "parts = rev ys @ rev q" by (metis rev_append rev_rev_ident)
    then have "joinDomain parts = joinDomain (rev ys) @ domainStep # ?J" using pq(2) by (simp add: join_with_append)
    moreover have "joinDomain (rev ys) \<noteq> []" using ys ls(2) by (intro join_nonempty) auto
    ultimately show "\<exists>x. x \<noteq> [] \<and> joinDomain parts = x @ domainStep # ?J" by blast
  qed
  moreover have "pat_matches p (rev parts) \<longleftrightarrow> (\<exists>ys. ys \<noteq> [] \<and> rev parts = q @ ys)"
  proof -
    have q: "dotWildcard \<notin> set q" using p by (simp add: plain_path_def q_def dotWildcard_def)
    moreover have "wildcard \<notin> set q" using labels wildcard_not_plain by blast
    ultimately have "pat_matches q as \<longleftrightarrow> q = as" for as by (intro pat_matches_plain) (simp_all add: dotWildcard_def)
    then show ?thesis unfolding pq(1) pat_matches_snoc_dot [OF q] by auto
  qed
  ultimately show ?thesis using wild exact by blast
qed

lemma entryName_inj:
  assumes "plain_path p" "plain_path q" "entryName p = entryName q"
  shows "p = q"
proof -
  let ?names = "\<lambda>p. if last p = [] then complexWildcard # rev (butlast p) else rev p"
  have names: "split_on domainStep (entryName p) = ?names p" if p: "plain_path p" for p
  proof -
    have labels: "\<forall>l \<in> set p. domainStep \<notin> set l" "p \<noteq> []" using p by (auto simp: plain_path_def)
    show ?thesis
    proof (cases "last p = []")
      case True
      then have "butlast p \<noteq> []" using p by (cases p rule: rev_cases) (auto simp: plain_path_def)
      then have "entryName p = joinDomain (complexWildcard # rev (butlast p))"
        using entryName_plain [OF p] True by (simp add: join_with_Cons complexWildcard_def domainStep_def)
      moreover have "domainStep \<notin> set l" if "l \<in> set (complexWildcard # rev (butlast p))" for l
        using that labels(1) by (auto simp: complexWildcard_def domainStep_def dest: in_set_butlastD)
      ultimately show ?thesis using split_join [of "complexWildcard # rev (butlast p)" domainStep] True by simp
    next
      case False
      with entryName_plain [OF p] labels show ?thesis using split_join [of "rev p" domainStep] by simp
    qed
  qed
  have plus: "complexWildcard \<notin> set p" if "plain_path p" for p
    using that by (auto simp: plain_path_def plain_label_def complexWildcard_def complexWildcardByte_def)
  have eq: "?names p = ?names q" using names assms by metis
  have "last p = [] \<longleftrightarrow> last q = []"
    using eq plus [OF assms(1)] plus [OF assms(2)] by (metis list.set_intros(1) set_rev)
  with eq assms(1,2) show ?thesis
    by (metis append_butlast_last_id list.inject plain_path_def rev_rev_ident)
qed

lemma hits_root:
  "hits keys key (0, length keys, 0) \<longleftrightarrow> (\<exists>k \<in> set keys. k = key \<or>
     (\<exists>m. m < length key \<and> m < length k \<and> k ! m = complexWildcardByte \<and> take m k = take m key))"
  unfolding hits_def prod.case by (metis in_set_conv_nth le0)


text \<open>A reference for the package: count and select bit by bit.\<close>

definition bitmap_reference :: bitmap_pkg where
  "bitmap_reference = \<lparr>IndexSelect32R64 = (\<lambda>bm. ([], [])),
     Rank64 = (\<lambda>bm ranks i. (int (ones bm (nat i)), if bm_bit bm (nat i) then 1 else 0)),
     Select32R64 = (\<lambda>bm selects ranks i. (int (filter (bm_bit bm) [0..<64 * length bm] ! nat i), 0))\<rparr>"

lemma bitmap_reference_law: "bitmap_law bitmap_reference"
proof -
  have "filter (bm_bit bm) [0..<n] ! ones bm p = p" if "p < n" "bm_bit bm p" for bm p n
  proof -
    have "[0..<n] = [0..<p] @ p # [Suc p..<n]" using that(1) by (metis upt_conv_Cons upt_add_eq_append le0 le_add_diff_inverse less_imp_le)
    with that(2) show ?thesis by (simp add: ones_def nth_append)
  qed
  then show ?thesis unfolding bitmap_law_def bitmap_reference_def by simp
qed


text \<open>
  With \<open>*\<close> the two differ: the walk that has reached the end of the name at a node that is no leaf does not go
  back to the wildcards it passed.
\<close>

lemma DomainSet_misses_wildcard:
  "\<exists>ds. NewDomainSet bitmap_reference (insert_all [(''*'', 1 :: nat), (''x.a'', 2)] New) = Some ds \<and>
     MatchDomain bitmap_reference ds ''a'' = Some (Some False) \<and>
     Search (insert_all [(''*'', 1 :: nat), (''x.a'', 2)] New) ''a'' \<noteq> None"
proof -
  let ?t = "insert_all [(''*'', 1 :: nat), (''x.a'', 2)] New" and ?P = bitmap_reference
  have "(case NewDomainSet ?P ?t of None \<Rightarrow> False | Some ds \<Rightarrow> MatchDomain ?P ds ''a'' = Some (Some False))" by code_simp
  moreover have "Search ?t ''a'' \<noteq> None" by code_simp
  ultimately show ?thesis by (auto split: option.splits)
qed

end
