(* ===== verification/Group_Order.thy ===== *)
theory Group_Order
  imports Prelude "HOL-Library.AList" "HOL-Library.Multiset"
begin

text \<open>
  \<open>config/utils.go\<close>: the order in which the proxy groups of a configuration are built, and the
  check of the \<open>dialer-proxy\<close> references.

  A group is a mapping of the configuration, of a type \<open>'d\<close> whose \<open>nilmap\<close> is Go's nil map; the
  decoder that reads a group's options from it is an argument.  The Go map \<open>graph\<close> is an association
  list with distinct keys, and \<open>ord i\<close> gives the order in which the \<open>i\<close>-th \<open>range\<close> loop over it sees
  the keys.  A nil node that is dereferenced is the error \<open>NilNode\<close>.
\<close>

section \<open>The graph\<close>

record group_option =
  opt_Name :: string
  opt_Proxies :: "string list"

record 'd graphNode =
  indegree :: int
  topo :: int
  node_data :: 'd
  outdegree :: int
  node_option :: "group_option option"
  from_nodes :: "string list"

type_synonym 'd graph = "(string \<times> 'd graphNode) list"

datatype sort_error =
    GroupDecode string
  | DuplicateGroup string
  | LoopDetected "string list"
  | NilNode
  | GroupIndex

section \<open>Building the graph\<close>

definition count_child :: "'d \<Rightarrow> string \<Rightarrow> 'd graph \<Rightarrow> 'd graph" where
  "count_child nilmap proxy g =
     (case map_of g proxy of
        Some node \<Rightarrow> AList.update proxy (node\<lparr>indegree := indegree node + 1\<rparr>) g
      | None \<Rightarrow> AList.update proxy
          \<lparr>indegree = 1, topo = - 1, node_data = nilmap, outdegree = 0, node_option = None, from_nodes = []\<rparr> g)"

fun build_graph ::
  "'d \<Rightarrow> ('d \<Rightarrow> (string, group_option) result) \<Rightarrow> 'd list \<Rightarrow> 'd graph \<Rightarrow> (sort_error, 'd graph) result" where
  "build_graph nilmap decode [] g = Inr g"
| "build_graph nilmap decode (mapping # ms) g =
     (case decode mapping of
        Inl e \<Rightarrow> Inl (GroupDecode e)
      | Inr opt \<Rightarrow>
          (let groupName = opt_Name opt in
           case map_of g groupName of
             Some node \<Rightarrow>
               if node_data node \<noteq> nilmap then Inl (DuplicateGroup groupName)
               else build_graph nilmap decode ms (fold (count_child nilmap) (opt_Proxies opt)
                 (AList.update groupName (node\<lparr>node_data := mapping, node_option := Some opt\<rparr>) g))
           | None \<Rightarrow>
               build_graph nilmap decode ms (fold (count_child nilmap) (opt_Proxies opt)
                 (AList.update groupName
                   \<lparr>indegree = 0, topo = - 1, node_data = mapping, outdegree = 0, node_option = Some opt, from_nodes = []\<rparr> g))))"

section \<open>Removing nodes without predecessors\<close>

text \<open>
  Both phases lower the degree of a node's neighbours and queue those that reach zero: the first
  the \<open>indegree\<close> of the node's proxies, the second the \<open>outdegree\<close> of the groups it is \<open>from\<close>.
\<close>

fun lower_degrees ::
  "('n \<Rightarrow> int) \<Rightarrow> (int \<Rightarrow> 'n \<Rightarrow> 'n) \<Rightarrow> string list \<Rightarrow> string list \<Rightarrow> (string \<times> 'n) list \<Rightarrow>
   (sort_error, string list \<times> (string \<times> 'n) list) result" where
  "lower_degrees deg put [] queue g = Inr (queue, g)"
| "lower_degrees deg put (proxy # ps) queue g =
     (case map_of g proxy of
        None \<Rightarrow> Inl NilNode
      | Some child \<Rightarrow>
          (let child1 = put (deg child - 1) child in
           lower_degrees deg put ps (if deg child1 = 0 then queue @ [proxy] else queue) (AList.update proxy child1 g)))"

definition lower_indegrees :: "string list \<Rightarrow> string list \<Rightarrow> 'd graph \<Rightarrow> (sort_error, string list \<times> 'd graph) result" where
  "lower_indegrees = lower_degrees indegree (\<lambda>k n. n\<lparr>indegree := k\<rparr>)"

definition lower_outdegrees :: "string list \<Rightarrow> string list \<Rightarrow> 'd graph \<Rightarrow> (sort_error, string list \<times> 'd graph) result" where
  "lower_outdegrees = lower_degrees outdegree (\<lambda>k n. n\<lparr>outdegree := k\<rparr>)"

lemma length_update_present: "map_of g k = Some v \<Longrightarrow> length (AList.update k w g) = length g"
  by (induction g) (auto split: if_splits)

lemma length_delete_present: "map_of g k = Some v \<Longrightarrow> length (AList.delete k g) < length g"
  using length_filter_less [of "(k, v)" g "\<lambda>(k', _). k \<noteq> k'"] map_of_SomeD [of g k v]
  by (simp add: AList.delete_eq)

lemma lower_degrees_frame:
  "lower_degrees deg put ps queue g = Inr x \<Longrightarrow> length (snd x) = length g \<and> dom (map_of (snd x)) = dom (map_of g)"
proof (induction ps arbitrary: queue g)
  case (Cons p ps)
  then obtain c where c: "map_of g p = Some c" by (auto split: option.splits)
  with Cons.prems have "lower_degrees deg put ps (if deg (put (deg c - 1) c) = 0 then queue @ [p] else queue)
      (AList.update p (put (deg c - 1) c) g) = Inr x" by (simp only: lower_degrees.simps option.case Let_def)
  from Cons.IH [OF this] show ?case
    using length_update_present [OF c] c by (auto simp: update_conv' simp del: fun_upd_apply)
qed auto

lemma lower_degrees_shrink:
  assumes "lower_degrees deg put ps queue g = Inr x" "map_of g k = Some v"
  shows "length (AList.delete k (snd x)) < length g"
proof -
  from lower_degrees_frame [OF assms(1)] assms(2) obtain w
    where "map_of (snd x) k = Some w" "length (snd x) = length g" by (metis domD domI)
  then show ?thesis using length_delete_present by metis
qed

function topo_loop :: "string list \<Rightarrow> 'd graph \<Rightarrow> 'd list \<Rightarrow> nat \<Rightarrow> (sort_error, 'd graph \<times> 'd list) result" where
  "topo_loop [] g cfg index = Inr (g, cfg)"
| "topo_loop (name # queue) g cfg index =
     (case map_of g name of
        None \<Rightarrow> Inl NilNode
      | Some node \<Rightarrow>
          (case node_option node of
             None \<Rightarrow> topo_loop queue (AList.delete name g) cfg index
           | Some opt \<Rightarrow>
               if length cfg < index + 1 then Inl GroupIndex
               else if opt_Proxies opt = []
               then topo_loop queue (AList.delete name g) (cfg[length cfg - (index + 1) := node_data node]) (index + 1)
               else result_bind (lower_indegrees (opt_Proxies opt) queue g) (\<lambda>x.
                 topo_loop (fst x) (AList.delete name (snd x)) (cfg[length cfg - (index + 1) := node_data node]) (index + 1))))"
  by pat_completeness auto
termination
  by (relation "measure (\<lambda>(_, g, _, _). length g)")
    (auto simp: lower_indegrees_def intro: length_delete_present lower_degrees_shrink)

section \<open>Locating the loop\<close>

fun fill_children :: "string \<Rightarrow> string list \<Rightarrow> 'd graph \<Rightarrow> (sort_error, 'd graph) result" where
  "fill_children name [] g = Inr g"
| "fill_children name (proxy # ps) g =
     (case map_of g name of
        None \<Rightarrow> Inl NilNode
      | Some node \<Rightarrow>
          (let g1 = AList.update name (node\<lparr>outdegree := outdegree node + 1\<rparr>) g in
           case map_of g1 proxy of
             None \<Rightarrow> Inl NilNode
           | Some child \<Rightarrow>
               fill_children name ps (AList.update proxy (child\<lparr>from_nodes := from_nodes child @ [name]\<rparr>) g1)))"

fun rebuild :: "string list \<Rightarrow> 'd graph \<Rightarrow> (sort_error, 'd graph) result" where
  "rebuild [] g = Inr g"
| "rebuild (name # names) g =
     (case map_of g name of
        None \<Rightarrow> Inl NilNode
      | Some node \<Rightarrow>
          (case node_option node of
             None \<Rightarrow> rebuild names g
           | Some opt \<Rightarrow> result_bind (fill_children name (opt_Proxies opt) g) (rebuild names)))"

function prune_loop :: "string list \<Rightarrow> 'd graph \<Rightarrow> (sort_error, 'd graph) result" where
  "prune_loop [] g = Inr g"
| "prune_loop (name # queue) g =
     (case map_of g name of
        None \<Rightarrow> Inl NilNode
      | Some node \<Rightarrow>
          result_bind (lower_outdegrees (from_nodes node) queue g) (\<lambda>x.
            prune_loop (fst x) (AList.delete name (snd x))))"
  by pat_completeness auto
termination
  by (relation "measure (\<lambda>(_, g). length g)") (auto simp: lower_outdegrees_def intro: lower_degrees_shrink)

definition zero_nodes :: "('n \<Rightarrow> int) \<Rightarrow> string list \<Rightarrow> (string \<times> 'n) list \<Rightarrow> string list" where
  "zero_nodes deg names g = filter (\<lambda>n. case map_of g n of Some node \<Rightarrow> deg node = 0 | None \<Rightarrow> False) names"

definition proxyGroupsDagSort ::
  "(nat \<Rightarrow> string list \<Rightarrow> string list) \<Rightarrow> 'd \<Rightarrow> ('d \<Rightarrow> (string, group_option) result) \<Rightarrow> 'd list \<Rightarrow>
   (sort_error, 'd list) result" where
  "proxyGroupsDagSort ord nilmap decode groupsConfig =
     result_bind (build_graph nilmap decode groupsConfig []) (\<lambda>graph.
       result_bind (topo_loop (zero_nodes indegree (ord 0 (map fst graph)) graph) graph groupsConfig 0) (\<lambda>(graph1, res).
         if graph1 = [] then Inr res
         else result_bind (rebuild (ord 1 (map fst graph1)) graph1) (\<lambda>graph2.
           result_bind (prune_loop (zero_nodes outdegree (ord 2 (map fst graph2)) graph2) graph2) (\<lambda>graph3.
             Inl (LoopDetected (ord 3 (map fst graph3)))))))"

section \<open>Dialer proxies\<close>

datatype dialer_error = DialerNotFound string string | DialerCycle string

text \<open>\<open>validateDialerProxiesHasCycle\<close>: \<open>visited\<close> is shared by the calls, \<open>path\<close> belongs to each.\<close>

function validateDialerProxiesHasCycle ::
  "string \<Rightarrow> (string \<times> string) list \<Rightarrow> string list \<Rightarrow> string list \<Rightarrow> bool" where
  "validateDialerProxiesHasCycle current graph visited path =
     (if current \<in> set path then True
      else if current \<in> set visited then False
      else (case map_of graph current of
              Some dialerProxy \<Rightarrow> validateDialerProxiesHasCycle dialerProxy graph (current # visited) (path @ [current])
            | None \<Rightarrow> False))"
  by pat_completeness auto
termination
proof (relation "measure (\<lambda>(_, graph, visited, _). card (fst ` set graph - set visited))")
  fix current dialerProxy :: string and graph :: "(string \<times> string) list" and visited path :: "string list"
  assume "current \<notin> set visited" "map_of graph current = Some dialerProxy"
  then have "current \<in> fst ` set graph - set visited" by (force dest: map_of_SomeD)
  then have "card (fst ` set graph - set (current # visited)) < card (fst ` set graph - set visited)"
    by (intro psubset_card_mono) auto
  then show "((dialerProxy, graph, current # visited, path @ [current]), current, graph, visited, path)
      \<in> measure (\<lambda>(_, graph, visited, _). card (fst ` set graph - set visited))" by simp
qed simp

text \<open>The proxies by name, in the order the loop sees them, each with its \<open>dialer-proxy\<close> setting.\<close>

fun dialer_graph :: "(string \<times> string) list \<Rightarrow> (string \<times> string) list \<Rightarrow> (dialer_error, (string \<times> string) list) result" where
  "dialer_graph proxies [] = Inr []"
| "dialer_graph proxies ((name, dialerProxy) # rest) =
     (if dialerProxy = [] then dialer_graph proxies rest
      else if map_of proxies dialerProxy = None then Inl (DialerNotFound name dialerProxy)
      else result_bind (dialer_graph proxies rest) (\<lambda>graph. Inr ((name, dialerProxy) # graph)))"

fun first_cycle :: "string list \<Rightarrow> (string \<times> string) list \<Rightarrow> dialer_error option" where
  "first_cycle [] graph = None"
| "first_cycle (name # names) graph =
     (if validateDialerProxiesHasCycle name graph [] [] then Some (DialerCycle name) else first_cycle names graph)"

definition validateDialerProxies :: "(string list \<Rightarrow> string list) \<Rightarrow> (string \<times> string) list \<Rightarrow> dialer_error option" where
  "validateDialerProxies ord proxies =
     (case dialer_graph proxies proxies of
        Inl e \<Rightarrow> Some e
      | Inr graph \<Rightarrow> first_cycle (ord (map fst graph)) graph)"

section \<open>Peeling a graph\<close>

text \<open>
  What the two phases have in common.  A node carries a degree and its neighbours; lowering the
  neighbours' degrees and deleting the node keeps every degree equal to the number of edges that
  still point to the node.
\<close>

definition nb_of :: "('n \<Rightarrow> string list) \<Rightarrow> (string \<times> 'n) list \<Rightarrow> string \<Rightarrow> string list" where
  "nb_of nb g v = (case map_of g v of Some n \<Rightarrow> nb n | None \<Rightarrow> [])"

definition in_edges :: "(string \<Rightarrow> string list) \<Rightarrow> string set \<Rightarrow> string \<Rightarrow> int" where
  "in_edges nbs A v = (\<Sum>u\<in>A. int (count_list (nbs u) v))"

definition edges :: "(string \<Rightarrow> string list) \<Rightarrow> string set \<Rightarrow> (string \<times> string) set" where
  "edges nbs A = {(u, v). u \<in> A \<and> v \<in> set (nbs u)}"

lemma in_edges_nonneg: "0 \<le> in_edges nbs A v"
  by (simp add: in_edges_def sum_nonneg)

lemma in_edges_zero: "finite A \<Longrightarrow> in_edges nbs A v = 0 \<longleftrightarrow> (\<forall>u\<in>A. v \<notin> set (nbs u))"
  by (simp add: in_edges_def sum_nonneg_eq_0_iff count_list_0_iff)

lemma in_edges_remove:
  "finite A \<Longrightarrow> u \<in> A \<Longrightarrow> in_edges nbs (A - {u}) v = in_edges nbs A v - int (count_list (nbs u) v)"
  by (simp add: in_edges_def sum.remove [of A u])

locale peeling =
  fixes deg :: "'n \<Rightarrow> int" and put :: "int \<Rightarrow> 'n \<Rightarrow> 'n" and nb :: "'n \<Rightarrow> string list"
  assumes deg_put: "deg (put k n) = k"
    and put_deg: "put (deg n) n = n"
    and put_put: "put j (put k n) = put j n"
    and nb_put: "nb (put k n) = nb n"
begin

lemma lower_degrees_effect:
  "set ps \<subseteq> dom (map_of g) \<Longrightarrow> (\<And>v n. map_of g v = Some n \<Longrightarrow> int (count_list ps v) \<le> deg n) \<Longrightarrow>
   \<exists>new g'. lower_degrees deg put ps queue g = Inr (queue @ new, g') \<and> distinct new \<and>
     set new = {v \<in> set ps. deg (the (map_of g v)) = int (count_list ps v)} \<and>
     (\<forall>v. map_of g' v = map_option (\<lambda>n. put (deg n - int (count_list ps v)) n) (map_of g v)) \<and> map fst g' = map fst g"
proof (induction ps arbitrary: g queue)
  case Nil
  have "map_option (\<lambda>n. put (deg n) n) m = m" for m by (cases m) (simp_all add: put_deg)
  then show ?case by simp
next
  case (Cons p ps)
  from Cons.prems(1) obtain c where c: "map_of g p = Some c" by auto
  let ?c1 = "put (deg c - 1) c"
  let ?g1 = "AList.update p ?c1 g"
  let ?q1 = "if deg c - 1 = 0 then queue @ [p] else queue"
  have dom: "dom (map_of ?g1) = dom (map_of g)" using c by (auto simp: update_conv' simp del: fun_upd_apply)
  have keys: "map fst ?g1 = map fst g" using c by (simp add: update_keys) (metis domI dom_map_of_conv_image_fst)
  have low: "int (count_list ps v) \<le> deg n" if "map_of ?g1 v = Some n" for v n
    using that Cons.prems(2) [of v] c by (cases "v = p") (auto simp: update_conv' deg_put dest: Cons.prems(2))
  obtain new g' where IH: "lower_degrees deg put ps ?q1 ?g1 = Inr (?q1 @ new, g')" "distinct new"
    "set new = {v \<in> set ps. deg (the (map_of ?g1 v)) = int (count_list ps v)}"
    "\<And>v. map_of g' v = map_option (\<lambda>n. put (deg n - int (count_list ps v)) n) (map_of ?g1 v)" "map fst g' = map fst ?g1"
    using Cons.IH [of ?g1 ?q1, OF _ low] Cons.prems(1) dom by auto
  have last: "p \<notin> set ps" if "deg c - 1 = 0"
    using Cons.prems(2) [OF c] that by (simp add: count_list_0_iff [symmetric])
  let ?new = "if deg c - 1 = 0 then p # new else new"
  have "lower_degrees deg put (p # ps) queue g = Inr (queue @ ?new, g')"
    using IH(1) by (simp add: c deg_put)
  moreover have "distinct ?new" using IH(2,3) last by auto
  moreover have "set ?new = {v \<in> set (p # ps). deg (the (map_of g v)) = int (count_list (p # ps) v)}"
    using last c by (auto simp: IH(3) update_conv' deg_put count_list_0_iff)
  moreover have "map_of g' v = map_option (\<lambda>n. put (deg n - int (count_list (p # ps) v)) n) (map_of g v)" for v
    using c by (simp add: IH(4) update_conv' put_put deg_put algebra_simps)
  moreover have "map fst g' = map fst g" using IH(5) keys by simp
  ultimately show ?case by blast
qed

text \<open>
  The invariant of both loops: \<open>rs\<close> are the nodes deleted so far from \<open>g0\<close>, each after every node
  that points to it, and the queue holds the remaining nodes that no remaining node points to.
\<close>

definition peel_inv :: "(string \<times> 'n) list \<Rightarrow> string list \<Rightarrow> string list \<Rightarrow> (string \<times> 'n) list \<Rightarrow> bool" where
  "peel_inv g0 rs queue g \<longleftrightarrow>
     distinct (map fst g) \<and> distinct rs \<and> set rs \<inter> dom (map_of g) = {} \<and> set rs \<union> dom (map_of g) = dom (map_of g0) \<and>
     (\<forall>v n. map_of g v = Some n \<longrightarrow> (\<exists>n0. map_of g0 v = Some n0 \<and> put 0 n = put 0 n0) \<and>
        deg n = in_edges (nb_of nb g0) (dom (map_of g)) v) \<and>
     distinct queue \<and> set queue = {v \<in> dom (map_of g). in_edges (nb_of nb g0) (dom (map_of g)) v = 0} \<and>
     (\<forall>i < length rs. \<forall>u \<in> dom (map_of g0). rs ! i \<in> set (nb_of nb g0 u) \<longrightarrow> u \<in> set (take i rs))"

lemma peel_invD:
  assumes "peel_inv g0 rs queue g"
  shows "distinct (map fst g)" "distinct rs" "set rs \<inter> dom (map_of g) = {}" "set rs \<union> dom (map_of g) = dom (map_of g0)"
    "map_of g v = Some n \<Longrightarrow> \<exists>n0. map_of g0 v = Some n0 \<and> put 0 n = put 0 n0"
    "map_of g v = Some n \<Longrightarrow> deg n = in_edges (nb_of nb g0) (dom (map_of g)) v"
    "distinct queue" "set queue = {v \<in> dom (map_of g). in_edges (nb_of nb g0) (dom (map_of g)) v = 0}"
    "i < length rs \<Longrightarrow> u \<in> dom (map_of g0) \<Longrightarrow> rs ! i \<in> set (nb_of nb g0 u) \<Longrightarrow> u \<in> set (take i rs)"
  using assms unfolding peel_inv_def by blast+

lemma peel_nb:
  assumes "peel_inv g0 rs queue g" "map_of g v = Some n"
  shows "nb n = nb_of nb g0 v"
proof -
  from peel_invD(5) [OF assms] obtain n0 where "map_of g0 v = Some n0" "put 0 n = put 0 n0" by blast
  then show ?thesis using nb_put by (metis nb_of_def option.simps(5))
qed

lemma peel_closed:
  assumes "peel_inv g0 rs queue g" "\<forall>u \<in> dom (map_of g0). set (nb_of nb g0 u) \<subseteq> dom (map_of g0)"
    "u \<in> dom (map_of g)"
  shows "set (nb_of nb g0 u) \<subseteq> dom (map_of g)"
proof
  fix p assume p: "p \<in> set (nb_of nb g0 u)"
  have u: "u \<in> dom (map_of g0)" "u \<notin> set rs" using peel_invD(3,4) [OF assms(1)] assms(3) by blast+
  show "p \<in> dom (map_of g)"
  proof (rule ccontr)
    assume "p \<notin> dom (map_of g)"
    with assms(2) p u(1) have "p \<in> set rs" using peel_invD(4) [OF assms(1)] by blast
    then obtain i where "i < length rs" "rs ! i = p" by (metis in_set_conv_nth)
    with peel_invD(9) [OF assms(1), of i u] p u show False by (auto dest: in_set_takeD)
  qed
qed

lemma peel_step:
  assumes inv: "peel_inv g0 rs (name # queue) g"
    and closed: "\<forall>u \<in> dom (map_of g0). set (nb_of nb g0 u) \<subseteq> dom (map_of g0)"
  shows "\<exists>node queue' g'. map_of g name = Some node \<and> lower_degrees deg put (nb node) queue g = Inr (queue', g') \<and>
    peel_inv g0 (rs @ [name]) queue' (AList.delete name g')"
proof -
  note D = peel_invD [OF inv]
  let ?A = "dom (map_of g)" and ?nb = "nb_of nb g0"
  have fin: "finite ?A" by (rule finite_dom_map_of)
  have name: "name \<in> ?A" "in_edges ?nb ?A name = 0" using D(8) by auto
  then obtain node where node: "map_of g name = Some node" by blast
  have nb: "nb node = ?nb name" by (rule peel_nb [OF inv node])
  have count: "int (count_list (?nb name) v) \<le> in_edges ?nb ?A v" for v
    using in_edges_remove [OF fin name(1), of ?nb v] in_edges_nonneg [of ?nb "?A - {name}" v] by linarith
  obtain new g' where low: "lower_degrees deg put (nb node) queue g = Inr (queue @ new, g')" and dn: "distinct new"
    and new: "set new = {v \<in> set (nb node). deg (the (map_of g v)) = int (count_list (nb node) v)}"
    and g': "\<And>v. map_of g' v = map_option (\<lambda>n. put (deg n - int (count_list (nb node) v)) n) (map_of g v)"
    and keys: "map fst g' = map fst g"
    using lower_degrees_effect [of "nb node" g queue] peel_closed [OF inv closed name(1)] count D(6) nb by auto
  let ?g = "AList.delete name g'" and ?A' = "?A - {name}"
  have dom': "dom (map_of ?g) = ?A'" using g' by (auto simp: delete_conv' dom_def split: if_splits)
  note rem = in_edges_remove [OF fin name(1), of ?nb]
  have selfless: "count_list (?nb name) name = 0" using count [of name] name(2) by simp
  have new': "set new = {v \<in> ?A'. in_edges ?nb ?A' v = 0 \<and> 0 < in_edges ?nb ?A v}"
  proof -
    have mem: "v \<in> set (?nb name) \<longleftrightarrow> 0 < count_list (?nb name) v" for v
      using count_list_0_iff [of "?nb name" v] by auto
    have deg: "v \<in> ?A \<Longrightarrow> deg (the (map_of g v)) = in_edges ?nb ?A v" for v using D(6) by auto
    have "v \<in> set new \<longleftrightarrow> v \<in> ?A' \<and> in_edges ?nb ?A' v = 0 \<and> 0 < in_edges ?nb ?A v" for v
    proof (cases "v \<in> ?A")
      case True
      show ?thesis unfolding new nb rem mem_Collect_eq deg [OF True] mem using True selfless by auto
    next
      case False
      then show ?thesis using peel_closed [OF inv closed name(1)] by (auto simp: new nb)
    qed
    then show ?thesis by blast
  qed
  have old: "set queue = {v \<in> ?A'. in_edges ?nb ?A v = 0}" using D(7,8) by auto
  have zero: "in_edges ?nb ?A v = 0 \<Longrightarrow> in_edges ?nb ?A' v = 0" "in_edges ?nb ?A v = 0 \<or> 0 < in_edges ?nb ?A v" for v
    using rem [of v] in_edges_nonneg [of ?nb ?A' v] in_edges_nonneg [of ?nb ?A v] by linarith+
  have "v \<in> set (queue @ new) \<longleftrightarrow> v \<in> ?A' \<and> in_edges ?nb ?A' v = 0" for v
    unfolding set_append old new' Un_iff mem_Collect_eq using zero [of v] by argo
  then have queue': "set (queue @ new) = {v \<in> ?A'. in_edges ?nb ?A' v = 0}" by blast
  have "v \<notin> set queue \<or> v \<notin> set new" for v unfolding old new' by auto
  then have dq: "distinct (queue @ new)" using D(7) dn by auto
  have nodes: "(\<exists>n0. map_of g0 v = Some n0 \<and> put 0 n = put 0 n0) \<and> deg n = in_edges ?nb ?A' v"
    if "map_of ?g v = Some n" for v n
  proof -
    from that g' obtain m where m: "map_of g v = Some m" "n = put (deg m - int (count_list (nb node) v)) m"
      by (auto simp: delete_conv' split: if_splits)
    then show ?thesis using D(5,6) [OF m(1)] by (simp add: put_put deg_put nb rem)
  qed
  have order: "u \<in> set (take i (rs @ [name]))"
    if "i < length (rs @ [name])" "u \<in> dom (map_of g0)" "(rs @ [name]) ! i \<in> set (?nb u)" for i u
  proof (cases "i < length rs")
    case False
    with that(1) have i: "i = length rs" by simp
    with that(3) have "name \<in> set (?nb u)" by simp
    then have "u \<notin> ?A" using in_edges_zero [OF fin, of ?nb name] name(2) by auto
    then have "u \<in> set rs" using D(4) that(2) by blast
    then show ?thesis using i by simp
  qed (use that D(9) in \<open>auto simp: nth_append\<close>)
  have "peel_inv g0 (rs @ [name]) (queue @ new) ?g"
    unfolding peel_inv_def dom'
  proof (intro conjI)
    show "distinct (map fst ?g)" using D(1) keys by (simp add: distinct_delete)
    show "distinct (rs @ [name])" using D(2,3) name(1) by auto
    show "set (rs @ [name]) \<inter> ?A' = {}" using D(3) by auto
    show "set (rs @ [name]) \<union> ?A' = dom (map_of g0)" using D(4) name(1) by auto
    show "\<forall>v n. map_of ?g v = Some n \<longrightarrow> (\<exists>n0. map_of g0 v = Some n0 \<and> put 0 n = put 0 n0) \<and> deg n = in_edges ?nb ?A' v"
      using nodes by blast
    show "\<forall>i < length (rs @ [name]). \<forall>u \<in> dom (map_of g0). (rs @ [name]) ! i \<in> set (?nb u) \<longrightarrow> u \<in> set (take i (rs @ [name]))"
      using order by blast
  qed (fact dq queue')+
  with node low show ?thesis by blast
qed

text \<open>A graph whose degrees count its edges starts the loop.\<close>

lemma peel_init:
  assumes "distinct (map fst g)" "mset names = mset (map fst g)"
    and deg: "\<And>v n. map_of g v = Some n \<Longrightarrow> deg n = in_edges (nb_of nb g) (dom (map_of g)) v"
  shows "peel_inv g [] (zero_nodes deg names g) g"
proof -
  have "set names = dom (map_of g)" "distinct names"
    using assms(1,2) by (metis dom_map_of_conv_image_fst set_map set_mset_mset, metis mset_eq_imp_distinct_iff)
  then show ?thesis
    using assms(1) deg by (auto simp: peel_inv_def zero_nodes_def split: option.splits)
qed

lemma peel_rank:
  assumes "peel_inv g0 rs queue g" "(u, v) \<in> (edges (nb_of nb g0) (dom (map_of g0)))\<^sup>+"
  shows "i < length rs \<Longrightarrow> rs ! i = v \<Longrightarrow> \<exists>j < i. rs ! j = u"
  using assms(2)
proof (induction arbitrary: i rule: trancl_induct)
  case (base v)
  then have "u \<in> set (take i rs)" using peel_invD(9) [OF assms(1), of i u] by (auto simp: edges_def)
  then show ?case using base.prems(1) by (auto simp: in_set_conv_nth)
next
  case (step y v)
  then have "y \<in> set (take i rs)" using peel_invD(9) [OF assms(1), of i y] by (auto simp: edges_def)
  then obtain k where "k < i" "rs ! k = y" using step.prems(1) by (auto simp: in_set_conv_nth)
  with step.IH [of k] step.prems(1) show ?case by (meson less_trans)
qed

lemma cycle_remains:
  assumes "peel_inv g0 rs queue g" "(v, v) \<in> (edges (nb_of nb g0) (dom (map_of g0)))\<^sup>+"
  shows "v \<in> dom (map_of g)"
proof (rule ccontr)
  assume out: "v \<notin> dom (map_of g)"
  have "v \<in> dom (map_of g0)" using assms(2) by (auto elim: converse_tranclE simp: edges_def)
  with out have "v \<in> set rs" using peel_invD(4) [OF assms(1)] by blast
  then obtain i where "i < length rs" "rs ! i = v" by (metis in_set_conv_nth)
  moreover from this peel_rank [OF assms] obtain j where "j < i" "rs ! j = v" by blast
  ultimately show False using peel_invD(2) [OF assms(1)] by (metis nth_eq_iff_index_eq less_trans less_irrefl)
qed

lemma remains_pred:
  assumes "peel_inv g0 rs [] g" "v \<in> dom (map_of g)"
  shows "\<exists>u \<in> dom (map_of g). v \<in> set (nb_of nb g0 u)"
  using assms peel_invD(8) [OF assms(1)] in_edges_zero [OF finite_dom_map_of, of "nb_of nb g0" g v] by auto

lemma remains_cyclic:
  assumes "peel_inv g0 rs [] g" "dom (map_of g) \<noteq> {}"
  shows "\<not> acyclic (edges (nb_of nb g0) (dom (map_of g0)))"
proof
  let ?R = "edges (nb_of nb g0) (dom (map_of g0))"
  assume "acyclic ?R"
  moreover have "?R = (SIGMA u : dom (map_of g0). set (nb_of nb g0 u))" by (auto simp: edges_def)
  then have "finite ?R" by (simp add: finite_dom_map_of)
  ultimately have "wf ?R" by (rule finite_acyclic_wf [rotated])
  with assms(2) obtain v where "v \<in> dom (map_of g)" "\<And>u. (u, v) \<in> ?R \<Longrightarrow> u \<notin> dom (map_of g)"
    by (metis wfE_min ex_in_conv)
  with remains_pred [OF assms(1)] peel_invD(4) [OF assms(1)] show False by (fastforce simp: edges_def)
qed

end

definition node_nb :: "'d graphNode \<Rightarrow> string list" where
  "node_nb n = (case node_option n of Some opt \<Rightarrow> opt_Proxies opt | None \<Rightarrow> [])"

interpretation forward: peeling indegree "\<lambda>k n. n\<lparr>indegree := k\<rparr>" node_nb
  by unfold_locales (auto simp: node_nb_def)

interpretation backward: peeling outdegree "\<lambda>k n. n\<lparr>outdegree := k\<rparr>" from_nodes
  by unfold_locales auto

section \<open>The two loops\<close>

definition group_data :: "'d graph \<Rightarrow> string list \<Rightarrow> 'd list" where
  "group_data g rs =
     map (\<lambda>v. node_data (the (map_of g v))) (filter (\<lambda>v. node_option (the (map_of g v)) \<noteq> None) rs)"

definition group_count :: "'d graph \<Rightarrow> nat" where
  "group_count g = card {v \<in> dom (map_of g). node_option (the (map_of g v)) \<noteq> None}"

lemma group_data_length:
  assumes "distinct rs" "set rs \<subseteq> dom (map_of g)"
  shows "length (group_data g rs) \<le> group_count g"
proof -
  let ?P = "\<lambda>v. node_option (the (map_of g v)) \<noteq> None"
  have "length (group_data g rs) = card (set (filter ?P rs))"
    using assms(1) by (simp add: group_data_def distinct_card [symmetric])
  also have "\<dots> \<le> group_count g"
    unfolding group_count_def using assms(2) by (intro card_mono) (auto intro: finite_subset [OF _ finite_dom_map_of [of g]])
  finally show ?thesis .
qed

lemma drop_write_before:
  assumes "drop (length xs - k) xs = ys" "k < length xs"
  shows "drop (length xs - (k + 1)) (xs[length xs - (k + 1) := x]) = x # ys"
proof -
  have "Suc (length xs - (k + 1)) = length xs - k" using assms(2) by linarith
  moreover have "length xs - (k + 1) < length xs" using assms(2) by linarith
  ultimately show ?thesis using assms(1) by (simp add: Cons_nth_drop_Suc [symmetric])
qed

lemma topo_loop_peels:
  assumes closed: "\<forall>u \<in> dom (map_of g0). set (nb_of node_nb g0 u) \<subseteq> dom (map_of g0)"
  shows "forward.peel_inv g0 rs queue g \<Longrightarrow> index = length (group_data g0 rs) \<Longrightarrow> length cfg = group_count g0 \<Longrightarrow>
    drop (length cfg - index) cfg = rev (group_data g0 rs) \<Longrightarrow>
    \<exists>rs' g' cfg'. topo_loop queue g cfg index = Inr (g', cfg') \<and> forward.peel_inv g0 rs' [] g' \<and> length cfg' = length cfg \<and>
      drop (length cfg - length (group_data g0 rs')) cfg' = rev (group_data g0 rs')"
proof (induction queue g cfg index arbitrary: rs rule: topo_loop.induct)
  case (2 name queue g cfg index)
  obtain node queue' g' where node: "map_of g name = Some node"
    and low: "lower_indegrees (node_nb node) queue g = Inr (queue', g')"
    and inv: "forward.peel_inv g0 (rs @ [name]) queue' (AList.delete name g')"
    using forward.peel_step [OF 2(4) closed] unfolding lower_indegrees_def by blast
  obtain n0 where n0: "map_of g0 name = Some n0" "node\<lparr>indegree := 0\<rparr> = n0\<lparr>indegree := 0\<rparr>"
    using forward.peel_invD(5) [OF 2(4) node] by blast
  have same: "node_option n0 = node_option node" "node_data n0 = node_data node"
    using arg_cong [OF n0(2), of node_option] arg_cong [OF n0(2), of node_data] by simp_all
  show ?case
  proof (cases "node_option node")
    case None
    then have "group_data g0 (rs @ [name]) = group_data g0 rs" using n0(1) same by (simp add: group_data_def)
    moreover have "queue' = queue" "g' = g" using low None by (auto simp: node_nb_def lower_indegrees_def)
    ultimately show ?thesis using 2(1) [OF node None, of "rs @ [name]"] 2(5-7) inv None node by simp
  next
    case (Some opt)
    have gd: "group_data g0 (rs @ [name]) = group_data g0 rs @ [node_data node]"
      using n0(1) same Some by (simp add: group_data_def)
    have "length (group_data g0 (rs @ [name])) \<le> group_count g0"
      using forward.peel_invD(2,4) [OF inv] by (intro group_data_length) auto
    then have bound: "index < length cfg" using gd 2(5,6) by simp
    let ?cfg = "cfg[length cfg - (index + 1) := node_data node]"
    have pre: "index + 1 = length (group_data g0 (rs @ [name]))" "length ?cfg = group_count g0"
      "drop (length ?cfg - (index + 1)) ?cfg = rev (group_data g0 (rs @ [name]))"
      using gd 2(5,6) drop_write_before [OF 2(7) bound] by simp_all
    have "topo_loop (name # queue) g cfg index = topo_loop queue' (AList.delete name g') ?cfg (index + 1)"
      using node Some bound low by (auto simp: node_nb_def lower_indegrees_def)
    moreover have "\<exists>rs' g'' cfg'. topo_loop queue' (AList.delete name g') ?cfg (index + 1) = Inr (g'', cfg') \<and>
      forward.peel_inv g0 rs' [] g'' \<and> length cfg' = length ?cfg \<and>
      drop (length ?cfg - length (group_data g0 rs')) cfg' = rev (group_data g0 rs')"
    proof (cases "opt_Proxies opt = []")
      case True
      then have "queue' = queue" "g' = g" using low Some by (auto simp: node_nb_def lower_indegrees_def)
      then show ?thesis using 2(2) [OF node Some _ True inv [unfolded \<open>queue' = queue\<close> \<open>g' = g\<close>] pre] bound by simp
    next
      case False
      have "lower_indegrees (opt_Proxies opt) queue g = Inr (queue', g')" using low Some by (simp add: node_nb_def)
      from 2(3) [OF node Some _ False this, of "rs @ [name]"] inv pre bound show ?thesis by simp
    qed
    ultimately show ?thesis by simp
  qed
qed auto

lemma prune_loop_peels:
  assumes closed: "\<forall>u \<in> dom (map_of g0). set (nb_of from_nodes g0 u) \<subseteq> dom (map_of g0)"
  shows "backward.peel_inv g0 rs queue g \<Longrightarrow> \<exists>rs' g'. prune_loop queue g = Inr g' \<and> backward.peel_inv g0 rs' [] g'"
proof (induction queue g arbitrary: rs rule: prune_loop.induct)
  case (2 name queue g)
  obtain node queue' g' where node: "map_of g name = Some node"
    and low: "lower_outdegrees (from_nodes node) queue g = Inr (queue', g')"
    and inv: "backward.peel_inv g0 (rs @ [name]) queue' (AList.delete name g')"
    using backward.peel_step [OF 2(2) closed] unfolding lower_outdegrees_def by blast
  from 2(1) [OF node low, of "rs @ [name]"] inv node low show ?case by simp
qed auto

section \<open>Reversing the edges\<close>

text \<open>\<open>filled out inn g h\<close>: \<open>h\<close> is \<open>g\<close> with the outdegrees raised by \<open>out\<close> and the sources \<open>inn\<close> added.\<close>

definition filled :: "(string \<Rightarrow> int) \<Rightarrow> (string \<Rightarrow> string \<Rightarrow> nat) \<Rightarrow> 'd graph \<Rightarrow> 'd graph \<Rightarrow> bool" where
  "filled out inn g h \<longleftrightarrow> map fst h = map fst g \<and>
     (\<forall>v n'. map_of h v = Some n' \<longrightarrow> (\<exists>n. map_of g v = Some n \<and> node_option n' = node_option n \<and>
        outdegree n' = outdegree n + out v \<and>
        (\<forall>u. count_list (from_nodes n') u = count_list (from_nodes n) u + inn v u)))"

lemma filled_refl: "filled (\<lambda>_. 0) (\<lambda>_ _. 0) g g"
  by (simp add: filled_def)

lemma filled_trans:
  assumes "filled o1 i1 g h" "filled o2 i2 h k"
  shows "filled (\<lambda>v. o1 v + o2 v) (\<lambda>v u. i1 v u + i2 v u) g k"
  unfolding filled_def
proof (intro conjI allI impI)
  show "map fst k = map fst g" using assms by (simp add: filled_def)
  fix v n' assume "map_of k v = Some n'"
  with assms(2) obtain m where m: "map_of h v = Some m" "node_option n' = node_option m" "outdegree n' = outdegree m + o2 v"
    "\<And>u. count_list (from_nodes n') u = count_list (from_nodes m) u + i2 v u" unfolding filled_def by blast
  with assms(1) obtain n where "map_of g v = Some n" "node_option m = node_option n" "outdegree m = outdegree n + o1 v"
    "\<And>u. count_list (from_nodes m) u = count_list (from_nodes n) u + i1 v u" unfolding filled_def by blast
  with m show "\<exists>n. map_of g v = Some n \<and> node_option n' = node_option n \<and> outdegree n' = outdegree n + (o1 v + o2 v) \<and>
      (\<forall>u. count_list (from_nodes n') u = count_list (from_nodes n) u + (i1 v u + i2 v u))" by (intro exI [of _ n]) simp
qed

lemma filled_cong: "filled o1 i1 g h \<Longrightarrow> (\<And>v. o1 v = o2 v) \<Longrightarrow> (\<And>v u. i1 v u = i2 v u) \<Longrightarrow> filled o2 i2 g h"
  unfolding filled_def by simp

lemma filled_dom: "filled out inn g h \<Longrightarrow> dom (map_of h) = dom (map_of g)"
  by (simp add: filled_def dom_map_of_conv_image_fst) (metis list.set_map)

lemma filled_nb:
  assumes "filled out inn g h"
  shows "nb_of node_nb h v = nb_of node_nb g v"
proof (cases "map_of h v")
  case None
  then have "map_of g v = None" using filled_dom [OF assms] by (metis domIff)
  with None show ?thesis by (simp add: nb_of_def)
next
  case (Some n')
  with assms obtain n where "map_of g v = Some n" "node_option n' = node_option n" unfolding filled_def by blast
  with Some show ?thesis by (simp add: nb_of_def node_nb_def)
qed

lemma update_keys_present: "k \<in> dom (map_of g) \<Longrightarrow> map fst (AList.update k v g) = map fst g"
  by (simp add: update_keys dom_map_of_conv_image_fst)

lemma fill_children_effect:
  "name \<in> dom (map_of g) \<Longrightarrow> set ps \<subseteq> dom (map_of g) \<Longrightarrow>
   \<exists>g'. fill_children name ps g = Inr g' \<and>
     filled (\<lambda>v. if v = name then int (length ps) else 0) (\<lambda>v u. if u = name then count_list ps v else 0) g g'"
proof (induction ps arbitrary: g)
  case (Cons p ps)
  from Cons.prems(1) obtain node where node: "map_of g name = Some node" by blast
  let ?g1 = "AList.update name (node\<lparr>outdegree := outdegree node + 1\<rparr>) g"
  have "p \<in> dom (map_of g)" using Cons.prems(2) by simp
  then obtain child where child: "map_of ?g1 p = Some child" by (cases "p = name") (auto simp: update_conv')
  let ?g2 = "AList.update p (child\<lparr>from_nodes := from_nodes child @ [name]\<rparr>) ?g1"
  have one: "filled (\<lambda>v. if v = name then 1 else 0) (\<lambda>v u. if u = name \<and> v = p then 1 else 0) g ?g2"
    unfolding filled_def using node child
    by (auto simp: update_keys_present update_conv' domI split: if_splits)
  have "name \<in> dom (map_of ?g2)" "set ps \<subseteq> dom (map_of ?g2)" using Cons.prems filled_dom [OF one] by simp_all
  from Cons.IH [OF this] obtain g' where g': "fill_children name ps ?g2 = Inr g'"
    "filled (\<lambda>v. if v = name then int (length ps) else 0) (\<lambda>v u. if u = name then count_list ps v else 0) ?g2 g'" by blast
  have "filled (\<lambda>v. if v = name then int (length (p # ps)) else 0) (\<lambda>v u. if u = name then count_list (p # ps) v else 0) g g'"
    by (rule filled_cong [OF filled_trans [OF one g'(2)]]) auto
  then show ?case using g'(1) node child by (simp add: Let_def)
qed (auto intro: filled_refl [THEN filled_cong])

lemma rebuild_effect:
  "set names \<subseteq> dom (map_of g) \<Longrightarrow> distinct names \<Longrightarrow> \<forall>u \<in> dom (map_of g). set (nb_of node_nb g u) \<subseteq> dom (map_of g) \<Longrightarrow>
   \<exists>h. rebuild names g = Inr h \<and>
     filled (\<lambda>v. if v \<in> set names then int (length (nb_of node_nb g v)) else 0)
       (\<lambda>v u. if u \<in> set names then count_list (nb_of node_nb g u) v else 0) g h"
proof (induction names arbitrary: g)
  case (Cons name names)
  from Cons.prems(1) obtain node where node: "map_of g name = Some node" by auto
  then have nb: "nb_of node_nb g name = node_nb node" by (simp add: nb_of_def)
  have name: "name \<in> dom (map_of g)" using node by blast
  have sub: "set (node_nb node) \<subseteq> dom (map_of g)" using Cons.prems(3) name unfolding nb [symmetric] by blast
  obtain g1 where g1: "fill_children name (node_nb node) g = Inr g1"
    "filled (\<lambda>v. if v = name then int (length (node_nb node)) else 0) (\<lambda>v u. if u = name then count_list (node_nb node) v else 0) g g1"
    using fill_children_effect [OF name sub] by blast
  have step: "rebuild (name # names) g = rebuild names g1"
    using g1(1) node by (cases "node_option node") (auto simp: node_nb_def)
  obtain h where h: "rebuild names g1 = Inr h"
    "filled (\<lambda>v. if v \<in> set names then int (length (nb_of node_nb g1 v)) else 0)
       (\<lambda>v u. if u \<in> set names then count_list (nb_of node_nb g1 u) v else 0) g1 h"
    using Cons.IH [of g1] Cons.prems filled_dom [OF g1(2)] filled_nb [OF g1(2)] by auto
  have "filled (\<lambda>v. if v \<in> set (name # names) then int (length (nb_of node_nb g v)) else 0)
      (\<lambda>v u. if u \<in> set (name # names) then count_list (nb_of node_nb g u) v else 0) g h"
    by (rule filled_cong [OF filled_trans [OF g1(2) h(2)]]) (use Cons.prems(2) nb filled_nb [OF g1(2)] in auto)
  with step h(1) show ?case by auto
qed (auto intro: filled_refl [THEN filled_cong])

text \<open>The rebuilt graph can be peeled from its sinks.\<close>

lemma rebuild_backward:
  assumes "mset names = mset (map fst g)" "distinct (map fst g)"
    and closed: "\<forall>u \<in> dom (map_of g). set (nb_of node_nb g u) \<subseteq> dom (map_of g)"
    and fresh: "\<forall>v n. map_of g v = Some n \<longrightarrow> outdegree n = 0 \<and> from_nodes n = []"
  shows "\<exists>h. rebuild names g = Inr h \<and> map fst h = map fst g \<and>
    (\<forall>u v. v \<in> dom (map_of g) \<longrightarrow> (u \<in> set (nb_of from_nodes h v) \<longleftrightarrow> u \<in> dom (map_of g) \<and> v \<in> set (nb_of node_nb g u))) \<and>
    (\<forall>v n. map_of h v = Some n \<longrightarrow> outdegree n = in_edges (nb_of from_nodes h) (dom (map_of h)) v)"
proof -
  let ?A = "dom (map_of g)"
  have names: "set names = ?A" "distinct names"
    using assms(1,2) by (metis dom_map_of_conv_image_fst set_map set_mset_mset, metis mset_eq_imp_distinct_iff)
  then obtain h where h: "rebuild names g = Inr h"
    "filled (\<lambda>v. if v \<in> ?A then int (length (nb_of node_nb g v)) else 0)
       (\<lambda>v u. if u \<in> ?A then count_list (nb_of node_nb g u) v else 0) g h"
    using rebuild_effect [of names g] closed by auto
  have count: "count_list (nb_of from_nodes h v) u = (if u \<in> ?A then count_list (nb_of node_nb g u) v else 0)"
    if "v \<in> ?A" for u v
  proof -
    from that filled_dom [OF h(2)] obtain n' where n': "map_of h v = Some n'" by (metis domD)
    with h(2) obtain n where "map_of g v = Some n"
      "count_list (from_nodes n') u = count_list (from_nodes n) u + (if u \<in> ?A then count_list (nb_of node_nb g u) v else 0)"
      unfolding filled_def by blast
    with n' fresh show ?thesis by (simp add: nb_of_def)
  qed
  have "outdegree n' = in_edges (nb_of from_nodes h) (dom (map_of h)) v" if n': "map_of h v = Some n'" for v n'
  proof -
    from h(2) n' obtain n where n: "map_of g v = Some n" "outdegree n' = outdegree n + (if v \<in> ?A then int (length (nb_of node_nb g v)) else 0)"
      unfolding filled_def by blast
    then have v: "v \<in> ?A" by blast
    have "in_edges (nb_of from_nodes h) ?A v = int (\<Sum>u\<in>?A. count_list (nb_of node_nb g v) u)"
      unfolding in_edges_def of_nat_sum by (rule sum.cong) (use count v in auto)
    also have "(\<Sum>u\<in>?A. count_list (nb_of node_nb g v) u) = length (nb_of node_nb g v)"
      using closed v by (intro sum_count_set finite_dom_map_of) blast
    finally show ?thesis using n fresh v filled_dom [OF h(2)] by simp
  qed
  moreover have "u \<in> set (nb_of from_nodes h v) \<longleftrightarrow> u \<in> ?A \<and> v \<in> set (nb_of node_nb g u)" if "v \<in> ?A" for u v
    using count [OF that, of u] by (auto simp: count_list_0_iff split: if_splits) (metis count_list_0_iff)+
  ultimately show ?thesis using h(1) h(2) unfolding filled_def by blast
qed

section \<open>The graph of a configuration\<close>

text \<open>
  \<open>built nilmap pre g\<close>: \<open>g\<close> is the graph of the groups \<open>pre\<close>, each a mapping with its options.  An
  absent node reads as a blank one.
\<close>

definition get_node :: "'d \<Rightarrow> 'd graph \<Rightarrow> string \<Rightarrow> 'd graphNode" where
  "get_node nilmap g v = (case map_of g v of Some n \<Rightarrow> n | None \<Rightarrow>
     \<lparr>indegree = 0, topo = - 1, node_data = nilmap, outdegree = 0, node_option = None, from_nodes = []\<rparr>)"

definition group_of :: "('d \<times> group_option) list \<Rightarrow> string \<Rightarrow> ('d \<times> group_option) option" where
  "group_of pre v = map_of (map (\<lambda>x. (opt_Name (snd x), x)) pre) v"

definition spec_node :: "'d \<Rightarrow> ('d \<times> group_option) list \<Rightarrow> string \<Rightarrow> 'd graphNode" where
  "spec_node nilmap pre v =
     \<lparr>indegree = (\<Sum>x\<leftarrow>pre. int (count_list (opt_Proxies (snd x)) v)), topo = - 1,
       node_data = (case group_of pre v of Some x \<Rightarrow> fst x | None \<Rightarrow> nilmap), outdegree = 0,
       node_option = map_option snd (group_of pre v), from_nodes = []\<rparr>"

definition built :: "'d \<Rightarrow> ('d \<times> group_option) list \<Rightarrow> 'd graph \<Rightarrow> bool" where
  "built nilmap pre g \<longleftrightarrow> distinct (map fst g) \<and> distinct (map (opt_Name \<circ> snd) pre) \<and>
     dom (map_of g) = (\<Union>x\<in>set pre. insert (opt_Name (snd x)) (set (opt_Proxies (snd x)))) \<and>
     (\<forall>v. get_node nilmap g v = spec_node nilmap pre v)"

lemma get_update: "get_node nilmap (AList.update k n g) v = (if v = k then n else get_node nilmap g v)"
  by (simp add: get_node_def update_conv')

lemma count_child_effect:
  "get_node nilmap (count_child nilmap p g) v =
     (get_node nilmap g v)\<lparr>indegree := indegree (get_node nilmap g v) + (if v = p then 1 else 0)\<rparr>"
  "dom (map_of (count_child nilmap p g)) = insert p (dom (map_of g))"
  "distinct (map fst g) \<Longrightarrow> distinct (map fst (count_child nilmap p g))"
  by (auto simp: count_child_def get_update update_conv' distinct_update get_node_def split: option.splits)

lemma count_children_effect:
  "get_node nilmap (fold (count_child nilmap) ps g) v =
     (get_node nilmap g v)\<lparr>indegree := indegree (get_node nilmap g v) + int (count_list ps v)\<rparr>"
  "dom (map_of (fold (count_child nilmap) ps g)) = set ps \<union> dom (map_of g)"
  "distinct (map fst g) \<Longrightarrow> distinct (map fst (fold (count_child nilmap) ps g))"
  by (induction ps arbitrary: g) (simp_all add: count_child_effect)

lemma group_of_None: "group_of pre v = None \<longleftrightarrow> v \<notin> opt_Name ` snd ` set pre"
  by (force simp: group_of_def map_of_eq_None_iff image_image)

lemma group_of_snoc:
  assumes "opt_Name (snd x) \<notin> opt_Name ` snd ` set pre"
  shows "group_of (pre @ [x]) v = (if v = opt_Name (snd x) then Some x else group_of pre v)"
proof -
  have "group_of (pre @ [x]) v =
      (case group_of pre v of Some y \<Rightarrow> Some y | None \<Rightarrow> if v = opt_Name (snd x) then Some x else None)"
    by (simp add: group_of_def map_add_def split: option.split)
  moreover have "group_of pre (opt_Name (snd x)) = None" using assms by (simp only: group_of_None not_False_eq_True)
  ultimately show ?thesis by (auto split: option.split)
qed

lemma group_of_Some: "group_of pre v = Some x \<Longrightarrow> x \<in> set pre \<and> opt_Name (snd x) = v"
  by (auto simp: group_of_def dest: map_of_SomeD)

lemma built_add:
  assumes "built nilmap pre g" "opt_Name opt \<notin> opt_Name ` snd ` set pre"
    and n: "n = (get_node nilmap g (opt_Name opt))\<lparr>node_data := m, node_option := Some opt\<rparr>"
  shows "built nilmap (pre @ [(m, opt)]) (fold (count_child nilmap) (opt_Proxies opt) (AList.update (opt_Name opt) n g))"
proof -
  have "get_node nilmap (fold (count_child nilmap) (opt_Proxies opt) (AList.update (opt_Name opt) n g)) v =
      spec_node nilmap (pre @ [(m, opt)]) v" for v
    using assms by (simp add: count_children_effect get_update built_def spec_node_def group_of_snoc)
  moreover have "distinct (map fst (AList.update (opt_Name opt) n g))"
    using assms(1) by (intro distinct_update) (simp add: built_def)
  ultimately show ?thesis
    using assms(1,2) by (auto simp: built_def count_children_effect(2,3) update_conv' image_comp)
qed

lemma build_graph_step:
  assumes "built nilmap pre g" "nilmap \<notin> fst ` set pre" "decode m = Inr opt"
  shows "build_graph nilmap decode (m # ms) g =
    (if opt_Name opt \<in> opt_Name ` snd ` set pre then Inl (DuplicateGroup (opt_Name opt))
     else build_graph nilmap decode ms (fold (count_child nilmap) (opt_Proxies opt)
       (AList.update (opt_Name opt) ((get_node nilmap g (opt_Name opt))\<lparr>node_data := m, node_option := Some opt\<rparr>) g)))"
proof -
  have get: "get_node nilmap g (opt_Name opt) = spec_node nilmap pre (opt_Name opt)" using assms(1) by (simp add: built_def)
  show ?thesis
  proof (cases "group_of pre (opt_Name opt)")
    case None
    then have "node_data (get_node nilmap g (opt_Name opt)) = nilmap" using get by (simp add: spec_node_def)
    moreover have "opt_Name opt \<notin> opt_Name ` snd ` set pre" using None by (simp only: group_of_None not_False_eq_True)
    ultimately show ?thesis using assms(3) by (auto simp: Let_def get_node_def split: option.splits)
  next
    case (Some x)
    then have x: "x \<in> set pre" "opt_Name (snd x) = opt_Name opt" using group_of_Some by blast+
    then have "node_data (get_node nilmap g (opt_Name opt)) \<noteq> nilmap"
      using Some assms(2) get by (auto simp: spec_node_def)
    moreover have "opt_Name opt \<in> opt_Name ` snd ` set pre" unfolding x(2) [symmetric] using x(1) by blast
    ultimately show ?thesis using assms(3) by (auto simp: Let_def get_node_def split: option.splits)
  qed
qed

lemma build_graph_ok:
  "build_graph nilmap decode ms g = Inr g' \<Longrightarrow> built nilmap pre g \<Longrightarrow> nilmap \<notin> fst ` set pre \<Longrightarrow> nilmap \<notin> set ms \<Longrightarrow>
   \<exists>opts. map decode ms = map Inr opts \<and> built nilmap (pre @ zip ms opts) g'"
proof (induction ms arbitrary: pre g)
  case (Cons m ms)
  from Cons.prems(1) obtain opt where opt: "decode m = Inr opt" by (cases "decode m") auto
  have fresh: "opt_Name opt \<notin> opt_Name ` snd ` set pre" and
    rest: "build_graph nilmap decode ms (fold (count_child nilmap) (opt_Proxies opt)
       (AList.update (opt_Name opt) ((get_node nilmap g (opt_Name opt))\<lparr>node_data := m, node_option := Some opt\<rparr>) g)) = Inr g'"
    using Cons.prems(1) build_graph_step [of nilmap pre g decode m opt ms] Cons.prems(2,3) opt by (simp_all split: if_splits)
  from Cons.IH [OF rest built_add [OF Cons.prems(2) fresh refl]] Cons.prems(3,4) obtain opts where
    "map decode ms = map Inr opts" "built nilmap ((pre @ [(m, opt)]) @ zip ms opts) g'" by auto
  then show ?case using opt by (intro exI [of _ "opt # opts"]) simp
qed auto

definition named :: "('d \<Rightarrow> (string, group_option) result) \<Rightarrow> string \<Rightarrow> 'd \<Rightarrow> bool" where
  "named decode n m \<longleftrightarrow> (case decode m of Inr opt \<Rightarrow> opt_Name opt = n | Inl _ \<Rightarrow> False)"

lemma build_graph_error:
  "build_graph nilmap decode ms g = Inl e \<Longrightarrow> built nilmap pre g \<Longrightarrow> nilmap \<notin> fst ` set pre \<Longrightarrow> nilmap \<notin> set ms \<Longrightarrow>
   \<forall>x\<in>set pre. decode (fst x) = Inr (snd x) \<Longrightarrow>
   (\<exists>m\<in>set ms. \<exists>msg. decode m = Inl msg \<and> e = GroupDecode msg) \<or>
   (\<exists>n. e = DuplicateGroup n \<and> 2 \<le> length (filter (named decode n) (map fst pre @ ms)))"
proof (induction ms arbitrary: pre g)
  case (Cons m ms)
  show ?case
  proof (cases "decode m")
    case (Inr opt)
    note step = build_graph_step [of nilmap pre g decode m opt ms, OF Cons.prems(2,3) Inr]
    show ?thesis
    proof (cases "opt_Name opt \<in> opt_Name ` snd ` set pre")
      case True
      then obtain x where x: "x \<in> set pre" "opt_Name (snd x) = opt_Name opt" by auto
      then have "named decode (opt_Name opt) (fst x)" using Cons.prems(5) by (simp add: named_def)
      with x(1) have "filter (named decode (opt_Name opt)) (map fst pre) \<noteq> []" by (force simp: filter_empty_conv)
      then have "1 \<le> length (filter (named decode (opt_Name opt)) (map fst pre))"
        by (metis One_nat_def Suc_leI length_greater_0_conv)
      then have "2 \<le> length (filter (named decode (opt_Name opt)) (map fst pre @ m # ms))"
        using Inr by (simp add: named_def)
      moreover have "e = DuplicateGroup (opt_Name opt)" using step Cons.prems(1) True by simp
      ultimately show ?thesis by blast
    next
      case False
      have rest: "build_graph nilmap decode ms (fold (count_child nilmap) (opt_Proxies opt)
         (AList.update (opt_Name opt) ((get_node nilmap g (opt_Name opt))\<lparr>node_data := m, node_option := Some opt\<rparr>) g)) = Inl e"
        using step Cons.prems(1) False by simp
      from Cons.IH [OF rest built_add [OF Cons.prems(2) False refl]] Cons.prems(3-5) Inr show ?thesis by simp
    qed
  qed (use Cons.prems(1) in auto)
qed simp

text \<open>The edges of the graph are the references of the groups.\<close>

definition uses :: "('d \<Rightarrow> (string, group_option) result) \<Rightarrow> 'd list \<Rightarrow> (string \<times> string) set" where
  "uses decode cfg = {(opt_Name opt, p) | m opt p. m \<in> set cfg \<and> decode m = Inr opt \<and> p \<in> set (opt_Proxies opt)}"

lemma built_nb:
  "built nilmap pre g \<Longrightarrow> nb_of node_nb g v = (case group_of pre v of Some x \<Rightarrow> opt_Proxies (snd x) | None \<Rightarrow> [])"
proof -
  assume "built nilmap pre g"
  then have "node_option (get_node nilmap g v) = map_option snd (group_of pre v)" by (simp add: built_def spec_node_def)
  then show ?thesis by (auto simp: nb_of_def node_nb_def get_node_def split: option.splits)
qed

lemma built_node:
  assumes "built nilmap pre g" "map_of g v = Some n"
  shows "n = spec_node nilmap pre v"
proof -
  have "get_node nilmap g v = n" using assms(2) by (simp add: get_node_def)
  with assms(1) show ?thesis by (simp add: built_def)
qed

lemma group_of_iff:
  assumes "distinct (map (opt_Name \<circ> snd) pre)"
  shows "group_of pre v = Some x \<longleftrightarrow> x \<in> set pre \<and> opt_Name (snd x) = v"
proof
  assume "x \<in> set pre \<and> opt_Name (snd x) = v"
  then have "(v, x) \<in> set (map (\<lambda>x. (opt_Name (snd x), x)) pre)" by auto
  moreover have "distinct (map fst (map (\<lambda>x. (opt_Name (snd x), x)) pre))" using assms by (simp add: comp_def)
  ultimately show "group_of pre v = Some x" unfolding group_of_def by (rule map_of_is_SomeI [rotated])
qed (rule group_of_Some)

lemma built_nb_group:
  assumes "built nilmap pre g" "x \<in> set pre"
  shows "nb_of node_nb g (opt_Name (snd x)) = opt_Proxies (snd x)" "opt_Name (snd x) \<in> dom (map_of g)"
proof -
  have "distinct (map (opt_Name \<circ> snd) pre)" using assms(1) by (simp add: built_def)
  from group_of_iff [OF this, of "opt_Name (snd x)" x] assms(2)
  show "nb_of node_nb g (opt_Name (snd x)) = opt_Proxies (snd x)" by (simp add: built_nb [OF assms(1)])
  show "opt_Name (snd x) \<in> dom (map_of g)" using assms by (auto simp: built_def)
qed

lemma built_in_edges:
  assumes "built nilmap pre g"
  shows "in_edges (nb_of node_nb g) (dom (map_of g)) v = (\<Sum>x\<leftarrow>pre. int (count_list (opt_Proxies (snd x)) v))"
proof -
  have d: "distinct (map (opt_Name \<circ> snd) pre)" using assms by (simp add: built_def)
  let ?N = "(opt_Name \<circ> snd) ` set pre"
  have sub: "?N \<subseteq> dom (map_of g)" using assms by (auto simp: built_def)
  have none: "nb_of node_nb g u = []" if "u \<notin> ?N" for u
    using that built_nb [OF assms, of u] group_of_None [of pre u] by (simp add: image_comp)
  have "in_edges (nb_of node_nb g) (dom (map_of g)) v = (\<Sum>u\<in>?N. int (count_list (nb_of node_nb g u) v))"
    unfolding in_edges_def using sub none by (intro sum.mono_neutral_right) (auto simp: finite_dom_map_of)
  also have "\<dots> = (\<Sum>u\<leftarrow>map (opt_Name \<circ> snd) pre. int (count_list (nb_of node_nb g u) v))"
    using sum_list_distinct_conv_sum_set [OF d, of "\<lambda>u. int (count_list (nb_of node_nb g u) v)"] by simp
  also have "\<dots> = (\<Sum>x\<leftarrow>pre. int (count_list (opt_Proxies (snd x)) v))"
    using built_nb_group(1) [OF assms] by (auto simp: comp_def intro!: arg_cong [of _ _ sum_list])
  finally show ?thesis .
qed

lemma built_closed:
  assumes "built nilmap pre g" "u \<in> dom (map_of g)"
  shows "set (nb_of node_nb g u) \<subseteq> dom (map_of g)"
proof (cases "group_of pre u")
  case (Some x)
  then have "x \<in> set pre" using group_of_Some by blast
  then show ?thesis using Some assms(1) by (auto simp: built_nb [OF assms(1)] built_def)
qed (simp add: built_nb [OF assms(1)])

lemma built_edges:
  assumes "built nilmap (zip cfg opts) g" "map decode cfg = map Inr opts"
  shows "edges (nb_of node_nb g) (dom (map_of g)) = uses decode cfg"
proof -
  have len: "length cfg = length opts" using assms(2) by (metis length_map)
  have zip: "x \<in> set (zip cfg opts) \<longleftrightarrow> fst x \<in> set cfg \<and> decode (fst x) = Inr (snd x)" for x
  proof
    assume "x \<in> set (zip cfg opts)"
    then obtain i where i: "i < length cfg" "x = (cfg ! i, opts ! i)" by (auto simp: set_zip)
    have "decode (cfg ! i) = Inr (opts ! i)" using arg_cong [OF assms(2), of "\<lambda>l. l ! i"] i(1) len by simp
    with i show "fst x \<in> set cfg \<and> decode (fst x) = Inr (snd x)" by simp
  next
    assume x: "fst x \<in> set cfg \<and> decode (fst x) = Inr (snd x)"
    then obtain i where i: "i < length cfg" "fst x = cfg ! i" by (metis in_set_conv_nth)
    have "decode (cfg ! i) = Inr (opts ! i)" using arg_cong [OF assms(2), of "\<lambda>l. l ! i"] i(1) len by simp
    with x i have "x = (cfg ! i, opts ! i)" by (metis prod.collapse sum.inject(2))
    with i(1) len show "x \<in> set (zip cfg opts)" by (auto simp: set_zip)
  qed
  have "(u, v) \<in> edges (nb_of node_nb g) (dom (map_of g)) \<longleftrightarrow>
      (\<exists>x \<in> set (zip cfg opts). opt_Name (snd x) = u \<and> v \<in> set (opt_Proxies (snd x)))" for u v
  proof
    assume "(u, v) \<in> edges (nb_of node_nb g) (dom (map_of g))"
    then have "v \<in> set (nb_of node_nb g u)" by (simp add: edges_def)
    then obtain x where "group_of (zip cfg opts) u = Some x" "v \<in> set (opt_Proxies (snd x))"
      by (cases "group_of (zip cfg opts) u") (auto simp: built_nb [OF assms(1)])
    then show "\<exists>x \<in> set (zip cfg opts). opt_Name (snd x) = u \<and> v \<in> set (opt_Proxies (snd x))"
      using group_of_Some by metis
  next
    assume "\<exists>x \<in> set (zip cfg opts). opt_Name (snd x) = u \<and> v \<in> set (opt_Proxies (snd x))"
    then obtain x where x: "x \<in> set (zip cfg opts)" "opt_Name (snd x) = u" "v \<in> set (opt_Proxies (snd x))" by blast
    show "(u, v) \<in> edges (nb_of node_nb g) (dom (map_of g))"
      using built_nb_group [OF assms(1) x(1)] x(2,3) by (simp add: edges_def)
  qed
  moreover have "(u, v) \<in> uses decode cfg \<longleftrightarrow>
      (\<exists>x \<in> set (zip cfg opts). opt_Name (snd x) = u \<and> v \<in> set (opt_Proxies (snd x)))" for u v
  proof -
    have "(\<exists>x \<in> set (zip cfg opts). opt_Name (snd x) = u \<and> v \<in> set (opt_Proxies (snd x))) \<longleftrightarrow>
        (\<exists>m opt. m \<in> set cfg \<and> decode m = Inr opt \<and> opt_Name opt = u \<and> v \<in> set (opt_Proxies opt))"
      by (simp only: Bex_def split_paired_Ex zip fst_conv snd_conv conj_assoc)
    then show ?thesis by (simp only: uses_def mem_Collect_eq prod.inject) (metis (no_types))
  qed
  ultimately show ?thesis by (intro set_eqI) (simp only: split_paired_all)
qed

text \<open>The groups in the order in which their nodes are deleted.\<close>

lemma zip_decode:
  assumes "map decode cfg = map Inr opts" "x \<in> set (zip cfg opts)"
  shows "decode (fst x) = Inr (snd x)"
proof -
  obtain i where i: "i < length cfg" "i < length opts" "x = (cfg ! i, opts ! i)" using assms(2) by (auto simp: set_zip)
  then show ?thesis using arg_cong [OF assms(1), of "\<lambda>l. l ! i"] by simp
qed

lemma built_group_node:
  assumes "built nilmap pre g" "v \<in> dom (map_of g)"
  shows "node_option (the (map_of g v)) = map_option snd (group_of pre v)"
    "x \<in> set pre \<Longrightarrow> opt_Name (snd x) = v \<Longrightarrow> node_data (the (map_of g v)) = fst x"
proof -
  obtain n where n: "map_of g v = Some n" using assms(2) by blast
  have n': "n = spec_node nilmap pre v" by (rule built_node [OF assms(1) n])
  show "node_option (the (map_of g v)) = map_option snd (group_of pre v)" using n n' by (simp add: spec_node_def)
  have "distinct (map (opt_Name \<circ> snd) pre)" using assms(1) by (simp add: built_def)
  from group_of_iff [OF this, of v x]
  show "x \<in> set pre \<Longrightarrow> opt_Name (snd x) = v \<Longrightarrow> node_data (the (map_of g v)) = fst x"
    using n n' by (simp add: spec_node_def)
qed

lemma built_is_group:
  assumes "built nilmap pre g" "v \<in> dom (map_of g)"
  shows "node_option (the (map_of g v)) \<noteq> None \<longleftrightarrow> v \<in> set (map (opt_Name \<circ> snd) pre)"
  using built_group_node(1) [OF assms] group_of_None [of pre v] by (simp add: image_comp)

lemma built_group_count:
  assumes "built nilmap pre g"
  shows "group_count g = length pre"
proof -
  have d: "distinct (map (opt_Name \<circ> snd) pre)" using assms by (simp add: built_def)
  have "set (map (opt_Name \<circ> snd) pre) \<subseteq> dom (map_of g)" using built_nb_group(2) [OF assms] by auto
  then have "{v \<in> dom (map_of g). node_option (the (map_of g v)) \<noteq> None} = set (map (opt_Name \<circ> snd) pre)"
    using built_is_group [OF assms] by blast
  then show ?thesis unfolding group_count_def using distinct_card [OF d] by simp
qed

lemma built_group_data:
  assumes "built nilmap pre g" "distinct rs" "set rs = dom (map_of g)"
  shows "mset (group_data g rs) = mset (map fst pre)"
proof -
  let ?f = "\<lambda>v. node_data (the (map_of g v))"
  let ?gs = "filter (\<lambda>v. node_option (the (map_of g v)) \<noteq> None) rs"
  have d: "distinct (map (opt_Name \<circ> snd) pre)" using assms(1) by (simp add: built_def)
  have sub: "set (map (opt_Name \<circ> snd) pre) \<subseteq> dom (map_of g)" using built_nb_group(2) [OF assms(1)] by auto
  have "set ?gs = set (map (opt_Name \<circ> snd) pre)"
    unfolding set_filter assms(3) using built_is_group [OF assms(1)] sub by blast
  then have "mset ?gs = mset (map (opt_Name \<circ> snd) pre)"
    using assms(2) d by (metis distinct_filter set_eq_iff_mset_eq_distinct)
  then have "image_mset ?f (mset ?gs) = image_mset ?f (mset (map (opt_Name \<circ> snd) pre))" by (rule arg_cong)
  then have "mset (group_data g rs) = mset (map ?f (map (opt_Name \<circ> snd) pre))" by (simp only: group_data_def mset_map)
  also have "map ?f (map (opt_Name \<circ> snd) pre) = map fst pre"
    unfolding map_map
  proof (rule map_cong [OF refl])
    fix x assume "x \<in> set pre"
    then show "(?f \<circ> (opt_Name \<circ> snd)) x = fst x"
      using built_group_node(2) [OF assms(1) built_nb_group(2) [OF assms(1)]] by simp
  qed
  finally show ?thesis .
qed

lemma built_group_option:
  assumes b: "built nilmap (zip cfg opts) g" "map decode cfg = map Inr opts"
    and v: "v \<in> dom (map_of g)" "node_option (the (map_of g v)) \<noteq> None"
  shows "\<exists>x. group_of (zip cfg opts) v = Some x \<and> opt_Name (snd x) = v \<and> decode (node_data (the (map_of g v))) = Inr (snd x)"
proof -
  obtain x where x: "group_of (zip cfg opts) v = Some x"
    using v built_group_node(1) [OF b(1) v(1)] by (cases "group_of (zip cfg opts) v") auto
  then have "node_data (the (map_of g v)) = fst x" using built_group_node(2) [OF b(1) v(1)] group_of_Some by blast
  with x show ?thesis using group_of_Some [OF x] zip_decode [OF b(2)] by auto
qed

lemma peeled_sorted:
  assumes b: "built nilmap (zip cfg opts) g" "map decode cfg = map Inr opts"
    and inv: "forward.peel_inv g rs [] h" and rs: "set rs \<subseteq> dom (map_of g)"
  shows "sorted_wrt (\<lambda>a b. \<forall>oa ob. decode a = Inr oa \<longrightarrow> decode b = Inr ob \<longrightarrow> opt_Name ob \<notin> set (opt_Proxies oa)) (rev (group_data g rs))"
proof -
  let ?gs = "filter (\<lambda>v. node_option (the (map_of g v)) \<noteq> None) rs"
  have "sorted_wrt (\<lambda>a b. a \<notin> set (nb_of node_nb g b)) rs"
    unfolding sorted_wrt_iff_nth_less
  proof (intro allI impI notI)
    fix i j assume ij: "i < j" "j < length rs" "rs ! i \<in> set (nb_of node_nb g (rs ! j))"
    then have "rs ! j \<in> set (take i rs)" using forward.peel_invD(9) [OF inv, of i "rs ! j"] rs by (auto simp: subset_iff)
    then obtain k where "k < i" "rs ! k = rs ! j" using ij by (auto simp: in_set_conv_nth)
    then show False using forward.peel_invD(2) [OF inv] ij by (simp add: nth_eq_iff_index_eq)
  qed
  then have srt: "sorted_wrt (\<lambda>a b. a \<notin> set (nb_of node_nb g b)) ?gs" by (rule sorted_wrt_filter)
  have rel: "opt_Name oa \<notin> set (opt_Proxies ob)"
    if "a \<in> set ?gs" "b \<in> set ?gs" "a \<notin> set (nb_of node_nb g b)"
      "decode (node_data (the (map_of g a))) = Inr oa" "decode (node_data (the (map_of g b))) = Inr ob" for a b oa ob
  proof -
    have opt: "\<exists>x. group_of (zip cfg opts) v = Some x \<and> opt_Name (snd x) = v \<and>
        decode (node_data (the (map_of g v))) = Inr (snd x)" if "v \<in> set ?gs" for v
      using built_group_option [OF b, of v] that rs by auto
    note prem = that
    obtain x where x: "group_of (zip cfg opts) a = Some x" "opt_Name (snd x) = a" "decode (node_data (the (map_of g a))) = Inr (snd x)" using opt [OF prem(1)] by blast
    obtain y where y: "group_of (zip cfg opts) b = Some y" "decode (node_data (the (map_of g b))) = Inr (snd y)"
      using opt [OF prem(2)] by blast
    have "nb_of node_nb g b = opt_Proxies (snd y)" using y(1) by (simp add: built_nb [OF b(1)])
    then show ?thesis using prem(3-5) x y(2) by simp
  qed
  have "sorted_wrt (\<lambda>b a. \<forall>oa ob. decode a = Inr oa \<longrightarrow> decode b = Inr ob \<longrightarrow> opt_Name ob \<notin> set (opt_Proxies oa)) (group_data g rs)"
    unfolding group_data_def sorted_wrt_map by (rule sorted_wrt_mono_rel [OF _ srt]) (use rel in blast)
  then show ?thesis by (simp add: sorted_wrt_rev)
qed

lemma cycle_within:
  assumes "\<And>w. (w, w) \<in> R\<^sup>+ \<Longrightarrow> w \<in> A" "(v, v) \<in> R\<^sup>+"
  shows "(v, v) \<in> (R \<inter> A \<times> A)\<^sup>+"
proof -
  have "(v, w) \<in> R\<^sup>+ \<Longrightarrow> (w, v) \<in> R\<^sup>* \<Longrightarrow> (v, w) \<in> (R \<inter> A \<times> A)\<^sup>+" for w
  proof (induction rule: trancl_induct)
    case (base w)
    then have "(v, v) \<in> R\<^sup>+" "(w, w) \<in> R\<^sup>+" by (meson rtrancl_into_trancl1 rtrancl_into_trancl2)+
    with base assms(1) show ?case by blast
  next
    case (step y w)
    from step.hyps(2) step.prems have yv: "(y, v) \<in> R\<^sup>*" by (rule converse_rtrancl_into_rtrancl)
    then have "(y, y) \<in> R\<^sup>+" using step.hyps(1) by (rule rtrancl_trancl_trancl)
    moreover have "(w, w) \<in> R\<^sup>+"
      using rtrancl_trancl_trancl [OF step.prems step.hyps(1)] step.hyps(2) by (rule trancl_into_trancl)
    ultimately have "(y, w) \<in> R \<inter> A \<times> A" using assms(1) step.hyps(2) by blast
    with step.IH [OF yv] show ?case by (rule trancl_into_trancl)
  qed
  with assms(2) show ?thesis by blast
qed

text \<open>The second phase, from the nodes the first one leaves over.\<close>

lemma peeled_rebuild:
  assumes names: "mset names = mset (map fst g1)"
    and b: "built nilmap pre g0" and inv: "forward.peel_inv g0 rs [] g1"
  shows "\<exists>g2. rebuild names g1 = Inr g2 \<and> map fst g2 = map fst g1 \<and>
    (\<forall>u v. v \<in> set (nb_of from_nodes g2 u) \<and> u \<in> dom (map_of g1) \<longleftrightarrow>
       v \<in> dom (map_of g1) \<and> u \<in> dom (map_of g1) \<and> u \<in> set (nb_of node_nb g0 v)) \<and>
    (\<forall>v n. map_of g2 v = Some n \<longrightarrow> outdegree n = in_edges (nb_of from_nodes g2) (dom (map_of g2)) v)"
proof -
  let ?A = "dom (map_of g1)" and ?nb = "nb_of node_nb g0"
  have closed0: "\<forall>u \<in> dom (map_of g0). set (?nb u) \<subseteq> dom (map_of g0)" using built_closed [OF b] by blast
  have nb1: "nb_of node_nb g1 u = ?nb u" if "u \<in> ?A" for u
    using that forward.peel_nb [OF inv] by (auto simp: nb_of_def)
  have closed1: "\<forall>u \<in> ?A. set (nb_of node_nb g1 u) \<subseteq> ?A" using nb1 forward.peel_closed [OF inv closed0] by simp
  have fresh: "outdegree n = 0 \<and> from_nodes n = []" if n: "map_of g1 v = Some n" for v n
  proof -
    obtain n0 where n0: "map_of g0 v = Some n0" "n\<lparr>indegree := 0\<rparr> = n0\<lparr>indegree := 0\<rparr>"
      using forward.peel_invD(5) [OF inv n] by blast
    have "outdegree n = outdegree n0" "from_nodes n = from_nodes n0"
      using arg_cong [OF n0(2), of outdegree] arg_cong [OF n0(2), of from_nodes] by simp_all
    then show ?thesis using built_node [OF b n0(1)] by (simp add: spec_node_def)
  qed
  obtain g2 where g2: "rebuild names g1 = Inr g2" "map fst g2 = map fst g1"
    and rev: "\<And>u v. v \<in> ?A \<Longrightarrow> u \<in> set (nb_of from_nodes g2 v) \<longleftrightarrow> u \<in> ?A \<and> v \<in> set (nb_of node_nb g1 u)"
    and deg: "\<And>v n. map_of g2 v = Some n \<Longrightarrow> outdegree n = in_edges (nb_of from_nodes g2) (dom (map_of g2)) v"
    using rebuild_backward [OF names forward.peel_invD(1) [OF inv] closed1] fresh by auto
  moreover have "v \<in> set (nb_of from_nodes g2 u) \<and> u \<in> ?A \<longleftrightarrow> v \<in> ?A \<and> u \<in> ?A \<and> u \<in> set (?nb v)" for u v
  proof (cases "u \<in> ?A \<and> v \<in> ?A")
    case True
    then show ?thesis using rev [of u v] nb1 [of v] by simp
  qed (use rev [of u v] in blast)
  ultimately show ?thesis by blast
qed

lemma loop_located:
  assumes ord: "\<And>i xs. mset (ord i xs) = mset xs"
    and b: "built nilmap pre g0" and inv: "forward.peel_inv g0 rs [] g1" and ne: "g1 \<noteq> []"
  defines "R \<equiv> edges (nb_of node_nb g0) (dom (map_of g0))"
  shows "\<exists>g2 g3. rebuild (ord 1 (map fst g1)) g1 = Inr g2 \<and>
    prune_loop (zero_nodes outdegree (ord 2 (map fst g2)) g2) g2 = Inr g3 \<and> dom (map_of g3) \<noteq> {} \<and>
    (\<forall>v. (v, v) \<in> R\<^sup>+ \<longrightarrow> v \<in> dom (map_of g3)) \<and>
    (\<forall>v \<in> dom (map_of g3). (\<exists>u \<in> dom (map_of g3). (u, v) \<in> R) \<and> (\<exists>w \<in> dom (map_of g3). (v, w) \<in> R))"
proof -
  let ?A = "dom (map_of g1)"
  have sub: "?A \<subseteq> dom (map_of g0)" using forward.peel_invD(4) [OF inv] by blast
  obtain g2 where g2: "rebuild (ord 1 (map fst g1)) g1 = Inr g2" "map fst g2 = map fst g1"
    and rev: "\<forall>u v. v \<in> set (nb_of from_nodes g2 u) \<and> u \<in> ?A \<longleftrightarrow> v \<in> ?A \<and> u \<in> ?A \<and> u \<in> set (nb_of node_nb g0 v)"
    and deg: "\<forall>v n. map_of g2 v = Some n \<longrightarrow> outdegree n = in_edges (nb_of from_nodes g2) (dom (map_of g2)) v"
    using peeled_rebuild [OF ord [of 1 "map fst g1"] b inv] by (elim exE conjE) (rule that)
  have dom2: "dom (map_of g2) = ?A" using g2(2) by (metis dom_map_of_conv_image_fst list.set_map)
  have closed2: "\<forall>u \<in> dom (map_of g2). set (nb_of from_nodes g2 u) \<subseteq> dom (map_of g2)"
    unfolding dom2
  proof (intro ballI subsetI)
    fix u v assume "u \<in> ?A" "v \<in> set (nb_of from_nodes g2 u)"
    with rev [rule_format, of v u] show "v \<in> ?A" by blast
  qed
  have init: "backward.peel_inv g2 [] (zero_nodes outdegree (ord 2 (map fst g2)) g2) g2"
    using forward.peel_invD(1) [OF inv] g2(2) deg by (intro backward.peel_init ord) simp_all
  obtain g3 rs3 where g3: "prune_loop (zero_nodes outdegree (ord 2 (map fst g2)) g2) g2 = Inr g3" "backward.peel_inv g2 rs3 [] g3"
    using prune_loop_peels [OF closed2 init] by blast
  let ?B = "dom (map_of g3)" and ?S = "edges (nb_of from_nodes g2) (dom (map_of g2))"
  have sub3: "?B \<subseteq> ?A" using backward.peel_invD(4) [OF g3(2)] dom2 by blast
  have S: "(v, u) \<in> ?S \<longleftrightarrow> (u, v) \<in> R \<inter> ?A \<times> ?A" for u v
    unfolding edges_def R_def dom2 using rev sub by blast
  have cycles: "v \<in> ?B" if "(v, v) \<in> R\<^sup>+" for v
  proof -
    have "(v, v) \<in> (R \<inter> ?A \<times> ?A)\<^sup>+"
      using forward.cycle_remains [OF inv] that unfolding R_def by (rule cycle_within)
    also have "R \<inter> ?A \<times> ?A = ?S\<inverse>" using S by auto
    finally have "(v, v) \<in> ?S\<^sup>+" by (simp add: trancl_converse)
    then show ?thesis by (rule backward.cycle_remains [OF g3(2)])
  qed
  have "?A \<noteq> {}" using ne by (cases g1) auto
  then have "\<not> acyclic R" unfolding R_def by (rule forward.remains_cyclic [OF inv])
  then have "?B \<noteq> {}" using cycles by (auto simp: acyclic_def)
  moreover have "\<exists>w \<in> ?B. (v, w) \<in> R" if v: "v \<in> ?B" for v
  proof -
    obtain w where w: "w \<in> ?B" "v \<in> set (nb_of from_nodes g2 w)" using backward.remains_pred [OF g3(2) v] by blast
    then have "(w, v) \<in> ?S" using sub3 dom2 by (auto simp: edges_def simp del: domIff)
    with S w(1) show ?thesis by blast
  qed
  moreover have "\<exists>u \<in> ?B. (u, v) \<in> R" if v: "v \<in> ?B" for v
  proof -
    have vA: "v \<in> ?A" using sub3 v by blast
    obtain u where u: "u \<in> ?A" "v \<in> set (nb_of node_nb g0 u)" using forward.remains_pred [OF inv vA] by blast
    then have "u \<in> set (nb_of from_nodes g2 v)" using rev vA by blast
    then have "u \<in> ?B" using backward.peel_closed [OF g3(2) closed2 v] by blast
    then show ?thesis using u sub unfolding R_def edges_def by blast
  qed
  ultimately show ?thesis using g2(1) g3(1) cycles by blast
qed

text \<open>The first phase on the graph of a configuration.\<close>

lemma first_phase:
  assumes names: "mset names = mset (map fst g0)"
    and b: "built nilmap (zip cfg opts) g0" "map decode cfg = map Inr opts"
  shows "\<exists>rs g1 res. topo_loop (zero_nodes indegree names g0) g0 cfg 0 = Inr (g1, res) \<and>
    forward.peel_inv g0 rs [] g1 \<and>
    (g1 = [] \<longrightarrow> acyclic (uses decode cfg) \<and> mset res = mset cfg \<and>
      sorted_wrt (\<lambda>a b. \<forall>oa ob. decode a = Inr oa \<longrightarrow> decode b = Inr ob \<longrightarrow> opt_Name ob \<notin> set (opt_Proxies oa)) res)"
proof -
  have len: "length cfg = length opts" using b(2) by (metis length_map)
  have closed: "\<forall>u \<in> dom (map_of g0). set (nb_of node_nb g0 u) \<subseteq> dom (map_of g0)" using built_closed [OF b(1)] by blast
  have init: "forward.peel_inv g0 [] (zero_nodes indegree names g0) g0"
  proof (rule forward.peel_init [OF _ names])
    show "distinct (map fst g0)" using b(1) by (simp add: built_def)
    show "indegree n = in_edges (nb_of node_nb g0) (dom (map_of g0)) v" if "map_of g0 v = Some n" for v n
      using built_node [OF b(1) that] built_in_edges [OF b(1), of v] by (simp add: spec_node_def)
  qed
  have count: "length cfg = group_count g0" using built_group_count [OF b(1)] len by simp
  obtain rs g1 res where run: "topo_loop (zero_nodes indegree names g0) g0 cfg 0 = Inr (g1, res)"
    "forward.peel_inv g0 rs [] g1" "length res = length cfg"
    "drop (length cfg - length (group_data g0 rs)) res = rev (group_data g0 rs)"
    using topo_loop_peels [OF closed init _ count] by (auto simp: group_data_def)
  have "acyclic (uses decode cfg) \<and> mset res = mset cfg \<and>
      sorted_wrt (\<lambda>a b. \<forall>oa ob. decode a = Inr oa \<longrightarrow> decode b = Inr ob \<longrightarrow> opt_Name ob \<notin> set (opt_Proxies oa)) res" if "g1 = []"
  proof -
    have rs: "set rs = dom (map_of g0)" "distinct rs"
      using forward.peel_invD(2,4) [OF run(2)] \<open>g1 = []\<close> by auto
    have data: "mset (group_data g0 rs) = mset cfg" using built_group_data [OF b(1) rs(2,1)] len by simp
    then have "length (group_data g0 rs) = length cfg" by (rule mset_eq_length)
    then have res: "res = rev (group_data g0 rs)" using run(4) by simp
    have "acyclic (uses decode cfg)"
      using forward.cycle_remains [OF run(2)] \<open>g1 = []\<close> unfolding built_edges [OF b] by (auto simp: acyclic_def)
    with res data peeled_sorted [OF b run(2)] rs(1) show ?thesis by simp
  qed
  with run(1,2) show ?thesis by blast
qed

section \<open>Properties\<close>

text \<open>
  C37.  The order of the proxy groups.  Whatever order the map loops take, the sort never
  dereferences a missing node and never writes outside the configuration.  It succeeds exactly on
  groups that decode, have distinct names and refer to each other without a cycle; then it returns
  the same groups, each after all the groups it refers to.  A reported loop names every group on a
  cycle, and only names that are referred to by, and refer to, another reported name.
\<close>

theorem proxyGroupsDagSort_correct:
  assumes ord: "\<And>i xs. mset (ord i xs) = mset xs" and nil: "nilmap \<notin> set cfg"
  shows "case proxyGroupsDagSort ord nilmap decode cfg of
      Inr res \<Rightarrow> acyclic (uses decode cfg) \<and> mset res = mset cfg \<and>
        sorted_wrt (\<lambda>a b. \<forall>oa ob. decode a = Inr oa \<longrightarrow> decode b = Inr ob \<longrightarrow> opt_Name ob \<notin> set (opt_Proxies oa)) res
    | Inl (GroupDecode msg) \<Rightarrow> \<exists>m \<in> set cfg. decode m = Inl msg
    | Inl (DuplicateGroup n) \<Rightarrow> 2 \<le> length (filter (named decode n) cfg)
    | Inl (LoopDetected els) \<Rightarrow> els \<noteq> [] \<and> (\<forall>v. (v, v) \<in> (uses decode cfg)\<^sup>+ \<longrightarrow> v \<in> set els) \<and> \<not> acyclic (uses decode cfg) \<and>
        (\<forall>v \<in> set els. (\<exists>u \<in> set els. (u, v) \<in> uses decode cfg) \<and> (\<exists>w \<in> set els. (v, w) \<in> uses decode cfg))
    | Inl _ \<Rightarrow> False"
proof (cases "build_graph nilmap decode cfg []")
  case (Inl e)
  have "built nilmap [] []" by (simp add: built_def get_node_def spec_node_def group_of_def)
  from build_graph_error [OF Inl this] nil Inl show ?thesis by (auto simp: proxyGroupsDagSort_def)
next
  case (Inr g0)
  have "built nilmap [] []" by (simp add: built_def get_node_def spec_node_def group_of_def)
  from build_graph_ok [OF Inr this] nil obtain opts where b: "built nilmap (zip cfg opts) g0" "map decode cfg = map Inr opts" by auto
  obtain rs g1 res where run: "topo_loop (zero_nodes indegree (ord 0 (map fst g0)) g0) g0 cfg 0 = Inr (g1, res)"
    and inv: "forward.peel_inv g0 rs [] g1" and fin: "g1 = [] \<Longrightarrow> acyclic (uses decode cfg) \<and> mset res = mset cfg \<and>
      sorted_wrt (\<lambda>a b. \<forall>oa ob. decode a = Inr oa \<longrightarrow> decode b = Inr ob \<longrightarrow> opt_Name ob \<notin> set (opt_Proxies oa)) res"
    using first_phase [OF ord [of 0 "map fst g0"] b] by auto
  show ?thesis
  proof (cases "g1 = []")
    case True
    with fin Inr run show ?thesis by (simp add: proxyGroupsDagSort_def)
  next
    case False
    obtain g2 g3 where loop: "rebuild (ord 1 (map fst g1)) g1 = Inr g2"
      "prune_loop (zero_nodes outdegree (ord 2 (map fst g2)) g2) g2 = Inr g3"
      and els: "dom (map_of g3) \<noteq> {}" "\<forall>v. (v, v) \<in> (uses decode cfg)\<^sup>+ \<longrightarrow> v \<in> dom (map_of g3)"
      "\<forall>v \<in> dom (map_of g3). (\<exists>u \<in> dom (map_of g3). (u, v) \<in> uses decode cfg) \<and> (\<exists>w \<in> dom (map_of g3). (v, w) \<in> uses decode cfg)"
      using loop_located [where ord = ord, OF ord b(1) inv False] unfolding built_edges [OF b] by blast
    have els3: "set (ord 3 (map fst g3)) = dom (map_of g3)" by (metis ord dom_map_of_conv_image_fst list.set_map set_mset_mset)
    moreover from els3 els(1) have "ord 3 (map fst g3) \<noteq> []" by (metis list.set(1))
    moreover have "dom (map_of g1) \<noteq> {}" using False by (cases g1) auto
    then have "\<not> acyclic (uses decode cfg)" using forward.remains_cyclic [OF inv] unfolding built_edges [OF b] by blast
    moreover have "proxyGroupsDagSort ord nilmap decode cfg = Inl (LoopDetected (ord 3 (map fst g3)))"
      using Inr run False loop by (simp add: proxyGroupsDagSort_def)
    ultimately show ?thesis using els by (simp del: domIff)
  qed
qed

definition example_decode :: "nat \<Rightarrow> (string, group_option) result" where
  "example_decode m =
     (if m = 1 then Inr \<lparr>opt_Name = ''A'', opt_Proxies = [''B'', ''P'']\<rparr>
      else if m = 2 then Inr \<lparr>opt_Name = ''B'', opt_Proxies = [''P'']\<rparr>
      else if m = 3 then Inr \<lparr>opt_Name = ''B'', opt_Proxies = [''A'']\<rparr>
      else Inl ''no group'')"

theorem proxyGroupsDagSort_correct_witness:
  "proxyGroupsDagSort (\<lambda>_ xs. xs) 0 example_decode [1, 2] = Inr [2, 1] \<and> acyclic (uses example_decode [1, 2]) \<and>
   (\<exists>els. proxyGroupsDagSort (\<lambda>_ xs. xs) 0 example_decode [1, 3] = Inl (LoopDetected els) \<and>
      \<not> acyclic (uses example_decode [1, 3]))"
proof -
  have ok: "proxyGroupsDagSort (\<lambda>_ xs. xs) 0 example_decode [1, 2] = Inr [2, 1]" by code_simp
  have loop: "proxyGroupsDagSort (\<lambda>_ xs. xs) 0 example_decode [1, 3] = Inl (LoopDetected [''A'', ''B''])" by code_simp
  from proxyGroupsDagSort_correct [of "\<lambda>_ xs. xs" 0 "[1, 2]" example_decode] ok
  have "acyclic (uses example_decode [1, 2])" by simp
  moreover from proxyGroupsDagSort_correct [of "\<lambda>_ xs. xs" 0 "[1, 3]" example_decode] loop
  have "\<not> acyclic (uses example_decode [1, 3])" by simp
  ultimately show ?thesis using ok loop by blast
qed

section \<open>The check of the dialer proxies\<close>

text \<open>
  Every proxy has at most one dialer, so a search visits the proxies of one chain: what it has
  visited is what is on its path.
\<close>

lemma chain_no_cycle:
  assumes "\<not> validateDialerProxiesHasCycle current graph visited path" "set visited = set path"
  shows "(current, p) \<in> {(a, b). map_of graph a = Some b}\<^sup>* \<Longrightarrow> p \<notin> set path"
  using assms
proof (induction current graph visited path rule: validateDialerProxiesHasCycle.induct)
  case (1 current graph visited path)
  let ?R = "{(a, b). map_of graph a = Some b}"
  have out: "current \<notin> set path" "current \<notin> set visited"
    using 1(3,4) by (auto simp: validateDialerProxiesHasCycle.simps [of current])
  from 1(2) show ?case
  proof (cases rule: converse_rtranclE)
    case (step dialer)
    then have d: "map_of graph current = Some dialer" by simp
    with 1(3) out have "\<not> validateDialerProxiesHasCycle dialer graph (current # visited) (path @ [current])"
      by (simp add: validateDialerProxiesHasCycle.simps [of current])
    from 1(1) [OF out d step(2) this] 1(4) show ?thesis by simp
  qed (use out in simp)
qed

lemma chain_cycle:
  assumes "validateDialerProxiesHasCycle current graph visited path" "set visited = set path"
    "\<And>a. a \<in> set path \<Longrightarrow> (a, current) \<in> {(a, b). map_of graph a = Some b}\<^sup>+"
  shows "\<not> acyclic {(a, b). map_of graph a = Some b}"
  using assms
proof (induction current graph visited path rule: validateDialerProxiesHasCycle.induct)
  case (1 current graph visited path)
  let ?R = "{(a, b). map_of graph a = Some b}"
  show ?case
  proof (cases "current \<in> set path")
    case True
    with 1(4) show ?thesis by (auto simp: acyclic_def)
  next
    case False
    then have out: "current \<notin> set visited" using 1(3) by simp
    with False 1(2) obtain dialer where d: "map_of graph current = Some dialer"
      "validateDialerProxiesHasCycle dialer graph (current # visited) (path @ [current])"
      by (auto simp: validateDialerProxiesHasCycle.simps [of current] split: option.splits)
    have "(a, dialer) \<in> ?R\<^sup>+" if "a \<in> set (path @ [current])" for a
      using that 1(4) d(1) by (auto intro: trancl_into_trancl)
    from 1(1) [OF False out d(1,2) _ this] 1(3) show ?thesis by simp
  qed
qed

lemma no_cycle_iff:
  "(\<forall>n \<in> fst ` set graph. \<not> validateDialerProxiesHasCycle n graph [] []) \<longleftrightarrow> acyclic {(a, b). map_of graph a = Some b}"
proof
  let ?R = "{(a, b). map_of graph a = Some b}"
  assume none: "\<forall>n \<in> fst ` set graph. \<not> validateDialerProxiesHasCycle n graph [] []"
  show "acyclic ?R"
  proof (unfold acyclic_def, intro allI notI)
    fix v assume "(v, v) \<in> ?R\<^sup>+"
    then obtain d where d: "map_of graph v = Some d" "(d, v) \<in> ?R\<^sup>*" by (auto dest: tranclD)
    then have "v \<in> fst ` set graph" by (force dest: map_of_SomeD)
    with none have "\<not> validateDialerProxiesHasCycle v graph [] []" by blast
    with d(1) have "\<not> validateDialerProxiesHasCycle d graph [v] [v]"
      unfolding validateDialerProxiesHasCycle.simps [of v graph "[]" "[]"] by simp
    from chain_no_cycle [OF this refl d(2)] show False by simp
  qed
next
  assume "acyclic {(a, b). map_of graph a = Some b}"
  then show "\<forall>n \<in> fst ` set graph. \<not> validateDialerProxiesHasCycle n graph [] []"
    using chain_cycle [of _ graph "[]" "[]"] by auto
qed

lemma dialer_graph_iff:
  "dialer_graph proxies ps = Inr graph \<longleftrightarrow>
   graph = filter (\<lambda>(n, d). d \<noteq> []) ps \<and> (\<forall>(n, d) \<in> set ps. d \<noteq> [] \<longrightarrow> d \<in> fst ` set proxies)"
proof (induction ps arbitrary: graph)
  case (Cons p ps)
  obtain n d where p: "p = (n, d)" by (cases p)
  show ?case unfolding p using Cons.IH by (cases "d \<in> fst ` set proxies") (auto simp: result_bind_Inr_iff map_of_eq_None_iff)
qed auto

lemma first_cycle_None: "first_cycle names graph = None \<longleftrightarrow> (\<forall>n \<in> set names. \<not> validateDialerProxiesHasCycle n graph [] [])"
  by (induction names) auto

text \<open>
  C38.  The check of the dialer proxies accepts a table of proxies exactly when every proxy that a
  \<open>dialer-proxy\<close> names exists and no proxy dials through itself, directly or through others.
\<close>

theorem validateDialerProxies_iff:
  assumes "distinct (map fst proxies)" "\<And>xs. mset (ord xs) = mset xs"
  shows "validateDialerProxies ord proxies = None \<longleftrightarrow>
    (\<forall>(n, d) \<in> set proxies. d \<noteq> [] \<longrightarrow> d \<in> fst ` set proxies) \<and> acyclic {(n, d). (n, d) \<in> set proxies \<and> d \<noteq> []}"
proof (cases "dialer_graph proxies proxies")
  case (Inl e)
  then have "\<not> (\<forall>(n, d) \<in> set proxies. d \<noteq> [] \<longrightarrow> d \<in> fst ` set proxies)"
    using dialer_graph_iff [of proxies proxies "filter (\<lambda>(n, d). d \<noteq> []) proxies"] by auto
  with Inl show ?thesis by (simp add: validateDialerProxies_def)
next
  case (Inr graph)
  then have g: "graph = filter (\<lambda>(n, d). d \<noteq> []) proxies" "\<forall>(n, d) \<in> set proxies. d \<noteq> [] \<longrightarrow> d \<in> fst ` set proxies"
    using dialer_graph_iff by blast+
  have "distinct (map fst graph)" unfolding g(1) using assms(1) by (rule distinct_map_filter)
  then have R: "{(a, b). map_of graph a = Some b} = {(n, d). (n, d) \<in> set proxies \<and> d \<noteq> []}"
    using g(1) by (auto simp: map_of_eq_Some_iff)
  have "set (ord (map fst graph)) = fst ` set graph" by (metis assms(2) list.set_map set_mset_mset)
  then show ?thesis
    using Inr g(2) no_cycle_iff [of graph] unfolding R by (simp add: validateDialerProxies_def first_cycle_None)
qed

theorem validateDialerProxies_iff_witness:
  "validateDialerProxies rev [(''a'', ''b''), (''b'', []), (''c'', ''a'')] = None \<and>
   acyclic {(n, d). (n, d) \<in> set [(''a'', ''b''), (''b'', []), (''c'', ''a'')] \<and> d \<noteq> []}"
proof -
  have "validateDialerProxies rev [(''a'', ''b''), (''b'', []), (''c'', ''a'')] = None" by code_simp
  moreover have "distinct (map fst [(''a'', ''b''), (''b'', []), (''c'', ''a'')])" by simp
  ultimately show ?thesis
    using validateDialerProxies_iff [of "[(''a'', ''b''), (''b'', []), (''c'', ''a'')]" rev, OF _ mset_rev] by blast
qed

end
