(* ===== verification/Tuic.thy ===== *)
theory Tuic
  imports Wire LRU_Cache Metadata
begin

text \<open>
  \<open>transport/tuic/v5\<close>: the commands of the protocol with their writers and readers
  (\<open>protocol.go\<close>), the splitting of a UDP packet into datagrams and its reassembly (\<open>frag.go\<close>), and
  the reading loops of the packet connection (\<open>packet.go\<close>).

  The writers all write to a \<open>bytes.Buffer\<close>, which does not fail, so a writer is the bytes it adds.
  Sending a datagram is an argument that answers each datagram with an optional error.  A packet bag
  is shared by reference between the cache and the reassembler: the cache holds its index in
  \<open>df_bags\<close>.
\<close>

section \<open>Commands\<close>

definition AuthenticateType :: "8 word" where "AuthenticateType = 0"
definition ConnectType :: "8 word" where "ConnectType = 1"
definition PacketType :: "8 word" where "PacketType = 2"
definition DissociateType :: "8 word" where "DissociateType = 3"
definition HeartbeatType :: "8 word" where "HeartbeatType = 4"
definition tuic_VER :: "8 word" where "tuic_VER = 5"

record CommandHead =
  ch_VER :: "8 word"
  ch_TYPE :: "8 word"

definition NewCommandHead :: "8 word \<Rightarrow> CommandHead" where
  "NewCommandHead t = \<lparr>ch_VER = tuic_VER, ch_TYPE = t\<rparr>"

definition ReadCommandHead :: "bytes \<Rightarrow> (wire_error, CommandHead \<times> bytes) result" where
  "ReadCommandHead r =
     result_bind (wire_ReadByte r) (\<lambda>(v, r1).
       result_bind (wire_ReadByte r1) (\<lambda>(t, r2). Inr (\<lparr>ch_VER = v, ch_TYPE = t\<rparr>, r2)))"

definition CommandHead_WriteTo :: "CommandHead \<Rightarrow> bytes" where
  "CommandHead_WriteTo c = [ch_VER c, ch_TYPE c]"

definition CommandHead_BytesLen :: "CommandHead \<Rightarrow> nat" where
  "CommandHead_BytesLen c = 1 + 1"

section \<open>Addresses\<close>

definition tuic_AtypDomainName :: "8 word" where "tuic_AtypDomainName = 0"
definition tuic_AtypIPv4 :: "8 word" where "tuic_AtypIPv4 = 1"
definition tuic_AtypIPv6 :: "8 word" where "tuic_AtypIPv6 = 2"
definition tuic_AtypNone :: "8 word" where "tuic_AtypNone = 255"

lemmas tuic_consts = AuthenticateType_def ConnectType_def PacketType_def DissociateType_def HeartbeatType_def
  tuic_VER_def tuic_AtypDomainName_def tuic_AtypIPv4_def tuic_AtypIPv6_def tuic_AtypNone_def

record Address =
  a_TYPE :: "8 word"
  a_ADDR :: bytes
  a_PORT :: "16 word"

definition NewAddress :: "Metadata \<Rightarrow> Address" where
  "NewAddress m =
     (case Metadata_AddrType m of
        AtypIPv4 \<Rightarrow> \<lparr>a_TYPE = tuic_AtypIPv4, a_ADDR = AsSlice (mDstIP m), a_PORT = mDstPort m\<rparr>
      | AtypIPv6 \<Rightarrow> \<lparr>a_TYPE = tuic_AtypIPv6, a_ADDR = AsSlice (mDstIP m), a_PORT = mDstPort m\<rparr>
      | AtypDomainName \<Rightarrow>
          \<lparr>a_TYPE = tuic_AtypDomainName, a_ADDR = of_nat (length (mHost m)) # string_bytes (mHost m), a_PORT = mDstPort m\<rparr>)"

definition NewAddressAddrPort :: "addr \<Rightarrow> 16 word \<Rightarrow> Address" where
  "NewAddressAddrPort a port =
     (let ad = Unmap a in
      \<lparr>a_TYPE = (if Is4 ad then tuic_AtypIPv4 else tuic_AtypIPv6), a_ADDR = AsSlice ad, a_PORT = port\<rparr>)"

text \<open>The length of a domain name plus one is computed in a byte; a length of 255 makes an empty slice.\<close>

definition read_addr_bytes :: "8 word \<Rightarrow> bytes \<Rightarrow> (wire_error, bytes \<times> bytes) result" where
  "read_addr_bytes t r =
     (if t = tuic_AtypIPv4 then ReadFull 4 r
      else if t = tuic_AtypIPv6 then ReadFull 16 r
      else if t = tuic_AtypDomainName then
        result_bind (wire_ReadByte r) (\<lambda>(addrLen, r1).
          let n = unat (addrLen + 1) in
          if n = 0 then Inl WirePanic
          else result_bind (ReadFull (n - 1) r1) (\<lambda>(name, r2). Inr (addrLen # name, r2)))
      else Inr ([], r))"

definition ReadAddress :: "bytes \<Rightarrow> (wire_error, Address \<times> bytes) result" where
  "ReadAddress r =
     result_bind (wire_ReadByte r) (\<lambda>(t, r1).
       result_bind (read_addr_bytes t r1) (\<lambda>(addr, r2).
         if t = tuic_AtypNone then Inr (\<lparr>a_TYPE = t, a_ADDR = addr, a_PORT = 0\<rparr>, r2)
         else result_bind (read_be 2 r2) (\<lambda>(port, r3). Inr (\<lparr>a_TYPE = t, a_ADDR = addr, a_PORT = port\<rparr>, r3))))"

definition Address_WriteTo :: "Address \<Rightarrow> bytes" where
  "Address_WriteTo c =
     (if a_TYPE c = tuic_AtypNone then [a_TYPE c] else a_TYPE c # a_ADDR c @ be_bytes 2 (a_PORT c))"

definition Address_BytesLen :: "Address \<Rightarrow> nat" where
  "Address_BytesLen c = 1 + length (a_ADDR c) + 2"

definition SocksAddr :: "Address \<Rightarrow> bytes" where
  "SocksAddr c =
     (if a_TYPE c = tuic_AtypIPv4 then 1 else if a_TYPE c = tuic_AtypIPv6 then 4
      else if a_TYPE c = tuic_AtypDomainName then 3 else 0) # a_ADDR c @ be_bytes 2 (a_PORT c)"

section \<open>The five commands\<close>

record Authenticate =
  au_head :: CommandHead
  au_UUID :: bytes
  au_TOKEN :: bytes

definition NewAuthenticate :: "bytes \<Rightarrow> bytes \<Rightarrow> Authenticate" where
  "NewAuthenticate uuid token = \<lparr>au_head = NewCommandHead AuthenticateType, au_UUID = uuid, au_TOKEN = token\<rparr>"

definition ReadAuthenticateWithHead :: "CommandHead \<Rightarrow> bytes \<Rightarrow> (wire_error, Authenticate \<times> bytes) result" where
  "ReadAuthenticateWithHead head r =
     (if ch_TYPE head \<noteq> AuthenticateType then Inl (WireCommand (ch_TYPE head))
      else result_bind (ReadFull 16 r) (\<lambda>(uuid, r1).
        result_bind (ReadFull 32 r1) (\<lambda>(token, r2). Inr (\<lparr>au_head = head, au_UUID = uuid, au_TOKEN = token\<rparr>, r2))))"

definition ReadAuthenticate :: "bytes \<Rightarrow> (wire_error, Authenticate \<times> bytes) result" where
  "ReadAuthenticate r = result_bind (ReadCommandHead r) (\<lambda>(head, r1). ReadAuthenticateWithHead head r1)"

definition Authenticate_WriteTo :: "Authenticate \<Rightarrow> bytes" where
  "Authenticate_WriteTo c = CommandHead_WriteTo (au_head c) @ au_UUID c @ au_TOKEN c"

definition Authenticate_BytesLen :: "Authenticate \<Rightarrow> nat" where
  "Authenticate_BytesLen c = CommandHead_BytesLen (au_head c) + 16 + 32"

record Connect =
  co_head :: CommandHead
  co_ADDR :: Address

definition NewConnect :: "Address \<Rightarrow> Connect" where
  "NewConnect addr = \<lparr>co_head = NewCommandHead ConnectType, co_ADDR = addr\<rparr>"

definition ReadConnectWithHead :: "CommandHead \<Rightarrow> bytes \<Rightarrow> (wire_error, Connect \<times> bytes) result" where
  "ReadConnectWithHead head r =
     (if ch_TYPE head \<noteq> ConnectType then Inl (WireCommand (ch_TYPE head))
      else result_bind (ReadAddress r) (\<lambda>(addr, r1). Inr (\<lparr>co_head = head, co_ADDR = addr\<rparr>, r1)))"

definition ReadConnect :: "bytes \<Rightarrow> (wire_error, Connect \<times> bytes) result" where
  "ReadConnect r = result_bind (ReadCommandHead r) (\<lambda>(head, r1). ReadConnectWithHead head r1)"

definition Connect_WriteTo :: "Connect \<Rightarrow> bytes" where
  "Connect_WriteTo c = CommandHead_WriteTo (co_head c) @ Address_WriteTo (co_ADDR c)"

definition Connect_BytesLen :: "Connect \<Rightarrow> nat" where
  "Connect_BytesLen c = CommandHead_BytesLen (co_head c) + Address_BytesLen (co_ADDR c)"

record Packet =
  pk_head :: CommandHead
  pk_ASSOC_ID :: "16 word"
  pk_PKT_ID :: "16 word"
  pk_FRAG_TOTAL :: "8 word"
  pk_FRAG_ID :: "8 word"
  pk_SIZE :: "16 word"
  pk_ADDR :: Address
  pk_DATA :: bytes

definition NewPacket :: "16 word \<Rightarrow> 16 word \<Rightarrow> 8 word \<Rightarrow> 8 word \<Rightarrow> 16 word \<Rightarrow> Address \<Rightarrow> bytes \<Rightarrow> Packet" where
  "NewPacket assoc pkt ftotal frag sz addr data =
     \<lparr>pk_head = NewCommandHead PacketType, pk_ASSOC_ID = assoc, pk_PKT_ID = pkt, pk_FRAG_TOTAL = ftotal, pk_FRAG_ID = frag,
       pk_SIZE = sz, pk_ADDR = addr, pk_DATA = data\<rparr>"

definition ReadPacketWithHead :: "CommandHead \<Rightarrow> bytes \<Rightarrow> (wire_error, Packet \<times> bytes) result" where
  "ReadPacketWithHead head r =
     (if ch_TYPE head \<noteq> PacketType then Inl (WireCommand (ch_TYPE head))
      else result_bind (read_be 2 r) (\<lambda>(assoc, r1).
        result_bind (read_be 2 r1) (\<lambda>(pkt, r2).
        result_bind (read_be 1 r2) (\<lambda>(ftotal, r3).
        result_bind (read_be 1 r3) (\<lambda>(frag, r4).
        result_bind (read_be 2 r4) (\<lambda>(sz, r5).
        result_bind (ReadAddress r5) (\<lambda>(addr, r6).
        result_bind (ReadFull (unat sz) r6) (\<lambda>(data, r7).
          Inr (\<lparr>pk_head = head, pk_ASSOC_ID = assoc, pk_PKT_ID = pkt, pk_FRAG_TOTAL = ftotal, pk_FRAG_ID = frag,
                 pk_SIZE = sz, pk_ADDR = addr, pk_DATA = data\<rparr>, r7)))))))))"

definition ReadPacket :: "bytes \<Rightarrow> (wire_error, Packet \<times> bytes) result" where
  "ReadPacket r = result_bind (ReadCommandHead r) (\<lambda>(head, r1). ReadPacketWithHead head r1)"

definition Packet_WriteTo :: "Packet \<Rightarrow> bytes" where
  "Packet_WriteTo c =
     CommandHead_WriteTo (pk_head c) @ be_bytes 2 (pk_ASSOC_ID c) @ be_bytes 2 (pk_PKT_ID c) @ be_bytes 1 (pk_FRAG_TOTAL c) @
     be_bytes 1 (pk_FRAG_ID c) @ be_bytes 2 (pk_SIZE c) @ Address_WriteTo (pk_ADDR c) @ pk_DATA c"

definition Packet_BytesLen :: "Packet \<Rightarrow> nat" where
  "Packet_BytesLen c = CommandHead_BytesLen (pk_head c) + 4 + 2 + Address_BytesLen (pk_ADDR c) + length (pk_DATA c)"

definition PacketOverHead :: nat where
  "PacketOverHead = Packet_BytesLen (NewPacket 0 0 0 0 0 (NewAddressAddrPort (V6 0 []) 0) [])"

record Dissociate =
  di_head :: CommandHead
  di_ASSOC_ID :: "16 word"

definition NewDissociate :: "16 word \<Rightarrow> Dissociate" where
  "NewDissociate assoc = \<lparr>di_head = NewCommandHead DissociateType, di_ASSOC_ID = assoc\<rparr>"

definition ReadDissociateWithHead :: "CommandHead \<Rightarrow> bytes \<Rightarrow> (wire_error, Dissociate \<times> bytes) result" where
  "ReadDissociateWithHead head r =
     (if ch_TYPE head \<noteq> DissociateType then Inl (WireCommand (ch_TYPE head))
      else result_bind (read_be 2 r) (\<lambda>(assoc, r1). Inr (\<lparr>di_head = head, di_ASSOC_ID = assoc\<rparr>, r1)))"

definition ReadDissociate :: "bytes \<Rightarrow> (wire_error, Dissociate \<times> bytes) result" where
  "ReadDissociate r = result_bind (ReadCommandHead r) (\<lambda>(head, r1). ReadDissociateWithHead head r1)"

definition Dissociate_WriteTo :: "Dissociate \<Rightarrow> bytes" where
  "Dissociate_WriteTo c = CommandHead_WriteTo (di_head c) @ be_bytes 2 (di_ASSOC_ID c)"

definition Dissociate_BytesLen :: "Dissociate \<Rightarrow> nat" where
  "Dissociate_BytesLen c = CommandHead_BytesLen (di_head c) + 4"

record Heartbeat =
  hb_head :: CommandHead

definition NewHeartbeat :: Heartbeat where
  "NewHeartbeat = \<lparr>hb_head = NewCommandHead HeartbeatType\<rparr>"

definition ReadHeartbeatWithHead :: "CommandHead \<Rightarrow> bytes \<Rightarrow> (wire_error, Heartbeat \<times> bytes) result" where
  "ReadHeartbeatWithHead head r =
     (if ch_TYPE head \<noteq> HeartbeatType then Inl (WireCommand (ch_TYPE head)) else Inr (\<lparr>hb_head = head\<rparr>, r))"

definition ReadHeartbeat :: "bytes \<Rightarrow> (wire_error, Heartbeat \<times> bytes) result" where
  "ReadHeartbeat r = result_bind (ReadCommandHead r) (\<lambda>(head, r1). ReadHeartbeatWithHead head r1)"

section \<open>Fragments\<close>

definition MaxFragSize :: int where
  "MaxFragSize = 1200 - int PacketOverHead - 3"

datatype send_error = SendFailed string | SendPanic

text \<open>\<open>rest\<close> is the payload from \<open>off\<close> on.\<close>

function frag_loop ::
  "(nat \<Rightarrow> bytes \<Rightarrow> string option) \<Rightarrow> int \<Rightarrow> Packet \<Rightarrow> 8 word \<Rightarrow> bytes \<Rightarrow> bytes list \<Rightarrow> (send_error, unit) result \<times> bytes list" where
  "frag_loop send fragSize packet fragID rest sent =
     (if rest = [] then (Inr (), sent)
      else
        let payloadSize = (if int (length rest) > fragSize then fragSize else int (length rest)) in
        if payloadSize \<le> 0 then (Inl SendPanic, sent)
        else
          let frag = packet\<lparr>pk_FRAG_ID := fragID, pk_SIZE := of_int payloadSize, pk_DATA := take (nat payloadSize) rest\<rparr>;
              data = Packet_WriteTo frag
          in (case send (length sent) data of
                Some e \<Rightarrow> (Inl (SendFailed e), sent)
              | None \<Rightarrow> frag_loop send fragSize (packet\<lparr>pk_ADDR := (pk_ADDR packet)\<lparr>a_TYPE := tuic_AtypNone\<rparr>\<rparr>) (fragID + 1)
                  (drop (nat payloadSize) rest) (sent @ [data])))"
  by pat_completeness auto
termination
  by (relation "measure (\<lambda>(_, _, _, _, rest, _). length rest)") (auto split: if_splits)

declare frag_loop.simps [simp del]

definition fragWriteNative :: "(nat \<Rightarrow> bytes \<Rightarrow> string option) \<Rightarrow> Packet \<Rightarrow> int \<Rightarrow> (send_error, unit) result \<times> bytes list" where
  "fragWriteNative send packet fragSize =
     (if fragSize = 0 then (Inl SendPanic, [])
      else
        let fragCount = of_int (go_quot (int (length (pk_DATA packet)) + fragSize - 1) fragSize) in
        frag_loop send fragSize (packet\<lparr>pk_FRAG_TOTAL := fragCount\<rparr>) 0 (pk_DATA packet) [])"

record packetBag =
  bag_frags :: "Packet option list"
  bag_count :: "8 word"

record deFragger =
  df_lru :: "(16 word, nat) LruCache option"
  df_bags :: "packetBag list"

definition newPacketBag :: packetBag where
  "newPacketBag = \<lparr>bag_frags = [], bag_count = 0\<rparr>"

definition deFragger_init :: "deFragger \<Rightarrow> (16 word, nat) LruCache" where
  "deFragger_init d = (case df_lru d of None \<Rightarrow> lru_New [WithAge 10, WithUpdateAgeOnGet] | Some c \<Rightarrow> c)"

definition assemble_packet :: "Packet list \<Rightarrow> Packet" where
  "assemble_packet fs =
     (let data = concat (map pk_DATA fs) in
      (hd fs)\<lparr>pk_SIZE := of_nat (length data), pk_DATA := data, pk_FRAG_ID := 0, pk_FRAG_TOTAL := 1\<rparr>)"

definition tuic_Feed :: "clock \<Rightarrow> Packet \<Rightarrow> deFragger \<Rightarrow> (wire_error, Packet option \<times> deFragger) result" where
  "tuic_Feed clock m d =
     (if pk_FRAG_TOTAL m \<le> 1 then Inr (Some m, d)
      else if pk_FRAG_ID m \<ge> pk_FRAG_TOTAL m then Inr (None, d)
      else
        (case GetOrStore clock (pk_PKT_ID m) (length (df_bags d)) (deFragger_init d) of
           ((b, loaded), c) \<Rightarrow>
             let bags = (if loaded then df_bags d else df_bags d @ [newPacketBag]);
                 bag = bags ! b; fid = unat (pk_FRAG_ID m)
             in if unat (pk_FRAG_TOTAL m) \<noteq> length (bag_frags bag)
                then Inr (None, d\<lparr>df_lru := Some c,
                  df_bags := bags[b := \<lparr>bag_frags = (replicate (unat (pk_FRAG_TOTAL m)) None)[fid := Some m], bag_count = 1\<rparr>]\<rparr>)
                else if bag_frags bag ! fid \<noteq> None then Inr (None, d\<lparr>df_lru := Some c, df_bags := bags\<rparr>)
                else
                  let frags = (bag_frags bag)[fid := Some m]; count = bag_count bag + 1 in
                  if unat count \<noteq> length frags
                  then Inr (None, d\<lparr>df_lru := Some c, df_bags := bags[b := \<lparr>bag_frags = frags, bag_count = count\<rparr>]\<rparr>)
                  else (case those frags of
                          None \<Rightarrow> Inl WirePanic
                        | Some fs \<Rightarrow> Inr (Some (assemble_packet fs),
                            d\<lparr>df_lru := Some (lru_Delete (pk_PKT_ID m) c), df_bags := bags[b := \<lparr>bag_frags = [], bag_count = count\<rparr>]\<rparr>))))"

section \<open>Reading packets\<close>

lemma ReadCommandHead_length: "ReadCommandHead r = Inr (c, r') \<Longrightarrow> length r' < length r"
  by (auto simp: ReadCommandHead_def result_bind_Inr_iff dest!: wire_lengths)

lemma read_addr_bytes_length: "read_addr_bytes t r = Inr (a, r') \<Longrightarrow> length r' \<le> length r"
  by (auto simp: read_addr_bytes_def result_bind_Inr_iff Let_def dest!: wire_lengths split: if_splits)

lemma ReadAddress_length: "ReadAddress r = Inr (a, r') \<Longrightarrow> length r' \<le> length r"
  by (auto simp: ReadAddress_def result_bind_Inr_iff dest!: wire_lengths read_addr_bytes_length split: if_splits)

lemma ReadPacketWithHead_length: "ReadPacketWithHead head r = Inr (p, r') \<Longrightarrow> length r' \<le> length r"
  by (auto simp: ReadPacketWithHead_def result_bind_Inr_iff dest!: wire_lengths ReadAddress_length split: if_splits)

lemma ReadPacket_length: "ReadPacket r = Inr (p, r') \<Longrightarrow> length r' < length r"
  by (auto simp: ReadPacket_def result_bind_Inr_iff dest!: ReadCommandHead_length ReadPacketWithHead_length)

text \<open>
  The loop of \<open>ReadFrom\<close> and \<open>WaitReadFrom\<close>: packets are read until one completes a message.  It hands
  over the packet read last, the message, and the rest of the stream.
\<close>

function packet_loop ::
  "(nat \<Rightarrow> clock) \<Rightarrow> nat \<Rightarrow> bytes \<Rightarrow> deFragger \<Rightarrow> (wire_error, Packet \<times> Packet \<times> bytes) result \<times> deFragger" where
  "packet_loop clocks i r d =
     (case ReadPacket r of
        Inl e \<Rightarrow> (Inl e, d)
      | Inr x \<Rightarrow>
          (case tuic_Feed (clocks i) (fst x) d of
             Inl e \<Rightarrow> (Inl e, d)
           | Inr (Some q, d1) \<Rightarrow> (Inr (fst x, q, snd x), d1)
           | Inr (None, d1) \<Rightarrow> packet_loop clocks (Suc i) (snd x) d1))"
  by pat_completeness auto
termination
  by (relation "measure (\<lambda>(_, _, r, _). length r)") (auto dest: ReadPacket_length)

declare packet_loop.simps [simp del]

datatype read_error = NetClosed | ReadFailed wire_error

definition Address_UDPAddr :: "Address \<Rightarrow> bytes \<times> 16 word" where
  "Address_UDPAddr c = (a_ADDR c, a_PORT c)"

definition WaitReadFrom ::
  "(nat \<Rightarrow> clock) \<Rightarrow> bytes option \<Rightarrow> deFragger \<Rightarrow> (read_error, bytes \<times> (bytes \<times> 16 word) \<times> bytes) result \<times> deFragger" where
  "WaitReadFrom clocks inputConn d =
     (case inputConn of
        None \<Rightarrow> (Inl NetClosed, d)
      | Some r \<Rightarrow>
          (case packet_loop clocks 0 r d of
             (Inl e, d1) \<Rightarrow> (Inl (ReadFailed e), d1)
           | (Inr (packet, q, r1), d1) \<Rightarrow> (Inr (pk_DATA q, Address_UDPAddr (pk_ADDR q), r1), d1)))"

text \<open>\<open>ReadFrom\<close> copies into a buffer of length \<open>plen\<close> from the packet read last.\<close>

definition ReadFrom ::
  "(nat \<Rightarrow> clock) \<Rightarrow> nat \<Rightarrow> bytes option \<Rightarrow> deFragger \<Rightarrow> (read_error, bytes \<times> (bytes \<times> 16 word) \<times> bytes) result \<times> deFragger" where
  "ReadFrom clocks plen inputConn d =
     (case inputConn of
        None \<Rightarrow> (Inl NetClosed, d)
      | Some r \<Rightarrow>
          (case packet_loop clocks 0 r d of
             (Inl e, d1) \<Rightarrow> (Inl (ReadFailed e), d1)
           | (Inr (packet, q, r1), d1) \<Rightarrow> (Inr (take plen (pk_DATA packet), Address_UDPAddr (pk_ADDR q), r1), d1)))"

section \<open>Writing and reading back\<close>

text \<open>
  An address that a reader can read: its bytes fit its type, and a domain name is shorter than 255
  bytes.  Of an address of type none only the type travels.
\<close>

definition addr_ok :: "Address \<Rightarrow> bool" where
  "addr_ok a \<longleftrightarrow>
     a_TYPE a = tuic_AtypIPv4 \<and> length (a_ADDR a) = 4 \<or> a_TYPE a = tuic_AtypIPv6 \<and> length (a_ADDR a) = 16 \<or>
     a_TYPE a = tuic_AtypDomainName \<and> (case a_ADDR a of [] \<Rightarrow> False | l # name \<Rightarrow> unat l = length name \<and> length name < 255) \<or>
     a_TYPE a = tuic_AtypNone"

definition wire_addr :: "Address \<Rightarrow> Address" where
  "wire_addr a = (if a_TYPE a = tuic_AtypNone then \<lparr>a_TYPE = tuic_AtypNone, a_ADDR = [], a_PORT = 0\<rparr> else a)"

lemma unat_plus1_byte: "unat (l :: 8 word) < 255 \<Longrightarrow> unat (l + 1) = Suc (unat l)"
  by (simp add: unat_word_ariths)

lemma ReadAddress_WriteTo:
  assumes "addr_ok a"
  shows "ReadAddress (Address_WriteTo a @ r) = Inr (wire_addr a, r)"
proof (cases "a_TYPE a = tuic_AtypDomainName")
  case True
  with assms obtain l name where a: "a_ADDR a = l # name" "unat l = length name" "length name < 255"
    by (auto simp: addr_ok_def tuic_consts split: list.splits)
  then have "unat (l + 1) = Suc (length name)" using unat_plus1_byte [of l] by simp
  with True a show ?thesis
    by (simp add: ReadAddress_def Address_WriteTo_def read_addr_bytes_def wire_addr_def tuic_consts Let_def)
qed (use assms in \<open>auto simp: addr_ok_def ReadAddress_def Address_WriteTo_def read_addr_bytes_def wire_addr_def tuic_consts\<close>)

lemma ReadPacket_WriteTo:
  assumes "ch_TYPE (pk_head p) = PacketType" "addr_ok (pk_ADDR p)" "unat (pk_SIZE p) = length (pk_DATA p)"
  shows "ReadPacket (Packet_WriteTo p @ r) = Inr (p\<lparr>pk_ADDR := wire_addr (pk_ADDR p)\<rparr>, r)"
  using assms
  by (simp add: ReadPacket_def Packet_WriteTo_def CommandHead_WriteTo_def ReadCommandHead_def ReadPacketWithHead_def
      ReadAddress_WriteTo)

lemma commands_read_back:
  "ch_TYPE (au_head a) = AuthenticateType \<Longrightarrow> length (au_UUID a) = 16 \<Longrightarrow> length (au_TOKEN a) = 32 \<Longrightarrow>
     ReadAuthenticate (Authenticate_WriteTo a @ r) = Inr (a, r)"
  "ch_TYPE (co_head c) = ConnectType \<Longrightarrow> addr_ok (co_ADDR c) \<Longrightarrow>
     ReadConnect (Connect_WriteTo c @ r) = Inr (c\<lparr>co_ADDR := wire_addr (co_ADDR c)\<rparr>, r)"
  "ch_TYPE (di_head d) = DissociateType \<Longrightarrow> ReadDissociate (Dissociate_WriteTo d @ r) = Inr (d, r)"
  "ch_TYPE (hb_head h) = HeartbeatType \<Longrightarrow> ReadHeartbeat (CommandHead_WriteTo (hb_head h) @ r) = Inr (h, r)"
  by (simp_all add: ReadAuthenticate_def Authenticate_WriteTo_def ReadAuthenticateWithHead_def CommandHead_WriteTo_def
      ReadCommandHead_def ReadConnect_def Connect_WriteTo_def ReadConnectWithHead_def ReadAddress_WriteTo
      ReadDissociate_def Dissociate_WriteTo_def ReadDissociateWithHead_def ReadHeartbeat_def ReadHeartbeatWithHead_def)

section \<open>The datagrams of a packet\<close>

text \<open>The fragment with number \<open>j\<close>: only the first one carries the address.\<close>

definition fragment :: "Packet \<Rightarrow> nat \<Rightarrow> bytes \<Rightarrow> Packet" where
  "fragment p j c =
     p\<lparr>pk_FRAG_ID := of_nat j, pk_SIZE := of_nat (length c), pk_DATA := c,
       pk_ADDR := (if j = 0 then pk_ADDR p else (pk_ADDR p)\<lparr>a_TYPE := tuic_AtypNone\<rparr>)\<rparr>"

lemma frag_loop_sent:
  assumes "0 < fragSize" "j = 0 \<or> a_TYPE (pk_ADDR p) = tuic_AtypNone"
  shows "frag_loop (\<lambda>_ _. None) fragSize p (of_nat j) rest sent =
    (Inr (), sent @ map (\<lambda>(i, c). Packet_WriteTo (fragment p i c)) (enumerate j (chunks (nat fragSize) rest)))"
  using assms(2)
proof (induction "length rest" arbitrary: rest j p sent rule: less_induct)
  case less
  show ?case
  proof (cases "rest = []")
    case True
    then show ?thesis by (simp add: frag_loop.simps [of _ _ _ _ "[]"] chunks.simps)
  next
    case False
    let ?n = "if int (length rest) > fragSize then fragSize else int (length rest)"
    let ?p = "p\<lparr>pk_ADDR := (pk_ADDR p)\<lparr>a_TYPE := tuic_AtypNone\<rparr>\<rparr>"
    have n: "0 < ?n" "take (nat ?n) rest = take (nat fragSize) rest" "drop (nat ?n) rest = drop (nat fragSize) rest"
      "int (length (take (nat fragSize) rest)) = ?n" using False assms(1) by auto
    have here: "p\<lparr>pk_FRAG_ID := of_nat j, pk_SIZE := of_int ?n, pk_DATA := take (nat ?n) rest\<rparr> =
        fragment p j (take (nat fragSize) rest)"
      using less(2) n(2) unfolding n(4) [symmetric] by (auto simp: fragment_def)
    have later: "fragment ?p i c = fragment p i c" if "Suc j \<le> i" for i c using that by (simp add: fragment_def)
    have "frag_loop (\<lambda>_ _. None) fragSize p (of_nat j) rest sent =
        frag_loop (\<lambda>_ _. None) fragSize ?p (of_nat (Suc j)) (drop (nat fragSize) rest)
          (sent @ [Packet_WriteTo (fragment p j (take (nat fragSize) rest))])"
      using False n(1) here n(3) by (subst frag_loop.simps) (simp add: Let_def add.commute)
    also have "\<dots> = (Inr (), sent @ [Packet_WriteTo (fragment p j (take (nat fragSize) rest))] @
        map (\<lambda>(i, c). Packet_WriteTo (fragment ?p i c)) (enumerate (Suc j) (chunks (nat fragSize) (drop (nat fragSize) rest))))"
      using less(1) [of "drop (nat fragSize) rest" "Suc j" ?p] False assms(1) by simp
    also have "map (\<lambda>(i, c). Packet_WriteTo (fragment ?p i c)) (enumerate (Suc j) cs) =
        map (\<lambda>(i, c). Packet_WriteTo (fragment p i c)) (enumerate (Suc j) cs)" for cs
      by (rule map_cong) (use later in \<open>auto simp: in_set_enumerate_eq\<close>)
    finally show ?thesis using False assms(1) by (subst chunks.simps) simp
  qed
qed

section \<open>Reassembly\<close>

text \<open>
  The cache of bags drops an entry ten seconds after its last use.  \<open>steady t clocks\<close>: all readings of
  the clock while the packet travels lie within ten seconds from \<open>t\<close> on.
\<close>

definition steady :: "int \<Rightarrow> (nat \<Rightarrow> clock) \<Rightarrow> bool" where
  "steady t clocks \<longleftrightarrow> (\<forall>i k. t \<le> clocks i k \<and> clocks i k < t + 10)"

definition bag_config :: lru_config where
  "bag_config = \<lparr>g_maxAge = 10, g_maxSize = 0, g_update = True, g_stale = False\<rparr>"

definition tuic_idle :: "16 word \<Rightarrow> deFragger \<Rightarrow> bool" where
  "tuic_idle pid d \<longleftrightarrow>
     df_lru d = None \<or> (\<exists>c es. df_lru d = Some c \<and> represents c bag_config es \<and> lookup pid es = None)"

definition tuic_collected :: "int \<Rightarrow> 16 word \<Rightarrow> Packet option list \<Rightarrow> deFragger \<Rightarrow> bool" where
  "tuic_collected t pid fs d \<longleftrightarrow> 2 \<le> length fs \<and>
     (\<exists>c es e. df_lru d = Some c \<and> represents c bag_config es \<and> lookup pid es = Some e \<and> t + 10 \<le> e_expires e \<and>
        e_value e < length (df_bags d) \<and> df_bags d ! e_value e = \<lparr>bag_frags = fs, bag_count = of_nat (present fs)\<rparr>)"

definition tuic_belongs :: "16 word \<Rightarrow> nat \<Rightarrow> Packet \<Rightarrow> bool" where
  "tuic_belongs pid n m \<longleftrightarrow> pk_PKT_ID m = pid \<and> unat (pk_FRAG_TOTAL m) = n \<and> unat (pk_FRAG_ID m) < n"

lemma init_represents:
  assumes "tuic_idle pid d"
  shows "\<exists>es. represents (deFragger_init d) bag_config es \<and> lookup pid es = None"
proof (cases "df_lru d")
  case None
  have "config_of (lru_New [WithAge 10, WithUpdateAgeOnGet] :: (16 word, nat) LruCache) = bag_config"
    by (simp add: config_of_def lru_New_def lru_Clear_def bag_config_def)
  with New_represents [of "[WithAge 10, WithUpdateAgeOnGet]", where 'k = "16 word" and 'v = nat] None
  show ?thesis by (intro exI [of _ "[]"]) (simp add: deFragger_init_def)
qed (use assms in \<open>auto simp: tuic_idle_def deFragger_init_def\<close>)

lemma lookup_dropWhile_last:
  "lookup k xs = None \<Longrightarrow> e_key e = k \<Longrightarrow> \<not> P e \<Longrightarrow> lookup k (dropWhile P (xs @ [e])) = Some e"
proof (induction xs)
  case (Cons x xs)
  then have "e_key x \<noteq> k" "lookup k xs = None" by (auto split: if_splits)
  moreover from this Cons.prems(2) have "lookup k (xs @ [e]) = Some e"
    using find_split [of k xs e "[]"] by (simp add: lookup_None)
  ultimately show ?case using Cons by simp
qed simp

lemma store_bag:
  assumes "represents c bag_config es" "lookup pid es = None" "t \<le> clock 2" "clock 3 < t + 10"
  shows "\<exists>c' es' e. GetOrStore clock pid b c = ((b, False), c') \<and> represents c' bag_config es' \<and>
    lookup pid es' = Some e \<and> t + 10 \<le> e_expires e \<and> e_value e = b"
proof -
  let ?e = "\<lparr>e_key = pid, e_value = b, e_expires = clock 2 + 10\<rparr>"
  have get: "fst (lru_get clock pid c) = None" "represents (snd (lru_get clock pid c)) bag_config es"
    using get_represents [OF assms(1), of clock pid] assms(2) by (simp_all add: spec_get_def)
  then have r: "represents (lru_set (later 2 clock) pid b (snd (lru_get clock pid c))) bag_config (spec_set bag_config (later 2 clock) pid b es)"
    by (intro set_represents)
  have "without pid es = es" using assms(2) by (simp add: lookup_None filter_other)
  then have "spec_set bag_config (later 2 clock) pid b es = dropWhile (\<lambda>e. e_expires e \<le> clock 3) (es @ [?e])"
    by (simp add: spec_set_def spec_setWithExpire_def bag_config_def spec_expire_def expiring_def later_def numeral_3_eq_3 Let_def)
  moreover have "lookup pid (dropWhile (\<lambda>e. e_expires e \<le> clock 3) (es @ [?e])) = Some ?e"
    using assms by (intro lookup_dropWhile_last) auto
  ultimately show ?thesis
    using r get(1) assms(3) by (auto simp: GetOrStore_def split: prod.split intro!: exI)
qed

lemma find_bag:
  assumes "represents c bag_config es" "lookup pid es = Some e" "t + 10 \<le> e_expires e" "clock 0 < t + 10" "t \<le> clock 1"
  shows "\<exists>c' es' e'. GetOrStore clock pid b c = ((e_value e, True), c') \<and> represents c' bag_config es' \<and>
    lookup pid es' = Some e' \<and> t + 10 \<le> e_expires e' \<and> e_value e' = e_value e"
proof -
  let ?e = "e\<lparr>e_expires := clock 1 + 10\<rparr>"
  have "spec_get bag_config clock pid es = (Some ?e, without pid es @ [?e])"
    using assms(2-4) by (simp add: spec_get_def bag_config_def expiring_def Let_def)
  then have get: "fst (lru_get clock pid c) = Some ?e" "represents (snd (lru_get clock pid c)) bag_config (without pid es @ [?e])"
    using get_represents [OF assms(1), of clock pid] by simp_all
  have key: "e_key e = pid" using assms(2) by (auto simp: find_Some_iff)
  have "lookup pid (without pid es @ [?e]) = Some ?e"
    using key by (intro find_split [of pid "without pid es" ?e "[]"]) auto
  then show ?thesis using get assms(5) by (auto simp: GetOrStore_def split: prod.split intro!: exI)
qed

lemma tuic_first:
  assumes "steady t clocks" "tuic_idle pid d" "tuic_belongs pid n m" "2 \<le> n"
  shows "\<exists>d'. tuic_Feed (clocks i) m d = Inr (None, d') \<and>
    tuic_collected t pid ((replicate n None)[unat (pk_FRAG_ID m) := Some m]) d'"
proof -
  note m = assms(3) [unfolded tuic_belongs_def]
  obtain es where es: "represents (deFragger_init d) bag_config es" "lookup pid es = None"
    using init_represents [OF assms(2)] by blast
  obtain c' es' e where c': "GetOrStore (clocks i) pid (length (df_bags d)) (deFragger_init d) = ((length (df_bags d), False), c')"
    "represents c' bag_config es'" "lookup pid es' = Some e" "t + 10 \<le> e_expires e" "e_value e = length (df_bags d)"
    using store_bag [OF es, of t "clocks i" "length (df_bags d)"] assms(1) by (auto simp: steady_def)
  have frag: "\<not> pk_FRAG_TOTAL m \<le> 1" "\<not> pk_FRAG_TOTAL m \<le> pk_FRAG_ID m"
    using m assms(4) by (auto simp: word_le_nat_alt)
  have "present ((replicate n None)[unat (pk_FRAG_ID m) := Some m]) = 1"
    using m present_update [of "unat (pk_FRAG_ID m)" "replicate n None" m] by (simp add: present_def)
  moreover have "tuic_Feed (clocks i) m d = Inr (None, d\<lparr>df_lru := Some c', df_bags := df_bags d @
      [\<lparr>bag_frags = (replicate n None)[unat (pk_FRAG_ID m) := Some m], bag_count = 1\<rparr>]\<rparr>)"
    using m c'(1) frag assms(4) by (simp add: tuic_Feed_def Let_def newPacketBag_def)
  ultimately show ?thesis
    using c' assms(4) unfolding tuic_collected_def
    by (intro exI conjI) (assumption | simp add: nth_append)+
qed

lemma tuic_more:
  assumes "steady t clocks" "tuic_collected t pid fs d" "tuic_belongs pid (length fs) m" "fs ! unat (pk_FRAG_ID m) = None"
    and fs': "fs' = fs[unat (pk_FRAG_ID m) := Some m]"
  shows "if None \<in> set fs' then \<exists>d'. tuic_Feed (clocks i) m d = Inr (None, d') \<and> tuic_collected t pid fs' d'
    else \<exists>d'. tuic_Feed (clocks i) m d = Inr (Some (assemble_packet (map the fs')), d')"
proof -
  note m = assms(3) [unfolded tuic_belongs_def]
  obtain c es e where d: "df_lru d = Some c" "represents c bag_config es" "lookup pid es = Some e" "t + 10 \<le> e_expires e"
    "e_value e < length (df_bags d)" "df_bags d ! e_value e = \<lparr>bag_frags = fs, bag_count = of_nat (present fs)\<rparr>"
    using assms(2) unfolding tuic_collected_def by blast
  obtain c' es' e' where c': "GetOrStore (clocks i) pid (length (df_bags d)) (deFragger_init d) = ((e_value e, True), c')"
    "represents c' bag_config es'" "lookup pid es' = Some e'" "t + 10 \<le> e_expires e'" "e_value e' = e_value e"
    using find_bag [OF d(2-4), of "clocks i" "length (df_bags d)"] assms(1) d(1) by (auto simp: steady_def deFragger_init_def)
  have new: "present fs' = Suc (present fs)" "length fs' = length fs"
    using present_update [of "unat (pk_FRAG_ID m)" fs m] m assms(4) fs' by simp_all
  have "present fs' \<le> length fs'" by (simp add: present_def)
  then have "present fs' < 256" using new m unat_less_power [of "pk_FRAG_TOTAL m"] by simp
  then have count: "unat (of_nat (present fs) + 1 :: 8 word) = present fs'" "of_nat (present fs) + 1 = (of_nat (present fs') :: 8 word)"
    using new(1) by (simp_all add: unat_word_ariths unat_of_nat take_bit_nat_eq_self)
  have frag: "\<not> pk_FRAG_TOTAL m \<le> 1" "\<not> pk_FRAG_TOTAL m \<le> pk_FRAG_ID m"
    using m assms(2) by (auto simp: word_le_nat_alt tuic_collected_def)
  let ?d = "d\<lparr>df_lru := Some c', df_bags := (df_bags d)[e_value e := \<lparr>bag_frags = fs', bag_count = of_nat (present fs')\<rparr>]\<rparr>"
  have feed: "tuic_Feed (clocks i) m d =
      (if present fs' \<noteq> length fs' then Inr (None, ?d)
       else (case those fs' of None \<Rightarrow> Inl WirePanic | Some qs \<Rightarrow> Inr (Some (assemble_packet qs),
         d\<lparr>df_lru := Some (lru_Delete pid c'), df_bags := (df_bags d)[e_value e := \<lparr>bag_frags = [], bag_count = of_nat (present fs')\<rparr>]\<rparr>)))"
    using m c'(1) frag d(6) assms(4) count fs' by (simp add: tuic_Feed_def Let_def split: option.split)
  show ?thesis
  proof (cases "None \<in> set fs'")
    case True
    then have "tuic_Feed (clocks i) m d = Inr (None, ?d)" using feed present_full [of fs'] by simp
    moreover have "tuic_collected t pid fs' ?d"
      unfolding tuic_collected_def using c'(2-5) d(5) assms(2) new(2)
      by (intro conjI exI [of _ c'] exI [of _ es'] exI [of _ e']) (simp_all add: tuic_collected_def)
    ultimately show ?thesis using True by auto
  next
    case False
    then show ?thesis using feed present_full [of fs'] those_full [of fs'] by simp
  qed
qed

text \<open>The clock is part of what the interface is interpreted on.\<close>

interpretation tuic: reassembler "\<lambda>i. tuic_Feed (clocks i)" "\<lambda>d. steady t clocks \<and> tuic_idle pid d"
  "\<lambda>fs d. steady t clocks \<and> tuic_collected t pid fs d" "\<lambda>m. unat (pk_FRAG_ID m)" "tuic_belongs pid" "\<lambda>ms _. assemble_packet ms"
proof
  show "tuic_belongs pid n m \<Longrightarrow> unat (pk_FRAG_ID m) < n" for n m by (simp add: tuic_belongs_def)
  show "steady t clocks \<and> tuic_idle pid d \<Longrightarrow> tuic_belongs pid n m \<Longrightarrow> 2 \<le> n \<Longrightarrow>
      \<exists>d'. tuic_Feed (clocks i) m d = Inr (None, d') \<and> steady t clocks \<and>
        tuic_collected t pid ((replicate n None)[unat (pk_FRAG_ID m) := Some m]) d'" for n m d i
    using tuic_first by blast
qed (use tuic_more in \<open>metis\<close>)+

text \<open>
  \<open>BytesLen\<close> of a packet is two bytes less than what \<open>WriteTo\<close> writes: it counts four bytes where the two
  numbers, the fragment count and the fragment number take six.  A full fragment to an IPv6 address is
  therefore two bytes longer than the 1197 bytes \<open>MaxFragSize\<close> is meant to leave.
\<close>

lemma Packet_BytesLen_short:
  assumes "a_TYPE (pk_ADDR p) \<noteq> tuic_AtypNone"
  shows "length (Packet_WriteTo p) = Packet_BytesLen p + 2"
  using assms by (simp add: Packet_WriteTo_def Packet_BytesLen_def CommandHead_WriteTo_def CommandHead_BytesLen_def
      Address_WriteTo_def Address_BytesLen_def length_be_bytes)

lemma full_fragment_too_long:
  assumes "a_TYPE (pk_ADDR p) = tuic_AtypIPv6" "length (a_ADDR (pk_ADDR p)) = 16" "int (length (pk_DATA p)) = MaxFragSize"
  shows "length (Packet_WriteTo p) = 1199"
proof -
  have "length (Packet_WriteTo p) = Packet_BytesLen p + 2" by (rule Packet_BytesLen_short) (simp add: assms(1) tuic_consts)
  moreover have "int (Packet_BytesLen p) = 1197"
    using assms(2,3) by (simp add: Packet_BytesLen_def CommandHead_BytesLen_def Address_BytesLen_def MaxFragSize_def PacketOverHead_def
        NewPacket_def NewCommandHead_def NewAddressAddrPort_def)
  ultimately show ?thesis by linarith
qed

section \<open>From sender to receiver\<close>

lemma loop_feeds:
  assumes "\<And>x r. x \<in> set xs \<Longrightarrow> ReadPacket (enc x @ r) = Inr (got x, r)"
    and "feed_all (\<lambda>i. tuic_Feed (clocks i)) i (map got xs) d = Inr (replicate (length xs - 1) None @ [Some q], d')" "xs \<noteq> []"
  shows "packet_loop clocks i (concat (map enc xs) @ r) d = (Inr (got (last xs), q, r), d')"
  using assms
proof (induction xs arbitrary: i d)
  case (Cons x xs)
  show ?case
  proof (cases "xs = []")
    case True
    with Cons.prems show ?thesis by (subst packet_loop.simps) (auto simp: result_bind_Inr_iff)
  next
    case False
    then obtain l where l: "length (x # xs) - 1 = Suc l" "length xs - 1 = l" by (cases xs) auto
    from Cons.prems(2) obtain d1 where d1: "tuic_Feed (clocks i) (got x) d = Inr (None, d1)"
      "feed_all (\<lambda>i. tuic_Feed (clocks i)) (Suc i) (map got xs) d1 = Inr (replicate (length xs - 1) None @ [Some q], d')"
      unfolding l by (auto simp: result_bind_Inr_iff)
    with Cons.IH [OF _ d1(2) False] Cons.prems(1) False show ?thesis by (subst packet_loop.simps) simp
  qed
qed simp

text \<open>What arrives of fragment \<open>j\<close>.\<close>

definition received :: "Packet \<Rightarrow> nat \<Rightarrow> bytes \<Rightarrow> Packet" where
  "received p j c = (fragment p j c)\<lparr>pk_ADDR := wire_addr (pk_ADDR (fragment p j c))\<rparr>"

definition sent_packet :: "Packet \<Rightarrow> nat \<Rightarrow> Packet" where
  "sent_packet p k = p\<lparr>pk_FRAG_TOTAL := of_nat (length (chunks k (pk_DATA p)))\<rparr>"

lemma received_read:
  assumes "ch_TYPE (pk_head p) = PacketType" "addr_ok (pk_ADDR p)" "length c \<le> 65535"
  shows "ReadPacket (Packet_WriteTo (fragment p i c) @ r) = Inr (received p i c, r)"
  unfolding received_def
proof (rule ReadPacket_WriteTo)
  show "addr_ok (pk_ADDR (fragment p i c))" using assms(2) by (simp add: fragment_def addr_ok_def)
  show "unat (pk_SIZE (fragment p i c)) = length (pk_DATA (fragment p i c))"
    using assms(3) by (simp add: fragment_def unat_of_nat take_bit_nat_eq_self)
qed (use assms(1) in \<open>simp add: fragment_def\<close>)

lemma fragWriteNative_sent:
  assumes "0 < fragSize"
  shows "fragWriteNative (\<lambda>_ _. None) p fragSize =
    (Inr (), map (\<lambda>(i, c). Packet_WriteTo (fragment (sent_packet p (nat fragSize)) i c)) (enumerate 0 (chunks (nat fragSize) (pk_DATA p))))"
proof -
  have "go_quot (int (length (pk_DATA p)) + fragSize - 1) fragSize = (int (length (pk_DATA p)) + fragSize - 1) div fragSize"
    using assms by (simp add: go_quot_def)
  also have "\<dots> = int ((length (pk_DATA p) + nat fragSize - 1) div nat fragSize)"
    using assms by (simp add: zdiv_int of_nat_diff)
  finally have "of_int (go_quot (int (length (pk_DATA p)) + fragSize - 1) fragSize) = (of_nat (length (chunks (nat fragSize) (pk_DATA p))) :: 8 word)"
    using assms by (simp add: length_chunks)
  then show ?thesis
    using assms frag_loop_sent [OF assms, of 0 "sent_packet p (nat fragSize)" "pk_DATA p" "[]"]
    by (simp add: fragWriteNative_def sent_packet_def)
qed

lemma fragments_reassemble:
  assumes k: "0 < k" and p: "pk_FRAG_TOTAL p = 1" "pk_FRAG_ID p = 0" "pk_SIZE p = of_nat (length (pk_DATA p))"
    and addr: "a_TYPE (pk_ADDR p) \<noteq> tuic_AtypNone" and cs: "chunks k (pk_DATA p) \<noteq> []"
  shows "assemble_packet (map (\<lambda>(i, c). received (sent_packet p k) i c) (enumerate 0 (chunks k (pk_DATA p)))) = p"
proof -
  obtain c cs where c: "chunks k (pk_DATA p) = c # cs" using cs by (cases "chunks k (pk_DATA p)") auto
  have "pk_DATA \<circ> (\<lambda>(i, c). received (sent_packet p k) i c) = snd" by (auto simp: received_def fragment_def)
  then have "concat (map pk_DATA (map (\<lambda>(i, c). received (sent_packet p k) i c) (enumerate 0 (chunks k (pk_DATA p))))) = pk_DATA p"
    using concat_chunks [OF k, of "pk_DATA p"] by (simp add: enumerate_eq_zip)
  then show ?thesis
    using c p addr by (simp add: assemble_packet_def Let_def received_def fragment_def sent_packet_def wire_addr_def)
qed

section \<open>Properties\<close>

text \<open>
  C39.  A UDP packet survives fragmentation.  A packet of at most 65535 bytes that \<open>fragWriteNative\<close>
  splits into two to 255 datagrams is received whole, whatever the order of the datagrams: on the
  stream of the datagrams \<open>WaitReadFrom\<close> answers with the payload and the address of the packet,
  provided the receiver holds no older fragments of the same packet number and the datagrams arrive
  within ten seconds.  \<open>ReadFrom\<close> consumes the same datagrams but copies the payload of the one that
  came last.
\<close>

theorem tuic_packet_survives_fragmentation:
  assumes p: "p = NewPacket assoc pid 1 0 (of_nat (length data)) addr data" and data: "length data \<le> 65535"
    and addr: "addr_ok addr" "a_TYPE addr \<noteq> tuic_AtypNone"
    and frag: "0 < fragSize" "fragSize < int (length data)" "int (length data) \<le> 255 * fragSize"
    and sent: "fragWriteNative (\<lambda>_ _. None) p fragSize = (r, datagrams)" and order: "mset order = mset datagrams"
    and recv: "tuic_idle pid d" "steady t clocks"
  shows "r = Inr () \<and> (\<exists>d' last_frag. last order = Packet_WriteTo last_frag \<and>
    WaitReadFrom clocks (Some (concat order @ rest)) d = (Inr (data, Address_UDPAddr addr, rest), d') \<and>
    ReadFrom clocks plen (Some (concat order @ rest)) d = (Inr (take plen (pk_DATA last_frag), Address_UDPAddr addr, rest), d'))"
proof -
  let ?k = "nat fragSize" and ?q = "sent_packet p (nat fragSize)"
  let ?cs = "chunks ?k data"
  let ?ms = "map (\<lambda>(i, c). received ?q i c) (enumerate 0 ?cs)"
  have pd: "pk_DATA p = data" "pk_ADDR p = addr" "ch_TYPE (pk_head p) = PacketType" "pk_PKT_ID p = pid"
    by (simp_all add: p NewPacket_def NewCommandHead_def)
  have k: "0 < ?k" using frag(1) by simp
  have n: "2 \<le> length ?cs" "length ?cs \<le> 255" using chunk_count [OF frag] by blast+
  have r: "r = Inr ()" and dg: "datagrams = map (\<lambda>(i, c). Packet_WriteTo (fragment ?q i c)) (enumerate 0 ?cs)"
    using sent fragWriteNative_sent [OF frag(1), of p] pd(1) by simp_all
  obtain ics where ics: "mset ics = mset (enumerate 0 ?cs)" "map (\<lambda>(i, c). Packet_WriteTo (fragment ?q i c)) ics = order"
    using mset_map_inv [of order "\<lambda>(i, c). Packet_WriteTo (fragment ?q i c)" "enumerate 0 ?cs"] order dg by auto
  let ?os = "map (\<lambda>(i, c). received ?q i c) ics"
  have frag_of: "i < length ?cs" "length c \<le> 65535" if "(i, c) \<in> set ics" for i c
  proof -
    have "(i, c) \<in> set (enumerate 0 ?cs)" using that ics(1) by (metis set_mset_mset)
    then show "i < length ?cs" "length c \<le> 65535"
      using chunk_size [of c ?k data] data by (auto simp: in_set_enumerate_eq)
  qed
  have read: "ReadPacket (Packet_WriteTo (fragment ?q i c) @ r) = Inr (received ?q i c, r)" if "(i, c) \<in> set ics" for i c r
    using frag_of [OF that] addr(1) pd by (intro received_read) (simp_all add: sent_packet_def)
  have belongs: "tuic_belongs pid (length ?ms) (?ms ! j) \<and> unat (pk_FRAG_ID (?ms ! j)) = j" if "j < length ?ms" for j
    using that n(2) pd by (simp add: nth_enumerate_eq tuic_belongs_def received_def fragment_def sent_packet_def unat_of_nat take_bit_nat_eq_self)
  have "mset ?os = mset ?ms" unfolding mset_map ics(1) ..
  with tuic.feed_any_order [of ?ms pid t clocks d ?os 0] belongs n(1) recv obtain d' where
    "feed_all (\<lambda>i. tuic_Feed (clocks i)) 0 ?os d = Inr (replicate (length ?ms - 1) None @ [Some (assemble_packet ?ms)], d')" by auto
  moreover have len: "length ics = length ?cs" using ics(1) by (metis length_enumerate mset_eq_length)
  moreover have "?cs \<noteq> []" using n(1) by auto
  then have "assemble_packet ?ms = p"
    using fragments_reassemble [OF k, of p] addr(2) by (simp add: p NewPacket_def)
  ultimately have "packet_loop clocks 0 (concat order @ rest) d = (Inr ((\<lambda>(i, c). received ?q i c) (last ics), p, rest), d')"
    using n(1) unfolding ics(2) [symmetric] by (intro loop_feeds) (auto simp: read)
  moreover have "ics \<noteq> []" using len n(1) by auto
  then have "last order = Packet_WriteTo (fragment ?q (fst (last ics)) (snd (last ics)))"
    unfolding ics(2) [symmetric] by (simp add: last_map case_prod_beta)
  ultimately show ?thesis
    using r pd by (auto simp: WaitReadFrom_def ReadFrom_def case_prod_beta received_def)
qed

theorem tuic_packet_survives_fragmentation_witness:
  "\<exists>a b d'. fragWriteNative (\<lambda>_ _. None) (NewPacket 7 9 1 0 3 (NewAddressAddrPort (V4 1) 53) [10, 20, 30]) 2 = (Inr (), [a, b]) \<and>
     WaitReadFrom (\<lambda>_ _. 100) (Some (concat [b, a])) \<lparr>df_lru = None, df_bags = []\<rparr> = (Inr ([10, 20, 30], ([0, 0, 0, 1], 53), []), d')"
proof -
  let ?addr = "NewAddressAddrPort (V4 1) 53" and ?d = "\<lparr>df_lru = None, df_bags = []\<rparr> :: deFragger"
  let ?p = "NewPacket 7 9 1 0 3 ?addr [10, 20, 30]"
  have addr: "addr_ok ?addr" "a_TYPE ?addr \<noteq> tuic_AtypNone" "Address_UDPAddr ?addr = ([0, 0, 0, 1], 53)" by code_simp+
  have idle: "tuic_idle 9 ?d" "steady 100 (\<lambda>_ _. 100)" by (simp_all add: tuic_idle_def steady_def)
  have three: "?p = NewPacket 7 9 1 0 (of_nat (length [10, 20, 30 :: 8 word])) ?addr [10, 20, 30]" by simp
  obtain a b where ab: "fragWriteNative (\<lambda>_ _. None) ?p 2 = (Inr (), [a, b])"
    using fragWriteNative_sent [of 2 ?p] by (simp add: NewPacket_def chunks.simps)
  obtain d' where "WaitReadFrom (\<lambda>_ _. 100) (Some (concat [b, a] @ [])) ?d = (Inr ([10, 20, 30], Address_UDPAddr ?addr, []), d')"
    using tuic_packet_survives_fragmentation [OF three _ addr(1,2) _ _ _ ab _ idle, of "[b, a]" "[]" 0] by auto
  with ab addr(3) show ?thesis by auto
qed

end
