(* ===== verification/Hysteria.thy ===== *)
theory Hysteria
  imports Wire
begin

text \<open>
  \<open>transport/hysteria/core\<close>: the messages of the control stream and of the UDP relay (\<open>protocol.go\<close>) and
  the splitting of a UDP message into fragments with its reassembly (\<open>frag.go\<close>).  Writing to a stream
  or a buffer is the bytes it adds; an index or slice out of range is \<open>WirePanic\<close>.
\<close>

section \<open>The control stream\<close>

definition protocolVersion :: "8 word" where "protocolVersion = 3"

record ClientHello =
  ch_SendBPS :: "64 word"
  ch_RecvBPS :: "64 word"
  ch_Auth :: bytes

definition WriteClientHello :: "ClientHello \<Rightarrow> bytes" where
  "WriteClientHello h =
     protocolVersion # be_bytes 8 (ch_SendBPS h) @ be_bytes 8 (ch_RecvBPS h) @
     be_bytes 2 (of_nat (length (ch_Auth h)) :: 16 word) @ ch_Auth h"

definition ReadClientHello :: "bytes \<Rightarrow> (wire_error, ClientHello \<times> bytes) result" where
  "ReadClientHello r =
     result_bind (ReadFull 19 r) (\<lambda>(response, r1).
       if response ! 0 \<noteq> protocolVersion then Inl WireVersion
       else
         let send = from_bytes (take 8 (drop 1 response)); recv = from_bytes (take 8 (drop 9 response));
             authLen = (from_bytes (take 2 (drop 17 response)) :: 16 word)
         in if send = 0 \<or> recv = 0 then Inl WireRate
            else result_bind (ReadFull (unat authLen) r1) (\<lambda>(auth, r2).
              Inr (\<lparr>ch_SendBPS = send, ch_RecvBPS = recv, ch_Auth = auth\<rparr>, r2)))"

record ServerHello =
  sh_OK :: bool
  sh_SendBPS :: "64 word"
  sh_RecvBPS :: "64 word"
  sh_Message :: string

definition ReadServerHello :: "bytes \<Rightarrow> (wire_error, ServerHello \<times> bytes) result" where
  "ReadServerHello r =
     result_bind (ReadFull 19 r) (\<lambda>(response, r1).
       let h = \<lparr>sh_OK = (response ! 0 = 1), sh_SendBPS = from_bytes (take 8 (drop 1 response)),
                 sh_RecvBPS = from_bytes (take 8 (drop 9 response)), sh_Message = []\<rparr>;
           messageLen = (from_bytes (take 2 (drop 17 response)) :: 16 word)
       in if messageLen = 0 then Inr (h, r1)
          else result_bind (ReadFull (unat messageLen) r1) (\<lambda>(message, r2). Inr (h\<lparr>sh_Message := bytes_string message\<rparr>, r2)))"

definition WriteServerHello :: "ServerHello \<Rightarrow> bytes" where
  "WriteServerHello h =
     (if sh_OK h then 1 else 0) # be_bytes 8 (sh_SendBPS h) @ be_bytes 8 (sh_RecvBPS h) @
     be_bytes 2 (of_nat (length (sh_Message h)) :: 16 word) @ string_bytes (sh_Message h)"

record ClientRequest =
  cr_UDP :: bool
  cr_Host :: string
  cr_Port :: "16 word"

definition ReadClientRequest :: "bytes \<Rightarrow> (wire_error, ClientRequest \<times> bytes) result" where
  "ReadClientRequest r =
     result_bind (ReadFull 1 r) (\<lambda>(udp, r1).
     result_bind (read_be 2 r1) (\<lambda>(hostLen :: 16 word, r2).
     result_bind (ReadFull (unat hostLen) r2) (\<lambda>(host, r3).
     result_bind (read_be 2 r3) (\<lambda>(port, r4).
       Inr (\<lparr>cr_UDP = (udp ! 0 \<noteq> 0), cr_Host = bytes_string host, cr_Port = port\<rparr>, r4)))))"

definition WriteClientRequest :: "ClientRequest \<Rightarrow> bytes" where
  "WriteClientRequest q =
     (if cr_UDP q then 1 else 0) # be_bytes 2 (of_nat (length (cr_Host q)) :: 16 word) @ string_bytes (cr_Host q) @
     be_bytes 2 (cr_Port q)"

record ServerResponse =
  sr_OK :: bool
  sr_UDPSessionID :: "32 word"
  sr_Message :: string

definition ReadServerResponse :: "bytes \<Rightarrow> (wire_error, ServerResponse \<times> bytes) result" where
  "ReadServerResponse r =
     result_bind (ReadFull 7 r) (\<lambda>(response, r1).
       let h = \<lparr>sr_OK = (response ! 0 = 1), sr_UDPSessionID = from_bytes (take 4 (drop 1 response)), sr_Message = []\<rparr>;
           messageLen = (from_bytes (take 2 (drop 5 response)) :: 16 word)
       in if messageLen = 0 then Inr (h, r1)
          else result_bind (ReadFull (unat messageLen) r1) (\<lambda>(message, r2). Inr (h\<lparr>sr_Message := bytes_string message\<rparr>, r2)))"

definition WriteServerResponse :: "ServerResponse \<Rightarrow> bytes" where
  "WriteServerResponse h =
     (if sr_OK h then 1 else 0) # be_bytes 4 (sr_UDPSessionID h) @
     be_bytes 2 (of_nat (length (sr_Message h)) :: 16 word) @ string_bytes (sr_Message h)"

section \<open>UDP messages\<close>

record udpMessage =
  um_SessionID :: "32 word"
  um_Host :: string
  um_Port :: "16 word"
  um_MsgID :: "16 word"
  um_FragID :: "8 word"
  um_FragCount :: "8 word"
  um_Data :: bytes

definition HeaderSize :: "udpMessage \<Rightarrow> nat" where
  "HeaderSize m = 4 + 2 + length (um_Host m) + 2 + 2 + 1 + 1 + 2"

definition udp_Size :: "udpMessage \<Rightarrow> nat" where
  "udp_Size m = HeaderSize m + length (um_Data m)"

text \<open>
  \<open>Pack\<close> starts from a buffer that already holds \<open>Size\<close> zero bytes, as \<open>bytes.NewBuffer\<close> keeps the
  contents of its argument, and appends to it.
\<close>

definition message_bytes :: "udpMessage \<Rightarrow> bytes" where
  "message_bytes m =
     be_bytes 4 (um_SessionID m) @ be_bytes 2 (of_nat (length (um_Host m)) :: 16 word) @ string_bytes (um_Host m) @
     be_bytes 2 (um_Port m) @ be_bytes 2 (um_MsgID m) @ be_bytes 1 (um_FragID m) @ be_bytes 1 (um_FragCount m) @
     be_bytes 2 (of_nat (length (um_Data m)) :: 16 word) @ um_Data m"

definition Pack :: "udpMessage \<Rightarrow> bytes" where
  "Pack m = replicate (udp_Size m) 0 @ message_bytes m"

definition Unpack :: "bytes \<Rightarrow> (wire_error, udpMessage) result" where
  "Unpack data =
     result_bind (read_be 4 data) (\<lambda>(sid, r1).
     result_bind (read_be 2 r1) (\<lambda>(hostLen :: 16 word, r2).
     result_bind (ReadFull (unat hostLen) r2) (\<lambda>(host, r3).
     result_bind (read_be 2 r3) (\<lambda>(port, r4).
     result_bind (read_be 2 r4) (\<lambda>(mid, r5).
     result_bind (read_be 1 r5) (\<lambda>(fid, r6).
     result_bind (read_be 1 r6) (\<lambda>(count, r7).
     result_bind (read_be 2 r7) (\<lambda>(dataLen :: 16 word, r8).
       if length r8 \<noteq> unat dataLen then Inl WireLength
       else Inr \<lparr>um_SessionID = sid, um_Host = bytes_string host, um_Port = port, um_MsgID = mid, um_FragID = fid,
         um_FragCount = count, um_Data = drop (length data - length r8) data\<rparr>))))))))"

section \<open>Fragments\<close>

function hy_frag_loop :: "int \<Rightarrow> udpMessage \<Rightarrow> 8 word \<Rightarrow> bytes \<Rightarrow> udpMessage list \<Rightarrow> (wire_error, udpMessage list) result" where
  "hy_frag_loop maxPayloadSize m fragID rest frags =
     (if rest = [] then Inr frags
      else
        let payloadSize = (if int (length rest) > maxPayloadSize then maxPayloadSize else int (length rest)) in
        if payloadSize \<le> 0 then Inl WirePanic
        else hy_frag_loop maxPayloadSize m (fragID + 1) (drop (nat payloadSize) rest)
          (frags @ [m\<lparr>um_FragID := fragID, um_Data := take (nat payloadSize) rest\<rparr>]))"
  by pat_completeness auto
termination
  by (relation "measure (\<lambda>(_, _, _, rest, _). length rest)") (auto split: if_splits)

declare hy_frag_loop.simps [simp del]

definition fragUDPMessage :: "udpMessage \<Rightarrow> int \<Rightarrow> (wire_error, udpMessage list) result" where
  "fragUDPMessage m maxSize =
     (if int (udp_Size m) \<le> maxSize then Inr [m]
      else
        let maxPayloadSize = maxSize - int (HeaderSize m) in
        if maxPayloadSize = 0 then Inl WirePanic
        else
          let fragCount = of_int (go_quot (int (length (um_Data m)) + maxPayloadSize - 1) maxPayloadSize) in
          hy_frag_loop maxPayloadSize (m\<lparr>um_FragCount := fragCount\<rparr>) 0 (um_Data m) [])"

record defragger =
  hd_msgID :: "16 word"
  hd_frags :: "udpMessage option list"
  hd_count :: "8 word"

definition join_message :: "udpMessage list \<Rightarrow> udpMessage \<Rightarrow> udpMessage" where
  "join_message fs m = m\<lparr>um_Data := concat (map um_Data fs), um_FragID := 0, um_FragCount := 1\<rparr>"

definition hy_Feed :: "udpMessage \<Rightarrow> defragger \<Rightarrow> (wire_error, udpMessage option \<times> defragger) result" where
  "hy_Feed m d =
     (let fid = unat (um_FragID m) in
      if um_FragCount m \<le> 1 then Inr (Some m, d)
      else if um_FragID m \<ge> um_FragCount m then Inr (None, d)
      else if um_MsgID m \<noteq> hd_msgID d
      then Inr (None, \<lparr>hd_msgID = um_MsgID m, hd_frags = (replicate (unat (um_FragCount m)) None)[fid := Some m], hd_count = 1\<rparr>)
      else if length (hd_frags d) \<le> fid then Inl WirePanic
      else if hd_frags d ! fid = None then
        (let frags = (hd_frags d)[fid := Some m]; count = hd_count d + 1; d1 = d\<lparr>hd_frags := frags, hd_count := count\<rparr> in
         if unat count = length frags
         then (case those frags of None \<Rightarrow> Inl WirePanic | Some fs \<Rightarrow> Inr (Some (join_message fs m), d1))
         else Inr (None, d1))
      else Inr (None, d))"

section \<open>Writing and reading back\<close>

lemma unat_len16: "n < 65536 \<Longrightarrow> unat (of_nat n :: 16 word) = n"
  by (simp add: unat_of_nat take_bit_nat_eq_self)

lemma len16_zero: "n < 65536 \<Longrightarrow> (of_nat n :: 16 word) = 0 \<longleftrightarrow> n = 0"
  using unat_len16 [of n] by (auto simp: unat_eq_zero)

lemma ReadClientHello_Write:
  assumes "ch_SendBPS h \<noteq> 0" "ch_RecvBPS h \<noteq> 0" "length (ch_Auth h) < 65536"
  shows "ReadClientHello (WriteClientHello h @ r) = Inr (h, r)"
proof -
  let ?b = "protocolVersion # be_bytes 8 (ch_SendBPS h) @ be_bytes 8 (ch_RecvBPS h) @ be_bytes 2 (of_nat (length (ch_Auth h)) :: 16 word)"
  have "ReadFull 19 (?b @ ch_Auth h @ r) = Inr (?b, ch_Auth h @ r)" by (rule ReadFull_append) simp
  then show ?thesis
    using assms by (simp add: ReadClientHello_def WriteClientHello_def Let_def from_be_bytes unat_len16)
qed

lemma ReadServerHello_Write:
  assumes "length (sh_Message h) < 65536"
  shows "ReadServerHello (WriteServerHello h @ r) = Inr (h, r)"
proof -
  let ?b = "(if sh_OK h then 1 else 0) # be_bytes 8 (sh_SendBPS h) @ be_bytes 8 (sh_RecvBPS h) @ be_bytes 2 (of_nat (length (sh_Message h)) :: 16 word)"
  have "ReadFull 19 (?b @ string_bytes (sh_Message h) @ r) = Inr (?b, string_bytes (sh_Message h) @ r)" by (rule ReadFull_append) simp
  then show ?thesis
    using assms by (simp add: ReadServerHello_def WriteServerHello_def Let_def from_be_bytes unat_len16 len16_zero)
qed

lemma ReadClientRequest_Write:
  assumes "length (cr_Host q) < 65536"
  shows "ReadClientRequest (WriteClientRequest q @ r) = Inr (q, r)"
proof -
  have "ReadFull 1 (b # r') = Inr ([b], r')" for b r' by (simp add: ReadFull_def)
  then show ?thesis
    using assms by (simp add: ReadClientRequest_def WriteClientRequest_def unat_len16 ReadFull_append)
qed

lemma ReadServerResponse_Write:
  assumes "length (sr_Message h) < 65536"
  shows "ReadServerResponse (WriteServerResponse h @ r) = Inr (h, r)"
proof -
  let ?b = "(if sr_OK h then 1 else 0) # be_bytes 4 (sr_UDPSessionID h) @ be_bytes 2 (of_nat (length (sr_Message h)) :: 16 word)"
  have "ReadFull 7 (?b @ string_bytes (sr_Message h) @ r) = Inr (?b, string_bytes (sr_Message h) @ r)" by (rule ReadFull_append) simp
  then show ?thesis
    using assms by (simp add: ReadServerResponse_def WriteServerResponse_def Let_def from_be_bytes unat_len16 len16_zero)
qed

lemma Unpack_message_bytes:
  assumes "length (um_Host m) < 65536" "length (um_Data m) < 65536"
  shows "Unpack (message_bytes m) = Inr m"
proof -
  have "drop (length (message_bytes m) - length (um_Data m)) (message_bytes m) = um_Data m"
    by (simp add: message_bytes_def)
  then show ?thesis
    using assms unfolding Unpack_def by (subst (1) message_bytes_def) (simp add: unat_len16)
qed

lemma from_zeros: "from_bytes (replicate n 0) = 0"
  by (induction n) (simp_all add: from_bytes_def)

lemma read_zeros: "n > 0 \<Longrightarrow> read_be n (replicate n 0 @ r) = Inr (0, r)"
  by (simp add: read_be_def from_zeros)

lemma Unpack_zeros: "r \<noteq> [] \<Longrightarrow> Unpack (replicate 14 0 @ r) = Inl WireLength"
proof -
  have zeros: "replicate 14 (0 :: 8 word) @ r = replicate 4 0 @ replicate 2 0 @ replicate 2 0 @ replicate 2 0 @ replicate 1 0 @ replicate 1 0 @ replicate 2 0 @ r"
    by (simp add: numeral_eq_Suc)
  have one: "read_be (Suc 0) (0 # r') = Inr (0, r')" for r' using read_zeros [of 1 r'] by simp
  have none: "ReadFull 0 r' = Inr ([], r')" for r' by (simp add: ReadFull_def)
  assume "r \<noteq> []"
  then show ?thesis unfolding zeros by (simp add: Unpack_def read_zeros one none)
qed

section \<open>Reassembly\<close>

definition hy_collected :: "16 word \<Rightarrow> udpMessage option list \<Rightarrow> defragger \<Rightarrow> bool" where
  "hy_collected mid fs d \<longleftrightarrow> 2 \<le> length fs \<and> d = \<lparr>hd_msgID = mid, hd_frags = fs, hd_count = of_nat (present fs)\<rparr>"

definition hy_belongs :: "16 word \<Rightarrow> nat \<Rightarrow> udpMessage \<Rightarrow> bool" where
  "hy_belongs mid n m \<longleftrightarrow> um_MsgID m = mid \<and> unat (um_FragCount m) = n \<and> unat (um_FragID m) < n"

lemma hy_first:
  assumes "hd_msgID d \<noteq> mid" "hy_belongs mid n m" "2 \<le> n"
  shows "\<exists>d'. hy_Feed m d = Inr (None, d') \<and> hy_collected mid ((replicate n None)[unat (um_FragID m) := Some m]) d'"
proof -
  note m = assms(2) [unfolded hy_belongs_def]
  have frag: "\<not> um_FragCount m \<le> 1" "\<not> um_FragCount m \<le> um_FragID m" using m assms(3) by (auto simp: word_le_nat_alt)
  have "present ((replicate n None)[unat (um_FragID m) := Some m]) = 1"
    using m present_update [of "unat (um_FragID m)" "replicate n None" m] by (simp add: present_def)
  with m frag assms show ?thesis by (auto simp: hy_Feed_def hy_collected_def Let_def)
qed

lemma hy_more:
  assumes "hy_collected mid fs d" "hy_belongs mid (length fs) m" "fs ! unat (um_FragID m) = None"
    and fs': "fs' = fs[unat (um_FragID m) := Some m]"
  shows "if None \<in> set fs' then \<exists>d'. hy_Feed m d = Inr (None, d') \<and> hy_collected mid fs' d'
    else \<exists>d'. hy_Feed m d = Inr (Some (join_message (map the fs') m), d')"
proof -
  note m = assms(2) [unfolded hy_belongs_def] and d = assms(1) [unfolded hy_collected_def]
  have new: "present fs' = Suc (present fs)" "length fs' = length fs"
    using present_update [of "unat (um_FragID m)" fs m] m assms(3) fs' by simp_all
  have "present fs' \<le> length fs'" by (simp add: present_def)
  then have "present fs' < 256" using new m unat_less_power [of "um_FragCount m"] by simp
  then have count: "unat (of_nat (present fs) + 1 :: 8 word) = present fs'" "of_nat (present fs) + 1 = (of_nat (present fs') :: 8 word)"
    using new(1) by (simp_all add: unat_word_ariths unat_of_nat take_bit_nat_eq_self)
  have frag: "\<not> um_FragCount m \<le> 1" "\<not> um_FragCount m \<le> um_FragID m" using m d by (auto simp: word_le_nat_alt)
  have feed: "hy_Feed m d =
      (let d1 = \<lparr>hd_msgID = mid, hd_frags = fs', hd_count = of_nat (present fs')\<rparr> in
       if present fs' = length fs' then (case those fs' of None \<Rightarrow> Inl WirePanic | Some ms \<Rightarrow> Inr (Some (join_message ms m), d1))
       else Inr (None, d1))"
    using m d frag assms(3) count fs' by (simp add: hy_Feed_def Let_def split: option.split)
  show ?thesis
    using feed present_full [of fs'] those_full [of fs'] d new(2) by (auto simp: Let_def hy_collected_def)
qed

interpretation hysteria: reassembler "\<lambda>i. hy_Feed" "\<lambda>d. hd_msgID d \<noteq> mid" "hy_collected mid" "\<lambda>m. unat (um_FragID m)"
  "hy_belongs mid" join_message
proof
  show "hy_belongs mid n m \<Longrightarrow> unat (um_FragID m) < n" for n m by (simp add: hy_belongs_def)
  show "hd_msgID d \<noteq> mid \<Longrightarrow> hy_belongs mid n m \<Longrightarrow> 2 \<le> n \<Longrightarrow>
      \<exists>d'. hy_Feed m d = Inr (None, d') \<and> hy_collected mid ((replicate n None)[unat (um_FragID m) := Some m]) d'" for n m d
    by (rule hy_first)
qed (use hy_more in \<open>metis\<close>)+

definition hy_fragment :: "udpMessage \<Rightarrow> nat \<Rightarrow> bytes \<Rightarrow> udpMessage" where
  "hy_fragment m j c = m\<lparr>um_FragID := of_nat j, um_Data := c\<rparr>"

lemma hy_frag_loop_list:
  assumes "0 < k"
  shows "hy_frag_loop k m (of_nat j) rest frags =
    Inr (frags @ map (\<lambda>(i, c). hy_fragment m i c) (enumerate j (chunks (nat k) rest)))"
proof (induction "length rest" arbitrary: rest j frags rule: less_induct)
  case less
  show ?case
  proof (cases "rest = []")
    case True
    then show ?thesis by (simp add: hy_frag_loop.simps [of _ _ _ "[]"] chunks.simps)
  next
    case False
    let ?n = "if int (length rest) > k then k else int (length rest)"
    have n: "0 < ?n" "take (nat ?n) rest = take (nat k) rest" "drop (nat ?n) rest = drop (nat k) rest" using False assms by auto
    have "hy_frag_loop k m (of_nat j) rest frags =
        hy_frag_loop k m (of_nat (Suc j)) (drop (nat k) rest) (frags @ [hy_fragment m j (take (nat k) rest)])"
      using False n by (subst hy_frag_loop.simps) (simp add: Let_def hy_fragment_def add.commute)
    with less [of "drop (nat k) rest" "Suc j"] False assms show ?thesis by (subst chunks.simps) simp
  qed
qed

lemma fragUDPMessage_list:
  fixes m maxSize
  defines "k \<equiv> maxSize - int (HeaderSize m)"
  assumes "0 < k" "maxSize < int (udp_Size m)"
  shows "fragUDPMessage m maxSize = Inr (map (\<lambda>(i, c). hy_fragment (m\<lparr>um_FragCount := of_nat (length (chunks (nat k) (um_Data m)))\<rparr>) i c)
    (enumerate 0 (chunks (nat k) (um_Data m))))"
proof -
  have "go_quot (int (length (um_Data m)) + k - 1) k = int ((length (um_Data m) + nat k - 1) div nat k)"
    using assms(2) by (simp add: go_quot_def zdiv_int of_nat_diff)
  then have "of_int (go_quot (int (length (um_Data m)) + k - 1) k) = (of_nat (length (chunks (nat k) (um_Data m))) :: 8 word)"
    using assms(2) by (simp add: length_chunks)
  then show ?thesis
    using assms(2,3) hy_frag_loop_list [OF assms(2), of _ 0 "um_Data m" "[]"] by (simp add: fragUDPMessage_def Let_def k_def [symmetric])
qed

section \<open>Properties\<close>

text \<open>
  C36.  A UDP message of hysteria survives fragmentation.  Where the header fits and at most 255
  fragments are needed, \<open>fragUDPMessage\<close> gives messages no larger than the limit, and a receiver that
  last saw another message number gives the message back with the last of them, in whatever order
  they arrive, and nothing before.
\<close>

theorem hysteria_message_survives_fragmentation:
  assumes "hd_msgID d \<noteq> um_MsgID m" "int (HeaderSize m) < maxSize" "maxSize < int (udp_Size m)"
    and "int (length (um_Data m)) \<le> 255 * (maxSize - int (HeaderSize m))"
  shows "\<exists>frags. fragUDPMessage m maxSize = Inr frags \<and> (\<forall>f \<in> set frags. int (udp_Size f) \<le> maxSize) \<and>
    (\<forall>order. mset order = mset frags \<longrightarrow> (\<exists>d'. feed_all (\<lambda>_. hy_Feed) 0 order d =
       Inr (replicate (length frags - 1) None @ [Some (m\<lparr>um_FragID := 0, um_FragCount := 1\<rparr>)], d')))"
proof -
  let ?k = "maxSize - int (HeaderSize m)"
  let ?cs = "chunks (nat ?k) (um_Data m)"
  let ?m = "m\<lparr>um_FragCount := of_nat (length ?cs)\<rparr>"
  let ?ms = "map (\<lambda>(i, c). hy_fragment ?m i c) (enumerate 0 ?cs)"
  have k: "0 < ?k" "?k < int (length (um_Data m))" using assms(2,3) by (auto simp: udp_Size_def)
  note n = chunk_count [OF k assms(4)]
  have frags: "fragUDPMessage m maxSize = Inr ?ms" by (rule fragUDPMessage_list [OF k(1) assms(3)])
  have small: "int (udp_Size f) \<le> maxSize" if f: "f \<in> set ?ms" for f
  proof -
    obtain i c where c: "f = hy_fragment ?m i c" "c \<in> set ?cs" using f by (auto simp: in_set_enumerate_eq)
    have "int (length c) \<le> ?k" using chunk_bound [OF c(2)] k(1) by linarith
    with c(1) show ?thesis by (simp add: udp_Size_def HeaderSize_def hy_fragment_def)
  qed
  have belongs: "hy_belongs (um_MsgID m) (length ?ms) (?ms ! j) \<and> unat (um_FragID (?ms ! j)) = j" if "j < length ?ms" for j
    using that n by (simp add: nth_enumerate_eq hy_belongs_def hy_fragment_def unat_of_nat take_bit_nat_eq_self)
  have "um_Data \<circ> (\<lambda>(i, c). hy_fragment ?m i c) = snd" by (auto simp: hy_fragment_def)
  then have data: "concat (map um_Data ?ms) = um_Data m" using concat_chunks [of "nat ?k" "um_Data m"] k(1) by (simp add: enumerate_eq_zip)
  have "\<exists>d'. feed_all (\<lambda>_. hy_Feed) 0 order d = Inr (replicate (length ?ms - 1) None @ [Some (m\<lparr>um_FragID := 0, um_FragCount := 1\<rparr>)], d')"
    if order: "mset order = mset ?ms" for order
  proof -
    have "length order = length ?ms" using order by (rule mset_eq_length)
    then have "order \<noteq> []" using n by auto
    then have "last order \<in> set ?ms" using order by (metis last_in_set mset_eq_setD)
    then obtain i c where "last order = hy_fragment ?m i c" by auto
    then have "join_message ?ms (last order) = m\<lparr>um_FragID := 0, um_FragCount := 1\<rparr>"
      using data by (simp add: join_message_def hy_fragment_def)
    with hysteria.feed_any_order [of ?ms "um_MsgID m" d order 0] belongs n assms(1) order show ?thesis by simp
  qed
  with frags small show ?thesis by blast
qed

definition example_message :: udpMessage where
  "example_message = \<lparr>um_SessionID = 1, um_Host = ''a'', um_Port = 53, um_MsgID = 7, um_FragID = 0, um_FragCount = 1, um_Data = [1, 2, 3]\<rparr>"

theorem hysteria_message_survives_fragmentation_witness:
  "\<exists>f g d'. fragUDPMessage example_message 17 = Inr [f, g] \<and>
     feed_all (\<lambda>_. hy_Feed) 0 [g, f] \<lparr>hd_msgID = 0, hd_frags = [], hd_count = 0\<rparr> = Inr ([None, Some example_message], d')"
proof -
  let ?d = "\<lparr>hd_msgID = 0, hd_frags = [], hd_count = 0\<rparr> :: defragger"
  have "hd_msgID ?d \<noteq> um_MsgID example_message" "int (HeaderSize example_message) < 17" "17 < int (udp_Size example_message)"
    "int (length (um_Data example_message)) \<le> 255 * (17 - int (HeaderSize example_message))"
    by (simp_all add: example_message_def HeaderSize_def udp_Size_def)
  note all = hysteria_message_survives_fragmentation [OF this]
  obtain f g where fg: "fragUDPMessage example_message 17 = Inr [f, g]"
    using fragUDPMessage_list [of 17 example_message]
    by (simp add: example_message_def HeaderSize_def udp_Size_def chunks.simps)
  from all obtain frags where "fragUDPMessage example_message 17 = Inr frags"
    "\<forall>order. mset order = mset frags \<longrightarrow> (\<exists>d'. feed_all (\<lambda>_. hy_Feed) 0 order ?d =
       Inr (replicate (length frags - 1) None @ [Some (example_message\<lparr>um_FragID := 0, um_FragCount := 1\<rparr>)], d'))" by blast
  moreover from this(1) fg have "frags = [f, g]" by simp
  ultimately have "mset [g, f] = mset [f, g] \<longrightarrow> (\<exists>d'. feed_all (\<lambda>_. hy_Feed) 0 [g, f] ?d =
       Inr (replicate (length [f, g] - 1) None @ [Some (example_message\<lparr>um_FragID := 0, um_FragCount := 1\<rparr>)], d'))" by blast
  then have "\<exists>d'. feed_all (\<lambda>_. hy_Feed) 0 [g, f] ?d = Inr ([None, Some (example_message\<lparr>um_FragID := 0, um_FragCount := 1\<rparr>)], d')"
    by simp
  moreover have "example_message\<lparr>um_FragID := 0, um_FragCount := 1\<rparr> = example_message" by (simp add: example_message_def)
  ultimately show ?thesis using fg by auto
qed

text \<open>
  The UDP relay of hysteria cannot read what it writes.  The encoding \<open>Pack\<close> appends would be read
  back by \<open>Unpack\<close>, but \<open>Pack\<close> sends it behind as many zero bytes as the message is long, and \<open>Unpack\<close>
  rejects every such datagram.
\<close>

lemma hysteria_Pack_unreadable:
  assumes "length (um_Host m) < 65536" "length (um_Data m) < 65536"
  shows "Unpack (message_bytes m) = Inr m \<and> Unpack (Pack m) = Inl WireLength"
proof -
  have "Pack m = replicate 14 0 @ (replicate (udp_Size m - 14) 0 @ message_bytes m)"
    by (simp add: Pack_def udp_Size_def HeaderSize_def replicate_add [symmetric] flip: append_assoc)
  moreover have "message_bytes m \<noteq> []" by (simp add: message_bytes_def be_bytes_def)
  ultimately show ?thesis using Unpack_zeros Unpack_message_bytes [OF assms] by simp
qed

lemma hysteria_Pack_unreadable_witness:
  "Unpack (message_bytes example_message) = Inr example_message \<and> Unpack (Pack example_message) = Inl WireLength"
  by (rule hysteria_Pack_unreadable) (simp_all add: example_message_def)

end
