(* ===== verification/Socks5.thy ===== *)
theory Socks5
  imports Wire Netip_Text
begin

text \<open>
  \<open>transport/socks5/socks5.go\<close>: addresses on the wire, the UDP header, and the handshakes of a client and
  a server.  A handshake reads and writes in turn; it is a tree of these actions, and a conversation
  of two handshakes is a step relation over the trees and the bytes in flight both ways.
\<close>

section \<open>Constants and errors\<close>

definition CmdConnect :: "8 word" where "CmdConnect = 1"
definition CmdBind :: "8 word" where "CmdBind = 2"
definition CmdUDPAssociate :: "8 word" where "CmdUDPAssociate = 3"

definition socks_AtypIPv4 :: "8 word" where "socks_AtypIPv4 = 1"
definition socks_AtypDomainName :: "8 word" where "socks_AtypDomainName = 3"
definition socks_AtypIPv6 :: "8 word" where "socks_AtypIPv6 = 4"

definition MaxAddrLen :: nat where "MaxAddrLen = 1 + 1 + 255 + 2"

datatype socks_error =
    SocksIO
  | SocksError "8 word"
  | SocksErrAuth
  | ErrShortBuffer
  | VersionError
  | RejectedPassword
  | NeedAuth
  | ShortPacket
  | ReservedFields
  | FragmentedPayload
  | BadUDPHeader
  | InvalidAddress

definition ErrCommandNotSupported :: socks_error where "ErrCommandNotSupported = SocksError 7"
definition ErrAddressNotSupported :: socks_error where "ErrAddressNotSupported = SocksError 8"

lemmas socks_consts = CmdConnect_def CmdBind_def CmdUDPAssociate_def socks_AtypIPv4_def socks_AtypDomainName_def
  socks_AtypIPv6_def MaxAddrLen_def ErrCommandNotSupported_def ErrAddressNotSupported_def

section \<open>Addresses\<close>

text \<open>\<open>SplitAddr\<close>: the length from the first one or two bytes.\<close>

definition SplitAddr :: "bytes \<Rightarrow> bytes option" where
  "SplitAddr b =
     (case b of
        [] \<Rightarrow> None
      | t # r \<Rightarrow>
          let take_addr = (\<lambda>addrLen. if length b < addrLen then None else Some (take addrLen b)) in
          if t = socks_AtypDomainName then (case r of [] \<Rightarrow> None | l # _ \<Rightarrow> take_addr (1 + 1 + unat l + 2))
          else if t = socks_AtypIPv4 then take_addr (1 + 4 + 2)
          else if t = socks_AtypIPv6 then take_addr (1 + 16 + 2)
          else None)"

text \<open>
  \<open>Addr.String\<close> and \<open>Addr.UDPAddr\<close>; \<^const>\<open>None\<close> in the outer option is the panic of an index or slice out
  of range.  \<open>net.IP\<close> prints an IPv4-mapped address in the dotted form.
\<close>

definition slice :: "nat \<Rightarrow> nat \<Rightarrow> bytes \<Rightarrow> bytes option" where
  "slice i j b = (if i \<le> j \<and> j \<le> length b then Some (take (j - i) (drop i b)) else None)"

definition port_text :: "bytes \<Rightarrow> string" where
  "port_text p = show_nat (unat (from_bytes p :: 16 word))"

definition socks_String :: "bytes \<Rightarrow> string option" where
  "socks_String a =
     (case a of
        [] \<Rightarrow> None
      | t # r \<Rightarrow>
          if t = socks_AtypDomainName then
            (case r of
               [] \<Rightarrow> None
             | l # _ \<Rightarrow>
                 (case (slice 2 (2 + unat l) a, slice (2 + unat l) (2 + unat l + 2) a) of
                    (Some host, Some port) \<Rightarrow> Some (JoinHostPort (bytes_string host) (port_text port))
                  | _ \<Rightarrow> None))
          else if t = socks_AtypIPv4 \<or> t = socks_AtypIPv6 then
            (let n = (if t = socks_AtypIPv4 then 4 else 16) in
             case (slice 1 (1 + n) a, slice (1 + n) (1 + n + 2) a) of
               (Some ip, Some port) \<Rightarrow> Some (JoinHostPort (Addr_String (Unmap (AddrFromSlice ip))) (port_text port))
             | _ \<Rightarrow> None)
          else Some (JoinHostPort [] []))"

definition socks_UDPAddr :: "bytes \<Rightarrow> (bytes \<times> 16 word) option option" where
  "socks_UDPAddr a =
     (case a of
        [] \<Rightarrow> Some None
      | t # r \<Rightarrow>
          if t = socks_AtypIPv4 \<or> t = socks_AtypIPv6 then
            (let n = (if t = socks_AtypIPv4 then 4 else 16) in
             case (slice 1 (1 + n) a, slice (1 + n) (1 + n + 2) a) of
               (Some ip, Some port) \<Rightarrow> Some (Some (ip, from_bytes port))
             | _ \<Rightarrow> None)
          else Some None)"

text \<open>\<open>net.ParseIP\<close> with \<open>To4\<close>: the bytes of an address text without zone.\<close>

definition parse_ip :: "string \<Rightarrow> bytes option" where
  "parse_ip s =
     (case ParseAddr s of
        Some (V4 a) \<Rightarrow> Some (AsSlice (V4 a))
      | Some (V6 a zone) \<Rightarrow> if zone = [] then Some (AsSlice (Unmap (V6 a zone))) else None
      | _ \<Rightarrow> None)"

definition host_bytes :: "string \<Rightarrow> bytes option" where
  "host_bytes host =
     (case parse_ip host of
        Some ip \<Rightarrow> Some ((if length ip = 4 then socks_AtypIPv4 else socks_AtypIPv6) # ip)
      | None \<Rightarrow> if length host > 255 then None else Some (socks_AtypDomainName # of_nat (length host) # string_bytes host))"

definition socks_ParseAddr :: "string \<Rightarrow> bytes option" where
  "socks_ParseAddr s =
     (case SplitHostPort s of
        None \<Rightarrow> None
      | Some (host, port) \<Rightarrow>
          (case (host_bytes host, parse_uint 16 port) of
             (Some addr, Some portnum) \<Rightarrow> Some (addr @ be_bytes 2 (of_nat portnum :: 16 word))
           | _ \<Rightarrow> None))"

text \<open>The types of \<open>net.Addr\<close> that \<open>ParseAddrToSocksAddr\<close> tells apart; a nil IP is the empty list.\<close>

datatype std_addr = StdUDPAddr bytes int | StdTCPAddr bytes int | StdAddr string

definition itoa :: "int \<Rightarrow> string" where
  "itoa p = (if p < 0 then CHR ''-'' # show_nat (nat (- p)) else show_nat (nat p))"

fun std_String :: "std_addr \<Rightarrow> string" where
  "std_String (StdUDPAddr ip port) = JoinHostPort (if ip = [] then [] else Addr_String (Unmap (AddrFromSlice ip))) (itoa port)"
| "std_String (StdTCPAddr ip port) = JoinHostPort (if ip = [] then [] else Addr_String (Unmap (AddrFromSlice ip))) (itoa port)"
| "std_String (StdAddr s) = s"

text \<open>\<open>IP.To4\<close>.\<close>

definition To4 :: "bytes \<Rightarrow> bytes option" where
  "To4 ip = (if length ip = 4 then Some ip
     else if length ip = 16 \<and> take 12 ip = replicate 10 0 @ [255, 255] then Some (drop 12 ip) else None)"

definition ParseAddrToSocksAddr :: "std_addr option \<Rightarrow> bytes option" where
  "ParseAddrToSocksAddr addr =
     (case addr of
        None \<Rightarrow> None
      | Some a \<Rightarrow>
          (case (case a of StdUDPAddr ip port \<Rightarrow> (ip, port) | StdTCPAddr ip port \<Rightarrow> (ip, port) | StdAddr _ \<Rightarrow> ([], 0)) of
             (hostip, port) \<Rightarrow>
               if hostip = [] then socks_ParseAddr (std_String a)
               else (case To4 hostip of
                       Some ip4 \<Rightarrow> Some (socks_AtypIPv4 # ip4 @ be_bytes 2 (of_int port :: 16 word))
                     | None \<Rightarrow> Some (socks_AtypIPv6 # take 16 (hostip @ replicate 16 0) @ be_bytes 2 (of_int port :: 16 word)))))"

definition AddrFromStdAddrPort :: "addr \<Rightarrow> 16 word \<Rightarrow> bytes" where
  "AddrFromStdAddrPort a port =
     (if Is4 a then socks_AtypIPv4 # AsSlice a @ be_bytes 2 port
      else socks_AtypIPv6 # take 16 (AsSlice a @ replicate 16 0) @ be_bytes 2 port)"

section \<open>The UDP header\<close>

definition DecodeUDPPacket :: "bytes \<Rightarrow> (socks_error, bytes \<times> bytes) result" where
  "DecodeUDPPacket packet =
     (if length packet < 5 then Inl ShortPacket
      else if take 2 packet \<noteq> [0, 0] then Inl ReservedFields
      else if packet ! 2 \<noteq> 0 then Inl FragmentedPayload
      else (case SplitAddr (drop 3 packet) of
              None \<Rightarrow> Inl BadUDPHeader
            | Some addr \<Rightarrow> Inr (addr, drop (3 + length addr) packet)))"

definition EncodeUDPPacket :: "bytes option \<Rightarrow> bytes \<Rightarrow> (socks_error, bytes) result" where
  "EncodeUDPPacket addr payload =
     (case addr of None \<Rightarrow> Inl InvalidAddress | Some a \<Rightarrow> Inr ([0, 0, 0] @ a @ payload))"

section \<open>Handshakes\<close>

text \<open>
  A read asks for a number of bytes and gets them, or \<^const>\<open>None\<close> for an error; a write learns whether it
  succeeded.
\<close>

datatype 'r io = IoDone 'r | IoRead nat "bytes option \<Rightarrow> 'r io" | IoWrite bytes "bool \<Rightarrow> 'r io"

type_synonym 'a handshake = "(socks_error, 'a) result io"

definition read_full :: "nat \<Rightarrow> (bytes \<Rightarrow> 'a handshake) \<Rightarrow> 'a handshake" where
  "read_full n k = IoRead n (\<lambda>r. case r of None \<Rightarrow> IoDone (Inl SocksIO) | Some b \<Rightarrow> k b)"

definition write_all :: "bytes \<Rightarrow> 'a handshake \<Rightarrow> 'a handshake" where
  "write_all bs k = IoWrite bs (\<lambda>ok. if ok then k else IoDone (Inl SocksIO))"

definition ReadAddr :: "nat \<Rightarrow> (bytes \<Rightarrow> 'a handshake) \<Rightarrow> 'a handshake" where
  "ReadAddr buflen k =
     (if buflen < MaxAddrLen then IoDone (Inl ErrShortBuffer)
      else read_full 1 (\<lambda>t.
        if t ! 0 = socks_AtypDomainName then read_full 1 (\<lambda>l. read_full (unat (l ! 0) + 2) (\<lambda>r. k (t @ l @ r)))
        else if t ! 0 = socks_AtypIPv4 then read_full (4 + 2) (\<lambda>r. k (t @ r))
        else if t ! 0 = socks_AtypIPv6 then read_full (16 + 2) (\<lambda>r. k (t @ r))
        else IoDone (Inl ErrAddressNotSupported)))"

text \<open>\<open>ReadAddr0\<close> allocates what it returns.\<close>

definition ReadAddr0 :: "(bytes \<Rightarrow> 'a handshake) \<Rightarrow> 'a handshake" where
  "ReadAddr0 k =
     read_full 1 (\<lambda>t.
       if t ! 0 = socks_AtypDomainName then read_full 1 (\<lambda>l. read_full (unat (l ! 0) + 2) (\<lambda>r. k ([t ! 0, l ! 0] @ r)))
       else if t ! 0 = socks_AtypIPv4 then read_full (4 + 2) (\<lambda>r. k ([t ! 0] @ r))
       else if t ! 0 = socks_AtypIPv6 then read_full (16 + 2) (\<lambda>r. k ([t ! 0] @ r))
       else IoDone (Inl ErrAddressNotSupported))"

record User =
  Username :: string
  Password :: string

text \<open>The server: greeting, password where an authenticator is set, request.  \<open>localAddr\<close> is the converted local address.\<close>

definition server_request :: "bytes option \<Rightarrow> string \<Rightarrow> (bytes \<times> 8 word \<times> string) handshake" where
  "server_request localAddr user =
     read_full 3 (\<lambda>buf.
       ReadAddr MaxAddrLen (\<lambda>addr.
         let command = buf ! 1 in
         if command = CmdConnect \<or> command = CmdUDPAssociate then
           (case localAddr of
              None \<Rightarrow> IoDone (Inl ErrAddressNotSupported)
            | Some l \<Rightarrow> write_all ([5, 0, 0] @ l) (IoDone (Inr (addr, command, user))))
         else IoDone (Inl ErrCommandNotSupported)))"

definition auth_failed :: "'a handshake" where
  "auth_failed = IoWrite [1, 1] (\<lambda>_. IoDone (Inl SocksErrAuth))"

definition server_auth :: "bytes option \<Rightarrow> (string \<Rightarrow> string \<Rightarrow> bool) \<Rightarrow> (bytes \<times> 8 word \<times> string) handshake" where
  "server_auth localAddr verify =
     write_all [5, 2] (read_full 2 (\<lambda>header.
       let userLen = unat (header ! 1) in
       if userLen = 0 then auth_failed
       else read_full userLen (\<lambda>u.
         read_full 1 (\<lambda>header2.
           let passLen = unat (header2 ! 0) in
           if passLen = 0 then auth_failed
           else read_full passLen (\<lambda>p.
             if \<not> verify (bytes_string u) (bytes_string p) then auth_failed
             else write_all [1, 0] (server_request localAddr (bytes_string u)))))))"

definition ServerHandshake :: "bytes option \<Rightarrow> (string \<Rightarrow> string \<Rightarrow> bool) option \<Rightarrow> (bytes \<times> 8 word \<times> string) handshake" where
  "ServerHandshake localAddr authenticator =
     read_full 2 (\<lambda>h.
       let nmethods = unat (h ! 1) in
       read_full nmethods (\<lambda>methods.
         let authenticator1 = (if nmethods = 1 \<and> methods ! 0 = 2 \<and> authenticator = None then Some (\<lambda>_ _. True) else authenticator) in
         case authenticator1 of
           Some verify \<Rightarrow> server_auth localAddr verify
         | None \<Rightarrow> write_all [5, 0] (server_request localAddr [])))"

text \<open>The client.\<close>

definition client_request :: "bytes \<Rightarrow> 8 word \<Rightarrow> bytes handshake" where
  "client_request addr command =
     write_all ([5, command, 0] @ addr) (read_full 3 (\<lambda>_. ReadAddr MaxAddrLen (\<lambda>a. IoDone (Inr a))))"

definition ClientHandshake :: "bytes \<Rightarrow> 8 word \<Rightarrow> User option \<Rightarrow> bytes handshake" where
  "ClientHandshake addr command user =
     write_all (if user \<noteq> None then [5, 1, 2] else [5, 1, 0]) (read_full 2 (\<lambda>buf.
       if buf ! 0 \<noteq> 5 then IoDone (Inl VersionError)
       else if buf ! 1 = 2 then
         (case user of
            None \<Rightarrow> IoDone (Inl SocksErrAuth)
          | Some u \<Rightarrow>
              write_all ([1, of_nat (length (Username u))] @ string_bytes (Username u) @
                         [of_nat (length (Password u))] @ string_bytes (Password u))
                (read_full 2 (\<lambda>buf2. if buf2 ! 1 \<noteq> 0 then IoDone (Inl RejectedPassword) else client_request addr command)))
       else if buf ! 1 \<noteq> 0 then IoDone (Inl NeedAuth)
       else client_request addr command))"

section \<open>Conversations\<close>

text \<open>
  A conversation: the two sides and the bytes on their way up, to the server, and down.  A read waits for all
  its bytes; it fails where the other side has ended without sending them.
\<close>

type_synonym ('a, 'b) conversation = "'a io \<times> 'b io \<times> bytes \<times> bytes"

fun client_step :: "('a, 'b) conversation \<Rightarrow> ('a, 'b) conversation option" where
  "client_step (IoDone r, s, up, down) = None"
| "client_step (IoWrite bs k, s, up, down) = Some (k True, s, up @ bs, down)"
| "client_step (IoRead n k, s, up, down) =
     (if n \<le> length down then Some (k (Some (take n down)), s, up, drop n down)
      else (case s of IoDone _ \<Rightarrow> Some (k None, s, up, []) | _ \<Rightarrow> None))"

fun server_step :: "('a, 'b) conversation \<Rightarrow> ('a, 'b) conversation option" where
  "server_step (c, IoDone r, up, down) = None"
| "server_step (c, IoWrite bs k, up, down) = Some (c, k True, up, down @ bs)"
| "server_step (c, IoRead n k, up, down) =
     (if n \<le> length up then Some (c, k (Some (take n up)), drop n up, down)
      else (case c of IoDone _ \<Rightarrow> Some (c, k None, [], down) | _ \<Rightarrow> None))"

inductive talk :: "('a, 'b) conversation \<Rightarrow> ('a, 'b) conversation \<Rightarrow> bool" where
  client: "client_step x = Some y \<Longrightarrow> talk x y"
| server: "server_step x = Some y \<Longrightarrow> talk x y"

inductive_simps talk_iff: "talk x y"

text \<open>The sides do not disturb each other: one appends to a stream where the other takes from its front.\<close>

lemma steps_commute:
  assumes "client_step x = Some y" "server_step x = Some z"
  shows "\<exists>w. server_step y = Some w \<and> client_step z = Some w"
proof -
  obtain c s up down where x: "x = (c, s, up, down)" by (cases x)
  from assms show ?thesis unfolding x by (cases c; cases s) (auto split: if_splits io.splits)
qed

lemma talk_diamond: "talk x y \<Longrightarrow> talk x z \<Longrightarrow> y = z \<or> (\<exists>w. talk y w \<and> talk z w)"
  unfolding talk_iff using steps_commute by (metis option.inject)

text \<open>
  So the order of the steps does not matter: where one run ends after \<open>n\<close> steps, every run gets there
  in \<open>n\<close> steps.
\<close>

lemma diamond_step:
  assumes end_state: "\<And>v. \<not> talk w v" and "(talk ^^ n) x w" "talk x y"
  shows "0 < n \<and> (talk ^^ (n - 1)) y w"
  using assms(2,3)
proof (induction n arbitrary: x y)
  case 0
  then show ?case using end_state by simp
next
  case (Suc n)
  obtain x1 where x1: "talk x x1" "(talk ^^ n) x1 w" using Suc.prems(1) by (rule relpowp_Suc_E2)
  from talk_diamond [OF x1(1) Suc.prems(2)] show ?case
  proof
    assume "x1 = y"
    with x1 show ?thesis by simp
  next
    assume "\<exists>v. talk x1 v \<and> talk y v"
    then obtain v where v: "talk x1 v" "talk y v" by blast
    from Suc.IH [OF x1(2) v(1)] have "0 < n" "(talk ^^ (n - 1)) v w" by auto
    with v(2) have "(talk ^^ Suc (n - 1)) y w" by (intro relpowp_Suc_I2)
    with \<open>0 < n\<close> show ?thesis by simp
  qed
qed

lemma every_run_ends:
  assumes "\<And>v. \<not> talk w v" "(talk ^^ n) x w" "(talk ^^ m) x y"
  shows "m \<le> n \<and> (talk ^^ (n - m)) y w"
  using assms(3)
proof (induction m arbitrary: y)
  case 0
  then show ?case using assms(2) by simp
next
  case (Suc m)
  obtain z where z: "(talk ^^ m) x z" "talk z y" using Suc.prems by (rule relpowp_Suc_E)
  from Suc.IH [OF z(1)] have "m \<le> n" "(talk ^^ (n - m)) z w" by auto
  from diamond_step [OF assms(1) this(2) z(2)] \<open>m \<le> n\<close> show ?case by auto
qed

section \<open>Addresses on the wire\<close>

text \<open>An address that has the length its type asks for.\<close>

definition valid_addr :: "bytes \<Rightarrow> bool" where
  "valid_addr a \<longleftrightarrow> SplitAddr a = Some a"

lemma valid_addr_cases:
  assumes "valid_addr a"
  obtains (domain) l r where "a = socks_AtypDomainName # l # r" "length r = unat l + 2"
  | (ipv4) r where "a = socks_AtypIPv4 # r" "length r = 6"
  | (ipv6) r where "a = socks_AtypIPv6 # r" "length r = 18"
  using assms by (auto simp: valid_addr_def SplitAddr_def Let_def take_all_iff split: list.splits if_splits)

lemma SplitAddr_append: "valid_addr a \<Longrightarrow> SplitAddr (a @ rest) = Some a"
  by (erule valid_addr_cases) (auto simp: SplitAddr_def socks_consts)

lemma DecodeUDPPacket_Encode:
  assumes "valid_addr a"
  shows "result_bind (EncodeUDPPacket (Some a) payload) DecodeUDPPacket = Inr (a, payload)"
proof -
  have "4 \<le> length a" using assms by (elim valid_addr_cases) auto
  moreover have "drop (3 + length a) ([0, 0, 0] @ a @ payload) = payload" by (simp add: numeral_3_eq_3)
  ultimately show ?thesis
    using SplitAddr_append [OF assms, of payload] by (simp add: EncodeUDPPacket_def DecodeUDPPacket_def)
qed

lemma AddrFromStdAddrPort_valid: "valid_addr (AddrFromStdAddrPort a port)"
  by (cases a) (auto simp: AddrFromStdAddrPort_def valid_addr_def SplitAddr_def socks_consts length_be_bytes)

lemma parse_ip_length: "parse_ip host = Some ip \<Longrightarrow> length ip = 4 \<or> length ip = 16"
  by (auto simp: parse_ip_def length_be_bytes split: option.splits addr.splits if_splits)

lemma socks_ParseAddr_valid: "socks_ParseAddr s = Some a \<Longrightarrow> valid_addr a"
proof -
  assume "socks_ParseAddr s = Some a"
  then obtain host p b where b: "host_bytes host = Some b" "a = b @ be_bytes 2 (of_nat p :: 16 word)"
    by (auto simp: socks_ParseAddr_def split: option.splits)
  then show ?thesis
    by (auto simp: host_bytes_def valid_addr_def SplitAddr_def socks_consts length_be_bytes unat_of_nat take_bit_nat_eq_self
        string_bytes_def dest: parse_ip_length split: option.splits if_splits)
qed

section \<open>Steps of a conversation\<close>

lemma s_write: "talk\<^sup>*\<^sup>* (c, write_all bs k, up, down) (c, k, up, down @ bs)"
  by (rule r_into_rtranclp) (simp add: talk_iff write_all_def)

lemma c_write: "talk\<^sup>*\<^sup>* (write_all bs k, s, up, down) (k, s, up @ bs, down)"
  by (rule r_into_rtranclp) (simp add: talk_iff write_all_def)

lemma s_read: "length bs = n \<Longrightarrow> talk\<^sup>*\<^sup>* (c, read_full n k, bs @ up, down) (c, k bs, up, down)"
  by (rule r_into_rtranclp) (simp add: talk_iff read_full_def)

lemma c_read: "length bs = n \<Longrightarrow> talk\<^sup>*\<^sup>* (read_full n k, s, up, bs @ down) (k bs, s, up, down)"
  by (rule r_into_rtranclp) (simp add: talk_iff read_full_def)

lemma s_ReadAddr:
  assumes "valid_addr a"
  shows "talk\<^sup>*\<^sup>* (c, ReadAddr MaxAddrLen k, a @ up, down) (c, k a, up, down)"
proof -
  obtain t r where a: "a = t # r" using assms by (elim valid_addr_cases) auto
  let ?k = "\<lambda>t. if t ! 0 = socks_AtypDomainName then read_full 1 (\<lambda>l. read_full (unat (l ! 0) + 2) (\<lambda>r. k (t @ l @ r)))
      else if t ! 0 = socks_AtypIPv4 then read_full (4 + 2) (\<lambda>r. k (t @ r))
      else if t ! 0 = socks_AtypIPv6 then read_full (16 + 2) (\<lambda>r. k (t @ r))
      else IoDone (Inl ErrAddressNotSupported)"
  have first: "talk\<^sup>*\<^sup>* (c, ReadAddr MaxAddrLen k, a @ up, down) (c, ?k [t], r @ up, down)"
    using s_read [of "[t]" 1 c ?k "r @ up" down] by (simp add: a ReadAddr_def)
  have rest: "talk\<^sup>*\<^sup>* (c, ?k [t], r @ up, down) (c, k a, up, down)"
    using assms
  proof (cases rule: valid_addr_cases)
    case (domain l r')
    have "talk\<^sup>*\<^sup>* (c, ?k [t], r @ up, down) (c, read_full (unat l + 2) (\<lambda>r. k (t # l # r)), r' @ up, down)"
      using domain s_read [of "[l]" 1 c "\<lambda>l. read_full (unat (l ! 0) + 2) (\<lambda>r. k (t # l @ r))" "r' @ up" down] by (simp add: a)
    also have "talk\<^sup>*\<^sup>* \<dots> (c, k a, up, down)"
      using domain s_read [of r' "unat l + 2" c "\<lambda>r. k (t # l # r)" up down] by (simp add: a)
    finally show ?thesis .
  next
    case (ipv4 r')
    then show ?thesis using s_read [of r' 6 c "\<lambda>r. k (t # r)" up down] by (simp add: a socks_consts)
  next
    case (ipv6 r')
    then show ?thesis using s_read [of r' 18 c "\<lambda>r. k (t # r)" up down] by (simp add: a socks_consts)
  qed
  show ?thesis by (rule rtranclp_trans [OF first rest])
qed

text \<open>The client's side is the mirror image.\<close>

definition mirror :: "('a, 'b) conversation \<Rightarrow> ('b, 'a) conversation" where
  "mirror = (\<lambda>(c, s, up, down). (s, c, down, up))"

lemma talk_mirror: "talk x y \<Longrightarrow> talk (mirror x) (mirror y)"
proof -
  obtain c s up down where x: "x = (c, s, up, down)" by (cases x)
  have "client_step x = Some y \<Longrightarrow> server_step (mirror x) = Some (mirror y)" for y
    unfolding x by (cases c) (auto simp: mirror_def split: if_splits io.splits)
  moreover have "server_step x = Some y \<Longrightarrow> client_step (mirror x) = Some (mirror y)" for y
    unfolding x by (cases s) (auto simp: mirror_def split: if_splits io.splits)
  moreover assume "talk x y"
  ultimately show ?thesis unfolding talk_iff by blast
qed

lemma talks_mirror: "talk\<^sup>*\<^sup>* x y \<Longrightarrow> talk\<^sup>*\<^sup>* (mirror x) (mirror y)"
  by (induction rule: rtranclp_induct) (auto intro: rtranclp.rtrancl_into_rtrancl talk_mirror)

lemma c_ReadAddr: "valid_addr a \<Longrightarrow> talk\<^sup>*\<^sup>* (ReadAddr MaxAddrLen k, s, up, a @ down) (k a, s, up, down)"
  using talks_mirror [OF s_ReadAddr [of a s k down up]] by (simp add: mirror_def)

lemma request_phase:
  assumes "valid_addr addr" "valid_addr l" "command = CmdConnect \<or> command = CmdUDPAssociate"
  shows "talk\<^sup>*\<^sup>* (client_request addr command, server_request (Some l) user, [], [])
    (IoDone (Inr l), IoDone (Inr (addr, command, user)), [], [])"
proof -
  let ?c = "read_full 3 (\<lambda>_. ReadAddr MaxAddrLen (\<lambda>a. IoDone (Inr a)))"
  let ?k = "\<lambda>buf. ReadAddr MaxAddrLen (\<lambda>addr. let command = buf ! 1 in
         if command = CmdConnect \<or> command = CmdUDPAssociate then
           (case Some l of None \<Rightarrow> IoDone (Inl ErrAddressNotSupported)
            | Some l \<Rightarrow> write_all ([5, 0, 0] @ l) (IoDone (Inr (addr, command, user))))
         else IoDone (Inl ErrCommandNotSupported))"
  let ?done = "IoDone (Inr (addr, command, user)) :: (bytes \<times> 8 word \<times> string) handshake"
  have s0: "talk\<^sup>*\<^sup>* (client_request addr command, server_request (Some l) user, [], []) (?c, server_request (Some l) user, [5, command, 0] @ addr, [])"
    using c_write [of "[5, command, 0] @ addr" ?c _ "[]" "[]"] by (simp add: client_request_def)
  have s1: "talk\<^sup>*\<^sup>* (?c, server_request (Some l) user, [5, command, 0] @ addr, []) (?c, ?k [5, command, 0], addr, [])"
    using s_read [of "[5, command, 0]" 3 ?c ?k addr "[]"] by (simp add: server_request_def)
  have s2: "talk\<^sup>*\<^sup>* (?c, ?k [5, command, 0], addr, []) (?c, write_all ([5, 0, 0] @ l) ?done, [], [])"
    using s_ReadAddr [OF assms(1), of ?c _ "[]" "[]"] assms(3) by (simp add: Let_def)
  have s3: "talk\<^sup>*\<^sup>* (?c, write_all ([5, 0, 0] @ l) ?done, [], []) (?c, ?done, [], [5, 0, 0] @ l)"
    using s_write [of ?c "[5, 0, 0] @ l" ?done "[]" "[]"] by simp
  have s4: "talk\<^sup>*\<^sup>* (?c, ?done, [], [5, 0, 0] @ l) (ReadAddr MaxAddrLen (\<lambda>a. IoDone (Inr a)), ?done, [], l)"
    by (rule c_read) simp
  have s5: "talk\<^sup>*\<^sup>* (ReadAddr MaxAddrLen (\<lambda>a. IoDone (Inr a)), ?done, [], l) (IoDone (Inr l), ?done, [], [])"
    using c_ReadAddr [OF assms(2), of _ ?done "[]" "[]"] by simp
  show ?thesis
    by (rule rtranclp_trans [OF s0 rtranclp_trans [OF s1 rtranclp_trans [OF s2 rtranclp_trans [OF s3 rtranclp_trans [OF s4 s5]]]]])
qed

text \<open>The user name and the password of a client arrive; the server accepts or rejects them.\<close>

definition user_ok :: "User \<Rightarrow> bool" where
  "user_ok u \<longleftrightarrow> 0 < length (Username u) \<and> length (Username u) < 256 \<and> 0 < length (Password u) \<and> length (Password u) < 256"

definition client_auth :: "bytes \<Rightarrow> 8 word \<Rightarrow> bytes handshake" where
  "client_auth addr command = read_full 2 (\<lambda>buf2. if buf2 ! 1 \<noteq> 0 then IoDone (Inl RejectedPassword) else client_request addr command)"

definition auth_message :: "User \<Rightarrow> bytes" where
  "auth_message u = [1, of_nat (length (Username u))] @ string_bytes (Username u) @ [of_nat (length (Password u))] @ string_bytes (Password u)"

definition server_password :: "bytes option \<Rightarrow> (string \<Rightarrow> string \<Rightarrow> bool) \<Rightarrow> (bytes \<times> 8 word \<times> string) handshake" where
  "server_password localAddr verify =
     read_full 2 (\<lambda>header.
       let userLen = unat (header ! 1) in
       if userLen = 0 then auth_failed
       else read_full userLen (\<lambda>u.
         read_full 1 (\<lambda>header2.
           let passLen = unat (header2 ! 0) in
           if passLen = 0 then auth_failed
           else read_full passLen (\<lambda>p.
             if \<not> verify (bytes_string u) (bytes_string p) then auth_failed
             else write_all [1, 0] (server_request localAddr (bytes_string u))))))"

lemma greeting_with_password:
  "talk\<^sup>*\<^sup>* (ClientHandshake addr command (Some u), ServerHandshake l authenticator, [], [])
    (client_auth addr command, server_password l (case authenticator of Some verify \<Rightarrow> verify | None \<Rightarrow> \<lambda>_ _. True), auth_message u, [])"
proof -
  let ?verify = "case authenticator of Some verify \<Rightarrow> verify | None \<Rightarrow> \<lambda>_ _. True"
  define K where "K = (\<lambda>buf. if buf ! 0 \<noteq> (5 :: 8 word) then IoDone (Inl VersionError)
       else if buf ! 1 = 2 then write_all (auth_message u) (client_auth addr command)
       else if buf ! 1 \<noteq> 0 then IoDone (Inl NeedAuth) else client_request addr command)"
  define M where "M = (\<lambda>n methods. case (if n = (1 :: nat) \<and> methods ! 0 = (2 :: 8 word) \<and> authenticator = None then Some (\<lambda>_ _. True) else authenticator) of
       Some verify \<Rightarrow> server_auth l verify | None \<Rightarrow> write_all [5, 0] (server_request l []))"
  have client: "ClientHandshake addr command (Some u) = write_all [5, 1, 2] (read_full 2 K)"
    unfolding ClientHandshake_def K_def auth_message_def client_auth_def option.case by simp
  have server: "ServerHandshake l authenticator = read_full 2 (\<lambda>h. read_full (unat (h ! 1)) (M (unat (h ! 1))))"
    by (simp add: ServerHandshake_def M_def Let_def)
  have M: "M (Suc 0) [2] = write_all [5, 2] (server_password l ?verify)"
    by (cases authenticator) (simp_all add: M_def server_auth_def server_password_def)
  have K: "K [5, 2] = write_all (auth_message u) (client_auth addr command)" by (simp add: K_def)
  have "talk\<^sup>*\<^sup>* (ClientHandshake addr command (Some u), ServerHandshake l authenticator, [], []) (read_full 2 K, ServerHandshake l authenticator, [5, 1] @ [2], [])"
    using c_write [of "[5, 1, 2]" "read_full 2 K" _ "[]" "[]"] by (simp add: client)
  also have "talk\<^sup>*\<^sup>* \<dots> (read_full 2 K, read_full 1 (M 1), [2], [])"
    using s_read [of "[5, 1]" 2 "read_full 2 K" "\<lambda>h. read_full (unat (h ! 1)) (M (unat (h ! 1)))" "[2]" "[]"] by (simp add: server)
  also have "talk\<^sup>*\<^sup>* \<dots> (read_full 2 K, M 1 [2], [], [])"
    using s_read [of "[2]" 1 "read_full 2 K" "M 1" "[]" "[]"] by simp
  also have "talk\<^sup>*\<^sup>* \<dots> (read_full 2 K, server_password l ?verify, [], [5, 2])"
    using s_write [of "read_full 2 K" "[5, 2]" "server_password l ?verify" "[]" "[]"] by (simp add: M)
  also have "talk\<^sup>*\<^sup>* \<dots> (K [5, 2], server_password l ?verify, [], [])"
    using c_read [of "[5, 2]" 2 K "server_password l ?verify" "[]" "[]"] by simp
  also have "talk\<^sup>*\<^sup>* \<dots> (client_auth addr command, server_password l ?verify, auth_message u, [])"
    using c_write [of "auth_message u" "client_auth addr command" "server_password l ?verify" "[]" "[]"] by (simp add: K)
  finally show ?thesis .
qed

lemma password_read:
  assumes "user_ok u"
  shows "talk\<^sup>*\<^sup>* (c, server_password l verify, auth_message u, [])
    (c, if \<not> verify (Username u) (Password u) then auth_failed else write_all [1, 0] (server_request l (Username u)), [], [])"
proof -
  have len: "unat (of_nat (length (Username u)) :: 8 word) = length (Username u)" "unat (of_nat (length (Password u)) :: 8 word) = length (Password u)"
    using assms by (simp_all add: user_ok_def unat_of_nat take_bit_nat_eq_self)
  let ?ul = "of_nat (length (Username u)) :: 8 word" and ?pl = "of_nat (length (Password u)) :: 8 word"
  let ?un = "string_bytes (Username u)" and ?pw = "string_bytes (Password u)"
  define P where "P = (\<lambda>u p. if \<not> verify (bytes_string u) (bytes_string p) then auth_failed else write_all [1, 0] (server_request l (bytes_string u)))"
  define Q where "Q = (\<lambda>u h. if unat (h ! 0 :: 8 word) = 0 then auth_failed else read_full (unat (h ! 0)) (P u))"
  define R where "R = (\<lambda>h. if unat (h ! 1 :: 8 word) = 0 then auth_failed else read_full (unat (h ! 1)) (\<lambda>u. read_full 1 (Q u)))"
  have "server_password l verify = read_full 2 R"
    unfolding server_password_def R_def Q_def P_def Let_def ..
  then have "talk\<^sup>*\<^sup>* (c, server_password l verify, auth_message u, []) (c, R [1, ?ul], ?un @ [?pl] @ ?pw, [])"
    using s_read [of "[1, ?ul]" 2 c R "?un @ [?pl] @ ?pw" "[]"] by (simp add: auth_message_def)
  also have "R [1, ?ul] = read_full (length (Username u)) (\<lambda>u. read_full 1 (Q u))" using assms by (simp add: R_def len user_ok_def)
  also have "talk\<^sup>*\<^sup>* (c, read_full (length (Username u)) (\<lambda>u. read_full 1 (Q u)), ?un @ [?pl] @ ?pw, []) (c, read_full 1 (Q ?un), [?pl] @ ?pw, [])"
    by (rule s_read) simp
  also have "talk\<^sup>*\<^sup>* \<dots> (c, Q ?un [?pl], ?pw, [])" by (rule s_read) simp
  also have "Q ?un [?pl] = read_full (length (Password u)) (P ?un)" using assms by (simp add: Q_def len user_ok_def)
  also have "talk\<^sup>*\<^sup>* (c, read_full (length (Password u)) (P ?un), ?pw, []) (c, P ?un ?pw, [], [])"
    using s_read [of ?pw "length (Password u)" c "P ?un" "[]" "[]"] by simp
  finally show ?thesis by (simp add: P_def cong: if_cong)
qed

lemma auth_phase:
  assumes "user_ok u"
  shows "talk\<^sup>*\<^sup>* (ClientHandshake addr command (Some u), ServerHandshake l authenticator, [], [])
    (if (case authenticator of Some verify \<Rightarrow> verify (Username u) (Password u) | None \<Rightarrow> True)
     then (client_request addr command, server_request l (Username u), [], [])
     else (IoDone (Inl RejectedPassword), IoDone (Inl SocksErrAuth), [], []))"
proof -
  let ?verify = "case authenticator of Some verify \<Rightarrow> verify | None \<Rightarrow> \<lambda>_ _. True"
  define K where "K = (\<lambda>buf2. if buf2 ! 1 \<noteq> (0 :: 8 word) then IoDone (Inl RejectedPassword) else client_request addr command)"
  have c: "client_auth addr command = read_full 2 K" by (simp add: client_auth_def K_def)
  note start = greeting_with_password [of addr command u l authenticator]
  note start = rtranclp_trans [OF start password_read [OF assms]]
  show ?thesis
  proof (cases "?verify (Username u) (Password u)")
    case True
    have "talk\<^sup>*\<^sup>* (client_auth addr command, write_all [1, 0] (server_request l (Username u)), [], []) (read_full 2 K, server_request l (Username u), [], [1, 0])"
      using s_write [of "read_full 2 K" "[1, 0]" "server_request l (Username u)" "[]" "[]"] by (simp add: c)
    also have "talk\<^sup>*\<^sup>* \<dots> (K [1, 0], server_request l (Username u), [], [])"
      using c_read [of "[1, 0]" 2 K _ "[]" "[]"] by simp
    finally have "talk\<^sup>*\<^sup>* (client_auth addr command, write_all [1, 0] (server_request l (Username u)), [], []) (client_request addr command, server_request l (Username u), [], [])"
      by (simp add: K_def)
    with start True show ?thesis by (auto split: option.splits intro: rtranclp_trans)
  next
    case False
    let ?e = "IoDone (Inl SocksErrAuth) :: (bytes \<times> 8 word \<times> string) handshake"
    have "talk\<^sup>*\<^sup>* (client_auth addr command, auth_failed, [], []) (read_full 2 K, ?e, [], [1, 1])"
      by (rule r_into_rtranclp) (simp add: talk_iff auth_failed_def c)
    also have "talk\<^sup>*\<^sup>* \<dots> (K [1, 1], ?e, [], [])" using c_read [of "[1, 1]" 2 K ?e "[]" "[]"] by simp
    finally have "talk\<^sup>*\<^sup>* (client_auth addr command, auth_failed, [], []) (IoDone (Inl RejectedPassword), ?e, [], [])" by (simp add: K_def)
    with start False show ?thesis by (auto split: option.splits intro: rtranclp_trans)
  qed
qed

lemma greeting_without_password:
  "talk\<^sup>*\<^sup>* (ClientHandshake addr command None, ServerHandshake l authenticator, [], [])
    (case authenticator of
       None \<Rightarrow> (client_request addr command, server_request l [], [], [])
     | Some _ \<Rightarrow> (IoDone (Inl SocksErrAuth), IoDone (Inl SocksIO), [], []))"
proof -
  define K where "K = (\<lambda>buf. if buf ! 0 \<noteq> (5 :: 8 word) then IoDone (Inl VersionError)
       else if buf ! 1 = 2 then IoDone (Inl SocksErrAuth)
       else if buf ! 1 \<noteq> 0 then IoDone (Inl NeedAuth) else client_request addr command)"
  define M where "M = (\<lambda>n methods. case (if n = (1 :: nat) \<and> methods ! 0 = (2 :: 8 word) \<and> authenticator = None then Some (\<lambda>_ _. True) else authenticator) of
       Some verify \<Rightarrow> server_auth l verify | None \<Rightarrow> write_all [5, 0] (server_request l []))"
  have client: "ClientHandshake addr command None = write_all [5, 1, 0] (read_full 2 K)"
    unfolding ClientHandshake_def K_def option.case by simp
  have server: "ServerHandshake l authenticator = read_full 2 (\<lambda>h. read_full (unat (h ! 1)) (M (unat (h ! 1))))"
    by (simp add: ServerHandshake_def M_def Let_def)
  have "talk\<^sup>*\<^sup>* (ClientHandshake addr command None, ServerHandshake l authenticator, [], []) (read_full 2 K, ServerHandshake l authenticator, [5, 1] @ [0], [])"
    using c_write [of "[5, 1, 0]" "read_full 2 K" _ "[]" "[]"] by (simp add: client)
  also have "talk\<^sup>*\<^sup>* \<dots> (read_full 2 K, read_full 1 (M 1), [0], [])"
    using s_read [of "[5, 1]" 2 "read_full 2 K" "\<lambda>h. read_full (unat (h ! 1)) (M (unat (h ! 1)))" "[0]" "[]"] by (simp add: server)
  also have "talk\<^sup>*\<^sup>* \<dots> (read_full 2 K, M 1 [0], [], [])"
    using s_read [of "[0]" 1 "read_full 2 K" "M 1" "[]" "[]"] by simp
  finally have start: "talk\<^sup>*\<^sup>* (ClientHandshake addr command None, ServerHandshake l authenticator, [], []) (read_full 2 K, M 1 [0], [], [])" .
  show ?thesis
  proof (cases authenticator)
    case None
    note start
    also have "talk\<^sup>*\<^sup>* (read_full 2 K, M 1 [0], [], []) (read_full 2 K, server_request l [], [], [5, 0])"
      using s_write [of "read_full 2 K" "[5, 0]" "server_request l []" "[]" "[]"] by (simp add: M_def None)
    also have "talk\<^sup>*\<^sup>* \<dots> (K [5, 0], server_request l [], [], [])"
      using c_read [of "[5, 0]" 2 K "server_request l []" "[]" "[]"] by simp
    finally show ?thesis by (simp add: K_def None)
  next
    case (Some verify)
    have M: "M 1 [0] = write_all [5, 2] (server_password l verify)"
      by (simp add: M_def Some server_auth_def server_password_def)
    note start
    also have "talk\<^sup>*\<^sup>* (read_full 2 K, M 1 [0], [], []) (read_full 2 K, server_password l verify, [], [5, 2])"
      using s_write [of "read_full 2 K" "[5, 2]" "server_password l verify" "[]" "[]"] unfolding M by simp
    also have "talk\<^sup>*\<^sup>* \<dots> (K [5, 2], server_password l verify, [], [])"
      using c_read [of "[5, 2]" 2 K "server_password l verify" "[]" "[]"] by simp
    also have "K [5, 2] = IoDone (Inl SocksErrAuth)" by (simp add: K_def)
    also have "talk\<^sup>*\<^sup>* (IoDone (Inl SocksErrAuth), server_password l verify, [], []) (IoDone (Inl SocksErrAuth), IoDone (Inl SocksIO), [], [])"
      by (rule r_into_rtranclp) (simp add: talk_iff server_password_def read_full_def)
    finally show ?thesis by (simp add: Some)
  qed
qed

text \<open>What the two sides are to agree on, for each choice of credentials and authenticator.\<close>

definition handshake_outcome ::
    "bytes \<Rightarrow> 8 word \<Rightarrow> bytes \<Rightarrow> User option \<Rightarrow> (string \<Rightarrow> string \<Rightarrow> bool) option \<Rightarrow>
     (socks_error, bytes) result \<times> (socks_error, bytes \<times> 8 word \<times> string) result" where
  "handshake_outcome addr command l user authenticator =
     (case (user, authenticator) of
        (None, None) \<Rightarrow> (Inr l, Inr (addr, command, []))
      | (None, Some _) \<Rightarrow> (Inl SocksErrAuth, Inl SocksIO)
      | (Some u, None) \<Rightarrow> (Inr l, Inr (addr, command, Username u))
      | (Some u, Some verify) \<Rightarrow>
          (if verify (Username u) (Password u) then (Inr l, Inr (addr, command, Username u))
           else (Inl RejectedPassword, Inl SocksErrAuth)))"

lemma handshake_reaches_outcome:
  assumes "valid_addr addr" "valid_addr l" "command = CmdConnect \<or> command = CmdUDPAssociate"
    "\<And>u. user = Some u \<Longrightarrow> user_ok u"
  shows "talk\<^sup>*\<^sup>* (ClientHandshake addr command user, ServerHandshake (Some l) authenticator, [], [])
    (IoDone (fst (handshake_outcome addr command l user authenticator)), IoDone (snd (handshake_outcome addr command l user authenticator)), [], [])"
proof (cases user)
  case None
  note start = greeting_without_password [of addr command "Some l" authenticator]
  note request = request_phase [OF assms(1-3), of "[]"]
  show ?thesis
  proof (cases authenticator)
    case (Some verify)
    then show ?thesis using start by (simp add: None handshake_outcome_def)
  qed (use start request in \<open>simp add: None handshake_outcome_def\<close>)
next
  case (Some u)
  note start = auth_phase [OF assms(4) [OF Some], of addr command "Some l" authenticator]
  note request = request_phase [OF assms(1-3), of "Username u"]
  let ?ok = "case authenticator of Some verify \<Rightarrow> verify (Username u) (Password u) | None \<Rightarrow> True"
  show ?thesis
  proof (cases ?ok)
    case True
    then have "handshake_outcome addr command l user authenticator = (Inr l, Inr (addr, command, Username u))"
      using Some by (auto simp: handshake_outcome_def split: option.splits)
    with start True request Some show ?thesis by simp
  next
    case False
    then have "handshake_outcome addr command l user authenticator = (Inl RejectedPassword, Inl SocksErrAuth)"
      using Some by (auto simp: handshake_outcome_def split: option.splits)
    with start False Some show ?thesis by simp
  qed
qed

text \<open>Fields of an address that has its full length are never out of range.\<close>

lemma valid_addr_prints: "valid_addr a \<Longrightarrow> \<exists>t. socks_String a = Some t"
  by (erule valid_addr_cases) (auto simp: socks_String_def slice_def socks_consts Let_def)

lemma valid_addr_UDPAddr: "valid_addr a \<Longrightarrow> \<exists>r. socks_UDPAddr a = Some r"
  by (erule valid_addr_cases) (auto simp: socks_UDPAddr_def slice_def socks_consts Let_def)

lemma SplitAddr_valid: "SplitAddr b = Some a \<Longrightarrow> valid_addr a"
  by (auto simp: valid_addr_def SplitAddr_def socks_consts Let_def take_Cons' split: list.splits if_splits)

lemma DecodeUDPPacket_valid: "DecodeUDPPacket p = Inr (a, payload) \<Longrightarrow> valid_addr a"
  by (auto simp: DecodeUDPPacket_def dest: SplitAddr_valid split: if_splits option.splits)

lemma valid_addrI:
  "length r = unat l + 2 \<Longrightarrow> valid_addr (socks_AtypDomainName # l # r)"
  "length r = 6 \<Longrightarrow> valid_addr (socks_AtypIPv4 # r)"
  "length r = 18 \<Longrightarrow> valid_addr (socks_AtypIPv6 # r)"
  by (simp_all add: valid_addr_def SplitAddr_def socks_consts)

lemma To4_length: "To4 ip = Some b \<Longrightarrow> length b = 4"
  by (auto simp: To4_def split: if_splits)

lemma ParseAddrToSocksAddr_valid: "ParseAddrToSocksAddr x = Some a \<Longrightarrow> valid_addr a"
  by (auto simp: ParseAddrToSocksAddr_def length_be_bytes dest: socks_ParseAddr_valid To4_length intro!: valid_addrI
      split: option.splits if_splits prod.splits)

section \<open>Whatever the peer does\<close>

text \<open>
  The results of a handshake with an arbitrary peer: each read gets any bytes of the length asked for, or fails, and
  each write succeeds or fails.
\<close>

inductive yields :: "'r io \<Rightarrow> 'r \<Rightarrow> bool" where
  done_yields: "yields (IoDone r) r"
| read_yields: "yields (k (Some b)) r \<Longrightarrow> length b = n \<Longrightarrow> yields (IoRead n k) r"
| read_fails: "yields (k None) r \<Longrightarrow> yields (IoRead n k) r"
| write_yields: "yields (k ok) r \<Longrightarrow> yields (IoWrite bs k) r"

inductive_simps yields_done_iff [simp]: "yields (IoDone r') r"

inductive_cases yields_readE: "yields (IoRead n k) r"

inductive_cases yields_writeE: "yields (IoWrite bs k) r"

lemma read_full_yieldsI: "length b = n \<Longrightarrow> yields (k b) r \<Longrightarrow> yields (read_full n k) r"
  unfolding read_full_def by (auto intro: read_yields)

lemma write_all_yieldsI: "yields k r \<Longrightarrow> yields (write_all bs k) r"
  unfolding write_all_def by (auto intro: write_yields [where ok = True])

lemma read_full_yields: "yields (read_full n k) (Inr r) \<Longrightarrow> \<exists>b. length b = n \<and> yields (k b) (Inr r)"
  unfolding read_full_def by (elim yields_readE) auto

lemma write_all_yields: "yields (write_all bs k) (Inr r) \<Longrightarrow> yields k (Inr r)"
  unfolding write_all_def by (elim yields_writeE) (auto split: if_splits)

lemma auth_failed_yields [simp]: "\<not> yields auth_failed (Inr r)"
  unfolding auth_failed_def by (auto elim: yields_writeE)

lemma ReadAddr_yields:
  assumes "yields (ReadAddr n k) (Inr r)"
  shows "\<exists>a. valid_addr a \<and> yields (k a) (Inr r)"
proof -
  define K where "K = (\<lambda>t. if t ! 0 = socks_AtypDomainName then read_full 1 (\<lambda>l. read_full (unat (l ! 0) + 2) (\<lambda>r. k (t @ l @ r)))
      else if t ! 0 = socks_AtypIPv4 then read_full (4 + 2) (\<lambda>r. k (t @ r))
      else if t ! 0 = socks_AtypIPv6 then read_full (16 + 2) (\<lambda>r. k (t @ r))
      else IoDone (Inl ErrAddressNotSupported))"
  from assms have "yields (read_full 1 K) (Inr r)"
    unfolding ReadAddr_def K_def by (auto split: if_splits)
  then obtain t where t: "yields (K [t]) (Inr r)"
    by (auto dest!: read_full_yields simp: length_Suc_conv)
  consider (domain) "t = socks_AtypDomainName" | (ipv4) "t = socks_AtypIPv4" | (ipv6) "t = socks_AtypIPv6"
    using t unfolding K_def by (auto split: if_splits)
  then show ?thesis
  proof cases
    case domain
    with t have "yields (read_full 1 (\<lambda>l. read_full (unat (l ! 0) + 2) (\<lambda>r. k ([t] @ l @ r)))) (Inr r)" by (simp add: K_def)
    from read_full_yields [OF this] obtain l where "yields (read_full (unat l + 2) (\<lambda>r. k (t # l # r))) (Inr r)"
      by (auto simp: length_Suc_conv)
    then obtain b where "length b = unat l + 2" "yields (k (t # l # b)) (Inr r)" by (blast dest: read_full_yields)
    with domain show ?thesis by (blast intro: valid_addrI)
  next
    case ipv4
    with t have "yields (read_full 6 (\<lambda>r. k (t # r))) (Inr r)" by (simp add: K_def socks_consts)
    with ipv4 show ?thesis by (blast dest: read_full_yields intro: valid_addrI)
  next
    case ipv6
    with t have "yields (read_full 18 (\<lambda>r. k (t # r))) (Inr r)" by (simp add: K_def socks_consts)
    with ipv6 show ?thesis by (blast dest: read_full_yields intro: valid_addrI)
  qed
qed

lemma ReadAddr0_ReadAddr:
  assumes "yields (ReadAddr0 k) (Inr r)"
  shows "yields (ReadAddr MaxAddrLen k) (Inr r)"
proof -
  from assms obtain t where t: "yields
      (if t = socks_AtypDomainName then read_full 1 (\<lambda>l. read_full (unat (l ! 0) + 2) (\<lambda>r. k ([t, l ! 0] @ r)))
       else if t = socks_AtypIPv4 then read_full (4 + 2) (\<lambda>r. k ([t] @ r))
       else if t = socks_AtypIPv6 then read_full (16 + 2) (\<lambda>r. k ([t] @ r))
       else IoDone (Inl ErrAddressNotSupported)) (Inr r)"
    unfolding ReadAddr0_def by (auto dest!: read_full_yields simp: length_Suc_conv)
  moreover have "yields (read_full 1 (\<lambda>l. read_full (unat (l ! 0) + 2) (\<lambda>r. k ([t] @ l @ r)))) (Inr r)"
    if "yields (read_full 1 (\<lambda>l. read_full (unat (l ! 0) + 2) (\<lambda>r. k ([t, l ! 0] @ r)))) (Inr r)"
  proof -
    from read_full_yields [OF that] obtain l where "yields (read_full (unat l + 2) (\<lambda>r. k ([t, l] @ r))) (Inr r)"
      by (auto simp: length_Suc_conv)
    then show ?thesis
      using read_full_yieldsI [of "[l]" 1 "\<lambda>l. read_full (unat (l ! 0) + 2) (\<lambda>r. k ([t] @ l @ r))" "Inr r"] by simp
  qed
  ultimately show ?thesis
    unfolding ReadAddr_def by (auto intro!: read_full_yieldsI [where b = "[t]"] split: if_splits)
qed

text \<open>
  C6.  Well-formedness of SOCKS addresses: every function of the package that makes one, from bytes, a packet, a
  text, an address of the network library or a connection whose peer sends anything (\<open>ReadAddr\<close> and
  \<open>ReadAddr0\<close>), makes one of exactly the length its type byte asks for, so that printing it and converting it
  never index out of range.
\<close>

theorem socks_addr_well_formed:
  assumes "SplitAddr b = Some a \<or> DecodeUDPPacket p = Inr (a, payload) \<or> socks_ParseAddr s = Some a \<or>
    ParseAddrToSocksAddr x = Some a \<or> a = AddrFromStdAddrPort ip port \<or>
    yields (ReadAddr n (\<lambda>addr. IoDone (Inr addr))) (Inr a) \<or> yields (ReadAddr0 (\<lambda>addr. IoDone (Inr addr))) (Inr a)"
  shows "valid_addr a \<and> (\<exists>t. socks_String a = Some t) \<and> (\<exists>r. socks_UDPAddr a = Some r)"
proof -
  have read: "valid_addr a" if "yields (ReadAddr m (\<lambda>addr. IoDone (Inr addr))) (Inr a)" for m
    using ReadAddr_yields [OF that] by simp
  from assms have "valid_addr a"
    by (elim disjE) (simp_all add: SplitAddr_valid DecodeUDPPacket_valid socks_ParseAddr_valid ParseAddrToSocksAddr_valid
      AddrFromStdAddrPort_valid read read [OF ReadAddr0_ReadAddr])
  with valid_addr_prints valid_addr_UDPAddr show ?thesis by blast
qed

theorem socks_addr_well_formed_witness:
  "yields (ReadAddr0 (\<lambda>addr. IoDone (Inr addr))) (Inr [1, 8, 8, 8, 8, 0, 53]) \<and>
   (\<exists>t. socks_String [1, 8, 8, 8, 8, 0, 53] = Some t)"
proof -
  have "yields (ReadAddr0 (\<lambda>addr. IoDone (Inr addr))) (Inr [1, 8, 8, 8, 8, 0, 53])"
    unfolding ReadAddr0_def
    by (rule read_full_yieldsI [of "[1]"])
      (simp_all add: socks_consts read_full_yieldsI [of "[8, 8, 8, 8, 0, 53]"])
  then show ?thesis
    using socks_addr_well_formed [of "[]" "[1, 8, 8, 8, 8, 0, 53]" "[]" "[]" "[]" None NoAddr 0 0]
    by blast
qed

lemma server_request_yields:
  assumes "yields (server_request l user) (Inr (addr, command, user'))"
  shows "user' = user \<and> valid_addr addr \<and> (command = CmdConnect \<or> command = CmdUDPAssociate)"
  using assms unfolding server_request_def Let_def
  by (auto dest!: read_full_yields ReadAddr_yields write_all_yields split: if_splits option.splits)

lemma server_auth_yields:
  assumes "yields (server_auth l verify) (Inr r)"
  shows "\<exists>u p. verify u p \<and> yields (server_request l u) (Inr r)"
  using assms unfolding server_auth_def Let_def
  by (auto dest!: read_full_yields write_all_yields split: if_splits) blast

text \<open>
  C40.  No handshake of the server gets past its authenticator: whatever a client sends and wherever the connection
  fails, a server that has an authenticator returns a request only for a user name that it verified with
  some password, and the request is a CONNECT or a UDP ASSOCIATE to a well-formed address.
\<close>

theorem socks5_server_admits_verified:
  assumes "yields (ServerHandshake localAddr (Some verify)) (Inr (addr, command, user))"
  shows "(\<exists>p. verify user p) \<and> valid_addr addr \<and> (command = CmdConnect \<or> command = CmdUDPAssociate)"
proof -
  obtain u p where "verify u p" "yields (server_request localAddr u) (Inr (addr, command, user))"
    using assms unfolding ServerHandshake_def Let_def by (auto dest!: read_full_yields server_auth_yields)
  with server_request_yields show ?thesis by blast
qed

theorem socks5_server_admits_verified_witness:
  "yields (ServerHandshake (Some [1, 127, 0, 0, 1, 4, 56]) (Some (\<lambda>u p. u = ''u'' \<and> p = ''p''))) (Inr ([1, 8, 8, 8, 8, 0, 53], CmdConnect, ''u'')) \<and>
   valid_addr [1, 8, 8, 8, 8, 0, 53]"
proof -
  let ?l = "Some [1, 127, 0, 0, 1, 4, 56] :: bytes option" and ?v = "\<lambda>u p. u = ''u'' \<and> p = ''p''"
  let ?r = "Inr ([1, 8, 8, 8, 8, 0, 53], CmdConnect, ''u'') :: (socks_error, bytes \<times> 8 word \<times> string) result"
  have ascii: "bytes_string [117] = ''u''" "bytes_string [112] = ''p''" by (simp_all add: bytes_string_def) code_simp+
  have 1: "yields (server_request ?l ''u'') ?r"
    unfolding server_request_def ReadAddr_def
    by (rule read_full_yieldsI [of "[5, 1, 0]"], simp, simp, rule read_full_yieldsI [of "[1]"], simp, simp add: socks_consts,
        rule read_full_yieldsI [of "[8, 8, 8, 8, 0, 53]"]) (auto intro: write_all_yieldsI)
  have 2: "yields (server_auth ?l ?v) ?r"
    unfolding server_auth_def
    by (rule write_all_yieldsI, rule read_full_yieldsI [of "[1, 1]"], simp, simp, rule read_full_yieldsI [of "[117]"], simp,
        rule read_full_yieldsI [of "[1]"], simp, simp, rule read_full_yieldsI [of "[112]"]) (use 1 in \<open>auto simp: ascii intro: write_all_yieldsI\<close>)
  have "yields (ServerHandshake ?l (Some ?v)) ?r"
    unfolding ServerHandshake_def by (rule read_full_yieldsI [of "[5, 1]"], simp, simp, rule read_full_yieldsI [of "[2]"]) (use 2 in simp_all)
  with socks5_server_admits_verified [OF this] show ?thesis by blast
qed

text \<open>
  C18.  The client's and the server's side of a SOCKS5 handshake fit together: whatever the order in which their
  steps are taken, the conversation ends, after the same number of steps, with nothing left on the wire
  and with the outcome the credentials call for.  The server has the address, the command and the user name of the
  client and the client the server's address; or the password is rejected on both sides; or a client without
  credentials meets a server that asks for them and both give up.  Neither waits for the other for ever.
\<close>

theorem socks5_handshake_agrees:
  assumes "valid_addr addr" "valid_addr l" "command = CmdConnect \<or> command = CmdUDPAssociate"
    "\<And>u. user = Some u \<Longrightarrow> user_ok u"
  shows "\<exists>n. \<forall>m y. (talk ^^ m) (ClientHandshake addr command user, ServerHandshake (Some l) authenticator, [], []) y \<longrightarrow>
    m \<le> n \<and> (talk ^^ (n - m)) y
      (IoDone (fst (handshake_outcome addr command l user authenticator)),
       IoDone (snd (handshake_outcome addr command l user authenticator)), [], [])"
proof -
  let ?start = "(ClientHandshake addr command user, ServerHandshake (Some l) authenticator, [], [])"
  let ?fin = "(IoDone (fst (handshake_outcome addr command l user authenticator)),
    IoDone (snd (handshake_outcome addr command l user authenticator)), [], [])"
  obtain n where n: "(talk ^^ n) ?start ?fin"
    using handshake_reaches_outcome [OF assms] by (auto simp: rtranclp_power)
  have "\<not> talk ?fin v" for v by (simp add: talk_iff)
  with n show ?thesis using every_run_ends [of ?fin n ?start] by blast
qed

text \<open>Witness: a client connects to a domain with a password, the server's address is \<open>127.0.0.1\<close>.\<close>

definition socks_user :: User where "socks_user = \<lparr>Username = ''u'', Password = ''p''\<rparr>"

theorem socks5_handshake_agrees_witness:
  "\<exists>n. \<forall>m y. (talk ^^ m) (ClientHandshake [3, 1, 97, 0, 80] CmdConnect (Some socks_user),
       ServerHandshake (Some [1, 127, 0, 0, 1, 4, 56]) (Some (\<lambda>u p. u = ''u'' \<and> p = ''p'')), [], []) y \<longrightarrow>
    m \<le> n \<and> (talk ^^ (n - m)) y (IoDone (Inr [1, 127, 0, 0, 1, 4, 56]), IoDone (Inr ([3, 1, 97, 0, 80], CmdConnect, ''u'')), [], [])"
  using socks5_handshake_agrees [of "[3, 1, 97, 0, 80]" "[1, 127, 0, 0, 1, 4, 56]" CmdConnect "Some socks_user"
      "Some (\<lambda>u p. u = ''u'' \<and> p = ''p'')"]
  by (simp add: valid_addr_def SplitAddr_def socks_consts user_ok_def socks_user_def handshake_outcome_def)

end
