(* ===== verification/Sniffer.thy ===== *)
theory Sniffer
  imports Wire Netip_Text Int_Ranges Metadata LRU_Cache "HOL-Library.Multiset"
begin

text \<open>
  \<open>component/sniffer\<close>: the readers that find a host name in the first bytes of a connection (TLS server name, HTTP
  Host header), and the dispatcher that decides when to look, waits for the bytes, remembers the
  destinations where nothing was found and rewrites the metadata.  An index or a slice out of range is the error
  \<open>SniffPanic\<close>, which no input reaches.
\<close>

section \<open>Slices\<close>

datatype sniff_error =
    ErrNoClue
  | ErrNotTLS
  | ErrNotClientHello
  | ErrNeedAtLeastData nat
  | ErrNotHTTPMethod
  | ErrHostIsIP
  | ErrSplitHostPort
  | ErrorUnsupportedSniffer
  | ErrorSniffFailed
  | ErrPeek bool
  | SniffPanic

definition byte_at :: "bytes \<Rightarrow> nat \<Rightarrow> (sniff_error, 8 word) result" where
  "byte_at d i = (if i < length d then Inr (d ! i) else Inl SniffPanic)"

definition from_index :: "bytes \<Rightarrow> nat \<Rightarrow> (sniff_error, bytes) result" where
  "from_index d i = (if i \<le> length d then Inr (drop i d) else Inl SniffPanic)"

definition up_to :: "bytes \<Rightarrow> nat \<Rightarrow> (sniff_error, bytes) result" where
  "up_to d i = (if i \<le> length d then Inr (take i d) else Inl SniffPanic)"

text \<open>\<open>int(d[i])<<8 | int(d[i+1])\<close>.\<close>

definition uint16_at :: "bytes \<Rightarrow> nat \<Rightarrow> (sniff_error, nat) result" where
  "uint16_at d i =
     result_bind (byte_at d i) (\<lambda>hi. result_bind (byte_at d (Suc i)) (\<lambda>lo. Inr (256 * unat hi + unat lo)))"

lemma slice_ok [simp]:
  "i < length d \<Longrightarrow> byte_at d i = Inr (d ! i)" "i \<le> length d \<Longrightarrow> from_index d i = Inr (drop i d)"
  "i \<le> length d \<Longrightarrow> up_to d i = Inr (take i d)"
  "Suc i < length d \<Longrightarrow> uint16_at d i = Inr (256 * unat (d ! i) + unat (d ! Suc i))"
  by (simp_all add: byte_at_def from_index_def up_to_def uint16_at_def)

lemma from_index_Inr: "from_index d i = Inr d' \<Longrightarrow> i \<le> length d \<and> d' = drop i d"
  by (auto simp: from_index_def split: if_splits)

section \<open>tls\_sniffer.go\<close>

definition IsValidTLSVersion :: "8 word \<Rightarrow> 8 word \<Rightarrow> bool" where
  "IsValidTLSVersion major minor \<longleftrightarrow> major = 3"

text \<open>The loop over the names of the server name extension; \<^const>\<open>None\<close> when no name is a host name.\<close>

function name_loop :: "bytes \<Rightarrow> (sniff_error, string option) result" where
  "name_loop d =
     (if length d > 0 then
        if length d < 3 then Inl ErrNotClientHello
        else
          result_bind (byte_at d 0) (\<lambda>nameType.
          result_bind (uint16_at d 1) (\<lambda>nameLen.
          result_bind (from_index d 3) (\<lambda>d1.
            if length d1 < nameLen then Inl ErrNotClientHello
            else if nameType = 0 then
              result_bind (up_to d1 nameLen) (\<lambda>n.
                let serverName = bytes_string n in
                if has_suffix serverName ''.'' then Inl ErrNotClientHello else Inr (Some serverName))
            else result_bind (from_index d1 nameLen) name_loop)))
      else Inr None)"
  by pat_completeness auto
termination by (relation "measure length") (auto dest!: from_index_Inr)

declare name_loop.simps [simp del]

text \<open>The loop over the extensions.\<close>

function extension_loop :: "bytes \<Rightarrow> (sniff_error, string) result" where
  "extension_loop data =
     (if length data \<noteq> 0 then
        if length data < 4 then Inl ErrNotClientHello
        else
          result_bind (uint16_at data 0) (\<lambda>extension.
          result_bind (uint16_at data 2) (\<lambda>len.
          result_bind (from_index data 4) (\<lambda>data1.
            if length data1 < len then Inl ErrNotClientHello
            else
              result_bind
                (if extension = 0 then
                   result_bind (up_to data1 len) (\<lambda>d.
                     if length d < 2 then Inl ErrNotClientHello
                     else
                       result_bind (uint16_at d 0) (\<lambda>namesLen.
                       result_bind (from_index d 2) (\<lambda>d1.
                         if length d1 \<noteq> namesLen then Inl ErrNotClientHello else name_loop d1)))
                 else Inr None)
                (\<lambda>r. case r of
                   Some serverName \<Rightarrow> Inr serverName
                 | None \<Rightarrow> result_bind (from_index data1 len) extension_loop))))
      else Inl ErrNotTLS)"
  by pat_completeness auto
termination by (relation "measure length") (auto dest!: from_index_Inr)

declare extension_loop.simps [simp del]

definition ReadClientHello_tls :: "bytes \<Rightarrow> (sniff_error, string) result" where
  "ReadClientHello_tls data =
     (if length data < 42 then Inl ErrNoClue
      else
        result_bind (byte_at data 38) (\<lambda>l.
        let sessionIDLen = unat l in
        if sessionIDLen > 32 \<or> length data < 39 + sessionIDLen then Inl ErrNoClue
        else
          result_bind (from_index data (39 + sessionIDLen)) (\<lambda>data1.
          if length data1 < 2 then Inl ErrNoClue
          else
            result_bind (uint16_at data1 0) (\<lambda>cipherSuiteLen.
            if cipherSuiteLen mod 2 = 1 \<or> length data1 < 2 + cipherSuiteLen then Inl ErrNotClientHello
            else
              result_bind (from_index data1 (2 + cipherSuiteLen)) (\<lambda>data2.
              if length data2 < 1 then Inl ErrNoClue
              else
                result_bind (byte_at data2 0) (\<lambda>c.
                let compressionMethodsLen = unat c in
                if length data2 < 1 + compressionMethodsLen then Inl ErrNoClue
                else
                  result_bind (from_index data2 (1 + compressionMethodsLen)) (\<lambda>data3.
                  if length data3 = 0 then Inl ErrNotClientHello
                  else if length data3 < 2 then Inl ErrNotClientHello
                  else
                    result_bind (uint16_at data3 0) (\<lambda>extensionsLength.
                    result_bind (from_index data3 2) (\<lambda>data4.
                    if extensionsLength \<noteq> length data4 then Inl ErrNotClientHello
                    else extension_loop data4)))))))))"

definition SniffTLS :: "bytes \<Rightarrow> (sniff_error, string) result" where
  "SniffTLS b =
     (if length b < 5 then Inl ErrNoClue
      else
        result_bind (byte_at b 0) (\<lambda>t.
        result_bind (byte_at b 1) (\<lambda>major.
        result_bind (byte_at b 2) (\<lambda>minor.
          if t \<noteq> 22 then Inl ErrNotTLS
          else if \<not> IsValidTLSVersion major minor then Inl ErrNotTLS
          else
            result_bind (uint16_at b 3) (\<lambda>headerLen.
              if 5 + headerLen > length b then Inl (ErrNeedAtLeastData (5 + headerLen))
              else result_bind (up_to b (5 + headerLen)) (\<lambda>r. result_bind (from_index r 5) ReadClientHello_tls))))))"

text \<open>The loops where the slices are in range.\<close>

lemma name_loop_step:
  assumes "3 \<le> length d"
  defines "nameLen \<equiv> 256 * unat (d ! 1) + unat (d ! 2)"
  shows "name_loop d =
    (if length d < 3 + nameLen then Inl ErrNotClientHello
     else if d ! 0 = 0 then
       (if has_suffix (bytes_string (take nameLen (drop 3 d))) ''.'' then Inl ErrNotClientHello
        else Inr (Some (bytes_string (take nameLen (drop 3 d)))))
     else name_loop (drop (3 + nameLen) d))"
proof -
  have n: "uint16_at d 1 = Inr nameLen" using assms(1) by (simp add: nameLen_def numeral_2_eq_2)
  have 1: "0 < length d" "\<not> length d < 3" "from_index d 3 = Inr (drop 3 d)" "byte_at d 0 = Inr (d ! 0)"
    using assms(1) by (auto simp: byte_at_def)
  have long: "length (drop 3 d) < nameLen \<longleftrightarrow> length d < 3 + nameLen" using assms(1) by auto
  have "up_to (drop 3 d) nameLen = Inr (take nameLen (drop 3 d))" "from_index (drop 3 d) nameLen = Inr (drop (3 + nameLen) d)"
    if "\<not> length d < 3 + nameLen" using that by (auto simp: up_to_def from_index_def add.commute)
  moreover have "name_loop d =
      (if length (drop 3 d) < nameLen then Inl ErrNotClientHello
       else if d ! 0 = 0 then
         result_bind (up_to (drop 3 d) nameLen) (\<lambda>n. if has_suffix (bytes_string n) ''.'' then Inl ErrNotClientHello
           else Inr (Some (bytes_string n)))
       else result_bind (from_index (drop 3 d) nameLen) name_loop)"
    by (subst name_loop.simps) (simp only: 1 n if_True if_False result_bind.simps Let_def)
  ultimately show ?thesis unfolding long by (cases "length d < 3 + nameLen"; cases "d ! 0 = 0") simp_all
qed

lemma name_loop_short: "length d < 3 \<Longrightarrow> name_loop d = (if d = [] then Inr None else Inl ErrNotClientHello)"
  by (simp add: name_loop.simps [of d])

lemma name_loop_no_panic: "name_loop d \<noteq> Inl SniffPanic"
proof (induction d rule: measure_induct_rule [of length])
  case (less d)
  then show ?case by (cases "length d < 3") (auto simp: name_loop_short name_loop_step)
qed

definition names_part :: "bytes \<Rightarrow> (sniff_error, string option) result" where
  "names_part d =
     (if length d < 2 then Inl ErrNotClientHello
      else if length d \<noteq> 2 + (256 * unat (d ! 0) + unat (d ! 1)) then Inl ErrNotClientHello
      else name_loop (drop 2 d))"

lemma extension_loop_step:
  assumes "4 \<le> length data"
  defines "ext \<equiv> 256 * unat (data ! 0) + unat (data ! 1)" and "len \<equiv> 256 * unat (data ! 2) + unat (data ! 3)"
  shows "extension_loop data =
    (if length data < 4 + len then Inl ErrNotClientHello
     else result_bind (if ext = 0 then names_part (take len (drop 4 data)) else Inr None)
       (\<lambda>r. case r of Some n \<Rightarrow> Inr n | None \<Rightarrow> extension_loop (drop (4 + len) data)))"
proof -
  have 1: "length data \<noteq> 0" "\<not> length data < 4" "from_index data 4 = Inr (drop 4 data)" using assms(1) by auto
  have 2: "uint16_at data 0 = Inr ext" using assms(1) by (simp add: ext_def numeral_2_eq_2)
  have 3: "uint16_at data 2 = Inr len" using assms(1) slice_ok(4) [of 2 data] by (simp add: len_def numeral_3_eq_3)
  have names: "result_bind (up_to d1 len) (\<lambda>d. if length d < 2 then Inl ErrNotClientHello
      else result_bind (uint16_at d 0) (\<lambda>namesLen. result_bind (from_index d 2) (\<lambda>d1.
        if length d1 \<noteq> namesLen then Inl ErrNotClientHello else name_loop d1))) = names_part (take len d1)"
    if "len \<le> length d1" for d1
  proof (cases "len < 2")
    case False
    then have "uint16_at (take len d1) 0 = Inr (256 * unat (take len d1 ! 0) + unat (take len d1 ! 1))"
      "from_index (take len d1) 2 = Inr (drop 2 (take len d1))" using that by simp_all
    with that False show ?thesis by (auto simp: names_part_def)
  qed (use that in \<open>simp add: names_part_def\<close>)
  show ?thesis
  proof (cases "length data < 4 + len")
    case True
    then have "length (drop 4 data) < len" using assms(1) by simp
    with True show ?thesis
      by (subst extension_loop.simps) (simp only: 1 2 3 not_False_eq_True if_True if_False result_bind.simps)
  next
    case False
    then have len: "\<not> length (drop 4 data) < len" "from_index (drop 4 data) len = Inr (drop (4 + len) data)"
      by (auto simp: from_index_def add.commute)
    show ?thesis
      unfolding names [OF len(1) [unfolded not_less], symmetric]
      by (subst extension_loop.simps)
        (simp only: 1 2 3 len False not_True_eq_False not_False_eq_True if_True if_False result_bind.simps)
  qed
qed

lemma extension_loop_short:
  "length data < 4 \<Longrightarrow> extension_loop data = (if data = [] then Inl ErrNotTLS else Inl ErrNotClientHello)"
  by (simp add: extension_loop.simps [of data])

lemma names_part_no_panic: "names_part d \<noteq> Inl SniffPanic"
  by (simp add: names_part_def name_loop_no_panic)

lemma extension_loop_no_panic: "extension_loop data \<noteq> Inl SniffPanic"
proof (induction data rule: measure_induct_rule [of length])
  case (less data)
  show ?case
  proof (cases "length data < 4")
    case False
    then have "extension_loop (drop (4 + n) data) \<noteq> Inl SniffPanic" for n by (intro less) simp
    with False names_part_no_panic show ?thesis
      by (auto simp: extension_loop_step result_bind_Inl_iff split: if_splits option.splits)
  qed (simp add: extension_loop_short)
qed

lemma SniffTLS_no_panic: "SniffTLS b \<noteq> Inl SniffPanic"
proof -
  have "ReadClientHello_tls d \<noteq> Inl SniffPanic" for d
    by (auto simp: ReadClientHello_tls_def Let_def result_bind_Inl_iff extension_loop_no_panic split: if_splits)
  moreover have "byte_at b 0 = Inr (b ! 0)" if "\<not> length b < 5" using that by (auto simp: byte_at_def)
  ultimately show ?thesis by (auto simp: SniffTLS_def)
qed

section \<open>Client hellos\<close>

text \<open>The message as RFC 8446 and RFC 6066 lay it out, and what a sniffer should say of it.\<close>

definition be16 :: "nat \<Rightarrow> bytes" where
  "be16 n = be_bytes 2 (of_nat n :: 16 word)"

datatype extension = ServerName "(8 word \<times> bytes) list" | OtherExtension nat bytes

definition name_bytes :: "8 word \<times> bytes \<Rightarrow> bytes" where
  "name_bytes = (\<lambda>(t, n). t # be16 (length n) @ n)"

fun extension_body :: "extension \<Rightarrow> nat \<times> bytes" where
  "extension_body (ServerName ns) = (let b = concat (map name_bytes ns) in (0, be16 (length b) @ b))"
| "extension_body (OtherExtension t b) = (t, b)"

definition extension_bytes :: "extension \<Rightarrow> bytes" where
  "extension_bytes e = (case extension_body e of (t, b) \<Rightarrow> be16 t @ be16 (length b) @ b)"

record client_hello =
  ch_head :: bytes
  ch_session :: bytes
  ch_ciphers :: "16 word list"
  ch_compression :: bytes
  ch_extensions :: "extension list"

definition hello_bytes :: "client_hello \<Rightarrow> bytes" where
  "hello_bytes h =
     ch_head h @ [of_nat (length (ch_session h))] @ ch_session h @ be16 (2 * length (ch_ciphers h)) @
     concat (map (be_bytes 2) (ch_ciphers h)) @ [of_nat (length (ch_compression h))] @ ch_compression h @
     be16 (length (concat (map extension_bytes (ch_extensions h)))) @ concat (map extension_bytes (ch_extensions h))"

definition record_bytes :: "8 word \<Rightarrow> client_hello \<Rightarrow> bytes" where
  "record_bytes minor h = [22, 3, minor] @ be16 (length (hello_bytes h)) @ hello_bytes h"

text \<open>The head is the message type, its length, the version and the random bytes; the whole message fits a record.\<close>

definition wf_hello :: "client_hello \<Rightarrow> bool" where
  "wf_hello h \<longleftrightarrow> length (ch_head h) = 38 \<and> length (ch_session h) \<le> 32 \<and> length (ch_compression h) < 256 \<and>
     length (hello_bytes h) < 65536 \<and> (\<forall>t b. OtherExtension t b \<in> set (ch_extensions h) \<longrightarrow> 0 < t \<and> t < 65536)"

definition host_name :: "extension list \<Rightarrow> bytes option" where
  "host_name es =
     map_option snd (find (\<lambda>(t, n). t = 0) (concat (map (\<lambda>e. case e of ServerName ns \<Rightarrow> ns | OtherExtension _ _ \<Rightarrow> []) es)))"

definition hello_result :: "client_hello \<Rightarrow> (sniff_error, string) result" where
  "hello_result h =
     (case host_name (ch_extensions h) of
        None \<Rightarrow> Inl ErrNotTLS
      | Some n \<Rightarrow> if has_suffix (bytes_string n) ''.'' then Inl ErrNotClientHello else Inr (bytes_string n))"

lemma length_be16 [simp]: "length (be16 n) = 2"
  by (simp add: be16_def length_be_bytes)

lemma be16_nth: "n < 65536 \<Longrightarrow> 256 * unat (be16 n ! 0) + unat (be16 n ! 1) = n"
proof -
  assume n: "n < 65536"
  have b: "be16 n = [ucast (drop_bit 8 (of_nat n :: 16 word)), ucast (of_nat n :: 16 word)]"
    by (simp add: be16_def be_bytes_def upt_rec numeral_2_eq_2)
  have u: "unat (of_nat n :: 16 word) = n" using n by (simp add: unat_of_nat take_bit_nat_eq_self)
  have "unat (drop_bit 8 (of_nat n :: 16 word)) = n div 256" unfolding unat_drop_bit_eq u by (simp add: drop_bit_eq_div)
  with u n have "unat (ucast (of_nat n :: 16 word) :: 8 word) = n mod 256" "unat (ucast (drop_bit 8 (of_nat n :: 16 word)) :: 8 word) = n div 256"
    unfolding unsigned_ucast_eq by (simp_all add: take_bit_eq_mod)
  then show ?thesis by (simp add: b)
qed

lemma name_loop_bytes:
  "(\<And>t n. (t, n) \<in> set ns \<Longrightarrow> length n < 65536) \<Longrightarrow> name_loop (concat (map name_bytes ns)) =
    (case find (\<lambda>(t, n). t = 0) ns of
       None \<Rightarrow> Inr None
     | Some (t, n) \<Rightarrow> if has_suffix (bytes_string n) ''.'' then Inl ErrNotClientHello else Inr (Some (bytes_string n)))"
proof (induction ns)
  case Nil
  then show ?case by (simp add: name_loop_short)
next
  case (Cons tn ns)
  obtain t n where tn: "tn = (t, n)" by (cases tn)
  let ?r = "concat (map name_bytes ns)"
  define d where "d = t # be16 (length n) @ n @ ?r"
  have eq: "concat (map name_bytes (tn # ns)) = d" by (simp add: tn name_bytes_def d_def)
  have n: "256 * unat (d ! 1) + unat (d ! 2) = length n"
    using be16_nth [of "length n"] Cons.prems [of t n] tn unfolding d_def by (simp add: nth_append numeral_2_eq_2)
  have d: "take (length n) (drop 3 d) = n" "drop (3 + length n) d = ?r" "3 \<le> length d" "\<not> length d < 3 + length n" "d ! 0 = t"
    unfolding d_def by (simp_all add: numeral_3_eq_3)
  have "name_loop ?r = (case find (\<lambda>(t, n). t = 0) ns of None \<Rightarrow> Inr None
     | Some (t, n) \<Rightarrow> if has_suffix (bytes_string n) ''.'' then Inl ErrNotClientHello else Inr (Some (bytes_string n)))"
    using Cons by force
  then show ?case
    unfolding eq name_loop_step [OF d(3)] n d(1,2,5) using d(4) by (simp add: tn)
qed

lemma find_append_case: "find P (xs @ ys) = (case find P xs of None \<Rightarrow> find P ys | Some x \<Rightarrow> Some x)"
  by (induction xs) auto

definition name_result :: "bytes option \<Rightarrow> (sniff_error, string) result" where
  "name_result r = (case r of None \<Rightarrow> Inl ErrNotTLS
     | Some n \<Rightarrow> if has_suffix (bytes_string n) ''.'' then Inl ErrNotClientHello else Inr (bytes_string n))"

lemma names_part_bytes:
  assumes "length (concat (map name_bytes ns)) < 65536"
  shows "names_part (snd (extension_body (ServerName ns))) = name_loop (concat (map name_bytes ns))"
proof -
  define c where "c = concat (map name_bytes ns)"
  have "256 * unat ((be16 (length c) @ c) ! 0) + unat ((be16 (length c) @ c) ! 1) = length c"
    using be16_nth [of "length c"] assms by (simp add: c_def nth_append)
  then have "names_part (be16 (length c) @ c) = name_loop c" by (simp add: names_part_def)
  then show ?thesis by (simp add: c_def Let_def)
qed

lemma extension_loop_bytes:
  assumes "length (concat (map extension_bytes es)) < 65536" "\<And>t b. OtherExtension t b \<in> set es \<Longrightarrow> 0 < t \<and> t < 65536"
  shows "extension_loop (concat (map extension_bytes es)) = name_result (host_name es)"
  using assms
proof (induction es)
  case Nil
  then show ?case by (simp add: extension_loop_short host_name_def name_result_def)
next
  case (Cons e es)
  obtain t b where e: "extension_body e = (t, b)" by (cases "extension_body e")
  let ?r = "concat (map extension_bytes es)"
  define d where "d = be16 t @ be16 (length b) @ b @ ?r"
  have eq: "concat (map extension_bytes (e # es)) = d" by (simp add: extension_bytes_def e d_def)
  have small: "length b < 65536" "t < 65536" "length ?r < 65536"
    using Cons.prems eq e by (cases e; auto simp: d_def Let_def)+
  have t: "256 * unat (d ! 0) + unat (d ! 1) = t" using be16_nth [OF small(2)] by (simp add: d_def nth_append)
  have b: "256 * unat (d ! 2) + unat (d ! 3) = length b" using be16_nth [OF small(1)] by (simp add: d_def nth_append)
  have d: "4 \<le> length d" "\<not> length d < 4 + length b" "take (length b) (drop 4 d) = b" "drop (4 + length b) d = ?r"
    by (simp_all add: d_def)
  have IH: "extension_loop ?r = name_result (host_name es)"
    by (rule Cons.IH [OF small(3)]) (use Cons.prems(2) in auto)
  note step = extension_loop_step [OF d(1), unfolded t b d(3,4) IH]
  show ?case
  proof (cases e)
    case (ServerName ns)
    have ns: "length n < 65536" if "(t, n) \<in> set ns" for t n
    proof -
      have "length (name_bytes (t, n)) \<le> length (concat (map name_bytes ns))"
        using that by (auto simp: length_concat intro!: member_le_sum_list)
      moreover have "length b = 2 + length (concat (map name_bytes ns))" using e ServerName by (auto simp: Let_def)
      ultimately show ?thesis using small(1) by (simp add: name_bytes_def)
    qed
    have "names_part b = name_loop (concat (map name_bytes ns))"
      using names_part_bytes [of ns] e ServerName small(1) by (auto simp: Let_def)
    then have np: "names_part b = (case find (\<lambda>(t, n). t = 0) ns of None \<Rightarrow> Inr None
       | Some (t, n) \<Rightarrow> if has_suffix (bytes_string n) ''.'' then Inl ErrNotClientHello else Inr (Some (bytes_string n)))"
      using name_loop_bytes [OF ns] by simp
    have "t = 0" using e ServerName by (simp add: Let_def)
    moreover have "host_name (e # es) = (case find (\<lambda>(t, n). t = 0) ns of None \<Rightarrow> host_name es | Some x \<Rightarrow> Some (snd x))"
      by (simp add: host_name_def ServerName find_append_case split: option.split)
    ultimately show ?thesis
      unfolding eq step np using d(2) by (cases "find (\<lambda>(t, n). t = 0) ns") (auto simp: name_result_def)
  next
    case (OtherExtension t' b')
    then have "0 < t" using Cons.prems(2) [of t' b'] e by simp
    then show ?thesis unfolding eq step using d(2) by (simp add: host_name_def OtherExtension)
  qed
qed

lemma length_ciphers: "length (concat (map (be_bytes 2) cs)) = 2 * length (cs :: 16 word list)"
  by (induction cs) (auto simp: length_be_bytes)

lemma ReadClientHello_tls_bytes:
  assumes "wf_hello h"
  shows "ReadClientHello_tls (hello_bytes h) = hello_result h"
proof -
  let ?E = "concat (map extension_bytes (ch_extensions h))" and ?C = "concat (map (be_bytes 2) (ch_ciphers h)) :: bytes"
  define d3 where "d3 = be16 (length ?E) @ ?E"
  define d2 where "d2 = [of_nat (length (ch_compression h))] @ ch_compression h @ d3"
  define d1 where "d1 = be16 (2 * length (ch_ciphers h)) @ ?C @ d2"
  define d where "d = ch_head h @ [of_nat (length (ch_session h))] @ ch_session h @ d1"
  have hello: "hello_bytes h = d" by (simp add: hello_bytes_def d_def d1_def d2_def d3_def)
  note wf = assms [unfolded wf_hello_def hello]
  have C: "length ?C = 2 * length (ch_ciphers h)" 
    using length_ciphers [of "ch_ciphers h"] .
  have small: "length ?E < 65536" "2 * length (ch_ciphers h) < 65536" using wf C by (auto simp: d_def d1_def d2_def d3_def)
  have s: "unat (of_nat (length (ch_session h)) :: 8 word) = length (ch_session h)"
    "unat (of_nat (length (ch_compression h)) :: 8 word) = length (ch_compression h)"
    using wf by (simp_all add: unat_of_nat take_bit_nat_eq_self)
  have 1: "\<not> length d < 42" "byte_at d 38 = Inr (of_nat (length (ch_session h)))"
    "from_index d (39 + length (ch_session h)) = Inr d1" "\<not> length d < 39 + length (ch_session h)" "\<not> length (ch_session h) > 32"
    using wf by (simp_all add: d_def d1_def d2_def d3_def byte_at_def from_index_def nth_append)
  have 2: "\<not> length d1 < 2" "uint16_at d1 0 = Inr (2 * length (ch_ciphers h))" "from_index d1 (2 + 2 * length (ch_ciphers h)) = Inr d2"
    "\<not> length d1 < 2 + 2 * length (ch_ciphers h)"
    using be16_nth [OF small(2)] C by (simp_all add: d1_def nth_append from_index_def)
  have 3: "\<not> length d2 < 1" "byte_at d2 0 = Inr (of_nat (length (ch_compression h)))" "from_index d2 (1 + length (ch_compression h)) = Inr d3"
    "\<not> length d2 < 1 + length (ch_compression h)"
    by (simp_all add: d2_def byte_at_def from_index_def)
  have 4: "length d3 \<noteq> 0" "\<not> length d3 < 2" "uint16_at d3 0 = Inr (length ?E)" "from_index d3 2 = Inr ?E"
    using be16_nth [OF small(1)] by (simp_all add: d3_def nth_append from_index_def)
  have even: "(2 * length (ch_ciphers h)) mod 2 = 1 \<longleftrightarrow> False" by simp
  have "ReadClientHello_tls d = extension_loop ?E"
    unfolding ReadClientHello_tls_def Let_def
    by (simp only: 1 2 3 4 s even result_bind.simps if_False simp_thms not_True_eq_False)
  also have "\<dots> = name_result (host_name (ch_extensions h))" using wf small(1) by (intro extension_loop_bytes) auto
  finally show ?thesis by (simp add: hello hello_result_def name_result_def)
qed

lemma SniffTLS_record:
  assumes "length (hello_bytes h) < 65536"
  shows "SniffTLS (record_bytes minor h @ rest) = ReadClientHello_tls (hello_bytes h)"
    "5 \<le> k \<Longrightarrow> k < length (record_bytes minor h) \<Longrightarrow>
      SniffTLS (take k (record_bytes minor h)) = Inl (ErrNeedAtLeastData (length (record_bytes minor h)))"
proof -
  define hb where "hb = hello_bytes h"
  define d where "d = 22 # 3 # minor # be16 (length hb) @ hb"
  have rec: "record_bytes minor h = d" by (simp add: record_bytes_def d_def hb_def)
  have header: "SniffTLS b = (if 5 + length hb > length b then Inl (ErrNeedAtLeastData (5 + length hb))
      else ReadClientHello_tls (drop 5 (take (5 + length hb) b)))" if "5 \<le> length b" "take 5 b = take 5 d" for b
  proof -
    have nth: "b ! i = d ! i" if "i < 5" for i using \<open>take 5 b = take 5 d\<close> that by (metis nth_take)
    have "uint16_at b 3 = Inr (length hb)"
      using that(1) nth [of 3] nth [of 4] be16_nth [of "length hb"] assms slice_ok(4) [of 3 b]
      by (simp add: d_def nth_append hb_def)
    moreover have "byte_at b 0 = Inr 22" "byte_at b 1 = Inr 3" "byte_at b 2 = Inr (b ! 2)"
      using that(1) nth [of 0] nth [of 1] by (auto simp: byte_at_def d_def)
    ultimately show ?thesis using that(1) by (simp add: SniffTLS_def IsValidTLSVersion_def)
  qed
  define p where "p = 22 # 3 # minor # be16 (length hb)"
  have dp: "d = p @ hb" "length p = 5" by (simp_all add: d_def p_def)
  have "take 5 (d @ rest) = take 5 d" "5 \<le> length (d @ rest)" "drop 5 (take (5 + length hb) (d @ rest)) = hb" "\<not> 5 + length hb > length (d @ rest)"
    using dp by simp_all
  then show "SniffTLS (record_bytes minor h @ rest) = ReadClientHello_tls (hello_bytes h)"
    unfolding rec using header [of "d @ rest"] by (simp add: hb_def)
  assume "5 \<le> k" "k < length (record_bytes minor h)"
  then show "SniffTLS (take k (record_bytes minor h)) = Inl (ErrNeedAtLeastData (length (record_bytes minor h)))"
    unfolding rec using header [of "take k d"] by (simp add: d_def min_def)
qed

text \<open>
  C12.  The TLS sniffer reads every well-formed client hello.  From a record with a client hello it returns the first
  host name of its server name extensions, refused where it ends with a dot; from the first bytes of the
  record, at least five of them, it asks for as many bytes as the record has.  On arbitrary bytes it never
  reads out of range.
\<close>

theorem SniffTLS_reads_client_hello:
  "(wf_hello h \<longrightarrow> SniffTLS (record_bytes minor h @ rest) = hello_result h \<and>
     (\<forall>k. 5 \<le> k \<and> k < length (record_bytes minor h) \<longrightarrow>
        SniffTLS (take k (record_bytes minor h)) = Inl (ErrNeedAtLeastData (length (record_bytes minor h))))) \<and>
   SniffTLS b \<noteq> Inl SniffPanic"
proof -
  have "SniffTLS (record_bytes minor h @ rest) = hello_result h" if "wf_hello h"
    using that SniffTLS_record(1) ReadClientHello_tls_bytes by (simp add: wf_hello_def)
  moreover have "SniffTLS (take k (record_bytes minor h)) = Inl (ErrNeedAtLeastData (length (record_bytes minor h)))"
    if "wf_hello h" "5 \<le> k" "k < length (record_bytes minor h)" for k
    using that by (intro SniffTLS_record(2)) (auto simp: wf_hello_def)
  ultimately show ?thesis using SniffTLS_no_panic by blast
qed

text \<open>Witness: a hello for \<open>ab\<close> with one cipher suite.\<close>

definition example_hello :: client_hello where
  "example_hello = \<lparr>ch_head = replicate 38 0, ch_session = [], ch_ciphers = [4865], ch_compression = [0],
     ch_extensions = [OtherExtension 10 [], ServerName [(0, [97, 98])]]\<rparr>"

theorem SniffTLS_reads_client_hello_witness:
  "wf_hello example_hello \<and> SniffTLS (record_bytes 1 example_hello) = Inr ''ab'' \<and>
   SniffTLS (take 5 (record_bytes 1 example_hello)) = Inl (ErrNeedAtLeastData (length (record_bytes 1 example_hello)))"
proof -
  have wf: "wf_hello example_hello"
    by (auto simp: wf_hello_def example_hello_def hello_bytes_def extension_bytes_def name_bytes_def length_be_bytes Let_def)
  have "bytes_string [97, 98] = ''ab''" by (simp add: bytes_string_def) code_simp
  then have "hello_result example_hello = Inr ''ab''"
    by (simp add: hello_result_def host_name_def example_hello_def has_suffix_def)
  moreover have "5 < length (record_bytes 1 example_hello)" by (simp add: record_bytes_def example_hello_def hello_bytes_def)
  ultimately show ?thesis using wf SniffTLS_reads_client_hello [of example_hello 1 "[]" "[]"] by auto
qed

section \<open>http\_sniffer.go\<close>

definition http_methods :: "string list" where
  "http_methods = [''get'', ''post'', ''head'', ''put'', ''delete'', ''options'', ''connect'', ''patch'', ''trace'']"

text \<open>\<^const>\<open>None\<close> is no error.\<close>

fun method_loop :: "string list \<Rightarrow> string \<Rightarrow> sniff_error option" where
  "method_loop [] b = Some ErrNotHTTPMethod"
| "method_loop (m # ms) b =
     (if length m \<le> length b \<and> to_lower (take (length m) b) = m then None
      else if length b < length m then Some ErrNoClue else method_loop ms b)"

definition beginWithHTTPMethod :: "string \<Rightarrow> sniff_error option" where
  "beginWithHTTPMethod b = method_loop http_methods b"

text \<open>\<open>net.ParseIP(s) != nil\<close>, and whether the error of \<open>net.SplitHostPort\<close> is a missing port.\<close>

definition is_ip :: "string \<Rightarrow> bool" where
  "is_ip s = (case ParseAddr s of Some (V4 a) \<Rightarrow> True | Some (V6 a zone) \<Rightarrow> zone = [] | _ \<Rightarrow> False)"

definition missing_port :: "string \<Rightarrow> bool" where
  "missing_port hp =
     (case last_index_byte CHR '':'' hp of
        None \<Rightarrow> True
      | Some i \<Rightarrow>
          if hp ! 0 = CHR ''['' then
            (case index_byte CHR '']'' hp of
               None \<Rightarrow> False
             | Some e \<Rightarrow> e + 1 = length hp \<or> (e + 1 \<noteq> i \<and> hp ! (e + 1) \<noteq> CHR '':''))
          else False)"

definition parseHost :: "string \<Rightarrow> (sniff_error, string) result" where
  "parseHost host =
     (if has_prefix host ''['' \<and> has_suffix host '']'' \<and> is_ip (drop 1 (take (length host - 1) host)) then Inl ErrHostIsIP
      else if is_ip host then Inl ErrHostIsIP else Inr host)"

definition host_value :: "string \<Rightarrow> (sniff_error, string) result" where
  "host_value rawHost =
     (case SplitHostPort rawHost of
        None \<Rightarrow> if missing_port rawHost then parseHost rawHost else Inl ErrSplitHostPort
      | Some (host, _) \<Rightarrow> if is_ip host then Inl ErrHostIsIP else Inr host)"

text \<open>The loop over the header lines; an empty line ends it.\<close>

fun header_loop :: "string list \<Rightarrow> (sniff_error, string) result" where
  "header_loop [] = Inl ErrNoClue"
| "header_loop (header # headers) =
     (if header = [] then Inl ErrNoClue
      else (case index_byte CHR '':'' header of
              None \<Rightarrow> header_loop headers
            | Some i \<Rightarrow>
                if to_lower (take i header) = ''host'' then host_value (to_lower (trim_space (drop (i + 1) header)))
                else header_loop headers))"

definition SniffHTTP :: "bytes \<Rightarrow> (sniff_error, string) result" where
  "SniffHTTP b =
     (case beginWithHTTPMethod (bytes_string b) of
        Some err \<Rightarrow> Inl err
      | None \<Rightarrow> header_loop (tl (split_on (CHR 0x0A) (bytes_string b))))"

text \<open>A request whose first Host header follows others: its value is what the sniffer looks at.\<close>

definition header_line :: "string \<times> string \<Rightarrow> string" where
  "header_line = (\<lambda>(k, v). k @ CHR '':'' # v)"

lemma method_loop_known:
  "m \<in> set ms \<Longrightarrow> (\<And>m. m \<in> set ms \<Longrightarrow> length m \<le> length b) \<Longrightarrow> to_lower (take (length m) b) = m \<Longrightarrow> method_loop ms b = None"
proof (induction ms)
  case (Cons a ms)
  have "length a \<le> length b" using Cons.prems(2) by simp
  moreover have "m \<in> set ms \<Longrightarrow> method_loop ms b = None" using Cons.IH Cons.prems(2,3) by auto
  ultimately show ?case using Cons.prems(1,3) by auto
qed simp

lemma header_loop_skips:
  "(\<And>k v. (k, v) \<in> set hs \<Longrightarrow> CHR '':'' \<notin> set k \<and> to_lower k \<noteq> ''host'') \<Longrightarrow>
     header_loop (map header_line hs @ ls) = header_loop ls"
proof (induction hs)
  case (Cons kv hs)
  obtain k v where kv: "kv = (k, v)" by (cases kv)
  have "index_byte CHR '':'' (header_line (k, v)) = Some (length k)" "header_line (k, v) \<noteq> []" "take (length k) (header_line (k, v)) = k"
    using Cons.prems [of k v] by (simp_all add: kv header_line_def index_byte_append)
  moreover have "header_loop (map header_line hs @ ls) = header_loop ls" by (rule Cons.IH) (use Cons.prems in auto)
  ultimately show ?case using Cons.prems [of k v] by (simp add: kv)
qed simp

lemma split_lines: "(\<And>l. l \<in> set ls \<Longrightarrow> c \<notin> set l) \<Longrightarrow> split_on c (concat (map (\<lambda>l. l @ [c]) ls) @ r) = ls @ split_on c r"
  by (induction ls) (auto simp: split_on_append)

lemma SniffHTTP_host:
  assumes "to_lower meth \<in> set http_methods" "length line \<ge> 7" "take (length meth) line = meth" "CHR 0x0A \<notin> set line"
    and "\<And>k v. (k, v) \<in> set hs \<Longrightarrow> CHR '':'' \<notin> set k \<and> to_lower k \<noteq> ''host'' \<and> CHR 0x0A \<notin> set (header_line (k, v))"
    and "to_lower k = ''host''" "CHR '':'' \<notin> set k" "CHR 0x0A \<notin> set (header_line (k, v))"
  shows "SniffHTTP (string_bytes (concat (map (\<lambda>l. l @ [CHR 0x0A]) (line # map header_line (hs @ [(k, v)]))) @ body)) =
    host_value (to_lower (trim_space v))"
proof -
  let ?ls = "line # map header_line (hs @ [(k, v)])" and ?nl = "CHR 0x0A"
  have "\<And>l. l \<in> set ?ls \<Longrightarrow> ?nl \<notin> set l" using assms(4,5,8) by auto
  then have split: "split_on ?nl (concat (map (\<lambda>l. l @ [?nl]) ?ls) @ body) = ?ls @ split_on ?nl body" by (rule split_lines)
  define b where "b = concat (map (\<lambda>l. l @ [?nl]) ?ls) @ body"
  have len: "length m \<le> 7" if "m \<in> set http_methods" for m using that by (auto simp: http_methods_def)
  have "length line \<le> length b" by (simp add: b_def)
  then have long: "length m \<le> length b" if "m \<in> set http_methods" for m using len [OF that] assms(2) by simp
  have "length meth \<le> length line" using assms(3) by (metis length_take min.cobounded1 min.commute)
  then have "take (length meth) b = meth" using assms(3) by (simp add: b_def)
  moreover have "length (to_lower meth) = length meth" by (simp add: to_lower_def)
  ultimately have "beginWithHTTPMethod b = None"
    unfolding beginWithHTTPMethod_def by (intro method_loop_known [OF assms(1) long]) simp_all
  moreover have "header_loop (map header_line (hs @ [(k, v)]) @ split_on ?nl body) = host_value (to_lower (trim_space v))"
  proof -
    have "index_byte CHR '':'' (header_line (k, v)) = Some (length k)" "header_line (k, v) \<noteq> []"
      "take (length k) (header_line (k, v)) = k" "drop (length k + 1) (header_line (k, v)) = v"
      using assms(7) by (simp_all add: header_line_def index_byte_append)
    with assms(5,6) header_loop_skips [of hs "header_line (k, v) # split_on ?nl body"] show ?thesis by simp
  qed
  ultimately have "SniffHTTP (string_bytes b) = host_value (to_lower (trim_space v))"
    using split [folded b_def] by (simp add: SniffHTTP_def)
  then show ?thesis by (simp add: b_def)
qed

lemma host_value_plain:
  assumes "CHR '':'' \<notin> set h" "\<not> has_prefix h ''[''" "\<not> is_ip h"
  shows "host_value h = Inr h"
proof -
  have none: "last_index_byte CHR '':'' h = None" using assms(1) by (simp add: last_index_byte_def index_byte_None)
  then have "SplitHostPort h = None" "missing_port h" by (simp_all add: SplitHostPort_def missing_port_def)
  with assms(2,3) show ?thesis by (simp add: host_value_def parseHost_def)
qed

text \<open>An empty line of a request ends with a carriage return, so the end of the headers is not noticed: a line of the body is taken for a header.\<close>

lemma SniffHTTP_reads_body:
  "SniffHTTP (string_bytes (''GET /'' @ [CHR 0x0D, CHR 0x0A, CHR 0x0D, CHR 0x0A] @ ''Host:b'')) = Inr ''b''"
  by code_simp

section \<open>dispatcher.go\<close>

datatype Sniffer =
    TLSSniffer "16 word Range list"
  | HTTPSniffer "16 word Range list"
  | QuicSniffer "16 word Range list"

datatype SnifferType = SnifferTLS | SnifferHTTP | SnifferQUIC | SnifferUnknown

record SnifferConfig =
  sc_OverrideDest :: bool
  sc_Ports :: "16 word Range list"

definition NewTLSSniffer :: "SnifferConfig \<Rightarrow> Sniffer" where
  "NewTLSSniffer c = TLSSniffer (if length (sc_Ports c) = 0 then [NewRange 443 443] else sc_Ports c)"

definition NewHTTPSniffer :: "SnifferConfig \<Rightarrow> Sniffer" where
  "NewHTTPSniffer c = HTTPSniffer (if length (sc_Ports c) = 0 then [NewRange 80 80] else sc_Ports c)"

definition NewQuicSniffer :: "SnifferConfig \<Rightarrow> Sniffer" where
  "NewQuicSniffer c = QuicSniffer (if length (sc_Ports c) = 0 then [NewRange 443 443] else sc_Ports c)"

definition NewSniffer :: "SnifferType \<Rightarrow> SnifferConfig \<Rightarrow> (sniff_error, Sniffer) result" where
  "NewSniffer name c =
     (case name of
        SnifferTLS \<Rightarrow> Inr (NewTLSSniffer c)
      | SnifferHTTP \<Rightarrow> Inr (NewHTTPSniffer c)
      | SnifferQUIC \<Rightarrow> Inr (NewQuicSniffer c)
      | SnifferUnknown \<Rightarrow> Inl ErrorUnsupportedSniffer)"

fun SupportNetwork :: "Sniffer \<Rightarrow> NetWork" where
  "SupportNetwork (TLSSniffer _) = TCP"
| "SupportNetwork (HTTPSniffer _) = TCP"
| "SupportNetwork (QuicSniffer _) = UDP"

fun SupportPort :: "Sniffer \<Rightarrow> 16 word \<Rightarrow> bool" where
  "SupportPort (TLSSniffer ports) port = Check ports port"
| "SupportPort (HTTPSniffer ports) port = Check ports port"
| "SupportPort (QuicSniffer ports) port = Check ports port"

fun SniffData :: "Sniffer \<Rightarrow> bytes \<Rightarrow> (sniff_error, string) result" where
  "SniffData (TLSSniffer _) b = SniffTLS b"
| "SniffData (HTTPSniffer _) b = SniffHTTP b"
| "SniffData (QuicSniffer _) b = Inl ErrorUnsupportedSniffer"

text \<open>
  The map of sniffers is a list, in the order in which \<open>range\<close> visits it.  \<open>sd_isDomainName\<close> is \<open>IsDomainName\<close> of the
  package \<open>sing\<close>.
\<close>

record Dispatcher =
  sd_enable :: bool
  sd_sniffers :: "(Sniffer \<times> SnifferConfig) list"
  sd_forceDomain :: "(string \<Rightarrow> bool) list"
  sd_skipSrcAddress :: "(addr \<Rightarrow> bool) list"
  sd_skipDstAddress :: "(addr \<Rightarrow> bool) list"
  sd_skipDomain :: "(string \<Rightarrow> bool) list"
  sd_skipList :: "(addr \<times> 16 word, 8 word) LruCache"
  sd_forceDnsMapping :: bool
  sd_parsePureIp :: bool
  sd_isDomainName :: "string \<Rightarrow> bool"

fun new_sniffers :: "(SnifferType \<times> SnifferConfig) list \<Rightarrow> (sniff_error, (Sniffer \<times> SnifferConfig) list) result" where
  "new_sniffers [] = Inr []"
| "new_sniffers ((name, c) # cs) =
     result_bind (NewSniffer name c) (\<lambda>s. result_bind (new_sniffers cs) (\<lambda>rest. Inr ((s, c) # rest)))"

record dispatcher_Config =
  cf_Enable :: bool
  cf_Sniffers :: "(SnifferType \<times> SnifferConfig) list"
  cf_ForceDomain :: "(string \<Rightarrow> bool) list"
  cf_SkipSrcAddress :: "(addr \<Rightarrow> bool) list"
  cf_SkipDstAddress :: "(addr \<Rightarrow> bool) list"
  cf_SkipDomain :: "(string \<Rightarrow> bool) list"
  cf_ForceDnsMapping :: bool
  cf_ParsePureIp :: bool

definition NewDispatcher :: "(string \<Rightarrow> bool) \<Rightarrow> dispatcher_Config \<Rightarrow> (sniff_error, Dispatcher) result" where
  "NewDispatcher isDomainName config =
     result_bind (new_sniffers (cf_Sniffers config)) (\<lambda>sniffers.
       Inr \<lparr>sd_enable = cf_Enable config, sd_sniffers = sniffers, sd_forceDomain = cf_ForceDomain config,
            sd_skipSrcAddress = cf_SkipSrcAddress config, sd_skipDstAddress = cf_SkipDstAddress config,
            sd_skipDomain = cf_SkipDomain config, sd_skipList = lru_New [WithSize 128, WithAge 600],
            sd_forceDnsMapping = cf_ForceDnsMapping config, sd_parsePureIp = cf_ParsePureIp config,
            sd_isDomainName = isDomainName\<rparr>)"

definition forceSniff :: "Dispatcher \<Rightarrow> Metadata \<Rightarrow> bool" where
  "forceSniff sd m = list_ex (\<lambda>matcher. matcher (mHost m)) (sd_forceDomain sd)"

definition shouldOverride :: "Dispatcher \<Rightarrow> Metadata \<Rightarrow> bool" where
  "shouldOverride sd m =
     (if list_ex (\<lambda>matcher. matcher (mDstIP m)) (sd_skipDstAddress sd) then False
      else if list_ex (\<lambda>matcher. matcher (mSrcIP m)) (sd_skipSrcAddress sd) then False
      else if mHost m = [] \<and> sd_parsePureIp sd then True
      else if mDNSMode m = DNSMapping \<and> sd_forceDnsMapping sd then True
      else forceSniff sd m)"

definition replaceDomain :: "Metadata \<Rightarrow> string \<Rightarrow> bool \<Rightarrow> Metadata" where
  "replaceDomain m host overrideDest =
     (let m1 = m\<lparr>mSniffHost := host\<rparr>;
          m2 = (if overrideDest then m1\<lparr>mHost := host, mDstIP := NoAddr\<rparr> else m1)
      in m2\<lparr>mDNSMode := DNSNormal\<rparr>)"

definition domainCanReplace :: "Dispatcher \<Rightarrow> string \<Rightarrow> bool" where
  "domainCanReplace sd host =
     (if host = ''.'' \<or> \<not> sd_isDomainName sd host then False
      else \<not> list_ex (\<lambda>matcher. matcher host) (sd_skipDomain sd))"

definition dispatcher_Enable :: "Dispatcher option \<Rightarrow> bool" where
  "dispatcher_Enable sd = (case sd of None \<Rightarrow> False | Some sd \<Rightarrow> sd_enable sd)"

definition count_failure :: "8 word option \<Rightarrow> 8 word option" where
  "count_failure old = (let v = (case old of None \<Rightarrow> 0 | Some v \<Rightarrow> v) in Some (if v \<le> 5 then v + 1 else v))"

definition cacheSniffFailed :: "clock \<Rightarrow> Metadata \<Rightarrow> Dispatcher \<Rightarrow> Dispatcher" where
  "cacheSniffFailed clock m sd = sd\<lparr>sd_skipList := snd (lru_Compute clock (AddrPort m) count_failure (sd_skipList sd))\<rparr>"

text \<open>
  What a connection answers while one sniffer looks at it: the first \<open>Peek\<close> may fail, with an \<open>OpError\<close> or another
  error; then the bytes that are buffered, and those of a second \<open>Peek\<close> for a given number of bytes.  A list of
  them has one entry for every sniffer that looks.
\<close>

record peek_conn =
  pk_error :: "bool option"
  pk_buffered :: "bytes option"
  pk_wait :: "nat \<Rightarrow> bytes option"

definition sniff_once :: "Sniffer \<Rightarrow> peek_conn \<Rightarrow> (sniff_error, string) result option" where
  "sniff_once s conn =
     (case pk_buffered conn of
        None \<Rightarrow> None
      | Some b \<Rightarrow>
          (case SniffData s b of
             Inl (ErrNeedAtLeastData n) \<Rightarrow> map_option (SniffData s) (pk_wait conn n)
           | r \<Rightarrow> Some r))"

fun sniff_loop :: "clock \<Rightarrow> peek_conn list \<Rightarrow> Metadata \<Rightarrow> (Sniffer \<times> SnifferConfig) list \<Rightarrow> Dispatcher \<Rightarrow>
    (sniff_error, string) result \<times> Dispatcher" where
  "sniff_loop clock conns m [] sd = (Inl ErrorSniffFailed, sd)"
| "sniff_loop clock conns m ((s, c) # rest) sd =
     (if SupportNetwork s = TCP \<and> SupportPort s (mDstPort m) then
        (case conns of
           [] \<Rightarrow> (Inl (ErrPeek False), sd)
         | conn # conns' \<Rightarrow>
             (case pk_error conn of
                Some op \<Rightarrow> (Inl (ErrPeek op), if op then cacheSniffFailed clock m sd else sd)
              | None \<Rightarrow>
                  (case sniff_once s conn of
                     Some (Inr host) \<Rightarrow>
                       if ParseAddr host \<noteq> None then sniff_loop clock conns' m rest sd else (Inr host, sd)
                   | _ \<Rightarrow> sniff_loop clock conns' m rest sd)))
      else sniff_loop clock conns m rest sd)"

text \<open>
  The sniffers are a map, and every loop over it meets them in an order of its own: each loop takes the order it
  gets as an argument, any rearrangement of the sniffers.
\<close>

type_synonym sniffer_range = "(Sniffer \<times> SnifferConfig) list \<Rightarrow> (Sniffer \<times> SnifferConfig) list"

definition ranges_over :: "sniffer_range \<Rightarrow> Dispatcher \<Rightarrow> bool" where
  "ranges_over order sd \<longleftrightarrow> mset (order (sd_sniffers sd)) = mset (sd_sniffers sd)"

definition sniffDomain :: "sniffer_range \<Rightarrow> clock \<Rightarrow> peek_conn list \<Rightarrow> Metadata \<Rightarrow> Dispatcher \<Rightarrow>
    (sniff_error, string) result \<times> Dispatcher" where
  "sniffDomain order clock conns m sd = sniff_loop clock conns m (order (sd_sniffers sd)) sd"

definition whitelisted :: "sniffer_range \<Rightarrow> Dispatcher \<Rightarrow> Metadata \<Rightarrow> (Sniffer \<times> SnifferConfig) option" where
  "whitelisted order sd m =
     find (\<lambda>(s, c). (SupportNetwork s = TCP \<or> SupportNetwork s = ALLNet) \<and> SupportPort s (mDstPort m)) (order (sd_sniffers sd))"

text \<open>
  The clocks are those of the operations on the skip list, in their order; \<open>order\<close> is the order in which the loop over
  the ports meets the sniffers and \<open>order'\<close> that of \<open>sniffDomain\<close>.
\<close>

definition TCPSniff :: "sniffer_range \<Rightarrow> sniffer_range \<Rightarrow> (nat \<Rightarrow> clock) \<Rightarrow> peek_conn list \<Rightarrow> Metadata \<Rightarrow> Dispatcher \<Rightarrow> bool \<times> Metadata \<times> Dispatcher" where
  "TCPSniff order order' clocks conns m sd =
     (if shouldOverride sd m then
        (case whitelisted order sd m of
           None \<Rightarrow> (False, m, sd)
         | Some (_, c) \<Rightarrow>
             let forceSniffer = forceSniff sd m;
                 dst = AddrPort m;
                 (skip, sd1) =
                   (if \<not> forceSniffer then
                      (let (count, l) = lru_Get (clocks 0) dst (sd_skipList sd)
                       in ((case count of Some n \<Rightarrow> n > 5 | None \<Rightarrow> False), sd\<lparr>sd_skipList := l\<rparr>))
                    else (False, sd)) in
             if skip then (False, m, sd1)
             else
               (case sniffDomain order' (clocks 1) conns m sd1 of
                  (Inl err, sd2) \<Rightarrow> (False, m, if \<not> forceSniffer then cacheSniffFailed (clocks 2) m sd2 else sd2)
                | (Inr host, sd2) \<Rightarrow>
                    if \<not> domainCanReplace sd2 host then (False, m, sd2)
                    else (True, replaceDomain m host (sc_OverrideDest c),
                          sd2\<lparr>sd_skipList := lru_Delete dst (sd_skipList sd2)\<rparr>)))
      else (False, m, sd))"

text \<open>\<open>UDPSniff\<close> wraps the sender for the one sniffer of UDP that there is; the wrapper is not modelled.\<close>

datatype packet_sender = PlainSender | QuicSender bool

fun udp_loop :: "bytes \<Rightarrow> Metadata \<Rightarrow> (Sniffer \<times> SnifferConfig) list \<Rightarrow> Dispatcher \<Rightarrow> packet_sender \<times> Metadata" where
  "udp_loop data m [] sd = (PlainSender, m)"
| "udp_loop data m ((s, c) # rest) sd =
     (if (SupportNetwork s = UDP \<or> SupportNetwork s = ALLNet) \<and> SupportPort s (mDstPort m) then
        (case s of
           QuicSniffer _ \<Rightarrow> (QuicSender (sc_OverrideDest c), m)
         | _ \<Rightarrow>
             (case SniffData s data of
                Inl _ \<Rightarrow> udp_loop data m rest sd
              | Inr host \<Rightarrow>
                  (PlainSender, if domainCanReplace sd host then replaceDomain m host (sc_OverrideDest c) else m)))
      else udp_loop data m rest sd)"

definition UDPSniff :: "sniffer_range \<Rightarrow> bytes \<Rightarrow> Metadata \<Rightarrow> Dispatcher \<Rightarrow> packet_sender \<times> Metadata" where
  "UDPSniff order data m sd = (if shouldOverride sd m then udp_loop data m (order (sd_sniffers sd)) sd else (PlainSender, m))"

section \<open>The skip list\<close>

text \<open>The failures counted for a destination stop at six.\<close>

definition skips_ok :: "lru_config \<Rightarrow> Dispatcher \<Rightarrow> bool" where
  "skips_ok g sd \<longleftrightarrow> (\<exists>es. represents (sd_skipList sd) g es \<and> (\<forall>e \<in> set es. e_value e \<le> 6))"

lemma set_spec_expire: "set (spec_expire g now es) \<subseteq> set es"
  by (auto simp: spec_expire_def dest: set_dropWhileD)

lemma spec_get_values:
  assumes "\<forall>e \<in> set es. P (e_value e)"
  shows "\<forall>e \<in> set (snd (spec_get g clock k es)). P (e_value e)" "fst (spec_get g clock k es) = Some e \<Longrightarrow> P (e_value e)"
proof -
  have old: "P (e_value e)" if "lookup k es = Some e" for e using assms that by (auto simp: find_Some_iff)
  then show "\<forall>e \<in> set (snd (spec_get g clock k es)). P (e_value e)"
    using assms set_spec_expire [of g "clock 1" "without k es"]
    by (auto simp: spec_get_def Let_def split: option.splits)
  show "P (e_value e)" if "fst (spec_get g clock k es) = Some e"
    using that old by (auto simp: spec_get_def Let_def split: option.splits if_splits)
qed

lemma spec_set_values:
  assumes "\<forall>e \<in> set es. P (e_value e)" "P v"
  shows "\<forall>e \<in> set (spec_set g clock k v es). P (e_value e)"
proof -
  have "P (e_value e)" if "e \<in> set (spec_setWithExpire g clock k v x es)" for e clock x
  proof -
    let ?es = "without k es @ [\<lparr>e_key = k, e_value = v, e_expires = x\<rparr>]"
    have "e \<in> set ?es \<or> e \<in> set (tl ?es)"
      using that set_spec_expire unfolding spec_setWithExpire_def Let_def by (fastforce split: if_splits)
    then have "e \<in> set ?es" by (cases "without k es") auto
    with assms show ?thesis by auto
  qed
  then show ?thesis by (auto simp: spec_set_def)
qed

lemma count_failure_bound: "(case old of None \<Rightarrow> True | Some v \<Rightarrow> v \<le> 6) \<Longrightarrow> count_failure old = Some v' \<Longrightarrow> v' \<le> 6"
proof -
  have "v + 1 \<le> 6" if "v \<le> 5" for v :: "8 word"
    using that by (simp add: word_le_nat_alt unat_word_ariths)
  then show "(case old of None \<Rightarrow> True | Some v \<Rightarrow> v \<le> 6) \<Longrightarrow> count_failure old = Some v' \<Longrightarrow> v' \<le> 6"
    by (auto simp: count_failure_def Let_def split: option.splits if_splits)
qed

lemma skips_ok_Compute: "skips_ok g sd \<Longrightarrow> skips_ok g (cacheSniffFailed clock m sd)"
proof -
  assume "skips_ok g sd"
  then obtain es where es: "represents (sd_skipList sd) g es" "\<forall>e \<in> set es. e_value e \<le> 6" by (auto simp: skips_ok_def)
  let ?k = "AddrPort m"
  obtain r es' where get: "spec_get g clock ?k es = (r, es')" by force
  note vals = spec_get_values [OF es(2), of g clock ?k, unfolded get]
  have "\<forall>e \<in> set (snd (spec_Compute g clock ?k count_failure es)). e_value e \<le> 6"
  proof (cases "count_failure (map_option e_value r)")
    case None
    then show ?thesis by (simp add: count_failure_def Let_def)
  next
    case (Some v)
    then have "v \<le> 6" using vals(2) by (intro count_failure_bound [of "map_option e_value r"]) (auto split: option.splits)
    with vals(1) Some get show ?thesis
      unfolding spec_Compute_def by (simp add: spec_set_values [where P = "\<lambda>v. v \<le> 6"])
  qed
  with Compute_represents [OF es(1), of clock ?k count_failure] show ?thesis
    by (auto simp: skips_ok_def cacheSniffFailed_def)
qed

lemma skips_ok_Get: "skips_ok g sd \<Longrightarrow> skips_ok g (sd\<lparr>sd_skipList := snd (lru_Get clock k (sd_skipList sd))\<rparr>)"
proof -
  assume "skips_ok g sd"
  then obtain es where es: "represents (sd_skipList sd) g es" "\<forall>e \<in> set es. e_value e \<le> 6" by (auto simp: skips_ok_def)
  from get_represents [OF es(1), of clock k] spec_get_values(1) [where P = "\<lambda>v. v \<le> 6", OF es(2), of g clock k] show ?thesis
    unfolding skips_ok_def snd_Get by (intro exI [of _ "snd (spec_get g clock k es)"]) simp
qed

lemma skips_ok_Delete: "skips_ok g sd \<Longrightarrow> skips_ok g (sd\<lparr>sd_skipList := lru_Delete k (sd_skipList sd)\<rparr>)"
proof -
  assume "skips_ok g sd"
  then obtain es where es: "represents (sd_skipList sd) g es" "\<forall>e \<in> set es. e_value e \<le> 6" by (auto simp: skips_ok_def)
  from delete_represents [OF es(1), of k] es(2) show ?thesis
    unfolding skips_ok_def lru_Delete_def by (intro exI [of _ "without k es"]) simp
qed

text \<open>
  A sniffing changes nothing of the dispatcher but the skip list, and a host it returns is what one of the sniffers
  that support the connection reads in bytes the connection showed.
\<close>

definition peeked :: "peek_conn \<Rightarrow> bytes \<Rightarrow> bool" where
  "peeked conn b \<longleftrightarrow> pk_error conn = None \<and> (pk_buffered conn = Some b \<or> (\<exists>n. pk_wait conn n = Some b))"

definition host_sniffed :: "(Sniffer \<times> SnifferConfig) list \<Rightarrow> peek_conn list \<Rightarrow> Metadata \<Rightarrow> string \<Rightarrow> bool" where
  "host_sniffed ss conns m host \<longleftrightarrow>
     (\<exists>(s, c) \<in> set ss. \<exists>conn \<in> set conns. \<exists>b. SupportNetwork s = TCP \<and> SupportPort s (mDstPort m) \<and> peeked conn b \<and>
        SniffData s b = Inr host)"

lemma sniff_once_peeked:
  assumes "sniff_once s conn = Some (Inr host)" "pk_error conn = None"
  shows "\<exists>b. peeked conn b \<and> SniffData s b = Inr host"
  using assms by (auto simp: sniff_once_def peeked_def split: option.splits sum.splits sniff_error.splits)

lemma host_sniffed_mono:
  "host_sniffed ss conns m host \<Longrightarrow> set ss \<subseteq> set ss' \<Longrightarrow> set conns \<subseteq> set conns' \<Longrightarrow> host_sniffed ss' conns' m host"
  unfolding host_sniffed_def by blast

lemma sniff_loop_result:
  "sniff_loop clock conns m ss sd = (r, sd') \<Longrightarrow>
    (sd' = sd \<or> sd' = cacheSniffFailed clock m sd) \<and>
    (\<forall>host. r = Inr host \<longrightarrow> ParseAddr host = None \<and> sd' = sd \<and> host_sniffed ss conns m host)"
proof (induction ss arbitrary: conns)
  case Nil
  then show ?case by auto
next
  case (Cons sc ss)
  obtain s c where sc: "sc = (s, c)" by (cases sc)
  have "(\<exists>conns'. set conns' \<subseteq> set conns \<and> sniff_loop clock conns' m ss sd = (r, sd')) \<or>
      (\<exists>e. r = Inl e \<and> (sd' = sd \<or> sd' = cacheSniffFailed clock m sd)) \<or>
      (\<exists>host. r = Inr host \<and> ParseAddr host = None \<and> sd' = sd \<and> SupportNetwork s = TCP \<and> SupportPort s (mDstPort m) \<and>
         conns \<noteq> [] \<and> pk_error (hd conns) = None \<and> sniff_once s (hd conns) = Some (Inr host))"
    using Cons.prems unfolding sc
    by (cases conns) (auto split: if_splits option.splits sum.splits)
  then show ?case
  proof (elim disjE exE conjE)
    fix conns' assume conns': "set conns' \<subseteq> set conns" "sniff_loop clock conns' m ss sd = (r, sd')"
    show ?thesis using Cons.IH [OF conns'(2)] host_sniffed_mono [of ss conns' m _ "sc # ss" conns] conns'(1) by auto
  next
    fix host assume h: "r = Inr host" "ParseAddr host = None" "sd' = sd" "SupportNetwork s = TCP" "SupportPort s (mDstPort m)"
      "conns \<noteq> []" "pk_error (hd conns) = None" "sniff_once s (hd conns) = Some (Inr host)"
    then have "host_sniffed (sc # ss) conns m host"
      using sniff_once_peeked [OF h(8,7)] unfolding host_sniffed_def sc by (fastforce intro: list.set_sel(1))
    with h show ?thesis by simp
  qed simp_all
qed

lemma domainCanReplace_skipList [simp]: "domainCanReplace (sd\<lparr>sd_skipList := l\<rparr>) host = domainCanReplace sd host"
  by (simp add: domainCanReplace_def)

text \<open>The dispatchers a program can reach from a new one.\<close>

inductive sniffer_run :: "Dispatcher \<Rightarrow> Dispatcher \<Rightarrow> bool" where
  start: "sniffer_run sd sd"
| sniff: "sniffer_run sd0 sd \<Longrightarrow> ranges_over order sd \<Longrightarrow> ranges_over order' sd \<Longrightarrow>
    TCPSniff order order' clocks conns m sd = (r, m', sd') \<Longrightarrow> sniffer_run sd0 sd'"

text \<open>The state after the look-up in the skip list, and whether it forbids to look.\<close>

definition looked_up :: "(nat \<Rightarrow> clock) \<Rightarrow> Metadata \<Rightarrow> Dispatcher \<Rightarrow> Dispatcher" where
  "looked_up clocks m sd =
     (if forceSniff sd m then sd else sd\<lparr>sd_skipList := snd (lru_Get (clocks 0) (AddrPort m) (sd_skipList sd))\<rparr>)"

definition skipped :: "(nat \<Rightarrow> clock) \<Rightarrow> Metadata \<Rightarrow> Dispatcher \<Rightarrow> bool" where
  "skipped clocks m sd \<longleftrightarrow> \<not> forceSniff sd m \<and>
     (case fst (lru_Get (clocks 0) (AddrPort m) (sd_skipList sd)) of Some n \<Rightarrow> n > 5 | None \<Rightarrow> False)"

lemma TCPSniff_looks:
  assumes "shouldOverride sd m" "whitelisted order sd m = Some (s, c)"
  shows "TCPSniff order order' clocks conns m sd =
    (if skipped clocks m sd then (False, m, looked_up clocks m sd)
     else (case sniffDomain order' (clocks 1) conns m (looked_up clocks m sd) of
             (Inl err, sd2) \<Rightarrow> (False, m, if \<not> forceSniff sd m then cacheSniffFailed (clocks 2) m sd2 else sd2)
           | (Inr host, sd2) \<Rightarrow>
               if \<not> domainCanReplace sd2 host then (False, m, sd2)
               else (True, replaceDomain m host (sc_OverrideDest c), sd2\<lparr>sd_skipList := lru_Delete (AddrPort m) (sd_skipList sd2)\<rparr>)))"
  by (cases "forceSniff sd m"; cases "lru_Get (clocks 0) (AddrPort m) (sd_skipList sd)")
    (simp_all add: TCPSniff_def assms looked_up_def skipped_def Let_def split: prod.split sum.split)

lemma looked_up_replace [simp]: "domainCanReplace (looked_up clocks m sd) host = domainCanReplace sd host"
  by (simp add: looked_up_def)

lemma looked_up_sniffers [simp]: "sd_sniffers (looked_up clocks m sd) = sd_sniffers sd"
  by (simp add: looked_up_def)

lemma skips_ok_looked_up: "skips_ok g sd \<Longrightarrow> skips_ok g (looked_up clocks m sd)"
  by (simp add: looked_up_def skips_ok_Get del: snd_Get)

lemma TCPSniff_step:
  assumes "TCPSniff order order' clocks conns m sd = (r, m', sd')" "skips_ok g sd"
  shows "skips_ok g sd'" "\<not> r \<Longrightarrow> m' = m"
    "r \<Longrightarrow> \<exists>s c host. shouldOverride sd m \<and> whitelisted order sd m = Some (s, c) \<and> m' = replaceDomain m host (sc_OverrideDest c) \<and>
       domainCanReplace sd host \<and> ParseAddr host = None \<and> host_sniffed (order' (sd_sniffers sd)) conns m host"
    "skipped clocks m sd \<Longrightarrow> \<not> r \<and> (sd' = sd \<or> sd' = looked_up clocks m sd)"
proof -
  have "skips_ok g sd' \<and> (\<not> r \<longrightarrow> m' = m) \<and>
    (r \<longrightarrow> (\<exists>s c host. shouldOverride sd m \<and> whitelisted order sd m = Some (s, c) \<and> m' = replaceDomain m host (sc_OverrideDest c) \<and>
       domainCanReplace sd host \<and> ParseAddr host = None \<and> host_sniffed (order' (sd_sniffers sd)) conns m host)) \<and>
    (skipped clocks m sd \<longrightarrow> \<not> r \<and> (sd' = sd \<or> sd' = looked_up clocks m sd))"
  proof (cases "shouldOverride sd m \<and> whitelisted order sd m \<noteq> None")
    case False
    then have "TCPSniff order order' clocks conns m sd = (False, m, sd)" by (cases "whitelisted order sd m") (auto simp: TCPSniff_def)
    with assms show ?thesis by auto
  next
    case True
    then obtain s c where o: "shouldOverride sd m" "whitelisted order sd m = Some (s, c)" by auto
    obtain res sd2 where sniff: "sniffDomain order' (clocks 1) conns m (looked_up clocks m sd) = (res, sd2)" by force
    note found = sniff_loop_result [OF sniff [unfolded sniffDomain_def]]
    note ok1 = skips_ok_looked_up [OF assms(2), of clocks m]
    have ok2: "skips_ok g sd2" using found ok1 skips_ok_Compute by auto
    show ?thesis
    proof (cases "skipped clocks m sd")
      case skip: True
      then have "TCPSniff order order' clocks conns m sd = (False, m, looked_up clocks m sd)" by (simp add: TCPSniff_looks [OF o])
      with assms(1) ok1 show ?thesis by auto
    next
      case skip: False
      show ?thesis
      proof (cases res)
        case (Inl err)
        then have "TCPSniff order order' clocks conns m sd = (False, m, if \<not> forceSniff sd m then cacheSniffFailed (clocks 2) m sd2 else sd2)"
          using skip sniff by (simp add: TCPSniff_looks [OF o])
        with assms(1) ok2 skip skips_ok_Compute show ?thesis by auto
      next
        case (Inr host)
        then have host: "ParseAddr host = None" "sd2 = looked_up clocks m sd" "host_sniffed (order' (sd_sniffers sd)) conns m host"
          using found by auto
        have "TCPSniff order order' clocks conns m sd = (if \<not> domainCanReplace sd host then (False, m, sd2)
            else (True, replaceDomain m host (sc_OverrideDest c), sd2\<lparr>sd_skipList := lru_Delete (AddrPort m) (sd_skipList sd2)\<rparr>))"
          using skip sniff Inr host(2) by (simp add: TCPSniff_looks [OF o])
        with assms(1) ok2 skip skips_ok_Delete [OF ok2, of "AddrPort m"] o host(1,3) show ?thesis by (auto split: if_splits)
      qed
    qed
  qed
  then show "skips_ok g sd'" "\<not> r \<Longrightarrow> m' = m"
    "r \<Longrightarrow> \<exists>s c host. shouldOverride sd m \<and> whitelisted order sd m = Some (s, c) \<and> m' = replaceDomain m host (sc_OverrideDest c) \<and>
       domainCanReplace sd host \<and> ParseAddr host = None \<and> host_sniffed (order' (sd_sniffers sd)) conns m host"
    "skipped clocks m sd \<Longrightarrow> \<not> r \<and> (sd' = sd \<or> sd' = looked_up clocks m sd)"
    by blast+
qed

lemma sniffer_run_ok:
  assumes "NewDispatcher isDomainName config = Inr sd0" "sniffer_run sd0 sd"
  shows "skips_ok (config_of (lru_New [WithSize 128, WithAge 600] :: (addr \<times> 16 word, 8 word) LruCache)) sd"
  using assms(2,1)
proof (induction rule: sniffer_run.induct)
  case (start sd)
  then have "sd_skipList sd = lru_New [WithSize 128, WithAge 600]" by (auto simp: NewDispatcher_def result_bind_Inr_iff)
  then show ?case using New_represents [of "[WithSize 128, WithAge 600]"] by (auto simp: skips_ok_def)
qed (blast intro: TCPSniff_step(1))

text \<open>
  C14.  What sniffing a TCP connection may do.  In every state of a dispatcher, whatever the connection sends, the
  clock shows and the orders of the two loops over the sniffers: the metadata changes only if sniffing reports a
  host.  That host is exactly what one of the sniffers for TCP and the port reads in bytes the connection
  showed; it is no IP address and a domain name that no skip pattern matches; and the metadata is rewritten as
  a sniffer for the port is configured.  Failures are counted up to six, never beyond, and a destination with
  more than five is not looked at again, unless sniffing is forced, as long as the skip list keeps it.
\<close>

theorem TCPSniff_safe:
  assumes "NewDispatcher isDomainName config = Inr sd0" "sniffer_run sd0 sd"
    and "ranges_over order sd" "ranges_over order' sd" "TCPSniff order order' clocks conns m sd = (r, m', sd')"
  shows "(\<not> r \<longrightarrow> m' = m) \<and>
    (r \<longrightarrow> (\<exists>host. (\<exists>(s, c) \<in> set (sd_sniffers sd). (SupportNetwork s = TCP \<or> SupportNetwork s = ALLNet) \<and>
         SupportPort s (mDstPort m) \<and> m' = replaceDomain m host (sc_OverrideDest c)) \<and>
       (\<exists>(s, c) \<in> set (sd_sniffers sd). \<exists>conn \<in> set conns. \<exists>b. SupportNetwork s = TCP \<and> SupportPort s (mDstPort m) \<and>
         peeked conn b \<and> SniffData s b = Inr host) \<and>
       domainCanReplace sd host \<and> ParseAddr host = None)) \<and>
    (\<forall>e \<in> set (entries (sd_skipList sd')). e_value e \<le> 6) \<and> (skipped clocks m sd \<longrightarrow> \<not> r \<and> (sd' = sd \<or> sd' = looked_up clocks m sd))"
proof -
  note step = TCPSniff_step [OF assms(5) sniffer_run_ok [OF assms(1,2)]]
  from assms(3,4) have order: "set (order (sd_sniffers sd)) = set (sd_sniffers sd)" "set (order' (sd_sniffers sd)) = set (sd_sniffers sd)"
    unfolding ranges_over_def by (metis set_mset_mset)+
  have white: "(s, c) \<in> set (sd_sniffers sd) \<and> (SupportNetwork s = TCP \<or> SupportNetwork s = ALLNet) \<and> SupportPort s (mDstPort m)"
    if "whitelisted order sd m = Some (s, c)" for s c
    using that order(1) by (auto simp: whitelisted_def find_Some_iff) (metis nth_mem)+
  from step(1) have "\<forall>e \<in> set (entries (sd_skipList sd')). e_value e \<le> 6" by (auto simp: skips_ok_def represents_def)
  moreover have "\<exists>host. (\<exists>(s, c) \<in> set (sd_sniffers sd). (SupportNetwork s = TCP \<or> SupportNetwork s = ALLNet) \<and>
         SupportPort s (mDstPort m) \<and> m' = replaceDomain m host (sc_OverrideDest c)) \<and>
       (\<exists>(s, c) \<in> set (sd_sniffers sd). \<exists>conn \<in> set conns. \<exists>b. SupportNetwork s = TCP \<and> SupportPort s (mDstPort m) \<and>
         peeked conn b \<and> SniffData s b = Inr host) \<and>
       domainCanReplace sd host \<and> ParseAddr host = None" if r
  proof -
    from step(3) [OF that] obtain s c host where host: "whitelisted order sd m = Some (s, c)"
        "m' = replaceDomain m host (sc_OverrideDest c)" "domainCanReplace sd host" "ParseAddr host = None"
        "host_sniffed (order' (sd_sniffers sd)) conns m host" by blast
    show ?thesis
    proof (intro exI [of _ host] conjI)
      show "\<exists>(s, c) \<in> set (sd_sniffers sd). (SupportNetwork s = TCP \<or> SupportNetwork s = ALLNet) \<and>
          SupportPort s (mDstPort m) \<and> m' = replaceDomain m host (sc_OverrideDest c)"
        using white [OF host(1)] host(2) by blast
    qed (use host(3-5) in \<open>simp_all add: host_sniffed_def order\<close>)
  qed
  ultimately show ?thesis using step(2,4) by blast
qed

text \<open>Witness: a connection to port 443 whose client hello arrives in two pieces.\<close>

definition example_sniffing :: dispatcher_Config where
  "example_sniffing = \<lparr>cf_Enable = True, cf_Sniffers = [(SnifferTLS, \<lparr>sc_OverrideDest = True, sc_Ports = []\<rparr>)],
     cf_ForceDomain = [], cf_SkipSrcAddress = [], cf_SkipDstAddress = [], cf_SkipDomain = [], cf_ForceDnsMapping = False,
     cf_ParsePureIp = True\<rparr>"

definition example_conn :: peek_conn where
  "example_conn = \<lparr>pk_error = None, pk_buffered = Some (take 5 (record_bytes 1 example_hello)),
     pk_wait = (\<lambda>n. Some (take n (record_bytes 1 example_hello)))\<rparr>"

lemma example_hello_sniffed:
  "SniffTLS (record_bytes 1 example_hello) = Inr ''ab''"
  "SniffTLS (take 5 (record_bytes 1 example_hello)) = Inl (ErrNeedAtLeastData (length (record_bytes 1 example_hello)))"
proof -
  have wf: "wf_hello example_hello"
    by (auto simp: wf_hello_def example_hello_def hello_bytes_def extension_bytes_def name_bytes_def length_be_bytes Let_def)
  have "bytes_string [97, 98] = ''ab''" by (simp add: bytes_string_def) code_simp
  then have "hello_result example_hello = Inr ''ab''"
    by (simp add: hello_result_def host_name_def example_hello_def has_suffix_def)
  then show "SniffTLS (record_bytes 1 example_hello) = Inr ''ab''"
    using SniffTLS_record(1) [of example_hello 1 "[]"] ReadClientHello_tls_bytes [OF wf] wf by (simp add: wf_hello_def)
  show "SniffTLS (take 5 (record_bytes 1 example_hello)) = Inl (ErrNeedAtLeastData (length (record_bytes 1 example_hello)))"
    using wf by (intro SniffTLS_record(2)) (auto simp: wf_hello_def record_bytes_def example_hello_def hello_bytes_def)
qed

theorem TCPSniff_safe_witness:
  "\<exists>sd0 m' sd'. NewDispatcher (\<lambda>_. True) example_sniffing = Inr sd0 \<and>
     TCPSniff rev id (\<lambda>_ _. 0) [example_conn] (zeroMetadata\<lparr>mDstPort := 443\<rparr>) sd0 = (True, m', sd') \<and>
     (\<exists>b. peeked example_conn b \<and> SniffTLS b = Inr (mHost m')) \<and> domainCanReplace sd0 (mHost m') \<and> ParseAddr (mHost m') = None"
proof -
  let ?m = "zeroMetadata\<lparr>mDstPort := 443\<rparr>" and ?c = "\<lparr>sc_OverrideDest = True, sc_Ports = []\<rparr>"
  obtain sd0 where sd0: "NewDispatcher (\<lambda>_. True) example_sniffing = Inr sd0"
    and sn: "sd_sniffers sd0 = [(NewTLSSniffer ?c, ?c)]" and sk: "sd_skipList sd0 = lru_New [WithSize 128, WithAge 600]"
    and ov: "shouldOverride sd0 ?m" "\<not> forceSniff sd0 ?m" and rep: "domainCanReplace sd0 ''ab''"
    by (simp add: NewDispatcher_def example_sniffing_def NewSniffer_def shouldOverride_def forceSniff_def domainCanReplace_def zeroMetadata_def)
  have port: "SupportNetwork (NewTLSSniffer ?c) = TCP" "SupportPort (NewTLSSniffer ?c) 443"
    by (simp_all add: NewTLSSniffer_def Check_def Contains_def NewRange_def)
  then have wl: "whitelisted rev sd0 ?m = Some (NewTLSSniffer ?c, ?c)" by (simp add: whitelisted_def sn)
  have "fst (lru_Get (\<lambda>_. 0) (AddrPort ?m) (sd_skipList sd0)) = None"
    by (simp add: sk lru_New_def lru_get_def lru_Clear_def)
  then have skip: "\<not> skipped (\<lambda>_ _. 0) ?m sd0" by (simp add: skipped_def)
  have once: "sniff_once (NewTLSSniffer ?c) example_conn = Some (Inr ''ab'')"
    by (simp add: sniff_once_def example_conn_def NewTLSSniffer_def example_hello_sniffed)
  have no_ip: "ParseAddr ''ab'' = None" by code_simp
  let ?sd1 = "looked_up (\<lambda>_ _. 0) ?m sd0"
  have "sniffDomain id (\<lambda>_. 0) [example_conn] ?m ?sd1 = (Inr ''ab'', ?sd1)"
    using port once no_ip by (simp add: sniffDomain_def looked_up_def ov sn example_conn_def [THEN arg_cong, of pk_error])
  then obtain m' sd' where run: "TCPSniff rev id (\<lambda>_ _. 0) [example_conn] ?m sd0 = (True, m', sd')"
    using rep skip by (simp add: TCPSniff_looks [OF ov(1) wl])
  have ord: "ranges_over rev sd0" "ranges_over id sd0" by (simp_all add: ranges_over_def)
  from TCPSniff_safe [OF sd0 sniffer_run.start ord run] obtain host where
    "m' = replaceDomain ?m host True" "\<exists>b. peeked example_conn b \<and> SniffData (NewTLSSniffer ?c) b = Inr host"
    "domainCanReplace sd0 host" "ParseAddr host = None" by (auto simp: sn)
  with sd0 run show ?thesis by (auto simp: replaceDomain_def Let_def NewTLSSniffer_def)
qed

end
