(* ===== verification/Single_Do.thy ===== *)
theory Single_Do
  imports Prelude
begin

text \<open>
  \<open>common/singledo/singledo.go\<close>: one caller computes a value, callers that come while it runs wait for
  it, and callers that come shortly afterwards get the value that was kept.  \<open>Do\<close> holds its lock
  twice, before and after the computation; the two sections are \<open>single_enter\<close> and \<open>single_leave\<close>, and
  other callers and \<open>Reset\<close> may come in between.  A call is a number in place of its pointer.
\<close>

record 'v Result =
  rs_Val :: 'v
  rs_Err :: "string option"
  rs_Time :: int

record 'v Single =
  sg_wait :: int
  sg_call :: "nat option"
  sg_result :: "'v Result option"

definition NewSingle :: "int \<Rightarrow> 'v Single" where
  "NewSingle wait = \<lparr>sg_wait = wait, sg_call = None, sg_result = None\<rparr>"

text \<open>What a caller does after the first section: return a kept result, wait for a call, or run.\<close>

datatype 'v entry = Kept "'v Result" | Join nat | Run nat

definition single_enter :: "int \<Rightarrow> nat \<Rightarrow> 'v Single \<Rightarrow> 'v entry \<times> 'v Single" where
  "single_enter now fresh s =
     (case sg_result s of
        Some r \<Rightarrow>
          if now - rs_Time r < sg_wait s then (Kept r, s)
          else (case sg_call s of
                  Some c \<Rightarrow> (Join c, s\<lparr>sg_result := None\<rparr>)
                | None \<Rightarrow> (Run fresh, s\<lparr>sg_result := None, sg_call := Some fresh\<rparr>))
      | None \<Rightarrow>
          (case sg_call s of
             Some c \<Rightarrow> (Join c, s)
           | None \<Rightarrow> (Run fresh, s\<lparr>sg_call := Some fresh\<rparr>)))"

definition single_leave :: "nat \<Rightarrow> 'v \<Rightarrow> string option \<Rightarrow> int \<Rightarrow> 'v Single \<Rightarrow> 'v Single" where
  "single_leave c val err now s =
     (if sg_call s = Some c
      then s\<lparr>sg_call := None, sg_result := Some \<lparr>rs_Val = val, rs_Err = err, rs_Time = now\<rparr>\<rparr>
      else s)"

definition single_Reset :: "'v Single \<Rightarrow> 'v Single" where
  "single_Reset s = s\<lparr>sg_call := None, sg_result := None\<rparr>"

text \<open>
  \<open>Do\<close> of a caller that is alone: \<open>fn\<close> works on a state \<open>x\<close>.  The result is the value, the error, whether
  it is shared, and the states after it.  A caller that would have to wait is not alone.
\<close>

definition single_Do ::
  "int \<Rightarrow> int \<Rightarrow> ('x \<Rightarrow> ('v \<times> string option) \<times> 'x) \<Rightarrow> 'v Single \<Rightarrow> 'x \<Rightarrow> (('v \<times> string option \<times> bool) \<times> 'v Single \<times> 'x) option" where
  "single_Do now1 now2 fn s x =
     (case single_enter now1 0 s of
        (Kept r, s1) \<Rightarrow> Some ((rs_Val r, rs_Err r, True), s1, x)
      | (Join c, s1) \<Rightarrow> None
      | (Run c, s1) \<Rightarrow>
          (case fn x of ((val, err), x1) \<Rightarrow> Some ((val, err, False), single_leave c val err now2 s1, x1)))"

definition still_kept :: "int \<Rightarrow> 'v Single \<Rightarrow> 'v Result option" where
  "still_kept now s = (case sg_result s of Some r \<Rightarrow> if now - rs_Time r < sg_wait s then Some r else None | None \<Rightarrow> None)"

lemma single_Do_kept: "still_kept now1 s = Some r \<Longrightarrow> single_Do now1 now2 fn s x = Some ((rs_Val r, rs_Err r, True), s, x)"
  by (auto simp: still_kept_def single_Do_def single_enter_def split: option.splits if_splits)

lemma single_Do_run:
  assumes "still_kept now1 s = None" "sg_call s = None" "fn x = ((v, e), x')"
  shows "single_Do now1 now2 fn s x =
    Some ((v, e, False), s\<lparr>sg_call := None, sg_result := Some \<lparr>rs_Val = v, rs_Err = e, rs_Time = now2\<rparr>\<rparr>, x')"
  using assms by (auto simp: still_kept_def single_Do_def single_enter_def single_leave_def split: option.splits if_splits)

lemma single_Do_wait: "still_kept now1 s = None \<Longrightarrow> sg_call s \<noteq> None \<Longrightarrow> single_Do now1 now2 fn s x = None"
  by (auto simp: still_kept_def single_Do_def single_enter_def split: option.splits if_splits)

section \<open>Callers side by side\<close>

text \<open>
  A configuration has the numbers of the calls whose computation is in progress.  \<open>epoch\<close> counts the
  resets, \<open>begun\<close> tells in which epoch a call started and \<open>kept_from\<close> which call the kept result is from.
\<close>

record 'v flight =
  fl_single :: "'v Single"
  fl_running :: "nat set"
  fl_next :: nat
  fl_epoch :: nat
  fl_begun :: "nat \<Rightarrow> nat"
  fl_kept_from :: nat

inductive flight_step :: "'v flight \<Rightarrow> 'v flight \<Rightarrow> bool" where
  kept: "single_enter now (fl_next f) (fl_single f) = (Kept r, s) \<Longrightarrow> flight_step f (f\<lparr>fl_single := s\<rparr>)"
| join: "single_enter now (fl_next f) (fl_single f) = (Join c, s) \<Longrightarrow> flight_step f (f\<lparr>fl_single := s\<rparr>)"
| run: "single_enter now (fl_next f) (fl_single f) = (Run c, s) \<Longrightarrow>
    flight_step f (f\<lparr>fl_single := s, fl_running := insert c (fl_running f), fl_next := Suc (fl_next f), fl_begun := (fl_begun f)(c := fl_epoch f)\<rparr>)"
| leave: "c \<in> fl_running f \<Longrightarrow>
    flight_step f (f\<lparr>fl_single := single_leave c val err now (fl_single f), fl_running := fl_running f - {c},
      fl_kept_from := if sg_call (fl_single f) = Some c then c else fl_kept_from f\<rparr>)"
| reset: "flight_step f (f\<lparr>fl_single := single_Reset (fl_single f), fl_epoch := Suc (fl_epoch f)\<rparr>)"

inductive flight_reachable :: "'v flight \<Rightarrow> bool" where
  start: "flight_reachable \<lparr>fl_single = NewSingle wait, fl_running = {}, fl_next = 0, fl_epoch = 0, fl_begun = b, fl_kept_from = k\<rparr>"
| step: "flight_reachable f \<Longrightarrow> flight_step f g \<Longrightarrow> flight_reachable g"

inductive_cases flight_stepE: "flight_step f g"

definition flight_ok :: "'v flight \<Rightarrow> bool" where
  "flight_ok f \<longleftrightarrow>
     (\<forall>c \<in> fl_running f. c < fl_next f \<and> fl_begun f c \<le> fl_epoch f) \<and>
     (\<forall>c. sg_call (fl_single f) = Some c \<longleftrightarrow> c \<in> fl_running f \<and> fl_begun f c = fl_epoch f) \<and>
     (sg_result (fl_single f) \<noteq> None \<longrightarrow> fl_begun f (fl_kept_from f) = fl_epoch f \<and> fl_kept_from f < fl_next f)"

lemma single_enter_cases:
  assumes "single_enter now c s = (e, s')"
  obtains (kept) r where "e = Kept r" "sg_result s = Some r" "s' = s"
  | (join) c' where "e = Join c'" "sg_call s = Some c'" "sg_call s' = Some c'" "sg_result s' = None"
  | (run) "e = Run c" "sg_call s = None" "sg_call s' = Some c" "sg_result s' = None"
  using assms by (auto simp: single_enter_def split: option.splits if_splits)

lemma flight_step_ok: "flight_step f g \<Longrightarrow> flight_ok f \<Longrightarrow> flight_ok g"
proof (induction rule: flight_step.induct)
  case (run now f c s)
  from run(1) have "c = fl_next f" "sg_call (fl_single f) = None" "sg_call s = Some c" "sg_result s = None"
    by (auto elim: single_enter_cases)
  with run(2) show ?case by (auto simp: flight_ok_def)
next
  case (leave c f val err now)
  then show ?case
  proof (cases "sg_call (fl_single f) = Some c")
    case True
    with leave have "fl_begun f c' = fl_epoch f \<Longrightarrow> c' \<in> fl_running f \<Longrightarrow> c' = c" for c'
      by (metis flight_ok_def option.inject)
    with True leave show ?thesis by (auto simp: flight_ok_def single_leave_def)
  qed (auto simp: flight_ok_def single_leave_def)
next
  case (reset f)
  then show ?case by (fastforce simp: flight_ok_def single_Reset_def)
qed (auto simp: flight_ok_def elim!: single_enter_cases)

lemma flight_reachable_ok: "flight_reachable f \<Longrightarrow> flight_ok f"
proof (induction rule: flight_reachable.induct)
  case (start wait b k)
  show ?case by (simp add: flight_ok_def NewSingle_def)
qed (rule flight_step_ok)

text \<open>
  Two computations run at the same time only across a reset, and a kept result comes from a
  computation that started after the last reset.
\<close>

lemma single_flight:
  assumes "flight_reachable f"
  shows "c \<in> fl_running f \<Longrightarrow> c' \<in> fl_running f \<Longrightarrow> fl_begun f c = fl_epoch f \<Longrightarrow> fl_begun f c' = fl_epoch f \<Longrightarrow> c = c'"
    and "sg_result (fl_single f) \<noteq> None \<Longrightarrow> fl_begun f (fl_kept_from f) = fl_epoch f"
  using flight_reachable_ok [OF assms] unfolding flight_ok_def by (metis option.inject)+

end
