(* ===== verification/Proxy_Health.thy ===== *)
theory Proxy_Health
  imports Metadata Int_Ranges Wire Single_Do "HOL-Library.AList"
begin

text \<open>
  How the core knows which proxies work.  \<open>adapter/adapter.go\<close>: a proxy remembers its last test and,
  per test URL, whether it answered and the last ten delays.  \<open>adapter/provider\<close>: a provider holds
  proxies and a health check, which tests each of them against its own URL and the URLs that groups
  register.  Proxies and providers are shared by reference, so they are objects in a store.
\<close>

section \<open>common/queue/queue.go\<close>

definition q_Put :: "'a list \<Rightarrow> 'a list \<Rightarrow> 'a list" where
  "q_Put items q = (if items = [] then q else q @ items)"

definition q_Pop :: "'a \<Rightarrow> 'a list \<Rightarrow> 'a \<times> 'a list" where
  "q_Pop zero q = (case q of [] \<Rightarrow> (zero, q) | x # xs \<Rightarrow> (x, xs))"

definition q_Last :: "'a \<Rightarrow> 'a list \<Rightarrow> 'a" where
  "q_Last zero q = (if q = [] then zero else q ! (length q - 1))"

definition q_Copy :: "'a list \<Rightarrow> 'a list" where
  "q_Copy q = [] @ q"

definition q_Len :: "'a list \<Rightarrow> int" where
  "q_Len q = int (length q)"

section \<open>adapter/adapter.go\<close>

record DelayHistory =
  dh_Time :: int
  dh_Delay :: "16 word"

definition zeroHistory :: DelayHistory where
  "zeroHistory = \<lparr>dh_Time = 0, dh_Delay = 0\<rparr>"

definition defaultHistoriesNum :: int where
  "defaultHistoriesNum = 10"

record internalProxyState =
  ps_alive :: bool
  ps_history :: "DelayHistory list"

text \<open>Of the embedded \<open>ProxyAdapter\<close> the methods that groups and health checks ask for.\<close>

record AdapterProxy =
  ap_Name :: string
  ap_Type :: AdapterType
  ap_SupportUDP :: bool
  ap_alive :: bool
  ap_history :: "DelayHistory list"
  ap_extra :: "string \<Rightarrow> internalProxyState option"

definition NewProxy :: "string \<Rightarrow> AdapterType \<Rightarrow> bool \<Rightarrow> AdapterProxy" where
  "NewProxy name ty udp =
     \<lparr>ap_Name = name, ap_Type = ty, ap_SupportUDP = udp, ap_alive = True, ap_history = [], ap_extra = (\<lambda>_. None)\<rparr>"

definition AliveForTestUrl :: "AdapterProxy \<Rightarrow> string \<Rightarrow> bool" where
  "AliveForTestUrl p url = (case ap_extra p url of Some state \<Rightarrow> ps_alive state | None \<Rightarrow> ap_alive p)"

definition DelayHistoryOf :: "AdapterProxy \<Rightarrow> DelayHistory list" where
  "DelayHistoryOf p = q_Copy (ap_history p)"

definition DelayHistoryForTestUrl :: "AdapterProxy \<Rightarrow> string \<Rightarrow> DelayHistory list" where
  "DelayHistoryForTestUrl p url = (case ap_extra p url of Some state \<Rightarrow> q_Copy (ps_history state) | None \<Rightarrow> [])"

definition ExtraDelayHistories :: "AdapterProxy \<Rightarrow> string \<Rightarrow> (bool \<times> DelayHistory list) option" where
  "ExtraDelayHistories p url = map_option (\<lambda>state. (ps_alive state, q_Copy (ps_history state))) (ap_extra p url)"

definition LastDelayForTestUrl :: "AdapterProxy \<Rightarrow> string \<Rightarrow> 16 word" where
  "LastDelayForTestUrl p url =
     (case ap_extra p url of
        None \<Rightarrow> 0xffff
      | Some state \<Rightarrow>
          let history = q_Last zeroHistory (ps_history state) in
          if \<not> ps_alive state \<or> dh_Delay history = 0 then 0xffff else dh_Delay history)"

text \<open>
  A test reaches the network through an argument: \<open>parse\<close> is \<open>url.Parse\<close> with the scheme, the host and
  the port of the URL; the other fields are the outcomes of the calls \<open>URLTest\<close> makes, in their order,
  with the readings of the clock in nanoseconds.
\<close>

record probe =
  pr_parse :: "string \<Rightarrow> (string \<times> string \<times> string) option"
  pr_dial :: "Metadata \<Rightarrow> string option"
  pr_NewRequest :: "string option"
  pr_GetTLSConfig :: "string option"
  pr_first :: "(string, nat) result"
  pr_second :: "(string, nat) result"
  pr_start :: int
  pr_second_start :: int
  pr_end :: int
  pr_recorded :: int

datatype test_error = BadURL | SchemeNotSupport string | BadRemoteAddress | DialFailed string
  | RequestFailed string | TLSConfigFailed string | DoFailed string

definition urlToMetadata :: "(string \<Rightarrow> (string \<times> string \<times> string) option) \<Rightarrow> string \<Rightarrow> (test_error, Metadata) result" where
  "urlToMetadata parse rawURL =
     (case parse rawURL of
        None \<Rightarrow> Inl BadURL
      | Some (scheme, hostname, p) \<Rightarrow>
          result_bind
            (if p \<noteq> [] then Inr p
             else if scheme = ''https'' then Inr ''443''
             else if scheme = ''http'' then Inr ''80''
             else Inl (SchemeNotSupport rawURL))
            (\<lambda>port. case SetRemoteAddress (JoinHostPort hostname port) zeroMetadata of
                      None \<Rightarrow> Inl BadRemoteAddress
                    | Some addr \<Rightarrow> Inr addr))"

text \<open>The body of \<open>URLTest\<close> up to its return: whether the status was the expected one, and the delay.\<close>

definition probe_url :: "bool \<Rightarrow> probe \<Rightarrow> string \<Rightarrow> 16 word Range list \<Rightarrow> (test_error, bool \<times> 16 word) result" where
  "probe_url unifiedDelay pr url expectedStatus =
     result_bind (urlToMetadata (pr_parse pr) url) (\<lambda>addr.
       case pr_dial pr addr of Some e \<Rightarrow> Inl (DialFailed e) | None \<Rightarrow>
       case pr_NewRequest pr of Some e \<Rightarrow> Inl (RequestFailed e) | None \<Rightarrow>
       case pr_GetTLSConfig pr of Some e \<Rightarrow> Inl (TLSConfigFailed e) | None \<Rightarrow>
       case pr_first pr of Inl e \<Rightarrow> Inl (DoFailed e) | Inr resp \<Rightarrow>
         let (status, start) =
               (if unifiedDelay
                then (case pr_second pr of Inr secondResp \<Rightarrow> (secondResp, pr_second_start pr) | Inl _ \<Rightarrow> (resp, pr_start pr))
                else (resp, pr_start pr))
         in Inr (Check expectedStatus (of_nat status), of_int (go_quot (pr_end pr - start) 1000000)))"

definition remember :: "DelayHistory \<Rightarrow> DelayHistory list \<Rightarrow> DelayHistory list" where
  "remember r h = (let h1 = q_Put [r] h in if q_Len h1 > defaultHistoriesNum then snd (q_Pop zeroHistory h1) else h1)"

text \<open>The deferred function records the outcome, for the proxy and for the URL.\<close>

definition record_test :: "string \<Rightarrow> int \<Rightarrow> (test_error, bool \<times> 16 word) result \<Rightarrow> AdapterProxy \<Rightarrow> AdapterProxy" where
  "record_test url now outcome p =
     (let alive = (case outcome of Inr _ \<Rightarrow> True | Inl _ \<Rightarrow> False);
          satisfied = (case outcome of Inr (ok, _) \<Rightarrow> ok | Inl _ \<Rightarrow> False);
          t = (case outcome of Inr (_, t) \<Rightarrow> t | Inl _ \<Rightarrow> 0);
          r = \<lparr>dh_Time = now, dh_Delay = if alive then t else 0\<rparr>;
          p1 = p\<lparr>ap_alive := alive, ap_history := remember r (ap_history p)\<rparr>;
          state = (case ap_extra p1 url of Some s \<Rightarrow> s | None \<Rightarrow> \<lparr>ps_alive = True, ps_history = []\<rparr>);
          r2 = (if \<not> satisfied then r\<lparr>dh_Delay := 0\<rparr> else r);
          alive2 = (if \<not> satisfied then False else alive)
      in p1\<lparr>ap_extra := (ap_extra p1)(url \<mapsto> \<lparr>ps_alive = alive2, ps_history = remember r2 (ps_history state)\<rparr>)\<rparr>)"

definition URLTest :: "bool \<Rightarrow> probe \<Rightarrow> string \<Rightarrow> 16 word Range list \<Rightarrow> AdapterProxy \<Rightarrow> (test_error, 16 word) result \<times> AdapterProxy" where
  "URLTest unifiedDelay pr url expectedStatus p =
     (let outcome = probe_url unifiedDelay pr url expectedStatus in
      (map_sum id snd outcome, record_test url (pr_recorded pr) outcome p))"

section \<open>adapter/provider/healthcheck.go\<close>

text \<open>
  The filters of an extra URL are the keys of a map; their order is that of the list.  A regular
  expression is its text; \<open>compiles\<close> and \<open>regex\<close> are the regular expression package.
\<close>

record extraOption =
  eo_expectedStatus :: "16 word Range list"
  eo_filters :: "string list"

record HealthCheck =
  hc_url :: string
  hc_extra :: "(string \<times> extraOption) list"
  hc_proxies :: "nat list"
  hc_interval :: int
  hc_lazy :: bool
  hc_expectedStatus :: "16 word Range list"
  hc_lastTouch :: int
  hc_singleDo :: "unit Single"
  hc_timeout :: int

definition NewHealthCheck :: "nat list \<Rightarrow> string \<Rightarrow> nat \<Rightarrow> nat \<Rightarrow> bool \<Rightarrow> 16 word Range list \<Rightarrow> HealthCheck" where
  "NewHealthCheck proxies url timeout interval lazy expectedStatus =
     (let expectedStatus1 = (if url = [] then [] else expectedStatus);
          interval1 = (if url = [] then 0 else interval);
          timeout1 = (if timeout = 0 then 5000 else timeout)
      in \<lparr>hc_url = url, hc_extra = [], hc_proxies = proxies, hc_interval = int interval1 * 1000000000,
          hc_lazy = lazy, hc_expectedStatus = expectedStatus1, hc_lastTouch = 0,
          hc_singleDo = NewSingle 1000000000, hc_timeout = int timeout1 * 1000000\<rparr>)"

definition hc_setProxies :: "nat list \<Rightarrow> HealthCheck \<Rightarrow> HealthCheck" where
  "hc_setProxies proxies hc = hc\<lparr>hc_proxies := proxies\<rparr>"

definition auto_check :: "HealthCheck \<Rightarrow> bool" where
  "auto_check hc = (hc_interval hc \<noteq> 0)"

definition hc_touch :: "int \<Rightarrow> HealthCheck \<Rightarrow> HealthCheck" where
  "hc_touch now hc = hc\<lparr>hc_lastTouch := now\<rparr>"

definition splitAndAddFiltersToExtra :: "string \<Rightarrow> extraOption \<Rightarrow> extraOption" where
  "splitAndAddFiltersToExtra flt option =
     (let f = trim_space flt in
      if f = [] then option
      else fold (\<lambda>r opt. let regex = trim_space r in
                   if regex \<noteq> [] \<and> regex \<notin> set (eo_filters opt) then opt\<lparr>eo_filters := eo_filters opt @ [regex]\<rparr> else opt)
             (split_on (CHR ''`'') f) option)"

definition registerHealthCheckTask :: "string \<Rightarrow> 16 word Range list \<Rightarrow> string \<Rightarrow> nat \<Rightarrow> HealthCheck \<Rightarrow> HealthCheck" where
  "registerHealthCheckTask u expectedStatus flt interval hc =
     (let url = trim_space u in
      if url = [] \<or> url = hc_url hc then hc
      else
        let hc1 = (if hc_interval hc = 0 then hc\<lparr>hc_interval := int interval * 1000000000\<rparr> else hc) in
        case map_of (hc_extra hc1) url of
          Some option \<Rightarrow>
            if flt \<noteq> [] then hc1\<lparr>hc_extra := AList.update url (splitAndAddFiltersToExtra flt option) (hc_extra hc1)\<rparr> else hc1
        | None \<Rightarrow>
            hc1\<lparr>hc_extra := hc_extra hc1 @
              [(url, splitAndAddFiltersToExtra flt \<lparr>eo_expectedStatus = expectedStatus, eo_filters = []\<rparr>)]\<rparr>)"

text \<open>The lazy check of the ticker in \<open>process\<close>.\<close>

definition tick_checks :: "int \<Rightarrow> HealthCheck \<Rightarrow> bool" where
  "tick_checks now hc = (\<not> hc_lazy hc \<or> now - hc_lastTouch hc < hc_interval hc)"

text \<open>
  A check collects its tests, one per URL and proxy, and runs them side by side, at most ten at a time.
  A test changes its proxy in the deferred function at its end, so a run of the check is an order of
  the tests; \<open>he_order\<close> is that order.  A filter that does not compile panics.
\<close>

type_synonym test = "nat \<times> string \<times> 16 word Range list"

type_synonym proxies = "nat \<Rightarrow> AdapterProxy"

datatype health_error = RegexPanic string

record health_env =
  he_compiles :: "string \<Rightarrow> bool"
  he_regex :: "string \<Rightarrow> string \<Rightarrow> bool"
  he_unifiedDelay :: bool
  he_probe :: "nat \<Rightarrow> string \<Rightarrow> probe"
  he_order :: "test list \<Rightarrow> test list"

definition execute :: "health_env \<Rightarrow> proxies \<Rightarrow> HealthCheck \<Rightarrow> string \<times> extraOption \<Rightarrow> (health_error, test list) result" where
  "execute E px hc =
     (\<lambda>(u, option). let url = trim_space u; pattern = join_str ''|'' (eo_filters option) in
        if url = [] then Inr []
        else if eo_filters option = [] then Inr (map (\<lambda>p. (p, url, eo_expectedStatus option)) (hc_proxies hc))
        else if \<not> he_compiles E pattern then Inl (RegexPanic pattern)
        else Inr (map (\<lambda>p. (p, url, eo_expectedStatus option)) (filter (\<lambda>p. he_regex E pattern (ap_Name (px p))) (hc_proxies hc))))"

fun execute_all :: "health_env \<Rightarrow> proxies \<Rightarrow> HealthCheck \<Rightarrow> (string \<times> extraOption) list \<Rightarrow> (health_error, test list) result" where
  "execute_all E px hc [] = Inr []"
| "execute_all E px hc (o1 # os) =
     result_bind (execute E px hc o1) (\<lambda>ts. result_bind (execute_all E px hc os) (\<lambda>ts'. Inr (ts @ ts')))"

definition check_tests :: "health_env \<Rightarrow> proxies \<Rightarrow> HealthCheck \<Rightarrow> (health_error, test list) result" where
  "check_tests E px hc =
     execute_all E px hc ((hc_url hc, \<lparr>eo_expectedStatus = hc_expectedStatus hc, eo_filters = []\<rparr>) # hc_extra hc)"

definition run_test :: "health_env \<Rightarrow> test \<Rightarrow> proxies \<Rightarrow> proxies" where
  "run_test E = (\<lambda>(p, url, expectedStatus) px.
     px(p := snd (URLTest (he_unifiedDelay E) (he_probe E p url) url expectedStatus (px p))))"

definition run_tests :: "health_env \<Rightarrow> test list \<Rightarrow> proxies \<Rightarrow> proxies" where
  "run_tests E ts px = fold (run_test E) ts px"

definition hc_check :: "health_env \<Rightarrow> int \<Rightarrow> int \<Rightarrow> HealthCheck \<Rightarrow> proxies \<Rightarrow> (health_error, HealthCheck \<times> proxies) result option" where
  "hc_check E now1 now2 hc px =
     (if hc_proxies hc = [] then Some (Inr (hc, px))
      else
        (case single_Do now1 now2
                (\<lambda>x. (((), None), result_bind x (\<lambda>px. result_bind (check_tests E px hc) (\<lambda>ts. Inr (run_tests E (he_order E ts) px)))))
                (hc_singleDo hc) (Inr px) of
           None \<Rightarrow> None
         | Some (_, s, r) \<Rightarrow> Some (result_bind r (\<lambda>px'. Inr (hc\<lparr>hc_singleDo := s\<rparr>, px')))))"

section \<open>adapter/provider/provider.go\<close>

datatype VehicleType = VT_File | VT_HTTP | VT_Compatible | VT_Inline

fun VehicleType_String :: "VehicleType \<Rightarrow> string" where
  "VehicleType_String VT_File = ''File''"
| "VehicleType_String VT_HTTP = ''HTTP''"
| "VehicleType_String VT_Compatible = ''Compatible''"
| "VehicleType_String VT_Inline = ''Inline''"

record baseProvider =
  bp_name :: string
  bp_proxies :: "nat list"
  bp_healthCheck :: HealthCheck
  bp_version :: "32 word"
  bp_VehicleType :: VehicleType

text \<open>\<open>setProxies\<close> also says whether it starts a check in the background.\<close>

definition setProxies :: "nat list \<Rightarrow> baseProvider \<Rightarrow> baseProvider \<times> bool" where
  "setProxies proxies bp =
     (let bp1 = bp\<lparr>bp_proxies := proxies, bp_version := bp_version bp + 1, bp_healthCheck := hc_setProxies proxies (bp_healthCheck bp)\<rparr>
      in (bp1, auto_check (bp_healthCheck bp1)))"

definition bp_Touch :: "int \<Rightarrow> baseProvider \<Rightarrow> baseProvider" where
  "bp_Touch now bp = bp\<lparr>bp_healthCheck := hc_touch now (bp_healthCheck bp)\<rparr>"

definition bp_Count :: "baseProvider \<Rightarrow> nat" where
  "bp_Count bp = length (bp_proxies bp)"

definition HealthCheckURL :: "baseProvider \<Rightarrow> string" where
  "HealthCheckURL bp = hc_url (bp_healthCheck bp)"

definition RegisterHealthCheckTask :: "string \<Rightarrow> 16 word Range list \<Rightarrow> string \<Rightarrow> nat \<Rightarrow> baseProvider \<Rightarrow> baseProvider" where
  "RegisterHealthCheckTask url expectedStatus flt interval bp =
     bp\<lparr>bp_healthCheck := registerHealthCheckTask url expectedStatus flt interval (bp_healthCheck bp)\<rparr>"

definition NewCompatibleProvider :: "string \<Rightarrow> nat list \<Rightarrow> HealthCheck \<Rightarrow> baseProvider option" where
  "NewCompatibleProvider name proxies hc =
     (if proxies = [] then None
      else Some \<lparr>bp_name = name, bp_proxies = proxies, bp_healthCheck = hc, bp_version = 0, bp_VehicleType = VT_Compatible\<rparr>)"

section \<open>Tests and their records\<close>

lemma length_remember: "length h \<le> 10 \<Longrightarrow> length (remember r h) \<le> 10"
  by (cases h) (auto simp: remember_def Let_def q_Put_def q_Len_def q_Pop_def defaultHistoriesNum_def)

lemma remember_last: "length h \<le> 10 \<Longrightarrow> q_Last z (remember r h) = r"
  by (cases h) (auto simp: remember_def Let_def q_Put_def q_Len_def q_Pop_def q_Last_def defaultHistoriesNum_def nth_append)

text \<open>A proxy's histories never have more than ten records.\<close>

definition history_ok :: "AdapterProxy \<Rightarrow> bool" where
  "history_ok p \<longleftrightarrow> length (ap_history p) \<le> 10 \<and> (\<forall>url s. ap_extra p url = Some s \<longrightarrow> length (ps_history s) \<le> 10)"

lemma NewProxy_history_ok: "history_ok (NewProxy name ty udp)"
  by (simp add: history_ok_def NewProxy_def)

lemma record_test_history_ok: "history_ok p \<Longrightarrow> history_ok (record_test url now outcome p)"
  by (auto simp: history_ok_def record_test_def Let_def intro!: length_remember split: option.splits)

definition test_satisfied :: "(test_error, bool \<times> 16 word) result \<Rightarrow> bool" where
  "test_satisfied outcome \<longleftrightarrow> (\<exists>t. outcome = Inr (True, t))"

lemma record_test_alive: "AliveForTestUrl (record_test url now outcome p) url \<longleftrightarrow> test_satisfied outcome"
  by (auto simp: AliveForTestUrl_def record_test_def Let_def test_satisfied_def split: sum.splits)

lemma record_test_delay:
  assumes "history_ok p"
  shows "LastDelayForTestUrl (record_test url now outcome p) url =
    (case outcome of Inr (True, t) \<Rightarrow> if t = 0 then 0xffff else t | _ \<Rightarrow> 0xffff)"
proof -
  have "length (case ap_extra p url of Some s \<Rightarrow> ps_history s | None \<Rightarrow> []) \<le> 10"
    using assms by (auto simp: history_ok_def split: option.splits)
  then show ?thesis
    by (auto simp: LastDelayForTestUrl_def record_test_def Let_def remember_last split: sum.splits option.splits bool.splits)
qed

lemma record_test_same [simp]:
  "ap_Name (record_test url now outcome p) = ap_Name p" "ap_Type (record_test url now outcome p) = ap_Type p"
  "ap_SupportUDP (record_test url now outcome p) = ap_SupportUDP p"
  by (simp_all add: record_test_def Let_def)

lemma record_test_other: "url' \<noteq> url \<Longrightarrow> ap_extra (record_test url now outcome p) url' = ap_extra p url'"
  by (simp add: record_test_def Let_def)

section \<open>A health check\<close>

definition test_key :: "test \<Rightarrow> nat \<times> string" where
  "test_key = (\<lambda>(p, url, _). (p, url))"

definition probed :: "health_env \<Rightarrow> test \<Rightarrow> (test_error, bool \<times> 16 word) result" where
  "probed E = (\<lambda>(p, url, expectedStatus). probe_url (he_unifiedDelay E) (he_probe E p url) url expectedStatus)"

lemma run_test_eq: "run_test E (p, url, es) px = px(p := record_test url (pr_recorded (he_probe E p url)) (probed E (p, url, es)) (px p))"
  by (simp add: run_test_def URLTest_def probed_def Let_def)

lemma run_tests_Cons [simp]: "run_tests E (t # ts) px = run_tests E ts (run_test E t px)"
  and run_tests_Nil [simp]: "run_tests E [] px = px"
  by (simp_all add: run_tests_def)

lemma run_tests_append: "run_tests E (ts @ us) px = run_tests E us (run_tests E ts px)"
  by (simp add: run_tests_def)

lemma run_tests_untested: "(p, url) \<notin> test_key ` set ts \<Longrightarrow> ap_extra (run_tests E ts px p) url = ap_extra (px p) url"
proof (induction ts arbitrary: px)
  case (Cons t ts)
  obtain q u es where t: "t = (q, u, es)" by (cases t)
  with Cons.prems have "q \<noteq> p \<or> url \<noteq> u" by (auto simp: test_key_def)
  then have "ap_extra (run_test E t px p) url = ap_extra (px p) url"
    by (auto simp: t run_test_eq record_test_other)
  with Cons show ?case by simp
qed simp

lemma run_tests_history_ok: "(\<And>p. history_ok (px p)) \<Longrightarrow> history_ok (run_tests E ts px p)"
proof (induction ts arbitrary: px)
  case (Cons t ts)
  obtain q u es where t: "t = (q, u, es)" by (cases t)
  have "history_ok (run_test E t px p)" for p
    using Cons.prems by (simp add: t run_test_eq record_test_history_ok)
  then show ?case using Cons.IH by simp
qed simp

text \<open>
  Whatever the order in which the tests of a check end, every tested proxy is then alive for the
  tested URL exactly where the answer had an expected status, with the measured delay.
\<close>

lemma run_tests_result:
  assumes "distinct (map test_key ts)" "(p, url, es) \<in> set ts" "\<And>p. history_ok (px p)"
  shows "AliveForTestUrl (run_tests E ts px p) url \<longleftrightarrow> test_satisfied (probed E (p, url, es))"
    and "LastDelayForTestUrl (run_tests E ts px p) url =
      (case probed E (p, url, es) of Inr (True, t) \<Rightarrow> if t = 0 then 0xffff else t | _ \<Rightarrow> 0xffff)"
proof -
  obtain us vs where ts: "ts = us @ (p, url, es) # vs" using assms(2) by (auto simp: in_set_conv_decomp)
  let ?px = "run_tests E us px"
  have vs: "(p, url) \<notin> test_key ` set vs" using assms(1) by (auto simp: ts test_key_def)
  have "run_tests E ts px p = run_tests E vs (run_test E (p, url, es) ?px) p" by (simp add: ts run_tests_append)
  then have extra: "ap_extra (run_tests E ts px p) url =
      ap_extra (record_test url (pr_recorded (he_probe E p url)) (probed E (p, url, es)) (?px p)) url"
    using run_tests_untested [OF vs] by (simp add: run_test_eq)
  obtain st where st: "ap_extra (record_test url (pr_recorded (he_probe E p url)) (probed E (p, url, es)) (?px p)) url = Some st"
    by (simp add: record_test_def Let_def)
  show "AliveForTestUrl (run_tests E ts px p) url \<longleftrightarrow> test_satisfied (probed E (p, url, es))"
    using record_test_alive [of url "pr_recorded (he_probe E p url)" "probed E (p, url, es)" "?px p"]
    by (simp add: AliveForTestUrl_def extra st)
  have "history_ok (?px p)" by (rule run_tests_history_ok) (rule assms(3))
  from record_test_delay [OF this, of url "pr_recorded (he_probe E p url)" "probed E (p, url, es)"]
  show "LastDelayForTestUrl (run_tests E ts px p) url =
      (case probed E (p, url, es) of Inr (True, t) \<Rightarrow> if t = 0 then 0xffff else t | _ \<Rightarrow> 0xffff)"
    unfolding LastDelayForTestUrl_def extra .
qed

lemma execute_keys:
  assumes "execute E px hc o1 = Inr ts"
  shows "test_key ` set ts \<subseteq> set (hc_proxies hc) \<times> {trim_space (fst o1)}"
    and "distinct (hc_proxies hc) \<Longrightarrow> distinct (map test_key ts)"
  using assms by (auto simp: execute_def Let_def test_key_def comp_def distinct_map inj_on_def split: prod.splits if_splits)

lemma execute_all_keys:
  assumes "execute_all E px hc os = Inr ts"
  shows "test_key ` set ts \<subseteq> set (hc_proxies hc) \<times> (trim_space \<circ> fst) ` set os"
    and "distinct (hc_proxies hc) \<Longrightarrow> distinct (map (trim_space \<circ> fst) os) \<Longrightarrow> distinct (map test_key ts)"
  using assms
proof (induction os arbitrary: ts)
  case (Cons o1 os)
  {
    case 1
    then obtain us vs where uv: "execute E px hc o1 = Inr us" "execute_all E px hc os = Inr vs" "ts = us @ vs"
      by (auto simp: result_bind_Inr_iff)
    have "test_key ` set us \<subseteq> set (hc_proxies hc) \<times> (trim_space \<circ> fst) ` set (o1 # os)"
      using execute_keys(1) [OF uv(1)] by auto
    moreover have "test_key ` set vs \<subseteq> set (hc_proxies hc) \<times> (trim_space \<circ> fst) ` set (o1 # os)"
      using Cons.IH(1) [OF uv(2)] by auto
    ultimately show ?case by (simp add: uv(3) image_Un)
  next
    case 2
    then obtain us vs where uv: "execute E px hc o1 = Inr us" "execute_all E px hc os = Inr vs" "ts = us @ vs"
      by (auto simp: result_bind_Inr_iff)
    have "trim_space (fst o1) \<notin> (trim_space \<circ> fst) ` set os" using 2(2) by simp
    then have "(set (hc_proxies hc) \<times> {trim_space (fst o1)}) \<inter> (set (hc_proxies hc) \<times> (trim_space \<circ> fst) ` set os) = {}"
      by blast
    from Int_mono [OF execute_keys(1) [OF uv(1)] Cons.IH(1) [OF uv(2)], unfolded this]
    have disj: "test_key ` set us \<inter> test_key ` set vs = {}" by (simp only: subset_empty)
    have "distinct (map test_key us)" "distinct (map test_key vs)"
      using execute_keys(2) [OF uv(1)] Cons.IH(2) [OF _ _ uv(2)] 2 by simp_all
    with disj show ?case by (simp only: uv(3) map_append distinct_append set_map)
  }
qed simp_all

lemma hc_check_run:
  assumes "still_kept now1 (hc_singleDo hc) = None" "sg_call (hc_singleDo hc) = None" "hc_proxies hc \<noteq> []"
  shows "hc_check E now1 now2 hc px = Some (result_bind (check_tests E px hc) (\<lambda>ts.
    Inr (hc\<lparr>hc_singleDo := (hc_singleDo hc)\<lparr>sg_call := None, sg_result := Some \<lparr>rs_Val = (), rs_Err = None, rs_Time = now2\<rparr>\<rparr>\<rparr>,
         run_tests E (he_order E ts) px)))"
  using assms(3) by (cases "check_tests E px hc") (simp_all add: hc_check_def single_Do_run [OF assms(1,2)])

text \<open>A check that is not answered from the last second tests every proxy against the provider's own URL.\<close>

lemma hc_check_result:
  assumes "hc_check E now1 now2 hc px = Some (Inr (hc', px'))" "still_kept now1 (hc_singleDo hc) = None"
    and urls: "distinct (map (trim_space \<circ> fst) ((hc_url hc, \<lparr>eo_expectedStatus = hc_expectedStatus hc, eo_filters = []\<rparr>) # hc_extra hc))"
    and order: "\<And>ts. mset (he_order E ts) = mset ts" and px: "\<And>p. history_ok (px p)"
    and p: "distinct (hc_proxies hc)" "p \<in> set (hc_proxies hc)" "trim_space (hc_url hc) = url" "url \<noteq> []"
  shows "AliveForTestUrl (px' p) url \<longleftrightarrow> test_satisfied (probed E (p, url, hc_expectedStatus hc))"
    and "LastDelayForTestUrl (px' p) url =
      (case probed E (p, url, hc_expectedStatus hc) of Inr (True, t) \<Rightarrow> if t = 0 then 0xffff else t | _ \<Rightarrow> 0xffff)"
proof -
  have "sg_call (hc_singleDo hc) = None"
  proof (rule ccontr)
    assume "sg_call (hc_singleDo hc) \<noteq> None"
    then obtain c where "sg_call (hc_singleDo hc) = Some c" by blast
    then have "hc_check E now1 now2 hc px = None"
      using assms(2) p(2) by (auto simp: hc_check_def single_Do_def single_enter_def still_kept_def split: option.splits if_splits)
    with assms(1) show False by simp
  qed
  moreover have "hc_proxies hc \<noteq> []" using p(2) by auto
  ultimately obtain ts where ts: "check_tests E px hc = Inr ts" and px': "px' = run_tests E (he_order E ts) px"
    using assms(1) hc_check_run [OF assms(2), of E now2 px] by (cases "check_tests E px hc") auto
  have keys: "distinct (map test_key ts)"
    using execute_all_keys(2) [OF ts [unfolded check_tests_def] p(1) urls] .
  have "mset (map test_key (he_order E ts)) = mset (map test_key ts)" by (simp add: order)
  then have dist: "distinct (map test_key (he_order E ts))" using keys by (metis mset_eq_imp_distinct_iff)
  have "(p, url, hc_expectedStatus hc) \<in> set ts"
    using ts p(2-4) by (auto simp: check_tests_def execute_def Let_def result_bind_Inr_iff)
  then have "(p, url, hc_expectedStatus hc) \<in> set (he_order E ts)" using order by (metis set_mset_mset)
  note result = run_tests_result [where E = E, OF dist this px]
  show "AliveForTestUrl (px' p) url \<longleftrightarrow> test_satisfied (probed E (p, url, hc_expectedStatus hc))"
    unfolding px' by (rule result(1))
  show "LastDelayForTestUrl (px' p) url =
      (case probed E (p, url, hc_expectedStatus hc) of Inr (True, t) \<Rightarrow> if t = 0 then 0xffff else t | _ \<Rightarrow> 0xffff)"
    unfolding px' by (rule result(2))
qed

end
