(* ===== verification/Group_Base.thy ===== *)
theory Group_Base
  imports Proxy_Health
begin

text \<open>
  \<open>adapter/outboundgroup/groupbase.go\<close>: what the four kinds of proxy groups share.  A group gathers the
  proxies of its providers, filters and orders them, and keeps the list until a provider has a new
  version; it also counts failed dials to start a health check early.
\<close>

section \<open>State\<close>

type_synonym providers = "nat \<Rightarrow> baseProvider"

record GroupBase =
  gb_Name :: string
  gb_Type :: AdapterType
  gb_hidden :: bool
  gb_icon :: string
  gb_filterRegs :: "string list"
  gb_excludeFilterRegs :: "string list"
  gb_excludeTypeArray :: "string list option"
  gb_providers :: "nat list"
  gb_failedTimes :: int
  gb_failedTime :: int
  gb_failedTesting :: bool
  gb_testTimeout :: int
  gb_maxFailedTimes :: int
  gb_emptyFallback :: nat
  gb_providerVersions :: "32 word list"
  gb_providerProxies :: "nat list"

record GroupBaseOption =
  go_Name :: string
  go_Type :: AdapterType
  go_Hidden :: bool
  go_Icon :: string
  go_Filter :: string
  go_ExcludeFilter :: string
  go_ExcludeType :: string
  go_TestTimeout :: int
  go_MaxFailedTimes :: int
  go_EmptyFallback :: nat
  go_Providers :: "nat list"

text \<open>\<open>MustCompile\<close> of the parts of a filter: the first part that does not compile panics.\<close>

definition must_compile :: "health_env \<Rightarrow> string list \<Rightarrow> (health_error, string list) result" where
  "must_compile E parts = (case find (\<lambda>r. \<not> he_compiles E r) parts of Some r \<Rightarrow> Inl (RegexPanic r) | None \<Rightarrow> Inr parts)"

definition NewGroupBase :: "health_env \<Rightarrow> GroupBaseOption \<Rightarrow> (health_error, GroupBase) result" where
  "NewGroupBase E opt =
     result_bind (if go_ExcludeFilter opt \<noteq> [] then must_compile E (split_on (CHR ''`'') (go_ExcludeFilter opt)) else Inr []) (\<lambda>excludes.
     result_bind (if go_Filter opt \<noteq> [] then must_compile E (split_on (CHR ''`'') (go_Filter opt)) else Inr []) (\<lambda>filters.
     Inr \<lparr>gb_Name = go_Name opt, gb_Type = go_Type opt, gb_hidden = go_Hidden opt, gb_icon = go_Icon opt,
          gb_filterRegs = filters, gb_excludeFilterRegs = excludes,
          gb_excludeTypeArray = (if go_ExcludeType opt \<noteq> [] then Some (split_on (CHR ''|'') (go_ExcludeType opt)) else None),
          gb_providers = go_Providers opt, gb_failedTimes = 0, gb_failedTime = 0, gb_failedTesting = False,
          gb_testTimeout = (if go_TestTimeout opt = 0 then 5000 else go_TestTimeout opt),
          gb_maxFailedTimes = (if go_MaxFailedTimes opt = 0 then 5 else go_MaxFailedTimes opt),
          gb_emptyFallback = go_EmptyFallback opt, gb_providerVersions = [], gb_providerProxies = []\<rparr>))"

section \<open>The proxies of a group\<close>

definition gb_Touch :: "int \<Rightarrow> GroupBase \<Rightarrow> providers \<Rightarrow> providers" where
  "gb_Touch now gb pds = fold (\<lambda>pd pds. pds(pd := bp_Touch now (pds pd))) (gb_providers gb) pds"

text \<open>\<open>proxiesSet\<close> and \<open>newProxies\<close> of the filter loops.\<close>

definition add_new :: "proxies \<Rightarrow> nat \<Rightarrow> string list \<times> nat list \<Rightarrow> string list \<times> nat list" where
  "add_new px p = (\<lambda>(proxiesSet, newProxies).
     if ap_Name (px p) \<in> set proxiesSet then (proxiesSet, newProxies)
     else (ap_Name (px p) # proxiesSet, newProxies @ [p]))"

definition filter_loop :: "health_env \<Rightarrow> proxies \<Rightarrow> string list \<Rightarrow> nat list \<Rightarrow> string list \<times> nat list \<Rightarrow> string list \<times> nat list" where
  "filter_loop E px regs ps acc =
     fold (\<lambda>reg. fold (\<lambda>p acc. if he_regex E reg (ap_Name (px p)) then add_new px p acc else acc) ps) regs acc"

definition provider_proxies :: "health_env \<Rightarrow> proxies \<Rightarrow> providers \<Rightarrow> GroupBase \<Rightarrow> nat list" where
  "provider_proxies E px pds gb =
     (if gb_filterRegs gb = [] then concat (map (bp_proxies \<circ> pds) (gb_providers gb))
      else concat (map (\<lambda>pd. if bp_VehicleType (pds pd) = VT_Compatible then bp_proxies (pds pd)
                             else snd (filter_loop E px (gb_filterRegs gb) (bp_proxies (pds pd)) ([], []))) (gb_providers gb)))"

definition reorder_proxies :: "health_env \<Rightarrow> proxies \<Rightarrow> GroupBase \<Rightarrow> nat list \<Rightarrow> nat list" where
  "reorder_proxies E px gb ps =
     (if length (gb_providers gb) > 1 \<and> length (gb_filterRegs gb) > 1
      then snd (fold (add_new px) ps (filter_loop E px (gb_filterRegs gb) ps ([], [])))
      else ps)"

definition exclude_names :: "health_env \<Rightarrow> proxies \<Rightarrow> GroupBase \<Rightarrow> nat list \<Rightarrow> nat list" where
  "exclude_names E px gb ps =
     (if gb_excludeFilterRegs gb \<noteq> []
      then filter (\<lambda>p. \<not> list_ex (\<lambda>reg. he_regex E reg (ap_Name (px p))) (gb_excludeFilterRegs gb)) ps
      else ps)"

text \<open>\<open>strings.EqualFold\<close> of two type names, all of which are ASCII, is equality of their lower case.\<close>

definition exclude_types :: "proxies \<Rightarrow> GroupBase \<Rightarrow> nat list \<Rightarrow> nat list" where
  "exclude_types px gb ps =
     (case gb_excludeTypeArray gb of
        Some types \<Rightarrow>
          filter (\<lambda>p. \<not> list_ex (\<lambda>t. to_lower (AdapterType_String (ap_Type (px p))) = to_lower t) types) ps
      | None \<Rightarrow> ps)"

text \<open>What \<open>GetProxies\<close> computes between its two tests of the cache.\<close>

definition compute_proxies :: "health_env \<Rightarrow> proxies \<Rightarrow> providers \<Rightarrow> GroupBase \<Rightarrow> nat list" where
  "compute_proxies E px pds gb =
     exclude_types px gb (exclude_names E px gb (reorder_proxies E px gb (provider_proxies E px pds gb)))"

text \<open>
  \<open>GetProxies\<close> reads the versions of the providers, touching them first where asked to, and then takes
  the lock; providers may change in between.  The versions of several providers are read in one step.
\<close>

definition versions_of :: "providers \<Rightarrow> GroupBase \<Rightarrow> 32 word list" where
  "versions_of pds gb = map (bp_version \<circ> pds) (gb_providers gb)"

definition read_versions :: "int \<Rightarrow> bool \<Rightarrow> GroupBase \<Rightarrow> providers \<Rightarrow> 32 word list \<times> providers" where
  "read_versions now touch gb pds =
     (let pds1 = (if touch then gb_Touch now gb pds else pds) in (versions_of pds1 gb, pds1))"

definition proxies_locked :: "health_env \<Rightarrow> proxies \<Rightarrow> providers \<Rightarrow> 32 word list \<Rightarrow> GroupBase \<Rightarrow> nat list \<times> GroupBase" where
  "proxies_locked E px pds versions gb =
     (if versions = gb_providerVersions gb then (gb_providerProxies gb, gb)
      else
        let ps = compute_proxies E px pds gb in
        if ps = [] then ([gb_emptyFallback gb], gb)
        else (ps, gb\<lparr>gb_providerVersions := versions, gb_providerProxies := ps\<rparr>))"

definition GetProxies :: "health_env \<Rightarrow> int \<Rightarrow> bool \<Rightarrow> proxies \<Rightarrow> providers \<times> GroupBase \<Rightarrow> nat list \<times> providers \<times> GroupBase" where
  "GetProxies E now touch px = (\<lambda>(pds, gb).
     let (versions, pds1) = read_versions now touch gb pds;
         (ps, gb1) = proxies_locked E px pds1 versions gb
     in (ps, pds1, gb1))"

section \<open>Failed dials\<close>

text \<open>
  The goroutine of \<open>onDialFailed\<close>; the second component says whether it calls \<open>fn\<close>, the health check.
  Times are in nanoseconds, the timeout in milliseconds.
\<close>

definition onDialFailed :: "AdapterType \<Rightarrow> bool \<Rightarrow> string \<Rightarrow> int \<Rightarrow> GroupBase \<Rightarrow> GroupBase \<times> bool" where
  "onDialFailed adapterType notSupport err now gb =
     (if adapterType \<in> {AT_Direct, AT_Compatible, AT_Reject, AT_Pass, AT_RejectDrop} then (gb, False)
      else if notSupport then (gb, False)
      else if str_contains err ''connection refused'' then (gb, True)
      else
        let gb1 = gb\<lparr>gb_failedTimes := gb_failedTimes gb + 1\<rparr> in
        if gb_failedTimes gb1 = 1 then (gb1\<lparr>gb_failedTime := now\<rparr>, False)
        else if now - gb_failedTime gb1 > gb_testTimeout gb1 * 1000000 then (gb1\<lparr>gb_failedTimes := 0\<rparr>, False)
        else (gb1, gb_failedTimes gb1 \<ge> gb_maxFailedTimes gb1))"

definition onDialSuccess :: "GroupBase \<Rightarrow> GroupBase" where
  "onDialSuccess gb = (if \<not> gb_failedTesting gb then gb\<lparr>gb_failedTimes := 0\<rparr> else gb)"

text \<open>
  \<open>healthCheck\<close> before and after it waits for the checks of the providers; \<^const>\<open>None\<close> means that a check
  is already under way.  The code tests and sets the flag in two atomic operations; here they are one.
\<close>

definition gb_healthCheck_begin :: "GroupBase \<Rightarrow> GroupBase option" where
  "gb_healthCheck_begin gb = (if gb_failedTesting gb then None else Some (gb\<lparr>gb_failedTesting := True\<rparr>))"

definition gb_healthCheck_end :: "GroupBase \<Rightarrow> GroupBase" where
  "gb_healthCheck_end gb = gb\<lparr>gb_failedTesting := False, gb_failedTimes := 0\<rparr>"

text \<open>\<open>URLTest\<close> of a group: the delays of the proxies whose test returned one, by name.\<close>

definition group_URLTest ::
  "health_env \<Rightarrow> int \<Rightarrow> string \<Rightarrow> 16 word Range list \<Rightarrow> proxies \<Rightarrow> providers \<times> GroupBase \<Rightarrow>
   ((string \<Rightarrow> 16 word option) \<times> bool) \<times> proxies \<times> providers \<times> GroupBase" where
  "group_URLTest E now url expectedStatus px st =
     (case GetProxies E now False px st of
        (ps, st1) \<Rightarrow>
          let (mp, px1) = fold (\<lambda>(p, u, es) (mp, px).
                case URLTest (he_unifiedDelay E) (he_probe E p u) u es (px p) of
                  (Inr delay, p') \<Rightarrow> (mp(ap_Name p' \<mapsto> delay), px(p := p'))
                | (Inl _, p') \<Rightarrow> (mp, px(p := p'))) (he_order E (map (\<lambda>p. (p, url, expectedStatus)) ps)) (Map.empty, px)
          in ((mp, mp \<noteq> Map.empty), px1, st1))"

section \<open>The filter loops\<close>

abbreviation (input) matches :: "health_env \<Rightarrow> proxies \<Rightarrow> nat \<Rightarrow> string \<Rightarrow> bool" where
  "matches E px p reg \<equiv> he_regex E reg (ap_Name (px p))"

text \<open>The index of the first filter that a proxy matches.\<close>

definition rank :: "health_env \<Rightarrow> proxies \<Rightarrow> string list \<Rightarrow> nat \<Rightarrow> nat" where
  "rank E px regs p = length (takeWhile (\<lambda>reg. \<not> matches E px p reg) regs)"

lemma rank_less_iff: "rank E px regs p < length regs \<longleftrightarrow> (\<exists>reg \<in> set regs. matches E px p reg)"
  by (induction regs) (auto simp: rank_def)

lemma rank_le: "rank E px regs p \<le> length regs"
  unfolding rank_def by (rule length_takeWhile_le)

lemma rank_append:
  "rank E px (regs @ regs') p = (if \<exists>reg \<in> set regs. matches E px p reg then rank E px regs p else length regs + rank E px regs' p)"
  by (auto simp: rank_def takeWhile_append)

text \<open>
  The state of the loops after the filters \<open>regs\<close>: the names seen are those of the new proxies, every
  proxy that matches has its name there, and the new proxies are in the order of the filters.
\<close>

definition loop_inv :: "health_env \<Rightarrow> proxies \<Rightarrow> string list \<Rightarrow> nat list \<Rightarrow> string list \<times> nat list \<Rightarrow> bool" where
  "loop_inv E px regs ps = (\<lambda>(seen, new).
     seen = rev (map (\<lambda>p. ap_Name (px p)) new) \<and> distinct seen \<and>
     set new \<subseteq> {p \<in> set ps. rank E px regs p < length regs} \<and>
     (\<forall>p \<in> set ps. rank E px regs p < length regs \<longrightarrow> ap_Name (px p) \<in> set seen) \<and>
     sorted (map (rank E px regs) new))"

lemma rank_name: "ap_Name (px p) = ap_Name (px q) \<Longrightarrow> rank E px regs p = rank E px regs q"
  by (simp add: rank_def)

lemma add_new_apply: "add_new px p (seen, new) =
    (if ap_Name (px p) \<in> set seen then (seen, new) else (ap_Name (px p) # seen, new @ [p]))"
  by (simp add: add_new_def)

text \<open>One filter: \<open>qs\<close> is the part of the proxies that the inner loop has gone through.\<close>

lemma inner_loop:
  assumes "loop_inv E px regs ps (seen, new)" "set qs \<subseteq> set ps"
  shows "\<exists>seen' new'. fold (\<lambda>p acc. if matches E px p reg then add_new px p acc else acc) qs (seen, new) = (seen', new @ new') \<and>
    seen' = rev (map (\<lambda>p. ap_Name (px p)) (new @ new')) \<and> distinct seen' \<and>
    set new' \<subseteq> {p \<in> set ps. rank E px regs p = length regs \<and> matches E px p reg} \<and>
    (\<forall>p \<in> set qs. matches E px p reg \<longrightarrow> ap_Name (px p) \<in> set seen')"
  using assms(2)
proof (induction qs rule: rev_induct)
  case Nil
  show ?case using assms(1) by (auto simp: loop_inv_def intro!: exI [of _ "[]"])
next
  case (snoc q qs)
  then obtain seen' new' where IH:
      "fold (\<lambda>p acc. if matches E px p reg then add_new px p acc else acc) qs (seen, new) = (seen', new @ new')"
      "seen' = rev (map (\<lambda>p. ap_Name (px p)) (new @ new'))" "distinct seen'"
      "set new' \<subseteq> {p \<in> set ps. rank E px regs p = length regs \<and> matches E px p reg}"
      "\<forall>p \<in> set qs. matches E px p reg \<longrightarrow> ap_Name (px p) \<in> set seen'"
    by auto
  show ?case
  proof (cases "matches E px q reg \<and> ap_Name (px q) \<notin> set seen'")
    case True
    have "rank E px regs q = length regs"
    proof (rule ccontr)
      assume "rank E px regs q \<noteq> length regs"
      then have "rank E px regs q < length regs" using rank_le [of E px regs q] by simp
      then have "ap_Name (px q) \<in> set seen" using assms(1) snoc.prems by (auto simp: loop_inv_def)
      then show False using True assms(1) by (simp add: loop_inv_def IH(2))
    qed
    with True IH snoc.prems show ?thesis
      by (intro exI [of _ "ap_Name (px q) # seen'"] exI [of _ "new' @ [q]"]) (auto simp: add_new_apply)
  next
    case False
    with IH show ?thesis by (intro exI [of _ seen'] exI [of _ new']) (auto simp: add_new_apply)
  qed
qed

lemma filter_loop_snoc:
  "filter_loop E px (regs @ [reg]) ps acc = fold (\<lambda>p acc. if matches E px p reg then add_new px p acc else acc) ps (filter_loop E px regs ps acc)"
  by (simp add: filter_loop_def)

lemma filter_loop_inv: "loop_inv E px regs ps (filter_loop E px regs ps ([], []))"
proof (induction regs rule: rev_induct)
  case Nil
  show ?case by (simp add: loop_inv_def filter_loop_def)
next
  case (snoc reg regs)
  obtain seen new where acc: "filter_loop E px regs ps ([], []) = (seen, new)" by fastforce
  with snoc have inv: "loop_inv E px regs ps (seen, new)" by simp
  from inner_loop [OF inv subset_refl, of reg] obtain seen' new' where loop:
      "filter_loop E px (regs @ [reg]) ps ([], []) = (seen', new @ new')"
      "seen' = rev (map (\<lambda>p. ap_Name (px p)) (new @ new'))" "distinct seen'"
      "set new' \<subseteq> {p \<in> set ps. rank E px regs p = length regs \<and> matches E px p reg}"
      "\<forall>p \<in> set ps. matches E px p reg \<longrightarrow> ap_Name (px p) \<in> set seen'"
    by (auto simp: filter_loop_snoc acc)
  have old: "rank E px (regs @ [reg]) p = rank E px regs p" if "rank E px regs p < length regs" for p
    using that by (simp add: rank_append rank_less_iff)
  have new: "rank E px (regs @ [reg]) p = length regs" if "rank E px regs p = length regs" "matches E px p reg" for p
    using that rank_less_iff [of E px regs p] by (auto simp: rank_append) (simp add: rank_def)
  have olds: "map (rank E px (regs @ [reg])) new = map (rank E px regs) new"
    using inv old by (auto simp: loop_inv_def)
  have news: "map (rank E px (regs @ [reg])) new' = replicate (length new') (length regs)"
    using loop(4) new by (auto simp: map_replicate_const [symmetric] intro!: map_cong)
  have "sorted (map (rank E px (regs @ [reg])) (new @ new'))"
    using inv unfolding map_append olds news by (auto simp: sorted_append loop_inv_def intro: rank_le)
  moreover have "ap_Name (px p) \<in> set seen'" if p: "p \<in> set ps" and r: "rank E px (regs @ [reg]) p < length (regs @ [reg])" for p
  proof -
    consider "\<exists>r \<in> set regs. matches E px p r" | "matches E px p reg" using r unfolding rank_less_iff by auto
    then show ?thesis using p inv loop(2,5) by cases (auto simp: loop_inv_def rank_less_iff)
  qed
  moreover have "set (new @ new') \<subseteq> {p \<in> set ps. rank E px (regs @ [reg]) p < length (regs @ [reg])}"
    using inv loop(4) old new by (auto simp: loop_inv_def)
  ultimately show ?case using loop(1-3) by (simp add: loop_inv_def)
qed

text \<open>The reordering puts the proxies that match no filter at the end.\<close>

lemma add_all:
  assumes "seen = rev (map (\<lambda>p. ap_Name (px p)) new)" "distinct seen"
  shows "\<exists>rest. fold (add_new px) ps (seen, new) = (rev (map (\<lambda>p. ap_Name (px p)) (new @ rest)), new @ rest) \<and>
    distinct (map (\<lambda>p. ap_Name (px p)) (new @ rest)) \<and> set rest \<subseteq> set ps \<and>
    (\<forall>p \<in> set rest. ap_Name (px p) \<notin> set seen) \<and> (\<forall>p \<in> set ps. ap_Name (px p) \<in> (\<lambda>p. ap_Name (px p)) ` set (new @ rest))"
proof (induction ps rule: rev_induct)
  case Nil
  show ?case using assms by (auto intro!: exI [of _ "[]"])
next
  case (snoc q ps)
  then obtain rest where IH: "fold (add_new px) ps (seen, new) = (rev (map (\<lambda>p. ap_Name (px p)) (new @ rest)), new @ rest)"
    "distinct (map (\<lambda>p. ap_Name (px p)) (new @ rest))" "set rest \<subseteq> set ps" "\<forall>p \<in> set rest. ap_Name (px p) \<notin> set seen"
    "\<forall>p \<in> set ps. ap_Name (px p) \<in> (\<lambda>p. ap_Name (px p)) ` set (new @ rest)"
    by blast
  show ?case
  proof (cases "ap_Name (px q) \<in> (\<lambda>p. ap_Name (px p)) ` set (new @ rest)")
    case True
    with IH show ?thesis by (intro exI [of _ rest]) (auto simp: add_new_apply)
  next
    case False
    with IH assms(1) show ?thesis by (intro exI [of _ "rest @ [q]"]) (auto simp: add_new_apply)
  qed
qed

lemma reorder_result:
  fixes E px ps
  assumes "length (gb_providers gb) > 1" "length (gb_filterRegs gb) > 1"
  defines "r \<equiv> reorder_proxies E px gb ps"
  shows "sorted (map (rank E px (gb_filterRegs gb)) r)" "distinct (map (\<lambda>p. ap_Name (px p)) r)" "set r \<subseteq> set ps"
    and "p \<in> set ps \<Longrightarrow> \<exists>q \<in> set r. ap_Name (px q) = ap_Name (px p)"
proof -
  let ?regs = "gb_filterRegs gb"
  obtain seen new where acc: "filter_loop E px ?regs ps ([], []) = (seen, new)" by fastforce
  with filter_loop_inv [of E px ?regs ps] have inv: "loop_inv E px ?regs ps (seen, new)" by simp
  then have "seen = rev (map (\<lambda>p. ap_Name (px p)) new)" "distinct seen" by (auto simp: loop_inv_def)
  from add_all [OF this, of ps] obtain rest where rest: "fold (add_new px) ps (seen, new) = (rev (map (\<lambda>p. ap_Name (px p)) (new @ rest)), new @ rest)"
    "distinct (map (\<lambda>p. ap_Name (px p)) (new @ rest))" "set rest \<subseteq> set ps" "\<forall>p \<in> set rest. ap_Name (px p) \<notin> set seen"
    "\<forall>p \<in> set ps. ap_Name (px p) \<in> (\<lambda>p. ap_Name (px p)) ` set (new @ rest)"
    by blast
  then have r: "r = new @ rest" using assms(1,2) by (simp add: r_def reorder_proxies_def acc)
  have "rank E px ?regs p = length ?regs" if "p \<in> set rest" for p
    using that rest(3,4) inv rank_le [of E px ?regs p] by (force simp: loop_inv_def)
  then have "map (rank E px ?regs) rest = replicate (length rest) (length ?regs)"
    by (auto simp: map_replicate_const [symmetric] intro!: map_cong)
  then show "sorted (map (rank E px ?regs) r)"
    using inv by (auto simp: r sorted_append loop_inv_def intro: rank_le)
  show "distinct (map (\<lambda>p. ap_Name (px p)) r)" using rest(2) by (simp only: r)
  show "set r \<subseteq> set ps" using inv rest(3) by (auto simp: r loop_inv_def)
  show "p \<in> set ps \<Longrightarrow> \<exists>q \<in> set r. ap_Name (px q) = ap_Name (px p)" using rest(5) by (force simp: r)
qed

section \<open>Which proxies a group has\<close>

definition offered :: "health_env \<Rightarrow> proxies \<Rightarrow> providers \<Rightarrow> GroupBase \<Rightarrow> nat \<Rightarrow> bool" where
  "offered E px pds gb p \<longleftrightarrow> (\<exists>pd \<in> set (gb_providers gb). p \<in> set (bp_proxies (pds pd)) \<and>
     (gb_filterRegs gb = [] \<or> bp_VehicleType (pds pd) = VT_Compatible \<or> (\<exists>reg \<in> set (gb_filterRegs gb). matches E px p reg)))"

definition excluded :: "health_env \<Rightarrow> proxies \<Rightarrow> GroupBase \<Rightarrow> nat \<Rightarrow> bool" where
  "excluded E px gb p \<longleftrightarrow> (\<exists>reg \<in> set (gb_excludeFilterRegs gb). matches E px p reg) \<or>
     (\<exists>types. gb_excludeTypeArray gb = Some types \<and> (\<exists>t \<in> set types. to_lower (AdapterType_String (ap_Type (px p))) = to_lower t))"

lemma filter_loop_set:
  assumes "inj_on (\<lambda>p. ap_Name (px p)) (set ps)"
  shows "set (snd (filter_loop E px regs ps ([], []))) = {p \<in> set ps. \<exists>reg \<in> set regs. matches E px p reg}"
proof -
  obtain seen new where acc: "filter_loop E px regs ps ([], []) = (seen, new)" by fastforce
  with filter_loop_inv [of E px regs ps] have inv: "loop_inv E px regs ps (seen, new)" by simp
  then have sub: "set new \<subseteq> {p \<in> set ps. \<exists>reg \<in> set regs. matches E px p reg}"
    unfolding loop_inv_def rank_less_iff by simp
  have "p \<in> set new" if p: "p \<in> set ps" "\<exists>reg \<in> set regs. matches E px p reg" for p
  proof -
    have "ap_Name (px p) \<in> (\<lambda>p. ap_Name (px p)) ` set new" using inv p unfolding loop_inv_def rank_less_iff by auto
    then obtain q where q: "q \<in> set new" "ap_Name (px q) = ap_Name (px p)" by (rule imageE) simp
    then have "q = p" using inj_onD [OF assms q(2)] sub p(1) by blast
    with q(1) show ?thesis by simp
  qed
  with sub show ?thesis by (auto simp: acc)
qed

lemma provider_proxies_set:
  assumes "inj_on (\<lambda>p. ap_Name (px p)) (\<Union>pd \<in> set (gb_providers gb). set (bp_proxies (pds pd)))"
  shows "set (provider_proxies E px pds gb) = {p. offered E px pds gb p}"
proof -
  have "inj_on (\<lambda>p. ap_Name (px p)) (set (bp_proxies (pds pd)))" if "pd \<in> set (gb_providers gb)" for pd
    by (rule inj_on_subset [OF assms]) (use that in blast)
  then show ?thesis by (auto simp: provider_proxies_def offered_def filter_loop_set split: if_splits)
qed

lemma excluded_set: "set (exclude_types px gb (exclude_names E px gb ps)) = {p \<in> set ps. \<not> excluded E px gb p}"
  by (auto simp: exclude_types_def exclude_names_def excluded_def list_ex_iff split: option.splits)

lemma exclude_keeps:
  "sorted (map f ps) \<Longrightarrow> sorted (map f (exclude_types px gb (exclude_names E px gb ps)))"
  "distinct (map g ps) \<Longrightarrow> distinct (map g (exclude_types px gb (exclude_names E px gb ps)))"
  by (auto simp: exclude_types_def exclude_names_def sorted_filter distinct_map_filter split: option.splits)

lemma compute_proxies_result:
  assumes "inj_on (\<lambda>p. ap_Name (px p)) (\<Union>pd \<in> set (gb_providers gb). set (bp_proxies (pds pd)))"
  shows "set (compute_proxies E px pds gb) = {p. offered E px pds gb p \<and> \<not> excluded E px gb p}"
    and "length (gb_providers gb) > 1 \<Longrightarrow> length (gb_filterRegs gb) > 1 \<Longrightarrow>
      sorted (map (rank E px (gb_filterRegs gb)) (compute_proxies E px pds gb)) \<and> distinct (compute_proxies E px pds gb)"
proof -
  let ?ps = "provider_proxies E px pds gb"
  have sub: "set ?ps \<subseteq> (\<Union>pd \<in> set (gb_providers gb). set (bp_proxies (pds pd)))"
    unfolding provider_proxies_set [OF assms] by (auto simp: offered_def)
  have "set (reorder_proxies E px gb ?ps) = set ?ps"
  proof (cases "length (gb_providers gb) > 1 \<and> length (gb_filterRegs gb) > 1")
    case True
    show ?thesis
    proof
      show "set (reorder_proxies E px gb ?ps) \<subseteq> set ?ps" using reorder_result(3) True by blast
      show "set ?ps \<subseteq> set (reorder_proxies E px gb ?ps)"
      proof
        fix p assume p: "p \<in> set ?ps"
        then obtain q where q: "q \<in> set (reorder_proxies E px gb ?ps)" "ap_Name (px q) = ap_Name (px p)"
          using reorder_result(4) True by blast
        then have "q \<in> set ?ps" using reorder_result(3) True by blast
        with q p sub inj_onD [OF assms, of q p] show "p \<in> set (reorder_proxies E px gb ?ps)" by blast
      qed
    qed
  next
    case False
    then show ?thesis by (auto simp: reorder_proxies_def)
  qed
  then show "set (compute_proxies E px pds gb) = {p. offered E px pds gb p \<and> \<not> excluded E px gb p}"
    by (auto simp: compute_proxies_def excluded_set provider_proxies_set [OF assms])
  assume "length (gb_providers gb) > 1" "length (gb_filterRegs gb) > 1"
  note re = reorder_result [OF this, where E = E and px = px and ps = ?ps]
  show "sorted (map (rank E px (gb_filterRegs gb)) (compute_proxies E px pds gb)) \<and> distinct (compute_proxies E px pds gb)"
    unfolding compute_proxies_def using exclude_keeps(1) [OF re(1)] exclude_keeps(2) [OF re(2)] by (simp add: distinct_map)
qed

section \<open>The cached list\<close>

text \<open>
  A run of a group with its providers.  Providers get new proxies and are touched, calls of
  \<open>GetProxies\<close> read versions and take the lock later, and dials fail or succeed, in any order.  \<open>cnt\<close>
  counts the updates of a provider, of which \<open>version\<close> keeps 32 bits, and \<open>F\<close> has the versions that
  were read by calls which may still take the lock.
\<close>

inductive group_run ::
  "health_env \<Rightarrow> proxies \<Rightarrow> (nat \<Rightarrow> nat) \<Rightarrow> providers \<Rightarrow> GroupBase \<Rightarrow> 32 word list set \<Rightarrow> bool" for E px where
  start: "gb_providerVersions gb = [] \<Longrightarrow> gb_providers gb \<noteq> [] \<Longrightarrow> (\<And>pd. bp_version (pds pd) = of_nat (cnt pd)) \<Longrightarrow>
    group_run E px cnt pds gb {}"
| update: "group_run E px cnt pds gb F \<Longrightarrow> setProxies ps (pds pd) = (bp, started) \<Longrightarrow>
    group_run E px (cnt(pd := Suc (cnt pd))) (pds(pd := bp)) gb F"
| touch: "group_run E px cnt pds gb F \<Longrightarrow> group_run E px cnt (pds(pd := bp_Touch now (pds pd))) gb F"
| read: "group_run E px cnt pds gb F \<Longrightarrow> read_versions now touch gb pds = (vs, pds') \<Longrightarrow> group_run E px cnt pds' gb (insert vs F)"
| lock: "group_run E px cnt pds gb F \<Longrightarrow> vs \<in> F \<Longrightarrow> proxies_locked E px pds vs gb = (ps, gb') \<Longrightarrow> group_run E px cnt pds gb' F"
| failed: "group_run E px cnt pds gb F \<Longrightarrow> onDialFailed ty ns err now gb = (gb', fn) \<Longrightarrow> group_run E px cnt pds gb' F"
| success: "group_run E px cnt pds gb F \<Longrightarrow> group_run E px cnt pds (onDialSuccess gb) F"
| check_begin: "group_run E px cnt pds gb F \<Longrightarrow> gb_healthCheck_begin gb = Some gb' \<Longrightarrow> group_run E px cnt pds gb' F"
| check_end: "group_run E px cnt pds gb F \<Longrightarrow> group_run E px cnt pds (gb_healthCheck_end gb) F"

definition not_newer :: "(nat \<Rightarrow> nat) \<Rightarrow> GroupBase \<Rightarrow> 32 word list \<Rightarrow> bool" where
  "not_newer cnt gb vs \<longleftrightarrow> (\<exists>old. (\<forall>pd. old pd \<le> cnt pd) \<and> vs = map (\<lambda>pd. of_nat (old pd)) (gb_providers gb))"

definition cache_ok :: "health_env \<Rightarrow> proxies \<Rightarrow> (nat \<Rightarrow> nat) \<Rightarrow> providers \<Rightarrow> GroupBase \<Rightarrow> 32 word list set \<Rightarrow> bool" where
  "cache_ok E px cnt pds gb F \<longleftrightarrow>
     gb_providers gb \<noteq> [] \<and> (\<forall>pd. bp_version (pds pd) = of_nat (cnt pd)) \<and> (\<forall>vs \<in> F. not_newer cnt gb vs) \<and>
     (gb_providerVersions gb \<noteq> [] \<longrightarrow> not_newer cnt gb (gb_providerVersions gb) \<and> gb_providerProxies gb \<noteq> [] \<and>
        (gb_providerVersions gb = versions_of pds gb \<longrightarrow> gb_providerProxies gb = compute_proxies E px pds gb))"

text \<open>The computation looks only at the filters, the providers' contents and the proxies' names and types.\<close>

definition same_filters :: "GroupBase \<Rightarrow> GroupBase \<Rightarrow> bool" where
  "same_filters gb gb' \<longleftrightarrow> gb_filterRegs gb = gb_filterRegs gb' \<and> gb_excludeFilterRegs gb = gb_excludeFilterRegs gb' \<and>
     gb_excludeTypeArray gb = gb_excludeTypeArray gb' \<and> gb_providers gb = gb_providers gb'"

lemma compute_same_filters: "same_filters gb gb' \<Longrightarrow> compute_proxies E px pds gb = compute_proxies E px pds gb'"
proof -
  assume same: "same_filters gb gb'"
  then have eqs: "gb_filterRegs gb = gb_filterRegs gb'" "gb_excludeFilterRegs gb = gb_excludeFilterRegs gb'"
    "gb_excludeTypeArray gb = gb_excludeTypeArray gb'" "gb_providers gb = gb_providers gb'"
    by (simp_all add: same_filters_def)
  show ?thesis
    unfolding compute_proxies_def provider_proxies_def exclude_types_def exclude_names_def reorder_proxies_def eqs ..
qed

lemma compute_same_contents:
  assumes "\<And>pd. pd \<in> set (gb_providers gb) \<Longrightarrow> bp_proxies (pds' pd) = bp_proxies (pds pd) \<and> bp_VehicleType (pds' pd) = bp_VehicleType (pds pd)"
  shows "compute_proxies E px pds' gb = compute_proxies E px pds gb"
proof -
  have "provider_proxies E px pds' gb = provider_proxies E px pds gb"
    using assms by (auto simp: provider_proxies_def intro!: arg_cong [where f = concat])
  then show ?thesis by (simp add: compute_proxies_def)
qed

lemma compute_same_names:
  assumes "\<And>p. ap_Name (px' p) = ap_Name (px p) \<and> ap_Type (px' p) = ap_Type (px p)"
  shows "compute_proxies E px' pds gb = compute_proxies E px pds gb"
proof -
  have eqs: "\<And>p. ap_Name (px' p) = ap_Name (px p)" "\<And>p. ap_Type (px' p) = ap_Type (px p)" using assms by blast+
  show ?thesis
    unfolding compute_proxies_def provider_proxies_def exclude_types_def exclude_names_def reorder_proxies_def filter_loop_def
      add_new_def eqs ..
qed

lemma cache_ok_same:
  assumes "cache_ok E px cnt pds gb F" "same_filters gb gb'" "gb_providerVersions gb' = gb_providerVersions gb"
    and "gb_providerProxies gb' = gb_providerProxies gb"
  shows "cache_ok E px cnt pds gb' F"
  using assms compute_same_filters [OF assms(2), of E px pds]
  by (simp add: cache_ok_def not_newer_def versions_of_def same_filters_def)

lemma cache_ok_same_names:
  assumes "cache_ok E px cnt pds gb F" "\<And>p. ap_Name (px' p) = ap_Name (px p) \<and> ap_Type (px' p) = ap_Type (px p)"
  shows "cache_ok E px' cnt pds gb F"
  using assms(1) unfolding cache_ok_def compute_same_names [OF assms(2)] .

lemma touch_same:
  "bp_version (bp_Touch now bp) = bp_version bp" "bp_proxies (bp_Touch now bp) = bp_proxies bp"
  "bp_VehicleType (bp_Touch now bp) = bp_VehicleType bp"
  by (simp_all add: bp_Touch_def)

lemma gb_Touch_same:
  "bp_version (gb_Touch now gb pds pd) = bp_version (pds pd)" "bp_proxies (gb_Touch now gb pds pd) = bp_proxies (pds pd)"
  "bp_VehicleType (gb_Touch now gb pds pd) = bp_VehicleType (pds pd)"
proof -
  have "bp_version (fold (\<lambda>pd pds. pds(pd := bp_Touch now (pds pd))) ps pds pd) = bp_version (pds pd) \<and>
    bp_proxies (fold (\<lambda>pd pds. pds(pd := bp_Touch now (pds pd))) ps pds pd) = bp_proxies (pds pd) \<and>
    bp_VehicleType (fold (\<lambda>pd pds. pds(pd := bp_Touch now (pds pd))) ps pds pd) = bp_VehicleType (pds pd)" for ps
    by (induction ps arbitrary: pds) (simp_all add: touch_same)
  then show "bp_version (gb_Touch now gb pds pd) = bp_version (pds pd)" "bp_proxies (gb_Touch now gb pds pd) = bp_proxies (pds pd)"
    "bp_VehicleType (gb_Touch now gb pds pd) = bp_VehicleType (pds pd)"
    by (simp_all add: gb_Touch_def)
qed

lemma cache_ok_touched:
  assumes "cache_ok E px cnt pds gb F"
    and "\<And>pd. bp_version (pds' pd) = bp_version (pds pd)" "\<And>pd. bp_proxies (pds' pd) = bp_proxies (pds pd)"
    "\<And>pd. bp_VehicleType (pds' pd) = bp_VehicleType (pds pd)"
  shows "cache_ok E px cnt pds' gb F" "versions_of pds' gb = versions_of pds gb"
  using assms compute_same_contents [of gb pds' pds E px] by (simp_all add: cache_ok_def versions_of_def)

lemma not_newer_mono: "not_newer cnt gb vs \<Longrightarrow> (\<And>pd. cnt pd \<le> cnt' pd) \<Longrightarrow> not_newer cnt' gb vs"
  unfolding not_newer_def by (blast intro: le_trans)

lemma versions_not_newer: "(\<And>pd. bp_version (pds pd) = of_nat (cnt pd)) \<Longrightarrow> not_newer cnt gb (versions_of pds gb)"
  by (auto simp: not_newer_def versions_of_def)

text \<open>A version that was read before an update of a provider of the group is never read again.\<close>

lemma update_new_version:
  assumes "not_newer cnt gb vs" "pd \<in> set (gb_providers gb)" "Suc (cnt pd) < 2 ^ 32" "bp_version (pds pd) = of_nat (Suc (cnt pd))"
  shows "vs \<noteq> versions_of pds gb"
proof
  assume eq: "vs = versions_of pds gb"
  obtain old where old: "old pd \<le> cnt pd" "vs = map (\<lambda>pd. of_nat (old pd)) (gb_providers gb)"
    using assms(1) by (auto simp: not_newer_def)
  then have "(of_nat (old pd) :: 32 word) = of_nat (Suc (cnt pd))"
    using eq assms(2,4) by (simp add: versions_of_def)
  then have "unat (of_nat (old pd) :: 32 word) = unat (of_nat (Suc (cnt pd)) :: 32 word)" by simp
  then show False using old(1) assms(3) by (simp add: unat_of_nat take_bit_nat_eq_self del: of_nat_Suc)
qed

lemma cache_ok_update:
  assumes "cache_ok E px cnt pds gb F" "setProxies ps (pds pd) = (bp, started)" "Suc (cnt pd) < 2 ^ 32"
  shows "cache_ok E px (cnt(pd := Suc (cnt pd))) (pds(pd := bp)) gb F"
proof -
  let ?cnt = "cnt(pd := Suc (cnt pd))" and ?pds = "pds(pd := bp)"
  have bp: "bp_version bp = of_nat (Suc (cnt pd))"
    using assms(1,2) by (auto simp: setProxies_def Let_def cache_ok_def)
  have vs: "not_newer ?cnt gb vs" if "not_newer cnt gb vs" for vs
    using that by (rule not_newer_mono) simp
  have "gb_providerProxies gb = compute_proxies E px ?pds gb"
    if "gb_providerVersions gb \<noteq> []" "gb_providerVersions gb = versions_of ?pds gb"
  proof (cases "pd \<in> set (gb_providers gb)")
    case True
    have "not_newer cnt gb (gb_providerVersions gb)" using assms(1) that(1) by (simp add: cache_ok_def)
    moreover have "bp_version (?pds pd) = of_nat (Suc (cnt pd))" using bp by simp
    ultimately show ?thesis using update_new_version [where cnt = cnt and pds = ?pds, OF _ True assms(3)] that(2) by blast
  next
    case False
    then have "versions_of ?pds gb = versions_of pds gb" "compute_proxies E px ?pds gb = compute_proxies E px pds gb"
      by (auto simp: versions_of_def intro!: compute_same_contents)
    with that assms(1) show ?thesis by (simp add: cache_ok_def)
  qed
  moreover have "\<forall>q. bp_version (?pds q) = of_nat (?cnt q)" using assms(1) bp by (simp add: cache_ok_def)
  ultimately show ?thesis using assms(1) vs unfolding cache_ok_def by blast
qed

lemma cache_ok_lock:
  assumes "cache_ok E px cnt pds gb F" "vs \<in> F" "proxies_locked E px pds vs gb = (ps, gb')"
  shows "cache_ok E px cnt pds gb' F"
proof (cases "vs = gb_providerVersions gb \<or> compute_proxies E px pds gb = []")
  case True
  then have "gb' = gb" using assms(3) by (auto simp: proxies_locked_def Let_def split: if_splits)
  with assms(1) show ?thesis by simp
next
  case False
  let ?ps = "compute_proxies E px pds gb"
  have gb': "gb' = gb\<lparr>gb_providerVersions := vs, gb_providerProxies := ?ps\<rparr>"
    using assms(3) False by (auto simp: proxies_locked_def Let_def split: if_splits)
  have "compute_proxies E px pds (gb\<lparr>gb_providerVersions := v, gb_providerProxies := q\<rparr>) = ?ps" for v q
    by (rule compute_same_filters) (simp add: same_filters_def)
  with assms(1,2) False show ?thesis by (simp add: gb' cache_ok_def not_newer_def versions_of_def)
qed

lemma group_run_ok: "group_run E px cnt pds gb F \<Longrightarrow> (\<And>pd. cnt pd < 2 ^ 32) \<Longrightarrow> cache_ok E px cnt pds gb F"
proof (induction rule: group_run.induct)
  case (start gb pds cnt)
  then show ?case by (simp add: cache_ok_def)
next
  case (update cnt pds gb F ps pd bp started)
  have "cnt q < 2 ^ 32" for q using update.prems [of q] by (cases "q = pd") auto
  then show ?case using update.IH update.hyps(2) update.prems [of pd] by (intro cache_ok_update) auto
next
  case (touch cnt pds gb F pd now)
  show ?case by (rule cache_ok_touched(1) [OF touch.IH [OF touch.prems]]) (simp_all add: touch_same)
next
  case (read cnt pds gb F now touch vs pds')
  have pds': "pds' = (if touch then gb_Touch now gb pds else pds)" "vs = versions_of pds' gb"
    using read.hyps(2) by (auto simp: read_versions_def Let_def)
  then have ok: "cache_ok E px cnt pds' gb F"
    by (intro cache_ok_touched(1) [OF read.IH [OF read.prems]]) (simp_all add: gb_Touch_same)
  then have "not_newer cnt gb vs" unfolding pds'(2) by (intro versions_not_newer) (simp add: cache_ok_def)
  with ok show ?case unfolding cache_ok_def by blast
next
  case (lock cnt pds gb F vs ps gb')
  show ?case by (rule cache_ok_lock [OF lock.IH [OF lock.prems] lock.hyps(2,3)])
next
  case (failed cnt pds gb F ty ns err now gb' fn)
  show ?case by (rule cache_ok_same [OF failed.IH [OF failed.prems]])
    (use failed.hyps(2) in \<open> auto simp: onDialFailed_def same_filters_def Let_def split: if_splits\<close>)+
next
  case (success cnt pds gb F)
  show ?case by (rule cache_ok_same [OF success.IH [OF success.prems]])
    ( auto simp: onDialSuccess_def same_filters_def Let_def split: if_splits)+
next
  case (check_begin cnt pds gb F gb')
  show ?case by (rule cache_ok_same [OF check_begin.IH [OF check_begin.prems]])
    (use check_begin.hyps(2) in \<open> auto simp: gb_healthCheck_begin_def same_filters_def Let_def split: if_splits\<close>)+
next
  case (check_end cnt pds gb F)
  show ?case by (rule cache_ok_same [OF check_end.IH [OF check_end.prems]])
    ( auto simp: gb_healthCheck_end_def same_filters_def Let_def split: if_splits)+
qed

text \<open>What a call of \<open>GetProxies\<close> should return.\<close>

definition current_proxies :: "health_env \<Rightarrow> proxies \<Rightarrow> providers \<Rightarrow> GroupBase \<Rightarrow> nat list" where
  "current_proxies E px pds gb = (let ps = compute_proxies E px pds gb in if ps = [] then [gb_emptyFallback gb] else ps)"

lemma current_proxies_nonempty: "current_proxies E px pds gb \<noteq> []"
  by (simp add: current_proxies_def Let_def)

lemma GetProxies_current:
  assumes "cache_ok E px cnt pds gb F" "GetProxies E now touch px (pds, gb) = (ps, pds', gb')"
  shows "ps = current_proxies E px pds gb" "cache_ok E px cnt pds' gb' F" "same_filters gb gb'"
    "gb_emptyFallback gb' = gb_emptyFallback gb" "compute_proxies E px pds' gb' = compute_proxies E px pds gb"
proof -
  have pds': "pds' = (if touch then gb_Touch now gb pds else pds)"
    and locked: "proxies_locked E px pds' (versions_of pds' gb) gb = (ps, gb')"
    using assms(2) by (auto simp: GetProxies_def read_versions_def Let_def split: prod.splits)
  have ok: "cache_ok E px cnt pds' gb F" unfolding pds'
    by (rule cache_ok_touched(1) [OF assms(1)]) (simp_all add: gb_Touch_same)
  have same: "compute_proxies E px pds' gb = compute_proxies E px pds gb"
    unfolding pds' by (rule compute_same_contents) (auto simp: gb_Touch_same)
  have nonempty: "versions_of pds' gb \<noteq> []" using ok by (simp add: cache_ok_def versions_of_def)
  show "ps = current_proxies E px pds gb"
    using locked ok nonempty same
    by (auto simp: proxies_locked_def current_proxies_def Let_def cache_ok_def split: if_splits)
  have "not_newer cnt gb (versions_of pds' gb)" using ok by (intro versions_not_newer) (simp add: cache_ok_def)
  then have "cache_ok E px cnt pds' gb (insert (versions_of pds' gb) F)" using ok unfolding cache_ok_def by blast
  from cache_ok_lock [OF this insertI1 locked] show "cache_ok E px cnt pds' gb' F" unfolding cache_ok_def by blast
  show f: "same_filters gb gb'" "gb_emptyFallback gb' = gb_emptyFallback gb"
    using locked by (auto simp: proxies_locked_def same_filters_def Let_def split: if_splits)
  show "compute_proxies E px pds' gb' = compute_proxies E px pds gb"
    using compute_same_filters [OF f(1), of E px pds'] same by simp
qed

section \<open>Choosing from a list\<close>

datatype group_error = IndexPanic | ProxyNotExist | UnsupportedStrategy string | GroupRegexPanic string

text \<open>\<open>proxies[i]\<close>.\<close>

definition proxy_at :: "nat list \<Rightarrow> nat \<Rightarrow> (group_error, nat) result" where
  "proxy_at ps i = (if i < length ps then Inr (ps ! i) else Inl IndexPanic)"

lemma proxy_at_less [simp]: "i < length ps \<Longrightarrow> proxy_at ps i = Inr (ps ! i)"
  by (simp add: proxy_at_def)

definition new_base :: "health_env \<Rightarrow> GroupBaseOption \<Rightarrow> AdapterType \<Rightarrow> (group_error, GroupBase) result" where
  "new_base E opt ty =
     (case NewGroupBase E (opt\<lparr>go_Type := ty\<rparr>) of Inl (RegexPanic r) \<Rightarrow> Inl (GroupRegexPanic r) | Inr gb \<Rightarrow> Inr gb)"

section \<open>Dialing through a group\<close>

text \<open>
  \<open>DialContext\<close> of the other kinds of groups: a failed dial is counted at once; where the connection
  still has to send a handshake, the result of its first write is reported as well.
\<close>

definition after_dial :: "AdapterType \<Rightarrow> (bool \<times> string) option \<Rightarrow> int \<Rightarrow> GroupBase \<Rightarrow> GroupBase \<times> bool" where
  "after_dial adapterType err now gb =
     (case err of None \<Rightarrow> (gb, False) | Some (notSupport, e) \<Rightarrow> onDialFailed adapterType notSupport e now gb)"

definition after_first_write :: "AdapterType \<Rightarrow> (bool \<times> string) option \<Rightarrow> int \<Rightarrow> GroupBase \<Rightarrow> GroupBase \<times> bool" where
  "after_first_write adapterType err now gb =
     (case err of None \<Rightarrow> (onDialSuccess gb, False) | Some (notSupport, e) \<Rightarrow> onDialFailed adapterType notSupport e now gb)"

text \<open>
  A health check starts at once where the connection was refused, and otherwise only when the failures
  within the timeout have reached the limit; the first failure never starts one.
\<close>

lemma onDialFailed_starts:
  assumes "onDialFailed ty notSupport err now gb = (gb', True)"
  shows "str_contains err ''connection refused'' \<or>
    gb_failedTimes gb \<noteq> 0 \<and> gb_failedTimes gb' \<ge> gb_maxFailedTimes gb \<and> now - gb_failedTime gb \<le> gb_testTimeout gb * 1000000"
  using assms by (auto simp: onDialFailed_def Let_def split: if_splits)

section \<open>The interface of a choice\<close>

text \<open>
  The interface between the list of a group and the rule by which a kind of group chooses from it.
  A rule may keep a state of its own; from a list that is not empty it chooses, without a panic, a
  proxy that has the name of one in the list.  Lists are shorter than the range of an \<open>int32\<close>.
\<close>

definition listed :: "proxies \<Rightarrow> nat list \<Rightarrow> nat \<Rightarrow> bool" where
  "listed px ps p \<longleftrightarrow> ap_Name (px p) \<in> (\<lambda>q. ap_Name (px q)) ` set ps"

lemma listed_member [intro]: "p \<in> set ps \<Longrightarrow> listed px ps p"
  by (auto simp: listed_def)

locale group_choice =
  fixes px :: proxies and pick :: "nat list \<Rightarrow> 's \<Rightarrow> (group_error, nat \<times> 's) result"
  assumes pick_listed: "ps \<noteq> [] \<Longrightarrow> length ps < 2 ^ 31 \<Longrightarrow> \<exists>p s'. pick ps s = Inr (p, s') \<and> listed px ps p"
begin

lemma pick_current:
  assumes "cache_ok E px cnt pds gb F" "GetProxies E now touch px (pds, gb) = (ps, pds', gb')"
    and "length (current_proxies E px pds gb) < 2 ^ 31"
  shows "\<exists>p s'. pick ps s = Inr (p, s') \<and> listed px (current_proxies E px pds gb) p"
  using pick_listed [of "current_proxies E px pds gb"] current_proxies_nonempty assms(3)
  unfolding GetProxies_current(1) [OF assms(1,2)] by blast

end

section \<open>Properties\<close>

definition plain_env :: health_env where
  "plain_env = \<lparr>he_compiles = (\<lambda>_. True), he_regex = (=), he_unifiedDelay = False,
     he_probe = (\<lambda>_ _. \<lparr>pr_parse = (\<lambda>_. None), pr_dial = (\<lambda>_. None), pr_NewRequest = None, pr_GetTLSConfig = None,
       pr_first = Inl [], pr_second = Inl [], pr_start = 0, pr_second_start = 0, pr_end = 0, pr_recorded = 0\<rparr>),
     he_order = id\<rparr>"

definition example_provider :: "nat list \<Rightarrow> baseProvider" where
  "example_provider ps = \<lparr>bp_name = ''p'', bp_proxies = ps, bp_healthCheck = NewHealthCheck ps ''u'' 0 300 True [],
     bp_version = 0, bp_VehicleType = VT_HTTP\<rparr>"

definition example_group :: GroupBase where
  "example_group = \<lparr>gb_Name = ''g'', gb_Type = AT_Selector, gb_hidden = False, gb_icon = [], gb_filterRegs = [],
     gb_excludeFilterRegs = [], gb_excludeTypeArray = None, gb_providers = [0], gb_failedTimes = 0, gb_failedTime = 0,
     gb_failedTesting = False, gb_testTimeout = 5000, gb_maxFailedTimes = 5, gb_emptyFallback = 9,
     gb_providerVersions = [], gb_providerProxies = []\<rparr>"

lemma example_current: "current_proxies plain_env px (\<lambda>_. example_provider (p # ps)) example_group = p # ps"
  by (simp add: current_proxies_def compute_proxies_def exclude_types_def exclude_names_def reorder_proxies_def
      provider_proxies_def example_group_def example_provider_def)



end
