(* ===== verification/Load_Balance.thy ===== *)
theory Load_Balance
  imports Group_Base LRU_Cache Float64
begin

text \<open>
  \<open>adapter/outboundgroup/loadbalance.go\<close>: the group that spreads connections over its proxies, in turn,
  by a hash of the destination, or by a hash that a client keeps for ten minutes.
\<close>

section \<open>jumpHash\<close>

definition jump_next :: "64 word \<Rightarrow> nat \<Rightarrow> nat" where
  "jump_next key b = nat \<lfloor>float64 (of_nat (b + 1) * float64 (2 ^ 31 / of_nat (unat (drop_bit 33 key) + 1)))\<rfloor>"

lemma jump_ratio:
  assumes "k < 2 ^ 31"
  shows "of_nat 1 \<le> (2 ^ 31 / of_nat (k + 1) :: rat)"
proof -
  have "(of_nat (k + 1) :: rat) \<le> of_nat (2 ^ 31)" using assms by (simp only: of_nat_le_iff)
  then show ?thesis by (simp add: le_divide_eq)
qed

lemma jump_next_greater:
  assumes "b < 2 ^ 31"
  shows "b < jump_next key b"
proof -
  have "unat (drop_bit 33 key) < 2 ^ 31"
    unfolding trans [OF unat_drop_bit_eq drop_bit_eq_div, of 33 key]
    using unat_less_power [of key] by (intro less_mult_imp_div_less) simp
  then have "of_nat 1 \<le> (2 ^ 31 / of_nat (unat (drop_bit 33 key) + 1) :: rat)" by (rule jump_ratio)
  from float64_ge [OF _ _ this] have "(1 :: rat) \<le> float64 (2 ^ 31 / of_nat (unat (drop_bit 33 key) + 1))" by simp
  then have "of_nat (b + 1) * 1 \<le> (of_nat (b + 1) * float64 (2 ^ 31 / of_nat (unat (drop_bit 33 key) + 1)) :: rat)"
    by (intro mult_left_mono) auto
  then have "(of_nat (b + 1) :: rat) \<le> float64 (of_nat (b + 1) * float64 (2 ^ 31 / of_nat (unat (drop_bit 33 key) + 1)))"
    using assms by (intro float64_ge) auto
  then show ?thesis unfolding jump_next_def by (metis Suc_eq_plus1 Suc_le_eq le_floor_iff le_nat_iff of_int_of_nat_eq of_nat_0_le_iff order_trans)
qed

function jump_loop :: "32 word \<Rightarrow> 64 word \<Rightarrow> nat \<Rightarrow> nat \<Rightarrow> nat" where
  "jump_loop buckets key b j =
     (if int j < sint buckets
      then let key1 = key * 2862933555777941757 + 1 in jump_loop buckets key1 j (jump_next key1 j)
      else b)"
  by pat_completeness auto
termination
proof (relation "measure (\<lambda>(buckets, _, _, j). nat (sint buckets) - j)")
  fix buckets :: "32 word" and key key1 :: "64 word" and j :: nat
  assume j: "int j < sint buckets"
  moreover have "sint buckets < 2 ^ 31" using sint_lt [of buckets] by simp
  ultimately have "j < jump_next key1 j" by (intro jump_next_greater) simp
  with j show "((buckets, key1, j, jump_next key1 j), buckets, key, b, j) \<in> measure (\<lambda>(buckets, _, _, j). nat (sint buckets) - j)" for b
    by auto
qed simp

declare jump_loop.simps [simp del]

definition jumpHash :: "64 word \<Rightarrow> 32 word \<Rightarrow> nat" where
  "jumpHash key buckets = jump_loop buckets key 0 0"

lemma jump_loop_bounds:
  "int b < sint buckets \<Longrightarrow> int (jump_loop buckets key b j) < sint buckets"
  "int j < sint buckets \<Longrightarrow> j \<le> jump_loop buckets key b j"
proof (induction buckets key b j rule: jump_loop.induct)
  case (1 buckets key b j)
  {
    case 1
    then show ?case by (subst jump_loop.simps) (simp add: Let_def "1.IH"(1) [OF _ refl])
  next
    case 2
    let ?key = "key * 2862933555777941757 + 1"
    have "sint buckets < 2 ^ 31" using sint_lt [of buckets] by simp
    then have g: "j < jump_next ?key j" using 2 by (intro jump_next_greater) simp
    have "j \<le> jump_loop buckets ?key j (jump_next ?key j)"
    proof (cases "int (jump_next ?key j) < sint buckets")
      case True
      from g "1.IH"(2) [OF 2 refl True] show ?thesis by (rule less_imp_le [OF less_le_trans])
    next
      case False
      then show ?thesis by (subst jump_loop.simps) (simp only: if_False order_refl)
    qed
    then show ?case using 2 by (subst jump_loop.simps) (simp add: Let_def)
  }
qed

text \<open>More buckets: the loop goes on where it stopped before.\<close>

lemma jump_loop_grow:
  assumes "sint m \<le> sint n"
  shows "jump_loop n key b j = jump_loop m key b j \<or> sint m \<le> int (jump_loop n key b j)"
  using assms
proof (induction m key b j rule: jump_loop.induct)
  case (1 m key b j)
  show ?case
  proof (cases "int j < sint m")
    case True
    then have "int j < sint n" using "1.prems" by simp
    with True "1.IH" [OF True refl "1.prems"] show ?thesis by (subst (1 2 3) jump_loop.simps) (simp add: Let_def)
  next
    case False
    then have "jump_loop m key b j = b" by (subst jump_loop.simps) simp
    moreover have "jump_loop n key b j = b" if "\<not> int j < sint n" using that by (subst jump_loop.simps) simp
    moreover have "j \<le> jump_loop n key b j" if "int j < sint n" using that by (rule jump_loop_bounds(2))
    ultimately show ?thesis using False by (cases "int j < sint n") auto
  qed
qed

lemma sint_count: "n < 2 ^ 31 \<Longrightarrow> sint (of_nat n :: 32 word) = int n"
  by (simp add: sint_uint uint_nat unat_of_nat take_bit_nat_eq_self signed_take_bit_int_eq_self)

lemma jumpHash_less: "0 < n \<Longrightarrow> n < 2 ^ 31 \<Longrightarrow> jumpHash key (of_nat n) < n"
  using jump_loop_bounds(1) [of 0 "of_nat n :: 32 word" key 0] by (simp add: jumpHash_def sint_count)

section \<open>Strategies\<close>

text \<open>
  What the strategies take from elsewhere: the hash \<open>utils.MapHash\<close>, whose seed is drawn at start-up,
  the public suffix list, the clock of the cache in seconds and readings of \<open>UnixNano\<close>.
\<close>

record balance_env =
  be_MapHash :: "string \<Rightarrow> 64 word"
  be_EffectiveTLDPlusOne :: "string \<Rightarrow> string option"
  be_clock :: clock
  be_UnixNano :: "nat \<Rightarrow> 64 word"

definition ParseIP :: "string \<Rightarrow> bool" where
  "ParseIP s = (case ParseAddr s of Some (V4 _) \<Rightarrow> True | Some (V6 _ zone) \<Rightarrow> zone = [] | _ \<Rightarrow> False)"

definition getKey :: "balance_env \<Rightarrow> Metadata option \<Rightarrow> string" where
  "getKey B metadata =
     (case metadata of
        None \<Rightarrow> []
      | Some m \<Rightarrow>
          let byAddr = (if \<not> IsValid (mDstIP m) then [] else Addr_String (mDstIP m)) in
          if mHost m \<noteq> [] then
            if ParseIP (mHost m) then mHost m
            else (case be_EffectiveTLDPlusOne B (mHost m) of Some etld \<Rightarrow> etld | None \<Rightarrow> byAddr)
          else byAddr)"

definition getKeyWithSrcAndDst :: "balance_env \<Rightarrow> Metadata option \<Rightarrow> string" where
  "getKeyWithSrcAndDst B metadata =
     (let dst = getKey B metadata; src = (case metadata of Some m \<Rightarrow> Addr_String (mSrcIP m) | None \<Rightarrow> []) in src @ dst)"

text \<open>
  Round robin.  The loop counts \<open>i\<close> up to a proxy that is alive; the deferred function adds it to \<open>idx\<close>.
\<close>

function rr_loop :: "(nat \<Rightarrow> bool) \<Rightarrow> nat list \<Rightarrow> nat \<Rightarrow> nat \<Rightarrow> nat option \<times> nat" where
  "rr_loop alive ps idx i =
     (if i < length ps
      then let proxy = ps ! ((idx + i) mod length ps) in
           if alive proxy then (Some proxy, i + 1) else rr_loop alive ps idx (i + 1)
      else (None, i))"
  by pat_completeness auto
termination
  by (relation "measure (\<lambda>(_, ps, _, i). length ps - i)") auto

declare rr_loop.simps [simp del]

definition strategyRoundRobin :: "(nat \<Rightarrow> bool) \<Rightarrow> bool \<Rightarrow> nat list \<Rightarrow> nat \<Rightarrow> (group_error, nat \<times> nat) result" where
  "strategyRoundRobin alive touch ps idx =
     (let (found, i) = rr_loop alive ps idx 0 in
      result_bind (case found of Some proxy \<Rightarrow> Inr proxy | None \<Rightarrow> proxy_at ps 0) (\<lambda>proxy.
        Inr (proxy, if touch then (idx + i) mod length ps else idx)))"

text \<open>Consistent hashing: five keys in a row, then the whole list.\<close>

fun hash_loop :: "(nat \<Rightarrow> bool) \<Rightarrow> nat list \<Rightarrow> nat \<Rightarrow> 64 word \<Rightarrow> (group_error, nat option) result" where
  "hash_loop alive ps 0 key = Inr None"
| "hash_loop alive ps (Suc retries) key =
     result_bind (proxy_at ps (jumpHash key (of_nat (length ps)))) (\<lambda>proxy.
       if alive proxy then Inr (Some proxy) else hash_loop alive ps retries (key + 1))"

definition strategyConsistentHashing :: "balance_env \<Rightarrow> (nat \<Rightarrow> bool) \<Rightarrow> Metadata option \<Rightarrow> nat list \<Rightarrow> (group_error, nat) result" where
  "strategyConsistentHashing B alive metadata ps =
     result_bind (hash_loop alive ps 5 (be_MapHash B (getKey B metadata))) (\<lambda>r.
       case r of
         Some proxy \<Rightarrow> Inr proxy
       | None \<Rightarrow> (case find alive ps of Some proxy \<Rightarrow> Inr proxy | None \<Rightarrow> proxy_at ps 0))"

text \<open>
  Sticky sessions.  \<open>n\<close> counts the readings of \<open>UnixNano\<close>; a cached index is used unless the list has
  become shorter.
\<close>

definition new_index :: "balance_env \<Rightarrow> 64 word \<Rightarrow> nat list \<Rightarrow> nat \<Rightarrow> nat" where
  "new_index B key ps n = jumpHash (key + be_UnixNano B n) (of_nat (length ps))"

fun sticky_loop ::
  "balance_env \<Rightarrow> (nat \<Rightarrow> bool) \<Rightarrow> nat list \<Rightarrow> 64 word \<Rightarrow> bool \<Rightarrow> nat \<Rightarrow> nat \<Rightarrow> nat \<Rightarrow> nat \<Rightarrow> (64 word, nat) LruCache \<Rightarrow>
   (group_error, nat option \<times> (64 word, nat) LruCache) result" where
  "sticky_loop B alive ps key has idx nowIdx 0 n c = Inr (None, c)"
| "sticky_loop B alive ps key has idx nowIdx (Suc retries) n c =
     result_bind (proxy_at ps nowIdx) (\<lambda>proxy.
       if alive proxy
       then Inr (Some proxy, if \<not> has \<or> nowIdx \<noteq> idx then lru_Set (be_clock B) key nowIdx c else c)
       else sticky_loop B alive ps key has idx (new_index B key ps n) retries (Suc n) c)"

definition strategyStickySessions ::
  "balance_env \<Rightarrow> (nat \<Rightarrow> bool) \<Rightarrow> Metadata option \<Rightarrow> nat list \<Rightarrow> (64 word, nat) LruCache \<Rightarrow>
   (group_error, nat \<times> (64 word, nat) LruCache) result" where
  "strategyStickySessions B alive metadata ps c =
     (let key = be_MapHash B (getKeyWithSrcAndDst B metadata);
          (cached, c1) = lru_Get (be_clock B) key c;
          (has, idx, n) =
            (case cached of
               Some i \<Rightarrow> if i \<ge> length ps then (True, new_index B key ps 0, 1) else (True, i, 0)
             | None \<Rightarrow> (False, new_index B key ps 0, 1))
      in result_bind (sticky_loop B alive ps key has idx idx 4 n c1) (\<lambda>(r, c2).
           case r of
             Some proxy \<Rightarrow> Inr (proxy, c2)
           | None \<Rightarrow> result_bind (proxy_at ps 0) (\<lambda>proxy. Inr (proxy, lru_Set (be_clock B) key 0 c2))))"

section \<open>The group\<close>

datatype strategy = RoundRobin nat | ConsistentHashing | StickySessions "(64 word, nat) LruCache"

record LoadBalance =
  lb_base :: GroupBase
  lb_disableUDP :: bool
  lb_strategyFn :: strategy
  lb_testUrl :: string
  lb_expectedStatus :: string

definition sticky_cache :: "(64 word, nat) LruCache" where
  "sticky_cache = lru_New [WithAge 600, WithSize 1000]"

definition NewLoadBalance ::
  "health_env \<Rightarrow> GroupBaseOption \<Rightarrow> bool \<Rightarrow> string \<Rightarrow> string \<Rightarrow> string \<Rightarrow> (group_error, LoadBalance) result" where
  "NewLoadBalance E opt disableUDP url expectedStatus strategy =
     result_bind
       (if strategy = ''consistent-hashing'' then Inr ConsistentHashing
        else if strategy = ''round-robin'' then Inr (RoundRobin 0)
        else if strategy = ''sticky-sessions'' then Inr (StickySessions sticky_cache)
        else Inl (UnsupportedStrategy strategy)) (\<lambda>fn.
     result_bind (new_base E opt AT_LoadBalance) (\<lambda>gb.
       Inr \<lparr>lb_base = gb, lb_disableUDP = disableUDP, lb_strategyFn = fn, lb_testUrl = url, lb_expectedStatus = expectedStatus\<rparr>))"

text \<open>The call of the strategy, with the state its closure captured.\<close>

definition lb_choose ::
  "balance_env \<Rightarrow> proxies \<Rightarrow> string \<Rightarrow> Metadata option \<Rightarrow> bool \<Rightarrow> nat list \<Rightarrow> strategy \<Rightarrow> (group_error, nat \<times> strategy) result" where
  "lb_choose B px url metadata touch ps strategy =
     (let alive = (\<lambda>p. AliveForTestUrl (px p) url) in
      case strategy of
        RoundRobin idx \<Rightarrow> result_bind (strategyRoundRobin alive touch ps idx) (\<lambda>(p, idx'). Inr (p, RoundRobin idx'))
      | ConsistentHashing \<Rightarrow> result_bind (strategyConsistentHashing B alive metadata ps) (\<lambda>p. Inr (p, ConsistentHashing))
      | StickySessions c \<Rightarrow> result_bind (strategyStickySessions B alive metadata ps c) (\<lambda>(p, c'). Inr (p, StickySessions c')))"

definition lb_Unwrap ::
  "health_env \<Rightarrow> balance_env \<Rightarrow> int \<Rightarrow> proxies \<Rightarrow> Metadata option \<Rightarrow> bool \<Rightarrow> providers \<times> LoadBalance \<Rightarrow>
   (group_error, nat \<times> providers \<times> LoadBalance) result" where
  "lb_Unwrap E B now px metadata touch = (\<lambda>(pds, lb).
     case GetProxies E now touch px (pds, lb_base lb) of
       (ps, pds1, gb1) \<Rightarrow>
         result_bind (lb_choose B px (lb_testUrl lb) metadata touch ps (lb_strategyFn lb)) (\<lambda>(p, fn).
           Inr (p, pds1, lb\<lparr>lb_base := gb1, lb_strategyFn := fn\<rparr>)))"

text \<open>\<open>DialContext\<close>; \<open>dial\<close> is the result of dialing the chosen proxy.  The last component says whether a health check starts.\<close>

definition lb_DialContext ::
  "health_env \<Rightarrow> balance_env \<Rightarrow> int \<Rightarrow> proxies \<Rightarrow> (nat \<Rightarrow> (bool \<times> string) option) \<Rightarrow> Metadata \<Rightarrow> providers \<times> LoadBalance \<Rightarrow>
   (group_error, (bool \<times> string) option \<times> providers \<times> LoadBalance \<times> bool) result" where
  "lb_DialContext E B now px dial metadata st =
     result_bind (lb_Unwrap E B now px (Some metadata) True st) (\<lambda>(p, pds1, lb1).
       case after_dial (ap_Type (px p)) (dial p) now (lb_base lb1) of
         (gb, fn) \<Rightarrow> Inr (dial p, pds1, lb1\<lparr>lb_base := gb\<rparr>, fn))"

definition lb_SupportUDP :: "LoadBalance \<Rightarrow> bool" where
  "lb_SupportUDP lb = (\<not> lb_disableUDP lb)"

definition lb_Now :: "LoadBalance \<Rightarrow> string" where
  "lb_Now lb = []"

section \<open>What the strategies choose\<close>

lemma rr_loop_find:
  "rr_loop alive ps idx i =
    (case find (\<lambda>k. alive (ps ! ((idx + k) mod length ps))) [i..<length ps] of
       Some k \<Rightarrow> (Some (ps ! ((idx + k) mod length ps)), k + 1) | None \<Rightarrow> (None, max i (length ps)))"
proof (induction alive ps idx i rule: rr_loop.induct)
  case (1 alive ps idx i)
  show ?case
  proof (cases "i < length ps")
    case True
    with 1 show ?thesis by (subst rr_loop.simps) (auto simp: Let_def upt_conv_Cons split: option.splits)
  qed (subst rr_loop.simps, simp)
qed

text \<open>
  The distance from \<open>idx\<close> to a proxy that is alive: either the next call chooses it, or the distance
  shrinks.
\<close>

lemma round_robin_step:
  assumes "alive (ps ! ((idx + d) mod length ps))" "d < length ps"
  shows "\<exists>k \<le> d. strategyRoundRobin alive True ps idx = Inr (ps ! ((idx + k) mod length ps), (idx + k + 1) mod length ps) \<and>
    alive (ps ! ((idx + k) mod length ps))"
proof -
  let ?alive = "\<lambda>k. alive (ps ! ((idx + k) mod length ps))"
  obtain k where k: "find ?alive [0..<length ps] = Some k"
    using assms by (cases "find ?alive [0..<length ps]") (auto simp: find_None_iff)
  then have "?alive k" and first: "\<not> ?alive d'" if "d' < k" for d' using that by (auto simp: find_Some_iff)
  from k have alive: "?alive k" by (auto simp: find_Some_iff)
  have "k \<le> d" using first [of d] assms(1) by force
  with k alive show ?thesis by (auto simp: strategyRoundRobin_def rr_loop_find add.assoc)
qed

text \<open>The choices of successive calls, while the same proxies are alive.\<close>

fun rr_calls :: "(nat \<Rightarrow> bool) \<Rightarrow> nat list \<Rightarrow> nat \<Rightarrow> nat \<Rightarrow> nat list" where
  "rr_calls alive ps 0 idx = []"
| "rr_calls alive ps (Suc m) idx =
     (case strategyRoundRobin alive True ps idx of Inr (p, idx') \<Rightarrow> p # rr_calls alive ps m idx' | Inl _ \<Rightarrow> [])"

lemma rr_calls_reach:
  assumes "alive (ps ! ((idx + d) mod length ps))" "d < m" "d < length ps"
  shows "ps ! ((idx + d) mod length ps) \<in> set (rr_calls alive ps m idx)"
  using assms
proof (induction m arbitrary: idx d)
  case (Suc m)
  obtain k where k: "k \<le> d" "strategyRoundRobin alive True ps idx = Inr (ps ! ((idx + k) mod length ps), (idx + k + 1) mod length ps)"
    using round_robin_step [where alive = alive and ps = ps and idx = idx, OF Suc.prems(1,3)] by blast
  show ?case
  proof (cases "k = d")
    case False
    then obtain d' where d': "d = k + 1 + d'" using k(1) by (metis Suc_eq_plus1 le_neq_implies_less less_iff_Suc_add add_Suc_right add_Suc add.commute)
    have "((idx + k + 1) mod length ps + d') mod length ps = (idx + d) mod length ps"
      unfolding d' by (simp add: mod_simps ac_simps)
    then have "ps ! ((idx + d) mod length ps) \<in> set (rr_calls alive ps m ((idx + k + 1) mod length ps))"
      using Suc.IH [of "(idx + k + 1) mod length ps" d'] Suc.prems d' by simp
    with k(2) show ?thesis by simp
  qed (use k(2) in simp)
qed simp

lemma reach_index:
  assumes "j < (n :: nat)"
  shows "\<exists>d < n. (idx + d) mod n = j"
proof -
  define r where "r = idx mod n"
  have r: "r < n" "(idx + d) mod n = (r + d) mod n" for d using assms by (simp_all add: r_def mod_add_left_eq)
  show ?thesis
  proof (cases "r \<le> j")
    case True
    then have "r + (j - r) = j" by simp
    then have "(idx + (j - r)) mod n = j" using r(2) [of "j - r"] assms by (metis mod_less)
    then show ?thesis using assms by (intro exI [of _ "j - r"]) simp
  next
    case False
    then have "n + j - r < n" "r + (n + j - r) = n + j" using r(1) by simp_all
    then show ?thesis using assms r(2) [of "n + j - r"] by (intro exI [of _ "n + j - r"]) simp
  qed
qed

lemma rr_calls_alive:
  assumes "\<exists>p \<in> set ps. alive p"
  shows "length (rr_calls alive ps m idx) = m" "set (rr_calls alive ps m idx) \<subseteq> {p \<in> set ps. alive p}"
proof -
  have n: "0 < length ps" using assms by auto
  have "length (rr_calls alive ps m idx) = m \<and> set (rr_calls alive ps m idx) \<subseteq> {p \<in> set ps. alive p}"
  proof (induction m arbitrary: idx)
    case (Suc m)
    obtain j where j: "j < length ps" "alive (ps ! j)" using assms by (auto simp: in_set_conv_nth)
    obtain d where d: "d < length ps" "(idx + d) mod length ps = j" using reach_index [OF j(1)] by blast
    then obtain k where k: "strategyRoundRobin alive True ps idx = Inr (ps ! ((idx + k) mod length ps), (idx + k + 1) mod length ps)"
      "alive (ps ! ((idx + k) mod length ps))"
      using round_robin_step [of alive ps idx d] j by auto
    with Suc n show ?case by simp
  qed simp
  then show "length (rr_calls alive ps m idx) = m" "set (rr_calls alive ps m idx) \<subseteq> {p \<in> set ps. alive p}" by blast+
qed

lemma hash_loop_found:
  assumes "ps \<noteq> []" "length ps < 2 ^ 31"
  shows "\<exists>r. hash_loop alive ps retries key = Inr r \<and> (\<forall>p. r = Some p \<longrightarrow> p \<in> set ps \<and> alive p)"
proof (induction retries arbitrary: key)
  case (Suc retries)
  have "jumpHash key (of_nat (length ps)) < length ps" using assms by (intro jumpHash_less) auto
  with Suc show ?case by simp
qed simp

lemma consistent_choice:
  assumes "ps \<noteq> []" "length ps < 2 ^ 31"
  shows "\<exists>p \<in> set ps. strategyConsistentHashing B alive metadata ps = Inr p \<and> ((\<exists>q \<in> set ps. alive q) \<longrightarrow> alive p)"
proof -
  obtain r where r: "hash_loop alive ps 5 (be_MapHash B (getKey B metadata)) = Inr r" "\<And>p. r = Some p \<Longrightarrow> p \<in> set ps \<and> alive p"
    using hash_loop_found [OF assms] by metis
  show ?thesis
  proof (cases r)
    case None
    show ?thesis
    proof (cases "find alive ps")
      case None
      then have "\<forall>q \<in> set ps. \<not> alive q" by (simp add: find_None_iff)
      moreover have "strategyConsistentHashing B alive metadata ps = Inr (ps ! 0)"
        using \<open>r = None\<close> r(1) assms(1) None by (simp add: strategyConsistentHashing_def)
      ultimately show ?thesis using assms(1) by auto
    next
      case (Some p)
      then have "p \<in> set ps" "alive p" by (auto simp: find_Some_iff)
      with Some \<open>r = None\<close> r(1) show ?thesis by (auto simp: strategyConsistentHashing_def)
    qed
  qed (use r in \<open>auto simp: strategyConsistentHashing_def\<close>)
qed

lemma sticky_loop_found:
  assumes "ps \<noteq> []" "length ps < 2 ^ 31" "nowIdx < length ps"
  shows "\<exists>r c'. sticky_loop B alive ps key has idx nowIdx retries n c = Inr (r, c') \<and> (\<forall>p. r = Some p \<longrightarrow> p \<in> set ps \<and> alive p)"
  using assms(3)
proof (induction retries arbitrary: nowIdx n)
  case (Suc retries)
  have "new_index B key ps n < length ps" unfolding new_index_def using assms by (intro jumpHash_less) auto
  with Suc show ?case by simp
qed simp

lemma sticky_choice:
  assumes "ps \<noteq> []" "length ps < 2 ^ 31"
  shows "\<exists>p \<in> set ps. \<exists>c'. strategyStickySessions B alive metadata ps c = Inr (p, c')"
proof -
  let ?key = "be_MapHash B (getKeyWithSrcAndDst B metadata)"
  obtain cached c1 where get: "lru_Get (be_clock B) ?key c = (cached, c1)" by fastforce
  obtain has idx n where start: "(case cached of
        Some i \<Rightarrow> if i \<ge> length ps then (True, new_index B ?key ps 0, 1) else (True, i, 0)
      | None \<Rightarrow> (False, new_index B ?key ps 0, 1 :: nat)) = (has, idx, n)" by (rule prod_cases3)
  have "new_index B ?key ps 0 < length ps" unfolding new_index_def using assms by (intro jumpHash_less) auto
  with start have "idx < length ps" by (auto split: option.splits if_splits)
  from sticky_loop_found [OF assms this, of B alive ?key has idx 4 n c1]
  obtain r c2 where loop: "sticky_loop B alive ps ?key has idx idx 4 n c1 = Inr (r, c2)" "\<forall>p. r = Some p \<longrightarrow> p \<in> set ps \<and> alive p"
    by blast
  have "strategyStickySessions B alive metadata ps c =
      (case r of Some proxy \<Rightarrow> Inr (proxy, c2) | None \<Rightarrow> result_bind (proxy_at ps 0) (\<lambda>proxy. Inr (proxy, lru_Set (be_clock B) ?key 0 c2)))"
    unfolding strategyStickySessions_def Let_def get prod.case start loop(1) by simp
  with loop(2) assms(1) show ?thesis by (cases r) auto
qed

text \<open>A client whose choice is in the cache keeps it while the proxy is alive.\<close>

lemma sticky_keeps:
  assumes "lru_Get (be_clock B) (be_MapHash B (getKeyWithSrcAndDst B metadata)) c = (Some i, c1)" "i < length ps" "alive (ps ! i)"
  shows "strategyStickySessions B alive metadata ps c = Inr (ps ! i, c1)"
  using assms by (simp add: strategyStickySessions_def Let_def eval_nat_numeral)

text \<open>
  Where the list has become shorter than a cached index, the new choice is not put into the cache, so
  the next connection of the client draws again.
\<close>

lemma sticky_shrunk_not_stored:
  fixes B metadata ps
  defines "key \<equiv> be_MapHash B (getKeyWithSrcAndDst B metadata)" and "j \<equiv> new_index B (be_MapHash B (getKeyWithSrcAndDst B metadata)) ps 0"
  assumes "lru_Get (be_clock B) key c = (Some i, c1)" "length ps \<le> i" "j < length ps" "alive (ps ! j)"
  shows "strategyStickySessions B alive metadata ps c = Inr (ps ! j, c1)"
  using assms by (simp add: strategyStickySessions_def Let_def eval_nat_numeral)

lemma round_robin_total:
  assumes "ps \<noteq> []"
  shows "\<exists>p \<in> set ps. \<exists>idx'. strategyRoundRobin alive touch ps idx = Inr (p, idx')"
  using assms by (auto simp: strategyRoundRobin_def rr_loop_find split: option.splits)

interpretation balance: group_choice px "lb_choose B px url metadata touch"
proof
  fix ps :: "nat list" and s assume ps: "ps \<noteq> []" "length ps < 2 ^ 31"
  let ?alive = "\<lambda>p. AliveForTestUrl (px p) url"
  show "\<exists>p s'. lb_choose B px url metadata touch ps s = Inr (p, s') \<and> listed px ps p"
  proof (cases s)
    case (RoundRobin idx)
    then show ?thesis using round_robin_total [OF ps(1), of ?alive touch idx] by (auto simp: lb_choose_def)
  next
    case ConsistentHashing
    then show ?thesis using consistent_choice [OF ps, of B ?alive metadata] by (auto simp: lb_choose_def)
  next
    case (StickySessions c)
    then show ?thesis using sticky_choice [OF ps, of B ?alive metadata c] by (auto simp: lb_choose_def)
  qed
qed

lemma lb_Unwrap_listed:
  assumes "cache_ok E px cnt pds (lb_base lb) F" "length (current_proxies E px pds (lb_base lb)) < 2 ^ 31"
  shows "\<exists>p pds' lb'. lb_Unwrap E B now px metadata touch (pds, lb) = Inr (p, pds', lb') \<and>
    listed px (current_proxies E px pds (lb_base lb)) p"
proof -
  obtain ps pds1 gb1 where get: "GetProxies E now touch px (pds, lb_base lb) = (ps, pds1, gb1)" by (rule prod_cases3)
  obtain p fn where p: "lb_choose B px (lb_testUrl lb) metadata touch ps (lb_strategyFn lb) = Inr (p, fn)"
    "listed px (current_proxies E px pds (lb_base lb)) p"
    using balance.pick_current [OF assms(1) get assms(2)] by blast
  then show ?thesis using get by (simp add: lb_Unwrap_def)
qed

section \<open>Properties\<close>

text \<open>
  C9.  \<open>jumpHash\<close> ends, returns a bucket, and is consistent: when the number of buckets grows, a key
  either keeps its bucket or moves to one of the new ones.
\<close>

theorem jumpHash_consistent:
  assumes "0 < m" "m \<le> n" "n < 2 ^ 31"
  shows "jumpHash key (of_nat m) < m \<and> (jumpHash key (of_nat n) = jumpHash key (of_nat m) \<or>
    m \<le> jumpHash key (of_nat n) \<and> jumpHash key (of_nat n) < n)"
proof -
  have "jumpHash key (of_nat m) < m" "jumpHash key (of_nat n) < n" using assms by (simp_all add: jumpHash_less)
  moreover have "sint (of_nat m :: 32 word) \<le> sint (of_nat n :: 32 word)" using assms by (simp add: sint_count)
  from jump_loop_grow [OF this, of key 0 0] have "jumpHash key (of_nat n) = jumpHash key (of_nat m) \<or> m \<le> jumpHash key (of_nat n)"
    using assms by (simp add: jumpHash_def sint_count)
  ultimately show ?thesis by blast
qed

theorem jumpHash_consistent_witness:
  "jumpHash 7 3 < 3 \<and> (jumpHash 7 4 = jumpHash 7 3 \<or> jumpHash 7 4 = 3)"
  using jumpHash_consistent [of 3 4 7] by auto

text \<open>
  C17.  Round robin starves no proxy.  While the same proxies are alive, as many calls as the group has
  proxies choose every one that is alive and none that is not, wherever the turn stood before.
\<close>

theorem round_robin_fair:
  assumes "\<exists>p \<in> set ps. alive p"
  shows "length (rr_calls alive ps (length ps) idx) = length ps \<and> set (rr_calls alive ps (length ps) idx) = {p \<in> set ps. alive p}"
proof -
  have "p \<in> set (rr_calls alive ps (length ps) idx)" if p: "p \<in> set ps" "alive p" for p
  proof -
    obtain j where j: "j < length ps" "ps ! j = p" using p(1) by (auto simp: in_set_conv_nth)
    obtain d where d: "d < length ps" "(idx + d) mod length ps = j" using reach_index [OF j(1)] by blast
    then show ?thesis using rr_calls_reach [of alive ps idx d "length ps"] j(2) p(2) by simp
  qed
  then show ?thesis using rr_calls_alive [OF assms, of "length ps" idx] by blast
qed

theorem round_robin_fair_witness:
  "length (rr_calls (\<lambda>p. p \<noteq> 7) [5, 6, 7] 3 4) = 3 \<and> set (rr_calls (\<lambda>p. p \<noteq> 7) [5, 6, 7] 3 4) = {5, 6}"
proof -
  have alive: "{p \<in> set [5, 6, 7]. p \<noteq> (7 :: nat)} = {5, 6}" and len: "length [5, 6, 7 :: nat] = 3"
    and some: "\<exists>p \<in> set [5, 6, 7]. p \<noteq> (7 :: nat)" by auto
  from round_robin_fair [OF some, of 4] show ?thesis unfolding alive len .
qed

end
