(* ===== verification/Outbound_Groups.thy ===== *)
theory Outbound_Groups
  imports Load_Balance
begin

text \<open>
  \<open>adapter/outboundgroup\<close>: the groups that choose by the user's selection (\<open>selector.go\<close>), the first
  proxy that is alive (\<open>fallback.go\<close>) and the fastest one (\<open>urltest.go\<close>).
\<close>

section \<open>Selector\<close>

record Selector =
  se_base :: GroupBase
  se_disableUDP :: bool
  se_selected :: string
  se_testUrl :: string

definition named_proxy :: "proxies \<Rightarrow> string \<Rightarrow> nat list \<Rightarrow> nat option" where
  "named_proxy px name ps = find (\<lambda>p. ap_Name (px p) = name) ps"

definition select_choose :: "proxies \<Rightarrow> nat list \<Rightarrow> string \<Rightarrow> (group_error, nat \<times> string) result" where
  "select_choose px ps selected =
     (case named_proxy px selected ps of
        Some p \<Rightarrow> Inr (p, selected)
      | None \<Rightarrow> result_bind (proxy_at ps 0) (\<lambda>p. Inr (p, selected)))"

definition selectedProxy :: "health_env \<Rightarrow> int \<Rightarrow> bool \<Rightarrow> proxies \<Rightarrow> providers \<times> Selector \<Rightarrow> (group_error, nat \<times> providers \<times> Selector) result" where
  "selectedProxy E now touch px = (\<lambda>(pds, s).
     case GetProxies E now touch px (pds, se_base s) of
       (ps, pds1, gb1) \<Rightarrow>
         result_bind (select_choose px ps (se_selected s)) (\<lambda>(p, sel). Inr (p, pds1, s\<lparr>se_base := gb1, se_selected := sel\<rparr>)))"

definition se_Now :: "health_env \<Rightarrow> int \<Rightarrow> proxies \<Rightarrow> providers \<times> Selector \<Rightarrow> (group_error, string \<times> providers \<times> Selector) result" where
  "se_Now E now px st = result_bind (selectedProxy E now False px st) (\<lambda>(p, st1). Inr (ap_Name (px p), st1))"

definition se_SupportUDP :: "health_env \<Rightarrow> int \<Rightarrow> proxies \<Rightarrow> providers \<times> Selector \<Rightarrow> (group_error, bool \<times> providers \<times> Selector) result" where
  "se_SupportUDP E now px st =
     (if se_disableUDP (snd st) then Inr (False, st)
      else result_bind (selectedProxy E now False px st) (\<lambda>(p, st1). Inr (ap_SupportUDP (px p), st1)))"

definition se_Set :: "health_env \<Rightarrow> int \<Rightarrow> proxies \<Rightarrow> string \<Rightarrow> providers \<times> Selector \<Rightarrow> (group_error, unit) result \<times> providers \<times> Selector" where
  "se_Set E now px name = (\<lambda>(pds, s).
     case GetProxies E now False px (pds, se_base s) of
       (ps, pds1, gb1) \<Rightarrow>
         let s1 = s\<lparr>se_base := gb1\<rparr> in
         (case named_proxy px name ps of
            Some _ \<Rightarrow> (Inr (), pds1, s1\<lparr>se_selected := name\<rparr>)
          | None \<Rightarrow> (Inl ProxyNotExist, pds1, s1)))"

definition se_ForceSet :: "string \<Rightarrow> Selector \<Rightarrow> Selector" where
  "se_ForceSet name s = s\<lparr>se_selected := name\<rparr>"

definition NewSelector :: "health_env \<Rightarrow> proxies \<Rightarrow> GroupBaseOption \<Rightarrow> bool \<Rightarrow> string \<Rightarrow> (group_error, Selector) result" where
  "NewSelector E px opt disableUDP url =
     result_bind (new_base E opt AT_Selector) (\<lambda>gb.
       Inr \<lparr>se_base = gb, se_disableUDP = disableUDP, se_selected = ap_Name (px (go_EmptyFallback opt)), se_testUrl = url\<rparr>)"

section \<open>Fallback\<close>

record Fallback =
  fb_base :: GroupBase
  fb_disableUDP :: bool
  fb_testUrl :: string
  fb_selected :: string
  fb_expectedStatus :: string

text \<open>The loop of \<open>findAliveProxy\<close>, which forgets a selection whose proxy is not alive.\<close>

fun alive_loop :: "proxies \<Rightarrow> string \<Rightarrow> nat list \<Rightarrow> string \<Rightarrow> nat option \<times> string" where
  "alive_loop px url [] selected = (None, selected)"
| "alive_loop px url (p # ps) selected =
     (if selected = [] then
        if AliveForTestUrl (px p) url then (Some p, selected) else alive_loop px url ps selected
      else if ap_Name (px p) = selected then
        if AliveForTestUrl (px p) url then (Some p, selected) else alive_loop px url ps []
      else alive_loop px url ps selected)"

definition fallback_choose :: "proxies \<Rightarrow> string \<Rightarrow> nat list \<Rightarrow> string \<Rightarrow> (group_error, nat \<times> string) result" where
  "fallback_choose px url ps selected =
     (case alive_loop px url ps selected of
        (Some p, sel) \<Rightarrow> Inr (p, sel)
      | (None, sel) \<Rightarrow> result_bind (proxy_at ps 0) (\<lambda>p. Inr (p, sel)))"

definition findAliveProxy :: "health_env \<Rightarrow> int \<Rightarrow> bool \<Rightarrow> proxies \<Rightarrow> providers \<times> Fallback \<Rightarrow> (group_error, nat \<times> providers \<times> Fallback) result" where
  "findAliveProxy E now touch px = (\<lambda>(pds, f).
     case GetProxies E now touch px (pds, fb_base f) of
       (ps, pds1, gb1) \<Rightarrow>
         result_bind (fallback_choose px (fb_testUrl f) ps (fb_selected f)) (\<lambda>(p, sel).
           Inr (p, pds1, f\<lparr>fb_base := gb1, fb_selected := sel\<rparr>)))"

definition fb_Now :: "health_env \<Rightarrow> int \<Rightarrow> proxies \<Rightarrow> providers \<times> Fallback \<Rightarrow> (group_error, string \<times> providers \<times> Fallback) result" where
  "fb_Now E now px st = result_bind (findAliveProxy E now False px st) (\<lambda>(p, st1). Inr (ap_Name (px p), st1))"

definition fb_SupportUDP :: "health_env \<Rightarrow> int \<Rightarrow> proxies \<Rightarrow> providers \<times> Fallback \<Rightarrow> (group_error, bool \<times> providers \<times> Fallback) result" where
  "fb_SupportUDP E now px st =
     (if fb_disableUDP (snd st) then Inr (False, st)
      else result_bind (findAliveProxy E now False px st) (\<lambda>(p, st1). Inr (ap_SupportUDP (px p), st1)))"

text \<open>\<open>DialContext\<close>; \<open>dial\<close> is the result of dialing the chosen proxy.  The last component says whether a health check starts.\<close>

definition fb_DialContext ::
  "health_env \<Rightarrow> int \<Rightarrow> proxies \<Rightarrow> (nat \<Rightarrow> (bool \<times> string) option) \<Rightarrow> providers \<times> Fallback \<Rightarrow>
   (group_error, (bool \<times> string) option \<times> providers \<times> Fallback \<times> bool) result" where
  "fb_DialContext E now px dial st =
     result_bind (findAliveProxy E now True px st) (\<lambda>(p, pds1, f1).
       case after_dial (ap_Type (px p)) (dial p) now (fb_base f1) of
         (gb, fn) \<Rightarrow> Inr (dial p, pds1, f1\<lparr>fb_base := gb\<rparr>, fn))"

text \<open>\<open>Set\<close> tests the proxy where it is not known to be alive.\<close>

definition fb_Set ::
  "health_env \<Rightarrow> int \<Rightarrow> string \<Rightarrow> proxies \<times> providers \<times> Fallback \<Rightarrow> (group_error, unit) result \<times> proxies \<times> providers \<times> Fallback" where
  "fb_Set E now name = (\<lambda>(px, pds, f).
     case GetProxies E now False px (pds, fb_base f) of
       (ps, pds1, gb1) \<Rightarrow>
         let f1 = f\<lparr>fb_base := gb1\<rparr> in
         (case named_proxy px name ps of
            None \<Rightarrow> (Inl ProxyNotExist, px, pds1, f1)
          | Some p \<Rightarrow>
              let px1 = (if AliveForTestUrl (px p) (fb_testUrl f) then px
                         else let expected = (case NewUnsignedRanges (fb_expectedStatus f) of Inr rs \<Rightarrow> rs | Inl _ \<Rightarrow> []) in
                              px(p := snd (URLTest (he_unifiedDelay E) (he_probe E p (fb_testUrl f)) (fb_testUrl f) expected (px p))))
              in (Inr (), px1, pds1, f1\<lparr>fb_selected := name\<rparr>)))"

definition fb_ForceSet :: "string \<Rightarrow> Fallback \<Rightarrow> Fallback" where
  "fb_ForceSet name f = f\<lparr>fb_selected := name\<rparr>"

definition NewFallback :: "health_env \<Rightarrow> GroupBaseOption \<Rightarrow> bool \<Rightarrow> string \<Rightarrow> string \<Rightarrow> (group_error, Fallback) result" where
  "NewFallback E opt disableUDP url expectedStatus =
     result_bind (new_base E opt AT_Fallback) (\<lambda>gb.
       Inr \<lparr>fb_base = gb, fb_disableUDP = disableUDP, fb_testUrl = url, fb_selected = [], fb_expectedStatus = expectedStatus\<rparr>)"

section \<open>URLTest\<close>

record URLTestGroup =
  ut_base :: GroupBase
  ut_selected :: string
  ut_testUrl :: string
  ut_expectedStatus :: string
  ut_tolerance :: "16 word"
  ut_disableUDP :: bool
  ut_fastNode :: "nat option"
  ut_fastSingle :: "nat Single"

text \<open>The loop over \<open>proxies[1:]\<close>: the fastest so far, its delay, and \<open>fastNotExist\<close>.\<close>

fun fast_loop :: "proxies \<Rightarrow> string \<Rightarrow> nat option \<Rightarrow> nat list \<Rightarrow> nat \<times> 16 word \<times> bool \<Rightarrow> nat \<times> 16 word \<times> bool" where
  "fast_loop px url fastNode [] acc = acc"
| "fast_loop px url fastNode (proxy # ps) (fast, minDelay, fastNotExist) =
     (let fastNotExist1 = (case fastNode of Some f \<Rightarrow> if ap_Name (px proxy) = ap_Name (px f) then False else fastNotExist
                           | None \<Rightarrow> fastNotExist)
      in if \<not> AliveForTestUrl (px proxy) url then fast_loop px url fastNode ps (fast, minDelay, fastNotExist1)
         else let delay = LastDelayForTestUrl (px proxy) url in
              if delay < minDelay then fast_loop px url fastNode ps (proxy, delay, fastNotExist1)
              else fast_loop px url fastNode ps (fast, minDelay, fastNotExist1))"

text \<open>The function that \<open>fast\<close> gives to \<open>fastSingle.Do\<close>, after \<open>GetProxies\<close>; the state is \<open>fastNode\<close>.\<close>

definition fast_choose ::
  "proxies \<Rightarrow> string \<Rightarrow> string \<Rightarrow> 16 word \<Rightarrow> nat list \<Rightarrow> nat option \<Rightarrow> (group_error, nat \<times> nat option) result" where
  "fast_choose px url selected tolerance ps fastNode =
     (case (if selected \<noteq> [] then find (\<lambda>p. AliveForTestUrl (px p) url \<and> ap_Name (px p) = selected) ps else None) of
        Some p \<Rightarrow> Inr (p, Some p)
      | None \<Rightarrow>
          result_bind (proxy_at ps 0) (\<lambda>p0.
            case fast_loop px url fastNode (tl ps) (p0, LastDelayForTestUrl (px p0) url, True) of
              (fast, minDelay, fastNotExist) \<Rightarrow>
                Inr (case fastNode of
                       Some f \<Rightarrow>
                         if fastNotExist \<or> \<not> AliveForTestUrl (px f) url \<or>
                            LastDelayForTestUrl (px f) url > LastDelayForTestUrl (px fast) url + tolerance
                         then (fast, Some fast) else (f, Some f)
                     | None \<Rightarrow> (fast, Some fast))))"

text \<open>
  \<open>fast\<close> keeps its answer for ten seconds; \<open>t1\<close> and \<open>t2\<close> are the clock readings of \<open>Do\<close>.  \<^const>\<open>None\<close> stands
  for a caller that waits for another one.
\<close>

definition ut_fast ::
  "health_env \<Rightarrow> int \<Rightarrow> int \<Rightarrow> int \<Rightarrow> bool \<Rightarrow> proxies \<Rightarrow> providers \<times> URLTestGroup \<Rightarrow>
   (group_error, nat \<times> providers \<times> URLTestGroup) result option" where
  "ut_fast E now t1 t2 touch px = (\<lambda>(pds, u).
     case single_Do t1 t2
            (\<lambda>_. case GetProxies E now touch px (pds, ut_base u) of
                   (ps, pds1, gb1) \<Rightarrow>
                     (case fast_choose px (ut_testUrl u) (ut_selected u) (ut_tolerance u) ps (ut_fastNode u) of
                        Inr (p, f) \<Rightarrow> ((p, None), Inr (pds1, u\<lparr>ut_base := gb1, ut_fastNode := f\<rparr>))
                      | Inl e \<Rightarrow> ((0, None), Inl e)))
            (ut_fastSingle u) (Inr (pds, u)) of
       None \<Rightarrow> None
     | Some ((p, _, shared), s, r) \<Rightarrow>
         Some (result_bind r (\<lambda>(pds1, u1).
           Inr (p, if shared \<and> touch then gb_Touch now (ut_base u1) pds1 else pds1, u1\<lparr>ut_fastSingle := s\<rparr>))))"

definition ut_ForceSet :: "string \<Rightarrow> URLTestGroup \<Rightarrow> URLTestGroup" where
  "ut_ForceSet name u = u\<lparr>ut_selected := name, ut_fastSingle := single_Reset (ut_fastSingle u)\<rparr>"

definition ut_Set :: "health_env \<Rightarrow> int \<Rightarrow> proxies \<Rightarrow> string \<Rightarrow> providers \<times> URLTestGroup \<Rightarrow> (group_error, unit) result \<times> providers \<times> URLTestGroup" where
  "ut_Set E now px name = (\<lambda>(pds, u).
     case GetProxies E now False px (pds, ut_base u) of
       (ps, pds1, gb1) \<Rightarrow>
         let u1 = u\<lparr>ut_base := gb1\<rparr> in
         (case named_proxy px name ps of
            None \<Rightarrow> (Inl ProxyNotExist, pds1, u1)
          | Some _ \<Rightarrow> (Inr (), pds1, ut_ForceSet name u1)))"

text \<open>\<open>healthCheck\<close> resets the kept answer before and after the check of the group.\<close>

definition ut_healthCheck_begin :: "URLTestGroup \<Rightarrow> URLTestGroup" where
  "ut_healthCheck_begin u =
     (let u1 = u\<lparr>ut_fastSingle := single_Reset (ut_fastSingle u)\<rparr> in
      case gb_healthCheck_begin (ut_base u1) of Some gb \<Rightarrow> u1\<lparr>ut_base := gb\<rparr> | None \<Rightarrow> u1)"

definition ut_healthCheck_end :: "bool \<Rightarrow> URLTestGroup \<Rightarrow> URLTestGroup" where
  "ut_healthCheck_end checked u =
     (if checked then u\<lparr>ut_base := gb_healthCheck_end (ut_base u)\<rparr> else u)\<lparr>ut_fastSingle := single_Reset (ut_fastSingle u)\<rparr>"

definition ut_Now :: "health_env \<Rightarrow> int \<Rightarrow> int \<Rightarrow> int \<Rightarrow> proxies \<Rightarrow> providers \<times> URLTestGroup \<Rightarrow> (group_error, string \<times> providers \<times> URLTestGroup) result option" where
  "ut_Now E now t1 t2 px st =
     map_option (\<lambda>r. result_bind r (\<lambda>(p, st1). Inr (ap_Name (px p), st1))) (ut_fast E now t1 t2 False px st)"

definition ut_SupportUDP :: "health_env \<Rightarrow> int \<Rightarrow> int \<Rightarrow> int \<Rightarrow> proxies \<Rightarrow> providers \<times> URLTestGroup \<Rightarrow> (group_error, bool \<times> providers \<times> URLTestGroup) result option" where
  "ut_SupportUDP E now t1 t2 px st =
     (if ut_disableUDP (snd st) then Some (Inr (False, st))
      else map_option (\<lambda>r. result_bind r (\<lambda>(p, st1). Inr (ap_SupportUDP (px p), st1))) (ut_fast E now t1 t2 False px st))"

definition ut_DialContext ::
  "health_env \<Rightarrow> int \<Rightarrow> int \<Rightarrow> int \<Rightarrow> proxies \<Rightarrow> (nat \<Rightarrow> (bool \<times> string) option) \<Rightarrow> providers \<times> URLTestGroup \<Rightarrow>
   (group_error, (bool \<times> string) option \<times> providers \<times> URLTestGroup \<times> bool) result option" where
  "ut_DialContext E now t1 t2 px dial st =
     map_option (\<lambda>r. result_bind r (\<lambda>(p, pds1, u1).
       case after_dial (ap_Type (px p)) (dial p) now (ut_base u1) of
         (gb, fn) \<Rightarrow> Inr (dial p, pds1, u1\<lparr>ut_base := gb\<rparr>, fn))) (ut_fast E now t1 t2 True px st)"

definition NewURLTest :: "health_env \<Rightarrow> GroupBaseOption \<Rightarrow> bool \<Rightarrow> string \<Rightarrow> string \<Rightarrow> 16 word option \<Rightarrow> (group_error, URLTestGroup) result" where
  "NewURLTest E opt disableUDP url expectedStatus tolerance =
     result_bind (new_base E opt AT_URLTest) (\<lambda>gb.
       Inr \<lparr>ut_base = gb, ut_selected = [], ut_testUrl = url, ut_expectedStatus = expectedStatus,
            ut_tolerance = (case tolerance of Some t \<Rightarrow> t | None \<Rightarrow> 0), ut_disableUDP = disableUDP,
            ut_fastNode = None, ut_fastSingle = NewSingle 10000000000\<rparr>)"

section \<open>The choices\<close>

lemma find_member: "find P xs = Some x \<Longrightarrow> x \<in> set xs \<and> P x"
  by (auto simp: find_Some_iff)

interpretation selector: group_choice px "select_choose px"
proof
  fix ps :: "nat list" and s assume "ps \<noteq> []"
  then show "\<exists>p s'. select_choose px ps s = Inr (p, s') \<and> listed px ps p"
    by (auto simp: select_choose_def named_proxy_def dest: find_member split: option.splits)
qed

lemma alive_loop_found: "alive_loop px url ps sel = (Some p, sel') \<Longrightarrow> p \<in> set ps \<and> AliveForTestUrl (px p) url"
  by (induction px url ps sel rule: alive_loop.induct) (auto split: if_splits)

interpretation fallback: group_choice px "fallback_choose px url"
proof
  fix ps :: "nat list" and s assume ps: "ps \<noteq> []"
  show "\<exists>p s'. fallback_choose px url ps s = Inr (p, s') \<and> listed px ps p"
  proof (cases "alive_loop px url ps s")
    case (Pair r s')
    with ps show ?thesis by (cases r) (auto simp: fallback_choose_def dest: alive_loop_found)
  qed
qed

text \<open>
  What the user selected wins while it is alive; without a selection the first proxy that is alive is
  chosen, and the first one of all where none is.
\<close>

lemma fallback_first_alive:
  "fallback_choose px url (p # ps) [] =
    Inr (case find (\<lambda>q. AliveForTestUrl (px q) url) (p # ps) of Some q \<Rightarrow> q | None \<Rightarrow> p, [])"
proof -
  have "alive_loop px url qs [] = (find (\<lambda>q. AliveForTestUrl (px q) url) qs, [])" for qs by (induction qs) auto
  then show ?thesis by (simp add: fallback_choose_def split: option.splits)
qed

lemma fallback_selected:
  assumes "distinct (map (\<lambda>q. ap_Name (px q)) ps)" "p \<in> set ps" "AliveForTestUrl (px p) url" "ap_Name (px p) \<noteq> []"
  shows "fallback_choose px url ps (ap_Name (px p)) = Inr (p, ap_Name (px p))"
proof -
  have "alive_loop px url ps (ap_Name (px p)) = (Some p, ap_Name (px p))"
    using assms by (induction ps) (auto simp: image_iff)
  then show ?thesis by (simp add: fallback_choose_def)
qed

text \<open>
  A selection that is not alive is forgotten, and the choice falls on a later proxy of the list that is
  alive, although earlier ones may be.
\<close>

lemma fallback_skips_earlier:
  assumes "ap_Name (px q) = sel" "sel \<noteq> []" "\<not> AliveForTestUrl (px q) url" "AliveForTestUrl (px r) url"
    and "sel \<notin> (\<lambda>q. ap_Name (px q)) ` set ps"
  shows "fallback_choose px url (ps @ q # r # rs) sel = Inr (r, [])"
proof -
  have "alive_loop px url (ps @ q # r # rs) sel = (Some r, [])" using assms by (induction ps) auto
  then show ?thesis by (simp add: fallback_choose_def)
qed

section \<open>The fastest proxy\<close>

lemma unat_add_le: "unat (a + b :: 'w::len word) \<le> unat a + unat b"
  by (simp add: unat_word_ariths)

lemma dead_delay: "\<not> AliveForTestUrl p url \<Longrightarrow> LastDelayForTestUrl p url = 0xffff"
  by (auto simp: AliveForTestUrl_def LastDelayForTestUrl_def Let_def split: option.splits)

lemma delay_max: "(d :: 16 word) \<le> 0xffff"
proof -
  have "(0xffff :: 16 word) = - 1" by simp
  then show ?thesis by (metis word_order.extremum)
qed

lemma fast_loop_result:
  assumes "fast_loop px url fastNode ps (f, d, e) = (f', d', e')" "d = LastDelayForTestUrl (px f) url"
  shows "d' = LastDelayForTestUrl (px f') url \<and> f' \<in> insert f (set ps) \<and>
    (\<forall>q \<in> insert f (set ps). d' \<le> LastDelayForTestUrl (px q) url) \<and>
    (e' \<longleftrightarrow> e \<and> (\<forall>x. fastNode = Some x \<longrightarrow> \<not> listed px ps x))"
  using assms
proof (induction px url fastNode ps "(f, d, e)" arbitrary: f d e rule: fast_loop.induct)
  case (1 px url fastNode)
  then show ?case by (auto simp: listed_def)
next
  case (2 px url fastNode proxy ps f d e)
  define e1 where "e1 = (case fastNode of Some x \<Rightarrow> if ap_Name (px proxy) = ap_Name (px x) then False else e | None \<Rightarrow> e)"
  have e1: "e1 \<and> (\<forall>x. fastNode = Some x \<longrightarrow> \<not> listed px ps x) \<longleftrightarrow> e \<and> (\<forall>x. fastNode = Some x \<longrightarrow> \<not> listed px (proxy # ps) x)"
    by (auto simp: e1_def listed_def split: option.splits if_splits)
  show ?case
  proof (cases "AliveForTestUrl (px proxy) url \<and> LastDelayForTestUrl (px proxy) url < d")
    case True
    then have "fast_loop px url fastNode ps (proxy, LastDelayForTestUrl (px proxy) url, e1) = (f', d', e')"
      using "2.prems"(1) by (simp add: e1_def Let_def)
    from "2.hyps"(2) [OF e1_def _ refl _ this refl] True have IH: "d' = LastDelayForTestUrl (px f') url \<and> f' \<in> insert proxy (set ps) \<and>
      (\<forall>q \<in> insert proxy (set ps). d' \<le> LastDelayForTestUrl (px q) url) \<and> (e' \<longleftrightarrow> e1 \<and> (\<forall>x. fastNode = Some x \<longrightarrow> \<not> listed px ps x))" by blast
    moreover have "d' \<le> LastDelayForTestUrl (px f) url" using IH True "2.prems"(2) by fastforce
    ultimately show ?thesis using e1 by auto
  next
    case False
    then have run: "fast_loop px url fastNode ps (f, d, e1) = (f', d', e')"
      using "2.prems"(1) by (cases "AliveForTestUrl (px proxy) url") (simp_all add: e1_def Let_def)
    have "d' = LastDelayForTestUrl (px f') url \<and> f' \<in> insert f (set ps) \<and>
      (\<forall>q \<in> insert f (set ps). d' \<le> LastDelayForTestUrl (px q) url) \<and> (e' \<longleftrightarrow> e1 \<and> (\<forall>x. fastNode = Some x \<longrightarrow> \<not> listed px ps x))"
      using "2.hyps"(1) [OF e1_def _ run "2.prems"(2)] "2.hyps"(3) [OF e1_def _ refl _ run "2.prems"(2)] False by blast
    moreover have "d \<le> LastDelayForTestUrl (px proxy) url" using False dead_delay delay_max by (metis not_less)
    ultimately show ?thesis using e1 "2.prems"(2) by (auto intro: order_trans)
  qed
qed

lemma fast_choose_cases:
  assumes "ps \<noteq> []"
  obtains (selected) p where "selected \<noteq> []" "find (\<lambda>p. AliveForTestUrl (px p) url \<and> ap_Name (px p) = selected) ps = Some p"
      "fast_choose px url selected tolerance ps fastNode = Inr (p, Some p)"
  | (fastest) fast where "selected = [] \<or> find (\<lambda>p. AliveForTestUrl (px p) url \<and> ap_Name (px p) = selected) ps = None"
      "fast \<in> set ps" "\<forall>q \<in> set ps. LastDelayForTestUrl (px fast) url \<le> LastDelayForTestUrl (px q) url"
      "fast_choose px url selected tolerance ps fastNode = Inr (fast, Some fast)"
      "\<And>f. fastNode = Some f \<Longrightarrow> \<not> listed px (tl ps) f \<or> \<not> AliveForTestUrl (px f) url \<or>
        LastDelayForTestUrl (px f) url > LastDelayForTestUrl (px fast) url + tolerance"
  | (kept) f fast where "selected = [] \<or> find (\<lambda>p. AliveForTestUrl (px p) url \<and> ap_Name (px p) = selected) ps = None"
      "fast \<in> set ps" "\<forall>q \<in> set ps. LastDelayForTestUrl (px fast) url \<le> LastDelayForTestUrl (px q) url"
      "fastNode = Some f" "listed px (tl ps) f" "AliveForTestUrl (px f) url"
      "LastDelayForTestUrl (px f) url \<le> LastDelayForTestUrl (px fast) url + tolerance"
      "fast_choose px url selected tolerance ps fastNode = Inr (f, Some f)"
proof -
  let ?find = "if selected \<noteq> [] then find (\<lambda>p. AliveForTestUrl (px p) url \<and> ap_Name (px p) = selected) ps else None"
  show thesis
  proof (cases ?find)
    case (Some p)
    then show thesis by (intro selected) (auto simp: fast_choose_def split: if_splits)
  next
    case None
    obtain p0 rest where ps: "ps = p0 # rest" using assms by (cases ps) auto
    obtain fast d e where loop: "fast_loop px url fastNode rest (p0, LastDelayForTestUrl (px p0) url, True) = (fast, d, e)" by (rule prod_cases3)
    note r = fast_loop_result [OF loop refl]
    have run: "fast_choose px url selected tolerance ps fastNode =
      Inr (case fastNode of Some f \<Rightarrow> if e \<or> \<not> AliveForTestUrl (px f) url \<or> LastDelayForTestUrl (px f) url > LastDelayForTestUrl (px fast) url + tolerance
             then (fast, Some fast) else (f, Some f) | None \<Rightarrow> (fast, Some fast))"
      using None loop unfolding fast_choose_def by (simp add: ps)
    have none: "selected = [] \<or> find (\<lambda>p. AliveForTestUrl (px p) url \<and> ap_Name (px p) = selected) ps = None"
      using None by (auto split: if_splits)
    have min: "fast \<in> set ps" "\<forall>q \<in> set ps. LastDelayForTestUrl (px fast) url \<le> LastDelayForTestUrl (px q) url"
      using r by (auto simp: ps)
    show thesis
    proof (cases "\<exists>f. fastNode = Some f \<and> listed px rest f \<and> AliveForTestUrl (px f) url \<and>
        LastDelayForTestUrl (px f) url \<le> LastDelayForTestUrl (px fast) url + tolerance")
      case True
      then obtain f where f: "fastNode = Some f" "listed px rest f" "AliveForTestUrl (px f) url"
        "LastDelayForTestUrl (px f) url \<le> LastDelayForTestUrl (px fast) url + tolerance" by blast
      moreover have "\<not> e" using r f(1,2) by blast
      moreover have "\<not> LastDelayForTestUrl (px f) url > LastDelayForTestUrl (px fast) url + tolerance" using f(4) by (simp add: not_less)
      ultimately show thesis using kept [OF none min f(1)] run by (simp add: ps)
    next
      case False
      then have bad: "\<not> listed px (tl ps) f \<or> \<not> AliveForTestUrl (px f) url \<or>
          LastDelayForTestUrl (px f) url > LastDelayForTestUrl (px fast) url + tolerance" if "fastNode = Some f" for f
        using that by (auto simp: ps not_le)
      have "fast_choose px url selected tolerance ps fastNode = Inr (fast, Some fast)"
      proof (cases fastNode)
        case (Some f)
        have "e \<or> \<not> AliveForTestUrl (px f) url \<or> LastDelayForTestUrl (px f) url > LastDelayForTestUrl (px fast) url + tolerance"
          using bad [OF Some] r Some by (auto simp: ps)
        with run show ?thesis by (simp only: Some option.case if_True)
      qed (use run in simp)
      then show thesis using fastest none min bad by blast
    qed
  qed
qed

interpretation urltest: group_choice px "fast_choose px url selected tolerance"
proof
  fix ps :: "nat list" and s assume ps: "ps \<noteq> []"
  show "\<exists>p s'. fast_choose px url selected tolerance ps s = Inr (p, s') \<and> listed px ps p"
  proof (rule fast_choose_cases [OF ps, of selected px url tolerance s])
    fix p assume "find (\<lambda>p. AliveForTestUrl (px p) url \<and> ap_Name (px p) = selected) ps = Some p"
      "fast_choose px url selected tolerance ps s = Inr (p, Some p)"
    then show ?thesis by (auto dest: find_member)
  next
    fix f assume "listed px (tl ps) f" "fast_choose px url selected tolerance ps s = Inr (f, Some f)"
    then show ?thesis using list.set_sel(2) [OF ps] by (auto simp: listed_def)
  qed auto
qed

section \<open>Properties\<close>

text \<open>
  C33.  The fastest proxy, with tolerance.  Where a selected proxy is alive it is chosen.  Otherwise the
  chosen proxy's delay is at most the tolerance above that of every proxy of the group, and the
  proxy chosen last is kept as long as it is alive, is listed after the first one, and is within the
  tolerance.  A proxy that is only listed first is not kept: then the choice has the smallest delay,
  whatever the tolerance.
\<close>

theorem urltest_within_tolerance:
  assumes "ps \<noteq> []"
  shows "\<exists>p. fast_choose px url selected tolerance ps fastNode = Inr (p, Some p) \<and> listed px ps p \<and>
    (if selected \<noteq> [] \<and> (\<exists>q \<in> set ps. AliveForTestUrl (px q) url \<and> ap_Name (px q) = selected)
     then AliveForTestUrl (px p) url \<and> ap_Name (px p) = selected
     else
       (\<forall>q \<in> set ps. unat (LastDelayForTestUrl (px p) url) \<le> unat (LastDelayForTestUrl (px q) url) + unat tolerance) \<and>
       (\<forall>f. fastNode = Some f \<longrightarrow> listed px (tl ps) f \<longrightarrow> AliveForTestUrl (px f) url \<longrightarrow>
          (\<forall>q \<in> set ps. LastDelayForTestUrl (px f) url \<le> LastDelayForTestUrl (px q) url + tolerance) \<longrightarrow> p = f) \<and>
       ((\<forall>f. fastNode = Some f \<longrightarrow> \<not> listed px (tl ps) f) \<longrightarrow>
          (\<forall>q \<in> set ps. LastDelayForTestUrl (px p) url \<le> LastDelayForTestUrl (px q) url)))"
    (is "\<exists>p. ?choice p")
proof (rule fast_choose_cases [OF assms, of selected px url tolerance fastNode])
  fix p assume "selected \<noteq> []" "find (\<lambda>p. AliveForTestUrl (px p) url \<and> ap_Name (px p) = selected) ps = Some p"
    "fast_choose px url selected tolerance ps fastNode = Inr (p, Some p)"
  then show "\<exists>p. ?choice p" by (auto dest!: find_member)
next
  fix fast assume none: "selected = [] \<or> find (\<lambda>p. AliveForTestUrl (px p) url \<and> ap_Name (px p) = selected) ps = None"
    and fast: "fast \<in> set ps" "\<forall>q \<in> set ps. LastDelayForTestUrl (px fast) url \<le> LastDelayForTestUrl (px q) url"
      "fast_choose px url selected tolerance ps fastNode = Inr (fast, Some fast)"
    and bad: "\<And>f. fastNode = Some f \<Longrightarrow> \<not> listed px (tl ps) f \<or> \<not> AliveForTestUrl (px f) url \<or>
      LastDelayForTestUrl (px f) url > LastDelayForTestUrl (px fast) url + tolerance"
  have "\<forall>q \<in> set ps. unat (LastDelayForTestUrl (px fast) url) \<le> unat (LastDelayForTestUrl (px q) url) + unat tolerance"
    using fast(2) by (auto simp: word_le_nat_alt intro: trans_le_add1)
  with none fast bad show "\<exists>p. ?choice p" by (intro exI [of _ fast]) (auto simp: find_None_iff not_less [symmetric])
next
  fix f fast assume none: "selected = [] \<or> find (\<lambda>p. AliveForTestUrl (px p) url \<and> ap_Name (px p) = selected) ps = None"
    and fast: "fast \<in> set ps" "\<forall>q \<in> set ps. LastDelayForTestUrl (px fast) url \<le> LastDelayForTestUrl (px q) url"
    and f: "fastNode = Some f" "listed px (tl ps) f" "AliveForTestUrl (px f) url"
      "LastDelayForTestUrl (px f) url \<le> LastDelayForTestUrl (px fast) url + tolerance"
      "fast_choose px url selected tolerance ps fastNode = Inr (f, Some f)"
  have "unat (LastDelayForTestUrl (px f) url) \<le> unat (LastDelayForTestUrl (px fast) url) + unat tolerance"
    using f(4) unat_add_le [of "LastDelayForTestUrl (px fast) url" tolerance] by (simp add: word_le_nat_alt)
  then have "unat (LastDelayForTestUrl (px f) url) \<le> unat (LastDelayForTestUrl (px q) url) + unat tolerance" if "q \<in> set ps" for q
    using fast(2) that by (force simp: word_le_nat_alt)
  moreover have "listed px ps f" using f(2) list.set_sel(2) [OF assms] by (auto simp: listed_def)
  ultimately show "\<exists>p. ?choice p" using none f by (intro exI [of _ f]) (auto simp: find_None_iff)
qed

definition example_proxy :: "string \<Rightarrow> 16 word \<Rightarrow> AdapterProxy" where
  "example_proxy name delay = (NewProxy name AT_Socks5 True)
     \<lparr>ap_extra := [''u'' \<mapsto> \<lparr>ps_alive = True, ps_history = [\<lparr>dh_Time = 0, dh_Delay = delay\<rparr>]\<rparr>]\<rparr>"

definition example_proxies3 :: proxies where
  "example_proxies3 = (\<lambda>p. if p = 0 then example_proxy ''a'' 100 else if p = 1 then example_proxy ''b'' 120 else example_proxy ''c'' 300)"

theorem urltest_within_tolerance_witness:
  "fast_choose example_proxies3 ''u'' [] 50 [0, 1, 2] (Some 1) = Inr (1, Some 1)"
proof -
  have d: "LastDelayForTestUrl (example_proxies3 0) ''u'' = 100" "LastDelayForTestUrl (example_proxies3 1) ''u'' = 120"
    "LastDelayForTestUrl (example_proxies3 2) ''u'' = 300"
    by (simp_all add: example_proxies3_def example_proxy_def LastDelayForTestUrl_def NewProxy_def q_Last_def)
  have "AliveForTestUrl (example_proxies3 1) ''u''" "listed example_proxies3 [1, 2] 1"
    by (auto simp: example_proxies3_def example_proxy_def AliveForTestUrl_def listed_def)
  with urltest_within_tolerance [of "[0, 1, 2]" example_proxies3 "''u''" "[]" 50 "Some 1"] d show ?thesis by auto
qed

text \<open>
  C31.  No group panics, and every group chooses one of its own.  In whatever order providers are
  updated, calls of \<open>GetProxies\<close> interleave and dials fail, a selector, a fallback and a load-balance group return a
  proxy that has the name of one in the group's current list, which is the one a fresh computation
  from the providers gives.  So does a URL-test group that computes its answer, and it keeps that answer with the
  time.  A URL-test group whose kept answer is younger than its wait (ten seconds) returns the kept answer, which was
  listed when it was computed and need not be listed now; and a call that finds another one under way waits for it.
\<close>

theorem groups_choose_listed:
  assumes run: "group_run E px0 cnt pds gb F" and cnt: "\<And>pd. cnt pd < 2 ^ 32"
    and px: "\<And>p. ap_Name (px p) = ap_Name (px0 p) \<and> ap_Type (px p) = ap_Type (px0 p)"
    and len: "length (current_proxies E px pds gb) < 2 ^ 31"
  shows "(\<forall>s. se_base s = gb \<longrightarrow> (\<exists>p st. selectedProxy E now touch px (pds, s) = Inr (p, st) \<and> listed px (current_proxies E px pds gb) p)) \<and>
    (\<forall>f. fb_base f = gb \<longrightarrow> (\<exists>p st. findAliveProxy E now touch px (pds, f) = Inr (p, st) \<and> listed px (current_proxies E px pds gb) p)) \<and>
    (\<forall>l. lb_base l = gb \<longrightarrow> (\<exists>p st. lb_Unwrap E B now px m touch (pds, l) = Inr (p, st) \<and> listed px (current_proxies E px pds gb) p)) \<and>
    (\<forall>u. ut_base u = gb \<longrightarrow>
       (case still_kept t1 (ut_fastSingle u) of
          Some r \<Rightarrow> \<exists>pds'. ut_fast E now t1 t2 touch px (pds, u) = Some (Inr (rs_Val r, pds', u))
        | None \<Rightarrow>
            if sg_call (ut_fastSingle u) = None then
              \<exists>p pds' u'. ut_fast E now t1 t2 touch px (pds, u) = Some (Inr (p, pds', u')) \<and> listed px (current_proxies E px pds gb) p \<and>
                sg_result (ut_fastSingle u') = Some \<lparr>rs_Val = p, rs_Err = None, rs_Time = t2\<rparr>
            else ut_fast E now t1 t2 touch px (pds, u) = None))"
proof -
  have ok: "cache_ok E px cnt pds gb F"
    by (rule cache_ok_same_names [OF group_run_ok [OF run cnt] px])
  obtain ps pds1 gb1 where get: "GetProxies E now touch px (pds, gb) = (ps, pds1, gb1)" by (rule prod_cases3)
  have "\<exists>p st. selectedProxy E now touch px (pds, s) = Inr (p, st) \<and> listed px (current_proxies E px pds gb) p" if "se_base s = gb" for s
    using selector.pick_current [OF ok get len, of "se_selected s"] get that by (auto simp: selectedProxy_def)
  moreover have "\<exists>p st. findAliveProxy E now touch px (pds, f) = Inr (p, st) \<and> listed px (current_proxies E px pds gb) p" if "fb_base f = gb" for f
    using fallback.pick_current [OF ok get len, of "fb_testUrl f" "fb_selected f"] get that by (auto simp: findAliveProxy_def)
  moreover have "\<exists>p st. lb_Unwrap E B now px m touch (pds, l) = Inr (p, st) \<and> listed px (current_proxies E px pds gb) p" if "lb_base l = gb" for l
    using lb_Unwrap_listed [of E px cnt pds l F B now m touch] ok len that by auto
  moreover have "\<exists>p pds' u'. ut_fast E now t1 t2 touch px (pds, u) = Some (Inr (p, pds', u')) \<and> listed px (current_proxies E px pds gb) p \<and>
      sg_result (ut_fastSingle u') = Some \<lparr>rs_Val = p, rs_Err = None, rs_Time = t2\<rparr>"
    if u: "ut_base u = gb" "still_kept t1 (ut_fastSingle u) = None" "sg_call (ut_fastSingle u) = None" for u
  proof -
    obtain p f where p: "fast_choose px (ut_testUrl u) (ut_selected u) (ut_tolerance u) ps (ut_fastNode u) = Inr (p, f)"
      "listed px (current_proxies E px pds gb) p"
      using urltest.pick_current [OF ok get len] by blast
    have "ut_fast E now t1 t2 touch px (pds, u) = Some (Inr (p, pds1, u\<lparr>ut_base := gb1, ut_fastNode := f,
        ut_fastSingle := (ut_fastSingle u)\<lparr>sg_call := None, sg_result := Some \<lparr>rs_Val = p, rs_Err = None, rs_Time = t2\<rparr>\<rparr>\<rparr>))"
      using p(1) get u(1) by (simp add: ut_fast_def single_Do_run [OF u(2,3)])
    with p(2) show ?thesis by (intro exI conjI) (assumption | simp)+
  qed
  moreover have "\<exists>pds'. ut_fast E now t1 t2 touch px (pds, u) = Some (Inr (rs_Val r, pds', u))"
    if "still_kept t1 (ut_fastSingle u) = Some r" for u r
    by (simp add: ut_fast_def single_Do_kept [OF that])
  moreover have "ut_fast E now t1 t2 touch px (pds, u) = None"
    if "still_kept t1 (ut_fastSingle u) = None" "sg_call (ut_fastSingle u) \<noteq> None" for u
    using that by (simp add: ut_fast_def single_Do_wait)
  ultimately show ?thesis by (simp split: option.split)
qed

theorem groups_choose_listed_witness:
  "\<exists>p st. selectedProxy plain_env 0 True example_proxies3 (\<lambda>_. example_provider [0, 1], \<lparr>se_base = example_group, se_disableUDP = False, se_selected = ''b'', se_testUrl = ''u''\<rparr>) =
     Inr (p, st) \<and> listed example_proxies3 [0, 1] p"
proof -
  let ?s = "\<lparr>se_base = example_group, se_disableUDP = False, se_selected = ''b'', se_testUrl = ''u''\<rparr>"
  have run: "group_run plain_env example_proxies3 (\<lambda>_. 0) (\<lambda>_. example_provider [0, 1]) example_group {}"
    by (rule group_run.start) (simp_all add: example_group_def example_provider_def)
  have cur: "current_proxies plain_env example_proxies3 (\<lambda>_. example_provider [0, 1]) example_group = [0, 1]"
    by (rule example_current)
  from groups_choose_listed [OF run, of example_proxies3 0 True] cur show ?thesis by auto
qed

end
