(* ===== verification/Spec2Isabelle.thy ===== *)
theory Spec2Isabelle
  imports Rule_Parser Tunnel Resolver Deque Domain_Set Group_Order Tuic Hysteria Socks5 Sniffer Outbound_Groups
begin

text \<open>
  \<^bold>\<open>The routing core of Flowly.\<close>  Flowly is an Android client around a Go proxy core, \<open>mihomo\<close>, under
  \<open>src/core/src/foss/golang/clash\<close>; paths below are relative to that directory.  A connection comes in
  with its metadata; the tunnel repairs the metadata, asks the DNS enhancer which name stands behind
  a fake address, runs the rules until one matches, and dials through the proxy the rule names.
  The configuration reader builds the rules, the named rule lists, the hosts table and the order of
  the proxy groups, and rejects configurations that would not end.

  \<^bold>\<open>Theories.\<close>

    \<^item> \<open>Prelude\<close>: results as sums, package \<open>strings\<close>, shared lemmas.  \<open>Netip\<close>, \<open>Netip_Text\<close>: addresses,
      prefixes and their text.  \<open>Wire\<close>: big-endian numbers, readers over a byte stream, and the interface
      of a reassembler of datagrams (locale \<open>reassembler\<close>).

    \<^item> \<open>Wildcard\<close> (\<open>component/wildcard\<close>), \<open>Domain_Trie\<close> (\<open>component/trie\<close>), \<open>Int_Ranges\<close>
      (\<open>common/utils/range.go\<close>, \<open>ranges.go\<close>), \<open>Enums\<close> and \<open>Metadata\<close> (\<open>constant\<close>): the data the rules look at.

    \<^item> \<open>Rules\<close> (\<open>rules/common\<close>, \<open>rules/logic\<close>, \<open>rules/provider\<close>): one constructor per rule type; matching
      passes a state of metadata and pending lookups through the tree of a logic rule.  It is defined
      with fuel, because a rule set may refer to itself.  \<open>Rule_Semantics\<close> gives rules without lookups
      their logical reading; \<open>Match_Frame\<close> says what matching may change, as a locale over the helper.

    \<^item> \<open>Sub_Rules\<close>, \<open>Rule_Parser\<close> (\<open>config/config.go\<close>, \<open>rules/parser.go\<close>, \<open>rules/logic\<close>): from configuration
      lines to checked rules; an accepted configuration needs only the fuel that its size gives (one unit
      per named list and one more), and panics only in rules that give a whole address as a suffix or on a
      truncated text of the ASN database.

    \<^item> \<open>Hosts\<close> (\<open>component/resolver/host.go\<close>, \<open>config\<close>): alias chains.  \<open>Group_Order\<close> (\<open>config/utils.go\<close>): the
      order of the proxy groups and the dialer references; both phases of the sort are instances of
      the locale \<open>peeling\<close>.

    \<^item> \<open>Tunnel\<close> (\<open>tunnel/tunnel.go\<close>): from metadata to proxy, with lazy DNS and process lookups and the
      retries of dialing.

    \<^item> \<open>Domain_Set\<close> (\<open>component/trie/domain_set.go\<close>): the compressed set of domains made from a trie.

    \<^item> \<open>LRU_Cache\<close> (\<open>common/lru\<close>), \<open>Fake_IP\<close> (\<open>component/fakeip\<close>), \<open>Dns_Handler\<close> (\<open>dns\<close>): the fake-IP pool over a
      store (locale \<open>fake_store\<close>, interpreted by the memory store) and the chain of DNS handlers.
      \<open>Arc_Cache\<close> (\<open>common/arc\<close>), \<open>Dns_Cache\<close>, \<open>Resolver\<close> (\<open>dns\<close>, \<open>common/picker\<close>): the resolver with its policies,
      its fallback servers and its cache, the adaptive one or the LRU cache, which both meet the locale
      \<open>expiring_cache\<close>; a resolver at work is the step relation \<open>resolver_run\<close>.  \<open>Float64\<close>: rounding.
      \<open>Deque\<close> (\<open>common/deque\<close>): the ring buffer, refined to a list (locale \<open>list_queue\<close>).

    \<^item> \<open>Single_Do\<close> (\<open>common/singledo\<close>), \<open>Proxy_Health\<close> (\<open>adapter/adapter.go\<close>, \<open>adapter/provider\<close>), \<open>Group_Base\<close>,
      \<open>Load_Balance\<close>, \<open>Outbound_Groups\<close> (\<open>adapter/outboundgroup\<close>): which proxies work and which one a group
      takes.  Proxies and providers are shared objects, addressed by numbers in a store.  The rule by
      which a kind of group chooses is an instance of the locale \<open>group_choice\<close>; the interleaving of
      updates and calls is the step relation \<open>group_run\<close>, that of callers of \<open>Do\<close> is \<open>flight_step\<close>.

    \<^item> \<open>Tuic\<close> (\<open>transport/tuic/v5\<close>), \<open>Hysteria\<close> (\<open>transport/hysteria/core\<close>): the messages of two proxy protocols,
      and the fragmentation of UDP packets with its reassembly, both instances of \<open>reassembler\<close>.
      \<open>Socks5\<close> (\<open>transport/socks5\<close>): addresses, the UDP header, and the handshakes of client and server as
      two processes that talk, with the step relation \<open>talk\<close>.

    \<^item> \<open>Sniffer\<close> (\<open>component/sniffer\<close>): the names in the first bytes of TLS and HTTP connections, and the
      dispatcher that puts them into the metadata; each loop over the map of sniffers has an order of its own.

    \<^item> This theory connects the enhancer to the tunnel: the answer to a DNS query and the connection
      that follows it.

  \<^bold>\<open>How the model corresponds to the code.\<close>  A struct is a record, an enumeration or an interface with
  known implementations a datatype, a fallible function returns a sum with the error on the left,
  and a panic of the runtime is an error of its own, so that theorems can exclude it or exhibit it.
  A function that changes its receiver returns the changed record.  Loops are recursive functions
  with a termination proof; a loop that may run forever is a \<open>partial_function\<close> over options
  (\<open>Hosts\<close>) or has fuel (\<open>Rules\<close>).  The iteration order of a Go map is an association list or an
  argument.  Machine integers that can wrap are words.  A string is a list of bytes; lower case, the
  case-insensitive comparison and the spaces of package \<open>strings\<close> are those of ASCII, where the source has those of
  Unicode.  Regular expressions, geographic databases,
  the upstream resolver, process lookup, the network and the clock are arguments, and what is
  relied on of them is stated as named hypotheses such as \<open>last_ip_law\<close> and \<open>set_rcode_law\<close>.

  \<^bold>\<open>What is shown.\<close>  Each matcher decides its specification (wildcards, trie, ranges, rules).  Readers and
  printers are inverse to each other.  The checks of the configuration accept exactly the acyclic
  references and bound the matching of rules, which ends with a result but for two panics that are named.  Routing
  picks the first usable rule and, when it returns, has asked for one name at most once.  The cache refines a
  recency list and the deque a list (but for its copying operations and popping iterators), the fake-IP pool keeps names and
  addresses one-to-one, fragmented UDP packets are put together again in whatever order they
  arrive, a group that computes its choice takes it from its present proxies, load balancing starves none, and a client that connects to
  a fake address is routed by the name it asked for.  The compressed set agrees with the trie, the two
  sides of a SOCKS5 handshake agree, sniffing reads the name a TLS client sends, and a resolver
  with fallback servers serves no poisoned answer as long as those servers and the ones of the policies give none.
  Where the code does not do what it means to, a theorem exhibits the behaviour.

  \<^bold>\<open>Not modelled.\<close>  The Android application (Kotlin, Java, C++) and the bridge to it; the other transports and
  the cryptography of all of them; inbound listeners and outbound adapters; the fetching of subscriptions; the
  REST interface; upstream DNS clients; the QUIC sniffer; the binary format
  and the key enumeration of the compressed set; the persistent cache.  They are input and output,
  wrappers of third-party packages, or concurrent code whose correctness is a matter of
  timing.
\<close>

section \<open>The tunnel asks the enhancer\<close>

text \<open>
  \<open>component/resolver/enhancer.go\<close>: the functions the tunnel calls forward to the enhancer that was
  installed last.  \<open>with_enhancer\<close> gives a \<open>world\<close> those answers.
\<close>

definition with_enhancer :: "'s store_ops \<Rightarrow> clock \<Rightarrow> 's ResolverEnhancer option \<Rightarrow> world \<Rightarrow> world" where
  "with_enhancer S clock mapper W =
     W\<lparr>MappingEnabled := (case mapper of Some h \<Rightarrow> en_MappingEnabled h | None \<Rightarrow> False),
       IsFakeIP := (\<lambda>ip. case mapper of Some h \<Rightarrow> en_IsFakeIP h ip | None \<Rightarrow> False),
       FindHostByIP := (\<lambda>ip. case mapper of Some h \<Rightarrow> fst (en_FindHostByIP S clock ip h) | None \<Rightarrow> None)\<rparr>"

text \<open>
  C34.  From a DNS query to the connection.  A client asks for a name and is answered with a fake
  address; when it connects to that address, \<open>preHandleMetadata\<close> puts the name, in lower case, back
  into the metadata, drops the address and marks the connection as a fake-IP one.
\<close>

theorem fake_ip_connection_recovers_host:
  fixes E :: "memoryStore dns_env"
  assumes ops: "de_ops E = memory_ops clock" and law: "set_rcode_law E" "last_ip_law L"
    and q: "msg_Question r = q # qs" "q_Qtype q = TypeA"
    and mode: "en_mode h = DNSFakeIP" "not_in_hosts E h (trim_dots (q_Name q))"
    and skip: "en_fakeIPSkipper h = Some sk"
      "ShouldSkipped (de_fuel E) (de_rules E) sk (trim_dots (q_Name q)) = Inr False"
    and pool: "pool_New L (memory_ops clock) (newMemoryStore sz) net = Some p0" "Is4 (p_addr net)"
      "pool_run (memory_ops clock) p0 p" "en_fakeIPPool h = Some p"
    and serve: "ServeMsg E h r (h, t) = Some (Inr msg, (h', tp))"
    and m: "mHost m = []" "mDstIP m \<in> set (msgToIP msg)"
  shows "preHandleMetadata (with_enhancer (de_ops E) clock' (Some h') W) T m =
    Some (Inr (m\<lparr>mHost := to_lower (trim_dots (q_Name q)), mDNSMode := DNSFakeIP, mDstIP := NoAddr\<rparr>))"
proof -
  obtain a where "msgToIP msg = [a]" and fake: "en_IsFakeIP h' a" "en_MappingEnabled h'"
    and host: "fst (en_FindHostByIP (de_ops E) clock' a h') = Some (to_lower (trim_dots (q_Name q)))"
    and valid: "IsValid a"
    using fake_ip_answer [OF ops law q mode skip pool, of t clock'] serve by auto
  then have "mDstIP m = a" using m(2) by simp
  with fake host valid m(1) show ?thesis
    by (simp add: preHandleMetadata_def needLookupIP_def with_enhancer_def)
qed

theorem fake_ip_connection_recovers_host_witness:
  "\<exists>h' a. preHandleMetadata (with_enhancer (de_ops example_dns) (\<lambda>_. 0) (Some h') example_world) example_tunnel
       (zeroMetadata\<lparr>mDstIP := a\<rparr>) =
     Some (Inr (zeroMetadata\<lparr>mDstIP := NoAddr, mHost := ''x'', mDNSMode := DNSFakeIP\<rparr>))"
proof -
  obtain p where p: "pool_New example_last (memory_ops (\<lambda>_. 0)) (newMemoryStore 1000) (example_net 0xC6120000) = Some p"
    using example_pool by blast
  let ?h = "example_enhancer (Some p) False" and ?q = "\<lparr>q_Name = ''x.'', q_Qtype = TypeA, q_INET = True\<rparr>"
  have host: "to_lower (trim_dots (q_Name ?q)) = ''x''" by (simp add: trim_dots_def lower_eval)
  obtain msg h' a where serve: "ServeMsg example_dns ?h (example_query ''x.'' TypeA) (?h, []) = Some (Inr msg, (h', DNSTypeFakeIP))"
    and ips: "msgToIP msg = [a]"
    using example_fake [of "''x.''", OF _ p, of "[]" "\<lambda>_. 0"] by auto
  have "preHandleMetadata (with_enhancer (de_ops example_dns) (\<lambda>_. 0) (Some h') example_world) example_tunnel
      (zeroMetadata\<lparr>mDstIP := a\<rparr>) =
    Some (Inr (zeroMetadata\<lparr>mDstIP := a, mHost := to_lower (trim_dots (q_Name ?q)), mDNSMode := DNSFakeIP, mDstIP := NoAddr\<rparr>))"
    by (rule fake_ip_connection_recovers_host [OF example_setup(1) example_dns_law example_last_law example_setup(2) _
          example_setup(3-6) p example_setup(7) pool_run.start example_setup(8) serve])
      (simp_all add: ips zeroMetadata_def)
  then have "preHandleMetadata (with_enhancer (de_ops example_dns) (\<lambda>_. 0) (Some h') example_world) example_tunnel
      (zeroMetadata\<lparr>mDstIP := a\<rparr>) =
    Some (Inr (zeroMetadata\<lparr>mDstIP := NoAddr, mHost := ''x'', mDNSMode := DNSFakeIP\<rparr>))"
    unfolding host by simp
  then show ?thesis by blast
qed

end
